(* ===== verification/Prelude.thy ===== *)
theory Prelude
  imports Main "HOL-Library.Word"
begin

text \<open>
  Shared vocabulary of the quilldb development: the exception classes the engine raises
  (\<^verbatim>\<open>src/src/quilldb/errors.py\<close>, plus the built-in Python exceptions its code can raise), results
  as sums, Python byte strings with their slices and slice assignments, and the big-endian integer
  conversions (\<^verbatim>\<open>int.to_bytes\<close>, \<^verbatim>\<open>int.from_bytes\<close>) every on-disk structure is written with.
  The collections \<open>codec_simps\<close> and \<open>layout_simps\<close> hold the rewrite rules the component
  theories share.
\<close>

unbundle bit_operations_syntax

named_theorems codec_simps \<open>rewrite rules for results and integer codecs\<close>
named_theorems layout_simps \<open>rewrite rules for byte-string slices and slice assignments\<close>

section \<open>Errors and results\<close>

text \<open>
  One constructor per exception class. Messages are not modelled; the two classes whose
  \<^verbatim>\<open>__init__\<close> stores data keep it. The first group are Python's own exceptions.
\<close>

datatype err =
    ValueError
  | IndexError
  | KeyError
  | TypeError
  | AssertionError
  | OverflowError
  | ZeroDivisionError
  | UnicodeEncodeError
  | UnicodeDecodeError
  | RecursionError
  | FileExistsError
  | FileNotFoundError
  | CorruptDatabaseError
  | InvalidHeaderError
  | PageOutOfRangeError
  | InvalidPageTypeError
  | MalformedCellError
  | MalformedRecordError
  | OverflowCycleError
  | BTreeInvariantError
  | JournalCorruptError
  | PageFullError
  | DuplicateRowIDError
  | PoolExhaustedError
  | UnsupportedFeatureError
  | SQLSyntaxError
  | TableNotFoundError
  | TableAlreadyExistsError
  | IndexAlreadyExistsError
  | UniqueViolationError string
  | ColumnNotFoundError
  | AmbiguousColumnError
  | AggregateError
  | IntegerOverflowError
  | SortLimitExceededError
  | ColumnCountError
  | ParameterCountError
  | TypeMismatchError
  | TransactionError
  | DeadlockError int "(int \<times> string \<times> int) list"
  | LockTimeoutError
  | ThreadingError

text \<open>The subclasses of \<^verbatim>\<open>CorruptDatabaseError\<close>: ``the FILE is bad''.\<close>

fun is_corrupt :: "err \<Rightarrow> bool" where
  "is_corrupt CorruptDatabaseError = True"
| "is_corrupt InvalidHeaderError = True"
| "is_corrupt PageOutOfRangeError = True"
| "is_corrupt InvalidPageTypeError = True"
| "is_corrupt MalformedCellError = True"
| "is_corrupt MalformedRecordError = True"
| "is_corrupt OverflowCycleError = True"
| "is_corrupt BTreeInvariantError = True"
| "is_corrupt JournalCorruptError = True"
| "is_corrupt _ = False"

type_synonym 'a res = "err + 'a"

definition bind_res :: "'a res \<Rightarrow> ('a \<Rightarrow> 'b res) \<Rightarrow> 'b res" where
  "bind_res m f = (case m of Inl e \<Rightarrow> Inl e | Inr x \<Rightarrow> f x)"

fun map_res :: "('a \<Rightarrow> 'b res) \<Rightarrow> 'a list \<Rightarrow> 'b list res" where
  "map_res f [] = Inr []"
| "map_res f (x # xs) = bind_res (f x) (\<lambda>y. bind_res (map_res f xs) (\<lambda>ys. Inr (y # ys)))"

section \<open>Byte strings\<close>

type_synonym byte = "8 word"
type_synonym bytes = "8 word list"

text \<open>\<^verbatim>\<open>xs[a:b]\<close> for non-negative bounds: an upper bound past the end is clipped.\<close>

definition py_slice :: "nat \<Rightarrow> nat \<Rightarrow> 'a list \<Rightarrow> 'a list" where
  "py_slice a b xs = take (b - a) (drop a xs)"

text \<open>\<^verbatim>\<open>xs[a:b] = ys\<close> for non-negative bounds.\<close>

definition py_put :: "nat \<Rightarrow> nat \<Rightarrow> 'a list \<Rightarrow> 'a list \<Rightarrow> 'a list" where
  "py_put a b ys xs = take a xs @ ys @ drop (max a b) xs"

text \<open>\<^verbatim>\<open>xs[i]\<close> and \<^verbatim>\<open>xs[i] = v\<close> for a non-negative index: out of range raises.\<close>

definition py_get :: "'a list \<Rightarrow> nat \<Rightarrow> 'a res" where
  "py_get xs i = (if i < length xs then Inr (xs ! i) else Inl IndexError)"

definition py_set :: "'a list \<Rightarrow> nat \<Rightarrow> 'a \<Rightarrow> 'a list res" where
  "py_set xs i v = (if i < length xs then Inr (xs[i := v]) else Inl IndexError)"

section \<open>Big-endian integers\<close>

fun be_encode :: "nat \<Rightarrow> nat \<Rightarrow> bytes" where
  "be_encode 0 v = []"
| "be_encode (Suc w) v = be_encode w (v div 256) @ [word_of_nat v]"

definition be_decode :: "bytes \<Rightarrow> nat" where
  "be_decode bs = foldl (\<lambda>acc b. acc * 256 + unat b) 0 bs"

text \<open>\<^verbatim>\<open>v.to_bytes(w, "big")\<close> and \<^verbatim>\<open>v.to_bytes(w, "big", signed=True)\<close>.\<close>

definition to_bytes :: "nat \<Rightarrow> nat \<Rightarrow> bytes res" where
  "to_bytes w v = (if v < 256 ^ w then Inr (be_encode w v) else Inl OverflowError)"

definition to_bytes_signed :: "nat \<Rightarrow> int \<Rightarrow> bytes res" where
  "to_bytes_signed w v =
     (if - (2 ^ (8 * w)) \<le> 2 * v \<and> 2 * v < 2 ^ (8 * w)
      then Inr (be_encode w (nat (v mod 2 ^ (8 * w)))) else Inl OverflowError)"

text \<open>\<^verbatim>\<open>int.from_bytes(bs, "big", signed=True)\<close>.\<close>

definition from_bytes_signed :: "bytes \<Rightarrow> int" where
  "from_bytes_signed bs =
     (let u = int (be_decode bs) in
      if 2 ^ (8 * length bs) \<le> 2 * u then u - 2 ^ (8 * length bs) else u)"

section \<open>Lemmas on results\<close>

lemma bind_res_simps [simp, codec_simps]:
  "bind_res (Inr x) f = f x"
  "bind_res (Inl e) f = Inl e"
  by (simp_all add: bind_res_def)

lemma bind_res_eq_Inr:
  "bind_res m f = Inr y \<longleftrightarrow> (\<exists>x. m = Inr x \<and> f x = Inr y)"
  by (cases m) simp_all

lemma bind_res_eq_Inl:
  "bind_res m f = Inl e \<longleftrightarrow> m = Inl e \<or> (\<exists>x. m = Inr x \<and> f x = Inl e)"
  by (cases m) auto

lemma bind_resE [elim]:
  assumes "bind_res m f = Inr y"
  obtains x where "m = Inr x" and "f x = Inr y"
  using assms by (auto simp: bind_res_eq_Inr)

lemma bind_res_cong [fundef_cong]:
  "m = m' \<Longrightarrow> (\<And>x. m' = Inr x \<Longrightarrow> f x = g x) \<Longrightarrow> bind_res m f = bind_res m' g"
  by (cases m') simp_all

lemma map_res_eq_Inr_length: "map_res f xs = Inr ys \<Longrightarrow> length ys = length xs"
  by (induction xs arbitrary: ys) (auto simp: bind_res_eq_Inr)

lemma map_res_eq_Inr_nth:
  "map_res f xs = Inr ys \<Longrightarrow> i < length xs \<Longrightarrow> f (xs ! i) = Inr (ys ! i)"
  by (induction xs arbitrary: ys i) (auto simp: bind_res_eq_Inr nth_Cons split: nat.splits)

lemma map_res_Inr:
  "(\<And>x. x \<in> set xs \<Longrightarrow> f x = Inr (g x)) \<Longrightarrow> map_res f xs = Inr (map g xs)"
  by (induction xs) simp_all

lemma map_res_append:
  "map_res f (xs @ ys) =
     bind_res (map_res f xs) (\<lambda>us. bind_res (map_res f ys) (\<lambda>vs. Inr (us @ vs)))"
  by (induction xs) (auto simp: bind_res_def split: sum.splits)

section \<open>Lemmas on slices and slice assignments\<close>

lemma length_py_slice [simp, layout_simps]:
  "length (py_slice a b xs) = min (b - a) (length xs - a)"
  by (simp add: py_slice_def)

lemma length_py_put [layout_simps]:
  "a \<le> b \<Longrightarrow> b \<le> length xs \<Longrightarrow> length ys = b - a \<Longrightarrow> length (py_put a b ys xs) = length xs"
  by (simp add: py_put_def)

lemma py_slice_put_same [layout_simps]:
  "a \<le> b \<Longrightarrow> b \<le> length xs \<Longrightarrow> length ys = b - a \<Longrightarrow> py_slice a b (py_put a b ys xs) = ys"
  by (simp add: py_slice_def py_put_def)

lemma py_slice_put_before [layout_simps]:
  "d \<le> a \<Longrightarrow> a \<le> length xs \<Longrightarrow> py_slice c d (py_put a b ys xs) = py_slice c d xs"
  by (cases "c \<le> d") (simp_all add: py_slice_def py_put_def drop_take)

lemma py_slice_put_after [layout_simps]:
  "a \<le> b \<Longrightarrow> b \<le> c \<Longrightarrow> b \<le> length xs \<Longrightarrow> length ys = b - a \<Longrightarrow>
   py_slice c d (py_put a b ys xs) = py_slice c d xs"
  by (simp add: py_slice_def py_put_def)

lemma nth_py_put [layout_simps]:
  "a \<le> b \<Longrightarrow> b \<le> length xs \<Longrightarrow> length ys = b - a \<Longrightarrow> i < length xs \<Longrightarrow>
   py_put a b ys xs ! i = (if a \<le> i \<and> i < b then ys ! (i - a) else xs ! i)"
  by (auto simp: py_put_def nth_append)

lemma py_slice_append_left [layout_simps]:
  "b \<le> length xs \<Longrightarrow> py_slice a b (xs @ ys) = py_slice a b xs"
  by (cases "a \<le> b") (simp_all add: py_slice_def)

lemma py_slice_append_right [layout_simps]:
  "length xs \<le> a \<Longrightarrow> py_slice a b (xs @ ys) = py_slice (a - length xs) (b - length xs) ys"
  by (simp add: py_slice_def)

lemma py_slice_all [simp]: "py_slice 0 (length xs) xs = xs"
  by (simp add: py_slice_def)

lemma py_put_prefix:
  "length pre = a \<Longrightarrow> length mid = b - a \<Longrightarrow> a \<le> b \<Longrightarrow> py_put a b ys (pre @ mid @ suf) = pre @ ys @ suf"
  by (simp add: py_put_def)

lemma py_slice_prefix:
  "length pre = a \<Longrightarrow> length mid = b - a \<Longrightarrow> py_slice a b (pre @ mid @ suf) = mid"
  by (simp add: py_slice_def)

section \<open>Regions of a buffer left alone\<close>

text \<open>\<open>same_outside a b p q\<close>: \<open>q\<close> has \<open>p\<close>'s length and bytes except between \<open>a\<close> and \<open>b\<close>.\<close>

definition same_outside :: "nat \<Rightarrow> nat \<Rightarrow> 'a list \<Rightarrow> 'a list \<Rightarrow> bool" where
  "same_outside a b p q \<longleftrightarrow>
     length q = length p \<and> (\<forall>i < length p. (i < a \<or> b \<le> i) \<longrightarrow> q ! i = p ! i)"

lemma same_outside_refl [simp]: "same_outside a b p p"
  by (simp add: same_outside_def)

lemma same_outside_trans:
  "same_outside a b p q \<Longrightarrow> same_outside c d q r \<Longrightarrow> same_outside (min a c) (max b d) p r"
  by (auto simp: same_outside_def)

lemma same_outside_mono:
  "same_outside a b p q \<Longrightarrow> a' \<le> a \<Longrightarrow> b \<le> b' \<Longrightarrow> same_outside a' b' p q"
  by (auto simp: same_outside_def)

lemma same_outside_put:
  "a \<le> b \<Longrightarrow> b \<le> length p \<Longrightarrow> length ys = b - a \<Longrightarrow> same_outside a b p (py_put a b ys p)"
  by (auto simp: same_outside_def length_py_put nth_py_put)

lemma same_outside_length: "same_outside a b p q \<Longrightarrow> length q = length p"
  by (simp add: same_outside_def)

lemma same_outside_nth: "same_outside a b p q \<Longrightarrow> i < length p \<Longrightarrow> i < a \<or> b \<le> i \<Longrightarrow> q ! i = p ! i"
  by (auto simp: same_outside_def)

lemma same_outside_slice:
  assumes "same_outside a b p q" and "d \<le> a \<or> b \<le> c"
  shows "py_slice c d q = py_slice c d p"
proof (rule nth_equalityI)
  show "length (py_slice c d q) = length (py_slice c d p)"
    using assms(1) by (simp add: same_outside_def)
next
  fix i assume "i < length (py_slice c d q)"
  then have "i < d - c" "c + i < length p" using assms(1) by (auto simp: same_outside_def)
  then show "py_slice c d q ! i = py_slice c d p ! i"
    using assms same_outside_nth [OF assms(1), of "c + i"]
    by (auto simp: py_slice_def same_outside_def)
qed

section \<open>Lemmas on big-endian integers\<close>

lemma length_be_encode [simp, codec_simps]: "length (be_encode w v) = w"
  by (induction w v rule: be_encode.induct) simp_all

lemma be_decode_Nil [simp]: "be_decode [] = 0"
  by (simp add: be_decode_def)

lemma be_decode_snoc [simp]: "be_decode (bs @ [b]) = be_decode bs * 256 + unat b"
  by (simp add: be_decode_def)

lemma be_decode_encode_mod: "be_decode (be_encode w v) = v mod 256 ^ w"
proof (induction w v rule: be_encode.induct)
  case (1 v)
  then show ?case by simp
next
  case (2 w v)
  have "v mod 256 ^ Suc w = (v div 256) mod 256 ^ w * 256 + v mod 256"
    by (metis mod_mult2_eq mult.commute power_Suc)
  with 2 show ?case
    by (simp add: unat_of_nat)
qed

lemma be_decode_encode [simp, codec_simps]: "v < 256 ^ w \<Longrightarrow> be_decode (be_encode w v) = v"
  by (simp add: be_decode_encode_mod)

lemma unat_byte_less: "unat (b :: byte) < 256"
  using unsigned_less [of b, where 'a = nat] by simp

lemma be_decode_less: "be_decode bs < 256 ^ length bs"
proof (induction bs rule: rev_induct)
  case (snoc b bs)
  have "unat b < 256" by (rule unat_byte_less)
  with snoc show ?case by simp
qed simp

lemma be_encode_decode: "be_encode (length bs) (be_decode bs) = bs"
proof (induction bs rule: rev_induct)
  case (snoc b bs)
  have "(be_decode bs * 256 + unat b) div 256 = be_decode bs"
    using unat_byte_less [of b] by simp
  moreover have "(256 :: byte) = 0" by simp
  then have "(word_of_nat (be_decode bs * 256 + unat b) :: byte) = b"
    by (simp only: of_nat_add of_nat_mult of_nat_numeral mult_zero_right add_0_left of_nat_unat ucast_id)
  ultimately show ?case using snoc by simp
qed simp

lemma to_bytes_eq_Inr: "to_bytes w v = Inr bs \<longleftrightarrow> v < 256 ^ w \<and> bs = be_encode w v"
  by (auto simp: to_bytes_def)

lemma from_bytes_signed_to_bytes:
  assumes "to_bytes_signed w v = Inr bs"
  shows "from_bytes_signed bs = v" and "length bs = w"
proof -
  from assms have r: "- (2 ^ (8 * w)) \<le> 2 * v" "2 * v < 2 ^ (8 * w)"
    and bs: "bs = be_encode w (nat (v mod 2 ^ (8 * w)))"
    by (auto simp: to_bytes_signed_def split: if_splits)
  show len: "length bs = w" by (simp add: bs)
  have m: "0 \<le> v mod 2 ^ (8 * w)" "v mod 2 ^ (8 * w) < 2 ^ (8 * w)" by simp_all
  have "(256::nat) ^ w = 2 ^ (8 * w)" by (simp add: power_mult)
  moreover from m have "nat (v mod 2 ^ (8 * w)) < 2 ^ (8 * w)"
    by (simp add: nat_less_iff)
  ultimately have dec: "int (be_decode bs) = v mod 2 ^ (8 * w)"
    using m by (simp add: bs)
  show "from_bytes_signed bs = v"
  proof (cases "0 \<le> v")
    case True
    with r have "v mod 2 ^ (8 * w) = v" by simp
    with r show ?thesis by (simp add: from_bytes_signed_def dec len)
  next
    case False
    with r have "v mod 2 ^ (8 * w) = v + 2 ^ (8 * w)"
      using mod_pos_pos_trivial [of "v + 2 ^ (8 * w)" "2 ^ (8 * w)"] by simp
    with r False show ?thesis by (simp add: from_bytes_signed_def dec len)
  qed
qed

end
