(* ===== verification/Varint.thy ===== *)
theory Varint
  imports Prelude
begin

text \<open>
  The variable-length integers of \<^verbatim>\<open>src/src/quilldb/codec/varint.py\<close>: big-endian, seven payload
  bits per byte, the ninth byte carrying eight. \<open>encode_uvarint\<close> and \<open>decode_uvarint\<close> follow the
  source's loops; the lemmas show that decoding inverts encoding at any offset and with any
  trailing bytes, how many bytes an encoding has, and what a truncated buffer does.
\<close>

section \<open>Definitions\<close>

text \<open>\<^verbatim>\<open>int.bit_length\<close> on a non-negative integer.\<close>

fun bit_length :: "nat \<Rightarrow> nat" where
  "bit_length n = (if n = 0 then 0 else Suc (bit_length (n div 2)))"

declare bit_length.simps [simp del]

text \<open>The \<^verbatim>\<open>while shift > 0\<close> loop: flagged groups from the top, the last one unflagged.\<close>

fun uvarint_groups :: "nat \<Rightarrow> nat \<Rightarrow> bytes" where
  "uvarint_groups value shift =
     (if 0 < shift
      then word_of_nat ((drop_bit shift value AND 0x7F) OR 0x80) # uvarint_groups value (shift - 7)
      else [word_of_nat (value AND 0x7F)])"

declare uvarint_groups.simps [simp del]

definition encode_uvarint :: "int \<Rightarrow> bytes res" where
  "encode_uvarint i =
     (if i < 0 \<or> 2 ^ 64 \<le> i then Inl ValueError
      else
        let value = nat i in
        if value = 0 then Inr [0]
        else if 2 ^ 56 \<le> value then
          (let last_byte = value AND 0xFF; remainder = drop_bit 8 value in
           Inr (map (\<lambda>shift. word_of_nat ((drop_bit shift remainder AND 0x7F) OR 0x80))
                  [49, 42, 35, 28, 21, 14, 7, 0] @ [word_of_nat last_byte]))
        else Inr (uvarint_groups value ((bit_length value - 1) div 7 * 7)))"

text \<open>
  The \<^verbatim>\<open>for i in range(8)\<close> loop: it stops at an unflagged byte, or after eight flagged ones.
  The result is (value so far, bytes consumed, \<^verbatim>\<open>continued\<close>).
\<close>

function decode_uvarint_loop :: "bytes \<Rightarrow> nat \<Rightarrow> nat \<Rightarrow> nat \<Rightarrow> (nat \<times> nat \<times> bool) res" where
  "decode_uvarint_loop data offset i result =
     (if i < 8 then
        if length data \<le> offset + i then Inl MalformedRecordError
        else
          let cur_byte = data ! (offset + i);
              result' = push_bit 7 result OR unat (cur_byte AND 0x7F)
          in if cur_byte AND 0x80 = 0 then Inr (result', Suc i, False)
             else decode_uvarint_loop data offset (Suc i) result'
      else Inr (result, i, True))"
  by pat_completeness auto
termination
  by (relation "measure (\<lambda>(data, offset, i, result). 8 - i)") auto

declare decode_uvarint_loop.simps [simp del]

definition decode_uvarint :: "bytes \<Rightarrow> nat \<Rightarrow> (nat \<times> nat) res" where
  "decode_uvarint data offset =
     bind_res (decode_uvarint_loop data offset 0 0) (\<lambda>(result, consumed, continued).
       if continued then
         if length data \<le> offset + 8 then Inl MalformedRecordError
         else Inr (push_bit 8 result OR unat (data ! (offset + 8)), consumed + 1)
       else Inr (result, consumed))"

definition to_twos_complement :: "int \<Rightarrow> int" where
  "to_twos_complement value = value AND (2 ^ 64 - 1)"

definition from_twos_complement :: "int \<Rightarrow> int" where
  "from_twos_complement value = (if value AND 2 ^ 63 \<noteq> 0 then value - 2 ^ 64 else value)"

section \<open>Bits as arithmetic\<close>

lemma and_127 [codec_simps]: "(n::nat) AND 0x7F = n mod 128"
  using take_bit_eq_mask [of 7 n] by (simp add: take_bit_eq_mod mask_eq_exp_minus_1)

lemma and_255 [codec_simps]: "(n::nat) AND 0xFF = n mod 256"
  using take_bit_eq_mask [of 8 n] by (simp add: take_bit_eq_mod mask_eq_exp_minus_1)

lemma push_or [codec_simps]: "m < 2 ^ k \<Longrightarrow> push_bit k (n::nat) OR m = n * 2 ^ k + m"
proof -
  assume "m < 2 ^ k"
  then have m: "take_bit k m = m" by (simp add: take_bit_nat_eq_self_iff)
  have "push_bit k n AND m = 0"
    by (subst m [symmetric]) (auto simp: bit_eq_iff bit_simps)
  then have "push_bit k n OR m = push_bit k n + m"
    by (rule disjunctive_add_eq_or [symmetric])
  then show ?thesis by (simp add: push_bit_eq_mult)
qed

lemma or_128 [codec_simps]: "n < 128 \<Longrightarrow> (n::nat) OR 0x80 = n + 128"
  using push_or [of n 7 1] by (simp add: or.commute push_bit_eq_mult)

lemma flag_clear_iff: "(b :: byte) AND 0x80 = 0 \<longleftrightarrow> unat b < 128"
proof -
  have "b AND 0x80 = 0 \<longleftrightarrow> \<not> bit b 7"
    using and_exp_eq_0_iff_not_bit [of b 7] by simp
  moreover have "bit b 7 \<longleftrightarrow> bit (unat b) 7"
    by (simp add: bit_unsigned_iff)
  moreover have "bit (unat b) 7 \<longleftrightarrow> odd (unat b div 2 ^ 7)"
    by (rule bit_iff_odd)
  moreover have "unat b div 2 ^ 7 = (if unat b < 128 then 0 else 1)"
    using unat_byte_less [of b] div_nat_eqI [of 128 1 "unat b"] by simp
  ultimately show ?thesis by simp
qed

lemma low_bits [codec_simps]: "unat ((b :: byte) AND 0x7F) = unat b mod 128"
  by (simp add: unsigned_and_eq and_127)

lemma unat_word_of_nat_byte: "n < 256 \<Longrightarrow> unat (word_of_nat n :: byte) = n"
  by (simp add: unat_of_nat)

section \<open>Decoding what was encoded\<close>

lemma bit_length_bounds:
  "0 < n \<Longrightarrow> 0 < bit_length n \<and> 2 ^ (bit_length n - 1) \<le> n \<and> n < 2 ^ bit_length n"
proof (induction n rule: bit_length.induct)
  case (1 n)
  show ?case
  proof (cases "n div 2 = 0")
    case True
    with "1.prems" have "n = 1" by presburger
    then show ?thesis by (simp add: bit_length.simps)
  next
    case False
    define m where "m = bit_length (n div 2)"
    from False 1 have IH: "0 < m" "2 ^ (m - 1) \<le> n div 2" "n div 2 < 2 ^ m"
      by (simp_all add: m_def)
    have n: "bit_length n = Suc m"
      using "1.prems" by (simp add: m_def bit_length.simps [of n])
    from IH(1) have "(2::nat) ^ m = 2 * 2 ^ (m - 1)"
      by (cases m) simp_all
    moreover have "2 * 2 ^ (m - 1) \<le> n" using IH(2) by linarith
    moreover have "n < 2 * 2 ^ m" using IH(3) by linarith
    ultimately show ?thesis by (simp add: n)
  qed
qed

lemma uvarint_group_count:
  assumes "0 < value" and "value < 2 ^ 56"
  obtains k where "(bit_length value - 1) div 7 * 7 = 7 * k" and "k < 8" and "value < 2 ^ (7 * Suc k)"
    and "0 < k \<Longrightarrow> 2 ^ (7 * k) \<le> value"
proof
  let ?l = "bit_length value"
  let ?k = "(?l - 1) div 7"
  from bit_length_bounds [OF assms(1)]
  have l: "0 < ?l" "2 ^ (?l - 1) \<le> value" "value < 2 ^ ?l" by simp_all
  show "?k * 7 = 7 * ?k" by simp
  have "(2::nat) ^ (?l - 1) < 2 ^ 56" using l assms by linarith
  then have "?l - 1 < 56" by (rule power_less_imp_less_exp [rotated]) simp
  then show "?k < 8" by simp
  have "?l \<le> 7 * Suc ?k" by presburger
  then have "(2::nat) ^ ?l \<le> 2 ^ (7 * Suc ?k)" by (rule power_increasing) simp
  with l show "value < 2 ^ (7 * Suc ?k)" by linarith
  have "7 * ?k \<le> ?l - 1" by presburger
  then have "(2::nat) ^ (7 * ?k) \<le> 2 ^ (?l - 1)" by (rule power_increasing) simp
  with l show "2 ^ (7 * ?k) \<le> value" by linarith
qed

text \<open>One turn of the decoding loop on a flagged and on a final group.\<close>

lemma decode_loop_flagged:
  assumes "i < 8" and "offset + i < length data"
    and "data ! (offset + i) = word_of_nat (m mod 128 + 128)"
  shows "decode_uvarint_loop data offset i acc = decode_uvarint_loop data offset (Suc i) (acc * 128 + m mod 128)"
proof -
  let ?b = "data ! (offset + i)"
  have "m mod 128 + 128 < 256" using mod_less_divisor [of 128 m] by linarith
  then have b: "unat ?b = m mod 128 + 128"
    by (simp only: assms(3) unat_word_of_nat_byte)
  have "push_bit 7 acc OR unat (?b AND 0x7F) = acc * 128 + m mod 128"
    by (simp add: low_bits b push_or)
  moreover have "?b AND 0x80 \<noteq> 0"
    by (simp add: flag_clear_iff b)
  ultimately show ?thesis
    using assms(1,2) by (subst decode_uvarint_loop.simps) (simp add: Let_def)
qed

lemma decode_loop_final:
  assumes "i < 8" and "offset + i < length data"
    and "data ! (offset + i) = word_of_nat (m mod 128)"
  shows "decode_uvarint_loop data offset i acc = Inr (acc * 128 + m mod 128, Suc i, False)"
proof -
  let ?b = "data ! (offset + i)"
  have "m mod 128 < 256" using mod_less_divisor [of 128 m] by linarith
  then have b: "unat ?b = m mod 128"
    by (simp add: assms(3) unat_word_of_nat_byte)
  have "push_bit 7 acc OR unat (?b AND 0x7F) = acc * 128 + m mod 128"
    by (simp add: low_bits b push_or)
  moreover have "?b AND 0x80 = 0"
    by (simp add: flag_clear_iff b)
  ultimately show ?thesis
    using assms(1,2) by (subst decode_uvarint_loop.simps) (simp add: Let_def)
qed

lemma div_exp_step: "(v::nat) div 2 ^ (7 * Suc k) * 128 + (v div 2 ^ (7 * k)) mod 128 = v div 2 ^ (7 * k)"
proof -
  have "v div 2 ^ (7 * Suc k) = v div 2 ^ (7 * k) div 128"
    by (simp only: mult_Suc_right power_add add.commute [of 7] div_mult2_eq) simp
  then show ?thesis by simp
qed

lemma uvarint_groups_Suc:
  "uvarint_groups v (7 * Suc k) = word_of_nat ((v div 2 ^ (7 * Suc k)) mod 128 + 128) # uvarint_groups v (7 * k)"
  by (subst uvarint_groups.simps) (simp add: and_127 or_128 drop_bit_eq_div)

lemma uvarint_groups_0: "uvarint_groups v 0 = [word_of_nat (v mod 128)]"
  by (subst uvarint_groups.simps) (simp add: and_127)

lemma length_uvarint_groups: "length (uvarint_groups v (7 * k)) = Suc k"
  by (induction k) (simp_all add: uvarint_groups_0 uvarint_groups_Suc del: mult_Suc_right)

lemma decode_loop_groups:
  assumes "i + k < 8" and "length pre = offset + i" and "acc = v div 2 ^ (7 * Suc k)"
  shows "decode_uvarint_loop (pre @ uvarint_groups v (7 * k) @ suf) offset i acc = Inr (v, i + Suc k, False)"
  using assms
proof (induction k arbitrary: i pre acc)
  case 0
  let ?data = "pre @ uvarint_groups v (7 * 0) @ suf"
  have "decode_uvarint_loop ?data offset i acc = Inr (acc * 128 + v mod 128, Suc i, False)"
    by (rule decode_loop_final) (use 0 in \<open>simp_all add: uvarint_groups_0 nth_append\<close>)
  with 0 div_exp_step [of v 0] show ?case by simp
next
  case (Suc k)
  let ?m = "v div 2 ^ (7 * Suc k)"
  let ?b = "word_of_nat (?m mod 128 + 128)"
  let ?data = "pre @ uvarint_groups v (7 * Suc k) @ suf"
  have turn: "decode_uvarint_loop ?data offset i acc = decode_uvarint_loop ?data offset (Suc i) (acc * 128 + ?m mod 128)"
    by (rule decode_loop_flagged)
       (use Suc.prems in \<open>simp_all add: uvarint_groups_Suc nth_append del: mult_Suc_right\<close>)
  have acc: "acc * 128 + ?m mod 128 = ?m"
    using Suc.prems(3) div_exp_step [of v "Suc k"] by simp
  have data: "?data = (pre @ [?b]) @ uvarint_groups v (7 * k) @ suf"
    by (simp add: uvarint_groups_Suc del: mult_Suc_right)
  have "decode_uvarint_loop ?data offset i acc = Inr (v, Suc i + Suc k, False)"
    unfolding turn unfolding acc data by (rule Suc.IH) (use Suc.prems in simp_all)
  then show ?case by (simp only: add_Suc add_Suc_right)
qed

text \<open>The nine-byte form: eight flagged groups bring the loop to its end.\<close>

lemma decode_loop_eight:
  assumes "i \<le> 8" and "offset + 8 \<le> length data"
    and "\<And>j. j < 8 \<Longrightarrow> data ! (offset + j) = word_of_nat ((v div 2 ^ (7 * (7 - j))) mod 128 + 128)"
    and "acc = v div 2 ^ (7 * (8 - i))"
  shows "decode_uvarint_loop data offset i acc = Inr (v, 8, True)"
  using assms(1,4)
proof (induction "8 - i" arbitrary: i acc)
  case 0
  then show ?case by (simp add: decode_uvarint_loop.simps)
next
  case (Suc d)
  then have i: "i < 8" and d: "d = 7 - i" "8 - i = Suc d" "d = 8 - Suc i" by simp_all
  have "decode_uvarint_loop data offset i acc
      = decode_uvarint_loop data offset (Suc i) (acc * 128 + (v div 2 ^ (7 * (7 - i))) mod 128)"
    by (rule decode_loop_flagged) (use i assms(2,3) in auto)
  also have "acc * 128 + (v div 2 ^ (7 * (7 - i))) mod 128 = v div 2 ^ (7 * (8 - Suc i))"
    using div_exp_step [of v d] Suc.prems(2) d by simp
  also have "decode_uvarint_loop data offset (Suc i) \<dots> = Inr (v, 8, True)"
    using i d Suc.hyps(1) [of "Suc i"] by simp
  finally show ?case .
qed

lemma encode_uvarint_nine:
  assumes "2 ^ 56 \<le> n" and "n < 2 ^ 64"
  shows "encode_uvarint (int n) =
     Inr (map (\<lambda>j. word_of_nat ((n div 256 div 2 ^ (7 * (7 - j))) mod 128 + 128)) [0..<8]
          @ [word_of_nat (n mod 256)])"
proof -
  have "nat (int n) = n" and "int n < 2 ^ 64" and "n \<noteq> 0"
    using assms by simp_all
  then show ?thesis
    using assms by (simp add: encode_uvarint_def Let_def and_127 and_255 or_128 drop_bit_eq_div upt_rec)
qed

lemma encode_uvarint_short:
  assumes "0 < n" and "n < 2 ^ 56"
  obtains k where "encode_uvarint (int n) = Inr (uvarint_groups n (7 * k))" and "k < 8"
    and "n < 2 ^ (7 * Suc k)" and "0 < k \<Longrightarrow> 2 ^ (7 * k) \<le> n"
proof -
  obtain k where k: "(bit_length n - 1) div 7 * 7 = 7 * k" "k < 8" "n < 2 ^ (7 * Suc k)"
    "0 < k \<Longrightarrow> 2 ^ (7 * k) \<le> n"
    using uvarint_group_count [OF assms] by metis
  have "int n < 2 ^ 64"
    using assms by simp
  then have "encode_uvarint (int n) = Inr (uvarint_groups n (7 * k))"
    using assms k(1) by (simp add: encode_uvarint_def Let_def mult.commute)
  with k that show ?thesis by blast
qed

text \<open>
  The varint round trip in the form every reader of a page or a record uses: whatever precedes
  and follows the encoding, decoding at its offset gives the value and its length.
\<close>

lemma decode_encode_uvarint:
  assumes "encode_uvarint v = Inr bs" and "length pre = offset"
  shows "decode_uvarint (pre @ bs @ suf) offset = Inr (nat v, length bs)"
proof -
  define n where "n = nat v"
  from assms(1) have "0 \<le> v" "v < 2 ^ 64"
    by (auto simp: encode_uvarint_def split: if_splits)
  then have v: "v = int n" and n: "n < 2 ^ 64"
    by (simp_all add: n_def nat_less_iff)
  consider "n = 0" | "0 < n" "n < 2 ^ 56" | "2 ^ 56 \<le> n" by linarith
  then show ?thesis
  proof cases
    case 1
    with assms(1) v have "bs = uvarint_groups 0 (7 * 0)"
      by (simp add: encode_uvarint_def uvarint_groups_0)
    with 1 v decode_loop_groups [of 0 0 pre offset 0 0 suf] assms(2) show ?thesis
      by (simp add: decode_uvarint_def uvarint_groups_0)
  next
    case 2
    then obtain k where enc: "encode_uvarint (int n) = Inr (uvarint_groups n (7 * k))"
      and k: "k < 8" "n < 2 ^ (7 * Suc k)"
      by (rule encode_uvarint_short)
    with assms(1) v have bs: "bs = uvarint_groups n (7 * k)" by simp
    have "decode_uvarint_loop (pre @ bs @ suf) offset 0 0 = Inr (n, 0 + Suc k, False)"
      unfolding bs by (rule decode_loop_groups) (use k assms(2) in simp_all)
    then show ?thesis
      by (simp add: decode_uvarint_def v bs length_uvarint_groups)
  next
    case 3
    let ?g = "map (\<lambda>j. word_of_nat ((n div 256 div 2 ^ (7 * (7 - j))) mod 128 + 128)) [0..<8]"
    from assms(1) v encode_uvarint_nine [OF 3 n] have bs: "bs = ?g @ [word_of_nat (n mod 256)]"
      by simp
    have len: "length bs = 9" by (simp add: bs)
    have "n div 256 < 2 ^ 56" using n by (simp add: less_mult_imp_div_less)
    then have "0 = n div 256 div 2 ^ (7 * (8 - 0))" by simp
    moreover have "(pre @ bs @ suf) ! (offset + j) = word_of_nat ((n div 256 div 2 ^ (7 * (7 - j))) mod 128 + 128)"
      if "j < 8" for j
      using that assms(2) by (simp add: bs nth_append del: upt_Suc)
    ultimately have "decode_uvarint_loop (pre @ bs @ suf) offset 0 0 = Inr (n div 256, 8, True)"
      using assms(2) len by (intro decode_loop_eight) simp_all
    moreover have "(pre @ bs @ suf) ! (offset + 8) = word_of_nat (n mod 256)"
      using assms(2) by (simp add: bs nth_append)
    moreover have "unat (word_of_nat (n mod 256) :: byte) = n mod 256"
      by (rule unat_word_of_nat_byte) simp
    moreover have "push_bit 8 (n div 256) OR (n mod 256) = n"
      by (subst push_or) simp_all
    ultimately show ?thesis
      using assms(2) len by (simp add: decode_uvarint_def v)
  qed
qed

section \<open>Lengths, truncation, rowids\<close>

lemma decode_loop_truncated:
  assumes "i + m < 8" and "length data = offset + i + m"
    and "\<And>j. j < m \<Longrightarrow> \<exists>x. data ! (offset + i + j) = word_of_nat (x mod 128 + 128)"
  shows "decode_uvarint_loop data offset i acc = Inl MalformedRecordError"
  using assms
proof (induction m arbitrary: i acc)
  case 0
  then show ?case by (simp add: decode_uvarint_loop.simps)
next
  case (Suc m)
  from Suc.prems(3) [of 0] obtain x where x: "data ! (offset + i) = word_of_nat (x mod 128 + 128)"
    by auto
  have "decode_uvarint_loop data offset i acc = decode_uvarint_loop data offset (Suc i) (acc * 128 + x mod 128)"
    by (rule decode_loop_flagged) (use Suc.prems x in simp_all)
  also have "\<dots> = Inl MalformedRecordError"
    by (rule Suc.IH) (use Suc.prems(1,2) Suc.prems(3) [of "Suc j" for j] in auto)
  finally show ?case .
qed

lemma uvarint_groups_flagged:
  "j < k \<Longrightarrow> \<exists>x. uvarint_groups v (7 * k) ! j = word_of_nat (x mod 128 + 128)"
proof (induction k arbitrary: j)
  case (Suc k)
  then show ?case
    by (cases j) (auto simp: uvarint_groups_Suc simp del: mult_Suc_right)
qed simp

lemma encode_uvarint_flagged:
  assumes "encode_uvarint v = Inr bs" and "Suc j < length bs"
  shows "\<exists>x. bs ! j = word_of_nat (x mod 128 + 128)"
proof -
  from assms(1) have "0 \<le> v" "v < 2 ^ 64"
    by (auto simp: encode_uvarint_def split: if_splits)
  then obtain n where v: "v = int n" and n: "n < 2 ^ 64"
    by (metis nat_less_iff of_nat_numeral of_nat_power nat_int zero_le_imp_eq_int of_nat_less_iff)
  consider "n = 0" | "0 < n" "n < 2 ^ 56" | "2 ^ 56 \<le> n" by linarith
  then show ?thesis
  proof cases
    case 1
    with assms v show ?thesis by (auto simp: encode_uvarint_def)
  next
    case 2
    then obtain k where "encode_uvarint (int n) = Inr (uvarint_groups n (7 * k))"
      by (rule encode_uvarint_short)
    with assms v have "bs = uvarint_groups n (7 * k)" by simp
    with assms(2) uvarint_groups_flagged [of j k n] show ?thesis
      by (simp only: length_uvarint_groups)
  next
    case 3
    from assms v encode_uvarint_nine [OF 3 n]
    show ?thesis by (auto simp: nth_append simp del: upt_Suc)
  qed
qed

lemma encode_uvarint_defined: "0 \<le> v \<Longrightarrow> v < 2 ^ 64 \<Longrightarrow> \<exists>bs. encode_uvarint v = Inr bs"
  by (simp add: encode_uvarint_def Let_def)

lemma encode_uvarint_range: "encode_uvarint v = Inr bs \<Longrightarrow> 0 \<le> v \<and> v < 2 ^ 64"
  by (auto simp: encode_uvarint_def split: if_splits)

lemma encode_uvarint_small:
  assumes "0 \<le> v" and "v < 128"
  shows "encode_uvarint v = Inr [word_of_int v]"
proof (cases "v = 0")
  case False
  define n where "n = nat v"
  have n: "0 < n" "n < 128" "v = int n" using assms False by (auto simp: n_def)
  then obtain k where k: "encode_uvarint v = Inr (uvarint_groups n (7 * k))" "0 < k \<Longrightarrow> 2 ^ (7 * k) \<le> n"
    using encode_uvarint_short [of n] by auto
  have "k = 0"
  proof (rule ccontr)
    assume "k \<noteq> 0"
    then have "(2::nat) ^ 7 \<le> 2 ^ (7 * k)" by (intro power_increasing) simp_all
    with k(2) n \<open>k \<noteq> 0\<close> show False by simp
  qed
  with k(1) n show ?thesis by (simp add: uvarint_groups_0)
qed (simp add: encode_uvarint_def)

text \<open>
  The length of an encoding is the least one: between one and nine bytes, nine exactly from
  \<open>2 ^ 56\<close> on, and below that no more seven-bit groups than the value needs.
\<close>

lemma encode_uvarint_length:
  assumes "encode_uvarint v = Inr bs"
  shows "1 \<le> length bs \<and> length bs \<le> 9"
    and "length bs = 9 \<longleftrightarrow> 2 ^ 56 \<le> v"
    and "length bs \<noteq> 9 \<Longrightarrow> v < 2 ^ (7 * length bs)"
    and "1 < length bs \<Longrightarrow> 2 ^ (7 * (length bs - 1)) \<le> v"
proof -
  from assms have "0 \<le> v" "v < 2 ^ 64"
    by (auto simp: encode_uvarint_def split: if_splits)
  then obtain n where v: "v = int n" and n: "n < 2 ^ 64"
    by (metis nat_less_iff of_nat_numeral of_nat_power nat_int zero_le_imp_eq_int of_nat_less_iff)
  consider "n = 0" | "0 < n" "n < 2 ^ 56" | "2 ^ 56 \<le> n" by linarith
  then have "(1 \<le> length bs \<and> length bs \<le> 9) \<and> (length bs = 9 \<longleftrightarrow> 2 ^ 56 \<le> n)
     \<and> (length bs \<noteq> 9 \<longrightarrow> n < 2 ^ (7 * length bs)) \<and> (1 < length bs \<longrightarrow> 2 ^ (7 * (length bs - 1)) \<le> n)"
  proof cases
    case 1
    with assms v show ?thesis by (auto simp: encode_uvarint_def)
  next
    case 2
    then obtain k where "encode_uvarint (int n) = Inr (uvarint_groups n (7 * k))" and "k < 8"
      and "n < 2 ^ (7 * Suc k)" and "0 < k \<Longrightarrow> 2 ^ (7 * k) \<le> n"
      by (erule encode_uvarint_short)
    moreover from this assms v have "length bs = Suc k" by (auto simp: length_uvarint_groups)
    ultimately show ?thesis using 2 by simp
  next
    case 3
    from assms v encode_uvarint_nine [OF 3 n] have "length bs = 9" by auto
    with 3 n show ?thesis by simp
  qed
  then show "1 \<le> length bs \<and> length bs \<le> 9" and "length bs = 9 \<longleftrightarrow> 2 ^ 56 \<le> v"
    and "length bs \<noteq> 9 \<Longrightarrow> v < 2 ^ (7 * length bs)" and "1 < length bs \<Longrightarrow> 2 ^ (7 * (length bs - 1)) \<le> v"
    using v by simp_all
qed

lemma decode_uvarint_truncated:
  assumes "encode_uvarint v = Inr bs" and "m < length bs" and "length pre = offset"
  shows "decode_uvarint (pre @ take m bs) offset = Inl MalformedRecordError"
proof -
  let ?data = "pre @ take m bs"
  have fl: "\<exists>x. ?data ! (offset + j) = word_of_nat (x mod 128 + 128)" if "j < m" for j
    using encode_uvarint_flagged [OF assms(1), of j] that assms(2,3) by (simp add: nth_append)
  have len: "length ?data = offset + m" using assms(2,3) by simp
  from encode_uvarint_length(1) [OF assms(1)] assms(2) have "m \<le> 8" by simp
  show ?thesis
  proof (cases "m < 8")
    case True
    with len fl have "decode_uvarint_loop ?data offset 0 0 = Inl MalformedRecordError"
      by (intro decode_loop_truncated [where m = m]) simp_all
    then show ?thesis by (simp add: decode_uvarint_def)
  next
    case False
    with \<open>m \<le> 8\<close> have m: "m = 8" by simp
    have "\<exists>r. decode_uvarint_loop ?data offset i acc = Inr (r, 8, True)" if "i \<le> 8" for i acc
      using that
    proof (induction "8 - i" arbitrary: i acc)
      case 0
      then show ?case by (simp add: decode_uvarint_loop.simps)
    next
      case (Suc d)
      then have "i < 8" by simp
      with fl [of i] m obtain x where "?data ! (offset + i) = word_of_nat (x mod 128 + 128)" by auto
      then have "decode_uvarint_loop ?data offset i acc = decode_uvarint_loop ?data offset (Suc i) (acc * 128 + x mod 128)"
        using \<open>i < 8\<close> len m by (intro decode_loop_flagged) simp_all
      with Suc.hyps(1) [of "Suc i"] Suc.hyps(2) \<open>i < 8\<close> show ?case by simp
    qed
    from this [of 0 0] len m show ?thesis by (auto simp: decode_uvarint_def)
  qed
qed

lemma to_twos_complement_mod: "to_twos_complement v = v mod 2 ^ 64"
  using take_bit_eq_mask [of 64 v]
  by (simp add: to_twos_complement_def take_bit_eq_mod mask_eq_exp_minus_1)

lemma from_twos_complement_if:
  assumes "0 \<le> u" and "u < 2 ^ 64"
  shows "from_twos_complement u = (if 2 ^ 63 \<le> u then u - 2 ^ 64 else u)"
proof -
  have "u AND 2 ^ 63 = 0 \<longleftrightarrow> even (u div 2 ^ 63)"
    using and_exp_eq_0_iff_not_bit [of u 63] by (simp add: bit_iff_odd)
  also have "u div 2 ^ 63 = (if 2 ^ 63 \<le> u then 1 else 0)"
    using assms div_pos_pos_trivial [of "u - 2 ^ 63" "2 ^ 63"] div_add_self2 [of "2 ^ 63" "u - 2 ^ 63"]
    by (auto simp: div_pos_pos_trivial)
  finally show ?thesis by (simp add: from_twos_complement_def)
qed

text \<open>Every signed 64-bit rowid survives the two's-complement detour and fits a varint.\<close>

lemma twos_complement_roundtrip:
  assumes "- (2 ^ 63) \<le> r" and "r < 2 ^ 63"
  shows "from_twos_complement (to_twos_complement r) = r"
    and "0 \<le> to_twos_complement r \<and> to_twos_complement r < 2 ^ 64"
proof -
  show b: "0 \<le> to_twos_complement r \<and> to_twos_complement r < 2 ^ 64"
    by (simp add: to_twos_complement_mod)
  have "r mod 2 ^ 64 = (if 0 \<le> r then r else r + 2 ^ 64)"
    using assms mod_pos_pos_trivial [of "r + 2 ^ 64" "2 ^ 64"] by simp
  with assms b show "from_twos_complement (to_twos_complement r) = r"
    by (simp add: from_twos_complement_if to_twos_complement_mod)
qed

section \<open>Properties\<close>

text \<open>
  Every integer the format can hold encodes, to at most nine bytes, and decoding at the
  encoding's offset returns the value and exactly the encoding's length, whatever bytes stand
  before and after it.
\<close>

theorem uvarint_roundtrip:
  assumes "0 \<le> v" and "v < 2 ^ 64"
  shows "\<exists>bs. encode_uvarint v = Inr bs \<and> 1 \<le> length bs \<and> length bs \<le> 9 \<and>
           (\<forall>pre suf. decode_uvarint (pre @ bs @ suf) (length pre) = Inr (nat v, length bs))"
proof -
  obtain bs where bs: "encode_uvarint v = Inr bs"
    using encode_uvarint_defined [OF assms] by blast
  then show ?thesis
    using encode_uvarint_length(1) [OF bs] decode_encode_uvarint [OF bs refl] by blast
qed

theorem uvarint_roundtrip_witness:
  "\<exists>bs. encode_uvarint 300 = Inr bs \<and> 1 \<le> length bs \<and> length bs \<le> 9 \<and>
     (\<forall>pre suf. decode_uvarint (pre @ bs @ suf) (length pre) = Inr (300, length bs))"
  using uvarint_roundtrip [of 300] by simp

text \<open>
  The encoding is the shortest one the format allows: nine bytes exactly from \<open>2 ^ 56\<close> on,
  and otherwise the least number of seven-bit groups that holds the value.
\<close>

theorem uvarint_shortest:
  assumes "encode_uvarint v = Inr bs"
  shows "length bs = (LEAST n. 1 \<le> n \<and> (n = 9 \<or> v < 2 ^ (7 * n) \<and> n < 9))"
proof (rule Least_equality [symmetric])
  note len = encode_uvarint_length [OF assms]
  show "1 \<le> length bs \<and> (length bs = 9 \<or> v < 2 ^ (7 * length bs) \<and> length bs < 9)"
    using len by auto
next
  fix n :: nat
  note len = encode_uvarint_length [OF assms]
  assume n: "1 \<le> n \<and> (n = 9 \<or> v < 2 ^ (7 * n) \<and> n < 9)"
  show "length bs \<le> n"
  proof (rule ccontr)
    assume "\<not> length bs \<le> n"
    with n len(1) have n9: "v < 2 ^ (7 * n)" "n \<le> length bs - 1" by auto
    then have "(2::int) ^ (7 * n) \<le> 2 ^ (7 * (length bs - 1))" by (simp add: power_increasing)
    moreover have "2 ^ (7 * (length bs - 1)) \<le> v"
      using n n9(2) by (intro len(4)) linarith
    ultimately show False using n9 by linarith
  qed
qed

theorem uvarint_shortest_witness:
  "length [0x82, 0x2C :: byte] = (LEAST n. 1 \<le> n \<and> (n = 9 \<or> (300::int) < 2 ^ (7 * n) \<and> n < 9))"
proof (rule uvarint_shortest)
  show "encode_uvarint 300 = Inr [0x82, 0x2C]"
    by (simp add: encode_uvarint_def Let_def bit_length.simps uvarint_groups.simps drop_bit_eq_div)
qed

text \<open>
  A buffer that ends inside a varint is reported as \<^verbatim>\<open>MalformedRecordError\<close>, at every cut.
\<close>

theorem uvarint_truncated_rejected:
  assumes "encode_uvarint v = Inr bs" and "m < length bs"
  shows "decode_uvarint (pre @ take m bs) (length pre) = Inl MalformedRecordError"
  using decode_uvarint_truncated [OF assms refl] .

theorem uvarint_truncated_rejected_witness:
  "decode_uvarint ([7, 7] @ take 1 [0x82, 0x2C]) (length [7, 7 :: byte]) = Inl MalformedRecordError"
proof (rule uvarint_truncated_rejected)
  show "encode_uvarint 300 = Inr [0x82, 0x2C]"
    by (simp add: encode_uvarint_def Let_def bit_length.simps uvarint_groups.simps drop_bit_eq_div)
  show "1 < length [0x82, 0x2C :: byte]" by simp
qed

end
