(* ===== verification/Utf8.thy ===== *)
theory Utf8
  imports Prelude
begin

text \<open>
  Python strings as lists of code points, and the two codec calls
  \<^verbatim>\<open>src/src/quilldb/codec/record.py\<close> makes on them: \<^verbatim>\<open>str.encode("utf-8")\<close>, which refuses
  surrogates, and \<^verbatim>\<open>bytes.decode("utf-8")\<close> in its strict mode, which refuses truncated, overlong
  and out-of-range sequences. Decoding inverts encoding.
\<close>

section \<open>Definitions\<close>

type_synonym code_point = nat
type_synonym ustr = "nat list"

definition is_surrogate :: "code_point \<Rightarrow> bool" where
  "is_surrogate c \<longleftrightarrow> 0xD800 \<le> c \<and> c \<le> 0xDFFF"

definition utf8_encode_char :: "code_point \<Rightarrow> bytes res" where
  "utf8_encode_char c =
     (if c < 0x80 then Inr [word_of_nat c]
      else if c < 0x800 then
        Inr [word_of_nat (0xC0 + c div 64), word_of_nat (0x80 + c mod 64)]
      else if is_surrogate c then Inl UnicodeEncodeError
      else if c < 0x10000 then
        Inr [word_of_nat (0xE0 + c div 4096), word_of_nat (0x80 + c div 64 mod 64),
             word_of_nat (0x80 + c mod 64)]
      else if c < 0x110000 then
        Inr [word_of_nat (0xF0 + c div 262144), word_of_nat (0x80 + c div 4096 mod 64),
             word_of_nat (0x80 + c div 64 mod 64), word_of_nat (0x80 + c mod 64)]
      else Inl UnicodeEncodeError)"

definition utf8_encode :: "ustr \<Rightarrow> bytes res" where
  "utf8_encode s = bind_res (map_res utf8_encode_char s) (\<lambda>bss. Inr (concat bss))"

text \<open>How many continuation bytes a lead byte announces, and the code point they spell.\<close>

definition utf8_extra :: "nat \<Rightarrow> nat option" where
  "utf8_extra b =
     (if b < 0x80 then Some 0
      else if 0xC2 \<le> b \<and> b \<le> 0xDF then Some 1
      else if 0xE0 \<le> b \<and> b \<le> 0xEF then Some 2
      else if 0xF0 \<le> b \<and> b \<le> 0xF4 then Some 3
      else None)"

definition utf8_lead :: "nat \<Rightarrow> nat \<Rightarrow> nat" where
  "utf8_lead n b =
     (if n = 0 then b else if n = 1 then b - 0xC0 else if n = 2 then b - 0xE0 else b - 0xF0)"

definition utf8_point :: "nat \<Rightarrow> nat \<Rightarrow> nat list \<Rightarrow> nat" where
  "utf8_point n b conts = foldl (\<lambda>acc c. acc * 64 + (c - 0x80)) (utf8_lead n b) conts"

definition utf8_in_range :: "nat \<Rightarrow> nat \<Rightarrow> bool" where
  "utf8_in_range n c \<longleftrightarrow>
     (n = 0 \<or> n = 1 \<and> 0x80 \<le> c \<or> n = 2 \<and> 0x800 \<le> c \<and> \<not> is_surrogate c
      \<or> n = 3 \<and> 0x10000 \<le> c \<and> c < 0x110000)"

fun utf8_decode :: "bytes \<Rightarrow> ustr res" where
  "utf8_decode [] = Inr []"
| "utf8_decode (b # bs) =
     (case utf8_extra (unat b) of
        None \<Rightarrow> Inl UnicodeDecodeError
      | Some n \<Rightarrow>
          let conts = map unat (take n bs); c = utf8_point n (unat b) conts in
          if length conts = n \<and> (\<forall>x \<in> set conts. 0x80 \<le> x \<and> x < 0xC0) \<and> utf8_in_range n c
          then bind_res (utf8_decode (drop n bs)) (\<lambda>cs. Inr (c # cs))
          else Inl UnicodeDecodeError)"

section \<open>The round trip\<close>

lemma unat_word_byte [simp]: "n < 256 \<Longrightarrow> unat (word_of_nat n :: byte) = n"
  by (simp add: unat_of_nat)

lemma utf8_decode_Cons:
  assumes "utf8_extra b = Some n" and "b < 256" and "length conts = n"
    and "\<forall>x \<in> set conts. 0x80 \<le> x \<and> x < 0xC0"
    and "utf8_point n b conts = c" and "utf8_in_range n c"
  shows "utf8_decode (map word_of_nat (b # conts) @ rest) = bind_res (utf8_decode rest) (\<lambda>cs. Inr (c # cs))"
proof -
  have conts: "map unat (take n (map word_of_nat conts @ rest) :: byte list) = conts"
    using assms(3,4) by (simp add: comp_def) (rule map_idI, auto)
  have b: "unat (word_of_nat b :: byte) = b" using assms(2) by simp
  show ?thesis
    unfolding list.map append_Cons utf8_decode.simps b assms(1) option.case Let_def conts assms(5)
    using assms(3,4,6) by simp
qed

lemma digits64:
  "(c::nat) div 64 * 64 + c mod 64 = c"
  "(c div 4096 * 64 + c div 64 mod 64) * 64 + c mod 64 = c"
  "((c div 262144 * 64 + c div 4096 mod 64) * 64 + c div 64 mod 64) * 64 + c mod 64 = c"
proof -
  have a: "c div 4096 * 64 + c div 64 mod 64 = c div 64" for c :: nat
    using div_mult_mod_eq [of "c div 64" 64] by (simp add: div_mult2_eq [symmetric])
  have b: "c div 262144 * 64 + c div 4096 mod 64 = c div 4096"
    using div_mult_mod_eq [of "c div 4096" 64] by (simp add: div_mult2_eq [symmetric])
  show "c div 64 * 64 + c mod 64 = c"
    "(c div 4096 * 64 + c div 64 mod 64) * 64 + c mod 64 = c"
    "((c div 262144 * 64 + c div 4096 mod 64) * 64 + c div 64 mod 64) * 64 + c mod 64 = c"
    by (simp_all only: a b div_mult_mod_eq)
qed

lemma utf8_decode_encode_char:
  assumes "utf8_encode_char c = Inr bs"
  shows "utf8_decode (bs @ rest) = bind_res (utf8_decode rest) (\<lambda>cs. Inr (c # cs))"
proof -
  note defs = utf8_extra_def utf8_point_def utf8_lead_def utf8_in_range_def
  consider "c < 0x80" | "0x80 \<le> c" "c < 0x800"
    | "0x800 \<le> c" "\<not> is_surrogate c" "c < 0x10000"
    | "0x10000 \<le> c" "c < 0x110000"
    using assms by (fastforce simp: utf8_encode_char_def is_surrogate_def split: if_splits)
  then show ?thesis
  proof cases
    case 1
    with assms have bs: "bs = map word_of_nat [c]" by (simp add: utf8_encode_char_def)
    show ?thesis unfolding bs
      by (rule utf8_decode_Cons [of c 0]) (use 1 in \<open>simp_all add: defs\<close>)
  next
    case 2
    with assms have bs: "bs = map word_of_nat [0xC0 + c div 64, 0x80 + c mod 64]"
      by (simp add: utf8_encode_char_def)
    have d: "2 \<le> c div 64" "c div 64 < 32" "c mod 64 < 64" using 2 by auto
    show ?thesis unfolding bs
      by (rule utf8_decode_Cons [of _ 1]) (use 2 d digits64(1) [of c] in \<open>simp_all add: defs algebra_simps\<close>)
  next
    case 3
    with assms have bs: "bs = map word_of_nat [0xE0 + c div 4096, 0x80 + c div 64 mod 64, 0x80 + c mod 64]"
      by (simp add: utf8_encode_char_def)
    have d: "c div 4096 < 16" "c div 64 mod 64 < 64" "c mod 64 < 64" using 3 by auto
    show ?thesis unfolding bs
      by (rule utf8_decode_Cons [of _ 2]) (use 3 d digits64(2) [of c] in \<open>simp_all add: defs algebra_simps\<close>)
  next
    case 4
    then have "\<not> is_surrogate c" by (simp add: is_surrogate_def)
    with 4 assms have bs: "bs = map word_of_nat [0xF0 + c div 262144, 0x80 + c div 4096 mod 64,
        0x80 + c div 64 mod 64, 0x80 + c mod 64]"
      by (simp add: utf8_encode_char_def)
    have d: "c div 262144 < 5" "c div 4096 mod 64 < 64" "c div 64 mod 64 < 64" "c mod 64 < 64"
      using 4 by auto
    show ?thesis unfolding bs
      by (rule utf8_decode_Cons [of _ 3]) (use 4 d digits64(3) [of c] in \<open>simp_all add: defs algebra_simps\<close>)
  qed
qed

lemma utf8_decode_encode:
  "utf8_encode s = Inr bs \<Longrightarrow> utf8_decode bs = Inr s"
proof (induction s arbitrary: bs)
  case Nil
  then show ?case by (simp add: utf8_encode_def)
next
  case (Cons c s)
  from Cons.prems obtain cb rest where c: "utf8_encode_char c = Inr cb"
    and rest: "utf8_encode s = Inr rest" and bs: "bs = cb @ rest"
    by (auto simp: utf8_encode_def bind_res_eq_Inr)
  from Cons.IH [OF rest] utf8_decode_encode_char [OF c] bs show ?case by simp
qed

text \<open>Encoding succeeds exactly on strings of Unicode scalar values.\<close>

lemma utf8_encode_defined:
  "\<forall>c \<in> set s. c < 0x110000 \<and> \<not> is_surrogate c \<Longrightarrow> \<exists>bs. utf8_encode s = Inr bs"
proof -
  assume s: "\<forall>c \<in> set s. c < 0x110000 \<and> \<not> is_surrogate c"
  have "\<exists>bss. map_res utf8_encode_char s = Inr bss"
    using s by (induction s) (auto simp: utf8_encode_char_def)
  then show ?thesis by (auto simp: utf8_encode_def)
qed

lemma utf8_encode_surrogate:
  "c \<in> set s \<Longrightarrow> is_surrogate c \<Longrightarrow> utf8_encode s = Inl UnicodeEncodeError"
  by (induction s) (auto simp: utf8_encode_def utf8_encode_char_def is_surrogate_def bind_res_def split: sum.splits)

end
