(* ===== verification/RecordCodec.thy ===== *)
theory RecordCodec
  imports Varint Utf8
begin

text \<open>
  Row records, \<^verbatim>\<open>src/src/quilldb/codec/record.py\<close>: a manifest of serial types followed by the
  values' bodies. A REAL is its IEEE 754 bit pattern, which is what \<^verbatim>\<open>struct.pack(">d")\<close> writes;
  a TEXT is a list of code points (theory \<open>Utf8\<close>). The lemmas show the round trip, that
  \<open>decode_column\<close> agrees with \<open>decode_record\<close> on every buffer, and that the loop which computes
  the self-counting header size ends with a consistent size.
\<close>

section \<open>Definitions\<close>

datatype pyval = VNull | VInt int | VReal "64 word" | VText ustr | VBlob bytes

text \<open>\<^verbatim>\<open>_INT_WIDTH_BY_TYPE\<close> and \<^verbatim>\<open>_INT_RANGES\<close>.\<close>

definition int_width_by_type :: "nat \<Rightarrow> nat option" where
  "int_width_by_type t =
     map_of [(1, 1), (2, 2), (3, 3), (4, 4), (5, 6), (6, 8)] t"

definition int_ranges :: "(nat \<times> int \<times> int) list" where
  "int_ranges =
     [(1, -128, 127), (2, -32768, 32767), (3, - (2 ^ 23), 2 ^ 23 - 1),
      (4, - (2 ^ 31), 2 ^ 31 - 1), (5, - (2 ^ 47), 2 ^ 47 - 1), (6, - (2 ^ 63), 2 ^ 63 - 1)]"

text \<open>The \<^verbatim>\<open>for serial_type, low, high in _INT_RANGES\<close> loop.\<close>

fun pick_int_type :: "(nat \<times> int \<times> int) list \<Rightarrow> int \<Rightarrow> (nat \<times> bytes) res" where
  "pick_int_type [] v = Inl ValueError"
| "pick_int_type ((t, low, high) # rs) v =
     (if low \<le> v \<and> v \<le> high then
        (case int_width_by_type t of
           None \<Rightarrow> Inl KeyError
         | Some width \<Rightarrow> bind_res (to_bytes_signed width v) (\<lambda>body. Inr (t, body)))
      else pick_int_type rs v)"

fun serial_type_for :: "pyval \<Rightarrow> (nat \<times> bytes) res" where
  "serial_type_for VNull = Inr (0, [])"
| "serial_type_for (VInt v) =
     (if v = 0 then Inr (8, []) else if v = 1 then Inr (9, []) else pick_int_type int_ranges v)"
| "serial_type_for (VReal bits) = Inr (7, be_encode 8 (unat bits))"
| "serial_type_for (VText s) =
     bind_res (utf8_encode s) (\<lambda>encoded. Inr (length encoded * 2 + 13, encoded))"
| "serial_type_for (VBlob b) = Inr (length b * 2 + 12, b)"

definition body_length :: "nat \<Rightarrow> nat res" where
  "body_length t =
     (if t \<in> {0, 8, 9} then Inr 0
      else case int_width_by_type t of
        Some w \<Rightarrow> Inr w
      | None \<Rightarrow>
          if t = 7 then Inr 8
          else if t \<in> {10, 11} then Inl MalformedRecordError
          else if t mod 2 = 0 then Inr ((t - 12) div 2)
          else Inr ((t - 13) div 2))"

definition decode_value :: "nat \<Rightarrow> bytes \<Rightarrow> nat \<Rightarrow> (pyval \<times> nat) res" where
  "decode_value t data offset =
     (if t = 0 then Inr (VNull, 0)
      else if t = 8 then Inr (VInt 0, 0)
      else if t = 9 then Inr (VInt 1, 0)
      else bind_res (body_length t) (\<lambda>len.
        if length data < offset + len then Inl MalformedRecordError
        else
          let body = py_slice offset (offset + len) data in
          if int_width_by_type t \<noteq> None then Inr (VInt (from_bytes_signed body), len)
          else if t = 7 then Inr (VReal (word_of_nat (be_decode body)), len)
          else if t mod 2 = 0 then Inr (VBlob body, len)
          else bind_res (utf8_decode body) (\<lambda>s. Inr (VText s, len))))"

text \<open>
  The \<^verbatim>\<open>while True\<close> loop of \<^verbatim>\<open>encode_record\<close>: the header size counts its own varint. \<open>header_next\<close>
  is what one turn computes; the measure below is why the loop ends.
\<close>

definition header_next :: "nat \<Rightarrow> nat \<Rightarrow> nat res" where
  "header_next types_len header_size =
     bind_res (encode_uvarint (int header_size)) (\<lambda>v. Inr (length v + types_len))"

definition header_measure :: "nat \<Rightarrow> nat \<Rightarrow> nat" where
  "header_measure types_len h =
     (case header_next types_len h of
        Inl e \<Rightarrow> 0
      | Inr a \<Rightarrow> if a = h then 0 else if h < a then types_len + 10 - h else h)"

lemma header_next_mono:
  assumes "header_next n h = Inr a" and "header_next n k = Inr b" and "h \<le> k"
  shows "a \<le> b"
proof (rule ccontr)
  assume "\<not> a \<le> b"
  from assms obtain u v where u: "encode_uvarint (int h) = Inr u" "a = length u + n"
    and v: "encode_uvarint (int k) = Inr v" "b = length v + n"
    by (auto simp: header_next_def bind_res_eq_Inr)
  with \<open>\<not> a \<le> b\<close> have l: "length v \<le> length u - 1" "1 < length u" "length v \<noteq> 9"
    using encode_uvarint_length(1) [OF u(1)] encode_uvarint_length(1) [OF v(1)] by auto
  have "int k < 2 ^ (7 * length v)" using encode_uvarint_length(3) [OF v(1)] l by simp
  also have "(2::int) ^ (7 * length v) \<le> 2 ^ (7 * (length u - 1))" using l by (simp add: power_increasing)
  also have "\<dots> \<le> int h" using encode_uvarint_length(4) [OF u(1)] l by simp
  finally show False using assms(3) by simp
qed

lemma header_next_bound: "header_next n h = Inr a \<Longrightarrow> a \<le> n + 9"
  using encode_uvarint_length(1) by (fastforce simp: header_next_def bind_res_eq_Inr)

lemma header_measure_decreases:
  assumes "header_next n h = Inr a" and "a \<noteq> h"
  shows "header_measure n a < header_measure n h"
proof (cases "header_next n a")
  case (Inl e)
  with assms header_next_bound [OF assms(1)] show ?thesis
    by (auto simp: header_measure_def)
next
  case (Inr b)
  with assms header_next_bound [OF assms(1)] header_next_mono [OF assms(1) Inr] header_next_mono [OF Inr assms(1)]
  show ?thesis by (auto simp: header_measure_def)
qed

function header_size_loop :: "nat \<Rightarrow> nat \<Rightarrow> nat res" where
  "header_size_loop types_len header_size =
     (case header_next types_len header_size of
        Inl e \<Rightarrow> Inl e
      | Inr actual \<Rightarrow> if actual = header_size then Inr header_size else header_size_loop types_len actual)"
  by pat_completeness auto
termination
  by (relation "measure (\<lambda>(n, h). header_measure n h)") (auto intro: header_measure_decreases)

declare header_size_loop.simps [simp del]

definition encode_record :: "pyval list \<Rightarrow> bytes res" where
  "encode_record values =
     bind_res (map_res serial_type_for values) (\<lambda>pairs.
     bind_res (map_res (\<lambda>p. encode_uvarint (int (fst p))) pairs) (\<lambda>type_varints.
     bind_res (header_size_loop (length (concat type_varints)) (1 + length (concat type_varints)))
       (\<lambda>header_size.
     bind_res (encode_uvarint (int header_size)) (\<lambda>hv.
     Inr (hv @ concat type_varints @ concat (map snd pairs))))))"

text \<open>The \<^verbatim>\<open>while pos < body_start\<close> loop of \<^verbatim>\<open>decode_record\<close>.\<close>

lemma decode_uvarint_loop_consumed:
  "decode_uvarint_loop data offset i r = Inr (v, c, continued) \<Longrightarrow> i \<le> 8 \<Longrightarrow>
   i \<le> c \<and> c \<le> 8 \<and> (\<not> continued \<longrightarrow> i < c \<and> offset + c \<le> length data) \<and> (continued \<longrightarrow> c = 8)"
proof (induction "8 - i" arbitrary: i r)
  case 0
  then show ?case by (simp add: decode_uvarint_loop.simps)
next
  case (Suc d)
  let ?b = "data ! (offset + i)"
  let ?r = "push_bit 7 r OR unat (?b AND 0x7F)"
  from Suc.hyps(2) have i: "i < 8" by simp
  with Suc.prems(1) have len: "offset + i < length data"
    by (simp add: decode_uvarint_loop.simps [of data offset i r] split: if_splits)
  show ?case
  proof (cases "?b AND 0x80 = 0")
    case True
    with Suc.prems(1) i len show ?thesis
      by (simp add: decode_uvarint_loop.simps [of data offset i r] Let_def)
  next
    case False
    with Suc.prems(1) i len have "decode_uvarint_loop data offset (Suc i) ?r = Inr (v, c, continued)"
      by (simp add: decode_uvarint_loop.simps [of data offset i r] Let_def)
    moreover from Suc.hyps(2) i have "d = 8 - Suc i" by simp
    ultimately show ?thesis using Suc.hyps(1) [of "Suc i" ?r] i by auto
  qed
qed

lemma decode_uvarint_consumed:
  assumes "decode_uvarint data offset = Inr (v, c)"
  shows "1 \<le> c \<and> c \<le> 9 \<and> offset + c \<le> length data"
  using assms decode_uvarint_loop_consumed [of data offset 0 0]
  by (fastforce simp: decode_uvarint_def bind_res_eq_Inr split: if_splits prod.splits)

function read_types :: "bytes \<Rightarrow> nat \<Rightarrow> nat \<Rightarrow> (nat list \<times> nat) res" where
  "read_types data pos body_start =
     (if pos < body_start then
        (case decode_uvarint data pos of
           Inl e \<Rightarrow> Inl e
         | Inr (t, consumed) \<Rightarrow>
             bind_res (read_types data (pos + consumed) body_start) (\<lambda>(ts, p). Inr (t # ts, p)))
      else Inr ([], pos))"
  by pat_completeness auto
termination
  by (relation "measure (\<lambda>(data, pos, body_start). body_start - pos)")
     (auto dest: decode_uvarint_consumed)

declare read_types.simps [simp del]

fun read_values :: "bytes \<Rightarrow> nat \<Rightarrow> nat list \<Rightarrow> pyval list res" where
  "read_values data body_offset [] = Inr []"
| "read_values data body_offset (t # ts) =
     bind_res (decode_value t data body_offset) (\<lambda>(v, consumed).
     bind_res (read_values data (body_offset + consumed) ts) (\<lambda>vs. Inr (v # vs)))"

definition decode_record :: "bytes \<Rightarrow> nat \<Rightarrow> pyval list res" where
  "decode_record data offset =
     bind_res (decode_uvarint data offset) (\<lambda>(header_size, consumed).
       let body_start = offset + header_size in
       bind_res (read_types data (offset + consumed) body_start) (\<lambda>(serial_types, pos).
         if pos \<noteq> body_start then Inl MalformedRecordError
         else read_values data body_start serial_types))"

function column_loop :: "bytes \<Rightarrow> nat \<Rightarrow> nat \<Rightarrow> nat \<Rightarrow> nat \<Rightarrow> nat \<Rightarrow> pyval res" where
  "column_loop data pos body_start body_offset idx column =
     (if pos < body_start then
        (case decode_uvarint data pos of
           Inl e \<Rightarrow> Inl e
         | Inr (t, consumed) \<Rightarrow>
             if idx = column then bind_res (decode_value t data body_offset) (\<lambda>(v, _). Inr v)
             else bind_res (body_length t) (\<lambda>len.
               column_loop data (pos + consumed) body_start (body_offset + len) (idx + 1) column))
      else Inl IndexError)"
  by pat_completeness auto
termination
  by (relation "measure (\<lambda>(data, pos, body_start, _). body_start - pos)")
     (auto dest: decode_uvarint_consumed)

declare column_loop.simps [simp del]

definition decode_column :: "bytes \<Rightarrow> nat \<Rightarrow> nat \<Rightarrow> pyval res" where
  "decode_column data offset column =
     bind_res (decode_uvarint data offset) (\<lambda>(header_size, consumed).
       column_loop data (offset + consumed) (offset + header_size) (offset + header_size) 0 column)"

section \<open>One value\<close>

lemma pick_int_type_width:
  "pick_int_type rs v = Inr (t, b) \<Longrightarrow> \<exists>w. int_width_by_type t = Some w \<and> to_bytes_signed w v = Inr b"
  by (induction rs v rule: pick_int_type.induct)
     (auto simp: bind_res_eq_Inr split: if_splits option.splits)

lemma int_width_by_type_range:
  "int_width_by_type t = Some w \<Longrightarrow> 1 \<le> t \<and> t \<le> 6"
  by (auto simp: int_width_by_type_def split: if_splits)

lemma int_width_by_type_None: "6 < t \<Longrightarrow> int_width_by_type t = None"
  by (simp add: int_width_by_type_def)

lemma body_length_simps:
  "body_length 0 = Inr 0" "body_length 8 = Inr 0" "body_length 9 = Inr 0" "body_length 7 = Inr 8"
  "int_width_by_type t = Some w \<Longrightarrow> body_length t = Inr w"
  "body_length (n * 2 + 12) = Inr n" "body_length (n * 2 + 13) = Inr n"
  by (auto simp: body_length_def int_width_by_type_None dest: int_width_by_type_range)

lemma decode_value_consumed: "decode_value t data offset = Inr (v, c) \<Longrightarrow> body_length t = Inr c"
  by (auto simp: decode_value_def Let_def bind_res_eq_Inr body_length_simps split: if_splits)

lemma decode_serial_value:
  assumes "serial_type_for v = Inr (t, body)" and "length pre = offset"
  shows "decode_value t (pre @ body @ suf) offset = Inr (v, length body)"
proof -
  have slice: "py_slice offset (offset + length body) (pre @ body @ suf) = body"
    using assms(2) by (simp add: py_slice_def)
  show ?thesis
  proof (cases v)
    case VNull
    with assms(1) show ?thesis by (simp add: decode_value_def)
  next
    case (VInt i)
    show ?thesis
    proof (cases "i = 0 \<or> i = 1")
      case True
      with VInt assms(1) show ?thesis by (auto simp: decode_value_def)
    next
      case False
      with VInt assms(1) obtain w where w: "int_width_by_type t = Some w" "to_bytes_signed w i = Inr body"
        by (auto dest: pick_int_type_width)
      from from_bytes_signed_to_bytes [OF w(2)] int_width_by_type_range [OF w(1)] w VInt slice assms(2)
      show ?thesis by (simp add: decode_value_def body_length_simps Let_def)
    qed
  next
    case (VReal bits)
    have "be_decode (be_encode 8 (unat bits)) = unat bits"
      using unsigned_less [of bits, where 'a = nat] by (intro be_decode_encode) simp
    moreover from VReal assms(1) have "t = 7" "body = be_encode 8 (unat bits)" "length body = 8"
      by auto
    ultimately show ?thesis using VReal assms(2) slice
      by (simp add: decode_value_def body_length_simps Let_def int_width_by_type_None)
  next
    case (VText s)
    with assms(1) obtain e where e: "utf8_encode s = Inr e" "body = e" "t = length e * 2 + 13"
      by (auto simp: bind_res_eq_Inr)
    have "decode_value (length body * 2 + 13) (pre @ body @ suf) offset = Inr (VText s, length body)"
      using utf8_decode_encode [OF e(1)] slice assms(2) e(2)
      by (simp add: decode_value_def body_length_simps Let_def int_width_by_type_None)
    with e VText show ?thesis by simp
  next
    case (VBlob b)
    with assms(1) have b: "b = body" "t = length body * 2 + 12" by auto
    have "decode_value (length body * 2 + 12) (pre @ body @ suf) offset = Inr (VBlob body, length body)"
      using slice assms(2)
      by (simp add: decode_value_def body_length_simps Let_def int_width_by_type_None)
    with b VBlob show ?thesis by simp
  qed
qed

section \<open>Whole records\<close>

lemma header_size_loop_fixpoint: "header_size_loop n h = Inr k \<Longrightarrow> header_next n k = Inr k"
proof (induction n h rule: header_size_loop.induct)
  case (1 n h)
  then show ?case
    by (cases "header_next n h") (auto simp: header_size_loop.simps [of n h] split: if_splits)
qed

lemma read_types_encoded:
  assumes "map_res (\<lambda>p. encode_uvarint (int (fst p))) pairs = Inr tvs" and "length pre = pos"
  shows "read_types (pre @ concat tvs @ suf) pos (pos + length (concat tvs))
       = Inr (map fst pairs, pos + length (concat tvs))"
  using assms
proof (induction pairs arbitrary: tvs pre pos)
  case Nil
  then show ?case by (simp add: read_types.simps)
next
  case (Cons p pairs)
  from Cons.prems(1) obtain u us where u: "encode_uvarint (int (fst p)) = Inr u"
    and us: "map_res (\<lambda>p. encode_uvarint (int (fst p))) pairs = Inr us" and tvs: "tvs = u # us"
    by (auto simp: bind_res_eq_Inr)
  have "decode_uvarint (pre @ concat tvs @ suf) pos = Inr (fst p, length u)"
    using decode_encode_uvarint [OF u Cons.prems(2), of "concat us @ suf"] by (simp add: tvs)
  moreover have "read_types ((pre @ u) @ concat us @ suf) (pos + length u) (pos + length u + length (concat us))
      = Inr (map fst pairs, pos + length u + length (concat us))"
    using Cons.IH [OF us, of "pre @ u"] Cons.prems(2) by simp
  moreover have "0 < length u" using encode_uvarint_length(1) [OF u] by linarith
  ultimately show ?case
    by (subst read_types.simps) (simp add: tvs add.assoc)
qed

lemma read_values_encoded:
  assumes "map_res serial_type_for vs = Inr pairs" and "length pre = offset"
  shows "read_values (pre @ concat (map snd pairs) @ suf) offset (map fst pairs) = Inr vs"
  using assms
proof (induction vs arbitrary: pairs pre offset)
  case Nil
  then show ?case by simp
next
  case (Cons v vs)
  from Cons.prems(1) obtain t b ps where v: "serial_type_for v = Inr (t, b)"
    and ps: "map_res serial_type_for vs = Inr ps" and pairs: "pairs = (t, b) # ps"
    by (auto simp: bind_res_eq_Inr)
  have "decode_value t (pre @ b @ concat (map snd ps) @ suf) offset = Inr (v, length b)"
    by (rule decode_serial_value [OF v Cons.prems(2)])
  moreover have "read_values ((pre @ b) @ concat (map snd ps) @ suf) (offset + length b) (map fst ps) = Inr vs"
    by (rule Cons.IH [OF ps]) (use Cons.prems(2) in simp)
  ultimately show ?case by (simp add: pairs)
qed

lemma decode_encode_record:
  assumes "encode_record vs = Inr rec" and "length pre = offset"
  shows "decode_record (pre @ rec @ suf) offset = Inr vs"
proof -
  from assms(1) obtain pairs tvs h hv where p: "map_res serial_type_for vs = Inr pairs"
    and t: "map_res (\<lambda>p. encode_uvarint (int (fst p))) pairs = Inr tvs"
    and h: "header_size_loop (length (concat tvs)) (1 + length (concat tvs)) = Inr h"
    and hv: "encode_uvarint (int h) = Inr hv"
    and rec: "rec = hv @ concat tvs @ concat (map snd pairs)"
    by (auto simp: encode_record_def bind_res_eq_Inr)
  from header_size_loop_fixpoint [OF h] hv have size: "h = length hv + length (concat tvs)"
    by (simp add: header_next_def)
  let ?data = "pre @ rec @ suf"
  have "decode_uvarint ?data offset = Inr (h, length hv)"
    using decode_encode_uvarint [OF hv assms(2)] by (simp add: rec)
  moreover have "read_types ?data (offset + length hv) (offset + h) = Inr (map fst pairs, offset + h)"
    using read_types_encoded [OF t, of "pre @ hv" "offset + length hv" "concat (map snd pairs) @ suf"] assms(2)
    by (simp add: rec size add.assoc)
  moreover have "read_values ?data (offset + h) (map fst pairs) = Inr vs"
    using read_values_encoded [OF p, of "pre @ hv @ concat tvs" "offset + h" suf] assms(2)
    by (simp add: rec size)
  ultimately show ?thesis by (simp add: decode_record_def Let_def)
qed

section \<open>Reading one column\<close>

lemma column_loop_correct:
  assumes "read_types data pos body_start = Inr (ts, p)" and "read_values data body_offset ts = Inr vs"
    and "idx \<le> column"
  shows "column_loop data pos body_start body_offset idx column
       = (if column - idx < length vs then Inr (vs ! (column - idx)) else Inl IndexError)"
  using assms
proof (induction ts arbitrary: pos body_offset idx vs)
  case Nil
  then have "\<not> pos < body_start"
    by (auto simp: read_types.simps [of data pos] bind_res_eq_Inr split: if_splits sum.splits prod.splits)
  with Nil show ?case by (simp add: column_loop.simps)
next
  case (Cons t ts)
  from Cons.prems(1) obtain c where pos: "pos < body_start" and t: "decode_uvarint data pos = Inr (t, c)"
    and rest: "read_types data (pos + c) body_start = Inr (ts, p)"
    by (auto simp: read_types.simps [of data pos] bind_res_eq_Inr split: if_splits sum.splits prod.splits)
  from Cons.prems(2) obtain v k ws where v: "decode_value t data body_offset = Inr (v, k)"
    and ws: "read_values data (body_offset + k) ts = Inr ws" and vs: "vs = v # ws"
    by (auto simp: bind_res_eq_Inr)
  show ?case
  proof (cases "idx = column")
    case True
    with pos t v vs show ?thesis by (simp add: column_loop.simps [of data pos])
  next
    case False
    with Cons.prems(3) have "idx + 1 \<le> column" by simp
    then have "column - idx = Suc (column - (idx + 1))" by simp
    moreover note Cons.IH [OF rest ws \<open>idx + 1 \<le> column\<close>]
    ultimately show ?thesis
      using pos t decode_value_consumed [OF v] False vs by (simp add: column_loop.simps [of data pos])
  qed
qed

lemma decode_column_correct:
  assumes "decode_record data offset = Inr vs"
  shows "decode_column data offset i = (if i < length vs then Inr (vs ! i) else Inl IndexError)"
proof -
  from assms obtain h c ts where h: "decode_uvarint data offset = Inr (h, c)"
    and ts: "read_types data (offset + c) (offset + h) = Inr (ts, offset + h)"
    and vs: "read_values data (offset + h) ts = Inr vs"
    by (auto simp: decode_record_def bind_res_eq_Inr Let_def split: if_splits)
  from column_loop_correct [OF ts vs, of 0 i] h show ?thesis by (simp add: decode_column_def)
qed

section \<open>Which rows encode\<close>

text \<open>The values the format can store, with generous bounds on text and blob lengths.\<close>

fun storable :: "pyval \<Rightarrow> bool" where
  "storable VNull = True"
| "storable (VInt v) \<longleftrightarrow> - (2 ^ 63) \<le> v \<and> v < 2 ^ 63"
| "storable (VReal _) = True"
| "storable (VText s) \<longleftrightarrow> (\<forall>c \<in> set s. c < 0x110000 \<and> \<not> is_surrogate c) \<and> length s < 2 ^ 60"
| "storable (VBlob b) \<longleftrightarrow> length b < 2 ^ 60"

lemma utf8_encode_char_length: "utf8_encode_char c = Inr bs \<Longrightarrow> length bs \<le> 4"
  by (auto simp: utf8_encode_char_def split: if_splits)

lemma utf8_encode_length: "utf8_encode s = Inr bs \<Longrightarrow> length bs \<le> 4 * length s"
proof (induction s arbitrary: bs)
  case (Cons c s)
  then obtain cb rest where "utf8_encode_char c = Inr cb" "utf8_encode s = Inr rest" "bs = cb @ rest"
    by (auto simp: utf8_encode_def bind_res_eq_Inr)
  with Cons.IH utf8_encode_char_length show ?case by fastforce
qed (simp add: utf8_encode_def)

lemma pick_int_type_defined:
  assumes "- (2 ^ 63) \<le> v" and "v < 2 ^ 63"
  shows "\<exists>t b. pick_int_type int_ranges v = Inr (t, b) \<and> t \<le> 6"
  using assms
  by (simp add: int_ranges_def int_width_by_type_def to_bytes_signed_def)

lemma serial_type_for_defined:
  assumes "storable v"
  shows "\<exists>t b. serial_type_for v = Inr (t, b) \<and> int t < 2 ^ 64"
proof (cases v)
  case (VInt i)
  with assms pick_int_type_defined [of i] show ?thesis by force
next
  case (VText s)
  with assms utf8_encode_defined [of s] obtain e where e: "utf8_encode s = Inr e" by auto
  with utf8_encode_length [OF e] assms VText show ?thesis by simp
qed (use assms in auto)

lemma encode_types_defined:
  "\<forall>p \<in> set pairs. int (fst p) < 2 ^ 64 \<Longrightarrow>
   \<exists>tvs. map_res (\<lambda>p. encode_uvarint (int (fst p))) pairs = Inr tvs \<and> length (concat tvs) \<le> 9 * length pairs"
proof (induction pairs)
  case (Cons p ps)
  then obtain tvs where "map_res (\<lambda>p. encode_uvarint (int (fst p))) ps = Inr tvs"
    "length (concat tvs) \<le> 9 * length ps" by auto
  moreover from Cons.prems obtain u where u: "encode_uvarint (int (fst p)) = Inr u"
    using encode_uvarint_defined [of "int (fst p)"] by auto
  ultimately show ?case using encode_uvarint_length(1) [OF u] by auto
qed simp

lemma header_size_loop_defined:
  "n < 2 ^ 63 \<Longrightarrow> h \<le> n + 9 \<Longrightarrow> \<exists>k. header_size_loop n h = Inr k \<and> k \<le> n + 9"
proof (induction n h rule: header_size_loop.induct)
  case (1 n h)
  then have "int h < 2 ^ 64" by simp
  then obtain v where "encode_uvarint (int h) = Inr v" using encode_uvarint_defined [of "int h"] by auto
  then have a: "header_next n h = Inr (length v + n)" by (simp add: header_next_def)
  show ?case
  proof (cases "length v + n = h")
    case True
    with a "1.prems" show ?thesis by (simp add: header_size_loop.simps [of n h])
  next
    case False
    with "1.IH" [OF a] "1.prems"(1) header_next_bound [OF a]
    have "\<exists>k. header_size_loop n (length v + n) = Inr k \<and> k \<le> n + 9" by simp
    with a False show ?thesis by (simp add: header_size_loop.simps [of n h])
  qed
qed

lemma map_res_serial_defined:
  "\<forall>v \<in> set vs. storable v \<Longrightarrow>
   \<exists>pairs. map_res serial_type_for vs = Inr pairs \<and> (\<forall>p \<in> set pairs. int (fst p) < 2 ^ 64)"
proof (induction vs)
  case (Cons v vs)
  then obtain ps where "map_res serial_type_for vs = Inr ps" "\<forall>p \<in> set ps. int (fst p) < 2 ^ 64" by auto
  moreover from Cons.prems serial_type_for_defined [of v] obtain t b
    where "serial_type_for v = Inr (t, b)" "int t < 2 ^ 64" by auto
  ultimately show ?case by simp
qed simp

lemma encode_record_defined:
  assumes "\<forall>v \<in> set vs. storable v" and "length vs < 2 ^ 59"
  shows "\<exists>rec. encode_record vs = Inr rec"
proof -
  obtain pairs where p: "map_res serial_type_for vs = Inr pairs" "\<forall>p \<in> set pairs. int (fst p) < 2 ^ 64"
    using map_res_serial_defined [OF assms(1)] by blast
  from encode_types_defined [OF p(2)] obtain tvs
    where t: "map_res (\<lambda>p. encode_uvarint (int (fst p))) pairs = Inr tvs"
      "length (concat tvs) \<le> 9 * length pairs" by blast
  with map_res_eq_Inr_length [OF p(1)] assms(2) have n: "length (concat tvs) < 2 ^ 63" by simp
  obtain h where h: "header_size_loop (length (concat tvs)) (1 + length (concat tvs)) = Inr h"
    "h \<le> length (concat tvs) + 9"
    using header_size_loop_defined [OF n, of "1 + length (concat tvs)"] by auto
  with n have "int h < 2 ^ 64" by simp
  then obtain hv where "encode_uvarint (int h) = Inr hv" using encode_uvarint_defined [of "int h"] by auto
  with p t h show ?thesis by (simp add: encode_record_def)
qed

section \<open>Properties\<close>

text \<open>
  C40. Every row of storable values encodes, and decoding the record where it stands in a larger
  buffer returns exactly the row: no value, type or order is lost.
\<close>

theorem record_roundtrip:
  assumes "\<forall>v \<in> set vs. storable v" and "length vs < 2 ^ 59"
  shows "\<exists>rec. encode_record vs = Inr rec \<and>
           (\<forall>pre suf. decode_record (pre @ rec @ suf) (length pre) = Inr vs)"
  using encode_record_defined [OF assms] decode_encode_record by blast

theorem record_roundtrip_witness:
  "\<exists>rec. encode_record [VInt 7, VNull, VText [99, 97, 102, 233], VBlob [1, 2], VReal 0] = Inr rec \<and>
     (\<forall>pre suf. decode_record (pre @ rec @ suf) (length pre)
        = Inr [VInt 7, VNull, VText [99, 97, 102, 233], VBlob [1, 2], VReal 0])"
  by (rule record_roundtrip) (simp_all add: is_surrogate_def)

text \<open>
  Reading one column without materialising the others gives what the full decoding gives at
  that position, and \<^verbatim>\<open>IndexError\<close> past the last column, for every buffer that decodes.
\<close>

theorem decode_column_agrees:
  assumes "decode_record data offset = Inr vs"
  shows "decode_column data offset i = (if i < length vs then Inr (vs ! i) else Inl IndexError)"
  by (rule decode_column_correct [OF assms])

theorem decode_column_agrees_witness:
  "decode_column [3, 1, 9, 5] 0 1 = Inr (VInt 1)"
proof -
  have "decode_record [3, 1, 9, 5] 0 = Inr [VInt 5, VInt 1]"
    by (simp add: decode_record_def decode_uvarint_def decode_uvarint_loop.simps read_types.simps
        decode_value_def body_length_def int_width_by_type_def Let_def py_slice_def
        from_bytes_signed_def be_decode_def nth_Cons')
  from decode_column_agrees [OF this, of 1] show ?thesis by simp
qed

text \<open>
  The header-size loop always ends, and for rows within the format's limits it ends with a
  size that counts its own varint: the header is exactly as long as its first field says.
\<close>

theorem header_size_consistent:
  assumes "n < 2 ^ 63"
  shows "\<exists>h hv. header_size_loop n (1 + n) = Inr h \<and> encode_uvarint (int h) = Inr hv \<and> h = length hv + n"
proof -
  from header_size_loop_defined [OF assms, of "1 + n"] obtain h where h: "header_size_loop n (1 + n) = Inr h"
    by auto
  from header_size_loop_fixpoint [OF h] h show ?thesis
    by (auto simp: header_next_def bind_res_eq_Inr)
qed

theorem header_size_consistent_witness:
  "\<exists>h hv. header_size_loop 127 (1 + 127) = Inr h \<and> encode_uvarint (int h) = Inr hv \<and> h = length hv + 127"
  by (rule header_size_consistent) simp

end
