(* ===== verification/Constants.thy ===== *)
theory Constants
  imports Prelude
begin

text \<open>
  The format constants of \<^verbatim>\<open>src/src/quilldb/constants.py\<close> that the modelled code uses, and the
  \<^verbatim>\<open>PageType\<close> enumeration with its three derived attributes.
\<close>

definition PAGE_SIZE :: nat where "PAGE_SIZE = 4096"
definition USABLE_SIZE :: nat where "USABLE_SIZE = PAGE_SIZE - 0"
definition FILE_HEADER_SIZE :: nat where "FILE_HEADER_SIZE = 100"
definition SCHEMA_ROOT_PAGE :: nat where "SCHEMA_ROOT_PAGE = 1"
definition LEAF_HEADER_SIZE :: nat where "LEAF_HEADER_SIZE = 8"
definition INTERIOR_HEADER_SIZE :: nat where "INTERIOR_HEADER_SIZE = 12"
definition SECTOR_SIZE :: nat where "SECTOR_SIZE = 512"

text \<open>\<^verbatim>\<open>MAGIC = b"SQLite format 3\x00"\<close> and \<^verbatim>\<open>JOURNAL_MAGIC = b"quilldbj"\<close>.\<close>

definition MAGIC :: bytes where
  "MAGIC = [0x53, 0x51, 0x4C, 0x69, 0x74, 0x65, 0x20, 0x66, 0x6F, 0x72, 0x6D, 0x61, 0x74, 0x20, 0x33, 0x00]"

definition JOURNAL_MAGIC :: bytes where
  "JOURNAL_MAGIC = [0x71, 0x75, 0x69, 0x6C, 0x6C, 0x64, 0x62, 0x6A]"

datatype page_type = INTERIOR_INDEX | INTERIOR_TABLE | LEAF_INDEX | LEAF_TABLE

fun page_type_value :: "page_type \<Rightarrow> nat" where
  "page_type_value INTERIOR_INDEX = 2"
| "page_type_value INTERIOR_TABLE = 5"
| "page_type_value LEAF_INDEX = 10"
| "page_type_value LEAF_TABLE = 13"

text \<open>\<^verbatim>\<open>PageType(b)\<close>, \<open>None\<close> for a byte that names no page type.\<close>

definition page_type_of :: "nat \<Rightarrow> page_type option" where
  "page_type_of b =
     (if b = 2 then Some INTERIOR_INDEX else if b = 5 then Some INTERIOR_TABLE
      else if b = 10 then Some LEAF_INDEX else if b = 13 then Some LEAF_TABLE else None)"

definition is_leaf :: "page_type \<Rightarrow> bool" where
  "is_leaf t \<longleftrightarrow> t = LEAF_INDEX \<or> t = LEAF_TABLE"

definition is_table :: "page_type \<Rightarrow> bool" where
  "is_table t \<longleftrightarrow> t = INTERIOR_TABLE \<or> t = LEAF_TABLE"

definition header_size :: "page_type \<Rightarrow> nat" where
  "header_size t = (if is_leaf t then LEAF_HEADER_SIZE else INTERIOR_HEADER_SIZE)"

lemma page_type_of_value [simp]: "page_type_of (page_type_value t) = Some t"
  by (cases t) (simp_all add: page_type_of_def)

lemma page_type_value_less: "page_type_value t < 256"
  by (cases t) simp_all

lemma header_size_eq: "header_size t = (if is_leaf t then 8 else 12)"
  by (simp add: header_size_def LEAF_HEADER_SIZE_def INTERIOR_HEADER_SIZE_def)

end
