(* ===== verification/Page.thy ===== *)
theory Page
  imports Constants
begin

text \<open>
  Slotted pages, \<^verbatim>\<open>src/src/quilldb/storage/page.py\<close>: a \<^verbatim>\<open>PageBody\<close> is parsed from the page's
  bytes, edited as a list of cells and serialized again. The lemmas show that parsing inverts
  serializing, that a page is refused exactly when it does not fit, and what
  \<^verbatim>\<open>write_page_body\<close> keeps of page 1's file header.
\<close>

section \<open>Definitions\<close>

record page_body =
  pb_type :: page_type
  pb_cells :: "bytes list"
  pb_right_child :: nat
  pb_header_offset :: nat

definition mk_page :: "page_type \<Rightarrow> bytes list \<Rightarrow> nat \<Rightarrow> page_body" where
  "mk_page t cells right_child =
     \<lparr>pb_type = t, pb_cells = cells, pb_right_child = right_child, pb_header_offset = 0\<rparr>"

definition cell_count :: "page_body \<Rightarrow> nat" where
  "cell_count body = length (pb_cells body)"

definition used_bytes :: "page_body \<Rightarrow> nat" where
  "used_bytes body =
     pb_header_offset body + header_size (pb_type body) + 2 * cell_count body
     + sum_list (map length (pb_cells body))"

definition free_bytes :: "page_body \<Rightarrow> int" where
  "free_bytes body = int PAGE_SIZE - int (used_bytes body)"

definition fits :: "page_body \<Rightarrow> nat \<Rightarrow> bool" where
  "fits body payload_len \<longleftrightarrow> int payload_len + 2 \<le> free_bytes body"

text \<open>\<^verbatim>\<open>list.insert\<close> puts an index past the end at the end; it never raises.\<close>

definition insert_cell :: "nat \<Rightarrow> bytes \<Rightarrow> page_body \<Rightarrow> page_body res" where
  "insert_cell index payload body =
     (if \<not> fits body (length payload) then Inl PageFullError
      else Inr (body\<lparr>pb_cells := take index (pb_cells body) @ [payload] @ drop index (pb_cells body)\<rparr>))"

definition delete_cell :: "nat \<Rightarrow> page_body \<Rightarrow> page_body res" where
  "delete_cell index body =
     (if index < cell_count body
      then Inr (body\<lparr>pb_cells := take index (pb_cells body) @ drop (Suc index) (pb_cells body)\<rparr>)
      else Inl IndexError)"

text \<open>The two loops of \<^verbatim>\<open>parse_page\<close>: the pointer array, then the cells it cuts out.\<close>

fun read_ptrs :: "bytes \<Rightarrow> nat \<Rightarrow> nat \<Rightarrow> nat \<Rightarrow> nat list res" where
  "read_ptrs data offset low 0 = Inr []"
| "read_ptrs data offset low (Suc n) =
     (let decoded_offset = be_decode (py_slice offset (offset + 2) data) in
      if \<not> (low \<le> decoded_offset \<and> decoded_offset \<le> PAGE_SIZE) then Inl MalformedCellError
      else bind_res (read_ptrs data (offset + 2) low n) (\<lambda>offsets. Inr (decoded_offset # offsets)))"

fun cut_cells :: "bytes \<Rightarrow> nat \<Rightarrow> nat list \<Rightarrow> bytes list" where
  "cut_cells data previous [] = []"
| "cut_cells data previous (offset # offsets) =
     py_slice offset previous data # cut_cells data offset offsets"

definition parse_page :: "bytes \<Rightarrow> nat \<Rightarrow> page_body res" where
  "parse_page data header_offset =
     bind_res (py_get data header_offset) (\<lambda>b.
       case page_type_of (unat b) of
         None \<Rightarrow> Inl InvalidPageTypeError
       | Some page_type \<Rightarrow>
           let ptr_array_start = header_offset + header_size page_type;
               count = be_decode (py_slice (header_offset + 3) (header_offset + 5) data)
           in if PAGE_SIZE < ptr_array_start + 2 * count then Inl MalformedCellError
              else bind_res (read_ptrs data ptr_array_start (ptr_array_start + 2 * count) count)
                (\<lambda>offsets. Inr
                  \<lparr>pb_type = page_type, pb_cells = cut_cells data PAGE_SIZE offsets,
                   pb_right_child =
                     (if is_leaf page_type then 0
                      else be_decode (py_slice (header_offset + 8) (header_offset + 12) data)),
                   pb_header_offset = header_offset\<rparr>))"

text \<open>
  The two loops of \<^verbatim>\<open>serialize_page\<close>: cell contents packed from the end of the page downwards,
  then the pointers. The guard of \<^verbatim>\<open>serialize_page\<close> keeps \<^verbatim>\<open>cur_offset\<close> from going negative.
\<close>

fun place_cells :: "bytes \<Rightarrow> nat \<Rightarrow> bytes list \<Rightarrow> bytes \<times> nat list \<times> nat" where
  "place_cells page cur_offset [] = (page, [], cur_offset)"
| "place_cells page cur_offset (cell # cells) =
     (let cur = cur_offset - length cell;
          (page', ptrs, fin) = place_cells (py_put cur (cur + length cell) cell page) cur cells
      in (page', cur # ptrs, fin))"

fun write_ptrs :: "bytes \<Rightarrow> nat \<Rightarrow> nat list \<Rightarrow> bytes res" where
  "write_ptrs page cell_ptr_start [] = Inr page"
| "write_ptrs page cell_ptr_start (ptr # ptrs) =
     bind_res (to_bytes 2 ptr) (\<lambda>b.
       write_ptrs (py_put cell_ptr_start (cell_ptr_start + 2) b page) (cell_ptr_start + 2) ptrs)"

text \<open>The two halves of \<^verbatim>\<open>serialize_page\<close>: the page header, then the cells.\<close>

definition serialize_head :: "page_body \<Rightarrow> bytes res" where
  "serialize_head body =
     (let hdr = pb_header_offset body;
          page0 = (replicate PAGE_SIZE 0)[hdr := word_of_nat (page_type_value (pb_type body))]
      in bind_res (to_bytes 2 (cell_count body)) (\<lambda>count.
         let page1 = py_put (hdr + 3) (hdr + 5) count page0 in
         if is_leaf (pb_type body) then Inr page1
         else bind_res (to_bytes 4 (pb_right_child body)) (\<lambda>rc.
           Inr (py_put (hdr + 8) (hdr + 12) rc page1))))"

definition serialize_cells :: "page_body \<Rightarrow> bytes \<Rightarrow> bytes res" where
  "serialize_cells body page =
     (let hdr = pb_header_offset body;
          (page', ptrs, cur_offset) = place_cells page PAGE_SIZE (pb_cells body)
      in bind_res (write_ptrs page' (hdr + header_size (pb_type body)) ptrs) (\<lambda>page''.
         bind_res (to_bytes 2 cur_offset) (\<lambda>content_start.
           Inr (py_put (hdr + 5) (hdr + 7) content_start page''))))"

definition serialize_page :: "page_body \<Rightarrow> bytes res" where
  "serialize_page body =
     (if PAGE_SIZE < used_bytes body then Inl PageFullError
      else bind_res (serialize_head body) (serialize_cells body))"

definition write_page_body :: "bytes \<Rightarrow> page_body \<Rightarrow> bytes res" where
  "write_page_body raw body =
     (if length raw \<noteq> PAGE_SIZE then Inl ValueError
      else bind_res (serialize_page body) (\<lambda>serialized.
        Inr (take (pb_header_offset body) raw @ drop (pb_header_offset body) serialized)))"

text \<open>A body whose fields the page format can represent.\<close>

definition page_ok :: "page_body \<Rightarrow> bool" where
  "page_ok body \<longleftrightarrow>
     used_bytes body \<le> PAGE_SIZE \<and> pb_right_child body < 2 ^ 32 \<and>
     (is_leaf (pb_type body) \<longrightarrow> pb_right_child body = 0)"

section \<open>Packing cells and pointers\<close>

lemma list_update_put: "i < length xs \<Longrightarrow> xs[i := v] = py_put i (i + 1) [v] xs"
  by (simp add: py_put_def upd_conv_take_nth_drop)

lemma place_cells_frame_all:
  assumes "place_cells page cur cells = (p, ptrs, fin)"
    and "sum_list (map length cells) \<le> cur" and "cur \<le> length page"
  shows "fin = cur - sum_list (map length cells) \<and> same_outside fin cur page p
       \<and> length ptrs = length cells \<and> (\<forall>x \<in> set ptrs. fin \<le> x \<and> x \<le> cur)"
  using assms
proof (induction page cur cells arbitrary: p ptrs fin rule: place_cells.induct)
  case (2 page cur cell cells)
  let ?c = "cur - length cell"
  let ?page = "py_put ?c (?c + length cell) cell page"
  obtain ptrs' where rec: "place_cells ?page ?c cells = (p, ptrs', fin)" and ptrs: "ptrs = ?c # ptrs'"
    using "2.prems"(1) by (auto simp: Let_def split: prod.splits)
  have len: "length cell \<le> cur" using "2.prems"(2) by simp
  then have put: "same_outside ?c cur page ?page"
    using "2.prems"(3) same_outside_put [of ?c cur page cell] by simp
  have prems: "sum_list (map length cells) \<le> ?c" "?c \<le> length ?page"
    using "2.prems"(2,3) same_outside_length [OF put] by auto
  have IH: "fin = ?c - sum_list (map length cells)" "same_outside fin ?c ?page p"
    "length ptrs' = length cells" "\<forall>x \<in> set ptrs'. fin \<le> x \<and> x \<le> ?c"
    using "2.IH" [OF refl rec prems] by blast+
  then have "fin \<le> ?c" using prems by simp
  then have "same_outside fin cur page p"
    using same_outside_trans [OF put IH(2)] by (simp add: min_absorb2 max_absorb1)
  with IH ptrs \<open>fin \<le> ?c\<close> len show ?case by fastforce
qed auto

lemma place_cells_frame:
  assumes "place_cells page cur cells = (p, ptrs, fin)"
    and "sum_list (map length cells) \<le> cur" and "cur \<le> length page"
  shows "fin = cur - sum_list (map length cells)" and "same_outside fin cur page p"
    and "length ptrs = length cells" and "\<forall>x \<in> set ptrs. fin \<le> x \<and> x \<le> cur"
  using place_cells_frame_all [OF assms] by blast+

lemma cut_placed_cells:
  assumes "place_cells page cur cells = (p, ptrs, fin)"
    and "sum_list (map length cells) \<le> cur" and "cur \<le> length page"
    and "\<And>c d. fin \<le> c \<Longrightarrow> d \<le> cur \<Longrightarrow> py_slice c d q = py_slice c d p"
  shows "cut_cells q cur ptrs = cells"
  using assms
proof (induction page cur cells arbitrary: p ptrs fin rule: place_cells.induct)
  case (2 page cur cell cells)
  let ?c = "cur - length cell"
  let ?page = "py_put ?c (?c + length cell) cell page"
  obtain ptrs' where rec: "place_cells ?page ?c cells = (p, ptrs', fin)" and ptrs: "ptrs = ?c # ptrs'"
    using "2.prems"(1) by (auto simp: Let_def split: prod.splits)
  have len: "length cell \<le> cur" using "2.prems"(2) by simp
  then have page: "length ?page = length page"
    using "2.prems"(3) length_py_put [of ?c cur page cell] by simp
  have prems: "sum_list (map length cells) \<le> ?c" "?c \<le> length ?page"
    using "2.prems"(2,3) page by auto
  note frame = place_cells_frame [OF rec prems]
  have "cut_cells q ?c ptrs' = cells"
    by (rule "2.IH" [OF refl rec prems]) (use "2.prems"(4) in simp)
  moreover have "py_slice ?c cur q = py_slice ?c cur p"
    using frame(1) prems(1) by (intro "2.prems"(4)) simp_all
  moreover have "py_slice ?c cur p = py_slice ?c cur ?page"
    using frame(2) by (rule same_outside_slice) simp
  moreover have "py_slice ?c cur ?page = cell"
    using py_slice_put_same [of ?c cur page cell] len "2.prems"(3) by simp
  ultimately show ?case by (simp add: ptrs)
qed simp

lemma write_ptrs_defined:
  "\<forall>x \<in> set ptrs. x \<le> PAGE_SIZE \<Longrightarrow> \<exists>p. write_ptrs page start ptrs = Inr p"
  by (induction page start ptrs rule: write_ptrs.induct) (auto simp: to_bytes_def PAGE_SIZE_def)

lemma write_ptrs_frame:
  assumes "write_ptrs page start ptrs = Inr p" and "start + 2 * length ptrs \<le> length page"
  shows "same_outside start (start + 2 * length ptrs) page p"
  using assms
proof (induction page start ptrs arbitrary: p rule: write_ptrs.induct)
  case (2 page start ptr ptrs)
  let ?page = "py_put start (start + 2) (be_encode 2 ptr) page"
  have rec: "write_ptrs ?page (start + 2) ptrs = Inr p" and b: "to_bytes 2 ptr = Inr (be_encode 2 ptr)"
    using "2.prems"(1) by (auto simp: bind_res_eq_Inr to_bytes_eq_Inr to_bytes_def split: if_splits)
  have put: "same_outside start (start + 2) page ?page"
    using "2.prems"(2) by (intro same_outside_put) simp_all
  have "same_outside (start + 2) (start + 2 + 2 * length ptrs) ?page p"
    by (rule "2.IH" [OF b rec]) (use "2.prems"(2) same_outside_length [OF put] in simp)
  from same_outside_trans [OF put this] show ?case by (simp add: max_def min_def)
qed simp

lemma read_written_ptrs:
  assumes "write_ptrs page start ptrs = Inr p" and "start + 2 * length ptrs \<le> length page"
    and "\<forall>x \<in> set ptrs. low \<le> x \<and> x \<le> PAGE_SIZE"
    and "\<And>c d. start \<le> c \<Longrightarrow> d \<le> start + 2 * length ptrs \<Longrightarrow> py_slice c d q = py_slice c d p"
  shows "read_ptrs q start low (length ptrs) = Inr ptrs"
  using assms
proof (induction page start ptrs arbitrary: p rule: write_ptrs.induct)
  case (2 page start ptr ptrs)
  let ?page = "py_put start (start + 2) (be_encode 2 ptr) page"
  have rec: "write_ptrs ?page (start + 2) ptrs = Inr p" and b: "to_bytes 2 ptr = Inr (be_encode 2 ptr)"
    and small: "ptr < 256 ^ 2"
    using "2.prems"(1) by (auto simp: bind_res_eq_Inr to_bytes_eq_Inr to_bytes_def split: if_splits)
  have len: "length ?page = length page"
    using "2.prems"(2) by (intro length_py_put) simp_all
  have fr: "same_outside (start + 2) (start + 2 + 2 * length ptrs) ?page p"
    by (rule write_ptrs_frame [OF rec]) (use "2.prems"(2) len in simp)
  have "read_ptrs q (start + 2) low (length ptrs) = Inr ptrs"
    by (rule "2.IH" [OF b rec]) (use "2.prems"(2,3,4) len in auto)
  moreover have "py_slice start (start + 2) q = py_slice start (start + 2) p"
    by (rule "2.prems"(4)) simp_all
  moreover have "py_slice start (start + 2) p = py_slice start (start + 2) ?page"
    using fr by (rule same_outside_slice) simp
  moreover have "py_slice start (start + 2) ?page = be_encode 2 ptr"
    using "2.prems"(2) by (intro py_slice_put_same) simp_all
  ultimately show ?case using "2.prems"(3) small by (simp add: Let_def)
qed simp

section \<open>Serializing and parsing\<close>

lemma header_room:
  assumes "used_bytes body \<le> PAGE_SIZE"
  shows "pb_header_offset body + 8 \<le> PAGE_SIZE"
    and "\<not> is_leaf (pb_type body) \<Longrightarrow> pb_header_offset body + 12 \<le> PAGE_SIZE"
  using assms by (auto simp: used_bytes_def header_size_eq split: if_splits)

text \<open>The header half: the type byte, the cell count and the right child, read back.\<close>

lemma serialize_head_regions:
  assumes "serialize_head body = Inr q" and "used_bytes body \<le> PAGE_SIZE"
  defines "hdr \<equiv> pb_header_offset body"
  shows "length q = PAGE_SIZE"
    and "q ! hdr = word_of_nat (page_type_value (pb_type body))"
    and "be_decode (py_slice (hdr + 3) (hdr + 5) q) = cell_count body"
    and "\<not> is_leaf (pb_type body) \<Longrightarrow> be_decode (py_slice (hdr + 8) (hdr + 12) q) = pb_right_child body"
proof -
  note room = header_room [OF assms(2), folded hdr_def]
  define page0 :: bytes where "page0 = (replicate PAGE_SIZE 0)[hdr := word_of_nat (page_type_value (pb_type body))]"
  define page1 where "page1 = py_put (hdr + 3) (hdr + 5) (be_encode 2 (cell_count body)) page0"
  from assms(1) have n: "cell_count body < 256 ^ 2"
    and rc: "\<not> is_leaf (pb_type body) \<Longrightarrow> pb_right_child body < 256 ^ 4"
    and q: "q = (if is_leaf (pb_type body) then page1
        else py_put (hdr + 8) (hdr + 12) (be_encode 4 (pb_right_child body)) page1)"
    by (auto simp: serialize_head_def Let_def bind_res_eq_Inr to_bytes_eq_Inr page0_def page1_def hdr_def
        split: if_splits)
  have len0: "length page0 = PAGE_SIZE" by (simp add: page0_def)
  have o1: "same_outside (hdr + 3) (hdr + 5) page0 page1"
    unfolding page1_def by (rule same_outside_put) (use room len0 in simp_all)
  have len1: "length page1 = PAGE_SIZE" using same_outside_length [OF o1] len0 by simp
  have o2: "same_outside (hdr + 8) (hdr + 12) page1 q"
  proof (cases "is_leaf (pb_type body)")
    case False
    then show ?thesis unfolding q if_not_P [OF False]
      by (intro same_outside_put) (use room(2) [OF False] len1 in simp_all)
  qed (simp add: q)
  show "length q = PAGE_SIZE" using same_outside_length [OF o2] len1 by simp
  have "q ! hdr = page0 ! hdr"
    using same_outside_nth [OF o2, of hdr] same_outside_nth [OF o1, of hdr] room len0 len1 by simp
  then show "q ! hdr = word_of_nat (page_type_value (pb_type body))" using room by (simp add: page0_def)
  have "py_slice (hdr + 3) (hdr + 5) q = py_slice (hdr + 3) (hdr + 5) page1"
    using o2 by (rule same_outside_slice) simp
  also have "\<dots> = be_encode 2 (cell_count body)"
    unfolding page1_def by (rule py_slice_put_same) (use room len0 in simp_all)
  finally show "be_decode (py_slice (hdr + 3) (hdr + 5) q) = cell_count body" using n by simp
  show "be_decode (py_slice (hdr + 8) (hdr + 12) q) = pb_right_child body" if "\<not> is_leaf (pb_type body)"
    using that rc room(2) len1 by (simp add: q py_slice_put_same)
qed

text \<open>The cell half leaves the header's other fields alone and can be read back.\<close>

lemma serialize_cells_regions:
  assumes "serialize_cells body q = Inr p" and "length q = PAGE_SIZE" and "used_bytes body \<le> PAGE_SIZE"
  defines "hdr \<equiv> pb_header_offset body" and "start \<equiv> pb_header_offset body + header_size (pb_type body)"
  obtains ptrs where "length p = PAGE_SIZE" and "p ! hdr = q ! hdr"
    and "\<And>c d. d \<le> hdr + 5 \<or> hdr + 7 \<le> c \<Longrightarrow> d \<le> start \<Longrightarrow> py_slice c d p = py_slice c d q"
    and "read_ptrs p start (start + 2 * cell_count body) (cell_count body) = Inr ptrs"
    and "cut_cells p PAGE_SIZE ptrs = pb_cells body"
proof -
  let ?n = "cell_count body" and ?s = "sum_list (map length (pb_cells body))"
  obtain page3 ptrs fin where place: "place_cells q PAGE_SIZE (pb_cells body) = (page3, ptrs, fin)"
    by (cases "place_cells q PAGE_SIZE (pb_cells body)") auto
  from assms(1) obtain page4 where wr: "write_ptrs page3 start ptrs = Inr page4"
    and p: "p = py_put (hdr + 5) (hdr + 7) (be_encode 2 fin) page4"
    using place
    by (auto simp: serialize_cells_def Let_def bind_res_eq_Inr to_bytes_eq_Inr hdr_def start_def)
  have size: "start + 2 * ?n + ?s \<le> PAGE_SIZE" using assms(3) by (simp add: used_bytes_def start_def)
  have start: "hdr + 8 \<le> start" by (simp add: start_def hdr_def header_size_eq)
  have sums: "?s \<le> PAGE_SIZE" "PAGE_SIZE \<le> length q" using size assms(2) by simp_all
  note fr = place_cells_frame [OF place sums]
  have fin: "start + 2 * ?n \<le> fin" and np: "length ptrs = ?n"
    using fr(1,3) size by (simp_all add: cell_count_def)
  have len3: "length page3 = PAGE_SIZE" using same_outside_length [OF fr(2)] assms(2) by simp
  have room: "start + 2 * length ptrs \<le> length page3" using fin np len3 fr(1) by simp
  note o4 = write_ptrs_frame [OF wr room]
  have len4: "length page4 = PAGE_SIZE" using same_outside_length [OF o4] len3 by simp
  have o5: "same_outside (hdr + 5) (hdr + 7) page4 p"
    unfolding p by (rule same_outside_put) (use start size len4 in simp_all)
  have o34: "same_outside start PAGE_SIZE q page4"
    using same_outside_mono [OF same_outside_trans [OF fr(2) o4], of start PAGE_SIZE] fin np fr(1) by simp
  show ?thesis
  proof
    show "length p = PAGE_SIZE" using same_outside_length [OF o5] len4 by simp
    show "p ! hdr = q ! hdr"
      using same_outside_nth [OF o5, of hdr] same_outside_nth [OF o34, of hdr] start size assms(2) len4 by simp
    show "py_slice c d p = py_slice c d q" if "d \<le> hdr + 5 \<or> hdr + 7 \<le> c" "d \<le> start" for c d
      using same_outside_slice [OF o5, of d c] same_outside_slice [OF o34, of d c] that by simp
    show "read_ptrs p start (start + 2 * ?n) ?n = Inr ptrs"
      unfolding np [symmetric] by (rule read_written_ptrs [OF wr room])
        (use fr(4) fin np start in \<open>auto intro: same_outside_slice [OF o5]\<close>)
    show "cut_cells p PAGE_SIZE ptrs = pb_cells body"
      by (rule cut_placed_cells [OF place sums])
        (use same_outside_slice [OF o5] same_outside_slice [OF o4] fin np start in simp)
  qed
qed

lemma serialize_page_split:
  assumes "serialize_page body = Inr p"
  obtains q where "used_bytes body \<le> PAGE_SIZE" and "serialize_head body = Inr q" and "serialize_cells body q = Inr p"
  using assms by (auto simp: serialize_page_def bind_res_eq_Inr split: if_splits)

lemma serialize_page_length: "serialize_page body = Inr p \<Longrightarrow> length p = PAGE_SIZE"
  by (metis serialize_page_split serialize_head_regions(1) serialize_cells_regions)

lemma parse_serialize_page:
  assumes "serialize_page body = Inr p" and "is_leaf (pb_type body) \<longrightarrow> pb_right_child body = 0"
  shows "parse_page p (pb_header_offset body) = Inr body"
proof -
  let ?h = "pb_header_offset body" and ?t = "pb_type body"
  obtain q where used: "used_bytes body \<le> PAGE_SIZE" and q: "serialize_head body = Inr q"
    and p: "serialize_cells body q = Inr p"
    using assms(1) by (rule serialize_page_split)
  note head = serialize_head_regions [OF q used]
  obtain ptrs where r: "length p = PAGE_SIZE" "p ! ?h = q ! ?h"
    "\<And>c d. d \<le> ?h + 5 \<or> ?h + 7 \<le> c \<Longrightarrow> d \<le> ?h + header_size ?t \<Longrightarrow> py_slice c d p = py_slice c d q"
    "read_ptrs p (?h + header_size ?t) (?h + header_size ?t + 2 * cell_count body) (cell_count body) = Inr ptrs"
    "cut_cells p PAGE_SIZE ptrs = pb_cells body"
    using serialize_cells_regions [OF p head(1) used] by blast
  have "unat (p ! ?h) = page_type_value ?t"
    using page_type_value_less [of ?t] by (simp add: r(2) head(2) unat_of_nat)
  moreover have "be_decode (py_slice (?h + 3) (?h + 5) p) = cell_count body"
    using r(3) [of "?h + 5" "?h + 3"] head(3) by (simp add: header_size_eq)
  moreover have "be_decode (py_slice (?h + 8) (?h + 12) p) = pb_right_child body" if "\<not> is_leaf ?t"
    using r(3) [of "?h + 12" "?h + 8"] head(4) that by (simp add: header_size_eq)
  moreover have "?h + header_size ?t + 2 * cell_count body \<le> PAGE_SIZE" "?h < PAGE_SIZE"
    using used header_room [OF used] by (simp_all add: used_bytes_def)
  ultimately show ?thesis
    using r(1,4,5) assms(2) by (simp add: parse_page_def py_get_def Let_def)
qed

lemma serialize_page_defined:
  assumes "page_ok body"
  shows "\<exists>p. serialize_page body = Inr p"
proof -
  have used: "used_bytes body \<le> PAGE_SIZE" and rc: "pb_right_child body < 256 ^ 4"
    using assms by (simp_all add: page_ok_def)
  then have n: "cell_count body < 256 ^ 2" by (simp add: used_bytes_def PAGE_SIZE_def)
  with rc obtain q where q: "serialize_head body = Inr q"
    by (cases "is_leaf (pb_type body)") (simp_all add: serialize_head_def to_bytes_def Let_def)
  note len = serialize_head_regions(1) [OF q used]
  obtain page3 ptrs fin where place: "place_cells q PAGE_SIZE (pb_cells body) = (page3, ptrs, fin)"
    by (cases "place_cells q PAGE_SIZE (pb_cells body)") auto
  have sums: "sum_list (map length (pb_cells body)) \<le> PAGE_SIZE" "PAGE_SIZE \<le> length q"
    using used len by (simp_all add: used_bytes_def)
  from place_cells_frame [OF place sums] have "\<forall>x \<in> set ptrs. x \<le> PAGE_SIZE" and fin: "fin < 256 ^ 2"
    by (auto simp: PAGE_SIZE_def)
  with write_ptrs_defined obtain page4
    where "write_ptrs page3 (pb_header_offset body + header_size (pb_type body)) ptrs = Inr page4"
    by blast
  with fin used q show ?thesis
    by (simp add: serialize_page_def serialize_cells_def place to_bytes_def Let_def)
qed

lemma write_page_body_defined:
  assumes "page_ok body" and "length raw = PAGE_SIZE"
  obtains serialized where "serialize_page body = Inr serialized" and "length serialized = PAGE_SIZE"
    and "write_page_body raw body =
      Inr (take (pb_header_offset body) raw @ drop (pb_header_offset body) serialized)"
proof -
  obtain s where "serialize_page body = Inr s" using serialize_page_defined [OF assms(1)] by blast
  with that serialize_page_length [OF this] assms(2) show ?thesis by (simp add: write_page_body_def)
qed

text \<open>Parsing at an offset reads nothing before it.\<close>

lemma py_slice_drop: "h \<le> c \<Longrightarrow> drop h p = drop h q \<Longrightarrow> py_slice c d p = py_slice c d q"
  by (metis add_diff_inverse_nat drop_drop not_less py_slice_def add.commute)

lemma read_ptrs_drop:
  "h \<le> offset \<Longrightarrow> drop h p = drop h q \<Longrightarrow> read_ptrs p offset low n = read_ptrs q offset low n"
proof (induction n arbitrary: offset)
  case (Suc n)
  then have "py_slice offset (offset + 2) p = py_slice offset (offset + 2) q"
    by (intro py_slice_drop)
  with Suc show ?case by (simp only: read_ptrs.simps trans_le_add1)
qed simp

lemma read_ptrs_low: "read_ptrs p offset low n = Inr offsets \<Longrightarrow> x \<in> set offsets \<Longrightarrow> low \<le> x"
proof (induction n arbitrary: offset offsets)
  case (Suc n)
  from Suc.prems(1) obtain offsets' where rec: "read_ptrs p (offset + 2) low n = Inr offsets'"
    and offsets: "offsets = be_decode (py_slice offset (offset + 2) p) # offsets'"
    and low: "low \<le> be_decode (py_slice offset (offset + 2) p)"
    unfolding read_ptrs.simps Let_def by (auto simp only: bind_res_eq_Inr sum.inject split: if_splits)
  from Suc.IH [OF rec] Suc.prems(2) low show ?case unfolding offsets by auto
qed simp

lemma cut_cells_drop:
  "\<forall>x \<in> set offsets. h \<le> x \<Longrightarrow> drop h p = drop h q \<Longrightarrow> cut_cells p prev offsets = cut_cells q prev offsets"
  by (induction p prev offsets rule: cut_cells.induct) (auto intro: py_slice_drop)

lemma parse_page_drop:
  assumes "drop h p = drop h q" and "length p = length q"
  shows "parse_page p h = parse_page q h"
proof -
  have g: "py_get p h = py_get q h"
    using assms by (auto simp: py_get_def) (metis Cons_nth_drop_Suc nth_via_drop)
  have c: "cut_cells p PAGE_SIZE offsets = cut_cells q PAGE_SIZE offsets"
    if "read_ptrs q (h + k) (h + k + j) n = Inr offsets" for k j n offsets
    using read_ptrs_low [OF that] assms(1) by (intro cut_cells_drop [of _ h] ballI) fastforce+
  have r: "read_ptrs p (h + k) l n = read_ptrs q (h + k) l n" for k l n
    by (rule read_ptrs_drop [OF _ assms(1)]) simp
  have body: "bind_res (read_ptrs p (h + k) (h + k + j) n)
        (\<lambda>offsets. Inr \<lparr>pb_type = t, pb_cells = cut_cells p PAGE_SIZE offsets, pb_right_child = rc, pb_header_offset = h\<rparr>)
      = bind_res (read_ptrs q (h + k) (h + k + j) n)
        (\<lambda>offsets. Inr \<lparr>pb_type = t, pb_cells = cut_cells q PAGE_SIZE offsets, pb_right_child = rc, pb_header_offset = h\<rparr>)"
    for k j n t rc
    unfolding r by (rule bind_res_cong [OF refl]) (simp add: c)
  have sl: "py_slice (h + k) d p = py_slice (h + k) d q" for k d
    by (rule py_slice_drop [OF _ assms(1)]) simp
  show ?thesis
    unfolding parse_page_def g Let_def sl body ..
qed

lemma parse_overlap:
  assumes "length mid = 4082"
  defines "p \<equiv> [13, 0, 0, 0, 2, 0, 0, 0, 0x0F, 0xFE, 0x0F, 0xFE] @ mid @ [5, 6]"
  shows "parse_page p 0 = Inr (mk_page LEAF_TABLE [[5, 6], []] 0)"
proof -
  have ptr: "py_slice 3 5 p = [0, 2]" "py_slice 8 10 p = [0x0F, 0xFE]" "py_slice 10 12 p = [0x0F, 0xFE]"
    by (simp_all add: p_def py_slice_def)
  have cells: "py_slice 4094 4096 p = [5, 6]" "py_slice 4094 4094 p = []"
    using assms(1) by (simp_all add: p_def py_slice_def)
  have hd: "py_get p 0 = Inr 13" by (simp add: p_def py_get_def)
  have "be_decode [0x0F, 0xFE] = 4094" by (simp add: be_decode_def)
  then have "read_ptrs p 8 12 (Suc (Suc 0)) = Inr [4094, 4094]"
    using ptr by (simp add: PAGE_SIZE_def)
  then have "read_ptrs p 8 12 2 = Inr [4094, 4094]" by (simp add: numeral_2_eq_2)
  with ptr cells hd show ?thesis
    by (simp add: parse_page_def page_type_of_def PAGE_SIZE_def header_size_eq is_leaf_def mk_page_def be_decode_def)
qed

section \<open>Properties\<close>

text \<open>
  C39. Parsing inverts serializing: a body the format can represent serializes to exactly one page
  of bytes, and parsing that page at the body's header offset gives the body back, cells in order,
  right child included.
\<close>

theorem page_roundtrip:
  assumes "page_ok body"
  shows "\<exists>p. serialize_page body = Inr p \<and> length p = PAGE_SIZE
            \<and> parse_page p (pb_header_offset body) = Inr body"
  using serialize_page_defined [OF assms] serialize_page_length parse_serialize_page assms
  by (auto simp: page_ok_def)

theorem page_roundtrip_witness:
  "\<exists>p. serialize_page (mk_page INTERIOR_TABLE [[1, 2, 3], [], [4]] 7) = Inr p \<and> length p = PAGE_SIZE
      \<and> parse_page p 0 = Inr (mk_page INTERIOR_TABLE [[1, 2, 3], [], [4]] 7)"
  using page_roundtrip [of "mk_page INTERIOR_TABLE [[1, 2, 3], [], [4]] 7"]
  by (simp add: page_ok_def mk_page_def used_bytes_def cell_count_def PAGE_SIZE_def header_size_eq is_leaf_def)

text \<open>
  Serializing refuses a body as too large exactly when its header offset, header, pointer array
  and cells together pass the page size; an insertion that \<^verbatim>\<open>insert_cell\<close> accepts keeps the page
  within that limit, whatever the index, and one it refuses would have passed it.
\<close>

theorem page_full_iff:
  "(serialize_page body = Inl PageFullError \<longleftrightarrow> PAGE_SIZE < used_bytes body)
   \<and> (used_bytes body \<le> PAGE_SIZE \<longrightarrow>
        (case insert_cell i payload body of
           Inr body' \<Rightarrow> used_bytes body' = used_bytes body + length payload + 2 \<and> used_bytes body' \<le> PAGE_SIZE
         | Inl e \<Rightarrow> e = PageFullError \<and> PAGE_SIZE < used_bytes body + length payload + 2))"
proof -
  have "write_ptrs p s ptrs \<noteq> Inl PageFullError" for p s ptrs
    by (induction p s ptrs rule: write_ptrs.induct) (auto simp: bind_res_eq_Inl to_bytes_def)
  then have "serialize_page body = Inl PageFullError \<Longrightarrow> PAGE_SIZE < used_bytes body"
    by (auto simp: serialize_page_def serialize_head_def serialize_cells_def Let_def bind_res_eq_Inl
        to_bytes_def split: if_splits prod.splits)
  moreover have "sum_list (map length (take i xs)) + sum_list (map length (drop i xs)) = sum_list (map length xs)"
    for xs :: "bytes list"
    by (metis append_take_drop_id map_append sum_list_append)
  ultimately show ?thesis
    by (auto simp: serialize_page_def insert_cell_def fits_def free_bytes_def used_bytes_def cell_count_def
        algebra_simps min_def)
qed

theorem page_full_iff_witness:
  "case insert_cell 5 (replicate 4000 0) (mk_page LEAF_TABLE [[1, 2, 3]] 0) of
     Inr body' \<Rightarrow> used_bytes body' = used_bytes (mk_page LEAF_TABLE [[1, 2, 3]] 0) + 4000 + 2 \<and> used_bytes body' \<le> PAGE_SIZE
   | Inl e \<Rightarrow> False"
  using page_full_iff [where body = "mk_page LEAF_TABLE [[1, 2, 3]] 0" and i = 5 and payload = "replicate 4000 0"]
  by (simp add: mk_page_def used_bytes_def cell_count_def PAGE_SIZE_def header_size_eq is_leaf_def insert_cell_def
      fits_def free_bytes_def)

text \<open>
  \<^verbatim>\<open>write_page_body\<close> into a live page keeps every byte before the body's header offset (page
  1's file header), leaves a whole page, and what it wrote parses back to the body; a buffer of any
  other length is refused.
\<close>

theorem write_page_body_preserves:
  assumes "page_ok body"
  shows "case write_page_body raw body of
           Inr raw' \<Rightarrow> length raw = PAGE_SIZE \<and> length raw' = PAGE_SIZE
             \<and> take (pb_header_offset body) raw' = take (pb_header_offset body) raw
             \<and> parse_page raw' (pb_header_offset body) = Inr body
         | Inl e \<Rightarrow> e = ValueError \<and> length raw \<noteq> PAGE_SIZE"
proof (cases "length raw = PAGE_SIZE")
  case True
  let ?h = "pb_header_offset body"
  obtain s where s: "serialize_page body = Inr s" "length s = PAGE_SIZE"
    and w: "write_page_body raw body = Inr (take ?h raw @ drop ?h s)"
    using write_page_body_defined [OF assms True] by metis
  have h: "?h \<le> PAGE_SIZE" using assms by (simp add: page_ok_def used_bytes_def)
  have "parse_page (take ?h raw @ drop ?h s) ?h = parse_page s ?h"
    using h s(2) True by (intro parse_page_drop) simp_all
  with w s h True assms show ?thesis by (simp add: parse_serialize_page page_ok_def)
qed (simp add: write_page_body_def)

theorem write_page_body_preserves_witness:
  "case write_page_body (replicate 4096 9) (mk_page LEAF_TABLE [[1, 2]] 0 \<lparr>pb_header_offset := 100\<rparr>) of
     Inr raw' \<Rightarrow> take 100 raw' = replicate 100 9
       \<and> parse_page raw' 100 = Inr (mk_page LEAF_TABLE [[1, 2]] 0 \<lparr>pb_header_offset := 100\<rparr>)
   | Inl e \<Rightarrow> False"
  using write_page_body_preserves [of "mk_page LEAF_TABLE [[1, 2]] 0 \<lparr>pb_header_offset := 100\<rparr>" "replicate 4096 9"]
  by (simp add: page_ok_def mk_page_def used_bytes_def cell_count_def PAGE_SIZE_def header_size_eq is_leaf_def
      split: sum.splits)

text \<open>
  \<^verbatim>\<open>parse_page\<close> does not reject overlapping or unordered cell pointers: a page whose second
  pointer is not below its first parses without an error, the second cell coming out empty.
\<close>

theorem parse_page_accepts_overlap:
  "parse_page ([13, 0, 0, 0, 2, 0, 0, 0, 0x0F, 0xFE, 0x0F, 0xFE] @ replicate 4082 0 @ [5, 6]) 0
   = Inr (mk_page LEAF_TABLE [[5, 6], []] 0)"
  by (rule parse_overlap) simp

end
