(* ===== verification/Header.thy ===== *)
theory Header
  imports Constants
begin

text \<open>
  The 100-byte file header at the start of page 1, \<^verbatim>\<open>src/src/quilldb/storage/header.py\<close>: the
  \<^verbatim>\<open>FileHeader\<close> dataclass, its serializer, its parser and the support check. The lemmas show
  that parsing inverts serializing, that a header which parses loses nothing but the reserved bytes,
  and that parsing fails only with \<^verbatim>\<open>InvalidHeaderError\<close>.
\<close>

section \<open>Definitions\<close>

record file_header =
  page_size :: nat
  write_version :: nat
  read_version :: nat
  reserved_space :: nat
  change_counter :: nat
  page_count :: nat
  freelist_trunk :: nat
  freelist_count :: nat
  schema_cookie :: nat
  schema_format :: nat
  default_cache_size :: nat
  largest_root_page :: nat
  text_encoding :: nat
  user_version :: nat
  incremental_vacuum :: nat
  application_id :: nat
  version_valid_for :: nat
  sqlite_version :: nat

definition default_header :: file_header where
  "default_header = \<lparr>page_size = PAGE_SIZE, write_version = 1, read_version = 1, reserved_space = 0,
     change_counter = 0, page_count = 1, freelist_trunk = 0, freelist_count = 0, schema_cookie = 0,
     schema_format = 4, default_cache_size = 0, largest_root_page = 0, text_encoding = 1,
     user_version = 0, incremental_vacuum = 0, application_id = 0, version_valid_for = 0,
     sqlite_version = 3045000\<rparr>"

definition usable_size :: "file_header \<Rightarrow> int" where
  "usable_size h = int (page_size h) - int (reserved_space h)"

text \<open>\<^verbatim>\<open>data[i] = v\<close> on a bytearray: a value past 255 raises \<^verbatim>\<open>ValueError\<close>.\<close>

definition put_byte :: "nat \<Rightarrow> nat \<Rightarrow> bytes \<Rightarrow> bytes res" where
  "put_byte i v data =
     (if length data \<le> i then Inl IndexError
      else if 256 \<le> v then Inl ValueError
      else Inr (data[i := word_of_nat v]))"

fun put_bytes :: "(nat \<times> nat) list \<Rightarrow> bytes \<Rightarrow> bytes res" where
  "put_bytes [] data = Inr data"
| "put_bytes ((i, v) # fs) data = bind_res (put_byte i v data) (put_bytes fs)"

fun put_u32s :: "(nat \<times> nat) list \<Rightarrow> bytes \<Rightarrow> bytes res" where
  "put_u32s [] data = Inr data"
| "put_u32s ((offset, v) # fs) data =
     bind_res (to_bytes 4 v) (\<lambda>b. put_u32s fs (py_put offset (offset + 4) b data))"

definition byte_fields :: "file_header \<Rightarrow> (nat \<times> nat) list" where
  "byte_fields h = [(18, write_version h), (19, read_version h), (20, reserved_space h),
     (21, 64), (22, 32), (23, 32)]"

definition u32_fields :: "file_header \<Rightarrow> (nat \<times> nat) list" where
  "u32_fields h = [(24, change_counter h), (28, page_count h), (32, freelist_trunk h),
     (36, freelist_count h), (40, schema_cookie h), (44, schema_format h),
     (48, default_cache_size h), (52, largest_root_page h), (56, text_encoding h),
     (60, user_version h), (64, incremental_vacuum h), (68, application_id h),
     (92, version_valid_for h), (96, sqlite_version h)]"

definition header_to_bytes :: "file_header \<Rightarrow> bytes res" where
  "header_to_bytes h =
     (let data0 = py_put 0 (0 + length MAGIC) MAGIC (replicate FILE_HEADER_SIZE 0);
          encoded_page_size = (if page_size h = 65536 then 1 else page_size h)
      in bind_res (to_bytes 2 encoded_page_size) (\<lambda>ps.
         bind_res (put_bytes (byte_fields h) (py_put 16 (16 + 2) ps data0)) (put_u32s (u32_fields h))))"

definition check_supported :: "file_header \<Rightarrow> unit res" where
  "check_supported h =
     (if page_size h \<noteq> PAGE_SIZE then Inl InvalidHeaderError
      else if text_encoding h \<noteq> 1 then Inl InvalidHeaderError
      else if read_version h = 2 \<or> write_version h = 2 then Inl InvalidHeaderError
      else if reserved_space h \<noteq> 0 then Inl InvalidHeaderError
      else if largest_root_page h \<noteq> 0 \<or> incremental_vacuum h \<noteq> 0 then Inl InvalidHeaderError
      else if schema_format h \<noteq> 4 then Inl InvalidHeaderError
      else Inr ())"

definition u32 :: "bytes \<Rightarrow> nat \<Rightarrow> nat" where
  "u32 data offset = be_decode (py_slice offset (offset + 4) data)"

text \<open>The fields read out once every guard has passed; \<open>psize\<close> is the decoded page size.\<close>

definition read_header :: "bytes \<Rightarrow> nat \<Rightarrow> file_header" where
  "read_header data psize = \<lparr>page_size = psize, write_version = unat (data ! 18),
     read_version = unat (data ! 19), reserved_space = unat (data ! 20),
     change_counter = u32 data 24, page_count = u32 data 28, freelist_trunk = u32 data 32,
     freelist_count = u32 data 36, schema_cookie = u32 data 40, schema_format = u32 data 44,
     default_cache_size = u32 data 48, largest_root_page = u32 data 52, text_encoding = u32 data 56,
     user_version = u32 data 60, incremental_vacuum = u32 data 64, application_id = u32 data 68,
     version_valid_for = u32 data 92, sqlite_version = u32 data 96\<rparr>"

definition header_from_bytes :: "bytes \<Rightarrow> file_header res" where
  "header_from_bytes data =
     (if length data < FILE_HEADER_SIZE then Inl InvalidHeaderError
      else if py_slice 0 (0 + length MAGIC) data \<noteq> MAGIC then Inl InvalidHeaderError
      else let raw_page_size = be_decode (py_slice 16 (16 + 2) data);
               psize = (if raw_page_size = 1 then 65536 else raw_page_size)
           in if psize < 512 \<or> psize AND (psize - 1) \<noteq> 0 then Inl InvalidHeaderError
              else if u32 data 28 = 0 then Inl InvalidHeaderError
              else if data ! 21 \<noteq> 64 \<or> data ! 22 \<noteq> 32 \<or> data ! 23 \<noteq> 32 then Inl InvalidHeaderError
              else let header = read_header data psize
                   in if usable_size header < 480 then Inl InvalidHeaderError
                      else bind_res (check_supported header) (\<lambda>_. Inr header))"

text \<open>The headers quilldb writes: every field fits its slot and the support check passes.\<close>

definition header_ok :: "file_header \<Rightarrow> bool" where
  "header_ok h \<longleftrightarrow> check_supported h = Inr () \<and> page_count h \<noteq> 0
     \<and> (\<forall>(i, v) \<in> set (byte_fields h). v < 256) \<and> (\<forall>(i, v) \<in> set (u32_fields h). v < 2 ^ 32)"

section \<open>Writing the fields\<close>

lemma put_bytes_spec:
  assumes "\<forall>(i, v) \<in> set fs. v < 256 \<and> i < length data" and "distinct (map fst fs)"
  shows "\<exists>d. put_bytes fs data = Inr d \<and> length d = length data
    \<and> (\<forall>(i, v) \<in> set fs. d ! i = word_of_nat v) \<and> (\<forall>i. i \<notin> fst ` set fs \<longrightarrow> d ! i = data ! i)"
  using assms
proof (induction fs data rule: put_bytes.induct)
  case (2 i v fs data)
  let ?d = "data[i := word_of_nat v]"
  have pb: "put_byte i v data = Inr ?d" using "2.prems"(1) by (auto simp: put_byte_def)
  obtain d where d: "put_bytes fs ?d = Inr d" "length d = length data"
    "\<forall>(j, w) \<in> set fs. d ! j = word_of_nat w" "\<forall>j. j \<notin> fst ` set fs \<longrightarrow> d ! j = ?d ! j"
    using "2.IH" [OF pb] "2.prems" by fastforce
  moreover have "i \<notin> fst ` set fs" using "2.prems"(2) by force
  ultimately show ?case using pb "2.prems"(1) by (intro exI [of _ d]) (auto simp: nth_list_update)
qed simp

text \<open>Four-byte slots at distinct multiples of four do not meet.\<close>

lemma put_u32s_spec:
  assumes "\<forall>(offset, v) \<in> set fs. v < 2 ^ 32 \<and> offset + 4 \<le> length data \<and> 4 dvd offset"
    and "distinct (map fst fs)"
  shows "\<exists>d. put_u32s fs data = Inr d \<and> length d = length data
    \<and> (\<forall>(offset, v) \<in> set fs. py_slice offset (offset + 4) d = be_encode 4 v)
    \<and> (\<forall>a b. (\<forall>offset \<in> fst ` set fs. b \<le> offset \<or> offset + 4 \<le> a) \<longrightarrow> py_slice a b d = py_slice a b data)"
  using assms
proof (induction fs data rule: put_u32s.induct)
  case (2 offset v fs data)
  let ?d = "py_put offset (offset + 4) (be_encode 4 v) data"
  have tb: "to_bytes 4 v = Inr (be_encode 4 v)" using "2.prems"(1) by (simp add: to_bytes_def)
  have len: "length ?d = length data" using "2.prems"(1) by (simp add: length_py_put)
  have out: "same_outside offset (offset + 4) data ?d"
    using "2.prems"(1) by (intro same_outside_put) auto
  obtain d where d: "put_u32s fs ?d = Inr d" "length d = length data"
    "\<forall>(j, w) \<in> set fs. py_slice j (j + 4) d = be_encode 4 w"
    "\<forall>a b. (\<forall>j \<in> fst ` set fs. b \<le> j \<or> j + 4 \<le> a) \<longrightarrow> py_slice a b d = py_slice a b ?d"
    using "2.IH" [OF tb] "2.prems" len by auto
  have "\<forall>j \<in> fst ` set fs. offset + 4 \<le> j \<or> j + 4 \<le> offset"
  proof
    fix j assume "j \<in> fst ` set fs"
    with "2.prems" have "4 dvd j" "4 dvd offset" "j \<noteq> offset" by auto
    then show "offset + 4 \<le> j \<or> j + 4 \<le> offset" by presburger
  qed
  with d(4) have "py_slice offset (offset + 4) d = py_slice offset (offset + 4) ?d" by blast
  also have "\<dots> = be_encode 4 v" using "2.prems"(1) by (intro py_slice_put_same) auto
  finally have "py_slice offset (offset + 4) d = be_encode 4 v" .
  with d tb same_outside_slice [OF out] show ?case by (intro exI [of _ d]) auto
qed simp

lemma slice_one: "i < length d \<Longrightarrow> py_slice i (i + 1) d = [d ! i]"
  by (simp add: py_slice_def take_Suc_conv_app_nth hd_drop_conv_nth take_Suc)

lemma slice_nth_eq:
  assumes "py_slice a b d = py_slice a b e" and "a \<le> i" and "i < b" and "i < length d" and "i < length e"
  shows "d ! i = e ! i"
proof -
  have "py_slice a b d ! (i - a) = d ! i" "py_slice a b e ! (i - a) = e ! i"
    using assms(2-5) by (simp_all add: py_slice_def)
  with assms(1) show ?thesis by simp
qed

lemma length_MAGIC [simp]: "length MAGIC = 16"
  by (simp add: MAGIC_def)

lemma byte_fields_index: "fst ` set (byte_fields h) = {18, 19, 20, 21, 22, 23}"
  by (simp add: byte_fields_def)

lemma u32_fields_offset: "fst ` set (u32_fields h) = {24, 28, 32, 36, 40, 44, 48, 52, 56, 60, 64, 68, 92, 96}"
  by (simp add: u32_fields_def insert_commute)

lemma u32_fields_slots: "fst ` set (u32_fields h) = (*) 4 ` set ([6..<18] @ [23, 24])"
  by (simp add: u32_fields_def)

lemma u32_slot_of:
  assumes "24 \<le> i \<and> i < 72 \<or> 92 \<le> i \<and> i < 100"
  shows "4 * (i div 4) \<in> fst ` set (u32_fields h)"
proof -
  have "6 \<le> i div 4 \<and> i div 4 < 18 \<or> i div 4 = 23 \<or> i div 4 = 24" using assms by linarith
  then have "i div 4 \<in> set ([6..<18] @ [23, 24])" unfolding set_append set_upt by auto
  then show ?thesis unfolding u32_fields_slots by (rule imageI)
qed

lemma header_to_bytes_spec:
  assumes "\<forall>(i, v) \<in> set (byte_fields h). v < 256" and "\<forall>(i, v) \<in> set (u32_fields h). v < 2 ^ 32"
    and "page_size h = PAGE_SIZE"
  obtains d where "header_to_bytes h = Inr d" and "length d = 100" and "py_slice 0 16 d = MAGIC"
    and "py_slice 16 18 d = be_encode 2 PAGE_SIZE"
    and "\<forall>(i, v) \<in> set (byte_fields h). d ! i = word_of_nat v"
    and "\<forall>(offset, v) \<in> set (u32_fields h). py_slice offset (offset + 4) d = be_encode 4 v"
proof -
  define d0 :: bytes where "d0 = py_put 0 16 MAGIC (replicate 100 0)"
  define d1 where "d1 = py_put 16 18 (be_encode 2 PAGE_SIZE) d0"
  have l0: "length d0 = 100" by (simp add: d0_def py_put_def)
  have l1: "length d1 = 100" using l0 by (simp add: d1_def length_py_put)
  have s1: "py_slice 0 16 d1 = MAGIC" "py_slice 16 18 d1 = be_encode 2 PAGE_SIZE"
    using l0 by (simp_all add: d1_def py_slice_put_same py_slice_put_before) (simp add: d0_def py_slice_def py_put_def)
  obtain d2 where d2: "put_bytes (byte_fields h) d1 = Inr d2" "length d2 = 100"
    "\<forall>(i, v) \<in> set (byte_fields h). d2 ! i = word_of_nat v" "\<forall>i. i \<notin> fst ` set (byte_fields h) \<longrightarrow> d2 ! i = d1 ! i"
    using put_bytes_spec [of "byte_fields h" d1] assms(1) l1 by (force simp: byte_fields_def)
  have "\<forall>(offset, v) \<in> set (u32_fields h). v < 2 ^ 32 \<and> offset + 4 \<le> length d2 \<and> 4 dvd offset"
    using assms(2) d2(2) by (simp add: u32_fields_def)
  from put_u32s_spec [OF this] obtain d where d: "put_u32s (u32_fields h) d2 = Inr d" "length d = 100"
    "\<forall>(offset, v) \<in> set (u32_fields h). py_slice offset (offset + 4) d = be_encode 4 v"
    "\<And>a b. (\<forall>offset \<in> fst ` set (u32_fields h). b \<le> offset \<or> offset + 4 \<le> a) \<Longrightarrow> py_slice a b d = py_slice a b d2"
    using d2(2) by (auto simp: u32_fields_def)
  have low: "py_slice a b d = py_slice a b d2" if "b \<le> 24" for a b
    using that by (intro d(4)) (simp add: u32_fields_offset)
  have nth: "d ! i = d2 ! i" if "i < 24" for i
    using that by (intro slice_nth_eq [OF low [of 24 0]]) (simp_all add: d2(2) d(2))
  have keep: "d2 ! i = d1 ! i" if "i < 18" for i
    using d2(4) that by (simp add: byte_fields_index)
  have "py_slice a b d2 = py_slice a b d1" if "b \<le> 18" for a b
    using that d2(2) l1 keep by (intro nth_equalityI) (simp_all add: py_slice_def)
  with s1 low have "py_slice 0 16 d = MAGIC" "py_slice 16 18 d = be_encode 2 PAGE_SIZE" by simp_all
  moreover have "\<forall>(i, v) \<in> set (byte_fields h). d ! i = word_of_nat v"
    using d2(3) nth by (simp add: byte_fields_def)
  moreover have "header_to_bytes h = Inr d"
    using d2(1) d(1) assms(3)
    by (simp add: header_to_bytes_def FILE_HEADER_SIZE_def Let_def d0_def d1_def to_bytes_def PAGE_SIZE_def)
  ultimately show ?thesis using that d(2,3) by blast
qed

section \<open>Reading the fields\<close>

lemma check_supported_Inl: "check_supported h = Inl e \<Longrightarrow> e = InvalidHeaderError"
  by (auto simp: check_supported_def split: if_splits)

lemma check_supported_iff:
  "check_supported h = Inr u \<longleftrightarrow> page_size h = PAGE_SIZE \<and> text_encoding h = 1 \<and> read_version h \<noteq> 2
     \<and> write_version h \<noteq> 2 \<and> reserved_space h = 0 \<and> largest_root_page h = 0
     \<and> incremental_vacuum h = 0 \<and> schema_format h = 4"
  by (auto simp: check_supported_def)

lemma header_from_bytes_iff:
  "header_from_bytes data = Inr h \<longleftrightarrow>
     100 \<le> length data \<and> py_slice 0 16 data = MAGIC \<and> be_decode (py_slice 16 18 data) = PAGE_SIZE
     \<and> u32 data 28 \<noteq> 0 \<and> data ! 21 = 64 \<and> data ! 22 = 32 \<and> data ! 23 = 32
     \<and> h = read_header data PAGE_SIZE \<and> check_supported h = Inr ()"
  by (auto simp: header_from_bytes_def Let_def FILE_HEADER_SIZE_def usable_size_def bind_res_eq_Inr
      check_supported_iff read_header_def PAGE_SIZE_def unsigned_eq_0_iff)

lemma be_decode_slice_less: "be_decode (py_slice a (a + w) d) < 256 ^ w"
proof -
  have "be_decode (py_slice a (a + w) d) < 256 ^ length (py_slice a (a + w) d)" by (rule be_decode_less)
  also have "\<dots> \<le> 256 ^ w" by (intro power_increasing) simp_all
  finally show ?thesis .
qed

lemma read_header_ok:
  assumes "header_from_bytes data = Inr h"
  shows "header_ok h"
proof -
  have u: "u32 data offset < 2 ^ 32" for offset
    using be_decode_slice_less [of offset 4 data] by (simp add: u32_def)
  from assms have h: "h = read_header data PAGE_SIZE" "check_supported h = Inr ()" "page_count h \<noteq> 0"
    by (auto simp: header_from_bytes_iff read_header_def)
  then show ?thesis
    using u unat_byte_less by (simp add: header_ok_def byte_fields_def u32_fields_def read_header_def)
qed

lemma header_parts:
  assumes "header_ok h"
  obtains d where "header_to_bytes h = Inr d" and "length d = 100" and "py_slice 0 16 d = MAGIC"
    and "py_slice 16 18 d = be_encode 2 PAGE_SIZE"
    and "\<forall>(i, v) \<in> set (byte_fields h). d ! i = word_of_nat v"
    and "\<forall>(offset, v) \<in> set (u32_fields h). py_slice offset (offset + 4) d = be_encode 4 v"
  using assms header_to_bytes_spec [of h thesis] by (simp add: header_ok_def check_supported_iff)

lemma header_reread:
  assumes ok: "header_ok h" and d: "header_to_bytes h = Inr d"
  shows "length d = 100" and "header_from_bytes (d @ rest) = Inr h"
proof -
  obtain e where e: "header_to_bytes h = Inr e" "length e = 100" "py_slice 0 16 e = MAGIC"
    "py_slice 16 18 e = be_encode 2 PAGE_SIZE" "\<forall>(i, v) \<in> set (byte_fields h). e ! i = word_of_nat v"
    "\<forall>(offset, v) \<in> set (u32_fields h). py_slice offset (offset + 4) e = be_encode 4 v"
    using ok by (rule header_parts)
  with d show len: "length d = 100" by simp
  have slice: "py_slice a b (d @ rest) = py_slice a b d" if "b \<le> 100" for a b
    using that len by (simp add: py_slice_append_left)
  have u: "u32 (d @ rest) offset = v" if "(offset, v) \<in> set (u32_fields h)" for offset v
  proof -
    from that have "offset + 4 \<le> 100" by (auto simp: u32_fields_def)
    moreover have "py_slice offset (offset + 4) d = be_encode 4 v" using e(1,6) d that by auto
    moreover have "v < 256 ^ 4" using ok that by (auto simp: header_ok_def)
    ultimately show ?thesis by (simp add: u32_def slice)
  qed
  have b: "(d @ rest) ! i = word_of_nat v" if "(i, v) \<in> set (byte_fields h)" for i v
    using e(1,5) d that len by (auto simp: nth_append byte_fields_def)
  note bs = b [unfolded byte_fields_def]
  have ubs: "write_version h < 256" "read_version h < 256" "reserved_space h < 256"
    using ok by (simp_all add: header_ok_def byte_fields_def)
  have sup: "page_size h = PAGE_SIZE" using ok by (simp add: header_ok_def check_supported_iff)
  have "read_header (d @ rest) PAGE_SIZE = h"
    using sup by (intro file_header.equality)
      (simp_all add: read_header_def bs ubs unat_of_nat u [unfolded u32_fields_def])
  moreover have "be_decode (be_encode 2 PAGE_SIZE) = PAGE_SIZE" by (simp add: PAGE_SIZE_def)
  ultimately show "header_from_bytes (d @ rest) = Inr h"
    using e(1-4) d ok bs u [of 28 "page_count h"] slice [of 16 0] slice [of 18 16] len
    by (simp add: header_from_bytes_iff header_ok_def u32_fields_def)
qed

lemma header_bytes_kept:
  assumes h: "header_from_bytes data = Inr h" and d: "header_to_bytes h = Inr d"
    and i: "i < 72 \<or> 92 \<le> i \<and> i < 100"
  shows "d ! i = data ! i"
proof -
  obtain e where "header_to_bytes h = Inr e" and e: "length e = 100" "py_slice 0 16 e = MAGIC"
    "py_slice 16 18 e = be_encode 2 PAGE_SIZE" "\<forall>(i, v) \<in> set (byte_fields h). e ! i = word_of_nat v"
    "\<forall>(offset, v) \<in> set (u32_fields h). py_slice offset (offset + 4) e = be_encode 4 v"
    using read_header_ok [OF h] by (rule header_parts)
  with d have [simp]: "e = d" by simp
  from h have data: "100 \<le> length data" "py_slice 0 16 data = MAGIC" "be_decode (py_slice 16 18 data) = PAGE_SIZE"
    "data ! 21 = 64" "data ! 22 = 32" "data ! 23 = 32" and hd: "h = read_header data PAGE_SIZE"
    by (simp_all add: header_from_bytes_iff)
  have "py_slice 16 18 data = be_encode 2 PAGE_SIZE"
    using be_encode_decode [of "py_slice 16 18 data"] data(1,3) by simp
  then have low: "d ! i = data ! i" if "i < 18"
    using that e data by (cases "i < 16") (auto intro: slice_nth_eq [of 0 16] slice_nth_eq [of 16 18])
  have mid: "d ! i = data ! i" if "i \<in> {18, 19, 20, 21, 22, 23}"
    using that e(4) data(4-6) by (auto simp: byte_fields_def hd read_header_def)
  have "py_slice offset (offset + 4) d = py_slice offset (offset + 4) data" if "offset \<in> fst ` set (u32_fields h)" for offset
  proof -
    have "(offset, u32 data offset) \<in> set (u32_fields h)"
      using that by (auto simp: u32_fields_def hd read_header_def)
    moreover have "offset + 4 \<le> length data" using that data(1) by (auto simp: u32_fields_offset)
    then have "be_encode 4 (u32 data offset) = py_slice offset (offset + 4) data"
      using be_encode_decode [of "py_slice offset (offset + 4) data"] by (simp add: u32_def)
    ultimately show ?thesis using e(5) by auto
  qed
  then have high: "d ! i = data ! i" if "4 * (i div 4) \<in> fst ` set (u32_fields h)"
    using that e(1) data(1) i by (intro slice_nth_eq [of "4 * (i div 4)" "4 * (i div 4) + 4"]) auto
  have "i < 18 \<or> i \<in> {18, 19, 20, 21, 22, 23} \<or> 24 \<le> i" by auto
  then show ?thesis using low mid high [OF u32_slot_of] i by blast
qed

lemmas header_eval = header_ok_def check_supported_def byte_fields_def u32_fields_def default_header_def PAGE_SIZE_def

section \<open>Properties\<close>

text \<open>
  Every header quilldb may write serializes to exactly 100 bytes, and parsing those bytes,
  whatever follows them on page 1, gives back the same header.
\<close>

theorem header_roundtrip:
  assumes "header_ok h"
  shows "\<exists>d. header_to_bytes h = Inr d \<and> length d = FILE_HEADER_SIZE \<and> header_from_bytes (d @ rest) = Inr h"
  using header_parts [OF assms] header_reread [OF assms] by (metis FILE_HEADER_SIZE_def)

theorem header_roundtrip_witness:
  "\<exists>d. header_to_bytes (default_header\<lparr>page_count := 7, freelist_trunk := 3\<rparr>) = Inr d
     \<and> length d = FILE_HEADER_SIZE
     \<and> header_from_bytes (d @ [1, 2]) = Inr (default_header\<lparr>page_count := 7, freelist_trunk := 3\<rparr>)"
  by (rule header_roundtrip) (simp add: header_eval)

text \<open>
  A header that parses is one quilldb supports, and writing it back reproduces every byte it was
  read from except the twenty reserved ones, which come back as they were only if they were zero.
  Input that does not parse is always reported as \<^verbatim>\<open>InvalidHeaderError\<close>.
\<close>

theorem header_parse_faithful:
  "case header_from_bytes data of
     Inr h \<Rightarrow> header_ok h \<and> (\<exists>d. header_to_bytes h = Inr d
        \<and> (\<forall>i. i < 72 \<or> 92 \<le> i \<and> i < 100 \<longrightarrow> d ! i = data ! i))
   | Inl e \<Rightarrow> e = InvalidHeaderError"
proof (cases "header_from_bytes data")
  case (Inl e)
  then show ?thesis
    by (auto simp: header_from_bytes_def Let_def bind_res_eq_Inl split: if_splits dest: check_supported_Inl)
next
  case (Inr h)
  note ok = read_header_ok [OF Inr]
  obtain d where "header_to_bytes h = Inr d" using header_parts [OF ok] by metis
  with ok header_bytes_kept [OF Inr] show ?thesis by (simp add: Inr)
qed

theorem header_parse_faithful_witness:
  "\<exists>d. header_to_bytes default_header = Inr d \<and> header_from_bytes (d @ [7]) = Inr default_header
     \<and> header_ok default_header \<and> (\<exists>e. header_to_bytes default_header = Inr e \<and> e ! 16 = (d @ [7]) ! 16)"
proof -
  have ok: "header_ok default_header" by (simp add: header_eval)
  obtain d where d: "header_to_bytes default_header = Inr d" using header_parts [OF ok] by metis
  note re = header_reread(2) [OF ok d, of "[7]"]
  from header_parse_faithful [of "d @ [7]"] re d show ?thesis by auto
qed

end
