(* ===== verification/Cells.thy ===== *)
theory Cells
  imports Varint Page
begin

text \<open>
  The four b-tree cell formats and the overflow threshold,
  \<^verbatim>\<open>src/src/quilldb/btree/cells.py\<close>. The lemmas bound the local share of a payload, show that
  each decoder inverts its encoder and that the encoders refuse a split the threshold does not give.
\<close>

section \<open>Definitions\<close>

definition MIN_LOCAL_PAYLOAD :: nat where
  "MIN_LOCAL_PAYLOAD = ((USABLE_SIZE - 12) * 32 div 255) - 23"

definition max_local_payload :: "page_type \<Rightarrow> nat res" where
  "max_local_payload t =
     (if t = INTERIOR_TABLE then Inl ValueError
      else if t = LEAF_TABLE then Inr (USABLE_SIZE - 35)
      else Inr (((USABLE_SIZE - 12) * 64 div 255) - 23))"

text \<open>
  Past the threshold the payload is longer than \<^const>\<open>MIN_LOCAL_PAYLOAD\<close>, so the subtraction below
  does not truncate.
\<close>

definition local_payload_size :: "page_type \<Rightarrow> nat \<Rightarrow> nat res" where
  "local_payload_size t total_payload_len =
     bind_res (max_local_payload t) (\<lambda>x.
       if total_payload_len \<le> x then Inr total_payload_len
       else let k = MIN_LOCAL_PAYLOAD + ((total_payload_len - MIN_LOCAL_PAYLOAD) mod (USABLE_SIZE - 4))
            in Inr (if k \<le> x then k else MIN_LOCAL_PAYLOAD))"

definition require_valid_split :: "page_type \<Rightarrow> nat \<Rightarrow> bytes \<Rightarrow> nat \<Rightarrow> unit res" where
  "require_valid_split t total_payload_len local_payload overflow_page =
     bind_res (local_payload_size t total_payload_len) (\<lambda>expected.
       if length local_payload \<noteq> expected then Inl ValueError
       else let has_overflow = (overflow_page \<noteq> 0);
                payload_spilled = (length local_payload < total_payload_len)
            in if has_overflow \<noteq> payload_spilled then Inl ValueError else Inr ())"

text \<open>The trailing overflow page number: four bytes, or nothing for page 0.\<close>

definition overflow_field :: "nat \<Rightarrow> bytes res" where
  "overflow_field overflow_page = (if overflow_page \<noteq> 0 then to_bytes 4 overflow_page else Inr [])"

definition encode_leaf_table_cell :: "int \<Rightarrow> nat \<Rightarrow> bytes \<Rightarrow> nat \<Rightarrow> bytes res" where
  "encode_leaf_table_cell rowid total_payload_len local_payload overflow_page =
     bind_res (require_valid_split LEAF_TABLE total_payload_len local_payload overflow_page) (\<lambda>_.
     bind_res (encode_uvarint (int total_payload_len)) (\<lambda>len_bytes.
     bind_res (encode_uvarint (to_twos_complement rowid)) (\<lambda>rowid_bytes.
     bind_res (overflow_field overflow_page) (\<lambda>ov.
       Inr (len_bytes @ rowid_bytes @ local_payload @ ov)))))"

text \<open>The tail every payload-carrying decoder shares: local payload, then the overflow page.\<close>

definition decode_payload :: "page_type \<Rightarrow> nat \<Rightarrow> bytes \<Rightarrow> nat \<Rightarrow> (bytes \<times> nat) res" where
  "decode_payload t total_payload_len cell header_len =
     bind_res (local_payload_size t total_payload_len) (\<lambda>local_len.
       let local_payload = py_slice header_len (header_len + local_len) cell
       in if length local_payload < local_len then Inl MalformedCellError
          else if local_len < total_payload_len
          then let overflow_bytes = py_slice (header_len + local_len) (header_len + local_len + 4) cell
               in if length overflow_bytes < 4 then Inl MalformedCellError
                  else Inr (local_payload, be_decode overflow_bytes)
          else Inr (local_payload, 0))"

definition decode_leaf_table_cell :: "bytes \<Rightarrow> (int \<times> nat \<times> bytes \<times> nat) res" where
  "decode_leaf_table_cell cell =
     bind_res (decode_uvarint cell 0) (\<lambda>(total_payload_len, n1).
     bind_res (decode_uvarint cell n1) (\<lambda>(raw_rowid, n2).
     bind_res (decode_payload LEAF_TABLE total_payload_len cell (n1 + n2)) (\<lambda>(local_payload, overflow_page).
       Inr (from_twos_complement (int raw_rowid), total_payload_len, local_payload, overflow_page))))"

definition encode_interior_table_cell :: "nat \<Rightarrow> int \<Rightarrow> bytes res" where
  "encode_interior_table_cell child_page rowid =
     bind_res (to_bytes 4 child_page) (\<lambda>child.
     bind_res (encode_uvarint (to_twos_complement rowid)) (\<lambda>rowid_bytes. Inr (child @ rowid_bytes)))"

definition decode_interior_table_cell :: "bytes \<Rightarrow> (nat \<times> int) res" where
  "decode_interior_table_cell cell =
     (if length cell < 4 then Inl MalformedCellError
      else bind_res (decode_uvarint cell 4) (\<lambda>(raw_rowid, _).
        Inr (be_decode (py_slice 0 4 cell), from_twos_complement (int raw_rowid))))"

definition encode_leaf_index_cell :: "nat \<Rightarrow> bytes \<Rightarrow> nat \<Rightarrow> bytes res" where
  "encode_leaf_index_cell total_payload_len local_payload overflow_page =
     bind_res (require_valid_split LEAF_INDEX total_payload_len local_payload overflow_page) (\<lambda>_.
     bind_res (encode_uvarint (int total_payload_len)) (\<lambda>len_bytes.
     bind_res (overflow_field overflow_page) (\<lambda>ov. Inr (len_bytes @ local_payload @ ov))))"

definition decode_leaf_index_cell :: "bytes \<Rightarrow> (nat \<times> bytes \<times> nat) res" where
  "decode_leaf_index_cell cell =
     bind_res (decode_uvarint cell 0) (\<lambda>(total_payload_len, n1).
     bind_res (decode_payload LEAF_INDEX total_payload_len cell n1) (\<lambda>(local_payload, overflow_page).
       Inr (total_payload_len, local_payload, overflow_page)))"

definition encode_interior_index_cell :: "nat \<Rightarrow> nat \<Rightarrow> bytes \<Rightarrow> nat \<Rightarrow> bytes res" where
  "encode_interior_index_cell child_page total_payload_len local_payload overflow_page =
     bind_res (require_valid_split INTERIOR_INDEX total_payload_len local_payload overflow_page) (\<lambda>_.
     bind_res (to_bytes 4 child_page) (\<lambda>child.
     bind_res (encode_uvarint (int total_payload_len)) (\<lambda>len_bytes.
     bind_res (overflow_field overflow_page) (\<lambda>ov. Inr (child @ len_bytes @ local_payload @ ov)))))"

definition decode_interior_index_cell :: "bytes \<Rightarrow> (nat \<times> nat \<times> bytes \<times> nat) res" where
  "decode_interior_index_cell cell =
     (if length cell < 4 then Inl MalformedCellError
      else bind_res (decode_uvarint cell 4) (\<lambda>(total_payload_len, n1).
           bind_res (decode_payload INTERIOR_INDEX total_payload_len cell (4 + n1)) (\<lambda>(local_payload, overflow_page).
             Inr (be_decode (py_slice 0 4 cell), total_payload_len, local_payload, overflow_page))))"

text \<open>The rowids a cell can hold.\<close>

definition rowid_ok :: "int \<Rightarrow> bool" where
  "rowid_ok r \<longleftrightarrow> - (2 ^ 63) \<le> r \<and> r < 2 ^ 63"

section \<open>The threshold\<close>

lemma MIN_LOCAL_PAYLOAD_eq: "MIN_LOCAL_PAYLOAD = 489"
  by (simp add: MIN_LOCAL_PAYLOAD_def USABLE_SIZE_def PAGE_SIZE_def)

lemma max_local_payload_eq:
  "max_local_payload t = (case t of INTERIOR_TABLE \<Rightarrow> Inl ValueError | LEAF_TABLE \<Rightarrow> Inr 4061 | _ \<Rightarrow> Inr 1002)"
  by (cases t) (simp_all add: max_local_payload_def USABLE_SIZE_def PAGE_SIZE_def)

lemma local_payload_size_cases:
  assumes "max_local_payload t = Inr x"
  obtains l where "local_payload_size t p = Inr l" and "p \<le> x \<Longrightarrow> l = p"
    and "x < p \<Longrightarrow> MIN_LOCAL_PAYLOAD \<le> l" and "x < p \<Longrightarrow> l \<le> x"
    and "x < p \<Longrightarrow> l = MIN_LOCAL_PAYLOAD \<or> (p - l) mod (USABLE_SIZE - 4) = 0"
proof -
  let ?r = "(p - 489) mod 4092"
  have x: "489 < x" using assms by (cases t) (auto simp: max_local_payload_eq)
  have m: "(p - (489 + ?r)) mod 4092 = 0"
    by (metis diff_diff_left minus_mod_eq_mult_div mod_mult_self1_is_0)
  show ?thesis
    by (rule that [of "if p \<le> x then p else if 489 + ?r \<le> x then 489 + ?r else 489"])
      (use x m in \<open>auto simp: local_payload_size_def assms MIN_LOCAL_PAYLOAD_eq USABLE_SIZE_def PAGE_SIZE_def\<close>)
qed

lemma local_payload_size_le:
  assumes "local_payload_size t p = Inr l"
  shows "l \<le> p" and "\<exists>x. max_local_payload t = Inr x \<and> l \<le> x"
proof -
  from assms obtain x where x: "max_local_payload t = Inr x"
    by (auto simp: local_payload_size_def bind_res_eq_Inr)
  from local_payload_size_cases [OF x, of p] assms have l: "p \<le> x \<Longrightarrow> l = p" "x < p \<Longrightarrow> l \<le> x"
    by (metis sum.inject(2))+
  then show "l \<le> p" by (cases "p \<le> x") auto
  show "\<exists>x. max_local_payload t = Inr x \<and> l \<le> x" using x l by (cases "p \<le> x") auto
qed

section \<open>Decoding what was encoded\<close>

lemma decode_payload_append:
  assumes "require_valid_split t p loc ov = Inr u" and "overflow_field ov = Inr field" and "length hdr = n"
  shows "decode_payload t p (hdr @ loc @ field @ suf) n = Inr (loc, ov)"
proof -
  from assms(1) have l: "local_payload_size t p = Inr (length loc)" and ov: "ov \<noteq> 0 \<longleftrightarrow> length loc < p"
    by (auto simp: require_valid_split_def bind_res_eq_Inr Let_def split: if_splits)
  have s1: "py_slice n (n + length loc) (hdr @ loc @ field @ suf) = loc"
    using assms(3) by (simp add: py_slice_prefix)
  show ?thesis
  proof (cases "length loc < p")
    case True
    then have f: "field = be_encode 4 ov" "ov < 256 ^ 4"
      using assms(2) ov by (auto simp: overflow_field_def to_bytes_eq_Inr)
    have "py_slice (n + length loc) (n + length loc + 4) ((hdr @ loc) @ field @ suf) = field"
      using assms(3) f(1) by (intro py_slice_prefix) simp_all
    with f True s1 l show ?thesis by (simp add: decode_payload_def assms(3))
  next
    case False
    then show ?thesis using s1 l ov by (simp add: decode_payload_def assms(3))
  qed
qed

lemma rowid_bytes_decode:
  assumes "rowid_ok r" and "encode_uvarint (to_twos_complement r) = Inr bs"
  shows "from_twos_complement (int (nat (to_twos_complement r))) = r"
  using assms twos_complement_roundtrip [of r] by (simp add: rowid_ok_def)

lemma decode_leaf_table_cell_encode:
  assumes "rowid_ok r" and "encode_leaf_table_cell r p loc ov = Inr cell"
  shows "decode_leaf_table_cell (cell @ suf) = Inr (r, p, loc, ov)"
proof -
  from assms(2) obtain b1 b2 field where b: "require_valid_split LEAF_TABLE p loc ov = Inr ()"
    "encode_uvarint (int p) = Inr b1" "encode_uvarint (to_twos_complement r) = Inr b2"
    "overflow_field ov = Inr field" and cell: "cell = b1 @ b2 @ loc @ field"
    by (auto simp: encode_leaf_table_cell_def bind_res_eq_Inr)
  show ?thesis
    using decode_encode_uvarint [OF b(2), of "[]" 0 "b2 @ loc @ field @ suf"]
      decode_encode_uvarint [OF b(3), of b1 "length b1" "loc @ field @ suf"]
      decode_payload_append [OF b(1,4), of "b1 @ b2" "length b1 + length b2" suf]
      rowid_bytes_decode [OF assms(1) b(3)]
    by (simp add: decode_leaf_table_cell_def cell)
qed

lemma decode_interior_table_cell_encode:
  assumes "rowid_ok r" and "encode_interior_table_cell child r = Inr cell"
  shows "decode_interior_table_cell (cell @ suf) = Inr (child, r)"
proof -
  from assms(2) obtain b where b: "encode_uvarint (to_twos_complement r) = Inr b"
    and cell: "cell = be_encode 4 child @ b" and c: "child < 256 ^ 4"
    by (auto simp: encode_interior_table_cell_def bind_res_eq_Inr to_bytes_eq_Inr)
  show ?thesis
    using decode_encode_uvarint [OF b, of "be_encode 4 child" 4 suf] rowid_bytes_decode [OF assms(1) b] c
      py_slice_prefix [of "[]" 0 "be_encode 4 child" 4 "b @ suf"]
    by (simp add: decode_interior_table_cell_def cell)
qed

lemma decode_leaf_index_cell_encode:
  assumes "encode_leaf_index_cell p loc ov = Inr cell"
  shows "decode_leaf_index_cell (cell @ suf) = Inr (p, loc, ov)"
proof -
  from assms obtain b field where b: "require_valid_split LEAF_INDEX p loc ov = Inr ()"
    "encode_uvarint (int p) = Inr b" "overflow_field ov = Inr field" and cell: "cell = b @ loc @ field"
    by (auto simp: encode_leaf_index_cell_def bind_res_eq_Inr)
  show ?thesis
    using decode_encode_uvarint [OF b(2), of "[]" 0 "loc @ field @ suf"]
      decode_payload_append [OF b(1,3), of b "length b" suf]
    by (simp add: decode_leaf_index_cell_def cell)
qed

lemma decode_interior_index_cell_encode:
  assumes "encode_interior_index_cell child p loc ov = Inr cell"
  shows "decode_interior_index_cell (cell @ suf) = Inr (child, p, loc, ov)"
proof -
  from assms obtain b field where b: "require_valid_split INTERIOR_INDEX p loc ov = Inr ()"
    "encode_uvarint (int p) = Inr b" "overflow_field ov = Inr field"
    and cell: "cell = be_encode 4 child @ b @ loc @ field" and c: "child < 256 ^ 4"
    by (auto simp: encode_interior_index_cell_def bind_res_eq_Inr to_bytes_eq_Inr)
  show ?thesis
    using decode_encode_uvarint [OF b(2), of "be_encode 4 child" 4 "loc @ field @ suf"]
      decode_payload_append [OF b(1,3), of "be_encode 4 child @ b" "4 + length b" suf] c
      py_slice_prefix [of "[]" 0 "be_encode 4 child" 4 "b @ loc @ field @ suf"]
    by (simp add: decode_interior_index_cell_def cell)
qed

section \<open>Truncated cells\<close>

lemma decode_payload_truncated:
  assumes "require_valid_split t p loc ov = Inr u" and "overflow_field ov = Inr field"
    and "m < length (loc @ field)" and "length hdr = n"
  shows "decode_payload t p (hdr @ take m (loc @ field)) n = Inl MalformedCellError"
proof -
  from assms(1) have l: "local_payload_size t p = Inr (length loc)" and ov: "ov \<noteq> 0 \<longleftrightarrow> length loc < p"
    by (auto simp: require_valid_split_def bind_res_eq_Inr Let_def split: if_splits)
  show ?thesis
  proof (cases "m < length loc")
    case False
    then have "0 < length field" using assms(3) by (cases field) simp_all
    then have "ov \<noteq> 0" "length field = 4"
      using assms(2) by (auto simp: overflow_field_def to_bytes_eq_Inr split: if_splits)
    with False ov l assms(3) show ?thesis
      by (simp add: decode_payload_def assms(4) Let_def)
  qed (simp add: decode_payload_def l assms(4))
qed

text \<open>A cell cut anywhere short of its end is refused, by the varint or by the payload check.\<close>

lemma leaf_table_cell_truncated:
  assumes "encode_leaf_table_cell r p loc ov = Inr cell" and "m < length cell"
  shows "\<exists>e. decode_leaf_table_cell (take m cell) = Inl e \<and> is_corrupt e"
proof -
  from assms(1) obtain b1 b2 field where b: "require_valid_split LEAF_TABLE p loc ov = Inr ()"
    "encode_uvarint (int p) = Inr b1" "encode_uvarint (to_twos_complement r) = Inr b2"
    "overflow_field ov = Inr field" and cell: "cell = b1 @ b2 @ loc @ field"
    by (auto simp: encode_leaf_table_cell_def bind_res_eq_Inr)
  consider "m < length b1" | "length b1 \<le> m" "m < length b1 + length b2" | "length b1 + length b2 \<le> m"
    by linarith
  then show ?thesis
  proof cases
    case 1
    then show ?thesis
      using decode_uvarint_truncated [OF b(2) 1, of "[]" 0] by (simp add: cell decode_leaf_table_cell_def)
  next
    case 2
    then have t: "take m cell = b1 @ take (m - length b1) b2" by (simp add: cell)
    show ?thesis
      using decode_encode_uvarint [OF b(2), of "[]" 0 "take (m - length b1) b2"]
        decode_uvarint_truncated [OF b(3), of "m - length b1" b1 "length b1"] 2
      by (simp add: t decode_leaf_table_cell_def)
  next
    case 3
    define k where "k = m - length b1 - length b2"
    have t: "take m cell = b1 @ b2 @ take k (loc @ field)" using 3 by (simp add: cell k_def)
    have "k < length (loc @ field)" using assms(2) 3 by (simp add: cell k_def)
    from decode_payload_truncated [OF b(1,4) this, of "b1 @ b2" "length b1 + length b2"]
    show ?thesis
      using decode_encode_uvarint [OF b(2), of "[]" 0 "b2 @ take k (loc @ field)"]
        decode_encode_uvarint [OF b(3), of b1 "length b1" "take k (loc @ field)"]
      by (simp add: t decode_leaf_table_cell_def del: take_append)
  qed
qed

lemma interior_index_cell_length:
  assumes "encode_interior_index_cell child p loc ov = Inr cell"
  shows "length cell \<le> 1019"
proof -
  from assms obtain b field where b: "require_valid_split INTERIOR_INDEX p loc ov = Inr ()"
    "encode_uvarint (int p) = Inr b" "overflow_field ov = Inr field"
    and cell: "cell = be_encode 4 child @ b @ loc @ field"
    by (auto simp: encode_interior_index_cell_def bind_res_eq_Inr to_bytes_eq_Inr)
  from b(1) have "local_payload_size INTERIOR_INDEX p = Inr (length loc)"
    by (auto simp: require_valid_split_def bind_res_eq_Inr Let_def split: if_splits)
  from local_payload_size_le(2) [OF this] have "length loc \<le> 1002" by (simp add: max_local_payload_eq)
  moreover have "length field \<le> 4"
    using b(3) by (auto simp: overflow_field_def to_bytes_eq_Inr split: if_splits)
  ultimately show ?thesis using encode_uvarint_length(1) [OF b(2)] by (simp add: cell)
qed

lemma to_twos_complement_nonneg: "0 \<le> r \<Longrightarrow> r < 2 ^ 63 \<Longrightarrow> to_twos_complement r = r"
  by (simp add: to_twos_complement_mod)

lemma be_encode_4:
  "be_encode 4 v = [word_of_nat (v div 256 div 256 div 256), word_of_nat (v div 256 div 256),
     word_of_nat (v div 256), word_of_nat v]"
proof -
  have four: "(4::nat) = Suc (Suc (Suc (Suc 0)))" by simp
  show ?thesis unfolding four be_encode.simps append.simps ..
qed

lemmas cell_eval = local_payload_size_def max_local_payload_eq require_valid_split_def overflow_field_def
  rowid_ok_def encode_uvarint_small to_twos_complement_nonneg be_encode_4 to_bytes_def Let_def

section \<open>Properties\<close>

text \<open>
  The overflow threshold: for every page type that carries payloads and every payload length, the
  local share never passes the page's limit nor the payload itself; a payload within the limit stays
  whole, and one past it spills at least one byte, keeps at least \<^const>\<open>MIN_LOCAL_PAYLOAD\<close> bytes, and
  the spilled part fills its overflow pages exactly unless the minimum was used.
\<close>

theorem local_payload_bounds:
  assumes "max_local_payload t = Inr x"
  shows "\<exists>l. local_payload_size t p = Inr l \<and> l \<le> x \<and> l \<le> p \<and> (p \<le> x \<longrightarrow> l = p)
    \<and> (x < p \<longrightarrow> l < p \<and> MIN_LOCAL_PAYLOAD \<le> l
         \<and> (l = MIN_LOCAL_PAYLOAD \<or> (p - l) mod (USABLE_SIZE - 4) = 0))"
proof (rule local_payload_size_cases [OF assms, of p])
  fix l
  assume l: "local_payload_size t p = Inr l" "p \<le> x \<Longrightarrow> l = p" "x < p \<Longrightarrow> MIN_LOCAL_PAYLOAD \<le> l"
    "x < p \<Longrightarrow> l \<le> x" "x < p \<Longrightarrow> l = MIN_LOCAL_PAYLOAD \<or> (p - l) mod (USABLE_SIZE - 4) = 0"
  show ?thesis
  proof (intro exI [of _ l] conjI impI)
    show "l \<le> x" "l \<le> p" using l(2,4) by (cases "p \<le> x"; simp)+
    assume "x < p"
    with l(4) show "l < p" by simp
  qed (use l in auto)
qed

theorem local_payload_bounds_witness:
  "\<exists>l. local_payload_size LEAF_INDEX 5000 = Inr l \<and> l \<le> 1002 \<and> l < 5000 \<and> MIN_LOCAL_PAYLOAD \<le> l
    \<and> (l = MIN_LOCAL_PAYLOAD \<or> (5000 - l) mod (USABLE_SIZE - 4) = 0)"
  using local_payload_bounds [of LEAF_INDEX 1002 5000] by (auto simp: max_local_payload_eq)

text \<open>
  All four cell formats decode to exactly the fields they were encoded from, whatever bytes
  follow the cell, for every rowid in the signed 64-bit range.
\<close>

theorem cells_roundtrip:
  assumes "rowid_ok r"
  shows "(encode_leaf_table_cell r p loc ov = Inr lt \<longrightarrow> decode_leaf_table_cell (lt @ suf) = Inr (r, p, loc, ov))
    \<and> (encode_interior_table_cell child r = Inr it \<longrightarrow> decode_interior_table_cell (it @ suf) = Inr (child, r))
    \<and> (encode_leaf_index_cell p loc ov = Inr li \<longrightarrow> decode_leaf_index_cell (li @ suf) = Inr (p, loc, ov))
    \<and> (encode_interior_index_cell child p loc ov = Inr ii \<longrightarrow>
         decode_interior_index_cell (ii @ suf) = Inr (child, p, loc, ov))"
  by (simp add: assms decode_leaf_table_cell_encode decode_interior_table_cell_encode
      decode_leaf_index_cell_encode decode_interior_index_cell_encode)

theorem cells_roundtrip_witness:
  "decode_leaf_table_cell ([2, 5, 9, 8] @ [1]) = Inr (5, 2, [9, 8], 0)
   \<and> decode_interior_table_cell ([0, 0, 0, 3, 5] @ [1]) = Inr (3, 5)"
proof -
  have "encode_leaf_table_cell 5 2 [9, 8] 0 = Inr [2, 5, 9, 8]"
    and "encode_interior_table_cell 3 5 = Inr [0, 0, 0, 3, 5]"
    by (simp_all add: encode_leaf_table_cell_def encode_interior_table_cell_def cell_eval)
  with cells_roundtrip [where r = 5 and p = 2 and loc = "[9, 8]" and ov = 0 and lt = "[2, 5, 9, 8]"
      and suf = "[1]" and child = 3 and it = "[0, 0, 0, 3, 5]"]
  show ?thesis by (simp add: rowid_ok_def)
qed

text \<open>
  A table leaf cell cut short at any byte is refused with a \<^verbatim>\<open>CorruptDatabaseError\<close>; no
  truncation decodes to some other row.
\<close>

theorem truncated_cell_rejected:
  assumes "encode_leaf_table_cell r p loc ov = Inr cell" and "m < length cell"
  shows "\<exists>e. decode_leaf_table_cell (take m cell) = Inl e \<and> is_corrupt e"
  using assms by (rule leaf_table_cell_truncated)

theorem truncated_cell_rejected_witness:
  "\<exists>e. decode_leaf_table_cell (take 3 [2, 5, 9, 8]) = Inl e \<and> is_corrupt e"
  by (rule truncated_cell_rejected [of 5 2 "[9, 8]" 0])
    (simp_all add: encode_leaf_table_cell_def cell_eval)

text \<open>
  The stricter index threshold is what guarantees fan-out: any four index interior cells the
  encoder accepts, however long their keys, fit together on one page.
\<close>

theorem index_fanout:
  assumes "\<forall>c \<in> set cells. \<exists>child p loc ov. encode_interior_index_cell child p loc ov = Inr c"
    and "length cells \<le> 4"
  shows "used_bytes (mk_page INTERIOR_INDEX cells right_child) \<le> PAGE_SIZE"
proof -
  have "\<forall>c \<in> set cells. length c \<le> 1019" using assms(1) interior_index_cell_length by blast
  then have "sum_list (map length cells) \<le> sum_list (map (\<lambda>_. 1019) cells)"
    by (intro sum_list_mono) simp
  with assms(2) show ?thesis
    by (simp add: used_bytes_def mk_page_def cell_count_def header_size_eq is_leaf_def PAGE_SIZE_def
        sum_list_triv)
qed

theorem index_fanout_witness:
  "used_bytes (mk_page INTERIOR_INDEX [[0, 0, 0, 3, 2, 9, 8], [0, 0, 0, 3, 2, 9, 8]] 4) \<le> PAGE_SIZE"
proof (rule index_fanout)
  have "encode_interior_index_cell 3 2 [9, 8] 0 = Inr [0, 0, 0, 3, 2, 9, 8]"
    by (simp add: encode_interior_index_cell_def cell_eval)
  then show "\<forall>c \<in> set [[0, 0, 0, 3, 2, 9, 8], [0, 0, 0, 3, 2, 9, 8]].
      \<exists>child p loc ov. encode_interior_index_cell child p loc ov = Inr c" by auto
qed simp

end
