(* ===== verification/Search.thy ===== *)
theory Search
  imports Cells
begin

text \<open>
  Search inside one table b-tree page, \<^verbatim>\<open>src/src/quilldb/btree/search.py\<close>. The lemmas show that the
  two binary searches agree with a linear scan of the page's keys, decode errors apart, and that the
  child chosen on an interior page is the one the boundary convention names.
\<close>

section \<open>Definitions\<close>

text \<open>The key of a cell: \<^verbatim>\<open>rowid, *_ = decode_leaf_table_cell(cell)\<close> and the interior separator.\<close>

definition leaf_key :: "bytes \<Rightarrow> int res" where
  "leaf_key cell = bind_res (decode_leaf_table_cell cell) (\<lambda>(rowid, _). Inr rowid)"

definition interior_key :: "bytes \<Rightarrow> int res" where
  "interior_key cell = bind_res (decode_interior_table_cell cell) (\<lambda>(_, separator). Inr separator)"

definition interior_child :: "bytes \<Rightarrow> nat res" where
  "interior_child cell = bind_res (decode_interior_table_cell cell) (\<lambda>(child_page, _). Inr child_page)"

text \<open>\<open>hi\<close> starts at \<^verbatim>\<open>len(cells) - 1\<close> and may reach -1: both bounds are integers.\<close>

function binary_search_loop :: "bytes list \<Rightarrow> int \<Rightarrow> int \<Rightarrow> int \<Rightarrow> nat option res" where
  "binary_search_loop cells key lo hi =
     (if lo \<le> hi then
        let mid = lo + (hi - lo) div 2 in
        bind_res (py_get cells (nat mid)) (\<lambda>cell.
        bind_res (leaf_key cell) (\<lambda>rowid.
          if rowid = key then Inr (Some (nat mid))
          else if rowid < key then binary_search_loop cells key (mid + 1) hi
          else binary_search_loop cells key lo (mid - 1)))
      else Inr None)"
  by pat_completeness auto
termination
  by (relation "measure (\<lambda>(cells, key, lo, hi). nat (hi - lo + 1))") auto

declare binary_search_loop.simps [simp del]

definition binary_search_leaf :: "page_body \<Rightarrow> int \<Rightarrow> nat option res" where
  "binary_search_leaf page key =
     binary_search_loop (pb_cells page) key 0 (int (length (pb_cells page)) - 1)"

text \<open>
  The boundary loop \<^verbatim>\<open>while lo < hi\<close>, written once for the two pages types that use it
  (\<open>key_of\<close> is the key their cells are ordered by).
\<close>

function lower_bound_loop :: "(bytes \<Rightarrow> int res) \<Rightarrow> bytes list \<Rightarrow> int \<Rightarrow> nat \<Rightarrow> nat \<Rightarrow> nat res" where
  "lower_bound_loop key_of cells key lo hi =
     (if lo < hi then
        let mid = lo + (hi - lo) div 2 in
        bind_res (py_get cells mid) (\<lambda>cell.
        bind_res (key_of cell) (\<lambda>k.
          if key \<le> k then lower_bound_loop key_of cells key lo mid
          else lower_bound_loop key_of cells key (mid + 1) hi))
      else Inr lo)"
  by pat_completeness auto
termination
  by (relation "measure (\<lambda>(key_of, cells, key, lo, hi). hi - lo)") auto

declare lower_bound_loop.simps [simp del]

definition interior_slot_for_key :: "page_body \<Rightarrow> int \<Rightarrow> nat res" where
  "interior_slot_for_key page key =
     lower_bound_loop interior_key (pb_cells page) key 0 (length (pb_cells page))"

definition leaf_slot_lower_bound :: "page_body \<Rightarrow> int \<Rightarrow> nat res" where
  "leaf_slot_lower_bound page key =
     lower_bound_loop leaf_key (pb_cells page) key 0 (length (pb_cells page))"

definition children_of_interior :: "page_body \<Rightarrow> nat list res" where
  "children_of_interior page =
     bind_res (map_res interior_child (pb_cells page)) (\<lambda>cs. Inr (cs @ [pb_right_child page]))"

definition child_for_key :: "page_body \<Rightarrow> int \<Rightarrow> nat res" where
  "child_for_key page key =
     bind_res (children_of_interior page) (\<lambda>children.
     bind_res (interior_slot_for_key page key) (\<lambda>slot. py_get children slot))"

section \<open>The loops against a linear scan\<close>

text \<open>The position a linear scan finds: how many keys are below \<open>key\<close>.\<close>

definition scan_slot :: "int list \<Rightarrow> int \<Rightarrow> nat" where
  "scan_slot ks key = length (takeWhile (\<lambda>k. k < key) ks)"

lemma scan_slot_unique:
  assumes "i \<le> length ks" and "\<forall>j < i. ks ! j < key" and "\<forall>j. i \<le> j \<longrightarrow> j < length ks \<longrightarrow> key \<le> ks ! j"
  shows "scan_slot ks key = i"
  using assms
proof (induction ks arbitrary: i)
  case (Cons k ks)
  show ?case
  proof (cases i)
    case 0
    with Cons.prems(3) have "key \<le> k" by force
    with 0 show ?thesis by (simp add: scan_slot_def)
  next
    case (Suc i')
    have "scan_slot ks key = i'"
      using Cons.prems Suc by (intro Cons.IH) force+
    moreover have "k < key" using Cons.prems(2) Suc by force
    ultimately show ?thesis using Suc by (simp add: scan_slot_def)
  qed
qed (simp add: scan_slot_def)

lemma scan_slot_le: "scan_slot ks key \<le> length ks"
  by (simp add: scan_slot_def length_takeWhile_le)

lemma scan_slot_below: "j < scan_slot ks key \<Longrightarrow> ks ! j < key"
  unfolding scan_slot_def by (metis nth_mem set_takeWhileD takeWhile_nth)

lemma scan_slot_above:
  assumes "sorted ks" and "scan_slot ks key \<le> j" and "j < length ks"
  shows "key \<le> ks ! j"
proof -
  have "\<not> ks ! scan_slot ks key < key"
    using assms unfolding scan_slot_def by (intro nth_length_takeWhile) simp
  moreover have "ks ! scan_slot ks key \<le> ks ! j" using assms by (simp add: sorted_nth_mono)
  ultimately show ?thesis by simp
qed

lemma py_get_nth: "i < length xs \<Longrightarrow> py_get xs i = Inr (xs ! i)"
  by (simp add: py_get_def)

text \<open>The loop keeps every key left of \<open>lo\<close> below the target and every key from \<open>hi\<close> on at or above it.\<close>

lemma lower_bound_loop_scan:
  assumes "map_res key_of cells = Inr ks" and "sorted ks"
    and "lo \<le> hi" and "hi \<le> length cells"
    and "\<forall>j < lo. ks ! j < key" and "\<forall>j. hi \<le> j \<longrightarrow> j < length ks \<longrightarrow> key \<le> ks ! j"
  shows "lower_bound_loop key_of cells key lo hi = Inr (scan_slot ks key)"
  using assms(3-6)
proof (induction "hi - lo" arbitrary: lo hi rule: less_induct)
  case less
  note len = map_res_eq_Inr_length [OF assms(1)]
  show ?case
  proof (cases "lo < hi")
    case False
    with less.prems len have "scan_slot ks key = lo" by (intro scan_slot_unique) auto
    with False show ?thesis by (simp add: lower_bound_loop.simps [of _ _ _ lo])
  next
    case True
    define mid where "mid = lo + (hi - lo) div 2"
    have mid: "lo \<le> mid" "mid < hi" "mid < length cells" using True less.prems(2) by (auto simp: mid_def)
    have key: "key_of (cells ! mid) = Inr (ks ! mid)" using map_res_eq_Inr_nth [OF assms(1) mid(3)] .
    have step: "lower_bound_loop key_of cells key lo hi =
      (if key \<le> ks ! mid then lower_bound_loop key_of cells key lo mid
       else lower_bound_loop key_of cells key (mid + 1) hi)"
      using True mid(3) by (subst lower_bound_loop.simps) (simp add: py_get_nth key mid_def [symmetric])
    show ?thesis
    proof (cases "key \<le> ks ! mid")
      case le: True
      have "lower_bound_loop key_of cells key lo mid = Inr (scan_slot ks key)"
        using mid less.prems le sorted_nth_mono [OF assms(2)]
        by (intro less.hyps) (auto intro: order_trans)
      with step le show ?thesis by simp
    next
      case gt: False
      have "ks ! j < key" if "j < mid + 1" for j
        using that gt mid len sorted_nth_mono [OF assms(2), of j mid] by simp
      then have "lower_bound_loop key_of cells key (mid + 1) hi = Inr (scan_slot ks key)"
        using mid less.prems by (intro less.hyps) auto
      with step gt show ?thesis by simp
    qed
  qed
qed

text \<open>The exact search keeps the target, if it is there at all, between its bounds.\<close>

lemma binary_search_loop_scan:
  assumes "map_res leaf_key cells = Inr ks" and "sorted ks"
    and "0 \<le> lo" and "lo \<le> hi + 1" and "hi < int (length cells)"
    and "\<forall>j < length ks. ks ! j = key \<longrightarrow> lo \<le> int j \<and> int j \<le> hi"
  shows "\<exists>r. binary_search_loop cells key lo hi = Inr r \<and>
    (case r of None \<Rightarrow> key \<notin> set ks | Some i \<Rightarrow> i < length ks \<and> ks ! i = key)"
  using assms(3-6)
proof (induction "nat (hi - lo + 1)" arbitrary: lo hi rule: less_induct)
  case less
  note len = map_res_eq_Inr_length [OF assms(1)]
  show ?case
  proof (cases "lo \<le> hi")
    case False
    with less.prems show ?thesis
      by (intro exI [of _ None]) (auto simp: binary_search_loop.simps [of _ _ lo] in_set_conv_nth)
  next
    case True
    define mid where "mid = lo + (hi - lo) div 2"
    have mid: "lo \<le> mid" "mid \<le> hi" "nat mid < length cells" "0 \<le> mid"
      using True less.prems(1,3) by (auto simp: mid_def)
    have key: "leaf_key (cells ! nat mid) = Inr (ks ! nat mid)" using map_res_eq_Inr_nth [OF assms(1) mid(3)] .
    have step: "binary_search_loop cells key lo hi =
      (if ks ! nat mid = key then Inr (Some (nat mid))
       else if ks ! nat mid < key then binary_search_loop cells key (mid + 1) hi
       else binary_search_loop cells key lo (mid - 1))"
      using True mid(3) by (subst binary_search_loop.simps) (simp add: py_get_nth key mid_def [symmetric])
    have above: "mid + 1 \<le> int j" if "ks ! nat mid < key" "j < length ks" "ks ! j = key" for j
      using that mid(3) len sorted_nth_mono [OF assms(2), of j "nat mid"] by (cases "j \<le> nat mid") auto
    have below: "int j \<le> mid - 1" if "key < ks ! nat mid" "j < length ks" "ks ! j = key" for j
      using that mid(4) sorted_nth_mono [OF assms(2), of "nat mid" j] by (cases "nat mid \<le> j") auto
    consider "ks ! nat mid = key" | "ks ! nat mid < key" | "key < ks ! nat mid" by linarith
    then show ?thesis
    proof cases
      case 1
      then show ?thesis using step mid(3) len by simp
    next
      case 2
      then have "\<exists>r. binary_search_loop cells key (mid + 1) hi = Inr r \<and>
        (case r of None \<Rightarrow> key \<notin> set ks | Some i \<Rightarrow> i < length ks \<and> ks ! i = key)"
        using mid less.prems above by (intro less.hyps) auto
      with 2 step show ?thesis by simp
    next
      case 3
      then have "\<exists>r. binary_search_loop cells key lo (mid - 1) = Inr r \<and>
        (case r of None \<Rightarrow> key \<notin> set ks | Some i \<Rightarrow> i < length ks \<and> ks ! i = key)"
        using mid less.prems below by (intro less.hyps) auto
      with 3 step show ?thesis by simp
    qed
  qed
qed

lemma leaf_slot_scan:
  "map_res leaf_key (pb_cells page) = Inr ks \<Longrightarrow> sorted ks \<Longrightarrow>
   leaf_slot_lower_bound page key = Inr (scan_slot ks key)"
  unfolding leaf_slot_lower_bound_def
  by (rule lower_bound_loop_scan) (simp_all add: map_res_eq_Inr_length)

lemma interior_slot_scan:
  "map_res interior_key (pb_cells page) = Inr ks \<Longrightarrow> sorted ks \<Longrightarrow>
   interior_slot_for_key page key = Inr (scan_slot ks key)"
  unfolding interior_slot_for_key_def
  by (rule lower_bound_loop_scan) (simp_all add: map_res_eq_Inr_length)

text \<open>A cell whose separator decodes has a child that decodes.\<close>

lemma interior_children_decode:
  "map_res interior_key cells = Inr ks \<Longrightarrow> \<exists>cs. map_res interior_child cells = Inr cs"
proof (induction cells arbitrary: ks)
  case (Cons c cells)
  from Cons.prems obtain kc ks' where "decode_interior_table_cell c = Inr kc" and ks': "map_res interior_key cells = Inr ks'"
    by (auto simp: bind_res_eq_Inr interior_key_def [of c])
  moreover from Cons.IH [OF ks'] obtain cs where "map_res interior_child cells = Inr cs" ..
  ultimately show ?case by (simp add: interior_child_def [of c] split_beta)
qed simp

lemma child_for_key_scan:
  assumes "map_res interior_key (pb_cells page) = Inr ks" and "sorted ks"
  obtains cs where "map_res interior_child (pb_cells page) = Inr cs" and "length cs = length ks"
    and "child_for_key page key = Inr ((cs @ [pb_right_child page]) ! scan_slot ks key)"
proof -
  obtain cs where cs: "map_res interior_child (pb_cells page) = Inr cs"
    using interior_children_decode [OF assms(1)] by blast
  have len: "length cs = length ks"
    using map_res_eq_Inr_length [OF cs] map_res_eq_Inr_length [OF assms(1)] by simp
  show ?thesis
    using that [OF cs len] scan_slot_le [of ks key] len
    by (simp add: child_for_key_def children_of_interior_def cs interior_slot_scan [OF assms] py_get_def)
qed

text \<open>The keys of freshly encoded cells.\<close>

lemma leaf_key_encode:
  "rowid_ok r \<Longrightarrow> encode_leaf_table_cell r p loc ov = Inr cell \<Longrightarrow> leaf_key cell = Inr r"
  using decode_leaf_table_cell_encode [of r p loc ov cell "[]"] by (simp add: leaf_key_def)

lemma interior_key_encode:
  "rowid_ok r \<Longrightarrow> encode_interior_table_cell child r = Inr cell \<Longrightarrow> interior_key cell = Inr r"
  using decode_interior_table_cell_encode [of r child cell "[]"] by (simp add: interior_key_def)

section \<open>Properties\<close>

text \<open>
  On a leaf whose rowids decode and ascend, \<^verbatim>\<open>binary_search_leaf\<close> always returns, finds the
  rowid exactly when it is on the page, and the index it returns holds it;
  \<^verbatim>\<open>leaf_slot_lower_bound\<close> returns the position a linear scan finds, the first whose rowid is not
  below the key.
\<close>

theorem leaf_search_correct:
  assumes "map_res leaf_key (pb_cells page) = Inr ks" and "sorted ks"
  shows "(\<exists>r. binary_search_leaf page key = Inr r \<and>
      (case r of None \<Rightarrow> key \<notin> set ks | Some i \<Rightarrow> i < length ks \<and> ks ! i = key))
    \<and> leaf_slot_lower_bound page key = Inr (scan_slot ks key)"
proof
  show "\<exists>r. binary_search_leaf page key = Inr r \<and>
      (case r of None \<Rightarrow> key \<notin> set ks | Some i \<Rightarrow> i < length ks \<and> ks ! i = key)"
    unfolding binary_search_leaf_def using assms map_res_eq_Inr_length [OF assms(1)]
    by (intro binary_search_loop_scan) auto
qed (rule leaf_slot_scan [OF assms])

theorem leaf_search_correct_witness:
  "\<exists>r. binary_search_leaf (mk_page LEAF_TABLE [[0, 3], [0, 5]] 0) 5 = Inr r \<and>
    (case r of None \<Rightarrow> (5::int) \<notin> set [3, 5] | Some i \<Rightarrow> i < length [3, 5 :: int] \<and> [3, 5] ! i = (5 :: int))"
proof -
  have "encode_leaf_table_cell 3 0 [] 0 = Inr [0, 3]" "encode_leaf_table_cell 5 0 [] 0 = Inr [0, 5]"
    by (simp_all add: encode_leaf_table_cell_def cell_eval)
  then have "leaf_key [0, 3] = Inr 3" "leaf_key [0, 5] = Inr 5"
    by (simp_all add: leaf_key_encode [of 3] leaf_key_encode [of 5] rowid_ok_def)
  then show ?thesis
    using leaf_search_correct [of "mk_page LEAF_TABLE [[0, 3], [0, 5]] 0" "[3, 5]" 5]
    by (simp add: mk_page_def)
qed

text \<open>
  On an interior page whose separators decode and ascend, \<^verbatim>\<open>child_for_key\<close> returns the child of
  the first separator that is not below the key, or the right child when there is none: every
  separator left of the chosen child is below the key and every one right of it is at or above, so a
  key equal to a separator goes left.
\<close>

theorem child_for_key_boundary:
  assumes "map_res interior_key (pb_cells page) = Inr seps" and "sorted seps"
  shows "\<exists>slot children. children_of_interior page = Inr children \<and> length children = length seps + 1
    \<and> interior_slot_for_key page key = Inr slot \<and> child_for_key page key = Inr (children ! slot)
    \<and> slot \<le> length seps \<and> (\<forall>j < slot. seps ! j < key) \<and> (\<forall>j. slot \<le> j \<and> j < length seps \<longrightarrow> key \<le> seps ! j)
    \<and> children ! length seps = pb_right_child page"
proof -
  obtain cs where cs: "map_res interior_child (pb_cells page) = Inr cs" "length cs = length seps"
    "child_for_key page key = Inr ((cs @ [pb_right_child page]) ! scan_slot seps key)"
    using child_for_key_scan [OF assms] by metis
  show ?thesis
    by (rule exI [of _ "scan_slot seps key"], rule exI [of _ "cs @ [pb_right_child page]"])
      (use cs assms(2) in \<open>auto simp: children_of_interior_def interior_slot_scan [OF assms] scan_slot_le
        scan_slot_below scan_slot_above nth_append\<close>)
qed

theorem child_for_key_boundary_witness:
  "\<exists>slot. interior_slot_for_key (mk_page INTERIOR_TABLE [[0, 0, 0, 3, 5]] 9) 5 = Inr slot
     \<and> (\<forall>j < slot. [5] ! j < (5::int))"
proof -
  have "encode_interior_table_cell 3 5 = Inr [0, 0, 0, 3, 5]"
    by (simp add: encode_interior_table_cell_def cell_eval)
  from interior_key_encode [OF _ this] have "interior_key [0, 0, 0, 3, 5] = Inr 5" by (simp add: rowid_ok_def)
  with child_for_key_boundary [of "mk_page INTERIOR_TABLE [[0, 0, 0, 3, 5]] 9" "[5]" 5]
  show ?thesis by (auto simp: mk_page_def)
qed

end
