(* ===== verification/Split.thy ===== *)
theory Split
  imports Prelude
begin

text \<open>
  The partition decisions behind page splits, \<^verbatim>\<open>src/src/quilldb/btree/split.py\<close>. The lemmas show
  that a leaf split loses no cell and promotes the largest key left behind, that an interior split
  consumes exactly one cell and loses no child pointer, and how even a byte-aware split is.
\<close>

section \<open>Definitions\<close>

text \<open>
  The loops look for the split with the smallest imbalance, a later one winning a tie.
  \<^verbatim>\<open>target = sum(sizes) / 2\<close> is a float; page footprints are far below \<open>2 ^ 53\<close>, so the comparison
  is exact and is modelled by comparing the doubled differences.
\<close>

fun closest_loop :: "nat list \<Rightarrow> nat \<Rightarrow> nat \<Rightarrow> nat \<Rightarrow> int option \<Rightarrow> nat list \<Rightarrow> nat" where
  "closest_loop sizes total_size running best_size best_diff [] = best_size"
| "closest_loop sizes total_size running best_size best_diff (left_size # rest) =
     (let running' = running + sizes ! (left_size - 1);
          diff = \<bar>2 * int running' - int total_size\<bar>
      in if (case best_diff of None \<Rightarrow> True | Some d \<Rightarrow> diff \<le> d)
         then closest_loop sizes total_size running' left_size (Some diff) rest
         else closest_loop sizes total_size running' best_size best_diff rest)"

definition closest_to_half_by_bytes :: "bytes list \<Rightarrow> nat" where
  "closest_to_half_by_bytes cells =
     (let sizes = map (\<lambda>cell. length cell + 2) cells
      in closest_loop sizes (sum_list sizes) 0 1 None [1..<length cells])"

definition split_cells :: "bytes list \<Rightarrow> 'k list \<Rightarrow> bool \<Rightarrow> (bytes list \<times> bytes list \<times> 'k) res" where
  "split_cells cells keys is_rightmost =
     (if length cells < 2 then Inl ValueError
      else let left_size = (if is_rightmost then length cells - 1 else closest_to_half_by_bytes cells)
           in bind_res (py_get keys (left_size - 1)) (\<lambda>separator.
                Inr (take left_size cells, drop left_size cells, separator)))"

fun prefix_sums :: "nat list \<Rightarrow> nat \<Rightarrow> nat list" where
  "prefix_sums [] acc = [acc]"
| "prefix_sums (sz # sizes) acc = acc # prefix_sums sizes (acc + sz)"

fun consume_loop :: "nat list \<Rightarrow> nat \<Rightarrow> nat \<Rightarrow> int option \<Rightarrow> nat list \<Rightarrow> nat" where
  "consume_loop prefix total_size best_m best_diff [] = best_m"
| "consume_loop prefix total_size best_m best_diff (m # rest) =
     (let diff = \<bar>int (prefix ! m) + int (prefix ! (m + 1)) - int total_size\<bar>
      in if (case best_diff of None \<Rightarrow> True | Some d \<Rightarrow> diff \<le> d)
         then consume_loop prefix total_size m (Some diff) rest
         else consume_loop prefix total_size best_m best_diff rest)"

definition consume_closest_to_half_by_bytes :: "bytes list \<Rightarrow> nat" where
  "consume_closest_to_half_by_bytes cells =
     (let sizes = map (\<lambda>cell. length cell + 2) cells
      in consume_loop (prefix_sums sizes 0) (sum_list sizes) 0 None [0..<length cells])"

definition split_interior_cells ::
  "bytes list \<Rightarrow> 'k list \<Rightarrow> nat list \<Rightarrow> nat \<Rightarrow> bool \<Rightarrow> (bytes list \<times> nat \<times> bytes list \<times> nat \<times> 'k) res" where
  "split_interior_cells cells keys children right_child is_rightmost =
     (if length cells < 3 then Inl ValueError
      else let m = (if is_rightmost then length cells - 2
                    else min (max (consume_closest_to_half_by_bytes cells) 1) (length cells - 2))
           in bind_res (py_get keys m) (\<lambda>separator.
              bind_res (py_get children m) (\<lambda>left_right_child.
                Inr (take m cells, left_right_child, drop (m + 1) cells, right_child, separator))))"

section \<open>The loops find a least imbalance\<close>

definition footprint :: "bytes list \<Rightarrow> nat" where
  "footprint cells = sum_list (map (\<lambda>cell. length cell + 2) cells)"

lemma footprint_simps [simp]:
  "footprint [] = 0" "footprint (c # cs) = length c + 2 + footprint cs"
  "footprint (xs @ ys) = footprint xs + footprint ys"
  by (simp_all add: footprint_def)

lemma footprint_take_drop: "footprint (take k cells) + footprint (drop k cells) = footprint cells"
  by (metis append_take_drop_id footprint_simps(3))

lemma footprint_take_Suc:
  "k < length cells \<Longrightarrow> footprint (take (Suc k) cells) = footprint (take k cells) + (length (cells ! k) + 2)"
  by (simp add: take_Suc_conv_app_nth)

text \<open>How far the left \<open>k\<close> cells are from half the bytes, doubled.\<close>

definition imbalance :: "bytes list \<Rightarrow> nat \<Rightarrow> int" where
  "imbalance cells k = \<bar>2 * int (footprint (take k cells)) - int (footprint cells)\<bar>"

text \<open>Scanning the sizes \<open>k, ..., n - 1\<close> with the best of the earlier ones in hand.\<close>

lemma closest_loop_least:
  assumes "1 \<le> k" and "k \<le> n" and "n = length cells"
    and "1 \<le> best" and "best < n"
    and "\<forall>j. 1 \<le> j \<longrightarrow> j < k \<longrightarrow> imbalance cells best \<le> imbalance cells j"
    and "best_diff = (if k = 1 then None else Some (imbalance cells best))"
  defines "r \<equiv> closest_loop (map (\<lambda>cell. length cell + 2) cells) (footprint cells)
                 (footprint (take (k - 1) cells)) best best_diff [k..<n]"
  shows "1 \<le> r \<and> r < n \<and> (\<forall>j. 1 \<le> j \<longrightarrow> j < n \<longrightarrow> imbalance cells r \<le> imbalance cells j)"
  using assms(1-7) unfolding r_def
proof (induction "n - k" arbitrary: k best best_diff)
  case 0
  then show ?case by simp
next
  case (Suc d)
  then have k: "k < n" by simp
  have run: "footprint (take (k - 1) cells) + (length (cells ! (k - 1)) + 2) = footprint (take k cells)"
    using footprint_take_Suc [of "k - 1" cells] Suc.prems(1,3) k by simp
  define new where "new = (case best_diff of None \<Rightarrow> True | Some e \<Rightarrow> imbalance cells k \<le> e)"
  define best' where "best' = (if new then k else best)"
  have "closest_loop (map (\<lambda>cell. length cell + 2) cells) (footprint cells)
      (footprint (take (k - 1) cells)) best best_diff [k..<n]
    = closest_loop (map (\<lambda>cell. length cell + 2) cells) (footprint cells)
      (footprint (take (Suc k - 1) cells)) best' (Some (imbalance cells best')) [Suc k..<n]"
  proof -
    have nth: "map (\<lambda>cell. length cell + 2) cells ! (k - 1) = length (cells ! (k - 1)) + 2"
      using k Suc.prems(3) by simp
    show ?thesis
      using Suc.prems(7) unfolding upt_conv_Cons [OF k] closest_loop.simps nth Let_def run
      by (auto simp: best'_def new_def imbalance_def split: if_splits)
  qed
  moreover have "imbalance cells best' \<le> imbalance cells j" if "1 \<le> j" "j < Suc k" for j
    using that Suc.prems(6,7) by (fastforce simp: best'_def new_def less_Suc_eq split: if_splits)
  moreover have "1 \<le> best'" "best' < n" using Suc.prems(1,4,5) k by (auto simp: best'_def)
  ultimately show ?case
    using Suc.hyps(1) [of "Suc k" best' "Some (imbalance cells best')"] Suc.hyps(2) Suc.prems(1,3) k by simp
qed

lemma closest_to_half_least:
  assumes "2 \<le> length cells"
  defines "r \<equiv> closest_to_half_by_bytes cells"
  shows "1 \<le> r" and "r < length cells"
    and "1 \<le> j \<Longrightarrow> j < length cells \<Longrightarrow> imbalance cells r \<le> imbalance cells j"
  using closest_loop_least [of 1 "length cells" cells 1 None] assms(1)
  unfolding r_def closest_to_half_by_bytes_def Let_def by (auto simp: footprint_def)

text \<open>The consumed index, likewise: \<open>[0..<n]\<close> is scanned and the least difference kept.\<close>

lemma prefix_sums_nth:
  "k \<le> length sizes \<Longrightarrow> prefix_sums sizes acc ! k = acc + sum_list (take k sizes)"
  by (induction sizes acc arbitrary: k rule: prefix_sums.induct)
    (auto simp: nth_Cons take_Cons split: nat.splits)

lemma consume_loop_range:
  "best < n \<Longrightarrow> k \<le> n \<Longrightarrow> consume_loop prefix total_size best best_diff [k..<n] < n"
proof (induction "n - k" arbitrary: k best best_diff)
  case (Suc d)
  then have k: "k < n" by simp
  show ?case
    unfolding upt_conv_Cons [OF k] consume_loop.simps Let_def
    using Suc.hyps(1) [of "Suc k"] Suc.hyps(2) Suc.prems k by auto
qed simp

text \<open>How uneven the two sides are when cell \<open>m\<close> is consumed.\<close>

definition consume_imbalance :: "bytes list \<Rightarrow> nat \<Rightarrow> int" where
  "consume_imbalance cells m = \<bar>int (footprint (take m cells)) + int (footprint (take (m + 1) cells)) - int (footprint cells)\<bar>"

lemma prefix_footprint:
  "m \<le> length cells \<Longrightarrow> prefix_sums (map (\<lambda>cell. length cell + 2) cells) 0 ! m = footprint (take m cells)"
  by (simp add: prefix_sums_nth footprint_def take_map)

lemma consume_loop_least:
  assumes "k \<le> n" and "n = length cells" and "best < n" and "\<forall>j < k. consume_imbalance cells best \<le> consume_imbalance cells j"
    and "best_diff = (if k = 0 then None else Some (consume_imbalance cells best))"
  defines "r \<equiv> consume_loop (prefix_sums (map (\<lambda>cell. length cell + 2) cells) 0) (footprint cells) best best_diff [k..<n]"
  shows "r < n \<and> (\<forall>j < n. consume_imbalance cells r \<le> consume_imbalance cells j)"
  using assms(1-5) unfolding r_def
proof (induction "n - k" arbitrary: k best best_diff)
  case (Suc d)
  then have k: "k < n" by simp
  define new where "new = (case best_diff of None \<Rightarrow> True | Some e \<Rightarrow> consume_imbalance cells k \<le> e)"
  define best' where "best' = (if new then k else best)"
  have pm: "prefix_sums (map (\<lambda>cell. length cell + 2) cells) 0 ! k = footprint (take k cells)"
    "prefix_sums (map (\<lambda>cell. length cell + 2) cells) 0 ! (k + 1) = footprint (take (k + 1) cells)"
    using k Suc.prems(2) by (simp_all only: prefix_footprint)
  have "consume_loop (prefix_sums (map (\<lambda>cell. length cell + 2) cells) 0) (footprint cells) best best_diff [k..<n]
    = consume_loop (prefix_sums (map (\<lambda>cell. length cell + 2) cells) 0) (footprint cells) best'
        (Some (consume_imbalance cells best')) [Suc k..<n]"
    using Suc.prems(5) unfolding upt_conv_Cons [OF k] consume_loop.simps Let_def pm
    by (auto simp: best'_def new_def consume_imbalance_def split: if_splits)
  moreover have "consume_imbalance cells best' \<le> consume_imbalance cells j" if "j < Suc k" for j
    using that Suc.prems(4,5) by (fastforce simp: best'_def new_def less_Suc_eq split: if_splits)
  moreover have "best' < n" using Suc.prems(3) k by (auto simp: best'_def)
  ultimately show ?case
    using Suc.hyps(1) [of "Suc k" best' "Some (consume_imbalance cells best')"] Suc.hyps(2) Suc.prems(2) k by simp
qed simp

lemma consume_closest_least:
  assumes "cells \<noteq> []"
  shows "consume_closest_to_half_by_bytes cells < length cells"
    and "j < length cells \<Longrightarrow> consume_imbalance cells (consume_closest_to_half_by_bytes cells) \<le> consume_imbalance cells j"
  using consume_loop_least [of 0 "length cells" cells 0 None] assms
  unfolding consume_closest_to_half_by_bytes_def Let_def by (auto simp: footprint_def)

lemma consume_closest_balanced:
  assumes "cells \<noteq> []" and "\<forall>c \<in> set cells. length c + 2 \<le> b"
  shows "consume_imbalance cells (consume_closest_to_half_by_bytes cells) \<le> int b"
proof -
  let ?P = "\<lambda>k. footprint (take k cells)"
  define m where "m = (LEAST k. footprint cells \<le> 2 * ?P (Suc k))"
  have ex: "footprint cells \<le> 2 * ?P (Suc (length cells - 1))" using assms(1) by simp
  have up: "footprint cells \<le> 2 * ?P (Suc m)" unfolding m_def using ex by (rule LeastI)
  have "m \<le> length cells - 1" unfolding m_def using ex by (rule Least_le)
  then have m: "m < length cells" using assms(1) by (cases cells) auto
  have lo: "2 * ?P m \<le> footprint cells"
  proof (cases m)
    case (Suc j)
    then show ?thesis using not_less_Least [of j "\<lambda>k. footprint cells \<le> 2 * ?P (Suc k)"] by (simp add: m_def not_le)
  qed simp
  have "length (cells ! m) + 2 \<le> b" using assms(2) m by (simp add: nth_mem)
  then have "consume_imbalance cells m \<le> int b"
    using footprint_take_Suc [OF m] up lo by (simp add: consume_imbalance_def)
  with consume_closest_least(2) [OF assms(1) m] show ?thesis by simp
qed

text \<open>
  Some split is within the largest cell of an even one: the footprint of the left part grows by at
  most that much a step, from nothing to everything.
\<close>

lemma half_crossing:
  fixes f :: "nat \<Rightarrow> int"
  assumes "f 0 < - b" and "b < f n" and "\<forall>k < n. f (Suc k) \<le> f k + 2 * b" and "0 \<le> b"
  shows "\<exists>k. 1 \<le> k \<and> k < n \<and> \<bar>f k\<bar> \<le> b"
proof -
  define k where "k = (LEAST k. - b \<le> f k)"
  have n: "- b \<le> f n" using assms(2,4) by simp
  then have k: "- b \<le> f k" unfolding k_def by (rule LeastI)
  have "k \<le> n" unfolding k_def using n by (rule Least_le)
  from k assms(1) have "k \<noteq> 0" by (cases k) auto
  then obtain j where j: "k = Suc j" by (cases k) auto
  have "f j < - b" using j not_less_Least [of j "\<lambda>k. - b \<le> f k"] by (simp add: k_def not_le)
  moreover have "f (Suc j) \<le> f j + 2 * b" using assms(3) j \<open>k \<le> n\<close> by simp
  ultimately have "f k \<le> b" using j by simp
  moreover from this assms(2) have "k \<noteq> n" by auto
  ultimately show ?thesis using k \<open>k \<noteq> 0\<close> \<open>k \<le> n\<close> by (intro exI [of _ k]) auto
qed

lemma footprint_pos: "cells \<noteq> [] \<Longrightarrow> 2 \<le> footprint cells"
  by (cases cells) auto

lemma nth_le_footprint: "k < length cells \<Longrightarrow> length (cells ! k) + 2 \<le> footprint cells"
  unfolding footprint_def by (intro elem_le_sum_list [THEN order_trans [rotated]]) auto

lemma closest_to_half_balanced:
  assumes "2 \<le> length cells" and "\<forall>c \<in> set cells. length c + 2 \<le> b" and "b < footprint cells"
  shows "imbalance cells (closest_to_half_by_bytes cells) \<le> int b"
proof -
  let ?f = "\<lambda>k. 2 * int (footprint (take k cells)) - int (footprint cells)"
  have "?f (Suc k) \<le> ?f k + 2 * int b" if "k < length cells" for k
  proof -
    have "length (cells ! k) + 2 \<le> b" using assms(2) that by (simp add: nth_mem)
    with footprint_take_Suc [OF that] show ?thesis by linarith
  qed
  moreover have "?f 0 < - int b" "int b < ?f (length cells)" using assms(3) by simp_all
  ultimately obtain k where "1 \<le> k" "k < length cells" "\<bar>?f k\<bar> \<le> int b"
    using half_crossing [of ?f "int b" "length cells"] by auto
  with closest_to_half_least(3) [OF assms(1), of k] show ?thesis by (auto simp: imbalance_def)
qed

lemma split_cells_shape:
  assumes "2 \<le> length cells" and "length keys = length cells"
  obtains n where "1 \<le> n" and "n < length cells"
    and "split_cells cells keys r = Inr (take n cells, drop n cells, keys ! (n - 1))"
    and "r \<Longrightarrow> n = length cells - 1" and "\<not> r \<Longrightarrow> n = closest_to_half_by_bytes cells"
proof -
  define n where "n = (if r then length cells - 1 else closest_to_half_by_bytes cells)"
  have "1 \<le> n \<and> n < length cells" using closest_to_half_least(1,2) [OF assms(1)] assms(1) by (auto simp: n_def)
  moreover from this have "split_cells cells keys r = Inr (take n cells, drop n cells, keys ! (n - 1))"
    using assms unfolding split_cells_def Let_def n_def [symmetric] by (auto simp: py_get_def)
  ultimately show ?thesis using that [of n] by (simp add: n_def)
qed

section \<open>Properties\<close>

text \<open>
  A leaf split loses, adds and reorders nothing: the halves concatenate to the cells, neither is
  empty, and the separator is the largest key kept on the left, so for ascending keys every key left
  of the split is at most the separator and every key right of it is above. On the rightmost leaf
  only the last cell moves; elsewhere the two halves' footprints differ by at most the largest
  cell's. Fewer than two cells are refused.
\<close>

theorem split_cells_correct:
  fixes keys :: "'k :: linorder list"
  assumes "length keys = length cells"
  shows "case split_cells cells keys is_rightmost of
      Inl e \<Rightarrow> e = ValueError \<and> length cells < 2
    | Inr (left, right, separator) \<Rightarrow>
        left @ right = cells \<and> left \<noteq> [] \<and> right \<noteq> [] \<and> separator = keys ! (length left - 1)
        \<and> (sorted_wrt (<) keys \<longrightarrow> (\<forall>k \<in> set (take (length left) keys). k \<le> separator)
             \<and> (\<forall>k \<in> set (drop (length left) keys). separator < k))
        \<and> (is_rightmost \<longrightarrow> length right = 1)
        \<and> (\<not> is_rightmost \<longrightarrow> (\<forall>b. (\<forall>c \<in> set cells. length c + 2 \<le> b) \<longrightarrow>
             \<bar>int (footprint left) - int (footprint right)\<bar> \<le> int b))"
proof (cases "length cells < 2")
  case False
  then have two: "2 \<le> length cells" by simp
  obtain n where n: "1 \<le> n" "n < length cells" and sp: "split_cells cells keys is_rightmost
      = Inr (take n cells, drop n cells, keys ! (n - 1))" "is_rightmost \<Longrightarrow> n = length cells - 1"
    "\<not> is_rightmost \<Longrightarrow> n = closest_to_half_by_bytes cells"
    using split_cells_shape [OF two assms, of is_rightmost] by metis
  have "k \<le> keys ! (n - 1)" if "sorted_wrt (<) keys" "k \<in> set (take n keys)" for k
  proof -
    from that(2) obtain i where i: "i < n" "k = keys ! i" using n assms by (auto simp: in_set_conv_nth)
    have "n - 1 < length keys" using n assms by linarith
    then have "i < n - 1 \<Longrightarrow> keys ! i < keys ! (n - 1)" by (intro sorted_wrt_nth_less [OF that(1)])
    moreover have "i < n - 1 \<or> i = n - 1" using i(1) n(1) by linarith
    ultimately show ?thesis unfolding i(2) by fastforce
  qed
  moreover have "keys ! (n - 1) < k" if "sorted_wrt (<) keys" "k \<in> set (drop n keys)" for k
    using that n assms by (auto simp: in_set_conv_nth intro!: sorted_wrt_nth_less [OF that(1)])
  moreover have "\<bar>int (footprint (take n cells)) - int (footprint (drop n cells))\<bar> \<le> int b"
    if "\<not> is_rightmost" "\<forall>c \<in> set cells. length c + 2 \<le> b" for b
  proof -
    have "imbalance cells n = \<bar>int (footprint (take n cells)) - int (footprint (drop n cells))\<bar>"
      using footprint_take_drop [of n cells] by (simp add: imbalance_def)
    moreover have "imbalance cells n \<le> int b" if "b < footprint cells"
      using closest_to_half_balanced [OF two _ that] sp(3) \<open>\<not> is_rightmost\<close> \<open>\<forall>c \<in> set cells. length c + 2 \<le> b\<close> by simp
    moreover have "imbalance cells n \<le> int (footprint cells)"
      using footprint_take_drop [of n cells] by (simp add: imbalance_def)
    ultimately show ?thesis by linarith
  qed
  ultimately show ?thesis using sp(1,2) n by (auto simp: min_def)
qed (simp add: split_cells_def)

theorem split_cells_correct_witness:
  "\<exists>left right. split_cells [[1], [2], [3]] [10, 20, 30 :: int] True = Inr (left, right, 20)
     \<and> left @ right = [[1], [2], [3]] \<and> length right = 1"
proof -
  have "split_cells [[1], [2], [3]] [10, 20, 30 :: int] True = Inr ([[1], [2]], [[3]], 20)"
    by (simp add: split_cells_def py_get_def)
  with split_cells_correct [of "[10, 20, 30 :: int]" "[[1], [2], [3]]" True] show ?thesis by auto
qed

text \<open>
  An interior split consumes exactly one cell and no child: both halves keep at least one cell,
  the separator and the consumed child come from the same index, and the children of the two new
  pages, left to right with their right children, are the old page's. Fewer than three cells are
  refused, and nothing else is.
\<close>

theorem split_interior_correct:
  fixes keys :: "'k list"
  assumes "length keys = length cells" and "length children = length cells"
  shows "case split_interior_cells cells keys children right_child is_rightmost of
      Inl e \<Rightarrow> e = ValueError \<and> length cells < 3
    | Inr (left, left_right_child, right, right_right_child, separator) \<Rightarrow>
        (let m = length left in
         left \<noteq> [] \<and> right \<noteq> [] \<and> left @ [cells ! m] @ right = cells \<and> separator = keys ! m
         \<and> take m children @ [left_right_child] @ drop (m + 1) children @ [right_right_child]
             = children @ [right_child])
        \<and> (is_rightmost \<longrightarrow> length right = 1)"
proof (cases "length cells < 3")
  case False
  define m where "m = (if is_rightmost then length cells - 2
      else min (max (consume_closest_to_half_by_bytes cells) 1) (length cells - 2))"
  have m: "1 \<le> m" "m < length cells" "m + 2 \<le> length cells" using False by (auto simp: m_def)
  have "split_interior_cells cells keys children right_child is_rightmost
      = Inr (take m cells, children ! m, drop (m + 1) cells, right_child, keys ! m)"
    using False m assms by (simp add: split_interior_cells_def m_def [symmetric] py_get_def)
  moreover have "take m xs @ [xs ! m] @ drop (m + 1) xs = xs" if "length xs = length cells" for xs :: "'b list"
    using id_take_nth_drop [of m xs] m that by simp
  moreover have "is_rightmost \<Longrightarrow> length (drop (m + 1) cells) = 1" using False by (simp add: m_def)
  ultimately show ?thesis using m assms(2) id_take_nth_drop [of m cells] id_take_nth_drop [of m children]
    by (auto simp: Let_def min_def)
qed (simp add: split_interior_cells_def)

theorem split_interior_correct_witness:
  "\<exists>left lrc right. split_interior_cells [[1], [2], [3], [4]] [10, 20, 30, 40 :: int] [5, 6, 7, 8] 9 True
     = Inr (left, lrc, right, 9, 30) \<and> left @ [[3]] @ right = [[1], [2], [3], [4]] \<and> lrc = 7"
proof -
  have "split_interior_cells [[1], [2], [3], [4]] [10, 20, 30, 40 :: int] [5, 6, 7, 8] 9 True
     = Inr ([[1], [2]], 7, [[4]], 9, 30)"
    by (simp add: split_interior_cells_def py_get_def)
  with split_interior_correct [of "[10, 20, 30, 40 :: int]" "[[1], [2], [3], [4]]" "[5, 6, 7, 8]" 9 True]
  show ?thesis by auto
qed

text \<open>
  The byte-aware split is optimal: no other division of a leaf's cells into two non-empty halves
  is closer to even in serialized footprint.
\<close>

theorem closest_split_optimal:
  assumes "2 \<le> length cells" and "1 \<le> j" and "j < length cells"
  defines "r \<equiv> closest_to_half_by_bytes cells"
  shows "\<bar>int (footprint (take r cells)) - int (footprint (drop r cells))\<bar>
      \<le> \<bar>int (footprint (take j cells)) - int (footprint (drop j cells))\<bar>"
proof -
  have "imbalance cells k = \<bar>int (footprint (take k cells)) - int (footprint (drop k cells))\<bar>" for k
    using footprint_take_drop [of k cells] by (simp add: imbalance_def)
  with closest_to_half_least(3) [OF assms(1-3)] show ?thesis by (simp add: r_def)
qed

theorem closest_split_optimal_witness:
  "\<bar>int (footprint (take 2 [[1], [2], [3]])) - int (footprint (drop 2 [[1], [2], [3]]))\<bar> \<le>
   \<bar>int (footprint (take 1 [[1], [2], [3]])) - int (footprint (drop 1 [[1], [2], [3]]))\<bar>"
proof -
  have "closest_to_half_by_bytes [[1], [2], [3]] = 2" by (simp add: closest_to_half_by_bytes_def upt_rec)
  with closest_split_optimal [of "[[1], [2], [3]]" 1] show ?thesis by simp
qed

end
