(* ===== verification/Effects.thy ===== *)
theory Effects
  imports Prelude
begin

text \<open>
  Stateful code: an operation takes the state and returns a result and the state it leaves. An
  exception is a result too, and the state is the one the code had reached when it was raised.
\<close>

type_synonym ('s, 'a) op = "'s \<Rightarrow> 'a res \<times> 's"

definition ret :: "'a \<Rightarrow> ('s, 'a) op" where
  "ret x s = (Inr x, s)"

definition fail :: "err \<Rightarrow> ('s, 'a) op" where
  "fail e s = (Inl e, s)"

definition bind_op :: "('s, 'a) op \<Rightarrow> ('a \<Rightarrow> ('s, 'b) op) \<Rightarrow> ('s, 'b) op" where
  "bind_op m f s = (case m s of (Inl e, s') \<Rightarrow> (Inl e, s') | (Inr x, s') \<Rightarrow> f x s')"

definition get_st :: "('s, 's) op" where
  "get_st s = (Inr s, s)"

definition modify :: "('s \<Rightarrow> 's) \<Rightarrow> ('s, unit) op" where
  "modify f s = (Inr (), f s)"

text \<open>A result computed without touching the state.\<close>

definition lift_res :: "'a res \<Rightarrow> ('s, 'a) op" where
  "lift_res r s = (r, s)"

definition skip :: "('s, unit) op" where
  "skip = ret ()"

text \<open>\<^verbatim>\<open>if cond: raise e\<close>.\<close>

definition raise_if :: "bool \<Rightarrow> err \<Rightarrow> ('s, unit) op" where
  "raise_if c e = (if c then fail e else skip)"

text \<open>\<^verbatim>\<open>try: body finally: fin\<close>: an exception of \<open>fin\<close> replaces the body's.\<close>

definition finally_op :: "('s, 'a) op \<Rightarrow> ('s, unit) op \<Rightarrow> ('s, 'a) op" where
  "finally_op m fin s =
     (case m s of (r, s') \<Rightarrow> (case fin s' of (Inl e, s'') \<Rightarrow> (Inl e, s'') | (Inr _, s'') \<Rightarrow> (r, s'')))"

fun map_op :: "('a \<Rightarrow> ('s, 'b) op) \<Rightarrow> 'a list \<Rightarrow> ('s, 'b list) op" where
  "map_op f [] = ret []"
| "map_op f (x # xs) = bind_op (f x) (\<lambda>y. bind_op (map_op f xs) (\<lambda>ys. ret (y # ys)))"

fun for_op :: "('a \<Rightarrow> ('s, unit) op) \<Rightarrow> 'a list \<Rightarrow> ('s, unit) op" where
  "for_op f [] = skip"
| "for_op f (x # xs) = bind_op (f x) (\<lambda>_. for_op f xs)"

named_theorems op_simps \<open>evaluation of stateful operations\<close>

lemmas op_basic [op_simps] = ret_def fail_def get_st_def modify_def lift_res_def skip_def raise_if_def

lemma bind_op_run [op_simps]:
  "m s = (Inr x, s') \<Longrightarrow> bind_op m f s = f x s'"
  "m s = (Inl e, s') \<Longrightarrow> bind_op m f s = (Inl e, s')"
  by (simp_all add: bind_op_def)

lemma bind_op_simps [simp]:
  "bind_op (ret x) f s = f x s"
  "bind_op (fail e) f s = (Inl e, s)"
  "bind_op get_st g s = g s s"
  "bind_op (modify h) u s = u () (h s)"
  "bind_op (lift_res (Inr x)) f s = f x s"
  "bind_op (lift_res (Inl e)) f s = (Inl e, s)"
  by (simp_all add: bind_op_def ret_def fail_def get_st_def modify_def lift_res_def)

lemma bind_op_raise_if [simp]:
  "bind_op (raise_if c e) f s = (if c then (Inl e, s) else f () s)"
  by (simp add: raise_if_def skip_def ret_def fail_def bind_op_def)

lemma bind_op_eq_Inr:
  "bind_op m f s = (Inr y, s'') \<longleftrightarrow> (\<exists>x s'. m s = (Inr x, s') \<and> f x s' = (Inr y, s''))"
  by (auto simp: bind_op_def split: prod.splits sum.splits)

lemma bind_op_assoc: "bind_op (bind_op m f) g = bind_op m (\<lambda>x. bind_op (f x) g)"
  by (rule ext) (simp add: bind_op_def split: prod.splits sum.splits)

lemma for_op_snoc: "for_op f (xs @ [x]) s = bind_op (for_op f xs) (\<lambda>_. f x) s"
proof (induction xs arbitrary: s)
  case Nil
  then show ?case by (simp add: bind_op_def skip_def ret_def split: prod.splits sum.splits)
next
  case (Cons y ys)
  then show ?case by (simp add: bind_op_def split: prod.splits sum.splits)
qed

section \<open>Loops that may not end\<close>

text \<open>
  \<^verbatim>\<open>while True\<close> around a body that either returns or goes on with new loop variables. A loop that
  follows pointers read from disk may never return: its value is then \<open>None\<close>.
\<close>

datatype ('a, 'x) ctrl = Return 'a | Continue 'x

type_synonym ('s, 'a) pop = "'s \<Rightarrow> ('a res \<times> 's) option"

partial_function (option) loop_op :: "('x \<Rightarrow> ('s, ('a, 'x) ctrl) op) \<Rightarrow> 'x \<Rightarrow> ('s, 'a) pop" where
  "loop_op body x s =
     (case body x s of
        (Inl e, s') \<Rightarrow> Some (Inl e, s')
      | (Inr (Return y), s') \<Rightarrow> Some (Inr y, s')
      | (Inr (Continue x'), s') \<Rightarrow> loop_op body x' s')"

declare loop_op.simps [code]

definition total_op :: "('s, 'a) op \<Rightarrow> ('s, 'a) pop" where
  "total_op m s = Some (m s)"

definition bind_pop :: "('s, 'a) pop \<Rightarrow> ('a \<Rightarrow> ('s, 'b) pop) \<Rightarrow> ('s, 'b) pop" where
  "bind_pop m f s = (case m s of None \<Rightarrow> None | Some (Inl e, s') \<Rightarrow> Some (Inl e, s') | Some (Inr x, s') \<Rightarrow> f x s')"

lemma loop_op_return: "body x s = (Inr (Return y), s') \<Longrightarrow> loop_op body x s = Some (Inr y, s')"
  by (subst loop_op.simps) simp

lemma loop_op_continue: "body x s = (Inr (Continue x'), s') \<Longrightarrow> loop_op body x s = loop_op body x' s'"
  by (subst loop_op.simps) simp

lemma loop_op_raise: "body x s = (Inl e, s') \<Longrightarrow> loop_op body x s = Some (Inl e, s')"
  by (subst loop_op.simps) simp

lemma bind_pop_run [op_simps]:
  "m s = Some (Inr x, s') \<Longrightarrow> bind_pop m f s = f x s'"
  "m s = Some (Inl e, s') \<Longrightarrow> bind_pop m f s = Some (Inl e, s')"
  by (simp_all add: bind_pop_def)

end
