(* ===== verification/Pager.thy ===== *)
theory Pager
  imports Effects Header Page
begin

text \<open>
  Page-level file access, \<^verbatim>\<open>src/src/quilldb/storage/pager.py\<close>. The database file is the list of its
  bytes; page \<open>n\<close> occupies bytes \<open>(n - 1) * PAGE_SIZE\<close> up to \<open>n * PAGE_SIZE\<close>. The pread/pwrite and
  the locked seek-then-read paths of the code do the same to the bytes and are modelled once.
  The record is extended by the buffer pool's, so every operation here is also one of the pool's state.
\<close>

section \<open>The file\<close>

definition file_write :: "nat \<Rightarrow> bytes \<Rightarrow> bytes \<Rightarrow> bytes" where
  "file_write off d f = take off f @ replicate (off - length f) 0 @ d @ drop (off + length d) f"

definition file_truncate :: "nat \<Rightarrow> bytes \<Rightarrow> bytes" where
  "file_truncate n f = take n f @ replicate (n - length f) 0"

text \<open>\<^verbatim>\<open>data.ljust(PAGE_SIZE, b"\x00")\<close> of the bytes read at the page's offset.\<close>

definition ljust :: "nat \<Rightarrow> bytes \<Rightarrow> bytes" where
  "ljust n d = d @ replicate (n - length d) 0"

definition page_offset :: "nat \<Rightarrow> nat" where
  "page_offset page_id = (page_id - 1) * PAGE_SIZE"

definition file_page :: "bytes \<Rightarrow> nat \<Rightarrow> bytes" where
  "file_page f page_id = ljust PAGE_SIZE (py_slice (page_offset page_id) (page_offset page_id + PAGE_SIZE) f)"

section \<open>The pager\<close>

text \<open>
  \<open>pg_txn\<close> is the transaction hook as the pager reads it: \<open>None\<close> when no transaction is attached,
  otherwise the \<^verbatim>\<open>barrier_passed\<close> flag of the one that is. \<open>pg_jfile\<close> is the rollback journal's file
  (an \<^verbatim>\<open>io.BytesIO\<close> for an in-memory database), \<open>None\<close> when there is none: it belongs to the
  journal's code, and sits here because the pager's state is what survives on disk.
\<close>

record pager =
  pg_path :: "string option"
  pg_file :: bytes
  pg_header :: file_header
  pg_txn :: "bool option"
  pg_jfile :: "bytes option"

text \<open>\<^verbatim>\<open>db_path.with_name(db_path.name + "-journal")\<close>.\<close>

definition journal_path :: "string \<Rightarrow> string" where
  "journal_path path = path @ ''-journal''"

definition page_header_offset :: "nat \<Rightarrow> nat" where
  "page_header_offset page_id = (if page_id = SCHEMA_ROOT_PAGE then FILE_HEADER_SIZE else 0)"

definition bootstrap_page1 :: "(bytes \<times> file_header) res" where
  "bootstrap_page1 =
     bind_res (header_to_bytes default_header) (\<lambda>hb.
     let page1 = py_put 0 FILE_HEADER_SIZE hb (replicate PAGE_SIZE 0);
         page2 = page1[FILE_HEADER_SIZE := word_of_nat (page_type_value LEAF_TABLE)]
     in bind_res (to_bytes 2 PAGE_SIZE) (\<lambda>cs.
          Inr (py_put (FILE_HEADER_SIZE + 5) (FILE_HEADER_SIZE + 7) cs page2, default_header)))"

text \<open>The file system is the map from paths to contents the three constructors see.\<close>

definition pager_create :: "(string \<rightharpoonup> bytes) \<Rightarrow> string \<Rightarrow> pager res" where
  "pager_create fs path =
     (if path \<in> dom fs then Inl FileExistsError
      else bind_res bootstrap_page1 (\<lambda>(page1, header).
        Inr \<lparr>pg_path = Some path, pg_file = page1, pg_header = header, pg_txn = None,
               pg_jfile = fs (journal_path path)\<rparr>))"

definition pager_memory :: "pager res" where
  "pager_memory = bind_res bootstrap_page1 (\<lambda>(page1, header).
     Inr \<lparr>pg_path = None, pg_file = page1, pg_header = header, pg_txn = None, pg_jfile = None\<rparr>)"

definition pager_open :: "(string \<rightharpoonup> bytes) \<Rightarrow> string \<Rightarrow> pager res" where
  "pager_open fs path =
     (case fs path of
        None \<Rightarrow> Inl FileNotFoundError
      | Some file \<Rightarrow>
          bind_res (header_from_bytes (take FILE_HEADER_SIZE file)) (\<lambda>header.
            if length file mod PAGE_SIZE \<noteq> 0 then Inl CorruptDatabaseError
            else if length file < page_count header * PAGE_SIZE then Inl CorruptDatabaseError
            else Inr \<lparr>pg_path = Some path, pg_file = file, pg_header = header, pg_txn = None,
                      pg_jfile = fs (journal_path path)\<rparr>))"

definition pager_page_count :: "('a pager_scheme, nat) op" where
  "pager_page_count s = (Inr (page_count (pg_header s)), s)"

definition bump_schema_cookie :: "('a pager_scheme, nat) op" where
  "bump_schema_cookie s =
     (let c = (schema_cookie (pg_header s) + 1) mod 2 ^ 32
      in (Inr c, s\<lparr>pg_header := (pg_header s)\<lparr>schema_cookie := c\<rparr>\<rparr>))"

definition header_bytes :: "('a pager_scheme, bytes) op" where
  "header_bytes s = (header_to_bytes (pg_header s), s)"

definition reload_header :: "('a pager_scheme, unit) op" where
  "reload_header s =
     (case header_from_bytes (take FILE_HEADER_SIZE (pg_file s)) of
        Inl e \<Rightarrow> (Inl e, s)
      | Inr h \<Rightarrow> (Inr (), s\<lparr>pg_header := h\<rparr>))"

definition read_page :: "nat \<Rightarrow> ('a pager_scheme, bytes) op" where
  "read_page page_id s =
     (if page_id < 1 \<or> page_count (pg_header s) < page_id then (Inl PageOutOfRangeError, s)
      else (Inr (file_page (pg_file s) page_id), s))"

text \<open>The assertion that no page is written before the journal is valid comes first.\<close>

definition write_page :: "nat \<Rightarrow> bytes \<Rightarrow> ('a pager_scheme, unit) op" where
  "write_page page_id data s =
     (if pg_txn s = Some False then (Inl AssertionError, s)
      else if page_id < 1 \<or> page_count (pg_header s) < page_id then (Inl PageOutOfRangeError, s)
      else if length data \<noteq> PAGE_SIZE then (Inl ValueError, s)
      else (Inr (), s\<lparr>pg_file := file_write (page_offset page_id) data (pg_file s)\<rparr>))"

text \<open>\<^verbatim>\<open>_allocate_page\<close> and \<^verbatim>\<open>_free_page\<close>: the one-level freelist without the pool.\<close>

definition pager_allocate_page :: "('a pager_scheme, nat) op" where
  "pager_allocate_page s =
     (if freelist_trunk (pg_header s) \<noteq> 0 then
        let page_id = freelist_trunk (pg_header s) in
        bind_op (read_page page_id) (\<lambda>data s.
          let h = pg_header s in
          (Inr page_id, s\<lparr>pg_header := h\<lparr>freelist_trunk := be_decode (take 4 data),
                                         freelist_count := freelist_count h - 1\<rparr>\<rparr>)) s
      else
        let page_id = page_count (pg_header s) + 1;
            s' = s\<lparr>pg_header := (pg_header s)\<lparr>page_count := page_id\<rparr>\<rparr>
        in bind_op (write_page page_id (replicate PAGE_SIZE 0)) (\<lambda>_. ret page_id) s')"

definition pager_free_page :: "nat \<Rightarrow> ('a pager_scheme, unit) op" where
  "pager_free_page page_id s =
     (if page_id = 1 then (Inl ValueError, s)
      else if page_id < 1 \<or> page_count (pg_header s) < page_id then (Inl PageOutOfRangeError, s)
      else bind_op (lift_res (to_bytes 4 (freelist_trunk (pg_header s)))) (\<lambda>nxt.
           bind_op (write_page page_id (py_put 0 4 nxt (replicate PAGE_SIZE 0))) (\<lambda>_ s.
             let h = pg_header s in
             (Inr (), s\<lparr>pg_header := h\<lparr>freelist_trunk := page_id, freelist_count := freelist_count h + 1\<rparr>\<rparr>))) s)"

text \<open>\<^verbatim>\<open>close\<close>: the header goes to the start of the file; the result is the file left behind.\<close>

definition pager_close :: "('a pager_scheme, bytes) op" where
  "pager_close = bind_op header_bytes (\<lambda>hb s.
     let f = file_write 0 hb (pg_file s) in (Inr f, s\<lparr>pg_file := f\<rparr>))"

definition pager_truncate :: "nat \<Rightarrow> ('a pager_scheme, unit) op" where
  "pager_truncate n s =
     (if n < 1 then (Inl ValueError, s)
      else (Inr (), s\<lparr>pg_file := file_truncate (n * PAGE_SIZE) (pg_file s),
              pg_header := (pg_header s)\<lparr>page_count := n, freelist_count := 0, freelist_trunk := 0\<rparr>\<rparr>))"

definition restore_page :: "nat \<Rightarrow> bytes \<Rightarrow> ('a pager_scheme, unit) op" where
  "restore_page page_id data s =
     (if page_id < 1 then (Inl PageOutOfRangeError, s)
      else if length data \<noteq> PAGE_SIZE then (Inl ValueError, s)
      else (Inr (), s\<lparr>pg_file := file_write (page_offset page_id) data (pg_file s)\<rparr>))"

section \<open>Pages of the file\<close>

lemma length_file_page [simp]: "length (file_page f p) = PAGE_SIZE"
  by (simp add: file_page_def ljust_def)

lemma PAGE_SIZE_pos [simp]: "0 < PAGE_SIZE"
  by (simp add: PAGE_SIZE_def)

text \<open>A page as the zero-padded window of the file: byte \<open>i\<close> of page \<open>p\<close>.\<close>

definition file_byte :: "bytes \<Rightarrow> nat \<Rightarrow> byte" where
  "file_byte f i = (if i < length f then f ! i else 0)"

lemma file_page_nth:
  assumes "i < PAGE_SIZE"
  shows "file_page f p ! i = file_byte f (page_offset p + i)"
  using assms by (auto simp: file_page_def ljust_def file_byte_def py_slice_def nth_append)

lemma file_page_eqI:
  assumes "\<And>i. i < PAGE_SIZE \<Longrightarrow> file_byte f (page_offset p + i) = d ! i" and "length d = PAGE_SIZE"
  shows "file_page f p = d"
  by (rule nth_equalityI) (simp_all add: assms file_page_nth)

lemma file_byte_write:
  "file_byte (file_write off d f) i =
     (if off \<le> i \<and> i < off + length d then d ! (i - off) else file_byte f i)"
proof -
  have "min (length f) off + (off - length f) = off" by simp
  then have pre: "length (take off f @ replicate (off - length f) 0) = off" by simp
  have "file_write off d f = (take off f @ replicate (off - length f) 0) @ d @ drop (off + length d) f"
    by (simp add: file_write_def)
  then show ?thesis
    unfolding file_byte_def using pre by (auto simp: nth_append)
qed

lemma file_byte_truncate: "i < n \<Longrightarrow> file_byte (file_truncate n f) i = file_byte f i"
  by (auto simp: file_byte_def file_truncate_def nth_append)

lemma page_offset_disjoint:
  assumes "p \<noteq> q" and "1 \<le> p" and "1 \<le> q" and "i < PAGE_SIZE"
  shows "\<not> (page_offset q \<le> page_offset p + i \<and> page_offset p + i < page_offset q + PAGE_SIZE)"
proof
  assume a: "page_offset q \<le> page_offset p + i \<and> page_offset p + i < page_offset q + PAGE_SIZE"
  then have "((p - 1) * PAGE_SIZE + i) div PAGE_SIZE = q - 1"
    by (intro div_nat_eqI) (auto simp: page_offset_def algebra_simps)
  moreover have "((p - 1) * PAGE_SIZE + i) div PAGE_SIZE = p - 1" using assms(4) by simp
  ultimately show False using assms(1-3) by simp
qed

lemma file_page_write:
  assumes "length d = PAGE_SIZE" and "1 \<le> p" and "1 \<le> q"
  shows "file_page (file_write (page_offset q) d f) p = (if p = q then d else file_page f p)"
proof (rule file_page_eqI)
  fix i assume "i < PAGE_SIZE"
  then show "file_byte (file_write (page_offset q) d f) (page_offset p + i)
      = (if p = q then d else file_page f p) ! i"
    using page_offset_disjoint [of p q i] assms by (auto simp: file_byte_write file_page_nth)
qed (simp add: assms)

lemma file_page_truncate:
  assumes "1 \<le> p" and "p \<le> n"
  shows "file_page (file_truncate (n * PAGE_SIZE) f) p = file_page f p"
proof (rule file_page_eqI)
  fix i assume "i < PAGE_SIZE"
  have "(p - 1) * PAGE_SIZE + PAGE_SIZE \<le> n * PAGE_SIZE"
    using assms by (metis add.commute le_add_diff_inverse2 mult_Suc mult_le_mono1 plus_1_eq_Suc)
  then have "page_offset p + i < n * PAGE_SIZE" using \<open>i < PAGE_SIZE\<close> by (simp add: page_offset_def)
  then show "file_byte (file_truncate (n * PAGE_SIZE) f) (page_offset p + i) = file_page f p ! i"
    using \<open>i < PAGE_SIZE\<close> by (simp add: file_byte_truncate file_page_nth)
qed simp

lemma length_file_truncate [simp]: "length (file_truncate n f) = n"
  by (simp add: file_truncate_def)

section \<open>The bootstrap page\<close>

lemma bootstrap_page1_shape:
  obtains hb where "header_to_bytes default_header = Inr hb" and "length hb = 100"
    and "bootstrap_page1 = Inr (hb @ [13, 0, 0, 0, 0, 16, 0, 0] @ replicate 3988 0, default_header)"
proof -
  have ok: "header_ok default_header" by (simp add: header_eval)
  obtain hb where hb: "header_to_bytes default_header = Inr hb" using header_parts [OF ok] by metis
  have len: "length hb = 100" using header_reread(1) [OF ok hb] .
  have z: "replicate 3996 0 = [0, 0, 0, 0, 0, 0, 0, 0] @ replicate 3988 (0::byte)"
    using replicate_add [of 8 3988 "0::byte"] by (simp add: numeral_eq_Suc [of "num.Bit0 (num.Bit0 num.One)"] eval_nat_numeral(2,3))
  have two: "be_encode (Suc (Suc 0)) 4096 = [16, 0]" by simp
  have tb: "to_bytes 2 PAGE_SIZE = Inr [16, 0]"
    using two by (simp add: to_bytes_def PAGE_SIZE_def flip: numeral_2_eq_2)
  have "bootstrap_page1 = Inr (hb @ [13, 0, 0, 0, 0, 16, 0, 0] @ replicate 3988 0, default_header)"
    using len z tb
    by (simp add: bootstrap_page1_def hb Let_def FILE_HEADER_SIZE_def PAGE_SIZE_def py_put_def list_update_append)
  with that hb len show ?thesis by blast
qed

lemma bootstrap_parses:
  assumes "length hb = 100"
  shows "parse_page (hb @ [13, 0, 0, 0, 0, 16, 0, 0] @ rest) 100
    = Inr \<lparr>pb_type = LEAF_TABLE, pb_cells = [], pb_right_child = 0, pb_header_offset = 100\<rparr>"
  using assms
  by (simp add: parse_page_def py_get_def nth_append page_type_of_def py_slice_def be_decode_def PAGE_SIZE_def
      header_size_eq is_leaf_def)

section \<open>Properties\<close>

text \<open>
  A page written is the page read back, every other page reads as before, and a page in range that
  no write ever reached reads as a whole page of zeros rather than a short one.
\<close>

theorem pager_read_write:
  assumes "write_page q d s = (Inr (), s')"
  shows "read_page q s' = (Inr d, s')
    \<and> (\<forall>p. p \<noteq> q \<longrightarrow> fst (read_page p s') = fst (read_page p s)) \<and> pg_header s' = pg_header s
    \<and> (\<forall>p. 1 \<le> p \<and> p \<le> page_count (pg_header s) \<and> length (pg_file s) \<le> page_offset p
         \<longrightarrow> fst (read_page p s) = Inr (replicate PAGE_SIZE 0))"
proof -
  from assms have q: "1 \<le> q" "q \<le> page_count (pg_header s)" "length d = PAGE_SIZE"
    and s': "s' = s\<lparr>pg_file := file_write (page_offset q) d (pg_file s)\<rparr>"
    by (auto simp: write_page_def split: if_splits)
  have "file_page (pg_file s) p = replicate PAGE_SIZE 0" if "length (pg_file s) \<le> page_offset p" for p
    using that by (intro file_page_eqI) (simp_all add: file_byte_def)
  with q show ?thesis by (auto simp: s' read_page_def file_page_write)
qed

theorem pager_read_write_witness:
  "\<exists>s'. write_page 1 (replicate 4096 7)
       \<lparr>pg_path = None, pg_file = [], pg_header = default_header, pg_txn = None, pg_jfile = None\<rparr> = (Inr (), s')
     \<and> read_page 1 s' = (Inr (replicate 4096 7), s')"
proof -
  let ?s = "\<lparr>pg_path = None, pg_file = [], pg_header = default_header, pg_txn = None, pg_jfile = None\<rparr>"
  have w: "write_page 1 (replicate 4096 7) ?s
      = (Inr (), ?s\<lparr>pg_file := file_write (page_offset 1) (replicate 4096 7) []\<rparr>)"
    by (simp add: write_page_def default_header_def PAGE_SIZE_def)
  show ?thesis using w pager_read_write [OF w] by blast
qed

text \<open>
  A database that was just created opens again: the file \<^verbatim>\<open>create\<close> writes is one whole page
  whose header parses to the pager's own, and its schema root parses as an empty table leaf; creating
  over an existing file and opening a missing one are refused.
\<close>

theorem create_then_open:
  "case pager_create fs path of
     Inr p \<Rightarrow> path \<notin> dom fs \<and> length (pg_file p) = PAGE_SIZE
       \<and> pager_open (fs(path \<mapsto> pg_file p)) path = Inr p
       \<and> parse_page (pg_file p) (page_header_offset 1)
           = Inr \<lparr>pb_type = LEAF_TABLE, pb_cells = [], pb_right_child = 0, pb_header_offset = FILE_HEADER_SIZE\<rparr>
   | Inl e \<Rightarrow> e = FileExistsError \<and> path \<in> dom fs"
proof -
  obtain hb where hb: "header_to_bytes default_header = Inr hb" "length hb = 100"
    "bootstrap_page1 = Inr (hb @ [13, 0, 0, 0, 0, 16, 0, 0] @ replicate 3988 0, default_header)"
    using bootstrap_page1_shape by metis
  have "header_ok default_header" by (simp add: header_eval)
  from header_reread(2) [OF this hb(1), of "[]"] have "header_from_bytes hb = Inr default_header" by simp
  moreover have "page_count default_header = 1" by (simp add: default_header_def)
  ultimately show ?thesis
    using hb(2) bootstrap_parses [OF hb(2), of "replicate 3988 0"]
    by (cases "path \<in> dom fs")
      (simp_all add: pager_create_def hb(3) pager_open_def FILE_HEADER_SIZE_def PAGE_SIZE_def
        page_header_offset_def SCHEMA_ROOT_PAGE_def journal_path_def)
qed

text \<open>
  Freeing a page and allocating again returns the page just freed and restores the freelist
  pointer and count: the pager's freelist is last-in, first-out, and it never touches page 1.
\<close>

theorem pager_free_then_allocate:
  assumes "pager_free_page p s = (Inr (), s')"
  shows "1 < p \<and> fst (pager_allocate_page s') = Inr p
    \<and> freelist_trunk (pg_header (snd (pager_allocate_page s'))) = freelist_trunk (pg_header s)
    \<and> freelist_count (pg_header (snd (pager_allocate_page s'))) = freelist_count (pg_header s)
    \<and> page_count (pg_header (snd (pager_allocate_page s'))) = page_count (pg_header s)"
proof -
  let ?h = "pg_header s"
  define d where "d = py_put 0 4 (be_encode 4 (freelist_trunk ?h)) (replicate PAGE_SIZE 0)"
  from assms obtain s1 where p: "1 < p" "p \<le> page_count ?h" and t: "freelist_trunk ?h < 256 ^ 4"
    and w: "write_page p d s = (Inr (), s1)"
    and s': "s' = s1\<lparr>pg_header := (pg_header s1)\<lparr>freelist_trunk := p, freelist_count := freelist_count (pg_header s1) + 1\<rparr>\<rparr>"
    by (auto simp: pager_free_page_def bind_op_eq_Inr lift_res_def to_bytes_eq_Inr d_def Let_def split: if_splits)
  from w p have d: "length d = PAGE_SIZE" and s1: "s1 = s\<lparr>pg_file := file_write (page_offset p) d (pg_file s)\<rparr>"
    by (auto simp: write_page_def split: if_splits)
  have "file_page (pg_file s1) p = d" using d p by (simp add: s1 file_page_write)
  moreover have "take 4 d = be_encode 4 (freelist_trunk ?h)" by (simp add: d_def py_put_def)
  ultimately show ?thesis
    using p t by (simp add: pager_allocate_page_def s' s1 read_page_def bind_op_def Let_def)
qed

theorem pager_free_then_allocate_witness:
  "\<exists>s'. pager_free_page 2 \<lparr>pg_path = None, pg_file = [], pg_header = default_header\<lparr>page_count := 2\<rparr>, pg_txn = None, pg_jfile = None\<rparr>
       = (Inr (), s') \<and> fst (pager_allocate_page s') = Inr 2"
proof -
  let ?s = "\<lparr>pg_path = None, pg_file = [], pg_header = default_header\<lparr>page_count := 2\<rparr>, pg_txn = None, pg_jfile = None\<rparr>"
  have "fst (pager_free_page 2 ?s) = Inr ()"
    by (simp add: pager_free_page_def write_page_def default_header_def to_bytes_def bind_op_def lift_res_def
        PAGE_SIZE_def py_put_def Let_def)
  then obtain s' where s': "pager_free_page 2 ?s = (Inr (), s')" by (metis prod.collapse)
  show ?thesis using s' pager_free_then_allocate [OF s'] by blast
qed

end
