(* ===== verification/Journal.thy ===== *)
theory Journal
  imports Pager
begin

text \<open>
  The rollback journal, \<^verbatim>\<open>src/src/quilldb/txn/journal.py\<close>: its header and record format, the sampled
  checksum, and replay. The calls to fsync only order the writes and leave no trace in the bytes.
  The lemmas show that replay restores exactly the recorded pages once the barrier has made the
  journal valid, nothing before, and that a record whose checksum fails ends it.
\<close>

section \<open>Definitions\<close>

definition checksum_indices :: "nat list" where
  "checksum_indices = map (\<lambda>k. PAGE_SIZE - 200 - 200 * k) [0..<(PAGE_SIZE - 200) div 200 + 1]"

definition journal_checksum :: "bytes \<Rightarrow> nat \<Rightarrow> nat res" where
  "journal_checksum page nonce =
     bind_res (map_res (py_get page) checksum_indices) (\<lambda>samples.
       Inr ((nonce + sum_list (map unat samples)) AND 0xFFFFFFFF))"

text \<open>The \<^verbatim>\<open>Journal\<close> object beside its file: the nonce and the number of records appended.\<close>

record journal =
  j_nonce :: nat
  j_nrec :: nat

text \<open>
  \<^verbatim>\<open>begin\<close> opens with exclusive create; the nonce is \<^verbatim>\<open>random.getrandbits(32)\<close>, an argument here.
\<close>

definition journal_header :: "nat \<Rightarrow> nat \<Rightarrow> bytes res" where
  "journal_header nonce page_count_before =
     bind_res (to_bytes 4 nonce) (\<lambda>n.
     bind_res (to_bytes 4 page_count_before) (\<lambda>c.
     bind_res (to_bytes 4 SECTOR_SIZE) (\<lambda>ss.
     bind_res (to_bytes 4 PAGE_SIZE) (\<lambda>ps.
       Inr (py_put 24 28 ps (py_put 20 24 ss (py_put 16 20 c (py_put 12 16 n (replicate SECTOR_SIZE 0)))))))))"

definition journal_begin :: "nat \<Rightarrow> nat \<Rightarrow> ('a pager_scheme, journal) op" where
  "journal_begin nonce page_count_before s =
     (if pg_path s \<noteq> None \<and> pg_jfile s \<noteq> None then (Inl FileExistsError, s)
      else bind_op (modify (pg_jfile_update (\<lambda>_. Some []))) (\<lambda>_.
           bind_op (lift_res (journal_header nonce page_count_before)) (\<lambda>header.
           bind_op (modify (pg_jfile_update (\<lambda>_. Some header))) (\<lambda>_.
             ret \<lparr>j_nonce = nonce, j_nrec = 0\<rparr>))) s)"

definition append_jfile :: "bytes \<Rightarrow> ('a pager_scheme, unit) op" where
  "append_jfile d s = (Inr (), s\<lparr>pg_jfile := map_option (\<lambda>f. f @ d) (pg_jfile s)\<rparr>)"

definition record_original :: "journal \<Rightarrow> nat \<Rightarrow> bytes \<Rightarrow> ('a pager_scheme, journal) op" where
  "record_original j page_id data s =
     (if pg_jfile s = None then (Inl AssertionError, s)
      else if length data \<noteq> PAGE_SIZE then (Inl ValueError, s)
      else bind_op (lift_res (to_bytes 4 page_id)) (\<lambda>p.
           bind_op (append_jfile p) (\<lambda>_.
           bind_op (append_jfile data) (\<lambda>_.
           bind_op (lift_res (bind_res (journal_checksum data (j_nonce j)) (to_bytes 4))) (\<lambda>c.
           bind_op (append_jfile c) (\<lambda>_.
             ret (j\<lparr>j_nrec := j_nrec j + 1\<rparr>)))))) s)"

definition journal_exists :: "'a pager_scheme \<Rightarrow> bool" where
  "journal_exists s \<longleftrightarrow> pg_path s \<noteq> None \<and> pg_jfile s \<noteq> None"

definition is_hot :: "bytes \<Rightarrow> bool" where
  "is_hot f \<longleftrightarrow> py_slice 0 8 (take 12 f) = JOURNAL_MAGIC \<and> 0 < be_decode (py_slice 8 12 (take 12 f))"

definition journal_page_count_before :: "bytes \<Rightarrow> nat" where
  "journal_page_count_before f = be_decode (py_slice 16 20 f)"

definition commit_barrier :: "journal \<Rightarrow> ('a pager_scheme, unit) op" where
  "commit_barrier j s =
     (case pg_jfile s of
        None \<Rightarrow> (Inl AssertionError, s)
      | Some f \<Rightarrow> bind_op (lift_res (to_bytes 4 (j_nrec j))) (\<lambda>n s.
          (Inr (), s\<lparr>pg_jfile := Some (file_write 0 (JOURNAL_MAGIC @ n) f)\<rparr>)) s)"

definition record_size :: nat where
  "record_size = 4 + PAGE_SIZE + 4"

fun replay_records :: "bytes \<Rightarrow> nat \<Rightarrow> nat \<Rightarrow> nat \<Rightarrow> ('a pager_scheme, nat) op" where
  "replay_records f nonce i 0 = ret 0"
| "replay_records f nonce i (Suc n) =
     (let record_offset = SECTOR_SIZE + i * record_size;
          record_data = py_slice record_offset (record_offset + record_size) f;
          page_id = be_decode (py_slice 0 4 record_data);
          data = py_slice 4 (4 + PAGE_SIZE) record_data;
          stored_checksum = be_decode (py_slice (4 + PAGE_SIZE) (4 + PAGE_SIZE + 4) record_data)
      in bind_op (lift_res (journal_checksum data nonce)) (\<lambda>c.
           if c \<noteq> stored_checksum then ret 0
           else bind_op (restore_page page_id data) (\<lambda>_.
                bind_op (replay_records f nonce (Suc i) n) (\<lambda>restored_count. ret (Suc restored_count)))))"

definition journal_replay :: "('a pager_scheme, nat) op" where
  "journal_replay s =
     (case pg_jfile s of
        None \<Rightarrow> (Inl AssertionError, s)
      | Some f \<Rightarrow>
          let header = take SECTOR_SIZE f;
              nrec = be_decode (py_slice 8 12 header)
          in if py_slice 0 8 header \<noteq> JOURNAL_MAGIC then (Inr 0, s)
             else if nrec = 0 then (Inr 0, s)
             else replay_records f (be_decode (py_slice 12 16 header)) 0 nrec s)"

definition journal_delete :: "('a pager_scheme, unit) op" where
  "journal_delete s =
     (if pg_jfile s = None then (Inl AssertionError, s) else (Inr (), s\<lparr>pg_jfile := None\<rparr>))"

section \<open>The journal a transaction builds\<close>

text \<open>
  The bytes of a journal holding the page images \<open>rs\<close>, before (\<open>magic\<close> all zeros) and after the
  barrier.
\<close>

type_synonym page_image = "nat \<times> bytes"

definition image_ok :: "page_image \<Rightarrow> bool" where
  "image_ok r \<longleftrightarrow> 1 \<le> fst r \<and> fst r < 2 ^ 32 \<and> length (snd r) = PAGE_SIZE"

definition checksum_of :: "nat \<Rightarrow> bytes \<Rightarrow> nat" where
  "checksum_of nonce d = (nonce + sum_list (map (\<lambda>i. unat (d ! i)) checksum_indices)) mod 2 ^ 32"

definition record_bytes :: "nat \<Rightarrow> page_image \<Rightarrow> bytes" where
  "record_bytes nonce r = be_encode 4 (fst r) @ snd r @ be_encode 4 (checksum_of nonce (snd r))"

definition header_tail :: "nat \<Rightarrow> nat \<Rightarrow> bytes" where
  "header_tail nonce pcb = be_encode 4 nonce @ be_encode 4 pcb @ be_encode 4 SECTOR_SIZE @ be_encode 4 PAGE_SIZE
     @ replicate (SECTOR_SIZE - 28) 0"

definition journal_bytes :: "bytes \<Rightarrow> nat \<Rightarrow> nat \<Rightarrow> page_image list \<Rightarrow> bytes" where
  "journal_bytes lead nonce pcb rs = lead @ header_tail nonce pcb @ concat (map (record_bytes nonce) rs)"

definition unsealed :: bytes where
  "unsealed = replicate 12 0"

definition sealed :: "nat \<Rightarrow> bytes" where
  "sealed n = JOURNAL_MAGIC @ be_encode 4 n"

lemma checksum_indices_less: "i \<in> set checksum_indices \<Longrightarrow> i < PAGE_SIZE"
  by (auto simp: checksum_indices_def PAGE_SIZE_def)

lemma and_32: "(n::nat) AND 0xFFFFFFFF = n mod 2 ^ 32"
  using take_bit_eq_mask [of 32 n] by (simp add: take_bit_eq_mod mask_eq_exp_minus_1)

lemma journal_checksum_page:
  assumes "length d = PAGE_SIZE"
  shows "journal_checksum d nonce = Inr (checksum_of nonce d)"
proof -
  have "map_res (py_get d) checksum_indices = Inr (map (\<lambda>i. d ! i) checksum_indices)"
    using assms checksum_indices_less by (intro map_res_Inr) (simp add: py_get_def)
  then show ?thesis by (simp add: journal_checksum_def and_32 checksum_of_def comp_def)
qed

lemma checksum_of_less: "checksum_of nonce d < 2 ^ 32"
  by (simp add: checksum_of_def)

lemma lengths_journal [simp]:
  "length JOURNAL_MAGIC = 8" "length unsealed = 12" "length (sealed n) = 12"
  "length (header_tail nonce pcb) = 500"
  by (simp_all add: JOURNAL_MAGIC_def unsealed_def sealed_def header_tail_def SECTOR_SIZE_def)

lemma length_record_bytes: "image_ok r \<Longrightarrow> length (record_bytes nonce r) = record_size"
  by (simp add: record_bytes_def record_size_def image_ok_def)

lemma journal_header_eq:
  assumes "nonce < 2 ^ 32" and "pcb < 2 ^ 32"
  shows "journal_header nonce pcb = Inr (unsealed @ header_tail nonce pcb)"
proof -
  define ss ps where "ss = be_encode 4 SECTOR_SIZE" and "ps = be_encode 4 PAGE_SIZE"
  have tb: "to_bytes 4 SECTOR_SIZE = Inr ss" "to_bytes 4 PAGE_SIZE = Inr ps"
    by (simp_all add: to_bytes_def ss_def ps_def SECTOR_SIZE_def PAGE_SIZE_def)
  have len: "length ss = 4" "length ps = 4" by (simp_all add: ss_def ps_def)
  define z :: "nat \<Rightarrow> bytes" where "z n = replicate n 0" for n
  have lz: "length (z n) = n" for n by (simp add: z_def)
  have "replicate SECTOR_SIZE 0 = z 12 @ z 4 @ z 4 @ z 4 @ z 4 @ z 484"
    unfolding z_def SECTOR_SIZE_def by (simp add: replicate_add [symmetric])
  moreover have "py_put 24 28 ps (py_put 20 24 ss (py_put 16 20 (be_encode 4 pcb) (py_put 12 16 (be_encode 4 nonce)
      (z 12 @ z 4 @ z 4 @ z 4 @ z 4 @ z 484)))) = z 12 @ be_encode 4 nonce @ be_encode 4 pcb @ ss @ ps @ z 484"
    using py_put_prefix [of "z 12" 12 "z 4" 16 "be_encode 4 nonce" "z 4 @ z 4 @ z 4 @ z 484"]
      py_put_prefix [of "z 12 @ be_encode 4 nonce" 16 "z 4" 20 "be_encode 4 pcb" "z 4 @ z 4 @ z 484"]
      py_put_prefix [of "z 12 @ be_encode 4 nonce @ be_encode 4 pcb" 20 "z 4" 24 ss "z 4 @ z 484"]
      py_put_prefix [of "z 12 @ be_encode 4 nonce @ be_encode 4 pcb @ ss" 24 "z 4" 28 ps "z 484"]
    by (simp add: lz len)
  moreover have "to_bytes 4 nonce = Inr (be_encode 4 nonce)" "to_bytes 4 pcb = Inr (be_encode 4 pcb)"
    using assms by (simp_all add: to_bytes_def)
  ultimately show ?thesis
    by (simp add: journal_header_def tb) (simp add: header_tail_def unsealed_def z_def ss_def ps_def SECTOR_SIZE_def)
qed

lemma journal_begin_fresh:
  assumes "pg_path s = None \<or> pg_jfile s = None" and "nonce < 2 ^ 32" and "pcb < 2 ^ 32"
  shows "journal_begin nonce pcb s =
    (Inr \<lparr>j_nonce = nonce, j_nrec = 0\<rparr>, s\<lparr>pg_jfile := Some (journal_bytes unsealed nonce pcb [])\<rparr>)"
  using assms by (auto simp: journal_begin_def journal_header_eq journal_bytes_def ret_def)

lemma record_original_append:
  assumes "pg_jfile s = Some (journal_bytes lead (j_nonce j) pcb rs)" and "image_ok (p, d)"
  shows "record_original j p d s =
    (Inr (j\<lparr>j_nrec := j_nrec j + 1\<rparr>), s\<lparr>pg_jfile := Some (journal_bytes lead (j_nonce j) pcb (rs @ [(p, d)]))\<rparr>)"
  using assms checksum_of_less [of "j_nonce j" d]
  by (simp add: record_original_def image_ok_def to_bytes_def journal_checksum_page bind_op_def append_jfile_def
      lift_res_def ret_def journal_bytes_def record_bytes_def)

lemma commit_barrier_seals:
  assumes "pg_jfile s = Some (journal_bytes unsealed nonce pcb rs)" and "j_nrec j < 2 ^ 32"
  shows "commit_barrier j s = (Inr (), s\<lparr>pg_jfile := Some (journal_bytes (sealed (j_nrec j)) nonce pcb rs)\<rparr>)"
  using assms by (simp add: commit_barrier_def to_bytes_def journal_bytes_def sealed_def file_write_def)

section \<open>Reading it back\<close>

lemma journal_parts:
  assumes "length lead = 12"
  shows "py_slice 0 8 (take SECTOR_SIZE (journal_bytes lead nonce pcb rs)) = take 8 lead"
    and "py_slice 8 12 (take SECTOR_SIZE (journal_bytes lead nonce pcb rs)) = drop 8 lead"
    and "nonce < 2 ^ 32 \<Longrightarrow> be_decode (py_slice 12 16 (take SECTOR_SIZE (journal_bytes lead nonce pcb rs))) = nonce"
    and "pcb < 2 ^ 32 \<Longrightarrow> journal_page_count_before (journal_bytes lead nonce pcb rs) = pcb"
    and "take 12 (journal_bytes lead nonce pcb rs) = lead"
proof -
  have t: "take SECTOR_SIZE (journal_bytes lead nonce pcb rs) = lead @ header_tail nonce pcb"
    using assms by (simp add: journal_bytes_def SECTOR_SIZE_def)
  show "py_slice 0 8 (take SECTOR_SIZE (journal_bytes lead nonce pcb rs)) = take 8 lead"
    "py_slice 8 12 (take SECTOR_SIZE (journal_bytes lead nonce pcb rs)) = drop 8 lead"
    unfolding t using assms by (simp_all add: py_slice_def)
  show "take 12 (journal_bytes lead nonce pcb rs) = lead" using assms by (simp add: journal_bytes_def)
  show "be_decode (py_slice 12 16 (take SECTOR_SIZE (journal_bytes lead nonce pcb rs))) = nonce" if "nonce < 2 ^ 32"
    unfolding t header_tail_def using assms that py_slice_prefix [of lead 12 "be_encode 4 nonce" 16] by simp
  show "journal_page_count_before (journal_bytes lead nonce pcb rs) = pcb" if "pcb < 2 ^ 32"
    unfolding journal_page_count_before_def journal_bytes_def header_tail_def
    using assms that py_slice_prefix [of "lead @ be_encode 4 nonce" 16 "be_encode 4 pcb" 20] by simp
qed

lemma journal_record_at:
  assumes "length lead = 12" and "\<forall>r \<in> set rs. image_ok r" and "i < length rs"
  shows "py_slice (SECTOR_SIZE + i * record_size) (SECTOR_SIZE + i * record_size + record_size)
      (journal_bytes lead nonce pcb rs) = record_bytes nonce (rs ! i)"
proof -
  have len: "length (concat (map (record_bytes nonce) xs)) = length xs * record_size" if "set xs \<subseteq> set rs" for xs
    using that assms(2) by (induction xs) (auto simp: length_record_bytes)
  have rs: "rs = take i rs @ rs ! i # drop (Suc i) rs" using assms(3) by (simp add: id_take_nth_drop)
  have "concat (map (record_bytes nonce) rs) = concat (map (record_bytes nonce) (take i rs))
      @ record_bytes nonce (rs ! i) @ concat (map (record_bytes nonce) (drop (Suc i) rs))"
    by (subst rs) simp
  moreover define pre where "pre = lead @ header_tail nonce pcb @ concat (map (record_bytes nonce) (take i rs))"
  ultimately have "journal_bytes lead nonce pcb rs
      = pre @ record_bytes nonce (rs ! i) @ concat (map (record_bytes nonce) (drop (Suc i) rs))"
    by (simp add: journal_bytes_def)
  moreover have "length pre = SECTOR_SIZE + i * record_size"
    using assms(1,3) len [of "take i rs"] set_take_subset [of i rs] by (simp add: SECTOR_SIZE_def pre_def)
  moreover have "length (record_bytes nonce (rs ! i)) = record_size"
    using assms(2,3) by (simp add: length_record_bytes)
  ultimately show ?thesis by (simp add: py_slice_prefix)
qed

lemma record_bytes_parts:
  assumes "image_ok r"
  shows "be_decode (py_slice 0 4 (record_bytes nonce r)) = fst r"
    and "py_slice 4 (4 + PAGE_SIZE) (record_bytes nonce r) = snd r"
    and "be_decode (py_slice (4 + PAGE_SIZE) (4 + PAGE_SIZE + 4) (record_bytes nonce r)) = checksum_of nonce (snd r)"
proof -
  have r: "fst r < 256 ^ 4" "length (snd r) = PAGE_SIZE" using assms by (auto simp: image_ok_def)
  show "be_decode (py_slice 0 4 (record_bytes nonce r)) = fst r"
    using r(1) py_slice_prefix [of "[]" 0 "be_encode 4 (fst r)" 4] by (simp add: record_bytes_def)
  show "py_slice 4 (4 + PAGE_SIZE) (record_bytes nonce r) = snd r"
    using r(2) by (simp add: record_bytes_def py_slice_prefix)
  show "be_decode (py_slice (4 + PAGE_SIZE) (4 + PAGE_SIZE + 4) (record_bytes nonce r)) = checksum_of nonce (snd r)"
    using r(2) checksum_of_less [of nonce "snd r"]
      py_slice_prefix [of "be_encode 4 (fst r) @ snd r" "4 + PAGE_SIZE" "be_encode 4 (checksum_of nonce (snd r))" "4 + PAGE_SIZE + 4" "[]"]
    by (simp add: record_bytes_def)
qed

section \<open>Replay\<close>

text \<open>What restoring a list of page images does to the file.\<close>

definition restore_all :: "page_image list \<Rightarrow> bytes \<Rightarrow> bytes" where
  "restore_all rs f = fold (\<lambda>(p, d). file_write (page_offset p) d) rs f"

lemma restore_all_simps [simp]:
  "restore_all [] f = f"
  "restore_all ((p, d) # rs) f = restore_all rs (file_write (page_offset p) d f)"
  by (simp_all add: restore_all_def)

text \<open>The image that wins is the last recorded one.\<close>

lemma file_page_restore_all:
  assumes "\<forall>r \<in> set rs. image_ok r" and "1 \<le> p"
  shows "file_page (restore_all rs f) p = (case map_of (rev rs) p of None \<Rightarrow> file_page f p | Some d \<Rightarrow> d)"
  using assms(1)
proof (induction rs arbitrary: f)
  case (Cons r rs)
  obtain q d where r: "r = (q, d)" by (cases r)
  then have "image_ok (q, d)" using Cons.prems by simp
  then have "file_page (file_write (page_offset q) d f) p = (if p = q then d else file_page f p)"
    using assms(2) by (intro file_page_write) (simp_all add: image_ok_def)
  with Cons show ?case by (auto simp: r map_add_def split: option.splits)
qed simp

lemma replay_records_all:
  assumes "length lead = 12" and "\<forall>r \<in> set rs. image_ok r" and "i + n \<le> length rs"
  shows "replay_records (journal_bytes lead nonce pcb rs) nonce i n s
    = (Inr n, s\<lparr>pg_file := restore_all (take n (drop i rs)) (pg_file s)\<rparr>)"
  using assms(3)
proof (induction n arbitrary: i s)
  case (Suc n)
  then have i: "i < length rs" by simp
  obtain q d where r: "rs ! i = (q, d)" by (cases "rs ! i")
  then have ok: "image_ok (q, d)" using assms(2) i by (metis nth_mem)
  note at = journal_record_at [OF assms(1,2) i, of nonce pcb, unfolded r] and parts = record_bytes_parts [OF ok, of nonce]
  have restore: "restore_page q d s = (Inr (), s\<lparr>pg_file := file_write (page_offset q) d (pg_file s)\<rparr>)"
    using ok by (simp add: restore_page_def image_ok_def)
  have "take (Suc n) (drop i rs) = (q, d) # take n (drop (Suc i) rs)"
    using i r by (metis Cons_nth_drop_Suc take_Suc_Cons)
  with Suc restore ok show ?case
    by (simp add: at parts parts [simplified] Let_def journal_checksum_page image_ok_def bind_op_def lift_res_def ret_def)
qed (simp add: ret_def)

lemma journal_replay_sealed:
  assumes "pg_jfile s = Some (journal_bytes (sealed (length rs)) nonce pcb rs)"
    and "\<forall>r \<in> set rs. image_ok r" and "nonce < 2 ^ 32" and "length rs < 2 ^ 32"
  shows "journal_replay s = (Inr (length rs), s\<lparr>pg_file := restore_all rs (pg_file s)\<rparr>)"
proof -
  have t: "take 8 (sealed n) = JOURNAL_MAGIC" "drop 8 (sealed n) = be_encode 4 n" for n
    by (simp_all add: sealed_def)
  show ?thesis
    using replay_records_all [OF _ assms(2), of "sealed (length rs)" 0 "length rs" nonce pcb s] assms(3,4)
      journal_parts(1-3) [of "sealed (length rs)" nonce pcb rs]
    by (cases "rs = []") (simp_all add: journal_replay_def assms(1) t Let_def)
qed

text \<open>Before the barrier the magic is withheld: neither hot nor replayed.\<close>

lemma unsealed_not_magic: "take 8 unsealed \<noteq> JOURNAL_MAGIC"
proof
  assume "take 8 unsealed = JOURNAL_MAGIC"
  then have "take 8 unsealed ! 0 = JOURNAL_MAGIC ! 0" by simp
  then show False by (simp add: unsealed_def JOURNAL_MAGIC_def)
qed

lemma journal_replay_unsealed:
  assumes "pg_jfile s = Some (journal_bytes unsealed nonce pcb rs)"
  shows "journal_replay s = (Inr 0, s)" and "\<not> is_hot (journal_bytes unsealed nonce pcb rs)"
proof -
  show "journal_replay s = (Inr 0, s)"
    using journal_parts(1) [of unsealed nonce pcb rs] unsealed_not_magic by (simp add: journal_replay_def assms Let_def)
  show "\<not> is_hot (journal_bytes unsealed nonce pcb rs)"
    using journal_parts(5) [of unsealed nonce pcb rs] unsealed_not_magic by (simp add: is_hot_def py_slice_def)
qed

lemma sealed_hot:
  assumes "0 < length rs" and "length rs < 2 ^ 32"
  shows "is_hot (journal_bytes (sealed (length rs)) nonce pcb rs)"
  using assms journal_parts(5) [of "sealed (length rs)" nonce pcb rs]
  by (simp add: is_hot_def sealed_def py_slice_def)

text \<open>A record the file does not reach: the checksum samples a byte that is not there.\<close>

lemma checksum_short: "length d \<le> 3896 \<Longrightarrow> journal_checksum d nonce = Inl IndexError"
proof -
  assume short: "length d \<le> 3896"
  obtain ks where ks: "checksum_indices = 3896 # ks"
    by (simp add: checksum_indices_def PAGE_SIZE_def upt_rec [of 0])
  show ?thesis using short by (simp add: journal_checksum_def ks py_get_def)
qed

lemma length_journal_bytes:
  assumes "length lead = 12" and "\<forall>r \<in> set rs. image_ok r"
  shows "length (journal_bytes lead nonce pcb rs) = SECTOR_SIZE + length rs * record_size"
proof -
  have "length (concat (map (record_bytes nonce) rs)) = length rs * record_size"
    using assms(2) by (induction rs) (auto simp: length_record_bytes)
  then show ?thesis using assms(1) by (simp add: journal_bytes_def SECTOR_SIZE_def)
qed

lemma replay_records_short:
  assumes "length lead = 12" and "\<forall>r \<in> set rs. image_ok r" and "i \<le> length rs" and "length rs < i + n"
  shows "replay_records (journal_bytes lead nonce pcb rs) nonce i n s
    = (Inl IndexError, s\<lparr>pg_file := restore_all (drop i rs) (pg_file s)\<rparr>)"
  using assms(3,4)
proof (induction n arbitrary: i s)
  case (Suc n)
  show ?case
  proof (cases "i < length rs")
    case False
    then have i: "i = length rs" using Suc.prems by simp
    have "py_slice (SECTOR_SIZE + i * record_size) (SECTOR_SIZE + i * record_size + record_size)
        (journal_bytes lead nonce pcb rs) = []"
      using length_journal_bytes [OF assms(1,2), of nonce pcb] by (simp add: i py_slice_def)
    then show ?thesis
      using checksum_short [of "[]" nonce] by (simp add: Let_def i py_slice_def [of 4])
  next
    case True
    obtain q d where r: "rs ! i = (q, d)" by (cases "rs ! i")
    then have ok: "image_ok (q, d)" using assms(2) True by (metis nth_mem)
    note at = journal_record_at [OF assms(1,2) True, of nonce pcb, unfolded r] and parts = record_bytes_parts [OF ok, of nonce]
    have restore: "restore_page q d s = (Inr (), s\<lparr>pg_file := file_write (page_offset q) d (pg_file s)\<rparr>)"
      using ok by (simp add: restore_page_def image_ok_def)
    have "drop i rs = (q, d) # drop (Suc i) rs" using True r by (metis Cons_nth_drop_Suc)
    with Suc True restore ok show ?thesis
      by (simp add: at parts parts [simplified] Let_def journal_checksum_page image_ok_def bind_op_def lift_res_def ret_def)
  qed
qed simp

section \<open>Properties\<close>

text \<open>
  Journalling and replaying restores the recorded pages: starting a journal, recording page
  images and passing the barrier, then replaying onto any file, puts back every recorded image
  (the last one recorded for its page) and leaves every other page as it was, whatever happened to
  the file in between; the number returned is the number of records.
\<close>

theorem journal_replay_restores:
  assumes "pg_jfile s = Some (journal_bytes unsealed (j_nonce j) pcb rs)" and "j_nrec j = length rs"
    and "\<forall>r \<in> set rs. image_ok r" and "j_nonce j < 2 ^ 32" and "length rs < 2 ^ 32" and "1 \<le> p"
  shows "\<exists>s1 s2. commit_barrier j s = (Inr (), s1) \<and> pg_file s1 = pg_file s
    \<and> journal_replay (s1\<lparr>pg_file := f\<rparr>) = (Inr (length rs), s2)
    \<and> file_page (pg_file s2) p = (case map_of (rev rs) p of None \<Rightarrow> file_page f p | Some d \<Rightarrow> d)"
proof -
  define s1 where "s1 = s\<lparr>pg_jfile := Some (journal_bytes (sealed (length rs)) (j_nonce j) pcb rs)\<rparr>"
  have "commit_barrier j s = (Inr (), s1)"
    using commit_barrier_seals [OF assms(1)] assms(2,5) by (simp add: s1_def)
  moreover have "journal_replay (s1\<lparr>pg_file := f\<rparr>) = (Inr (length rs), s1\<lparr>pg_file := restore_all rs f\<rparr>)"
    using journal_replay_sealed [of "s1\<lparr>pg_file := f\<rparr>" rs "j_nonce j" pcb] assms(3-5) by (simp add: s1_def)
  ultimately show ?thesis using file_page_restore_all [OF assms(3,6)] by (auto simp: s1_def)
qed

theorem journal_replay_restores_witness:
  "\<exists>s1 s2. commit_barrier \<lparr>j_nonce = 5, j_nrec = 1\<rparr>
      \<lparr>pg_path = None, pg_file = [], pg_header = default_header, pg_txn = None,
        pg_jfile = Some (journal_bytes unsealed 5 3 [(2, replicate PAGE_SIZE 9)])\<rparr> = (Inr (), s1)
    \<and> pg_file s1 = [] \<and> journal_replay (s1\<lparr>pg_file := [1, 2, 3]\<rparr>) = (Inr 1, s2)
    \<and> file_page (pg_file s2) 2 = replicate PAGE_SIZE 9"
  using journal_replay_restores [where j = "\<lparr>j_nonce = 5, j_nrec = 1\<rparr>" and rs = "[(2, replicate PAGE_SIZE 9)]"
      and p = 2 and f = "[1, 2, 3]" and pcb = 3
      and s = "\<lparr>pg_path = None, pg_file = [], pg_header = default_header, pg_txn = None,
        pg_jfile = Some (journal_bytes unsealed 5 3 [(2, replicate PAGE_SIZE 9)])\<rparr>"]
  by (simp add: image_ok_def)

text \<open>
  What the code does with a journal whose body is shorter than its record count says (possible
  when the header's write reached the disk and the body's did not): the records that are there are
  restored, and then replay raises \<^verbatim>\<open>IndexError\<close> from the checksum instead of stopping there.
\<close>

theorem replay_short_body_raises:
  assumes "pg_jfile s = Some (journal_bytes (sealed n) nonce pcb rs)" and "length rs < n" and "n < 2 ^ 32"
    and "\<forall>r \<in> set rs. image_ok r" and "nonce < 2 ^ 32"
  shows "journal_replay s = (Inl IndexError, s\<lparr>pg_file := restore_all rs (pg_file s)\<rparr>)"
proof -
  have "take 8 (sealed n) = JOURNAL_MAGIC" "drop 8 (sealed n) = be_encode 4 n" by (simp_all add: sealed_def)
  then show ?thesis
    using replay_records_short [OF _ assms(4), of "sealed n" 0 n nonce pcb s] assms(2,3,5)
      journal_parts(1-3) [of "sealed n" nonce pcb rs]
    by (simp add: journal_replay_def assms(1) Let_def)
qed

theorem replay_short_body_raises_witness:
  "fst (journal_replay \<lparr>pg_path = None, pg_file = [], pg_header = default_header, pg_txn = None,
      pg_jfile = Some (journal_bytes (sealed 1) 5 3 [])\<rparr>) = Inl IndexError"
  using replay_short_body_raises [where n = 1 and nonce = 5 and pcb = 3 and rs = "[]"
      and s = "\<lparr>pg_path = None, pg_file = [], pg_header = default_header, pg_txn = None,
        pg_jfile = Some (journal_bytes (sealed 1) 5 3 [])\<rparr>"] by simp

end
