(* ===== verification/Recovery.thy ===== *)
theory Recovery
  imports Journal
begin

text \<open>
  Hot-journal recovery, \<^verbatim>\<open>src/src/quilldb/txn/recovery.py\<close>. The lemmas show crash atomicity: whatever
  an interrupted commit left on the pages it was writing, recovery gives back the original file byte
  for byte, and a journal that never became valid is thrown away without touching the database.
\<close>

section \<open>Definition\<close>

text \<open>\<^verbatim>\<open>recover_if_needed\<close> of \<^verbatim>\<open>src/src/quilldb/txn/recovery.py\<close>, every early return included.\<close>

definition recover_if_needed :: "('a pager_scheme, bool) op" where
  "recover_if_needed s =
     (if pg_path s = None then (Inr False, s)
      else case pg_jfile s of
        None \<Rightarrow> (Inr False, s)
      | Some f \<Rightarrow>
          if \<not> is_hot f then bind_op journal_delete (\<lambda>_. ret True) s
          else bind_op journal_replay (\<lambda>_.
               bind_op (pager_truncate (journal_page_count_before f)) (\<lambda>_.
               bind_op journal_delete (\<lambda>_.
               bind_op reload_header (\<lambda>_. ret True)))) s)"

section \<open>Restoring a whole file\<close>

lemma header_from_bytes_take: "header_from_bytes (take FILE_HEADER_SIZE f) = header_from_bytes f"
proof (cases "length f < FILE_HEADER_SIZE")
  case False
  have sl: "b \<le> 100 \<Longrightarrow> py_slice a b (take 100 f) = py_slice a b f" for a b
    by (cases "a \<le> b") (simp_all add: py_slice_def drop_take)
  have u: "offset + 4 \<le> 100 \<Longrightarrow> u32 (take 100 f) offset = u32 f offset" for offset
    by (simp add: u32_def sl)
  have "read_header (take 100 f) n = read_header f n" for n
    by (simp add: read_header_def u)
  with False show ?thesis
    by (simp add: header_from_bytes_def FILE_HEADER_SIZE_def sl u Let_def)
qed (simp add: header_from_bytes_def)

lemma file_eq_pages:
  assumes "length f = n * PAGE_SIZE" and "length g = n * PAGE_SIZE"
    and "\<And>p. 1 \<le> p \<Longrightarrow> p \<le> n \<Longrightarrow> file_page f p = file_page g p"
  shows "f = g"
proof (rule nth_equalityI)
  fix i assume i: "i < length f"
  define p where "p = i div PAGE_SIZE + 1"
  have p: "1 \<le> p" "p \<le> n" using i assms(1) by (simp_all add: p_def less_mult_imp_div_less Suc_leI)
  have off: "page_offset p + i mod PAGE_SIZE = i" by (simp add: page_offset_def p_def)
  have "file_page f p ! (i mod PAGE_SIZE) = file_page g p ! (i mod PAGE_SIZE)" using assms(3) [OF p] by simp
  then have "file_byte f i = file_byte g i" by (simp add: file_page_nth off)
  with i assms(1,2) show "f ! i = g ! i" by (simp add: file_byte_def)
qed (simp add: assms)

text \<open>\<open>rs\<close> holds original images of the first \<open>n\<close> pages of \<open>f0\<close>.\<close>

definition originals :: "bytes \<Rightarrow> nat \<Rightarrow> page_image list \<Rightarrow> bool" where
  "originals f0 n rs \<longleftrightarrow> (\<forall>(p, d) \<in> set rs. 1 \<le> p \<and> p \<le> n \<and> d = file_page f0 p)"

lemma originals_ok: "originals f0 n rs \<Longrightarrow> n < 2 ^ 32 \<Longrightarrow> r \<in> set rs \<Longrightarrow> image_ok r"
  by (force simp: originals_def image_ok_def)

text \<open>\<open>damaged\<close>: the file agrees with \<open>f0\<close> on every page below \<open>n\<close> that the journal does not hold.\<close>

definition damaged_only :: "bytes \<Rightarrow> nat \<Rightarrow> page_image list \<Rightarrow> bytes \<Rightarrow> bool" where
  "damaged_only f0 n rs f \<longleftrightarrow>
     (\<forall>p. 1 \<le> p \<longrightarrow> p \<le> n \<longrightarrow> p \<notin> fst ` set rs \<longrightarrow> file_page f p = file_page f0 p)"

lemma restore_originals:
  assumes "originals f0 n rs" and "damaged_only f0 n rs f" and "n < 2 ^ 32" and "length f0 = n * PAGE_SIZE"
  shows "file_truncate (n * PAGE_SIZE) (restore_all rs f) = f0"
proof (rule file_eq_pages)
  fix p assume p: "1 \<le> p" "p \<le> n"
  have "file_page (restore_all rs f) p = (case map_of (rev rs) p of None \<Rightarrow> file_page f p | Some d \<Rightarrow> d)"
    using originals_ok [OF assms(1,3)] p(1) by (intro file_page_restore_all) auto
  also have "\<dots> = file_page f0 p"
  proof (cases "map_of (rev rs) p")
    case None
    then have "p \<notin> fst ` set rs" by (simp add: map_of_eq_None_iff)
    with assms(2) p None show ?thesis by (simp add: damaged_only_def)
  next
    case (Some d)
    then have "(p, d) \<in> set rs" using map_of_SomeD [OF Some] by simp
    with assms(1) Some show ?thesis by (auto simp: originals_def)
  qed
  finally show "file_page (file_truncate (n * PAGE_SIZE) (restore_all rs f)) p = file_page f0 p"
    using file_page_truncate [OF p] by simp
qed (simp_all add: assms)

lemma recover_hot:
  assumes "pg_path s \<noteq> None" and "pg_jfile s = Some (journal_bytes (sealed (length rs)) nonce n rs)"
    and "originals f0 n rs" and "damaged_only f0 n rs (pg_file s)" and "length f0 = n * PAGE_SIZE"
    and "header_from_bytes f0 = Inr h0" and "0 < n" and "n < 2 ^ 32"
    and "0 < length rs" and "length rs < 2 ^ 32" and "nonce < 2 ^ 32"
  shows "recover_if_needed s = (Inr True, s\<lparr>pg_file := f0, pg_header := h0, pg_jfile := None\<rparr>)"
proof -
  have ok: "\<forall>r \<in> set rs. image_ok r" using originals_ok [OF assms(3,8)] by blast
  have "journal_replay s = (Inr (length rs), s\<lparr>pg_file := restore_all rs (pg_file s)\<rparr>)"
    using journal_replay_sealed [OF assms(2) ok assms(11,10)] .
  moreover have "journal_page_count_before (journal_bytes (sealed (length rs)) nonce n rs) = n"
    using journal_parts(4) [of "sealed (length rs)" n nonce rs] assms(8) by simp
  moreover have "header_from_bytes (take FILE_HEADER_SIZE f0) = Inr h0"
    using assms(6) by (simp add: header_from_bytes_take)
  ultimately show ?thesis
    using assms(1,7) sealed_hot [OF assms(9,10), of nonce n] restore_originals [OF assms(3,4,8,5)]
    by (auto simp: recover_if_needed_def assms(2) bind_op_def pager_truncate_def journal_delete_def reload_header_def
        ret_def)
qed

section \<open>Properties\<close>

text \<open>
  C9. Crash atomicity. Let a commit be interrupted after its barrier: the journal holds original
  images of the pages it set out to write, and the file is arbitrary on those pages and past the old
  end, equal to the original elsewhere (torn pages, missing pages and appended pages included).
  Recovery then returns the original file byte for byte, the original header and no journal. As
  the damage may be anything on the journalled pages, this covers a recovery that was itself interrupted.
\<close>

theorem crash_atomicity:
  assumes "pg_path s \<noteq> None" and "pg_jfile s = Some (journal_bytes (sealed (length rs)) nonce n rs)"
    and "originals f0 n rs" and "damaged_only f0 n rs (pg_file s)" and "length f0 = n * PAGE_SIZE"
    and "header_from_bytes f0 = Inr h0" and "0 < n" and "n < 2 ^ 32"
    and "0 < length rs" and "length rs < 2 ^ 32" and "nonce < 2 ^ 32"
  shows "recover_if_needed s = (Inr True, s\<lparr>pg_file := f0, pg_header := h0, pg_jfile := None\<rparr>)"
  using assms by (rule recover_hot)

theorem crash_atomicity_witness:
  "\<exists>f0. bootstrap_page1 = Inr (f0, default_header) \<and> recover_if_needed
      \<lparr>pg_path = Some ''db'', pg_file = [7, 7], pg_header = default_header\<lparr>page_count := 9\<rparr>, pg_txn = None,
        pg_jfile = Some (journal_bytes (sealed 1) 5 1 [(1, file_page f0 1)])\<rparr>
    = (Inr True, \<lparr>pg_path = Some ''db'', pg_file = f0, pg_header = default_header, pg_txn = None, pg_jfile = None\<rparr>)"
proof -
  obtain hb where hb: "header_to_bytes default_header = Inr hb" "length hb = 100"
    "bootstrap_page1 = Inr (hb @ [13, 0, 0, 0, 0, 16, 0, 0] @ replicate 3988 0, default_header)"
    using bootstrap_page1_shape by metis
  have "header_ok default_header" by (simp add: header_eval)
  note h = header_reread(2) [OF this hb(1), of "[13, 0, 0, 0, 0, 16, 0, 0] @ replicate 3988 0"]
  let ?f0 = "hb @ [13, 0, 0, 0, 0, 16, 0, 0] @ replicate 3988 0"
  let ?s = "\<lparr>pg_path = Some ''db'', pg_file = [7, 7], pg_header = default_header\<lparr>page_count := 9\<rparr>, pg_txn = None,
        pg_jfile = Some (journal_bytes (sealed 1) 5 1 [(1, file_page ?f0 1)])\<rparr>"
  have "recover_if_needed ?s = (Inr True, ?s\<lparr>pg_file := ?f0, pg_header := default_header, pg_jfile := None\<rparr>)"
    by (rule crash_atomicity [where rs = "[(1, file_page ?f0 1)]" and n = 1 and nonce = 5])
      (use h hb(2) in \<open>auto simp: originals_def damaged_only_def PAGE_SIZE_def\<close>)
  with hb(3) show ?thesis by auto
qed

text \<open>
  Recovery changes nothing it should not: with no journal, or for an in-memory database, the state
  is left alone; a journal that never passed its barrier is deleted and the database file, its header
  and every page stay exactly as they were.
\<close>

theorem recovery_leaves_valid_database:
  "(pg_path s = None \<or> pg_jfile s = None \<longrightarrow> recover_if_needed s = (Inr False, s))
   \<and> (pg_path s \<noteq> None \<and> pg_jfile s = Some (journal_bytes unsealed nonce n rs)
        \<longrightarrow> recover_if_needed s = (Inr True, s\<lparr>pg_jfile := None\<rparr>))"
  using journal_replay_unsealed(2) [of s nonce n rs]
  by (auto simp: recover_if_needed_def bind_op_def journal_delete_def ret_def)

theorem recovery_leaves_valid_database_witness:
  "recover_if_needed \<lparr>pg_path = Some ''db'', pg_file = [7, 7], pg_header = default_header, pg_txn = None,
      pg_jfile = Some (journal_bytes unsealed 5 1 [])\<rparr>
   = (Inr True, \<lparr>pg_path = Some ''db'', pg_file = [7, 7], pg_header = default_header, pg_txn = None, pg_jfile = None\<rparr>)"
  using recovery_leaves_valid_database [of "\<lparr>pg_path = Some ''db'', pg_file = [7, 7], pg_header = default_header,
      pg_txn = None, pg_jfile = Some (journal_bytes unsealed 5 1 [])\<rparr>" 5 1 "[]"] by simp

end
