(* ===== verification/BufferPool.thy ===== *)
theory BufferPool
  imports Recovery
begin

text \<open>
  The buffer pool, \<^verbatim>\<open>src/src/quilldb/storage/bufferpool.py\<close>: a bounded write-back cache in front of
  the pager, with the transaction hook \<^verbatim>\<open>will_modify\<close> of
  \<^verbatim>\<open>src/src/quilldb/txn/transaction.py\<close> that \<^verbatim>\<open>get_page_for_write\<close> calls. The cache is the
  association list of an \<^verbatim>\<open>OrderedDict\<close>, least recently used first; a cached page's bytes are shared by
  all its holders, so a mutation through any of them is a change of the entry.
  Every method holds the pool's latch from start to end and is one step here.
\<close>

section \<open>Definitions\<close>

record entry =
  e_data :: bytes
  e_pin :: nat
  e_dirty :: bool

text \<open>The state of a \<^verbatim>\<open>Transaction\<close> the pool reads; its barrier flag is the pager's \<open>pg_txn\<close>.\<close>

record txn =
  tx_journal :: "journal option"
  tx_journalled :: "nat list"
  tx_page_count_before :: nat

text \<open>\<open>bp_nonce\<close> is the number the next \<^verbatim>\<open>random.getrandbits(32)\<close> returns.\<close>

record pool = pager +
  bp_capacity :: nat
  bp_cache :: "(nat \<times> entry) list"
  bp_hits :: nat
  bp_misses :: nat
  bp_rows_examined :: nat
  bp_txn :: "txn option"
  bp_nonce :: nat

text \<open>\<^verbatim>\<open>OrderedDict\<close>: change a value in place, move a key to the end, delete a key.\<close>

definition od_update :: "nat \<Rightarrow> (entry \<Rightarrow> entry) \<Rightarrow> (nat \<times> entry) list \<Rightarrow> (nat \<times> entry) list" where
  "od_update k f d = map (\<lambda>(k', e). (k', if k' = k then f e else e)) d"

definition od_delete :: "nat \<Rightarrow> (nat \<times> entry) list \<Rightarrow> (nat \<times> entry) list" where
  "od_delete k d = filter (\<lambda>(k', e). k' \<noteq> k) d"

definition od_move_to_end :: "nat \<Rightarrow> (nat \<times> entry) list \<Rightarrow> (nat \<times> entry) list" where
  "od_move_to_end k d = od_delete k d @ filter (\<lambda>(k', e). k' = k) d"

definition od_set :: "nat \<Rightarrow> entry \<Rightarrow> (nat \<times> entry) list \<Rightarrow> (nat \<times> entry) list" where
  "od_set k e d = (if map_of d k = None then d @ [(k, e)] else od_update k (\<lambda>_. e) d)"

definition mk_pool :: "pager \<Rightarrow> nat \<Rightarrow> nat \<Rightarrow> pool" where
  "mk_pool p capacity nonce = pager.extend p
     \<lparr>bp_capacity = capacity, bp_cache = [], bp_hits = 0, bp_misses = 0, bp_rows_examined = 0,
      bp_txn = None, bp_nonce = nonce\<rparr>"

definition reset_counters :: "(pool, unit) op" where
  "reset_counters s = (Inr (), s\<lparr>bp_hits := 0, bp_misses := 0, bp_rows_examined := 0\<rparr>)"

text \<open>The scan of \<^verbatim>\<open>_evict_one\<close> over the cache, front first.\<close>

fun evict_loop :: "(nat \<times> entry) list \<Rightarrow> bool \<Rightarrow> (pool, unit) op" where
  "evict_loop [] saw_no_steal_candidate s =
     (if saw_no_steal_candidate then (Inr (), s) else (Inl PoolExhaustedError, s))"
| "evict_loop ((candidate_id, candidate) # rest) saw_no_steal_candidate s =
     (if 0 < e_pin candidate then evict_loop rest saw_no_steal_candidate s
      else if e_dirty candidate \<and> bp_txn s \<noteq> None then evict_loop rest True s
      else bind_op (if e_dirty candidate then write_page candidate_id (e_data candidate) else skip)
             (\<lambda>_. modify (bp_cache_update (od_delete candidate_id))) s)"

definition evict_one :: "(pool, unit) op" where
  "evict_one s = evict_loop (bp_cache s) False s"

definition get_page :: "nat \<Rightarrow> (pool, bytes) op" where
  "get_page page_id s =
     (case map_of (bp_cache s) page_id of
        Some entry \<Rightarrow>
          (Inr (e_data entry),
           s\<lparr>bp_cache := od_move_to_end page_id (od_update page_id (\<lambda>e. e\<lparr>e_pin := e_pin e + 1\<rparr>) (bp_cache s)),
             bp_hits := bp_hits s + 1\<rparr>)
      | None \<Rightarrow>
          bind_op (if bp_capacity s \<le> length (bp_cache s) then evict_one else skip) (\<lambda>_.
          bind_op (read_page page_id) (\<lambda>data s.
            (Inr data,
             s\<lparr>bp_cache := bp_cache s @ [(page_id, \<lparr>e_data = data, e_pin = 1, e_dirty = False\<rparr>)],
               bp_misses := bp_misses s + 1\<rparr>))) s)"

definition unpin :: "nat \<Rightarrow> bool \<Rightarrow> (pool, unit) op" where
  "unpin page_id dirty s =
     (case map_of (bp_cache s) page_id of
        None \<Rightarrow> (Inl ValueError, s)
      | Some entry \<Rightarrow>
          if e_pin entry = 0 then (Inl ValueError, s)
          else (Inr (), s\<lparr>bp_cache := od_update page_id
                 (\<lambda>e. e\<lparr>e_pin := e_pin e - 1, e_dirty := e_dirty e \<or> dirty\<rparr>) (bp_cache s)\<rparr>))"

definition flush_page :: "nat \<Rightarrow> (pool, unit) op" where
  "flush_page page_id s =
     (case map_of (bp_cache s) page_id of
        None \<Rightarrow> (Inr (), s)
      | Some entry \<Rightarrow>
          if e_dirty entry
          then bind_op (write_page page_id (e_data entry)) (\<lambda>_.
                 modify (bp_cache_update (od_update page_id (\<lambda>e. e\<lparr>e_dirty := False\<rparr>)))) s
          else (Inr (), s))"

definition flush_all :: "(pool, unit) op" where
  "flush_all s = for_op flush_page (map fst (bp_cache s)) s"

definition discard :: "nat \<Rightarrow> (pool, unit) op" where
  "discard page_id s =
     (case map_of (bp_cache s) page_id of
        None \<Rightarrow> (Inr (), s)
      | Some entry \<Rightarrow>
          if 0 < e_pin entry then (Inl ValueError, s)
          else (Inr (), s\<lparr>bp_cache := od_delete page_id (bp_cache s)\<rparr>))"

definition pool_clear :: "nat list option \<Rightarrow> (pool, unit) op" where
  "pool_clear pages s =
     (case pages of
        None \<Rightarrow> (Inr (), s\<lparr>bp_cache := []\<rparr>)
      | Some ps \<Rightarrow> for_op discard ps s)"

text \<open>
  \<^verbatim>\<open>Transaction.will_modify\<close>: journal the page's on-disk bytes before its first change. The journal is
  started on the first page that existed when the transaction became the writer.
\<close>

definition mark_journalled :: "nat \<Rightarrow> txn \<Rightarrow> txn" where
  "mark_journalled page_id t = t\<lparr>tx_journalled := page_id # tx_journalled t\<rparr>"

definition ensure_journal :: "txn \<Rightarrow> (pool, journal) op" where
  "ensure_journal t s =
     (case tx_journal t of
        Some j \<Rightarrow> (Inr j, s)
      | None \<Rightarrow> bind_op (journal_begin (bp_nonce s) (tx_page_count_before t)) (\<lambda>j.
          bind_op (modify (bp_txn_update (\<lambda>_. Some (t\<lparr>tx_journal := Some j\<rparr>)))) (\<lambda>_. ret j)) s)"

definition will_modify :: "nat \<Rightarrow> (pool, unit) op" where
  "will_modify page_id s =
     (case bp_txn s of
        None \<Rightarrow> (Inr (), s)
      | Some t \<Rightarrow>
          if page_id \<in> set (tx_journalled t) then (Inr (), s)
          else if tx_page_count_before t < page_id
          then (Inr (), s\<lparr>bp_txn := Some (mark_journalled page_id t)\<rparr>)
          else bind_op (ensure_journal t) (\<lambda>j.
               bind_op (read_page page_id) (\<lambda>data.
               bind_op (record_original j page_id data) (\<lambda>j'.
                 modify (bp_txn_update (\<lambda>_. Some (mark_journalled page_id (t\<lparr>tx_journal := Some j'\<rparr>))))))) s)"

definition get_page_for_write :: "nat \<Rightarrow> (pool, bytes) op" where
  "get_page_for_write page_id =
     bind_op (will_modify page_id) (\<lambda>_.
     bind_op (get_page page_id) (\<lambda>page.
     bind_op (modify (bp_cache_update (od_update page_id (\<lambda>e. e\<lparr>e_dirty := True\<rparr>)))) (\<lambda>_.
       ret page)))"

text \<open>\<^verbatim>\<open>page[...] = ...\<close> on a page obtained from the pool: the entry's bytes become \<open>data\<close>.\<close>

definition store_page :: "nat \<Rightarrow> bytes \<Rightarrow> (pool, unit) op" where
  "store_page page_id data = modify (bp_cache_update (od_update page_id (\<lambda>e. e\<lparr>e_data := data\<rparr>)))"

text \<open>The two context managers; \<open>body\<close> computes the block's result, and for a write the new bytes.\<close>

definition pinned :: "nat \<Rightarrow> bool \<Rightarrow> (bytes \<Rightarrow> 'a res) \<Rightarrow> (pool, 'a) op" where
  "pinned page_id dirty body =
     bind_op (get_page page_id) (\<lambda>page. finally_op (lift_res (body page)) (unpin page_id dirty))"

definition pinned_for_write :: "nat \<Rightarrow> (bytes \<Rightarrow> 'a res \<times> bytes) \<Rightarrow> (pool, 'a) op" where
  "pinned_for_write page_id body =
     bind_op (get_page_for_write page_id) (\<lambda>page.
       finally_op (bind_op (store_page page_id (snd (body page))) (\<lambda>_. lift_res (fst (body page))))
         (unpin page_id False))"

definition allocate_page :: "(pool, nat) op" where
  "allocate_page s =
     (if 0 < freelist_count (pg_header s) then
        let page_id = freelist_trunk (pg_header s) in
        bind_op (get_page_for_write page_id) (\<lambda>page.
        bind_op (modify (pg_header_update (\<lambda>h. h\<lparr>freelist_trunk := be_decode (take 4 page),
                                                freelist_count := freelist_count h - 1\<rparr>))) (\<lambda>_.
        bind_op (unpin page_id False) (\<lambda>_. ret page_id))) s
      else
        let page_id = page_count (pg_header s) + 1 in
        (Inr page_id,
         s\<lparr>pg_header := (pg_header s)\<lparr>page_count := page_id\<rparr>,
           bp_cache := od_set page_id \<lparr>e_data = replicate PAGE_SIZE 0, e_pin = 0, e_dirty = True\<rparr> (bp_cache s)\<rparr>))"

definition free_page :: "nat \<Rightarrow> (pool, unit) op" where
  "free_page page_id s =
     (if page_id = 1 then (Inl ValueError, s)
      else if page_count (pg_header s) < page_id then (Inl PageOutOfRangeError, s)
      else bind_op (discard page_id) (\<lambda>_.
           bind_op (get_page_for_write page_id) (\<lambda>page_content.
           bind_op get_st (\<lambda>s1.
           bind_op (lift_res (to_bytes 4 (freelist_trunk (pg_header s1)))) (\<lambda>next_pointer.
           bind_op (store_page page_id (py_put 4 (length page_content) (replicate (length page_content - 4) 0)
                      (py_put 0 4 next_pointer page_content))) (\<lambda>_.
           bind_op (unpin page_id False) (\<lambda>_.
             modify (pg_header_update (\<lambda>h. h\<lparr>freelist_trunk := page_id, freelist_count := freelist_count h + 1\<rparr>)))))))) s)"

section \<open>The cache as a map\<close>

lemma map_of_od_update: "map_of (od_update k f d) q = (if q = k then map_option f (map_of d q) else map_of d q)"
  by (induction d) (auto simp: od_update_def)

lemma map_of_od_delete: "map_of (od_delete k d) q = (if q = k then None else map_of d q)"
  by (induction d) (auto simp: od_delete_def)

lemma map_of_filter_eq: "map_of (filter (\<lambda>(k', e). k' = k) d) q = (if q = k then map_of d q else None)"
  by (induction d) auto

lemma map_of_od_move: "map_of (od_move_to_end k d) q = map_of d q"
  by (simp add: od_move_to_end_def map_of_filter_eq map_of_od_delete map_add_def split: option.split)

lemma map_of_od_set: "map_of (od_set k e d) q = (if q = k then Some e else map_of d q)"
  by (auto simp: od_set_def map_of_od_update map_add_def split: option.split)

lemma keys_od_update [simp]: "map fst (od_update k f d) = map fst d"
  by (simp add: od_update_def comp_def split_beta)

lemma distinct_od_delete: "distinct (map fst d) \<Longrightarrow> distinct (map fst (od_delete k d))"
  by (induction d) (auto simp: od_delete_def)

lemma distinct_od_move: "distinct (map fst d) \<Longrightarrow> distinct (map fst (od_move_to_end k d))"
proof -
  assume d: "distinct (map fst d)"
  have "distinct (map fst (filter (\<lambda>(k', e). k' = k) d))"
    using d by (induction d) auto
  moreover have "set (map fst (od_delete k d)) \<inter> set (map fst (filter (\<lambda>(k', e). k' = k) d)) = {}"
    by (auto simp: od_delete_def)
  ultimately show ?thesis using distinct_od_delete [OF d, of k] by (simp add: od_move_to_end_def)
qed

lemma distinct_od_set: "distinct (map fst d) \<Longrightarrow> distinct (map fst (od_set k e d))"
  by (auto simp: od_set_def map_of_eq_None_iff)

lemmas od_maps = map_of_od_update map_of_od_delete map_of_od_move map_of_od_set

section \<open>The logical pages and the invariant\<close>

text \<open>
  What a page holds as far as any client can tell: the cached bytes, or the file's. There is no
  page 0.
\<close>

definition view :: "pool \<Rightarrow> nat \<Rightarrow> bytes" where
  "view s p =
     (case map_of (bp_cache s) p of
        Some e \<Rightarrow> e_data e
      | None \<Rightarrow> if p = 0 then [] else file_page (pg_file s) p)"

definition pins :: "pool \<Rightarrow> nat \<Rightarrow> nat" where
  "pins s p = (case map_of (bp_cache s) p of Some e \<Rightarrow> e_pin e | None \<Rightarrow> 0)"

definition dirty_page :: "pool \<Rightarrow> nat \<Rightarrow> bool" where
  "dirty_page s p \<longleftrightarrow> (case map_of (bp_cache s) p of Some e \<Rightarrow> e_dirty e | None \<Rightarrow> False)"

text \<open>
  The cache holds whole pages of the database, once each, and an entry that is not dirty agrees with
  the file.
\<close>

definition cache_inv :: "pool \<Rightarrow> bool" where
  "cache_inv s \<longleftrightarrow> distinct (map fst (bp_cache s)) \<and>
     (\<forall>p e. map_of (bp_cache s) p = Some e \<longrightarrow>
        1 \<le> p \<and> p \<le> page_count (pg_header s) \<and> length (e_data e) = PAGE_SIZE
        \<and> (\<not> e_dirty e \<longrightarrow> e_data e = file_page (pg_file s) p))"

text \<open>
  The journal of a transaction that has one: unsealed, holding the original image of every page that
  existed at its start and was since handed out for writing, each once.
\<close>

definition journal_inv :: "pool \<Rightarrow> txn \<Rightarrow> bool" where
  "journal_inv s t \<longleftrightarrow>
     (case tx_journal t of
        None \<Rightarrow> (\<forall>p \<in> set (tx_journalled t). tx_page_count_before t < p) \<and> (pg_path s = None \<or> pg_jfile s = None)
      | Some j \<Rightarrow> \<exists>rs. pg_jfile s = Some (journal_bytes unsealed (j_nonce j) (tx_page_count_before t) rs)
          \<and> j_nrec j = length rs \<and> j_nonce j < 2 ^ 32 \<and> originals (pg_file s) (tx_page_count_before t) rs
          \<and> distinct (map fst rs) \<and> fst ` set rs = {p \<in> set (tx_journalled t). p \<le> tx_page_count_before t})"

definition txn_inv :: "pool \<Rightarrow> bool" where
  "txn_inv s \<longleftrightarrow> page_count (pg_header s) < 2 ^ 32 \<and> bp_nonce s < 2 ^ 32 \<and>
     (case bp_txn s of
        None \<Rightarrow> pg_txn s = None
      | Some t \<Rightarrow> pg_txn s = Some False \<and> tx_page_count_before t \<le> page_count (pg_header s)
          \<and> journal_inv s t
          \<and> (\<forall>p. dirty_page s p \<longrightarrow> p \<in> set (tx_journalled t) \<or> tx_page_count_before t < p))"

definition pool_inv :: "pool \<Rightarrow> bool" where
  "pool_inv s \<longleftrightarrow> cache_inv s \<and> txn_inv s"

text \<open>A step clients cannot see: no page reads differently, and only cache and counters moved.\<close>

definition same_view :: "pool \<Rightarrow> pool \<Rightarrow> bool" where
  "same_view s s' \<longleftrightarrow> view s' = view s \<and> pg_path s' = pg_path s \<and> pg_header s' = pg_header s
     \<and> pg_txn s' = pg_txn s \<and> pg_jfile s' = pg_jfile s \<and> bp_txn s' = bp_txn s \<and> bp_nonce s' = bp_nonce s
     \<and> bp_capacity s' = bp_capacity s
     \<and> (\<forall>p. dirty_page s' p \<longrightarrow> dirty_page s p) \<and> (bp_txn s \<noteq> None \<longrightarrow> pg_file s' = pg_file s)
     \<and> (\<forall>p. pins s p \<le> pins s' p \<and> (dirty_page s p \<longrightarrow> 0 < pins s p \<longrightarrow> dirty_page s' p))"

lemma same_view_refl [simp]: "same_view s s"
  by (simp add: same_view_def)

lemma same_view_trans: "same_view s s' \<Longrightarrow> same_view s' s'' \<Longrightarrow> same_view s s''"
  unfolding same_view_def by (metis le_trans less_le_trans)

lemma txn_inv_same_view:
  assumes "txn_inv s" and "same_view s s'"
  shows "txn_inv s'"
proof (cases "bp_txn s")
  case None
  with assms show ?thesis by (simp add: txn_inv_def same_view_def)
next
  case (Some t)
  with assms(2) have "pg_file s' = pg_file s" "pg_jfile s' = pg_jfile s" "pg_path s' = pg_path s" "bp_txn s' = Some t"
    by (simp_all add: same_view_def)
  moreover from this have "journal_inv s' t = journal_inv s t" by (simp add: journal_inv_def split: option.split)
  ultimately show ?thesis using assms Some by (simp add: txn_inv_def same_view_def)
qed

lemma cache_invD:
  assumes "cache_inv s" and "map_of (bp_cache s) p = Some e"
  shows "1 \<le> p" and "p \<le> page_count (pg_header s)" and "length (e_data e) = PAGE_SIZE"
    and "\<not> e_dirty e \<Longrightarrow> e_data e = file_page (pg_file s) p"
  using assms by (auto simp: cache_inv_def)

section \<open>Eviction\<close>

text \<open>Dropping a clean or written-back entry is invisible.\<close>

lemma delete_clean:
  assumes inv: "cache_inv s" and e: "map_of (bp_cache s) p = Some e" "e_pin e = 0"
    and f: "f = (if e_dirty e then file_write (page_offset p) (e_data e) (pg_file s) else pg_file s)"
    and txn: "e_dirty e \<longrightarrow> bp_txn s = None"
  defines "s' \<equiv> s\<lparr>pg_file := f, bp_cache := od_delete p (bp_cache s)\<rparr>"
  shows "cache_inv s'" and "same_view s s'" and "pins s' = pins s"
proof -
  note D = cache_invD [OF inv e(1)]
  have fp: "file_page f q = (if q = p then e_data e else file_page (pg_file s) q)" if "1 \<le> q" for q
    using D that by (auto simp: f file_page_write)
  show "cache_inv s'"
    using inv fp by (auto simp: cache_inv_def s'_def map_of_od_delete distinct_od_delete split: if_splits)
  have "view s' q = view s q" for q
    using e D(1) fp [of q] by (cases "q = 0") (auto simp: view_def s'_def map_of_od_delete split: option.splits)
  then show "same_view s s'"
    using txn e by (auto simp: same_view_def s'_def dirty_page_def pins_def map_of_od_delete f split: if_splits)
  show "pins s' = pins s"
    using e by (auto simp: pins_def s'_def map_of_od_delete)
qed

text \<open>
  The scan succeeds as soon as some entry it will meet is unpinned: it evicts one, or leaves the
  pool to grow because every unpinned page is dirty inside a transaction.
\<close>

lemma evict_loop_spec:
  assumes "pool_inv s" and "set xs \<subseteq> set (bp_cache s)" and "saw \<or> (\<exists>(p, e) \<in> set xs. e_pin e = 0)"
  shows "\<exists>s'. evict_loop xs saw s = (Inr (), s') \<and> pool_inv s' \<and> same_view s s' \<and> pins s' = pins s
    \<and> (\<forall>q. map_of (bp_cache s) q = None \<longrightarrow> map_of (bp_cache s') q = None)"
  using assms
proof (induction xs arbitrary: saw)
  case (Cons x xs)
  obtain p e where x: "x = (p, e)" by (cases x)
  have inv: "cache_inv s" and tinv: "txn_inv s" using Cons.prems(1) by (simp_all add: pool_inv_def)
  have m: "map_of (bp_cache s) p = Some e"
    using Cons.prems(2) inv by (simp add: x cache_inv_def map_of_is_SomeI)
  consider "0 < e_pin e" | "e_pin e = 0" "e_dirty e" "bp_txn s \<noteq> None"
    | "e_pin e = 0" "e_dirty e \<longrightarrow> bp_txn s = None" by fastforce
  then show ?case
  proof cases
    case 3
    define f where "f = (if e_dirty e then file_write (page_offset p) (e_data e) (pg_file s) else pg_file s)"
    note del = delete_clean [OF inv m 3(1) f_def 3(2)]
    have "e_dirty e \<Longrightarrow> write_page p (e_data e) s = (Inr (), s\<lparr>pg_file := f\<rparr>)"
      using cache_invD [OF inv m] 3(2) tinv by (simp add: write_page_def f_def txn_inv_def)
    then have "evict_loop (x # xs) saw s = (Inr (), s\<lparr>pg_file := f, bp_cache := od_delete p (bp_cache s)\<rparr>)"
      using 3 by (cases "e_dirty e") (auto simp: x bind_op_def modify_def skip_def ret_def f_def)
    with del txn_inv_same_view [OF tinv del(2)] show ?thesis by (auto simp: pool_inv_def map_of_od_delete)
  qed (use Cons x in auto)
qed auto

text \<open>Room to bring in a page: the cache is not full, or something in it can go.\<close>

definition room :: "pool \<Rightarrow> bool" where
  "room s \<longleftrightarrow> length (bp_cache s) < bp_capacity s \<or> (\<exists>(p, e) \<in> set (bp_cache s). e_pin e = 0)"

lemma make_room_spec:
  assumes "pool_inv s" and "room s"
  shows "\<exists>s'. (if bp_capacity s \<le> length (bp_cache s) then evict_one else skip) s = (Inr (), s')
    \<and> pool_inv s' \<and> same_view s s' \<and> pins s' = pins s
    \<and> (\<forall>q. map_of (bp_cache s) q = None \<longrightarrow> map_of (bp_cache s') q = None)"
  using assms evict_loop_spec [OF assms(1), of "bp_cache s" False]
  by (auto simp: room_def evict_one_def skip_def ret_def)

section \<open>Fetching and releasing\<close>

lemma get_page_spec:
  assumes inv: "pool_inv s" and p: "1 \<le> p" "p \<le> page_count (pg_header s)" and room: "room s \<or> map_of (bp_cache s) p \<noteq> None"
  obtains s' where "get_page p s = (Inr (view s p), s')" and "pool_inv s'" and "same_view s s'"
    and "pins s' = (pins s)(p := pins s p + 1)"
proof (cases "map_of (bp_cache s) p")
  case (Some e)
  define s' where "s' = s\<lparr>bp_cache := od_move_to_end p (od_update p (\<lambda>e. e\<lparr>e_pin := e_pin e + 1\<rparr>) (bp_cache s)),
      bp_hits := bp_hits s + 1\<rparr>"
  have m: "map_of (bp_cache s') q = (if q = p then Some (e\<lparr>e_pin := e_pin e + 1\<rparr>) else map_of (bp_cache s) q)" for q
    using Some by (simp add: s'_def od_maps)
  have fs: "pg_file s' = pg_file s" "pg_header s' = pg_header s" by (simp_all add: s'_def)
  have sv: "same_view s s'"
    using Some by (auto simp: same_view_def view_def dirty_page_def pins_def m fs fun_eq_iff split: option.splits) (simp_all add: s'_def)
  have "distinct (map fst (bp_cache s'))"
    using inv by (simp add: s'_def pool_inv_def cache_inv_def distinct_od_move)
  then have "cache_inv s'"
    using inv Some by (auto simp: cache_inv_def pool_inv_def m fs split: if_splits)
  moreover have "get_page p s = (Inr (view s p), s')" using Some by (simp add: get_page_def s'_def view_def)
  moreover have "pins s' = (pins s)(p := pins s p + 1)" using Some by (auto simp: pins_def m fun_eq_iff)
  ultimately show ?thesis
    using that [of s'] sv txn_inv_same_view [OF _ sv] inv by (simp add: pool_inv_def)
next
  case None
  then have "room s" using room by simp
  obtain s1 where ev: "(if bp_capacity s \<le> length (bp_cache s) then evict_one else skip) s = (Inr (), s1)"
    and s1: "pool_inv s1" "same_view s s1" "pins s1 = pins s" "map_of (bp_cache s1) p = None"
    using make_room_spec [OF inv \<open>room s\<close>] None by blast
  define data where "data = file_page (pg_file s1) p"
  define s' where "s' = s1\<lparr>bp_cache := bp_cache s1 @ [(p, \<lparr>e_data = data, e_pin = 1, e_dirty = False\<rparr>)],
      bp_misses := bp_misses s1 + 1\<rparr>"
  have "page_count (pg_header s1) = page_count (pg_header s)" using s1(2) by (simp add: same_view_def)
  then have "read_page p s1 = (Inr data, s1)" using p by (simp add: read_page_def data_def)
  then have run: "get_page p s = (Inr data, s')"
    using None ev by (simp add: get_page_def bind_op_def s'_def)
  have m: "map_of (bp_cache s') q = (if q = p then Some \<lparr>e_data = data, e_pin = 1, e_dirty = False\<rparr> else map_of (bp_cache s1) q)" for q
    using s1(4) by (auto simp: s'_def map_add_def split: option.splits)
  have fs: "pg_file s' = pg_file s1" "pg_header s' = pg_header s1" by (simp_all add: s'_def)
  have sv: "same_view s1 s'"
    using s1(4) p by (auto simp: same_view_def view_def dirty_page_def pins_def m fs fun_eq_iff data_def split: option.splits)
      (simp_all add: s'_def)
  have "distinct (map fst (bp_cache s'))"
    using s1(1,4) by (auto simp: s'_def pool_inv_def cache_inv_def map_of_eq_None_iff)
  then have "cache_inv s'"
    using s1 p by (auto simp: cache_inv_def pool_inv_def m fs data_def same_view_def split: if_splits)
  moreover have "txn_inv s'" using txn_inv_same_view [OF _ sv] s1(1) by (simp add: pool_inv_def)
  moreover have "view s1 p = data" using s1(4) p by (simp add: view_def data_def)
  then have "data = view s p" using s1(2) by (simp add: same_view_def)
  moreover have "pins s' = (pins s)(p := pins s p + 1)"
    using None s1(3) by (auto simp: pins_def m fun_eq_iff split: option.splits)
  ultimately show ?thesis
    using that [of s'] run same_view_trans [OF s1(2) sv] by (simp add: pool_inv_def)
qed

text \<open>What a fetch for writing may change beside the cache: the journal, never the file's header.\<close>

definition frame :: "pool \<Rightarrow> pool \<Rightarrow> bool" where
  "frame s s' \<longleftrightarrow> pg_path s' = pg_path s \<and> pg_header s' = pg_header s \<and> pg_txn s' = pg_txn s
     \<and> bp_nonce s' = bp_nonce s \<and> bp_capacity s' = bp_capacity s
     \<and> map_option tx_page_count_before (bp_txn s') = map_option tx_page_count_before (bp_txn s)
     \<and> (bp_txn s \<noteq> None \<longrightarrow> pg_file s' = pg_file s)"

lemma frame_refl [simp]: "frame s s"
  by (simp add: frame_def)

lemma frame_trans: "frame s s' \<Longrightarrow> frame s' s'' \<Longrightarrow> frame s s''"
  by (auto simp: frame_def)

lemma same_view_frame: "same_view s s' \<Longrightarrow> frame s s'"
  by (auto simp: same_view_def frame_def)

lemma view_cong: "bp_cache s' = bp_cache s \<Longrightarrow> pg_file s' = pg_file s \<Longrightarrow> view s' = view s"
  by (simp add: view_def fun_eq_iff split: option.split)

lemma dirty_cong: "bp_cache s' = bp_cache s \<Longrightarrow> dirty_page s' = dirty_page s"
  by (simp add: dirty_page_def fun_eq_iff)

lemma cache_inv_cong:
  "bp_cache s' = bp_cache s \<Longrightarrow> pg_file s' = pg_file s \<Longrightarrow> pg_header s' = pg_header s \<Longrightarrow> cache_inv s' = cache_inv s"
  by (simp add: cache_inv_def)

text \<open>The transaction's part of the invariant survives any change of the cache that dirties only journalled pages.\<close>

definition same_core :: "pool \<Rightarrow> pool \<Rightarrow> bool" where
  "same_core s s' \<longleftrightarrow> pg_file s' = pg_file s \<and> pg_header s' = pg_header s \<and> bp_txn s' = bp_txn s \<and> pg_txn s' = pg_txn s
     \<and> pg_jfile s' = pg_jfile s \<and> pg_path s' = pg_path s \<and> bp_nonce s' = bp_nonce s \<and> bp_capacity s' = bp_capacity s"

lemma same_core_cache [simp]: "same_core s (s\<lparr>bp_cache := c\<rparr>)"
  by (simp add: same_core_def)

lemma same_core_frame: "same_core s s' \<Longrightarrow> frame s s'"
  by (simp add: same_core_def frame_def)

lemma txn_inv_core:
  assumes "txn_inv s" and "same_core s s'"
    and "\<And>q t. bp_txn s = Some t \<Longrightarrow> dirty_page s' q \<Longrightarrow>
      dirty_page s q \<or> q \<in> set (tx_journalled t) \<or> tx_page_count_before t < q"
  shows "txn_inv s'"
proof (cases "bp_txn s")
  case None
  then show ?thesis using assms(1,2) by (simp add: txn_inv_def same_core_def)
next
  case (Some t)
  have "journal_inv s' t = journal_inv s t"
    using assms(2) by (simp add: journal_inv_def same_core_def split: option.split)
  then show ?thesis using assms Some by (simp add: txn_inv_def same_core_def) blast
qed

text \<open>Recording one more original keeps the journal faithful.\<close>

lemma will_modify_record:
  assumes t: "bp_txn s = Some t" and inv: "txn_inv s" and p: "1 \<le> p" "p \<le> tx_page_count_before t"
    and new: "p \<notin> set (tx_journalled t)"
  obtains jf t' where "will_modify p s = (Inr (), s\<lparr>pg_jfile := jf, bp_txn := Some t'\<rparr>)"
    and "journal_inv (s\<lparr>pg_jfile := jf, bp_txn := Some t'\<rparr>) t'"
    and "tx_page_count_before t' = tx_page_count_before t" and "tx_journalled t' = p # tx_journalled t"
proof -
  let ?n = "tx_page_count_before t" and ?d = "file_page (pg_file s) p"
  have n: "?n \<le> page_count (pg_header s)" "page_count (pg_header s) < 2 ^ 32" "bp_nonce s < 2 ^ 32" "journal_inv s t"
    using inv t by (simp_all add: txn_inv_def)
  have ok: "image_ok (p, ?d)" using p n by (simp add: image_ok_def)
  obtain j rs s1 where j: "ensure_journal t s = (Inr j, s1)"
    and s1: "s1 = s\<lparr>pg_jfile := Some (journal_bytes unsealed (j_nonce j) ?n rs), bp_txn := bp_txn s1\<rparr>"
    and rs: "j_nrec j = length rs" "j_nonce j < 2 ^ 32" "originals (pg_file s) ?n rs" "distinct (map fst rs)"
      "fst ` set rs = {q \<in> set (tx_journalled t). q \<le> ?n}"
  proof (cases "tx_journal t")
    case None
    with n(4) have old: "\<forall>q \<in> set (tx_journalled t). ?n < q" "pg_path s = None \<or> pg_jfile s = None"
      by (simp_all add: journal_inv_def)
    have "journal_begin (bp_nonce s) ?n s = (Inr \<lparr>j_nonce = bp_nonce s, j_nrec = 0\<rparr>,
        s\<lparr>pg_jfile := Some (journal_bytes unsealed (bp_nonce s) ?n [])\<rparr>)"
      using journal_begin_fresh [OF old(2) n(3), of ?n] n(1,2) by simp
    with None old n(3) show ?thesis
      by (intro that [of "\<lparr>j_nonce = bp_nonce s, j_nrec = 0\<rparr>" _ "[]"])
        (auto simp: ensure_journal_def bind_op_def modify_def ret_def originals_def)
  next
    case (Some j)
    with n(4) obtain rs where "pg_jfile s = Some (journal_bytes unsealed (j_nonce j) ?n rs)" "j_nrec j = length rs"
      "j_nonce j < 2 ^ 32" "originals (pg_file s) ?n rs" "distinct (map fst rs)"
      "fst ` set rs = {q \<in> set (tx_journalled t). q \<le> ?n}"
      by (auto simp: journal_inv_def)
    with Some show ?thesis by (intro that [of j s rs]) (simp_all add: ensure_journal_def)
  qed
  define jf where "jf = Some (journal_bytes unsealed (j_nonce j) ?n (rs @ [(p, ?d)]))"
  define t' where "t' = mark_journalled p (t\<lparr>tx_journal := Some (j\<lparr>j_nrec := j_nrec j + 1\<rparr>)\<rparr>)"
  have s1f: "pg_jfile s1 = Some (journal_bytes unsealed (j_nonce j) ?n rs)" "pg_file s1 = pg_file s" "pg_header s1 = pg_header s"
    by (subst s1; simp)+
  have rd: "read_page p s1 = (Inr ?d, s1)" using p n by (simp add: read_page_def s1f)
  have rc: "record_original j p ?d s1 = (Inr (j\<lparr>j_nrec := j_nrec j + 1\<rparr>), s1\<lparr>pg_jfile := jf\<rparr>)"
    using record_original_append [OF s1f(1) ok] by (simp add: jf_def)
  have "s1\<lparr>pg_jfile := jf, bp_txn := Some t'\<rparr> = s\<lparr>pg_jfile := jf, bp_txn := Some t'\<rparr>"
    by (subst s1) simp
  then have "will_modify p s = (Inr (), s\<lparr>pg_jfile := jf, bp_txn := Some t'\<rparr>)"
    using new p j rd rc by (simp add: will_modify_def t bind_op_def modify_def t'_def)
  moreover have "journal_inv (s\<lparr>pg_jfile := jf, bp_txn := Some t'\<rparr>) t'"
  proof -
    have "p \<notin> fst ` set rs" unfolding rs(5) using new by simp
    then have "distinct (map fst (rs @ [(p, ?d)]))" using rs(4) by simp
    moreover have "originals (pg_file s) ?n (rs @ [(p, ?d)])" using rs(3) p by (auto simp: originals_def)
    moreover have "fst ` set (rs @ [(p, ?d)]) = {q \<in> set (p # tx_journalled t). q \<le> ?n}" using rs(5) p by auto
    ultimately show ?thesis
      unfolding journal_inv_def using rs(1,2)
      by (simp add: t'_def mark_journalled_def jf_def del: map_append set_append) (intro exI [of _ "rs @ [(p, ?d)]"], simp)
  qed
  ultimately show ?thesis using that by (simp add: t'_def mark_journalled_def)
qed

lemma txn_inv_mark:
  assumes inv: "txn_inv s" and t: "bp_txn s = Some t" and j: "journal_inv (s\<lparr>pg_jfile := jf, bp_txn := Some t'\<rparr>) t'"
    and t': "tx_page_count_before t' = tx_page_count_before t" "tx_journalled t' = p # tx_journalled t"
  shows "txn_inv (s\<lparr>pg_jfile := jf, bp_txn := Some t'\<rparr>)"
proof -
  let ?s' = "s\<lparr>pg_jfile := jf, bp_txn := Some t'\<rparr>"
  have d: "dirty_page ?s' = dirty_page s" by (rule dirty_cong) simp
  note inv' = inv [unfolded txn_inv_def t option.case]
  have "\<forall>q. dirty_page ?s' q \<longrightarrow> q \<in> set (tx_journalled t') \<or> tx_page_count_before t' < q"
    unfolding d t' using inv' by (metis list.set_intros(2))
  with inv' j t'(1) show ?thesis unfolding txn_inv_def by simp
qed

lemma journal_inv_grown:
  assumes "journal_inv s t" and "tx_page_count_before t < p"
  shows "journal_inv (s\<lparr>pg_jfile := pg_jfile s, bp_txn := Some (mark_journalled p t)\<rparr>) (mark_journalled p t)"
proof -
  have "{q \<in> set (tx_journalled (mark_journalled p t)). q \<le> tx_page_count_before t}
      = {q \<in> set (tx_journalled t). q \<le> tx_page_count_before t}"
    using assms(2) by (auto simp: mark_journalled_def)
  then show ?thesis
    using assms by (cases "tx_journal t") (simp_all add: journal_inv_def mark_journalled_def)
qed

lemma will_modify_spec:
  assumes inv: "pool_inv s" and p: "1 \<le> p" "p \<le> page_count (pg_header s)"
  obtains jf tx where "will_modify p s = (Inr (), s\<lparr>pg_jfile := jf, bp_txn := tx\<rparr>)"
    and "pool_inv (s\<lparr>pg_jfile := jf, bp_txn := tx\<rparr>)" and "frame s (s\<lparr>pg_jfile := jf, bp_txn := tx\<rparr>)"
    and "\<And>t'. tx = Some t' \<Longrightarrow> p \<in> set (tx_journalled t')"
proof -
  have c: "cache_inv (s\<lparr>pg_jfile := jf, bp_txn := tx\<rparr>)" for jf tx
    using inv cache_inv_cong [of "s\<lparr>pg_jfile := jf, bp_txn := tx\<rparr>" s] by (simp add: pool_inv_def)
  have t: "txn_inv s" using inv by (simp add: pool_inv_def)
  have id: "s\<lparr>pg_jfile := pg_jfile s, bp_txn := bp_txn s\<rparr> = s" by simp
  show ?thesis
  proof (cases "bp_txn s")
    case None
    then show ?thesis
      by (intro that [where jf = "pg_jfile s" and tx = "bp_txn s", unfolded id]) (simp_all add: inv will_modify_def)
  next
    case (Some t)
    note tinv = t [unfolded txn_inv_def Some option.case]
    consider (old) "p \<in> set (tx_journalled t)"
      | (grown) "p \<notin> set (tx_journalled t)" "tx_page_count_before t < p"
      | (rec) "p \<notin> set (tx_journalled t)" "p \<le> tx_page_count_before t" by linarith
    then show ?thesis
    proof cases
      case old
      then show ?thesis
        by (intro that [where jf = "pg_jfile s" and tx = "bp_txn s", unfolded id]) (simp_all add: inv Some will_modify_def)
    next
      case grown
      note ji = journal_inv_grown [OF _ grown(2)]
      have "txn_inv (s\<lparr>pg_jfile := pg_jfile s, bp_txn := Some (mark_journalled p t)\<rparr>)"
        using tinv by (intro txn_inv_mark [OF t Some ji]) (simp_all add: mark_journalled_def)
      then show ?thesis
        using c [where jf = "pg_jfile s" and tx = "Some (mark_journalled p t)"] grown Some
        by (intro that [where jf = "pg_jfile s" and tx = "Some (mark_journalled p t)"])
          (auto simp: will_modify_def pool_inv_def frame_def mark_journalled_def)
    next
      case rec
      show ?thesis
      proof (rule will_modify_record [OF Some t p(1) rec(2,1)])
        fix jf t'
        assume w: "will_modify p s = (Inr (), s\<lparr>pg_jfile := jf, bp_txn := Some t'\<rparr>)"
          "journal_inv (s\<lparr>pg_jfile := jf, bp_txn := Some t'\<rparr>) t'"
          "tx_page_count_before t' = tx_page_count_before t" "tx_journalled t' = p # tx_journalled t"
        show ?thesis
          using w(1) c txn_inv_mark [OF t Some w(2-4)] w(3,4) Some
          by (intro that [where jf = jf and tx = "Some t'"]) (simp_all add: pool_inv_def frame_def)
      qed
    qed
  qed
qed

lemma mark_dirty_spec:
  assumes inv: "pool_inv s" and p: "0 < pins s p" and j: "\<And>t. bp_txn s = Some t \<Longrightarrow> p \<in> set (tx_journalled t)"
  defines "s' \<equiv> s\<lparr>bp_cache := od_update p (\<lambda>e. e\<lparr>e_dirty := True\<rparr>) (bp_cache s)\<rparr>"
  shows "pool_inv s'" and "view s' = view s" and "frame s s'" and "pins s' = pins s" and "dirty_page s' p"
proof -
  have m: "map_of (bp_cache s') q = (if q = p then map_option (\<lambda>e. e\<lparr>e_dirty := True\<rparr>) (map_of (bp_cache s) q) else map_of (bp_cache s) q)" for q
    by (simp add: s'_def map_of_od_update)
  have cached: "map_of (bp_cache s) p \<noteq> None" using p by (auto simp: pins_def split: option.splits)
  have core: "same_core s s'" by (simp add: s'_def)
  then have fs: "pg_file s' = pg_file s" "pg_header s' = pg_header s" by (simp_all add: same_core_def)
  have "distinct (map fst (bp_cache s'))" using inv by (simp add: s'_def pool_inv_def cache_inv_def)
  then have "cache_inv s'"
    using inv by (auto simp: cache_inv_def pool_inv_def m fs split: if_splits)
  moreover have dp: "dirty_page s' q \<Longrightarrow> q = p \<or> dirty_page s q" for q
    by (auto simp: dirty_page_def m split: if_splits)
  have "txn_inv s'"
  proof (rule txn_inv_core [OF _ core])
    show "txn_inv s" using inv by (simp add: pool_inv_def)
    show "dirty_page s q \<or> q \<in> set (tx_journalled t) \<or> tx_page_count_before t < q"
      if "bp_txn s = Some t" "dirty_page s' q" for q t using j [OF that(1)] dp [OF that(2)] by auto
  qed
  ultimately show "pool_inv s'" by (simp add: pool_inv_def)
  show "view s' = view s" by (auto simp: view_def fun_eq_iff m fs split: option.splits)
  show "pins s' = pins s" by (auto simp: pins_def fun_eq_iff m split: option.splits)
  show "frame s s'" by (rule same_core_frame [OF core])
  show "dirty_page s' p" using cached by (auto simp: dirty_page_def m)
qed

lemma get_page_for_write_spec:
  assumes inv: "pool_inv s" and p: "1 \<le> p" "p \<le> page_count (pg_header s)"
    and room: "room s \<or> map_of (bp_cache s) p \<noteq> None"
  obtains s' where "get_page_for_write p s = (Inr (view s p), s')" and "pool_inv s'" and "view s' = view s"
    and "frame s s'" and "pins s' = (pins s)(p := pins s p + 1)" and "dirty_page s' p"
    and "\<And>q. dirty_page s q \<Longrightarrow> 0 < pins s q \<Longrightarrow> dirty_page s' q"
proof (rule will_modify_spec [OF inv p])
  fix jf tx
  define s1 where "s1 = s\<lparr>pg_jfile := jf, bp_txn := tx\<rparr>"
  assume w: "will_modify p s = (Inr (), s\<lparr>pg_jfile := jf, bp_txn := tx\<rparr>)"
    and "pool_inv (s\<lparr>pg_jfile := jf, bp_txn := tx\<rparr>)" "frame s (s\<lparr>pg_jfile := jf, bp_txn := tx\<rparr>)"
    and j: "\<And>t'. tx = Some t' \<Longrightarrow> p \<in> set (tx_journalled t')"
  then have s1: "pool_inv s1" "frame s s1" and w1: "will_modify p s = (Inr (), s1)" by (simp_all add: s1_def)
  have eqs: "bp_cache s1 = bp_cache s" "pg_file s1 = pg_file s" "page_count (pg_header s1) = page_count (pg_header s)"
    "bp_capacity s1 = bp_capacity s" "bp_txn s1 = tx" by (simp_all add: s1_def)
  have v1: "view s1 = view s" using eqs by (intro view_cong)
  have pi1: "pins s1 = pins s" by (simp add: pins_def fun_eq_iff eqs)
  have room1: "room s1 \<or> map_of (bp_cache s1) p \<noteq> None" using room by (simp add: room_def eqs)
  have p1: "p \<le> page_count (pg_header s1)" using p(2) by (simp add: eqs)
  show ?thesis
  proof (rule get_page_spec [OF s1(1) p(1) p1 room1])
    fix s2
    assume g: "get_page p s1 = (Inr (view s1 p), s2)" and s2: "pool_inv s2" "same_view s1 s2"
      and pi2: "pins s2 = (pins s1)(p := pins s1 p + 1)"
    have "bp_txn s2 = tx" "view s2 = view s1" using s2(2) by (simp_all add: same_view_def eqs)
    moreover have pos: "0 < pins s2 p" by (simp add: pi2)
    ultimately have d: "pool_inv (s2\<lparr>bp_cache := od_update p (\<lambda>e. e\<lparr>e_dirty := True\<rparr>) (bp_cache s2)\<rparr>)"
      "view (s2\<lparr>bp_cache := od_update p (\<lambda>e. e\<lparr>e_dirty := True\<rparr>) (bp_cache s2)\<rparr>) = view s"
      "frame s2 (s2\<lparr>bp_cache := od_update p (\<lambda>e. e\<lparr>e_dirty := True\<rparr>) (bp_cache s2)\<rparr>)"
      "pins (s2\<lparr>bp_cache := od_update p (\<lambda>e. e\<lparr>e_dirty := True\<rparr>) (bp_cache s2)\<rparr>) = (pins s)(p := pins s p + 1)"
      "dirty_page (s2\<lparr>bp_cache := od_update p (\<lambda>e. e\<lparr>e_dirty := True\<rparr>) (bp_cache s2)\<rparr>) p"
      using mark_dirty_spec [OF s2(1) pos] j v1 pi1 pi2 by simp_all
    have "get_page_for_write p s = (Inr (view s p), s2\<lparr>bp_cache := od_update p (\<lambda>e. e\<lparr>e_dirty := True\<rparr>) (bp_cache s2)\<rparr>)"
      using w1 g v1 by (simp add: get_page_for_write_def bind_op_def modify_def ret_def)
    moreover note frame_trans [OF s1(2) frame_trans [OF same_view_frame [OF s2(2)] d(3)]]
    moreover have "dirty_page (s2\<lparr>bp_cache := od_update p (\<lambda>e. e\<lparr>e_dirty := True\<rparr>) (bp_cache s2)\<rparr>) q"
      if "dirty_page s q" "0 < pins s q" for q
    proof -
      have "dirty_page s1 q" "0 < pins s1 q" using that dirty_cong [OF eqs(1)] pi1 by simp_all
      then have "dirty_page s2 q" using s2(2) by (simp add: same_view_def)
      then show ?thesis by (auto simp: dirty_page_def map_of_od_update split: option.splits)
    qed
    ultimately show ?thesis using that d by simp
  qed
qed

lemma store_page_spec:
  assumes inv: "pool_inv s" and d: "dirty_page s p" "length data = PAGE_SIZE"
  obtains s' where "store_page p data s = (Inr (), s')" and "pool_inv s'" and "view s' = (view s)(p := data)"
    and "frame s s'" and "pins s' = pins s" and "dirty_page s' = dirty_page s"
proof -
  define s' where "s' = s\<lparr>bp_cache := od_update p (\<lambda>e. e\<lparr>e_data := data\<rparr>) (bp_cache s)\<rparr>"
  have m: "map_of (bp_cache s') q = (if q = p then map_option (\<lambda>e. e\<lparr>e_data := data\<rparr>) (map_of (bp_cache s) q) else map_of (bp_cache s) q)" for q
    by (simp add: s'_def map_of_od_update)
  obtain e where e: "map_of (bp_cache s) p = Some e" "e_dirty e" using d(1) by (auto simp: dirty_page_def split: option.splits)
  have core: "same_core s s'" by (simp add: s'_def)
  then have fs: "pg_file s' = pg_file s" "pg_header s' = pg_header s" "pg_jfile s' = pg_jfile s" "bp_txn s' = bp_txn s"
    by (simp_all add: same_core_def)
  have "distinct (map fst (bp_cache s'))" using inv by (simp add: s'_def pool_inv_def cache_inv_def)
  then have "cache_inv s'"
    using inv d(2) e by (auto simp: cache_inv_def pool_inv_def m fs split: if_splits)
  moreover have dp: "dirty_page s' = dirty_page s" by (auto simp: dirty_page_def m fun_eq_iff split: option.splits)
  moreover have "txn_inv s'" using txn_inv_core [OF _ core] inv dp by (simp add: pool_inv_def)
  moreover have "view s' = (view s)(p := data)" using e by (auto simp: view_def fun_eq_iff m fs split: option.splits)
  moreover have "pins s' = pins s" by (auto simp: pins_def fun_eq_iff m split: option.splits)
  moreover note same_core_frame [OF core]
  moreover have "store_page p data s = (Inr (), s')" by (simp add: store_page_def modify_def s'_def)
  ultimately show ?thesis using that [of s'] by (simp add: pool_inv_def)
qed

lemma unpin_spec:
  assumes inv: "pool_inv s" and p: "0 < pins s p"
  obtains s' where "unpin p False s = (Inr (), s')" and "pool_inv s'" and "view s' = view s"
    and "frame s s'" and "pins s' = (pins s)(p := pins s p - 1)" and "dirty_page s' = dirty_page s"
    and "pg_jfile s' = pg_jfile s" and "bp_txn s' = bp_txn s"
proof -
  define s' where "s' = s\<lparr>bp_cache := od_update p (\<lambda>e. e\<lparr>e_pin := e_pin e - 1\<rparr>) (bp_cache s)\<rparr>"
  have m: "map_of (bp_cache s') q = (if q = p then map_option (\<lambda>e. e\<lparr>e_pin := e_pin e - 1\<rparr>) (map_of (bp_cache s) q) else map_of (bp_cache s) q)" for q
    by (simp add: s'_def map_of_od_update)
  obtain e where e: "map_of (bp_cache s) p = Some e" "0 < e_pin e" using p by (auto simp: pins_def split: option.splits)
  have core: "same_core s s'" by (simp add: s'_def)
  then have fs: "pg_file s' = pg_file s" "pg_header s' = pg_header s" "pg_jfile s' = pg_jfile s" "bp_txn s' = bp_txn s"
    by (simp_all add: same_core_def)
  have "distinct (map fst (bp_cache s'))" using inv by (simp add: s'_def pool_inv_def cache_inv_def)
  then have "cache_inv s'"
    using inv e by (auto simp: cache_inv_def pool_inv_def m fs split: if_splits)
  moreover have dp: "dirty_page s' = dirty_page s" by (auto simp: dirty_page_def m fun_eq_iff split: option.splits)
  moreover have "txn_inv s'" using txn_inv_core [OF _ core] inv dp by (simp add: pool_inv_def)
  moreover have "view s' = view s" using e by (auto simp: view_def fun_eq_iff m fs split: option.splits)
  moreover have "pins s' = (pins s)(p := pins s p - 1)" by (auto simp: pins_def fun_eq_iff m split: option.splits)
  moreover note same_core_frame [OF core]
  moreover have "unpin p False s = (Inr (), s')"
  proof -
    have "(\<lambda>e. e\<lparr>e_pin := e_pin e - 1, e_dirty := e_dirty e \<or> False\<rparr>) = (\<lambda>e. e\<lparr>e_pin := e_pin e - 1\<rparr> :: entry)"
      by (rule ext) simp
    then show ?thesis using e unfolding unpin_def s'_def by simp
  qed
  ultimately show ?thesis using that [of s'] fs by (simp add: pool_inv_def)
qed

end
