(* ===== verification/PageStore.thy ===== *)
theory PageStore
  imports Effects Constants
begin

text \<open>
  The contract the b-tree and overflow code relies on when it is handed a \<^verbatim>\<open>pool\<close>: pages can be
  allocated, loaded, updated in place and released, each of these succeeds and touches only the page
  it names; the pages in \<open>busy\<close> are held by the caller and may not be released. The buffer pool
  provides it.
\<close>

locale page_store =
  fixes inv :: "'s \<Rightarrow> bool"
    and pages :: "'s \<Rightarrow> nat \<Rightarrow> bytes"
    and live :: "'s \<Rightarrow> nat set"
    and spare :: "'s \<Rightarrow> nat"
    and alloc :: "('s, nat) op"
    and load :: "nat \<Rightarrow> ('s, bytes) op"
    and update :: "nat \<Rightarrow> (bytes \<Rightarrow> bytes res) \<Rightarrow> ('s, unit) op"
    and release :: "nat \<Rightarrow> ('s, unit) op"
    and busy :: "nat set"
  assumes live_range: "inv s \<Longrightarrow> p \<in> live s \<Longrightarrow> 1 \<le> p \<and> p < 2 ^ 32"
    and busy_live: "inv s \<Longrightarrow> busy \<subseteq> live s"
    and finite_live: "inv s \<Longrightarrow> finite (live s)"
    and page_length: "inv s \<Longrightarrow> p \<in> live s \<Longrightarrow> length (pages s p) = PAGE_SIZE"
    and load_spec: "inv s \<Longrightarrow> p \<in> live s \<Longrightarrow>
      \<exists>s'. load p s = (Inr (pages s p), s') \<and> inv s' \<and> live s' = live s \<and> spare s' = spare s
         \<and> (\<forall>q \<in> live s. pages s' q = pages s q)"
    and update_spec: "inv s \<Longrightarrow> p \<in> live s \<Longrightarrow> g (pages s p) = Inr d \<Longrightarrow> length d = PAGE_SIZE \<Longrightarrow>
      \<exists>s'. update p g s = (Inr (), s') \<and> inv s' \<and> live s' = live s \<and> spare s' = spare s
         \<and> (\<forall>q \<in> live s. pages s' q = (if q = p then d else pages s q))"
    and alloc_spec: "inv s \<Longrightarrow> 0 < spare s \<Longrightarrow>
      \<exists>p s'. alloc s = (Inr p, s') \<and> inv s' \<and> p \<notin> live s \<and> live s' = insert p (live s)
         \<and> spare s' + 1 = spare s \<and> (\<forall>q \<in> live s. pages s' q = pages s q)"
    and release_spec: "inv s \<Longrightarrow> p \<in> live s \<Longrightarrow> p \<noteq> 1 \<Longrightarrow> p \<notin> busy \<Longrightarrow>
      \<exists>s'. release p s = (Inr (), s') \<and> inv s' \<and> live s' = live s - {p} \<and> spare s' = spare s + 1
         \<and> (\<forall>q \<in> live s'. pages s' q = pages s q)"
begin

text \<open>Allocating a run of pages: all fresh, all different, everything else left alone.\<close>

lemma alloc_many:
  assumes "inv s" and "n \<le> spare s"
  shows "\<exists>ids s'. map_op (\<lambda>_. alloc) [0..<n] s = (Inr ids, s') \<and> inv s' \<and> length ids = n \<and> distinct ids
    \<and> set ids \<inter> live s = {} \<and> live s' = live s \<union> set ids \<and> spare s' + n = spare s
    \<and> (\<forall>q \<in> live s. pages s' q = pages s q)"
proof -
  have "\<exists>ids s'. map_op (\<lambda>_. alloc) xs s = (Inr ids, s') \<and> inv s' \<and> length ids = length xs \<and> distinct ids
    \<and> set ids \<inter> live s = {} \<and> live s' = live s \<union> set ids \<and> spare s' + length xs = spare s
    \<and> (\<forall>q \<in> live s. pages s' q = pages s q)" if "inv s" "length xs \<le> spare s" for xs :: "nat list" and s
    using that
  proof (induction xs arbitrary: s)
    case (Cons x xs)
    have "0 < spare s" using Cons.prems(2) by simp
    then obtain p s1 where s1: "alloc s = (Inr p, s1)" "inv s1" "p \<notin> live s" "live s1 = insert p (live s)"
      "spare s1 + 1 = spare s" "\<forall>q \<in> live s. pages s1 q = pages s q"
      using alloc_spec [OF Cons.prems(1)] by blast
    have "length xs \<le> spare s1" using Cons.prems(2) s1(5) by simp
    from Cons.IH [OF s1(2) this] obtain ids s2 where s2: "map_op (\<lambda>_. alloc) xs s1 = (Inr ids, s2)" "inv s2"
      "length ids = length xs" "distinct ids" "set ids \<inter> live s1 = {}" "live s2 = live s1 \<union> set ids"
      "spare s2 + length xs = spare s1" "\<forall>q \<in> live s1. pages s2 q = pages s1 q" by blast
    show ?case
      by (rule exI [of _ "p # ids"], rule exI [of _ s2]) (use s1 s2 in \<open>auto simp: bind_op_def ret_def\<close>)
  qed (simp add: ret_def)
  from this [OF assms(1), of "[0..<n]"] assms(2) show ?thesis by simp
qed

end

end
