(* ===== verification/Pinned.thy ===== *)
theory Pinned
  imports BufferPool PageStore "HOL-Library.Multiset"
begin

text \<open>
  The buffer pool with pins outstanding. Clients such as the b-tree keep pages pinned while they fetch,
  allocate and free others; the lemmas give each pool operation's effect on the logical pages, the
  freelist and the pins, for any multiset of pins smaller than the pool. The pool so used is a page
  store, whatever is pinned.
\<close>

section \<open>Client access patterns\<close>

text \<open>
  \<^verbatim>\<open>raw = pool.get_page(p); ...; pool.unpin(p)\<close> and
  \<^verbatim>\<open>raw = pool.get_page_for_write(p); raw[...] = ...; pool.unpin(p)\<close>.
\<close>

definition load_page :: "nat \<Rightarrow> (pool, bytes) op" where
  "load_page p = bind_op (get_page p) (\<lambda>raw. bind_op (unpin p False) (\<lambda>_. ret raw))"

definition update_page :: "nat \<Rightarrow> (bytes \<Rightarrow> bytes res) \<Rightarrow> (pool, unit) op" where
  "update_page p g = bind_op (get_page_for_write p) (\<lambda>raw.
     bind_op (lift_res (g raw)) (\<lambda>d. bind_op (store_page p d) (\<lambda>_. unpin p False)))"

section \<open>The freelist\<close>

text \<open>The chain of freed pages: each holds the number of the next in its first four bytes.\<close>

fun flist :: "(nat \<Rightarrow> bytes) \<Rightarrow> nat \<Rightarrow> nat \<Rightarrow> nat list" where
  "flist v h 0 = []"
| "flist v h (Suc n) = h # flist v (be_decode (take 4 (v h))) n"

definition freelist :: "pool \<Rightarrow> nat list" where
  "freelist s = flist (view s) (freelist_trunk (pg_header s)) (freelist_count (pg_header s))"

definition freelist_inv :: "pool \<Rightarrow> bool" where
  "freelist_inv s \<longleftrightarrow> distinct (freelist s) \<and> set (freelist s) \<subseteq> {2..page_count (pg_header s)}
     \<and> freelist_trunk (pg_header s) < 2 ^ 32 \<and> 1 \<le> page_count (pg_header s)"

definition live_pages :: "pool \<Rightarrow> nat set" where
  "live_pages s = {1..page_count (pg_header s)} - set (freelist s)"

definition spare_pages :: "pool \<Rightarrow> nat" where
  "spare_pages s = 2 ^ 32 - 1 - page_count (pg_header s) + freelist_count (pg_header s)"

lemma length_flist [simp]: "length (flist v h n) = n"
  by (induction n arbitrary: h) simp_all

lemma flist_upd: "p \<notin> set (flist v h n) \<Longrightarrow> flist (v(p := d)) h n = flist v h n"
  by (induction n arbitrary: h) auto

section \<open>Outstanding pins\<close>

text \<open>
  \<open>steady H W\<close>: the pins are exactly \<open>H\<close>, and the pages of \<open>W\<close> are pinned for writing. \<open>held\<close> adds the
  freelist, that the pinned pages are in use, and a place left in the pool.
\<close>

definition steady :: "nat multiset \<Rightarrow> nat set \<Rightarrow> pool \<Rightarrow> bool" where
  "steady H W s \<longleftrightarrow> pool_inv s \<and> pins s = count H
     \<and> W \<subseteq> set_mset H \<and> (\<forall>p \<in> W. dirty_page s p)"

definition held :: "nat multiset \<Rightarrow> nat set \<Rightarrow> pool \<Rightarrow> bool" where
  "held H W s \<longleftrightarrow> steady H W s \<and> size H < bp_capacity s \<and> freelist_inv s \<and> set_mset H \<subseteq> live_pages s"

lemma steadyD:
  assumes "steady H W s"
  shows "pool_inv s" and "cache_inv s" and "pins s = count H" and "W \<subseteq> set_mset H"
    and "p \<in> W \<Longrightarrow> dirty_page s p"
  using assms by (auto simp: steady_def pool_inv_def)

lemma steady_mono: "steady H W s \<Longrightarrow> W' \<subseteq> W \<Longrightarrow> steady H W' s"
  by (auto simp: steady_def)

lemma card_set_mset_le: "card (set_mset M) \<le> size M"
  by (induction M) (simp_all add: card_insert_if)

text \<open>With fewer pins than places, a full cache has an unpinned page.\<close>

lemma steady_room:
  assumes "steady H W s" and cap: "size H < bp_capacity s"
  shows "room s"
proof (rule ccontr)
  assume "\<not> room s"
  then have full: "bp_capacity s \<le> length (bp_cache s)" and pinned: "\<forall>(p, e) \<in> set (bp_cache s). 0 < e_pin e"
    by (auto simp: room_def)
  note D = steadyD [OF assms(1)]
  have dist: "distinct (map fst (bp_cache s))" using D(2) by (simp add: cache_inv_def)
  have "fst ` set (bp_cache s) \<subseteq> set_mset H"
  proof
    fix p assume "p \<in> fst ` set (bp_cache s)"
    then obtain e where e: "(p, e) \<in> set (bp_cache s)" by auto
    then have "map_of (bp_cache s) p = Some e" using dist by (simp add: map_of_is_SomeI)
    then have "0 < pins s p" using pinned e by (auto simp: pins_def)
    then show "p \<in> set_mset H" by (simp add: D(3))
  qed
  then have "card (fst ` set (bp_cache s)) \<le> card (set_mset H)" by (intro card_mono) simp_all
  also have "\<dots> \<le> size H" by (rule card_set_mset_le)
  finally show False using full cap distinct_card [OF dist] by simp
qed

lemma view_length: "pool_inv s \<Longrightarrow> 1 \<le> p \<Longrightarrow> length (view s p) = PAGE_SIZE"
  by (auto simp: view_def pool_inv_def cache_inv_def split: option.split)

section \<open>Fetching, storing and releasing\<close>

lemma count_add: "count (add_mset p H) = (count H)(p := count H p + 1)"
  by (simp add: fun_eq_iff)

lemma count_remove: "p \<in># H \<Longrightarrow> count (H - {#p#}) = (count H)(p := count H p - 1)"
  by (simp add: fun_eq_iff)

lemma get_page_steady:
  assumes s: "steady H W s" and p: "1 \<le> p" "p \<le> page_count (pg_header s)" and cap: "size H < bp_capacity s"
  obtains s' where "get_page p s = (Inr (view s p), s')" and "steady (add_mset p H) W s'" and "view s' = view s" and "frame s s'"
proof -
  note D = steadyD [OF s]
  show ?thesis
  proof (rule get_page_spec [OF D(1) p disjI1 [OF steady_room [OF s cap]]])
    fix s'
    assume g: "get_page p s = (Inr (view s p), s')" "pool_inv s'" "same_view s s'" "pins s' = (pins s)(p := pins s p + 1)"
    have "\<forall>q \<in> W. dirty_page s' q"
      using g(3) D(3,4,5) by (auto simp: same_view_def count_greater_zero_iff)
    then have "steady (add_mset p H) W s'"
      using g D by (auto simp: steady_def count_add same_view_def)
    then show ?thesis using that g same_view_frame by (simp add: same_view_def)
  qed
qed

lemma get_page_for_write_steady:
  assumes s: "steady H W s" and p: "1 \<le> p" "p \<le> page_count (pg_header s)" and cap: "size H < bp_capacity s"
  obtains s' where "get_page_for_write p s = (Inr (view s p), s')" and "steady (add_mset p H) (insert p W) s'"
    and "view s' = view s" and "frame s s'"
proof -
  note D = steadyD [OF s]
  show ?thesis
  proof (rule get_page_for_write_spec [OF D(1) p disjI1 [OF steady_room [OF s cap]]])
    fix s'
    assume g: "get_page_for_write p s = (Inr (view s p), s')" "pool_inv s'" "view s' = view s" "frame s s'"
      "pins s' = (pins s)(p := pins s p + 1)" "dirty_page s' p"
      and k: "\<And>q. dirty_page s q \<Longrightarrow> 0 < pins s q \<Longrightarrow> dirty_page s' q"
    have "\<forall>q \<in> W. dirty_page s' q" using k D(3,4,5) by (auto simp: count_greater_zero_iff)
    then have "steady (add_mset p H) (insert p W) s'"
      using g D by (auto simp: steady_def count_add frame_def)
    then show ?thesis using that g by simp
  qed
qed

lemma store_page_steady:
  assumes s: "steady H W s" and p: "p \<in> W" and d: "length data = PAGE_SIZE"
  obtains s' where "store_page p data s = (Inr (), s')" and "steady H W s'" and "view s' = (view s)(p := data)" and "frame s s'"
proof -
  note D = steadyD [OF s]
  show ?thesis
  proof (rule store_page_spec [OF D(1) D(5) [OF p] d])
    fix s'
    assume g: "store_page p data s = (Inr (), s')" "pool_inv s'" "view s' = (view s)(p := data)" "frame s s'"
      "pins s' = pins s" "dirty_page s' = dirty_page s"
    then have "steady H W s'" using s by (simp add: steady_def frame_def)
    then show ?thesis using that g by simp
  qed
qed

lemma unpin_steady:
  assumes s: "steady H W s" and p: "p \<in># H"
  obtains s' where "unpin p False s = (Inr (), s')" and "steady (H - {#p#}) (W \<inter> set_mset (H - {#p#})) s'" and "view s' = view s" and "frame s s'"
    and "pg_jfile s' = pg_jfile s" and "bp_txn s' = bp_txn s"
proof -
  note D = steadyD [OF s]
  have pos: "0 < pins s p" using p by (simp add: D(3))
  show ?thesis
  proof (rule unpin_spec [OF D(1) pos])
    fix s'
    assume g: "unpin p False s = (Inr (), s')" "pool_inv s'" "view s' = view s" "frame s s'"
      "pins s' = (pins s)(p := pins s p - 1)" "dirty_page s' = dirty_page s" "pg_jfile s' = pg_jfile s" "bp_txn s' = bp_txn s"
    then have "steady (H - {#p#}) (W \<inter> set_mset (H - {#p#})) s'"
      using D p by (auto simp: steady_def frame_def count_remove)
    then show ?thesis using that g by simp
  qed
qed

lemma load_page_steady:
  assumes s: "steady H W s" and p: "1 \<le> p" "p \<le> page_count (pg_header s)" and cap: "size H < bp_capacity s"
  obtains s' where "load_page p s = (Inr (view s p), s')" and "steady H W s'" and "view s' = view s" and "frame s s'"
proof (rule get_page_steady [OF assms])
  fix s1
  assume g: "get_page p s = (Inr (view s p), s1)" "steady (add_mset p H) W s1" "view s1 = view s" "frame s s1"
  show ?thesis
  proof (rule unpin_steady [OF g(2), of p])
    fix s2
    assume u: "unpin p False s1 = (Inr (), s2)" "steady (add_mset p H - {#p#}) (W \<inter> set_mset (add_mset p H - {#p#})) s2"
      "view s2 = view s1" "frame s1 s2"
    have "steady H W s2" using u(2) steadyD(4) [OF s] by (simp add: Int_absorb2)
    moreover have "load_page p s = (Inr (view s p), s2)" using g(1) u(1) by (simp add: load_page_def bind_op_def ret_def)
    ultimately show ?thesis using that u(3) g(3) frame_trans [OF g(4) u(4)] by simp
  qed simp
qed

lemma update_page_steady:
  assumes s: "steady H W s" and p: "1 \<le> p" "p \<le> page_count (pg_header s)" and cap: "size H < bp_capacity s"
    and g: "g (view s p) = Inr d" "length d = PAGE_SIZE"
  obtains s' where "update_page p g s = (Inr (), s')" and "steady H W s'" and "view s' = (view s)(p := d)" and "frame s s'"
    and "dirty_page s' p"
proof (rule get_page_for_write_steady [OF s p cap])
  fix s1
  assume w: "get_page_for_write p s = (Inr (view s p), s1)" "steady (add_mset p H) (insert p W) s1" "view s1 = view s" "frame s s1"
  show ?thesis
  proof (rule store_page_steady [OF w(2) insertI1 g(2)])
    fix s2
    assume st: "store_page p d s1 = (Inr (), s2)" "steady (add_mset p H) (insert p W) s2" "view s2 = (view s1)(p := d)" "frame s1 s2"
    have pos: "0 < pins s2 p" and pi: "pool_inv s2" using steadyD(1,3) [OF st(2)] by simp_all
    show ?thesis
    proof (rule unpin_spec [OF pi pos])
      fix s3
      assume u: "unpin p False s2 = (Inr (), s3)" "pool_inv s3" "view s3 = view s2" "frame s2 s3"
        "pins s3 = (pins s2)(p := pins s2 p - 1)" "dirty_page s3 = dirty_page s2"
      have "steady H W s3"
        using u steadyD(3,5) [OF st(2)] steadyD(4) [OF s] by (auto simp: steady_def fun_eq_iff)
      moreover have "dirty_page s3 p" using u(6) steadyD(5) [OF st(2)] by simp
      moreover have "update_page p g s = (Inr (), s3)"
        using w(1) st(1) u(1) g(1) by (simp add: update_page_def bind_op_def lift_res_def)
      ultimately show ?thesis
        using that u(3) st(3) w(3) frame_trans [OF w(4) frame_trans [OF st(4) u(4)]] by simp
    qed
  qed
qed

section \<open>Allocating and freeing\<close>

text \<open>Changing only the header's freelist fields keeps the pool's invariant.\<close>

lemma header_freelist_inv:
  assumes "pool_inv s" and "page_count h = page_count (pg_header s)"
  shows "pool_inv (s\<lparr>pg_header := h\<rparr>)"
proof -
  have "dirty_page (s\<lparr>pg_header := h\<rparr>) = dirty_page s" by (rule dirty_cong) simp
  moreover have "journal_inv (s\<lparr>pg_header := h\<rparr>) t = journal_inv s t" for t
    by (simp add: journal_inv_def split: option.split)
  ultimately show ?thesis
    using assms by (auto simp: pool_inv_def cache_inv_def txn_inv_def split: option.splits)
qed

lemma view_header [simp]: "view (s\<lparr>pg_header := h\<rparr>) = view s"
  by (rule view_cong) simp_all

lemma pins_header [simp]: "pins (s\<lparr>pg_header := h\<rparr>) = pins s"
  by (simp add: pins_def fun_eq_iff)

lemma steady_header:
  assumes "steady H W s" and "page_count h = page_count (pg_header s)"
  shows "steady H W (s\<lparr>pg_header := h\<rparr>)"
proof -
  have "dirty_page (s\<lparr>pg_header := h\<rparr>) = dirty_page s" by (rule dirty_cong) simp
  then show ?thesis using assms header_freelist_inv [of s h] by (simp add: steady_def)
qed

text \<open>
  What every operation below keeps of a transaction: its rollback point, and the file it must be
  able to go back to.
\<close>

definition txn_frame :: "pool \<Rightarrow> pool \<Rightarrow> bool" where
  "txn_frame s s' \<longleftrightarrow> pg_path s' = pg_path s \<and> pg_txn s' = pg_txn s \<and> bp_capacity s' = bp_capacity s
     \<and> map_option tx_page_count_before (bp_txn s') = map_option tx_page_count_before (bp_txn s)
     \<and> (bp_txn s \<noteq> None \<longrightarrow> pg_file s' = pg_file s)"

lemma txn_frame_refl [simp]: "txn_frame s s"
  by (simp add: txn_frame_def)

lemma txn_frame_trans: "txn_frame s s' \<Longrightarrow> txn_frame s' s'' \<Longrightarrow> txn_frame s s''"
  by (auto simp: txn_frame_def)

lemma frame_txn_frame: "frame s s' \<Longrightarrow> txn_frame s s'"
  by (simp add: frame_def txn_frame_def)

lemma txn_frame_header: "txn_frame s s' \<Longrightarrow> txn_frame s (s'\<lparr>pg_header := h\<rparr>)" "txn_frame (s\<lparr>pg_header := h\<rparr>) s' \<Longrightarrow> txn_frame s s'"
  by (simp_all add: txn_frame_def)

lemma allocate_reuse:
  assumes s: "steady H W s" "freelist_inv s" and cap: "size H < bp_capacity s" and n: "0 < freelist_count (pg_header s)"
  obtains s' where "allocate_page s = (Inr (freelist_trunk (pg_header s)), s')" and "steady H W s'" and "view s' = view s"
    and "page_count (pg_header s') = page_count (pg_header s)" and "freelist s = freelist_trunk (pg_header s) # freelist s'"
    and "freelist_count (pg_header s) = Suc (freelist_count (pg_header s'))"
    and "freelist_trunk (pg_header s') = be_decode (take 4 (view s (freelist_trunk (pg_header s))))" and "txn_frame s s'"
proof -
  let ?p = "freelist_trunk (pg_header s)"
  obtain m where m: "freelist_count (pg_header s) = Suc m" using n by (cases "freelist_count (pg_header s)") auto
  have fl: "freelist s = ?p # flist (view s) (be_decode (take 4 (view s ?p))) m" by (simp add: freelist_def m)
  have "set (freelist s) \<subseteq> {2..page_count (pg_header s)}" using s(2) by (simp add: freelist_inv_def)
  then have p: "1 \<le> ?p" "?p \<le> page_count (pg_header s)" by (auto simp: fl)
  show ?thesis
  proof (rule get_page_for_write_steady [OF s(1) p cap])
    fix s1
    assume w: "get_page_for_write ?p s = (Inr (view s ?p), s1)" and s1: "steady (add_mset ?p H) (insert ?p W) s1" "view s1 = view s" "frame s s1"
    define h where "h = (pg_header s1)\<lparr>freelist_trunk := be_decode (take 4 (view s ?p)),
        freelist_count := freelist_count (pg_header s1) - 1\<rparr>"
    have h1: "pg_header s1 = pg_header s" using s1(3) by (simp add: frame_def)
    have s2: "steady (add_mset ?p H) (insert ?p W) (s1\<lparr>pg_header := h\<rparr>)" using steady_header [OF s1(1)] by (simp add: h_def)
    show ?thesis
    proof (rule unpin_steady [OF s2, of ?p])
      fix s3
      assume u: "unpin ?p False (s1\<lparr>pg_header := h\<rparr>) = (Inr (), s3)"
        and s3: "steady (add_mset ?p H - {#?p#}) (insert ?p W \<inter> set_mset (add_mset ?p H - {#?p#})) s3"
        "view s3 = view (s1\<lparr>pg_header := h\<rparr>)" "frame (s1\<lparr>pg_header := h\<rparr>) s3"
      have f: "pg_header s3 = h" using s3(3) by (simp add: frame_def)
      have "steady H W s3" using s3(1) steadyD(4) [OF s(1)] by (auto intro: steady_mono)
      moreover have "allocate_page s = (Inr ?p, s3)"
      proof -
        have "modify (pg_header_update (\<lambda>h. h\<lparr>freelist_trunk := be_decode (take 4 (view s ?p)),
            freelist_count := freelist_count h - 1\<rparr>)) s1 = (Inr (), s1\<lparr>pg_header := h\<rparr>)"
          by (simp add: modify_def h_def)
        then show ?thesis
          using w u n by (simp add: allocate_page_def Let_def bind_op_def ret_def del: bind_op_simps)
      qed
      moreover have "view s3 = view s" using s3(2) s1(2) by simp
      moreover have "txn_frame s s3"
        using txn_frame_trans [OF frame_txn_frame [OF s1(3)] txn_frame_header(2) [OF frame_txn_frame [OF s3(3)]]] .
      ultimately show ?thesis
        using that [of s3] f fl m by (simp add: h_def h1 freelist_def)
    qed simp
  qed
qed

lemma allocate_grow:
  assumes s: "steady H W s" and n: "freelist_count (pg_header s) = 0" and small: "page_count (pg_header s) + 1 < 2 ^ 32"
  obtains s' where "allocate_page s = (Inr (page_count (pg_header s) + 1), s')" and "steady H W s'"
    and "view s' = (view s)(page_count (pg_header s) + 1 := replicate PAGE_SIZE 0)"
    and "pg_header s' = (pg_header s)\<lparr>page_count := page_count (pg_header s) + 1\<rparr>" and "txn_frame s s'"
proof -
  let ?p = "page_count (pg_header s) + 1" and ?z = "\<lparr>e_data = replicate PAGE_SIZE 0, e_pin = 0, e_dirty = True\<rparr>"
  define s' where "s' = s\<lparr>pg_header := (pg_header s)\<lparr>page_count := ?p\<rparr>, bp_cache := od_set ?p ?z (bp_cache s)\<rparr>"
  note D = steadyD [OF s]
  have m: "map_of (bp_cache s') q = (if q = ?p then Some ?z else map_of (bp_cache s) q)" for q
    by (simp add: s'_def map_of_od_set)
  have fs: "pg_file s' = pg_file s" "page_count (pg_header s') = ?p" "bp_txn s' = bp_txn s" "pg_txn s' = pg_txn s"
    "bp_nonce s' = bp_nonce s" "bp_capacity s' = bp_capacity s" by (simp_all add: s'_def)
  have "distinct (map fst (bp_cache s'))" using D(2) by (simp add: s'_def cache_inv_def distinct_od_set)
  then have c: "cache_inv s'" using D(2) by (fastforce simp: cache_inv_def m fs split: if_splits)
  have none: "map_of (bp_cache s) ?p = None"
    using cache_invD(2) [OF D(2), of ?p] by (cases "map_of (bp_cache s) ?p") auto
  have dp: "dirty_page s' r \<longleftrightarrow> r = ?p \<or> dirty_page s r" for r by (auto simp: dirty_page_def m)
  have ji: "journal_inv s' t = journal_inv s t" for t by (simp add: journal_inv_def s'_def split: option.split)
  have t: "txn_inv s'"
  proof (cases "bp_txn s")
    case None
    then show ?thesis using D(1) small by (simp add: txn_inv_def pool_inv_def fs)
  next
    case (Some t)
    have old: "tx_page_count_before t \<le> page_count (pg_header s)"
      "\<forall>r. dirty_page s r \<longrightarrow> r \<in> set (tx_journalled t) \<or> tx_page_count_before t < r"
      using D(1) Some by (simp_all add: txn_inv_def pool_inv_def)
    then have "\<forall>r. dirty_page s' r \<longrightarrow> r \<in> set (tx_journalled t) \<or> tx_page_count_before t < r"
      using dp by fastforce
    then show ?thesis using D(1) small Some old by (simp add: txn_inv_def pool_inv_def fs ji)
  qed
  have "pins s' = pins s" using none by (auto simp: pins_def m fun_eq_iff)
  then have "steady H W s'" using c t D dp by (auto simp: steady_def pool_inv_def)
  moreover have "view s' = (view s)(?p := replicate PAGE_SIZE 0)"
    by (auto simp: view_def m fs fun_eq_iff split: option.split)
  moreover have "allocate_page s = (Inr ?p, s')" using n by (simp add: allocate_page_def s'_def Let_def)
  moreover have "txn_frame s s'" by (simp add: txn_frame_def s'_def)
  ultimately show ?thesis using that [of s'] by (simp add: s'_def)
qed

lemma discard_steady:
  assumes s: "steady H W s" and p: "p \<notin># H"
  obtains s' where "discard p s = (Inr (), s')" and "steady H W s'" and "\<And>r. r \<noteq> p \<Longrightarrow> view s' r = view s r"
    and "pg_header s' = pg_header s" and "txn_frame s s'"
proof (cases "map_of (bp_cache s) p")
  case None
  then show ?thesis using that [of s] s by (simp add: discard_def)
next
  case (Some e)
  define s' where "s' = s\<lparr>bp_cache := od_delete p (bp_cache s)\<rparr>"
  have m: "map_of (bp_cache s') r = (if r = p then None else map_of (bp_cache s) r)" for r
    by (simp add: s'_def map_of_od_delete)
  note D = steadyD [OF s]
  have pz: "pins s p = 0" using p D(3) by (simp add: not_in_iff)
  have core: "same_core s s'" by (simp add: s'_def)
  then have fs: "pg_file s' = pg_file s" "pg_header s' = pg_header s" by (simp_all add: same_core_def)
  have "distinct (map fst (bp_cache s'))" using D(2) by (simp add: s'_def cache_inv_def distinct_od_delete)
  then have "cache_inv s'" using D(2) by (auto simp: cache_inv_def m fs split: if_splits)
  moreover have "txn_inv s'"
    using D(1) by (intro txn_inv_core [OF _ core]) (auto simp: pool_inv_def dirty_page_def m split: if_splits)
  moreover have "pins s' = pins s" using pz by (auto simp: pins_def m fun_eq_iff)
  moreover have "\<forall>q \<in> W. dirty_page s' q" using D(4,5) p by (auto simp: dirty_page_def m)
  ultimately have "steady H W s'" using D by (simp add: steady_def pool_inv_def)
  moreover have "discard p s = (Inr (), s')"
    using Some pz by (simp add: discard_def s'_def pins_def)
  moreover have "view s' r = view s r" if "r \<noteq> p" for r using that by (simp add: view_def m fs split: option.split)
  ultimately show ?thesis using that fs(2) frame_txn_frame [OF same_core_frame [OF core]] by blast
qed

lemma free_page_steady:
  assumes s: "steady H W s" "freelist_inv s" and cap: "size H < bp_capacity s"
    and p: "1 < p" "p \<le> page_count (pg_header s)" "p \<notin> set (freelist s)" "p \<notin># H"
  obtains s' where "free_page p s = (Inr (), s')" and "steady H W s'"
    and "view s' = (view s)(p := be_encode 4 (freelist_trunk (pg_header s)) @ replicate (PAGE_SIZE - 4) 0)"
    and "pg_header s' = (pg_header s)\<lparr>freelist_trunk := p, freelist_count := freelist_count (pg_header s) + 1\<rparr>"
    and "freelist s' = p # freelist s" and "txn_frame s s'"
proof (rule discard_steady [OF s(1) p(4)])
  let ?h = "pg_header s" and ?d = "be_encode 4 (freelist_trunk (pg_header s)) @ replicate (PAGE_SIZE - 4) 0"
  have trunk: "freelist_trunk ?h < 2 ^ 32" using s(2) by (simp add: freelist_inv_def)
  fix s0
  assume dc: "discard p s = (Inr (), s0)" and s0: "steady H W s0" "\<And>r. r \<noteq> p \<Longrightarrow> view s0 r = view s r" "pg_header s0 = ?h" "txn_frame s s0"
  have p0: "1 \<le> p" "p \<le> page_count (pg_header s0)" using p s0(3) by simp_all
  have cap0: "size H < bp_capacity s0" using cap s0(4) by (simp add: txn_frame_def)
  have len: "length (view s0 p) = PAGE_SIZE" using steadyD(1) [OF s0(1)] p0(1) by (rule view_length)
  have tb: "to_bytes 4 (freelist_trunk ?h) = Inr (be_encode 4 (freelist_trunk ?h))" using trunk by (simp add: to_bytes_def)
  have dd: "py_put 4 (length (view s0 p)) (replicate (length (view s0 p) - 4) 0)
      (py_put 0 4 (be_encode 4 (freelist_trunk ?h)) (view s0 p)) = ?d"
    using len by (simp add: py_put_def PAGE_SIZE_def)
  have ld: "length ?d = PAGE_SIZE" by (simp add: PAGE_SIZE_def)
  show ?thesis
  proof (rule get_page_for_write_steady [OF s0(1) p0 cap0])
    fix s1
    assume w: "get_page_for_write p s0 = (Inr (view s0 p), s1)" and s1: "steady (add_mset p H) (insert p W) s1" "view s1 = view s0" "frame s0 s1"
    show ?thesis
    proof (rule store_page_steady [OF s1(1) insertI1 ld])
      fix s2
      assume st: "store_page p ?d s1 = (Inr (), s2)" and s2: "steady (add_mset p H) (insert p W) s2" "view s2 = (view s1)(p := ?d)" "frame s1 s2"
      show ?thesis
      proof (rule unpin_steady [OF s2(1), of p])
        fix s3
        assume u: "unpin p False s2 = (Inr (), s3)" and s3: "steady (add_mset p H - {#p#}) (insert p W \<inter> set_mset (add_mset p H - {#p#})) s3"
          "view s3 = view s2" "frame s2 s3"
        define s' where "s' = s3\<lparr>pg_header := ?h\<lparr>freelist_trunk := p, freelist_count := freelist_count ?h + 1\<rparr>\<rparr>"
        have f: "frame s0 s3" using frame_trans [OF s1(3) frame_trans [OF s2(3) s3(3)]] .
        then have h3: "pg_header s3 = ?h" using s0(3) by (simp add: frame_def)
        have h1: "pg_header s1 = ?h" using s1(3) s0(3) by (simp add: frame_def)
        have "steady H W s3" using s3(1) steadyD(4) [OF s(1)] by (auto intro: steady_mono)
        then have "steady H W s'" unfolding s'_def using h3 by (intro steady_header) simp_all
        moreover have v: "view s' = (view s)(p := ?d)" using s3(2) s2(2) s1(2) s0(2) by (simp add: s'_def fun_eq_iff)
        moreover have "modify (pg_header_update (\<lambda>h. h\<lparr>freelist_trunk := p, freelist_count := freelist_count h + 1\<rparr>)) s3 = (Inr (), s')"
          by (simp add: modify_def s'_def h3)
        then have "free_page p s = (Inr (), s')"
          using p dc w h1 tb dd st u by (simp add: free_page_def bind_op_def get_st_def lift_res_def del: bind_op_simps)
        moreover have "freelist s' = p # freelist s"
          using p(3) trunk by (simp add: freelist_def v flist_upd) (simp add: s'_def freelist_def v flist_upd)
        moreover have "txn_frame s s'"
          unfolding s'_def using txn_frame_header(1) [OF txn_frame_trans [OF s0(4) frame_txn_frame [OF f]]] .
        ultimately show ?thesis using that [of s'] by (simp add: s'_def)
      qed simp
    qed
  qed
qed

section \<open>The pool provides the page store\<close>

lemma heldD:
  assumes "held H W s"
  shows "steady H W s" and "pool_inv s" and "freelist_inv s" and "size H < bp_capacity s" and "set_mset H \<subseteq> live_pages s"
    and "page_count (pg_header s) < 2 ^ 32" and "1 \<in> live_pages s" and "W \<subseteq> set_mset H"
  using assms by (auto simp: held_def steady_def pool_inv_def txn_inv_def freelist_inv_def live_pages_def)

lemma live_pagesD:
  assumes "p \<in> live_pages s"
  shows "1 \<le> p" and "p \<le> page_count (pg_header s)" and "p \<notin> set (freelist s)"
  using assms by (auto simp: live_pages_def)

text \<open>A step that leaves header and freelist alone.\<close>

lemma held_frame:
  assumes "held H W s" and "steady H' W' s'" and "frame s s'" and "freelist s' = freelist s"
    and "set_mset H' \<subseteq> live_pages s" and "size H' < bp_capacity s"
  shows "held H' W' s'" and "live_pages s' = live_pages s" and "spare_pages s' = spare_pages s"
  using assms by (simp_all add: held_def frame_def freelist_inv_def live_pages_def spare_pages_def)

lemma get_page_held:
  assumes s: "held H W s" and p: "p \<in> live_pages s" and cap: "size H + 1 < bp_capacity s"
  obtains s' where "get_page p s = (Inr (view s p), s')" and "held (add_mset p H) W s'" and "view s' = view s"
    and "live_pages s' = live_pages s" and "spare_pages s' = spare_pages s" and "frame s s'"
proof (rule get_page_steady [OF heldD(1) [OF s] live_pagesD(1,2) [OF p] heldD(4) [OF s]])
  fix s'
  assume g: "get_page p s = (Inr (view s p), s')" "steady (add_mset p H) W s'" "view s' = view s" "frame s s'"
  then have "freelist s' = freelist s" by (simp add: freelist_def frame_def)
  from held_frame [OF s g(2,4) this] that g show ?thesis using p cap heldD(5) [OF s] by simp
qed

lemma get_page_for_write_held:
  assumes s: "held H W s" and p: "p \<in> live_pages s" and cap: "size H + 1 < bp_capacity s"
  obtains s' where "get_page_for_write p s = (Inr (view s p), s')" and "held (add_mset p H) (insert p W) s'" and "view s' = view s"
    and "live_pages s' = live_pages s" and "spare_pages s' = spare_pages s" and "frame s s'"
proof (rule get_page_for_write_steady [OF heldD(1) [OF s] live_pagesD(1,2) [OF p] heldD(4) [OF s]])
  fix s'
  assume g: "get_page_for_write p s = (Inr (view s p), s')" "steady (add_mset p H) (insert p W) s'" "view s' = view s" "frame s s'"
  then have "freelist s' = freelist s" by (simp add: freelist_def frame_def)
  from held_frame [OF s g(2,4) this] that g show ?thesis using p cap heldD(5) [OF s] by simp
qed

lemma freelist_upd_live:
  assumes "view s' = (view s)(p := d)" and "pg_header s' = pg_header s" and "p \<in> live_pages s"
  shows "freelist s' = freelist s"
  using assms live_pagesD(3) [OF assms(3)] by (simp add: freelist_def flist_upd)

lemma store_page_held:
  assumes s: "held H W s" and p: "p \<in> W" and d: "length data = PAGE_SIZE"
  obtains s' where "store_page p data s = (Inr (), s')" and "held H W s'" and "view s' = (view s)(p := data)"
    and "live_pages s' = live_pages s" and "spare_pages s' = spare_pages s" and "frame s s'"
proof (rule store_page_steady [OF heldD(1) [OF s] p d])
  fix s'
  assume g: "store_page p data s = (Inr (), s')" "steady H W s'" "view s' = (view s)(p := data)" "frame s s'"
  have "p \<in> live_pages s" using heldD(5,8) [OF s] p by blast
  then have "freelist s' = freelist s" using g(3,4) by (intro freelist_upd_live) (simp_all add: frame_def)
  from held_frame [OF s g(2,4) this] that g show ?thesis using heldD(4,5) [OF s] by simp
qed

lemma unpin_held:
  assumes s: "held H W s" and p: "p \<in># H"
  obtains s' where "unpin p False s = (Inr (), s')" and "held (H - {#p#}) (W \<inter> set_mset (H - {#p#})) s'" and "view s' = view s"
    and "live_pages s' = live_pages s" and "spare_pages s' = spare_pages s" and "frame s s'"
proof (rule unpin_steady [OF heldD(1) [OF s] p])
  fix s'
  assume g: "unpin p False s = (Inr (), s')" "steady (H - {#p#}) (W \<inter> set_mset (H - {#p#})) s'" "view s' = view s" "frame s s'"
  then have fl: "freelist s' = freelist s" by (simp add: freelist_def frame_def)
  have sub: "set_mset (H - {#p#}) \<subseteq> live_pages s" using heldD(5) [OF s] by (auto dest: in_diffD)
  have sz: "size (H - {#p#}) < bp_capacity s" using heldD(4) [OF s] size_Diff_singleton [OF p] by simp
  from held_frame [OF s g(2,4) fl sub sz] that g show ?thesis by simp
qed

lemma load_page_held:
  assumes s: "held H W s" and p: "p \<in> live_pages s"
  shows "\<exists>s'. load_page p s = (Inr (view s p), s') \<and> held H W s' \<and> live_pages s' = live_pages s
    \<and> spare_pages s' = spare_pages s \<and> view s' = view s \<and> frame s s'"
proof (rule load_page_steady [OF heldD(1) [OF s] live_pagesD(1,2) [OF p] heldD(4) [OF s]])
  fix s'
  assume g: "load_page p s = (Inr (view s p), s')" "steady H W s'" "view s' = view s" "frame s s'"
  then have "freelist s' = freelist s" by (simp add: freelist_def frame_def)
  from held_frame [OF s g(2,4) this] g show ?thesis using heldD(4,5) [OF s] by simp
qed

lemma update_page_held:
  assumes s: "held H W s" and p: "p \<in> live_pages s" and d: "g (view s p) = Inr d" "length d = PAGE_SIZE"
  shows "\<exists>s'. update_page p g s = (Inr (), s') \<and> held H W s' \<and> live_pages s' = live_pages s
    \<and> spare_pages s' = spare_pages s \<and> view s' = (view s)(p := d) \<and> frame s s'"
proof (rule update_page_steady [where g = g and d = d, OF heldD(1) [OF s] live_pagesD(1,2) [OF p] heldD(4) [OF s] d])
  fix s'
  assume g: "update_page p g s = (Inr (), s')" "steady H W s'" "view s' = (view s)(p := d)" "frame s s'"
  then have "freelist s' = freelist s" using p by (intro freelist_upd_live) (simp_all add: frame_def)
  from held_frame [OF s g(2,4) this] g show ?thesis using heldD(4,5) [OF s] by simp
qed

lemma allocate_page_held:
  assumes s: "held H W s" and sp: "0 < spare_pages s"
  shows "\<exists>p s'. allocate_page s = (Inr p, s') \<and> held H W s' \<and> p \<notin> live_pages s \<and> live_pages s' = insert p (live_pages s)
    \<and> spare_pages s' + 1 = spare_pages s \<and> (\<forall>q \<in> live_pages s. view s' q = view s q) \<and> txn_frame s s'
    \<and> (freelist s \<noteq> [] \<longrightarrow> p = hd (freelist s) \<and> page_count (pg_header s') = page_count (pg_header s))"
proof (cases "0 < freelist_count (pg_header s)")
  case True
  note D = heldD [OF s]
  show ?thesis
  proof (rule allocate_reuse [OF D(1,3,4) True])
    fix s'
    assume s': "allocate_page s = (Inr (freelist_trunk (pg_header s)), s')" "steady H W s'" "view s' = view s"
      "page_count (pg_header s') = page_count (pg_header s)" "freelist s = freelist_trunk (pg_header s) # freelist s'"
      "freelist_count (pg_header s) = Suc (freelist_count (pg_header s'))"
      and tr: "freelist_trunk (pg_header s') = be_decode (take 4 (view s (freelist_trunk (pg_header s))))" and fr: "txn_frame s s'"
    have "be_decode (take 4 (view s (freelist_trunk (pg_header s)))) < 256 ^ length (take 4 (view s (freelist_trunk (pg_header s))))"
      by (rule be_decode_less)
    also have "\<dots> \<le> 256 ^ 4" by (intro power_increasing) simp_all
    finally have "freelist_inv s'" using D(3) s'(4,5) tr by (simp add: freelist_inv_def)
    moreover have l: "live_pages s' = insert (freelist_trunk (pg_header s)) (live_pages s)"
      using D(3) s'(4,5) by (auto simp: live_pages_def freelist_inv_def)
    moreover have "freelist_trunk (pg_header s) \<notin> live_pages s" using s'(5) by (simp add: live_pages_def)
    moreover have "held H W s'" using calculation(1) l s'(2) fr D(4,5) by (auto simp: held_def txn_frame_def)
    ultimately show ?thesis using s' fr by (simp add: spare_pages_def)
  qed
next
  case False
  then have n: "freelist_count (pg_header s) = 0" by simp
  have small: "page_count (pg_header s) + 1 < 2 ^ 32" using sp n by (simp add: spare_pages_def)
  note D = heldD [OF s]
  have fl: "freelist s = []" using n by (simp add: freelist_def)
  show ?thesis
  proof (rule allocate_grow [OF D(1) n small])
    fix s'
    assume s': "allocate_page s = (Inr (page_count (pg_header s) + 1), s')" "steady H W s'"
      "view s' = (view s)(page_count (pg_header s) + 1 := replicate PAGE_SIZE 0)"
      "pg_header s' = (pg_header s)\<lparr>page_count := page_count (pg_header s) + 1\<rparr>" and fr: "txn_frame s s'"
    then have fl': "freelist s' = []" using n by (simp add: freelist_def)
    have "freelist_inv s'" using D(3) fl' s'(4) by (simp add: freelist_inv_def)
    moreover have l: "live_pages s' = insert (page_count (pg_header s) + 1) (live_pages s)"
      using s'(4) fl fl' by (auto simp: live_pages_def)
    moreover have "page_count (pg_header s) + 1 \<notin> live_pages s" by (simp add: live_pages_def)
    moreover have "spare_pages s' + 1 = spare_pages s" using s'(4) n small by (simp add: spare_pages_def)
    moreover have "held H W s'" using calculation(1) l s'(2) fr D(4,5) by (auto simp: held_def txn_frame_def)
    ultimately show ?thesis using s' fr fl by (auto simp: live_pages_def)
  qed
qed

lemma free_page_held:
  assumes s: "held H W s" and p: "p \<in> live_pages s" "p \<noteq> 1" "p \<notin># H"
  shows "\<exists>s'. free_page p s = (Inr (), s') \<and> held H W s' \<and> live_pages s' = live_pages s - {p}
    \<and> spare_pages s' = spare_pages s + 1 \<and> (\<forall>q \<in> live_pages s'. view s' q = view s q) \<and> txn_frame s s'"
proof -
  note D = heldD [OF s] note P = live_pagesD [OF p(1)]
  have p1: "1 < p" using P(1) p(2) by simp
  show ?thesis
  proof (rule free_page_steady [OF D(1,3,4) p1 P(2,3) p(3)])
    fix s'
    assume s': "free_page p s = (Inr (), s')" "steady H W s'"
      "view s' = (view s)(p := be_encode 4 (freelist_trunk (pg_header s)) @ replicate (PAGE_SIZE - 4) 0)"
      "pg_header s' = (pg_header s)\<lparr>freelist_trunk := p, freelist_count := freelist_count (pg_header s) + 1\<rparr>"
      "freelist s' = p # freelist s" "txn_frame s s'"
    have "freelist_inv s'" using D(3,6) P p1 s'(4,5) by (auto simp: freelist_inv_def)
    moreover have l: "live_pages s' = live_pages s - {p}" using s'(4,5) by (auto simp: live_pages_def)
    moreover have "held H W s'" using calculation(1) l s'(2,6) D(4,5) p(3) by (auto simp: held_def txn_frame_def)
    ultimately show ?thesis using s' by (simp add: spare_pages_def)
  qed
qed

interpretation held_store: page_store "held H W" view live_pages spare_pages allocate_page load_page update_page free_page "set_mset H"
  for H W
proof
  show "1 \<le> p \<and> p < 2 ^ 32" if "held H W s" "p \<in> live_pages s" for s p
    using live_pagesD [OF that(2)] heldD(6) [OF that(1)] by auto
  show "finite (live_pages s)" for s by (simp add: live_pages_def)
  show "length (view s p) = PAGE_SIZE" if "held H W s" "p \<in> live_pages s" for s p
    using heldD(2) [OF that(1)] live_pagesD(1) [OF that(2)] by (rule view_length)
  show "set_mset H \<subseteq> live_pages s" if "held H W s" for s using heldD(5) [OF that] .
next
  fix s p assume "held H W s" "p \<in> live_pages s"
  from load_page_held [OF this] show "\<exists>s'. load_page p s = (Inr (view s p), s') \<and> held H W s' \<and> live_pages s' = live_pages s
    \<and> spare_pages s' = spare_pages s \<and> (\<forall>q \<in> live_pages s. view s' q = view s q)" by auto
next
  fix s p d and g :: "bytes \<Rightarrow> bytes res"
  assume "held H W s" "p \<in> live_pages s" "g (view s p) = Inr d" "length d = PAGE_SIZE"
  from update_page_held [where g = g, OF this] show "\<exists>s'. update_page p g s = (Inr (), s') \<and> held H W s' \<and> live_pages s' = live_pages s
    \<and> spare_pages s' = spare_pages s \<and> (\<forall>q \<in> live_pages s. view s' q = (if q = p then d else view s q))" by auto
next
  fix s assume "held H W s" "0 < spare_pages s"
  from allocate_page_held [OF this] show "\<exists>p s'. allocate_page s = (Inr p, s') \<and> held H W s' \<and> p \<notin> live_pages s
    \<and> live_pages s' = insert p (live_pages s) \<and> spare_pages s' + 1 = spare_pages s
    \<and> (\<forall>q \<in> live_pages s. view s' q = view s q)" by blast
next
  fix s p assume "held H W s" "p \<in> live_pages s" "p \<noteq> 1" "p \<notin># H"
  from free_page_held [OF this] show "\<exists>s'. free_page p s = (Inr (), s') \<and> held H W s' \<and> live_pages s' = live_pages s - {p}
    \<and> spare_pages s' = spare_pages s + 1 \<and> (\<forall>q \<in> live_pages s'. view s' q = view s q)" by blast
qed

end
