(* ===== verification/PoolStore.thy ===== *)
theory PoolStore
  imports Pinned
begin

text \<open>
  The buffer pool between client calls: no page is pinned, so eviction always finds room. The page
  store of \<open>Pinned\<close> specialised to no pins, flushing, and the pool's properties.
\<close>

section \<open>No pin outstanding\<close>

definition quiet :: "pool \<Rightarrow> bool" where
  "quiet s \<longleftrightarrow> pool_inv s \<and> (\<forall>p. pins s p = 0) \<and> 1 \<le> bp_capacity s"

definition store_inv :: "pool \<Rightarrow> bool" where
  "store_inv s \<longleftrightarrow> quiet s \<and> freelist_inv s"

lemma quiet_steady: "quiet s \<longleftrightarrow> steady {#} {} s \<and> size ({#} :: nat multiset) < bp_capacity s"
  by (auto simp: quiet_def steady_def fun_eq_iff)

lemma store_inv_held: "store_inv = held {#} {}"
  by (auto simp: store_inv_def held_def quiet_steady fun_eq_iff)

lemma quiet_room: "quiet s \<Longrightarrow> room s"
  unfolding quiet_steady by (auto intro: steady_room)

lemma load_page_spec:
  assumes q: "quiet s" and p: "1 \<le> p" "p \<le> page_count (pg_header s)"
  obtains s' where "load_page p s = (Inr (view s p), s')" and "quiet s'" and "view s' = view s"
    and "pg_header s' = pg_header s" and "frame s s'"
  using q unfolding quiet_steady
  by (elim conjE, elim load_page_steady [OF _ p]) (use that in \<open>auto simp: quiet_steady frame_def\<close>)

lemma update_page_spec:
  assumes q: "quiet s" and p: "1 \<le> p" "p \<le> page_count (pg_header s)"
    and g: "g (view s p) = Inr d" "length d = PAGE_SIZE"
  obtains s' where "update_page p g s = (Inr (), s')" and "quiet s'" and "view s' = (view s)(p := d)"
    and "frame s s'"
  using q unfolding quiet_steady
  by (elim conjE, elim update_page_steady [where g = g, OF _ p _ g]) (use that in \<open>auto simp: quiet_steady frame_def\<close>)

interpretation pool_store: page_store store_inv view live_pages spare_pages allocate_page load_page update_page free_page "{}"
  unfolding store_inv_held using held_store.page_store_axioms [of "{#}" "{}"] by simp

lemma live_quiet:
  assumes "store_inv s" and "p \<in> live_pages s"
  shows "1 \<le> p" and "p \<le> page_count (pg_header s)" and "p \<notin> set (freelist s)" and "quiet s" and "page_count (pg_header s) < 2 ^ 32"
  using live_pagesD [OF assms(2)] assms(1) heldD(6) [of "{#}" "{}" s] by (simp_all add: store_inv_held [symmetric]) (simp add: store_inv_def)

lemma store_inv_frame:
  assumes "store_inv s" and "quiet s'" and "pg_header s' = pg_header s" and "freelist s' = freelist s"
  shows "store_inv s'" and "live_pages s' = live_pages s" and "spare_pages s' = spare_pages s"
  using assms by (simp_all add: store_inv_def freelist_inv_def live_pages_def spare_pages_def)

section \<open>Flushing\<close>

lemma flush_page_spec:
  assumes inv: "cache_inv s" and b: "pg_txn s \<noteq> Some False"
  obtains f c where "flush_page p s = (Inr (), s\<lparr>pg_file := f, bp_cache := c\<rparr>)" and "map fst c = map fst (bp_cache s)"
    and "cache_inv (s\<lparr>pg_file := f, bp_cache := c\<rparr>)" and "view (s\<lparr>pg_file := f, bp_cache := c\<rparr>) = view s"
    and "\<And>q. dirty_page (s\<lparr>pg_file := f, bp_cache := c\<rparr>) q \<longleftrightarrow> dirty_page s q \<and> q \<noteq> p"
    and "pins (s\<lparr>pg_file := f, bp_cache := c\<rparr>) = pins s"
proof (cases "dirty_page s p")
  case False
  then have "flush_page p s = (Inr (), s)" by (auto simp: flush_page_def dirty_page_def split: option.splits)
  with False show ?thesis using inv by (intro that [where f = "pg_file s" and c = "bp_cache s"]) auto
next
  case True
  then obtain e where e: "map_of (bp_cache s) p = Some e" "e_dirty e" by (auto simp: dirty_page_def split: option.splits)
  note D = cache_invD [OF inv e(1)]
  define f where "f = file_write (page_offset p) (e_data e) (pg_file s)"
  define c where "c = od_update p (\<lambda>e. e\<lparr>e_dirty := False\<rparr>) (bp_cache s)"
  have fp: "file_page f q = (if q = p then e_data e else file_page (pg_file s) q)" if "1 \<le> q" for q
    using D that by (simp add: f_def file_page_write)
  have m: "map_of c q = (if q = p then Some (e\<lparr>e_dirty := False\<rparr>) else map_of (bp_cache s) q)" for q
    using e by (simp add: c_def map_of_od_update)
  have "write_page p (e_data e) s = (Inr (), s\<lparr>pg_file := f\<rparr>)" using D b by (simp add: write_page_def f_def)
  then have "flush_page p s = (Inr (), s\<lparr>pg_file := f, bp_cache := c\<rparr>)"
    using e by (simp add: flush_page_def bind_op_def modify_def c_def)
  moreover have "distinct (map fst c)" using inv by (simp add: c_def cache_inv_def)
  then have "cache_inv (s\<lparr>pg_file := f, bp_cache := c\<rparr>)"
    using inv e(1) fp by (auto simp: cache_inv_def m split: if_splits)
  moreover have "view (s\<lparr>pg_file := f, bp_cache := c\<rparr>) q = view s q" for q
    using e(1) D(1) fp [of q] by (cases "q = 0") (auto simp: view_def m split: option.split)
  moreover have "pins (s\<lparr>pg_file := f, bp_cache := c\<rparr>) q = pins s q" for q using e(1) by (simp add: pins_def m)
  moreover have "dirty_page (s\<lparr>pg_file := f, bp_cache := c\<rparr>) q \<longleftrightarrow> dirty_page s q \<and> q \<noteq> p" for q
    by (simp add: dirty_page_def m)
  moreover have "map fst c = map fst (bp_cache s)" by (simp add: c_def)
  ultimately show ?thesis by (intro that [where f = f and c = c]) (auto simp only: fun_eq_iff)
qed

lemma flush_pages_spec:
  assumes "cache_inv s" and "pg_txn s \<noteq> Some False"
  shows "\<exists>f c. for_op flush_page ps s = (Inr (), s\<lparr>pg_file := f, bp_cache := c\<rparr>) \<and> map fst c = map fst (bp_cache s)
    \<and> cache_inv (s\<lparr>pg_file := f, bp_cache := c\<rparr>) \<and> view (s\<lparr>pg_file := f, bp_cache := c\<rparr>) = view s
    \<and> (\<forall>q. dirty_page (s\<lparr>pg_file := f, bp_cache := c\<rparr>) q \<longleftrightarrow> dirty_page s q \<and> q \<notin> set ps)
    \<and> pins (s\<lparr>pg_file := f, bp_cache := c\<rparr>) = pins s"
  using assms
proof (induction ps arbitrary: s)
  case Nil
  then show ?case by (intro exI [of _ "pg_file s"] exI [of _ "bp_cache s"]) (simp add: skip_def ret_def)
next
  case (Cons p ps)
  show ?case
  proof (rule flush_page_spec [OF Cons.prems, of p])
    fix f c
    define s1 where "s1 = s\<lparr>pg_file := f, bp_cache := c\<rparr>"
    assume "flush_page p s = (Inr (), s\<lparr>pg_file := f, bp_cache := c\<rparr>)" "map fst c = map fst (bp_cache s)"
      "cache_inv (s\<lparr>pg_file := f, bp_cache := c\<rparr>)" "view (s\<lparr>pg_file := f, bp_cache := c\<rparr>) = view s"
      "\<And>q. dirty_page (s\<lparr>pg_file := f, bp_cache := c\<rparr>) q \<longleftrightarrow> dirty_page s q \<and> q \<noteq> p"
      "pins (s\<lparr>pg_file := f, bp_cache := c\<rparr>) = pins s"
    then have a: "flush_page p s = (Inr (), s1)" "map fst (bp_cache s1) = map fst (bp_cache s)" "cache_inv s1" "view s1 = view s"
      "\<And>q. dirty_page s1 q \<longleftrightarrow> dirty_page s q \<and> q \<noteq> p" "pins s1 = pins s" by (simp_all add: s1_def)
    have "pg_txn s1 \<noteq> Some False" using Cons.prems(2) by (simp add: s1_def)
    from Cons.IH [OF a(3) this] obtain f' c' where b: "for_op flush_page ps s1 = (Inr (), s1\<lparr>pg_file := f', bp_cache := c'\<rparr>)"
      "map fst c' = map fst (bp_cache s1)" "cache_inv (s1\<lparr>pg_file := f', bp_cache := c'\<rparr>)"
      "view (s1\<lparr>pg_file := f', bp_cache := c'\<rparr>) = view s1"
      "\<forall>q. dirty_page (s1\<lparr>pg_file := f', bp_cache := c'\<rparr>) q \<longleftrightarrow> dirty_page s1 q \<and> q \<notin> set ps"
      "pins (s1\<lparr>pg_file := f', bp_cache := c'\<rparr>) = pins s1" by blast
    have "s1\<lparr>pg_file := f', bp_cache := c'\<rparr> = s\<lparr>pg_file := f', bp_cache := c'\<rparr>" by (simp add: s1_def)
    with a b show ?case by (intro exI [of _ f'] exI [of _ c']) (auto simp: bind_op_def)
  qed
qed

lemma flush_all_spec:
  assumes "cache_inv s" and "pg_txn s \<noteq> Some False"
  obtains f c where "flush_all s = (Inr (), s\<lparr>pg_file := f, bp_cache := c\<rparr>)"
    and "cache_inv (s\<lparr>pg_file := f, bp_cache := c\<rparr>)" and "view (s\<lparr>pg_file := f, bp_cache := c\<rparr>) = view s"
    and "\<And>q. \<not> dirty_page (s\<lparr>pg_file := f, bp_cache := c\<rparr>) q" and "\<And>q. 1 \<le> q \<Longrightarrow> file_page f q = view s q"
    and "pins (s\<lparr>pg_file := f, bp_cache := c\<rparr>) = pins s"
proof -
  obtain f c where a: "flush_all s = (Inr (), s\<lparr>pg_file := f, bp_cache := c\<rparr>)"
    "cache_inv (s\<lparr>pg_file := f, bp_cache := c\<rparr>)" "view (s\<lparr>pg_file := f, bp_cache := c\<rparr>) = view s"
    "\<forall>q. dirty_page (s\<lparr>pg_file := f, bp_cache := c\<rparr>) q \<longleftrightarrow> dirty_page s q \<and> q \<notin> set (map fst (bp_cache s))"
    "pins (s\<lparr>pg_file := f, bp_cache := c\<rparr>) = pins s"
    using flush_pages_spec [OF assms, of "map fst (bp_cache s)"] unfolding flush_all_def by blast
  have d: "\<not> dirty_page (s\<lparr>pg_file := f, bp_cache := c\<rparr>) q" for q
    using a(4) by (auto simp: dirty_page_def map_of_eq_None_iff split: option.splits dest!: map_of_SomeD) (metis fst_conv image_eqI)
  have "file_page f q = view s q" if "1 \<le> q" for q
  proof -
    have "view (s\<lparr>pg_file := f, bp_cache := c\<rparr>) q = file_page f q"
      using cache_invD(4) [OF a(2), of q] d [of q] that by (cases "map_of c q") (auto simp: view_def dirty_page_def)
    then show ?thesis using a(3) by simp
  qed
  with that a d show ?thesis by blast
qed

section \<open>Full and fresh pools\<close>

lemma evict_loop_all_pinned:
  "\<forall>(p, e) \<in> set xs. 0 < e_pin e \<Longrightarrow> evict_loop xs False s = (Inl PoolExhaustedError, s)"
  by (induction xs) auto

lemma get_page_exhausted:
  assumes "map_of (bp_cache s) p = None" and "\<not> room s"
  shows "get_page p s = (Inl PoolExhaustedError, s)"
proof -
  have "\<forall>(p, e) \<in> set (bp_cache s). 0 < e_pin e" "bp_capacity s \<le> length (bp_cache s)"
    using assms(2) by (auto simp: room_def)
  then show ?thesis
    using evict_loop_all_pinned [of "bp_cache s" s] assms(1) by (simp add: get_page_def evict_one_def bind_op_def)
qed

text \<open>A pool just built over a pager meets the invariant.\<close>

lemma store_inv_fresh:
  assumes "1 \<le> page_count (pg_header p)" and "page_count (pg_header p) < 2 ^ 32" and "freelist_count (pg_header p) = 0"
    and "freelist_trunk (pg_header p) < 2 ^ 32" and "pg_txn p = None" and "1 \<le> capacity" and "nonce < 2 ^ 32"
  shows "store_inv (mk_pool p capacity nonce)"
  using assms
  by (simp add: store_inv_def quiet_def pool_inv_def cache_inv_def txn_inv_def freelist_inv_def freelist_def pins_def
      mk_pool_def pager.defs)

definition blank_pager :: pager where
  "blank_pager = \<lparr>pg_path = None, pg_file = [], pg_header = default_header\<lparr>page_count := 3\<rparr>, pg_txn = None, pg_jfile = None\<rparr>"

lemma blank_pool:
  "store_inv (mk_pool blank_pager 2 0)" "pool_inv (mk_pool blank_pager 2 0)" "room (mk_pool blank_pager 2 0)"
  "spare_pages (mk_pool blank_pager 2 0) = 4294967292" "live_pages (mk_pool blank_pager 2 0) = {1..3}"
  "page_count (pg_header (mk_pool blank_pager 2 0)) = 3" "quiet (mk_pool blank_pager 2 0)"
  "cache_inv (mk_pool blank_pager 2 0)" "pg_txn (mk_pool blank_pager 2 0) = None"
proof -
  show i: "store_inv (mk_pool blank_pager 2 0)"
    by (rule store_inv_fresh) (simp_all add: blank_pager_def default_header_def)
  then show q: "quiet (mk_pool blank_pager 2 0)" by (simp add: store_inv_def)
  then show "room (mk_pool blank_pager 2 0)" by (rule quiet_room)
  from q show "pool_inv (mk_pool blank_pager 2 0)" by (simp add: quiet_def)
  then show "cache_inv (mk_pool blank_pager 2 0)" by (simp add: pool_inv_def)
qed (simp_all add: mk_pool_def pager.defs blank_pager_def default_header_def spare_pages_def live_pages_def freelist_def)

section \<open>Properties\<close>

text \<open>
  C36. The pool is transparent: fetching a page in range returns what the page logically holds,
  cached or not, pins it once, and changes neither any page's logical content nor any other pin,
  whatever eviction had to do to make room; inside a transaction the database file is not written.
  The one failure is a pool at capacity whose every page is pinned.
\<close>

theorem get_page_transparent:
  assumes "pool_inv s" and "1 \<le> p" and "p \<le> page_count (pg_header s)"
  shows "(\<exists>s'. get_page p s = (Inr (view s p), s') \<and> pool_inv s' \<and> view s' = view s
          \<and> pins s' = (pins s)(p := pins s p + 1) \<and> (bp_txn s \<noteq> None \<longrightarrow> pg_file s' = pg_file s))
    \<or> (get_page p s = (Inl PoolExhaustedError, s) \<and> map_of (bp_cache s) p = None
          \<and> bp_capacity s \<le> length (bp_cache s) \<and> (\<forall>(q, e) \<in> set (bp_cache s). 0 < e_pin e))"
proof (cases "room s \<or> map_of (bp_cache s) p \<noteq> None")
  case True
  show ?thesis
    by (rule get_page_spec [OF assms True]) (auto simp: same_view_def)
next
  case False
  then show ?thesis using get_page_exhausted [of s p] by (auto simp: room_def)
qed

theorem get_page_transparent_witness:
  "\<exists>s'. get_page 2 (mk_pool blank_pager 2 0) = (Inr (view (mk_pool blank_pager 2 0) 2), s')
     \<and> view s' = view (mk_pool blank_pager 2 0)"
  using get_page_transparent [of "mk_pool blank_pager 2 0" 2] blank_pool by (auto simp: mk_pool_def pager.defs)

text \<open>
  C37. Updating a page through \<^verbatim>\<open>get_page_for_write\<close> changes that page and no other, keeps the
  invariant with no pin left, and inside a transaction leaves the database file untouched and the
  page either journalled or new, so rolling back can always restore it.
\<close>

theorem update_page_isolated:
  assumes "quiet s" and "1 \<le> p" and "p \<le> page_count (pg_header s)" and "g (view s p) = Inr d" and "length d = PAGE_SIZE"
  shows "\<exists>s'. update_page p g s = (Inr (), s') \<and> quiet s' \<and> view s' = (view s)(p := d) \<and> pg_header s' = pg_header s
    \<and> (\<forall>t. bp_txn s = Some t \<longrightarrow> pg_file s' = pg_file s
         \<and> (\<exists>t'. bp_txn s' = Some t' \<and> tx_page_count_before t' = tx_page_count_before t \<and> journal_inv s' t'
              \<and> (\<forall>q. dirty_page s' q \<longrightarrow> q \<in> set (tx_journalled t') \<or> tx_page_count_before t < q)))"
proof (rule update_page_spec [where g = g, OF assms])
  fix s'
  assume s': "update_page p g s = (Inr (), s')" "quiet s'" "view s' = (view s)(p := d)" "frame s s'"
  have "pg_file s' = pg_file s \<and> (\<exists>t'. bp_txn s' = Some t' \<and> tx_page_count_before t' = tx_page_count_before t \<and> journal_inv s' t'
      \<and> (\<forall>q. dirty_page s' q \<longrightarrow> q \<in> set (tx_journalled t') \<or> tx_page_count_before t < q))" if t: "bp_txn s = Some t" for t
  proof -
    from s'(4) t obtain t' where "bp_txn s' = Some t'" "tx_page_count_before t' = tx_page_count_before t" "pg_file s' = pg_file s"
      by (auto simp: frame_def)
    moreover from this s'(2) have "journal_inv s' t'"
      "\<forall>q. dirty_page s' q \<longrightarrow> q \<in> set (tx_journalled t') \<or> tx_page_count_before t' < q"
      by (simp_all add: quiet_def pool_inv_def txn_inv_def)
    ultimately show ?thesis by simp
  qed
  with s' show ?thesis by (auto simp: frame_def)
qed

theorem update_page_isolated_witness:
  "\<exists>s'. update_page 2 (\<lambda>_. Inr (replicate PAGE_SIZE 7)) (mk_pool blank_pager 2 0) = (Inr (), s')
     \<and> view s' = (view (mk_pool blank_pager 2 0))(2 := replicate PAGE_SIZE 7)"
  using update_page_isolated [of "mk_pool blank_pager 2 0" 2 "\<lambda>_. Inr (replicate PAGE_SIZE 7)" "replicate PAGE_SIZE 7"] blank_pool
  by auto

text \<open>
  Allocation and freeing: an allocated page was not in use (a freed page is reused before the
  file grows), a freed page goes back to the freelist, and neither changes the content of any page in
  use; the freelist stays a chain of distinct pages and never holds page 1.
\<close>

theorem allocate_and_free:
  assumes "store_inv s" and "0 < spare_pages s"
  shows "\<exists>p s1. allocate_page s = (Inr p, s1) \<and> store_inv s1 \<and> p \<notin> live_pages s \<and> live_pages s1 = insert p (live_pages s)
    \<and> (freelist s \<noteq> [] \<longrightarrow> p = hd (freelist s) \<and> page_count (pg_header s1) = page_count (pg_header s))
    \<and> (\<forall>q \<in> live_pages s. view s1 q = view s q)
    \<and> (\<exists>s2. free_page p s1 = (Inr (), s2) \<and> store_inv s2 \<and> live_pages s2 = live_pages s
         \<and> (\<forall>q \<in> live_pages s. view s2 q = view s q))"
proof -
  obtain p s1 where a: "allocate_page s = (Inr p, s1)" "store_inv s1" "p \<notin> live_pages s" "live_pages s1 = insert p (live_pages s)"
    "\<forall>q \<in> live_pages s. view s1 q = view s q"
    and re: "freelist s \<noteq> [] \<longrightarrow> p = hd (freelist s) \<and> page_count (pg_header s1) = page_count (pg_header s)"
    using allocate_page_held [OF assms(1) [unfolded store_inv_held] assms(2)] unfolding store_inv_held by blast
  have one: "1 \<in> live_pages s" using assms(1) by (auto simp: store_inv_def freelist_inv_def live_pages_def)
  have "p \<in> live_pages s1" "p \<noteq> 1" using a(3,4) one by auto
  then obtain s2 where "free_page p s1 = (Inr (), s2)" "store_inv s2" "live_pages s2 = live_pages s1 - {p}"
    "\<forall>q \<in> live_pages s2. view s2 q = view s1 q"
    using pool_store.release_spec [OF a(2)] by blast
  moreover from this a have "live_pages s2 = live_pages s" "\<forall>q \<in> live_pages s. view s2 q = view s q" by auto
  ultimately show ?thesis using a re by auto
qed

theorem allocate_and_free_witness:
  "\<exists>p s1. allocate_page (mk_pool blank_pager 2 0) = (Inr p, s1) \<and> store_inv s1
     \<and> live_pages s1 = insert p (live_pages (mk_pool blank_pager 2 0))"
  using allocate_and_free [of "mk_pool blank_pager 2 0"] blank_pool by auto

text \<open>
  Once the barrier has passed (or with no transaction), \<^verbatim>\<open>flush_all\<close> makes the file hold exactly
  the logical content of every page and leaves nothing dirty, no page's content or pins having changed.
\<close>

theorem flush_all_writes_back:
  assumes "cache_inv s" and "pg_txn s \<noteq> Some False"
  shows "\<exists>s'. flush_all s = (Inr (), s') \<and> cache_inv s' \<and> view s' = view s \<and> (\<forall>q. \<not> dirty_page s' q)
    \<and> (\<forall>q. 1 \<le> q \<longrightarrow> file_page (pg_file s') q = view s q) \<and> pins s' = pins s"
  by (rule flush_all_spec [OF assms]) auto

theorem flush_all_writes_back_witness:
  "\<exists>s'. flush_all (mk_pool blank_pager 2 0) = (Inr (), s') \<and> (\<forall>q. \<not> dirty_page s' q)"
  using flush_all_writes_back [of "mk_pool blank_pager 2 0"] blank_pool by auto

end
