(* ===== verification/Overflow.thy ===== *)
theory Overflow
  imports PoolStore
begin

text \<open>
  Overflow chains, \<^verbatim>\<open>src/src/quilldb/storage/overflow.py\<close>: the linked pages that hold a payload's
  spilled tail. The functions take the pool they are given, here the operations of it that they
  call; the lemmas are proved against the page-store contract and hold for the buffer pool.
  The walks follow pointers from disk and may meet anything: they are partial functions into
  \<open>option\<close>, and that they end is proved.
\<close>

section \<open>Definitions\<close>

definition CONTENT_PER_PAGE :: nat where
  "CONTENT_PER_PAGE = USABLE_SIZE - 4"

text \<open>\<^verbatim>\<open>math.ceil(len(data) / CONTENT_PER_PAGE)\<close>.\<close>

definition chain_length :: "nat \<Rightarrow> nat" where
  "chain_length n = (n + CONTENT_PER_PAGE - 1) div CONTENT_PER_PAGE"

text \<open>One page of the second pass: the next pointer, then this page's slice of the data.\<close>

definition fill_page :: "nat list \<Rightarrow> bytes \<Rightarrow> nat \<Rightarrow> bytes \<Rightarrow> bytes res" where
  "fill_page page_ids data i raw =
     (let next_page_id = (if i + 1 < length page_ids then page_ids ! (i + 1) else 0);
          chunk = py_slice (i * CONTENT_PER_PAGE) ((i + 1) * CONTENT_PER_PAGE) data
      in bind_res (to_bytes 4 next_page_id) (\<lambda>nxt.
           Inr (py_put 4 (4 + length chunk) chunk (py_put 0 4 nxt raw))))"

definition write_overflow_chain ::
  "('s, nat) op \<Rightarrow> (nat \<Rightarrow> (bytes \<Rightarrow> bytes res) \<Rightarrow> ('s, unit) op) \<Rightarrow> bytes \<Rightarrow> ('s, nat) op" where
  "write_overflow_chain alloc update data =
     (if data = [] then fail ValueError
      else let page_count = chain_length (length data) in
        bind_op (map_op (\<lambda>_. alloc) [0..<page_count]) (\<lambda>page_ids.
        bind_op (for_op (\<lambda>i. update (page_ids ! i) (fill_page page_ids data i)) [0..<page_count]) (\<lambda>_.
          ret (page_ids ! 0))))"

partial_function (option) read_chain ::
  "(nat \<Rightarrow> ('s, bytes) op) \<Rightarrow> nat \<Rightarrow> nat list \<Rightarrow> nat \<Rightarrow> nat \<Rightarrow> bytes \<Rightarrow> 's \<Rightarrow> (bytes res \<times> 's) option" where
  "read_chain load total_len visited current_page offset content s =
     (if current_page = 0 then Some (Inr content, s)
      else if current_page \<in> set visited then Some (Inl OverflowCycleError, s)
      else case load current_page s of
        (Inl e, s') \<Rightarrow> Some (Inl e, s')
      | (Inr raw, s') \<Rightarrow>
          let chunk_len = min CONTENT_PER_PAGE (total_len - offset) in
          read_chain load total_len (current_page # visited) (be_decode (py_slice 0 4 raw)) (offset + chunk_len)
            (py_put offset (offset + chunk_len) (py_slice 4 (4 + chunk_len) raw) content) s')"

definition read_overflow_chain :: "(nat \<Rightarrow> ('s, bytes) op) \<Rightarrow> nat \<Rightarrow> nat \<Rightarrow> 's \<Rightarrow> (bytes res \<times> 's) option" where
  "read_overflow_chain load first_page total_len =
     read_chain load total_len [] first_page 0 (replicate total_len 0)"

partial_function (option) free_chain ::
  "(nat \<Rightarrow> ('s, bytes) op) \<Rightarrow> (nat \<Rightarrow> ('s, unit) op) \<Rightarrow> nat list \<Rightarrow> nat \<Rightarrow> 's \<Rightarrow> (unit res \<times> 's) option" where
  "free_chain load release visited current_page s =
     (if current_page = 0 then Some (Inr (), s)
      else if current_page \<in> set visited then Some (Inl OverflowCycleError, s)
      else case load current_page s of
        (Inl e, s') \<Rightarrow> Some (Inl e, s')
      | (Inr raw, s') \<Rightarrow>
          (case release current_page s' of
             (Inl e, s'') \<Rightarrow> Some (Inl e, s'')
           | (Inr _, s'') \<Rightarrow>
               free_chain load release (current_page # visited) (be_decode (py_slice 0 4 raw)) s''))"

definition free_overflow_chain ::
  "(nat \<Rightarrow> ('s, bytes) op) \<Rightarrow> (nat \<Rightarrow> ('s, unit) op) \<Rightarrow> nat \<Rightarrow> 's \<Rightarrow> (unit res \<times> 's) option" where
  "free_overflow_chain load release first_page = free_chain load release [] first_page"

section \<open>Chains on pages\<close>

text \<open>The pages \<open>ids\<close> hold \<open>d\<close>, each pointing at the next and the last at page 0.\<close>

fun on_chain :: "(nat \<Rightarrow> bytes) \<Rightarrow> nat list \<Rightarrow> bytes \<Rightarrow> bool" where
  "on_chain v [] d \<longleftrightarrow> d = []"
| "on_chain v (p # ps) d \<longleftrightarrow> d \<noteq> [] \<and> p \<noteq> 0
     \<and> be_decode (py_slice 0 4 (v p)) = (case ps of [] \<Rightarrow> 0 | q # _ \<Rightarrow> q)
     \<and> py_slice 4 (4 + min CONTENT_PER_PAGE (length d)) (v p) = take CONTENT_PER_PAGE d
     \<and> on_chain v ps (drop CONTENT_PER_PAGE d)"

lemma CONTENT_PER_PAGE_eq: "CONTENT_PER_PAGE = 4092"
  by (simp add: CONTENT_PER_PAGE_def USABLE_SIZE_def PAGE_SIZE_def)

lemma on_chain_cong: "(\<And>p. p \<in> set ids \<Longrightarrow> v p = w p) \<Longrightarrow> on_chain v ids d = on_chain w ids d"
  by (induction v ids d rule: on_chain.induct) auto

lemma chain_length_pos: "0 < n \<Longrightarrow> 0 < chain_length n"
  by (simp add: chain_length_def CONTENT_PER_PAGE_eq div_greater_zero_iff)

lemma chain_length_bounds:
  shows "n \<le> chain_length n * CONTENT_PER_PAGE" and "i < chain_length n \<Longrightarrow> i * CONTENT_PER_PAGE < n"
proof -
  have "chain_length n = (n + 4091) div 4092" by (simp add: chain_length_def CONTENT_PER_PAGE_eq)
  then show "n \<le> chain_length n * CONTENT_PER_PAGE" and "i < chain_length n \<Longrightarrow> i * CONTENT_PER_PAGE < n"
    unfolding CONTENT_PER_PAGE_eq by linarith+
qed

lemma fill_page_spec:
  fixes i :: nat and ids :: "nat list" and data raw :: bytes
  assumes "length raw = PAGE_SIZE" and "\<forall>p \<in> set ids. p < 2 ^ 32"
  defines "nxt \<equiv> if i + 1 < length ids then ids ! (i + 1) else 0"
    and "chunk \<equiv> py_slice (i * CONTENT_PER_PAGE) ((i + 1) * CONTENT_PER_PAGE) data"
  obtains d where "fill_page ids data i raw = Inr d" and "length d = PAGE_SIZE" and "be_decode (py_slice 0 4 d) = nxt"
    and "py_slice 4 (4 + length chunk) d = chunk"
proof -
  have n: "nxt < 256 ^ 4" using assms(2) by (auto simp: nxt_def)
  have c: "length chunk \<le> 4092" by (simp add: chunk_def CONTENT_PER_PAGE_eq)
  define e where "e = py_put 0 4 (be_encode 4 nxt) raw"
  have le: "length e = PAGE_SIZE" using assms(1) by (simp add: e_def length_py_put PAGE_SIZE_def)
  define d where "d = py_put 4 (4 + length chunk) chunk e"
  have "length d = PAGE_SIZE" using le c by (simp add: d_def length_py_put PAGE_SIZE_def)
  moreover have "py_slice 0 4 d = py_slice 0 4 e" using le by (simp add: d_def py_slice_put_before PAGE_SIZE_def)
  moreover have "py_slice 0 4 e = be_encode 4 nxt" using assms(1) by (simp add: e_def py_slice_put_same PAGE_SIZE_def)
  moreover have "py_slice 4 (4 + length chunk) d = chunk" using le c by (simp add: d_def py_slice_put_same PAGE_SIZE_def)
  moreover have "fill_page ids data i raw = Inr d"
    using n unfolding fill_page_def Let_def nxt_def [symmetric] chunk_def [symmetric] by (simp add: to_bytes_def d_def e_def)
  ultimately show ?thesis using that n by simp
qed

text \<open>Pages filled one by one form a chain.\<close>

lemma on_chain_filled:
  assumes "length ids = chain_length (length data)" and "0 \<notin> set ids"
    and "\<And>i. i < length ids \<Longrightarrow> be_decode (py_slice 0 4 (v (ids ! i))) = (if i + 1 < length ids then ids ! (i + 1) else 0)"
    and "\<And>i. i < length ids \<Longrightarrow>
      (let chunk = py_slice (i * CONTENT_PER_PAGE) ((i + 1) * CONTENT_PER_PAGE) data
       in py_slice 4 (4 + length chunk) (v (ids ! i)) = chunk)"
    and "k \<le> length ids"
  shows "on_chain v (drop k ids) (drop (k * CONTENT_PER_PAGE) data)"
  using assms(5)
proof (induction "length ids - k" arbitrary: k)
  case 0
  then have "k = chain_length (length data)" using assms(1) by simp
  then have "length data \<le> k * CONTENT_PER_PAGE" using chain_length_bounds(1) by simp
  with 0 show ?case by simp
next
  case (Suc n)
  then have k: "k < length ids" by simp
  have "k * CONTENT_PER_PAGE < length data" using chain_length_bounds(2) k assms(1) by simp
  moreover have "drop k ids = ids ! k # drop (Suc k) ids" using k by (simp add: Cons_nth_drop_Suc)
  moreover have "ids ! k \<noteq> 0" using assms(2) k by (metis nth_mem)
  moreover have "(if k + 1 < length ids then ids ! (k + 1) else 0) = (case drop (Suc k) ids of [] \<Rightarrow> 0 | q # _ \<Rightarrow> q)"
    by (auto simp: drop_eq_Nil hd_drop_conv_nth split: list.splits) (metis hd_drop_conv_nth list.sel(1))
  moreover have "py_slice (k * CONTENT_PER_PAGE) ((k + 1) * CONTENT_PER_PAGE) data = take CONTENT_PER_PAGE (drop (k * CONTENT_PER_PAGE) data)"
    by (simp add: py_slice_def)
  moreover have "on_chain v (drop (Suc k) ids) (drop (Suc k * CONTENT_PER_PAGE) data)"
    using Suc k by (intro Suc.hyps(1)) simp_all
  ultimately show ?case
    using assms(3,4) [OF k] by (simp add: Let_def min.commute add.commute)
qed

section \<open>Writing, reading and freeing through a page store\<close>

context page_store
begin

lemma fill_pages:
  assumes "inv s" and "set ids \<subseteq> live s" and "distinct ids" and "k \<le> length ids"
  shows "\<exists>s'. for_op (\<lambda>i. update (ids ! i) (fill_page ids data i)) [0..<k] s = (Inr (), s') \<and> inv s' \<and> live s' = live s
    \<and> spare s' = spare s \<and> (\<forall>q \<in> live s - set ids. pages s' q = pages s q)
    \<and> (\<forall>i < k. be_decode (py_slice 0 4 (pages s' (ids ! i))) = (if i + 1 < length ids then ids ! (i + 1) else 0)
         \<and> (let chunk = py_slice (i * CONTENT_PER_PAGE) ((i + 1) * CONTENT_PER_PAGE) data
            in py_slice 4 (4 + length chunk) (pages s' (ids ! i)) = chunk))"
  using assms(4)
proof (induction k)
  case 0
  then show ?case using assms(1) by (simp add: skip_def ret_def)
next
  case (Suc k)
  then obtain s1 where s1: "for_op (\<lambda>i. update (ids ! i) (fill_page ids data i)) [0..<k] s = (Inr (), s1)" "inv s1"
    "live s1 = live s" "spare s1 = spare s" "\<forall>q \<in> live s - set ids. pages s1 q = pages s q"
    and sofar: "\<forall>i < k. be_decode (py_slice 0 4 (pages s1 (ids ! i))) = (if i + 1 < length ids then ids ! (i + 1) else 0)
         \<and> (let chunk = py_slice (i * CONTENT_PER_PAGE) ((i + 1) * CONTENT_PER_PAGE) data
            in py_slice 4 (4 + length chunk) (pages s1 (ids ! i)) = chunk)" by auto
  have k: "k < length ids" using Suc.prems by simp
  then have p: "ids ! k \<in> live s1" using assms(2) s1(3) by (metis nth_mem subsetD)
  have small: "\<forall>p \<in> set ids. p < 2 ^ 32" using live_range [OF assms(1)] assms(2) by blast
  obtain d where d: "fill_page ids data k (pages s1 (ids ! k)) = Inr d" "length d = PAGE_SIZE"
    "be_decode (py_slice 0 4 d) = (if k + 1 < length ids then ids ! (k + 1) else 0)"
    "py_slice 4 (4 + length (py_slice (k * CONTENT_PER_PAGE) ((k + 1) * CONTENT_PER_PAGE) data)) d
      = py_slice (k * CONTENT_PER_PAGE) ((k + 1) * CONTENT_PER_PAGE) data"
    using fill_page_spec [OF page_length [OF s1(2) p] small, where i = k and data = data] by metis
  obtain s2 where s2: "update (ids ! k) (fill_page ids data k) s1 = (Inr (), s2)" "inv s2" "live s2 = live s1"
    "spare s2 = spare s1" "\<forall>q \<in> live s1. pages s2 q = (if q = ids ! k then d else pages s1 q)"
    using update_spec [OF s1(2) p, of "fill_page ids data k", OF d(1,2)] by blast
  have run: "for_op (\<lambda>i. update (ids ! i) (fill_page ids data i)) [0..<Suc k] s = (Inr (), s2)"
    using for_op_snoc [of "\<lambda>i. update (ids ! i) (fill_page ids data i)" "[0..<k]" k s] s1(1) s2(1)
    by (simp add: bind_op_def)
  have other: "ids ! i \<noteq> ids ! k \<and> ids ! i \<in> live s1" if "i < k" for i
    using that k assms(2,3) s1(3) by (auto simp: nth_eq_iff_index_eq)
  have "pages s2 (ids ! k) = d" using s2(5) p by simp
  with d sofar other s2(5) have "\<forall>i < Suc k. be_decode (py_slice 0 4 (pages s2 (ids ! i))) = (if i + 1 < length ids then ids ! (i + 1) else 0)
         \<and> (let chunk = py_slice (i * CONTENT_PER_PAGE) ((i + 1) * CONTENT_PER_PAGE) data
            in py_slice 4 (4 + length chunk) (pages s2 (ids ! i)) = chunk)"
    by (simp add: less_Suc_eq all_conj_distrib Let_def)
  moreover have "\<forall>q \<in> live s - set ids. pages s2 q = pages s q" using s1(3,5) s2(5) k by auto
  ultimately show ?case using run s2(2-4) s1(3,4) by auto
qed

lemma write_chain:
  assumes "inv s" and "data \<noteq> []" and "chain_length (length data) \<le> spare s"
  obtains ids s' where "write_overflow_chain alloc update data s = (Inr (hd ids), s')" and "inv s'" and "ids \<noteq> []"
    and "distinct ids" and "set ids \<inter> live s = {}" and "live s' = live s \<union> set ids"
    and "spare s' + length ids = spare s" and "\<forall>q \<in> live s. pages s' q = pages s q" and "on_chain (pages s') ids data"
    and "length ids = chain_length (length data)"
proof -
  let ?n = "chain_length (length data)"
  obtain ids s1 where s1: "map_op (\<lambda>_. alloc) [0..<?n] s = (Inr ids, s1)" "inv s1" "length ids = ?n" "distinct ids"
    "set ids \<inter> live s = {}" "live s1 = live s \<union> set ids" "spare s1 + ?n = spare s" "\<forall>q \<in> live s. pages s1 q = pages s q"
    using alloc_many [OF assms(1,3)] by blast
  have "set ids \<subseteq> live s1" using s1(6) by simp
  from fill_pages [OF s1(2) this s1(4) order_refl, of data] obtain s2 where
    s2: "for_op (\<lambda>i. update (ids ! i) (fill_page ids data i)) [0..<?n] s1 = (Inr (), s2)" "inv s2" "live s2 = live s1"
    "spare s2 = spare s1" "\<forall>q \<in> live s1 - set ids. pages s2 q = pages s1 q"
    and filled: "\<forall>i < ?n. be_decode (py_slice 0 4 (pages s2 (ids ! i))) = (if i + 1 < length ids then ids ! (i + 1) else 0)
         \<and> (let chunk = py_slice (i * CONTENT_PER_PAGE) ((i + 1) * CONTENT_PER_PAGE) data
            in py_slice 4 (4 + length chunk) (pages s2 (ids ! i)) = chunk)"
    unfolding s1(3) by blast
  have "0 \<notin> set ids" using live_range [OF s1(2)] s1(6) by fastforce
  then have "on_chain (pages s2) (drop 0 ids) (drop (0 * CONTENT_PER_PAGE) data)"
    using filled by (intro on_chain_filled [OF s1(3)]) (simp_all add: s1(3))
  then have chain: "on_chain (pages s2) ids data" by simp
  have ne: "ids \<noteq> []" using s1(3) chain_length_pos [of "length data"] assms(2) by auto
  have "write_overflow_chain alloc update data s = (Inr (hd ids), s2)"
    using s1(1) s2(1) assms(2) ne by (simp add: write_overflow_chain_def Let_def bind_op_def ret_def hd_conv_nth)
  moreover have "\<forall>q \<in> live s. pages s2 q = pages s q"
    using s2(5) s1(5,6,8) by (metis DiffI UnI1 disjoint_iff)
  ultimately show ?thesis
    using that [of ids s2] s2(2-4) s1(3-7) ne chain by auto
qed

lemma read_chain_spec:
  assumes "inv s" and "set ids \<subseteq> live s" and "distinct ids" and "set ids \<inter> set visited = {}" and "on_chain (pages s) ids d"
    and "length content = offset + length d" and "cur = (case ids of [] \<Rightarrow> 0 | p # _ \<Rightarrow> p)"
  shows "\<exists>s'. read_chain load (offset + length d) visited cur offset content s = Some (Inr (take offset content @ d), s')
    \<and> inv s' \<and> live s' = live s \<and> spare s' = spare s \<and> (\<forall>q \<in> live s. pages s' q = pages s q)"
  using assms
proof (induction ids arbitrary: s visited cur offset content d)
  case Nil
  then show ?case by (subst read_chain.simps) simp
next
  case (Cons p ids)
  let ?c = "min CONTENT_PER_PAGE (length d)"
  have ch: "d \<noteq> []" "p \<noteq> 0" "be_decode (py_slice 0 4 (pages s p)) = (case ids of [] \<Rightarrow> 0 | q # _ \<Rightarrow> q)"
    "py_slice 4 (4 + ?c) (pages s p) = take CONTENT_PER_PAGE d" "on_chain (pages s) ids (drop CONTENT_PER_PAGE d)"
    using Cons.prems(5) by simp_all
  have p: "p \<in> live s" "p \<notin> set visited" using Cons.prems(2,4) by simp_all
  obtain s1 where s1: "load p s = (Inr (pages s p), s1)" "inv s1" "live s1 = live s" "spare s1 = spare s"
    "\<forall>q \<in> live s. pages s1 q = pages s q"
    using load_spec [OF Cons.prems(1) p(1)] by blast
  define content' where "content' = py_put offset (offset + ?c) (take CONTENT_PER_PAGE d) content"
  have len: "length content' = offset + ?c + length (drop CONTENT_PER_PAGE d)"
    using Cons.prems(6) by (simp add: content'_def py_put_def min_def)
  have chain1: "on_chain (pages s1) ids (drop CONTENT_PER_PAGE d)"
    using ch(5) s1(5) Cons.prems(2) by (subst on_chain_cong [of ids _ "pages s"]) auto
  have vis: "set ids \<inter> set (p # visited) = {}" using Cons.prems(3,4) by auto
  have ids1: "set ids \<subseteq> live s1" "distinct ids" using Cons.prems(2,3) s1(3) by auto
  from Cons.IH [OF s1(2) ids1 vis chain1 len refl] obtain s2 where
    s2: "read_chain load (offset + ?c + length (drop CONTENT_PER_PAGE d)) (p # visited) (case ids of [] \<Rightarrow> 0 | q # _ \<Rightarrow> q)
      (offset + ?c) content' s1 = Some (Inr (take (offset + ?c) content' @ drop CONTENT_PER_PAGE d), s2)"
    and i2: "inv s2" "live s2 = live s1" "spare s2 = spare s1" "\<forall>q \<in> live s1. pages s2 q = pages s1 q" by blast
  have tot: "offset + ?c + length (drop CONTENT_PER_PAGE d) = offset + length d" by (simp add: min_def)
  have out: "take (offset + ?c) content' @ drop CONTENT_PER_PAGE d = take offset content @ d"
    using Cons.prems(6) by (simp add: content'_def py_put_def min_def)
  have "read_chain load (offset + length d) visited cur offset content s
      = Some (Inr (take offset content @ d), s2)"
    by (subst read_chain.simps)
      (use ch p s1(1) s2 [unfolded tot out, unfolded content'_def] Cons.prems(7) in \<open>simp add: Let_def\<close>)
  then show ?case using i2 s1(3-5) by auto
qed

lemma free_chain_spec:
  assumes "inv s" and "set ids \<subseteq> live s" and "distinct ids" and "set ids \<inter> set visited = {}" and "on_chain (pages s) ids d"
    and "1 \<notin> set ids" and "set ids \<inter> busy = {}" and "cur = (case ids of [] \<Rightarrow> 0 | p # _ \<Rightarrow> p)"
  shows "\<exists>s'. free_chain load release visited cur s = Some (Inr (), s') \<and> inv s' \<and> live s' = live s - set ids
    \<and> spare s' = spare s + length ids \<and> (\<forall>q \<in> live s'. pages s' q = pages s q)"
  using assms
proof (induction ids arbitrary: s visited cur d)
  case Nil
  then show ?case by (subst free_chain.simps) simp
next
  case (Cons p ids)
  have ch: "p \<noteq> 0" "be_decode (py_slice 0 4 (pages s p)) = (case ids of [] \<Rightarrow> 0 | q # _ \<Rightarrow> q)"
    "on_chain (pages s) ids (drop CONTENT_PER_PAGE d)"
    using Cons.prems(5) by simp_all
  have p: "p \<in> live s" "p \<notin> set visited" "p \<noteq> 1" "p \<notin> busy" using Cons.prems(2,4,6,7) by simp_all
  obtain s1 where s1: "load p s = (Inr (pages s p), s1)" "inv s1" "live s1 = live s" "spare s1 = spare s"
    "\<forall>q \<in> live s. pages s1 q = pages s q"
    using load_spec [OF Cons.prems(1) p(1)] by blast
  have "p \<in> live s1" using p(1) s1(3) by simp
  from release_spec [OF s1(2) this p(3,4)] obtain s2 where s2: "release p s1 = (Inr (), s2)" "inv s2" "live s2 = live s1 - {p}"
    "spare s2 = spare s1 + 1" "\<forall>q \<in> live s2. pages s2 q = pages s1 q" by blast
  have ids: "set ids \<subseteq> live s2" "distinct ids" "set ids \<inter> set (p # visited) = {}" "1 \<notin> set ids" "set ids \<inter> busy = {}"
    using Cons.prems(2,3,4,6,7) s2(3) s1(3) by auto
  have "pages s2 q = pages s q" if "q \<in> set ids" for q using that ids(1) s2(3,5) s1(3,5) by auto
  then have chain2: "on_chain (pages s2) ids (drop CONTENT_PER_PAGE d)"
    using ch(3) by (subst on_chain_cong [of ids _ "pages s"]) auto
  from Cons.IH [OF s2(2) ids(1-3) chain2 ids(4,5) refl] obtain s3 where
    s3: "free_chain load release (p # visited) (case ids of [] \<Rightarrow> 0 | q # _ \<Rightarrow> q) s2 = Some (Inr (), s3)"
    and i3: "inv s3" "live s3 = live s2 - set ids" "spare s3 = spare s2 + length ids" "\<forall>q \<in> live s3. pages s3 q = pages s2 q"
    by blast
  have "free_chain load release visited cur s = Some (Inr (), s3)"
    by (subst free_chain.simps) (use ch p s1(1) s2(1) s3 Cons.prems(8) in simp)
  then show ?case using i3 s1(3-5) s2(3-5) by auto
qed

end

section \<open>Walks over damaged chains\<close>

text \<open>
  A store in which loading any page number at all either gives a page or fails cleanly: what the
  walks need to end on a corrupt file.
\<close>

locale total_page_store = page_store +
  fixes extent :: "'a \<Rightarrow> nat set"
  assumes finite_extent: "finite (extent s)"
    and load_any: "inv s \<Longrightarrow> \<exists>r s'. load p s = (r, s') \<and> inv s' \<and> extent s' = extent s \<and> pages s' = pages s
      \<and> (case r of Inr d \<Rightarrow> p \<in> extent s \<and> length d = PAGE_SIZE | Inl e \<Rightarrow> e = PageOutOfRangeError)"
begin

lemma read_chain_total:
  assumes "inv s" and "length content = total_len" and "offset \<le> total_len"
  shows "\<exists>r s'. read_chain load total_len visited cur offset content s = Some (r, s') \<and> inv s' \<and> pages s' = pages s
    \<and> (case r of Inr d \<Rightarrow> length d = total_len | Inl e \<Rightarrow> e = OverflowCycleError \<or> e = PageOutOfRangeError)"
  using assms
proof (induction "card (extent s - set visited)" arbitrary: s visited cur offset content rule: less_induct)
  case less
  show ?case
  proof (cases "cur = 0 \<or> cur \<in> set visited")
    case True
    then show ?thesis using less.prems by (subst read_chain.simps) auto
  next
    case False
    obtain r s1 where s1: "load cur s = (r, s1)" "inv s1" "extent s1 = extent s" "pages s1 = pages s"
      "case r of Inr d \<Rightarrow> cur \<in> extent s \<and> length d = PAGE_SIZE | Inl e \<Rightarrow> e = PageOutOfRangeError"
      using load_any [OF less.prems(1)] by blast
    show ?thesis
    proof (cases r)
      case (Inl e)
      then show ?thesis using s1 False by (subst read_chain.simps) auto
    next
      case (Inr raw)
      let ?c = "min CONTENT_PER_PAGE (total_len - offset)"
      let ?content = "py_put offset (offset + ?c) (py_slice 4 (4 + ?c) raw) content"
      have raw: "cur \<in> extent s" "length raw = PAGE_SIZE" using s1(5) Inr by simp_all
      have "card (extent s1 - set (cur # visited)) < card (extent s - set visited)"
        unfolding s1(3) using False raw(1) finite_extent [of s] by (intro psubset_card_mono) auto
      moreover have "length ?content = total_len"
        using less.prems(2,3) raw(2) by (subst length_py_put) (auto simp: CONTENT_PER_PAGE_eq PAGE_SIZE_def)
      moreover have "offset + ?c \<le> total_len" using less.prems(3) by simp
      ultimately obtain r' s2 where "read_chain load total_len (cur # visited) (be_decode (py_slice 0 4 raw)) (offset + ?c) ?content s1
          = Some (r', s2)" "inv s2" "pages s2 = pages s1"
        "case r' of Inr d \<Rightarrow> length d = total_len | Inl e \<Rightarrow> e = OverflowCycleError \<or> e = PageOutOfRangeError"
        using less.hyps [OF _ s1(2)] by blast
      then show ?thesis using s1(1,4) Inr False by (subst read_chain.simps) (simp add: Let_def)
    qed
  qed
qed

end

lemma load_page_out_of_range:
  assumes q: "quiet s" and p: "\<not> (1 \<le> p \<and> p \<le> page_count (pg_header s))"
  shows "\<exists>s'. load_page p s = (Inl PageOutOfRangeError, s') \<and> quiet s' \<and> view s' = view s \<and> pg_header s' = pg_header s"
proof -
  have inv: "pool_inv s" and z: "\<forall>p. pins s p = 0" and cap: "1 \<le> bp_capacity s" using q by (auto simp: quiet_def)
  obtain s1 where ev: "(if bp_capacity s \<le> length (bp_cache s) then evict_one else skip) s = (Inr (), s1)"
    and s1: "pool_inv s1" "same_view s s1" "pins s1 = pins s"
    using make_room_spec [OF inv quiet_room [OF q]] by blast
  have nc: "map_of (bp_cache s) p = None"
    using inv p by (cases "map_of (bp_cache s) p") (auto simp: pool_inv_def cache_inv_def)
  have h: "pg_header s1 = pg_header s" "view s1 = view s" "bp_capacity s1 = bp_capacity s" using s1(2) by (simp_all add: same_view_def)
  have "read_page p s1 = (Inl PageOutOfRangeError, s1)" using p by (auto simp: read_page_def h)
  then have "load_page p s = (Inl PageOutOfRangeError, s1)"
    using ev nc by (simp add: load_page_def get_page_def bind_op_def)
  then show ?thesis using s1 h z cap by (simp add: quiet_def)
qed

lemma pool_load_any:
  assumes "store_inv s"
  shows "\<exists>r s'. load_page p s = (r, s') \<and> store_inv s' \<and> {1..page_count (pg_header s')} = {1..page_count (pg_header s)}
    \<and> view s' = view s \<and> (case r of Inr d \<Rightarrow> p \<in> {1..page_count (pg_header s)} \<and> length d = PAGE_SIZE | Inl e \<Rightarrow> e = PageOutOfRangeError)"
proof -
  have q: "quiet s" using assms by (simp add: store_inv_def)
  have inv: "store_inv s'" if "quiet s'" "view s' = view s" "pg_header s' = pg_header s" for s'
    using assms that by (intro store_inv_frame(1) [OF assms]) (simp_all add: freelist_def)
  show ?thesis
  proof (cases "1 \<le> p \<and> p \<le> page_count (pg_header s)")
    case True
    show ?thesis
    proof (rule load_page_spec [OF q conjunct1 [OF True] conjunct2 [OF True]])
      fix s'
      assume "load_page p s = (Inr (view s p), s')" "quiet s'" "view s' = view s" "pg_header s' = pg_header s"
      then show ?thesis using inv True view_length [of s p] q by (simp add: quiet_def)
    qed
  next
    case False
    then show ?thesis using load_page_out_of_range [OF q False] inv by fastforce
  qed
qed

interpretation pool_total: total_page_store store_inv view live_pages spare_pages allocate_page load_page update_page free_page "{}"
  "\<lambda>s. {1..page_count (pg_header s)}"
proof
  show "finite {1..page_count (pg_header s)}" for s :: pool by simp
qed (fact pool_load_any)

section \<open>Properties\<close>

text \<open>
  C38. Overflow chains round-trip through the buffer pool: writing a non-empty payload allocates fresh
  pages only and leaves every live page's content alone; reading the chain back returns exactly the
  payload; freeing it succeeds, returns every page it used, and again disturbs no other live page.
\<close>

theorem overflow_roundtrip:
  assumes "store_inv s" and "data \<noteq> []" and "chain_length (length data) \<le> spare_pages s"
  shows "\<exists>first s1 s2 s3. write_overflow_chain allocate_page update_page data s = (Inr first, s1)
    \<and> live_pages s \<subseteq> live_pages s1 \<and> (\<forall>q \<in> live_pages s. view s1 q = view s q)
    \<and> read_overflow_chain load_page first (length data) s1 = Some (Inr data, s2) \<and> (\<forall>q \<in> live_pages s1. view s2 q = view s1 q)
    \<and> free_overflow_chain load_page free_page first s2 = Some (Inr (), s3)
    \<and> live_pages s3 = live_pages s \<and> store_inv s3 \<and> (\<forall>q \<in> live_pages s. view s3 q = view s q)"
proof (rule pool_store.write_chain [OF assms])
  fix ids s1
  assume w: "write_overflow_chain allocate_page update_page data s = (Inr (hd ids), s1)" and i1: "store_inv s1"
    and ids: "ids \<noteq> []" "distinct ids" "set ids \<inter> live_pages s = {}" and l1: "live_pages s1 = live_pages s \<union> set ids"
    and v1: "\<forall>q \<in> live_pages s. view s1 q = view s q" and ch: "on_chain (view s1) ids data"
  have sub: "set ids \<subseteq> live_pages s1" using l1 by simp
  have hd: "hd ids = (case ids of [] \<Rightarrow> 0 | p # _ \<Rightarrow> p)" using ids(1) by (cases ids) simp_all
  obtain s2 where r: "read_overflow_chain load_page (hd ids) (length data) s1 = Some (Inr data, s2)" and i2: "store_inv s2"
    and l2: "live_pages s2 = live_pages s1" and v2: "\<forall>q \<in> live_pages s1. view s2 q = view s1 q"
    using pool_store.read_chain_spec [OF i1 sub ids(2) _ ch, of "[]" "replicate (length data) 0" 0 "hd ids"] hd
    by (auto simp: read_overflow_chain_def)
  have one: "1 \<in> live_pages s" using assms(1) by (auto simp: store_inv_def freelist_inv_def live_pages_def)
  have ch2: "on_chain (view s2) ids data" using ch v2 sub by (subst on_chain_cong [of ids _ "view s1"]) auto
  have sub2: "set ids \<subseteq> live_pages s2" using sub l2 by simp
  have "1 \<notin> set ids" using one ids(3) by blast
  from pool_store.free_chain_spec [OF i2 sub2 ids(2) _ ch2 this _ hd, of "[]"] obtain s3 where
    f: "free_overflow_chain load_page free_page (hd ids) s2 = Some (Inr (), s3)" and i3: "store_inv s3"
    and l3: "live_pages s3 = live_pages s2 - set ids" and v3: "\<forall>q \<in> live_pages s3. view s3 q = view s2 q"
    by (auto simp: free_overflow_chain_def)
  have l3': "live_pages s3 = live_pages s" using l1 l2 l3 ids(3) by auto
  moreover have "\<forall>q \<in> live_pages s. view s3 q = view s q" using v1 v2 v3 l1 l3' by auto
  ultimately show ?thesis using w r f i3 v1 v2 l1 by (metis Un_upper1)
qed

theorem overflow_roundtrip_witness:
  "\<exists>first s1 s2. write_overflow_chain allocate_page update_page (replicate 5000 7) (mk_pool blank_pager 2 0) = (Inr first, s1)
     \<and> read_overflow_chain load_page first 5000 s1 = Some (Inr (replicate 5000 7), s2)"
  using overflow_roundtrip [of "mk_pool blank_pager 2 0" "replicate 5000 7"] blank_pool(1,4)
  by (auto simp: chain_length_def CONTENT_PER_PAGE_eq)

text \<open>
  Reading an overflow chain always ends, whatever the pages hold: it returns exactly the requested
  number of bytes, or reports a cycle or a page number out of range, and changes no page.
\<close>

theorem overflow_read_terminates:
  assumes "store_inv s"
  shows "\<exists>r s'. read_overflow_chain load_page first total_len s = Some (r, s') \<and> store_inv s' \<and> view s' = view s
    \<and> (case r of Inr d \<Rightarrow> length d = total_len | Inl e \<Rightarrow> e = OverflowCycleError \<or> e = PageOutOfRangeError)"
  unfolding read_overflow_chain_def by (rule pool_total.read_chain_total [OF assms]) simp_all

theorem overflow_read_terminates_witness:
  "\<exists>r s'. read_overflow_chain load_page 2 10 (mk_pool blank_pager 2 0) = Some (r, s') \<and> store_inv s'"
  using overflow_read_terminates [OF blank_pool(1), of 2 10] by blast

end
