(* ===== verification/Transaction.thy ===== *)
theory Transaction
  imports PoolStore
begin

text \<open>
  Commit and rollback, \<^verbatim>\<open>src/src/quilldb/txn/transaction.py\<close>, over the buffer pool and the journal
  (\<^verbatim>\<open>will_modify\<close> is in \<open>BufferPool\<close>). Locks are taken and released around these operations by the
  lock manager and do not touch this state. The lemmas show that commit makes the file hold every
  page the transaction wrote, and that rollback gives back the file, the header and every page as
  they were before it began.
\<close>

section \<open>Definitions\<close>

text \<open>\<^verbatim>\<open>lock_for_write\<close>'s state change: the first time, snapshot the page count; attach to pager and pool.\<close>

definition begin_write :: "(pool, unit) op" where
  "begin_write s =
     (case bp_txn s of
        Some _ \<Rightarrow> (Inr (), s)
      | None \<Rightarrow> (Inr (), s\<lparr>pg_txn := Some False,
          bp_txn := Some \<lparr>tx_journal = None, tx_journalled = [], tx_page_count_before = page_count (pg_header s)\<rparr>\<rparr>))"

text \<open>\<^verbatim>\<open>page[:FILE_HEADER_SIZE] = self._pager.header_bytes()\<close> on page 1.\<close>

definition stamp_header :: "(pool, unit) op" where
  "stamp_header = bind_op get_st (\<lambda>s0.
     pinned_for_write SCHEMA_ROOT_PAGE (\<lambda>page.
       case header_to_bytes (pg_header s0) of
         Inl e \<Rightarrow> (Inl e, page)
       | Inr hb \<Rightarrow> (Inr (), py_put 0 FILE_HEADER_SIZE hb page)))"

text \<open>The journal object, if the transaction has promoted itself.\<close>

definition txn_journal :: "pool \<Rightarrow> journal option" where
  "txn_journal s = (case bp_txn s of None \<Rightarrow> None | Some t \<Rightarrow> tx_journal t)"

definition barrier :: "(pool, unit) op" where
  "barrier s = (case txn_journal s of None \<Rightarrow> (Inl AssertionError, s) | Some j \<Rightarrow> commit_barrier j s)"

definition txn_commit :: "(pool, unit) op" where
  "txn_commit s =
     (if txn_journal s = None then (Inr (), s)
      else bind_op stamp_header (\<lambda>_.
           bind_op barrier (\<lambda>_.
           bind_op (modify (pg_txn_update (\<lambda>_. Some True))) (\<lambda>_.
           bind_op flush_all (\<lambda>_. journal_delete)))) s)"

definition txn_rollback :: "(pool, unit) op" where
  "txn_rollback s =
     (case bp_txn s of
        None \<Rightarrow> (Inr (), s)
      | Some t \<Rightarrow>
          if tx_journal t = None then (Inr (), s)
          else bind_op journal_replay (\<lambda>_.
               bind_op (pager_truncate (tx_page_count_before t)) (\<lambda>_.
               bind_op journal_delete (\<lambda>_.
               bind_op (pool_clear (Some (tx_journalled t))) (\<lambda>_. reload_header)))) s)"

text \<open>\<^verbatim>\<open>Connection._end_txn\<close>'s unwiring of the two hooks once commit or rollback returned.\<close>

definition detach :: "(pool, unit) op" where
  "detach s = (Inr (), s\<lparr>pg_txn := None, bp_txn := None\<rparr>)"

section \<open>Stamping the header\<close>

lemma pinned_for_write_spec:
  assumes q: "quiet s" and p: "1 \<le> p" "p \<le> page_count (pg_header s)"
    and b: "body (view s p) = (r, d)" "length d = PAGE_SIZE"
  obtains s' where "pinned_for_write p body s = (r, s')" and "quiet s'" and "view s' = (view s)(p := d)"
    and "frame s s'" and "dirty_page s' p"
proof -
  have inv: "pool_inv s" and cap: "1 \<le> bp_capacity s" and z: "pins s = (\<lambda>_. 0)" using q by (auto simp: quiet_def)
  show ?thesis
  proof (rule get_page_for_write_spec [OF inv p disjI1 [OF quiet_room [OF q]]])
    fix s1
    assume w: "get_page_for_write p s = (Inr (view s p), s1)" and s1: "pool_inv s1" "view s1 = view s" "frame s s1"
      and pi: "pins s1 = (pins s)(p := pins s p + 1)" and dp: "dirty_page s1 p"
    from s1(1) dp b(2) show ?thesis
    proof (rule store_page_spec)
      fix s2
      assume st: "store_page p d s1 = (Inr (), s2)" and s2: "pool_inv s2" "view s2 = (view s1)(p := d)" "frame s1 s2"
        and pi2: "pins s2 = pins s1" and d2: "dirty_page s2 = dirty_page s1"
      have "0 < pins s2 p" by (simp add: pi pi2)
      from s2(1) this show ?thesis
      proof (rule unpin_spec)
        fix s3
        assume u: "unpin p False s2 = (Inr (), s3)" and s3: "pool_inv s3" "view s3 = view s2" "frame s2 s3"
          and pi3: "pins s3 = (pins s2)(p := pins s2 p - 1)" and d3: "dirty_page s3 = dirty_page s2"
        have f: "frame s s3" using frame_trans [OF s1(3) frame_trans [OF s2(3) s3(3)]] .
        have "pins s3 = (\<lambda>_. 0)" by (simp add: pi3 pi2 pi z fun_eq_iff)
        then have "quiet s3" using s3(1) f cap by (simp add: quiet_def frame_def)
        moreover have "pinned_for_write p body s = (r, s3)"
          using w st u b(1) by (simp add: pinned_for_write_def bind_op_def finally_op_def lift_res_def)
        ultimately show ?thesis using that f s1(2) s2(2) s3(2) dp d2 d3 by simp
      qed
    qed
  qed
qed

lemma stamp_header_spec:
  assumes q: "quiet s" and h: "header_ok (pg_header s)"
  obtains hb s' where "header_to_bytes (pg_header s) = Inr hb" and "stamp_header s = (Inr (), s')" and "quiet s'"
    and "view s' = (view s)(1 := hb @ drop FILE_HEADER_SIZE (view s 1))" and "frame s s'" and "dirty_page s' 1"
proof -
  obtain hb where hb: "header_to_bytes (pg_header s) = Inr hb" using header_parts [OF h] by metis
  have len: "length hb = FILE_HEADER_SIZE" using header_reread(1) [OF h hb] by (simp add: FILE_HEADER_SIZE_def)
  have n: "1 \<le> page_count (pg_header s)" using h by (simp add: header_ok_def)
  have v: "length (view s 1) = PAGE_SIZE" using q by (intro view_length) (simp_all add: quiet_def)
  have d: "py_put 0 FILE_HEADER_SIZE hb (view s 1) = hb @ drop FILE_HEADER_SIZE (view s 1)" by (simp add: py_put_def)
  let ?body = "\<lambda>page. case header_to_bytes (pg_header s) of Inl e \<Rightarrow> (Inl e, page) | Inr hb \<Rightarrow> (Inr (), py_put 0 FILE_HEADER_SIZE hb page)"
  have b: "?body (view s 1) = (Inr (), hb @ drop FILE_HEADER_SIZE (view s 1))" using d by (simp add: hb)
  have l: "length (hb @ drop FILE_HEADER_SIZE (view s 1)) = PAGE_SIZE" using len v by (simp add: FILE_HEADER_SIZE_def PAGE_SIZE_def)
  show ?thesis
    by (rule pinned_for_write_spec [where body = ?body, OF q order_refl n b l])
      (use that hb in \<open>simp add: stamp_header_def SCHEMA_ROOT_PAGE_def\<close>)
qed

section \<open>Commit\<close>

lemma journal_records_bound:
  assumes "originals f n rs" and "distinct (map fst rs)"
  shows "length rs \<le> n"
proof -
  have "set (map fst rs) \<subseteq> {1..n}" using assms(1) by (fastforce simp: originals_def)
  then have "card (set (map fst rs)) \<le> card {1..n}" by (intro card_mono) simp_all
  then show ?thesis using distinct_card [OF assms(2)] by simp
qed

lemma flush_length: "length (pg_file s) \<le> length (pg_file (snd (for_op flush_page ps s)))"
proof (induction ps arbitrary: s)
  case (Cons p ps)
  have one: "length (pg_file s) \<le> length (pg_file (snd (flush_page p s)))"
    by (auto simp: flush_page_def write_page_def bind_op_def modify_def file_write_def split: option.split)
  obtain r s1 where "flush_page p s = (r, s1)" by (cases "flush_page p s")
  with one Cons [of s1] show ?case by (cases r) (auto simp: bind_op_def)
qed (simp add: skip_def ret_def)

text \<open>The open transaction after the header was stamped: its journal holds page 1.\<close>

lemma stamped_journal:
  assumes inv: "pool_inv s" and t: "bp_txn s = Some t" and one: "dirty_page s 1" and n: "1 \<le> tx_page_count_before t"
  obtains j rs where "tx_journal t = Some j" and "pg_jfile s = Some (journal_bytes unsealed (j_nonce j) (tx_page_count_before t) rs)"
    and "j_nrec j = length rs" and "length rs < 2 ^ 32" and "j_nonce j < 2 ^ 32" and "0 < length rs"
    and "originals (pg_file s) (tx_page_count_before t) rs"
    and "\<And>p. dirty_page s p \<Longrightarrow> p \<in> fst ` set rs \<or> tx_page_count_before t < p"
proof -
  have ti: "journal_inv s t" "tx_page_count_before t \<le> page_count (pg_header s)" "page_count (pg_header s) < 2 ^ 32"
    "\<forall>p. dirty_page s p \<longrightarrow> p \<in> set (tx_journalled t) \<or> tx_page_count_before t < p"
    using inv t by (simp_all add: pool_inv_def txn_inv_def)
  have mem: "1 \<in> set (tx_journalled t)" using ti(4) one n by (metis not_less)
  show ?thesis
  proof (cases "tx_journal t")
    case None
    then show ?thesis using ti(1) mem n by (auto simp: journal_inv_def)
  next
    case (Some j)
    then obtain rs where rs: "pg_jfile s = Some (journal_bytes unsealed (j_nonce j) (tx_page_count_before t) rs)" "j_nrec j = length rs"
      "originals (pg_file s) (tx_page_count_before t) rs" "distinct (map fst rs)" "j_nonce j < 2 ^ 32"
      "fst ` set rs = {p \<in> set (tx_journalled t). p \<le> tx_page_count_before t}"
      using ti(1) by (auto simp: journal_inv_def)
    have "length rs < 2 ^ 32" using journal_records_bound [OF rs(3,4)] ti(2,3) by simp
    moreover have "0 < length rs" using rs(6) mem n by auto
    moreover have "p \<in> fst ` set rs \<or> tx_page_count_before t < p" if "dirty_page s p" for p
      using ti(4) that rs(6) by (auto simp: not_less)
    ultimately show ?thesis using that [OF Some rs(1,2)] rs(3,5) by blast
  qed
qed

text \<open>The state commit starts writing from: the header stamped, the journal sealed, the barrier passed.\<close>

lemma clean_view: "cache_inv s \<Longrightarrow> \<not> dirty_page s q \<Longrightarrow> 1 \<le> q \<Longrightarrow> view s q = file_page (pg_file s) q"
  using cache_invD(4) [of s q] by (cases "map_of (bp_cache s) q") (auto simp: view_def dirty_page_def)

definition seal :: "(pool, unit) op" where
  "seal = bind_op stamp_header (\<lambda>_. bind_op barrier (\<lambda>_. modify (pg_txn_update (\<lambda>_. Some True))))"

lemma seal_spec:
  assumes q: "quiet s" and t: "bp_txn s = Some t" and n: "1 \<le> tx_page_count_before t" and h: "header_ok (pg_header s)"
  obtains s2 nonce rs where "seal s = (Inr (), s2)" and "cache_inv s2" and "pg_txn s2 = Some True" and "pg_file s2 = pg_file s"
    and "pg_path s2 = pg_path s"
    and "pg_jfile s2 = Some (journal_bytes (sealed (length rs)) nonce (tx_page_count_before t) rs)"
    and "length rs < 2 ^ 32" and "nonce < 2 ^ 32" and "0 < length rs" and "originals (pg_file s) (tx_page_count_before t) rs"
    and "\<And>p. dirty_page s2 p \<Longrightarrow> p \<in> fst ` set rs \<or> tx_page_count_before t < p"
proof (rule stamp_header_spec [OF q h])
  fix hb s1
  assume st: "stamp_header s = (Inr (), s1)" and q1: "quiet s1" and f1: "frame s s1" and d1: "dirty_page s1 1"
  have inv1: "pool_inv s1" using q1 by (simp add: quiet_def)
  obtain t1 where t1: "bp_txn s1 = Some t1" "tx_page_count_before t1 = tx_page_count_before t" and pf: "pg_file s1 = pg_file s"
    and pp: "pg_path s1 = pg_path s" using f1 t by (auto simp: frame_def)
  have n1: "1 \<le> tx_page_count_before t1" using n t1(2) by simp
  show ?thesis
  proof (rule stamped_journal [OF inv1 t1(1) d1 n1])
    fix j rs
    assume j: "tx_journal t1 = Some j" "pg_jfile s1 = Some (journal_bytes unsealed (j_nonce j) (tx_page_count_before t1) rs)"
      "j_nrec j = length rs" "length rs < 2 ^ 32" "j_nonce j < 2 ^ 32" "0 < length rs" "originals (pg_file s1) (tx_page_count_before t1) rs"
      and dp: "\<And>p. dirty_page s1 p \<Longrightarrow> p \<in> fst ` set rs \<or> tx_page_count_before t1 < p"
    let ?s2 = "s1\<lparr>pg_txn := Some True, pg_jfile := Some (journal_bytes (sealed (length rs)) (j_nonce j) (tx_page_count_before t) rs)\<rparr>"
    have "seal s = (Inr (), ?s2)"
      using st commit_barrier_seals [OF j(2)] j(3,4) t1
      by (simp add: seal_def barrier_def txn_journal_def j(1) bind_op_def modify_def)
    moreover have "cache_inv ?s2" using inv1 cache_inv_cong [of ?s2 s1] by (simp add: pool_inv_def)
    moreover have "dirty_page ?s2 = dirty_page s1" by (rule dirty_cong) simp
    ultimately show ?thesis using that [of ?s2 rs "j_nonce j"] j(4-7) dp pf pp t1(2) by simp
  qed
qed

lemma header_of_page1:
  assumes "file_page f 1 = hb @ rest" and "length hb = FILE_HEADER_SIZE" and "FILE_HEADER_SIZE \<le> length f"
  shows "take FILE_HEADER_SIZE f = hb"
proof (rule nth_equalityI)
  show "length (take FILE_HEADER_SIZE f) = length hb" using assms(2,3) by simp
  fix i assume i: "i < length (take FILE_HEADER_SIZE f)"
  then have "file_page f 1 ! i = f ! i" using assms(3)
    by (subst file_page_nth) (simp_all add: FILE_HEADER_SIZE_def PAGE_SIZE_def page_offset_def file_byte_def)
  then show "take FILE_HEADER_SIZE f ! i = hb ! i" using assms i by (simp add: nth_append)
qed

lemma commit_spec:
  assumes q: "quiet s" and t: "bp_txn s = Some t" and j: "tx_journal t \<noteq> None" and n: "1 \<le> tx_page_count_before t"
    and h: "header_ok (pg_header s)" and len: "FILE_HEADER_SIZE \<le> length (pg_file s)"
  obtains hb s' where "header_to_bytes (pg_header s) = Inr hb" and "txn_commit s = (Inr (), s')" and "pg_jfile s' = None"
    and "\<forall>q. 1 \<le> q \<longrightarrow> file_page (pg_file s') q = ((view s)(1 := hb @ drop FILE_HEADER_SIZE (view s 1))) q"
    and "view s' = (view s)(1 := hb @ drop FILE_HEADER_SIZE (view s 1))"
    and "header_from_bytes (pg_file s') = Inr (pg_header s)" and "pg_header s' = pg_header s"
    and "\<forall>q. \<not> dirty_page s' q" and "cache_inv s'" and "\<forall>q. pins s' q = 0"
proof (rule stamp_header_spec [OF q h])
  fix hb s1
  assume hb: "header_to_bytes (pg_header s) = Inr hb" and st: "stamp_header s = (Inr (), s1)" and q1: "quiet s1"
    and v1: "view s1 = (view s)(1 := hb @ drop FILE_HEADER_SIZE (view s 1))" and f1: "frame s s1" and d1: "dirty_page s1 1"
  have inv1: "pool_inv s1" and z1: "\<forall>q. pins s1 q = 0" using q1 by (simp_all add: quiet_def)
  obtain t1 where t1: "bp_txn s1 = Some t1" "tx_page_count_before t1 = tx_page_count_before t" and pf: "pg_file s1 = pg_file s"
    using f1 t by (auto simp: frame_def)
  have n1: "1 \<le> tx_page_count_before t1" using n t1(2) by simp
  from inv1 t1(1) d1 n1 obtain j1 rs where j1: "tx_journal t1 = Some j1"
    "pg_jfile s1 = Some (journal_bytes unsealed (j_nonce j1) (tx_page_count_before t1) rs)"
    "j_nrec j1 = length rs" "length rs < 2 ^ 32"
    by (rule stamped_journal)
  define jf where "jf = Some (journal_bytes (sealed (j_nrec j1)) (j_nonce j1) (tx_page_count_before t1) rs)"
  have bar: "barrier s1 = (Inr (), s1\<lparr>pg_jfile := jf\<rparr>)"
    using commit_barrier_seals [OF j1(2)] j1(3,4) by (simp add: barrier_def txn_journal_def t1(1) j1(1) jf_def)
  define s3 where "s3 = s1\<lparr>pg_txn := Some True, pg_jfile := jf\<rparr>"
  have c3: "cache_inv s3" using inv1 cache_inv_cong [of s3 s1] by (simp add: s3_def pool_inv_def)
  have b3: "pg_txn s3 \<noteq> Some False" by (simp add: s3_def)
  have v3: "view s3 = view s1" "pins s3 = pins s1"
    by (rule view_cong; simp add: s3_def) (simp add: s3_def pins_def fun_eq_iff)
  show ?thesis
  proof (rule flush_all_spec [OF c3 b3])
    fix f c
    define s4 where "s4 = s3\<lparr>pg_file := f, bp_cache := c\<rparr>"
    assume fl: "flush_all s3 = (Inr (), s3\<lparr>pg_file := f, bp_cache := c\<rparr>)"
      and ci: "cache_inv (s3\<lparr>pg_file := f, bp_cache := c\<rparr>)" and vw: "view (s3\<lparr>pg_file := f, bp_cache := c\<rparr>) = view s3"
      and nd: "\<And>q. \<not> dirty_page (s3\<lparr>pg_file := f, bp_cache := c\<rparr>) q" and fp: "\<And>q. 1 \<le> q \<Longrightarrow> file_page f q = view s3 q"
      and pn: "pins (s3\<lparr>pg_file := f, bp_cache := c\<rparr>) = pins s3"
    define s' where "s' = s4\<lparr>pg_jfile := None\<rparr>"
    have md: "modify (pg_txn_update (\<lambda>_. Some True)) (s1\<lparr>pg_jfile := jf\<rparr>) = (Inr (), s3)" by (simp add: modify_def s3_def)
    have jd: "journal_delete s4 = (Inr (), s')" by (simp add: journal_delete_def s'_def s4_def s3_def jf_def)
    have fl4: "flush_all s3 = (Inr (), s4)" using fl by (simp only: s4_def)
    have "txn_journal s \<noteq> None" using t j by (simp add: txn_journal_def)
    then have run: "txn_commit s = (Inr (), s')"
      using st bar md fl4 jd by (auto simp: txn_commit_def bind_op_def simp del: bind_op_simps)
    have cong: "view s' = view s4" "dirty_page s' = dirty_page s4" "cache_inv s' = cache_inv s4" "pins s' = pins s4"
      by (rule view_cong dirty_cong cache_inv_cong; simp add: s'_def)+ (simp add: s'_def pins_def fun_eq_iff)
    have len': "FILE_HEADER_SIZE \<le> length f"
      using flush_length [of s3 "map fst (bp_cache s3)"] fl len pf by (simp add: flush_all_def s3_def)
    have lhb: "length hb = FILE_HEADER_SIZE" using header_reread(1) [OF h hb] by (simp add: FILE_HEADER_SIZE_def)
    have "file_page f 1 = hb @ drop FILE_HEADER_SIZE (view s 1)" using fp [of 1] v3 v1 by simp
    then have "take FILE_HEADER_SIZE f = hb" using header_of_page1 lhb len' by blast
    then have "header_from_bytes f = Inr (pg_header s)"
      using header_reread(2) [OF h hb, of "[]"] header_from_bytes_take [of f] by simp
    moreover have "pg_header s' = pg_header s" using f1 by (simp add: s'_def s4_def s3_def frame_def)
    moreover have "view s' = view s1" using cong(1) vw v3 by (simp add: s4_def)
    moreover have "\<forall>q. 1 \<le> q \<longrightarrow> file_page (pg_file s') q = view s1 q" using fp v3 by (simp add: s'_def s4_def)
    moreover have "\<forall>q. \<not> dirty_page s' q" "cache_inv s'" "\<forall>q. pins s' q = 0"
      using cong nd ci pn v3(2) z1 by (simp_all add: s4_def)
    ultimately show ?thesis using that [OF hb run] v1 by (simp add: s'_def s4_def)
  qed
qed

section \<open>Rollback\<close>

lemma discard_all:
  assumes "\<forall>p. pins s p = 0" and "distinct (map fst (bp_cache s))"
  shows "for_op discard ps s = (Inr (), s\<lparr>bp_cache := filter (\<lambda>(p, e). p \<notin> set ps) (bp_cache s)\<rparr>)"
  using assms
proof (induction ps arbitrary: s)
  case (Cons p ps)
  let ?s1 = "s\<lparr>bp_cache := od_delete p (bp_cache s)\<rparr>"
  have d: "discard p s = (Inr (), ?s1)"
  proof (cases "map_of (bp_cache s) p")
    case None
    then have "od_delete p (bp_cache s) = bp_cache s"
      unfolding od_delete_def by (intro filter_True) (auto simp: map_of_eq_None_iff image_iff)
    with None show ?thesis by (simp add: discard_def)
  next
    case (Some e)
    then show ?thesis using Cons.prems(1) [rule_format, of p] by (simp add: discard_def pins_def)
  qed
  have "\<forall>q. pins ?s1 q = 0" using Cons.prems(1) by (simp add: pins_def map_of_od_delete)
  moreover have "distinct (map fst (bp_cache ?s1))" using Cons.prems(2) by (simp add: distinct_od_delete)
  ultimately have "for_op discard ps ?s1 = (Inr (), ?s1\<lparr>bp_cache := filter (\<lambda>(p, e). p \<notin> set ps) (bp_cache ?s1)\<rparr>)"
    by (rule Cons.IH)
  moreover have "filter (\<lambda>(p, e). p \<notin> set ps) (od_delete p c) = filter (\<lambda>(q, e). q \<notin> set (p # ps)) c" for c
    by (auto simp: od_delete_def intro!: filter_cong)
  ultimately show ?case using d by (simp add: bind_op_def)
qed (simp add: skip_def ret_def)

lemma rollback_spec:
  assumes q: "quiet s" and t: "bp_txn s = Some t" and j: "tx_journal t \<noteq> None"
    and n: "1 \<le> tx_page_count_before t" "length (pg_file s) = tx_page_count_before t * PAGE_SIZE"
    and h: "header_from_bytes (pg_file s) = Inr h0"
  shows "txn_rollback s = (Inr (), s\<lparr>pg_header := h0, pg_jfile := None,
      bp_cache := filter (\<lambda>(p, e). p \<notin> set (tx_journalled t)) (bp_cache s)\<rparr>)"
proof -
  have inv: "pool_inv s" and z: "\<forall>p. pins s p = 0" using q by (simp_all add: quiet_def)
  have ji: "journal_inv s t" using inv t by (simp add: pool_inv_def txn_inv_def)
  obtain jn rs where jf: "pg_jfile s = Some (journal_bytes unsealed jn (tx_page_count_before t) rs)"
    using ji j by (auto simp: journal_inv_def split: option.splits)
  have rp: "journal_replay s = (Inr 0, s)" using journal_replay_unsealed(1) [OF jf] .
  have tr: "file_truncate (tx_page_count_before t * PAGE_SIZE) (pg_file s) = pg_file s" using n(2) by (simp add: file_truncate_def)
  have dist: "distinct (map fst (bp_cache s))" using inv by (simp add: pool_inv_def cache_inv_def)
  define s2 where "s2 = s\<lparr>pg_header := (pg_header s)\<lparr>page_count := tx_page_count_before t, freelist_count := 0, freelist_trunk := 0\<rparr>, pg_jfile := None\<rparr>"
  have "for_op discard (tx_journalled t) s2 = (Inr (), s2\<lparr>bp_cache := filter (\<lambda>(p, e). p \<notin> set (tx_journalled t)) (bp_cache s2)\<rparr>)"
    using z dist by (intro discard_all) (simp_all add: s2_def pins_def)
  then show ?thesis
    using j n(1) rp tr jf h
    by (auto simp: txn_rollback_def t bind_op_def pager_truncate_def journal_delete_def pool_clear_def reload_header_def
        header_from_bytes_take s2_def)
qed

text \<open>What is left in the cache for the pages that existed before is a copy of the file.\<close>

lemma map_of_filter_keys: "map_of (filter (\<lambda>(p, e). P p) c) q = (if P q then map_of c q else None)"
  by (induction c) auto

lemma rollback_view:
  assumes inv: "pool_inv s" and t: "bp_txn s = Some t" and p: "1 \<le> p" "p \<le> tx_page_count_before t"
  shows "view (s\<lparr>pg_header := h0, pg_jfile := None, bp_cache := filter (\<lambda>(p, e). p \<notin> set (tx_journalled t)) (bp_cache s)\<rparr>) p
    = file_page (pg_file s) p"
proof (cases "p \<in> set (tx_journalled t)")
  case False
  then have clean: "\<not> dirty_page s p" using inv t p by (auto simp: pool_inv_def txn_inv_def)
  have ci: "cache_inv s" using inv by (simp add: pool_inv_def)
  show ?thesis
  proof (cases "map_of (bp_cache s) p")
    case (Some e)
    then have "\<not> e_dirty e" using clean by (auto simp: dirty_page_def)
    then show ?thesis using cache_invD(4) [OF ci Some] Some False by (simp add: view_def map_of_filter_keys)
  qed (use False p in \<open>simp add: view_def map_of_filter_keys\<close>)
qed (use p in \<open>simp add: view_def map_of_filter_keys\<close>)

section \<open>Runs of a transaction\<close>

text \<open>
  Everything the layers above do to pages between the start and the end of a transaction, as a
  sequence of steps from the state \<^const>\<open>begin_write\<close> leaves.
\<close>

inductive txn_run :: "pool \<Rightarrow> pool \<Rightarrow> bool" for s0 where
  txn_start: "txn_run s0 s0"
| txn_load: "txn_run s0 s \<Longrightarrow> p \<in> live_pages s \<Longrightarrow> load_page p s = (r, s') \<Longrightarrow> txn_run s0 s'"
| txn_update: "txn_run s0 s \<Longrightarrow> p \<in> live_pages s \<Longrightarrow> g (view s p) = Inr d \<Longrightarrow> length d = PAGE_SIZE \<Longrightarrow>
    update_page p g s = (r, s') \<Longrightarrow> txn_run s0 s'"
| txn_allocate: "txn_run s0 s \<Longrightarrow> 0 < spare_pages s \<Longrightarrow> allocate_page s = (Inr p, s') \<Longrightarrow> txn_run s0 s'"
| txn_free: "txn_run s0 s \<Longrightarrow> p \<in> live_pages s \<Longrightarrow> p \<noteq> 1 \<Longrightarrow> free_page p s = (r, s') \<Longrightarrow> txn_run s0 s'"

inductive_cases txn_runE: "txn_run s0 s"

lemma load_txn_frame: "store_inv s \<Longrightarrow> p \<in> live_pages s \<Longrightarrow> load_page p s = (r, s') \<Longrightarrow> txn_frame s s'"
  by (rule load_page_spec [OF live_quiet(4,1,2)]) (auto intro: frame_txn_frame)

lemma update_txn_frame:
  "store_inv s \<Longrightarrow> p \<in> live_pages s \<Longrightarrow> g (view s p) = Inr d \<Longrightarrow> length d = PAGE_SIZE \<Longrightarrow>
   update_page p g s = (r, s') \<Longrightarrow> txn_frame s s'"
  by (rule update_page_spec [where g = g and d = d, OF live_quiet(4,1,2)]) (auto intro: frame_txn_frame)

lemma allocate_txn_frame: "store_inv s \<Longrightarrow> 0 < spare_pages s \<Longrightarrow> allocate_page s = (Inr p, s') \<Longrightarrow> txn_frame s s'"
  unfolding store_inv_held using allocate_page_held [of "{#}" "{}" s] by auto

lemma free_txn_frame: "store_inv s \<Longrightarrow> p \<in> live_pages s \<Longrightarrow> p \<noteq> 1 \<Longrightarrow> free_page p s = (r, s') \<Longrightarrow> txn_frame s s'"
  unfolding store_inv_held using free_page_held [of "{#}" "{}" s p] by auto

text \<open>Through any run the store's invariant holds, and rollback point and file stay put.\<close>

lemma txn_run_invariant:
  assumes "txn_run s0 s" and "store_inv s0"
  shows "store_inv s \<and> txn_frame s0 s"
  using assms
proof (induction rule: txn_run.induct)
  case txn_start
  then show ?case by (simp add: txn_frame_def)
next
  case (txn_load s p r s')
  then show ?case using pool_store.load_spec [of s p] load_txn_frame [of s p r s'] by (auto intro: txn_frame_trans)
next
  case (txn_update s p g d r s')
  then show ?case using pool_store.update_spec [of s p g d] update_txn_frame [of s p g d r s'] by (auto intro: txn_frame_trans)
next
  case (txn_allocate s p s')
  then show ?case using pool_store.alloc_spec [of s] allocate_txn_frame [of s p s'] by (auto intro: txn_frame_trans)
next
  case (txn_free s p r s')
  then show ?case using pool_store.release_spec [of s p] free_txn_frame [of s p r s'] by (auto intro: txn_frame_trans)
qed

section \<open>Between transactions\<close>

text \<open>
  The state a transaction starts from: no transaction and no journal, nothing dirty, the file exactly
  as long as the header says and its first bytes that header.
\<close>

definition settled :: "pool \<Rightarrow> bool" where
  "settled s \<longleftrightarrow> store_inv s \<and> bp_txn s = None \<and> pg_jfile s = None \<and> (\<forall>p. \<not> dirty_page s p)
     \<and> length (pg_file s) = page_count (pg_header s) * PAGE_SIZE \<and> header_from_bytes (pg_file s) = Inr (pg_header s)"

lemma begin_settled:
  assumes "settled s0" and "begin_write s0 = (Inr (), s1)"
  shows "store_inv s1" and "pg_file s1 = pg_file s0" and "pg_path s1 = pg_path s0"
    and "\<exists>t. bp_txn s1 = Some t \<and> tx_page_count_before t = page_count (pg_header s0)"
proof -
  let ?t = "\<lparr>tx_journal = None, tx_journalled = [], tx_page_count_before = page_count (pg_header s0)\<rparr>"
  have s1: "s1 = s0\<lparr>pg_txn := Some False, bp_txn := Some ?t\<rparr>"
    using assms by (simp add: settled_def begin_write_def)
  have c: "cache_inv s1 = cache_inv s0" by (rule cache_inv_cong; simp add: s1)
  have d: "dirty_page s1 = dirty_page s0" by (rule dirty_cong; simp add: s1)
  have v: "view s1 = view s0" by (rule view_cong; simp add: s1)
  have "freelist s1 = freelist s0" using v by (simp add: freelist_def s1)
  then show "store_inv s1" using assms(1) c d
    by (simp add: settled_def store_inv_def quiet_def pool_inv_def txn_inv_def freelist_inv_def journal_inv_def s1 pins_def)
qed (use assms in \<open>auto simp: settled_def begin_write_def\<close>)

text \<open>What holds at any point of a transaction that began in a settled state.\<close>

lemma txn_run_settled:
  assumes s0: "settled s0" and b: "begin_write s0 = (Inr (), s1)" and r: "txn_run s1 s"
  obtains t where "store_inv s" and "bp_txn s = Some t" and "tx_page_count_before t = page_count (pg_header s0)"
    and "pg_file s = pg_file s0" and "pg_path s = pg_path s0" and "1 \<le> page_count (pg_header s0)" and "page_count (pg_header s0) < 2 ^ 32"
proof -
  note B = begin_settled [OF s0 b]
  from txn_run_invariant [OF r B(1)] have i: "store_inv s" and f: "txn_frame s1 s" by auto
  obtain t1 where t1: "bp_txn s1 = Some t1" "tx_page_count_before t1 = page_count (pg_header s0)" using B(4) by auto
  obtain t where "bp_txn s = Some t" "tx_page_count_before t = page_count (pg_header s0)"
    using f t1 by (auto simp: txn_frame_def)
  moreover have "pg_file s = pg_file s0" "pg_path s = pg_path s0" using f t1 B(2,3) by (simp_all add: txn_frame_def)
  moreover have "1 \<le> page_count (pg_header s0)" "page_count (pg_header s0) < 2 ^ 32"
    using s0 by (simp_all add: settled_def store_inv_def freelist_inv_def quiet_def pool_inv_def txn_inv_def)
  ultimately show ?thesis using that i by blast
qed

lemma settled_view:
  assumes "settled s0" and "1 \<le> p"
  shows "view s0 p = file_page (pg_file s0) p"
  using assms by (intro clean_view) (auto simp: settled_def store_inv_def quiet_def pool_inv_def)

lemma commit_seal: "txn_journal s \<noteq> None \<Longrightarrow> txn_commit s = bind_op seal (\<lambda>_. bind_op flush_all (\<lambda>_. journal_delete)) s"
  by (auto simp: txn_commit_def seal_def bind_op_def split: prod.split sum.split)

text \<open>Flushing any of the dirty pages after the barrier damages only pages the journal restores.\<close>

lemma flush_damage:
  assumes s2: "cache_inv s2" "pg_txn s2 \<noteq> Some False" and f: "for_op flush_page ps s2 = (r, s3)"
    and d: "\<And>p. dirty_page s2 p \<Longrightarrow> p \<in> fst ` set rs \<or> n < p"
  shows "damaged_only (pg_file s2) n rs (pg_file s3)" and "pg_jfile s3 = pg_jfile s2" and "pg_path s3 = pg_path s2"
proof -
  obtain f' c where a: "s3 = s2\<lparr>pg_file := f', bp_cache := c\<rparr>" "cache_inv s3" "view s3 = view s2"
    "\<forall>q. dirty_page s3 q \<longleftrightarrow> dirty_page s2 q \<and> q \<notin> set ps"
    using flush_pages_spec [OF s2, of ps] f by auto
  have "file_page (pg_file s3) p = file_page (pg_file s2) p" if "1 \<le> p" "p \<le> n" "p \<notin> fst ` set rs" for p
  proof -
    have "\<not> dirty_page s2 p" "\<not> dirty_page s3 p" using d [of p] that a(4) by auto
    from clean_view [OF a(2) this(2) that(1)] clean_view [OF s2(1) this(1) that(1)] show ?thesis by (simp only: a(3))
  qed
  then show "damaged_only (pg_file s2) n rs (pg_file s3)" by (simp add: damaged_only_def)
qed (use flush_pages_spec [OF s2, of ps] f in auto)

text \<open>A transaction on a new database that overwrites page 1.\<close>

lemma fresh_transaction:
  obtains pgr s1 s where "pager_create Map.empty ''db'' = Inr pgr" and "settled (mk_pool pgr 4 7)"
    and "begin_write (mk_pool pgr 4 7) = (Inr (), s1)" and "update_page 1 (\<lambda>_. Inr (replicate PAGE_SIZE 9)) s1 = (Inr (), s)"
    and "txn_run s1 s" and "txn_journal s \<noteq> None" and "header_ok (pg_header s)" and "pg_path (mk_pool pgr 4 7) \<noteq> None"
    and "view s 1 = replicate PAGE_SIZE 9"
proof -
  obtain hb where hb: "header_to_bytes default_header = Inr hb" "length hb = 100"
    "bootstrap_page1 = Inr (hb @ [13, 0, 0, 0, 0, 16, 0, 0] @ replicate 3988 0, default_header)"
    using bootstrap_page1_shape by metis
  have ok: "header_ok default_header" by (simp add: header_eval)
  let ?f = "hb @ [13, 0, 0, 0, 0, 16, 0, 0] @ replicate 3988 0"
  note h = header_reread(2) [OF ok hb(1), of "[13, 0, 0, 0, 0, 16, 0, 0] @ replicate 3988 0"]
  define pgr where "pgr = \<lparr>pg_path = Some ''db'', pg_file = ?f, pg_header = default_header, pg_txn = None, pg_jfile = None\<rparr>"
  have c: "pager_create Map.empty ''db'' = Inr pgr" by (simp add: pager_create_def hb(3) pgr_def)
  let ?s0 = "mk_pool pgr 4 7"
  have st: "store_inv ?s0" by (rule store_inv_fresh) (simp_all add: pgr_def default_header_def)
  then have s0: "settled ?s0" using h hb(2)
    by (simp add: settled_def dirty_page_def mk_pool_def pager.defs pgr_def default_header_def PAGE_SIZE_def)
  define s1 where "s1 = snd (begin_write ?s0)"
  have b: "begin_write ?s0 = (Inr (), s1)" by (simp add: s1_def begin_write_def mk_pool_def pager.defs)
  note B = begin_settled [OF s0 b]
  have hd1: "pg_header s1 = default_header" and pf: "pg_file s1 = ?f" by (simp_all add: s1_def begin_write_def mk_pool_def pager.defs pgr_def)
  have live: "1 \<in> live_pages s1" using hd1 by (simp add: live_pages_def freelist_def default_header_def)
  note D = live_quiet [OF B(1) live]
  show ?thesis
  proof (rule update_page_spec [where g = "\<lambda>_. Inr (replicate PAGE_SIZE 9)" and d = "replicate PAGE_SIZE 9", OF D(4,1,2)])
    fix s
    assume u: "update_page 1 (\<lambda>_. Inr (replicate PAGE_SIZE 9)) s1 = (Inr (), s)" and q: "quiet s"
      and v: "view s = (view s1)(1 := replicate PAGE_SIZE 9)" and fr: "frame s1 s"
    have r: "txn_run s1 s" by (rule txn_update [OF txn_start live _ _ u, of "replicate PAGE_SIZE 9"]) simp_all
    obtain t where t: "bp_txn s = Some t" "tx_page_count_before t = page_count (pg_header ?s0)" "pg_file s = pg_file s1"
      using fr B(4) by (auto simp: frame_def)
    have pc: "page_count (pg_header ?s0) = 1" by (simp add: mk_pool_def pager.defs pgr_def default_header_def)
    have "file_page (pg_file s) 1 ! 100 = 13" using t(3) pf hb(2)
      by (simp add: file_page_nth PAGE_SIZE_def page_offset_def file_byte_def nth_append)
    moreover have "view s 1 ! 100 = 9" by (simp add: v PAGE_SIZE_def)
    moreover have "cache_inv s" using q by (simp add: quiet_def pool_inv_def)
    ultimately have "dirty_page s 1" using clean_view [of s 1] by (cases "dirty_page s 1") simp_all
    then have "tx_journal t \<noteq> None"
      using stamped_journal [of s t] q t pc by (metis le_refl option.distinct(1) quiet_def)
    then have "txn_journal s \<noteq> None" using t by (simp add: txn_journal_def)
    moreover have "header_ok (pg_header s)" using fr hd1 ok by (simp add: frame_def)
    moreover have "pg_path ?s0 \<noteq> None" by (simp add: mk_pool_def pager.defs pgr_def)
    ultimately show ?thesis using that [OF c s0 b u r] v by simp
  qed (simp_all add: PAGE_SIZE_def)
qed

section \<open>Properties\<close>



text \<open>
  C8. Commit is durable: a transaction that wrote to an existing page commits; afterwards the file
  itself holds every page as the transaction left it, its first bytes decode to the transaction's
  header, nothing is dirty or pinned and the journal is gone.
\<close>

theorem commit_durable:
  assumes "settled s0" and "begin_write s0 = (Inr (), s1)" and "txn_run s1 s" and "txn_journal s \<noteq> None"
    and "header_ok (pg_header s)"
  shows "\<exists>s'. txn_commit s = (Inr (), s') \<and> pg_jfile s' = None \<and> header_from_bytes (pg_file s') = Inr (pg_header s)
    \<and> (\<forall>p. 2 \<le> p \<longrightarrow> file_page (pg_file s') p = view s p)
    \<and> drop FILE_HEADER_SIZE (file_page (pg_file s') 1) = drop FILE_HEADER_SIZE (view s 1)
    \<and> (\<forall>p. 1 \<le> p \<longrightarrow> view s' p = file_page (pg_file s') p) \<and> (\<forall>p. \<not> dirty_page s' p \<and> pins s' p = 0)"
proof (rule txn_run_settled [OF assms(1-3)])
  fix t
  assume t: "store_inv s" "bp_txn s = Some t" "tx_page_count_before t = page_count (pg_header s0)" "pg_file s = pg_file s0"
    and n: "1 \<le> page_count (pg_header s0)"
  have q: "quiet s" using t(1) by (simp add: store_inv_def)
  have j: "tx_journal t \<noteq> None" and one: "1 \<le> tx_page_count_before t" using assms(4) t n by (simp_all add: txn_journal_def)
  have len: "FILE_HEADER_SIZE \<le> length (pg_file s)"
    using assms(1) t(4) n by (cases "page_count (pg_header s0)") (auto simp: settled_def FILE_HEADER_SIZE_def PAGE_SIZE_def)
  show ?thesis
  proof (rule commit_spec [OF q t(2) j one assms(5) len])
    fix hb s'
    assume hb: "header_to_bytes (pg_header s) = Inr hb" and c: "txn_commit s = (Inr (), s')" "pg_jfile s' = None"
      and fp: "\<forall>q. 1 \<le> q \<longrightarrow> file_page (pg_file s') q = ((view s)(1 := hb @ drop FILE_HEADER_SIZE (view s 1))) q"
      and v: "view s' = (view s)(1 := hb @ drop FILE_HEADER_SIZE (view s 1))"
      and h: "header_from_bytes (pg_file s') = Inr (pg_header s)" and d: "\<forall>q. \<not> dirty_page s' q" and z: "\<forall>q. pins s' q = 0"
    have "length hb = FILE_HEADER_SIZE" using header_reread(1) [OF assms(5) hb] by (simp add: FILE_HEADER_SIZE_def)
    then have "drop FILE_HEADER_SIZE (file_page (pg_file s') 1) = drop FILE_HEADER_SIZE (view s 1)" using fp by simp
    moreover have "\<forall>p. 2 \<le> p \<longrightarrow> file_page (pg_file s') p = view s p" using fp by auto
    ultimately show ?thesis using c fp v h d z by auto
  qed
qed

theorem commit_durable_witness:
  "\<exists>pgr s1 s s'. pager_create Map.empty ''db'' = Inr pgr \<and> begin_write (mk_pool pgr 4 7) = (Inr (), s1)
     \<and> update_page 1 (\<lambda>_. Inr (replicate PAGE_SIZE 9)) s1 = (Inr (), s)
     \<and> txn_commit s = (Inr (), s') \<and> drop FILE_HEADER_SIZE (file_page (pg_file s') 1) = replicate 3996 9"
proof (rule fresh_transaction)
  fix pgr s1 s
  assume a: "pager_create Map.empty ''db'' = Inr pgr" "settled (mk_pool pgr 4 7)" "begin_write (mk_pool pgr 4 7) = (Inr (), s1)"
    "update_page 1 (\<lambda>_. Inr (replicate PAGE_SIZE 9)) s1 = (Inr (), s)" "txn_run s1 s" "txn_journal s \<noteq> None"
    "header_ok (pg_header s)" "view s 1 = replicate PAGE_SIZE 9"
  from commit_durable [OF a(2,3,5,6,7)] obtain s' where "txn_commit s = (Inr (), s')"
    "drop FILE_HEADER_SIZE (file_page (pg_file s') 1) = drop FILE_HEADER_SIZE (view s 1)" by blast
  moreover have "drop FILE_HEADER_SIZE (view s 1) = replicate 3996 9" 
    by (simp add: a(8) [simplified] FILE_HEADER_SIZE_def PAGE_SIZE_def)
  ultimately show ?thesis using a by metis
qed

text \<open>
  C6. A crash at any point of commit recovers the old database: before the barrier the journal
  is discarded and the file was never written; after it, whatever part of the dirty pages was written
  before the crash, recovery restores the original file and header. Only the journal's deletion, the
  last step, makes the new state the one a restart sees.
\<close>

theorem commit_crash_points:
  assumes "settled s0" and "begin_write s0 = (Inr (), s1)" and "txn_run s1 s" and "txn_journal s \<noteq> None"
    and "header_ok (pg_header s)" and "pg_path s0 \<noteq> None"
  shows "recover_if_needed s = (Inr True, s\<lparr>pg_jfile := None\<rparr>) \<and> pg_file s = pg_file s0
    \<and> txn_commit s = bind_op seal (\<lambda>_. bind_op flush_all (\<lambda>_. journal_delete)) s
    \<and> (\<exists>s2. seal s = (Inr (), s2) \<and> pg_file s2 = pg_file s0
         \<and> (\<forall>ps s3. for_op flush_page ps s2 = (Inr (), s3) \<longrightarrow>
               recover_if_needed s3 = (Inr True, s3\<lparr>pg_file := pg_file s0, pg_header := pg_header s0, pg_jfile := None\<rparr>)))"
proof (rule txn_run_settled [OF assms(1-3)])
  fix t
  assume t: "store_inv s" "bp_txn s = Some t" "tx_page_count_before t = page_count (pg_header s0)" "pg_file s = pg_file s0"
    "pg_path s = pg_path s0" and n: "1 \<le> page_count (pg_header s0)" "page_count (pg_header s0) < 2 ^ 32"
  have q: "quiet s" using t(1) by (simp add: store_inv_def)
  obtain j where j: "tx_journal t = Some j" using assms(4) t(2) by (auto simp: txn_journal_def)
  have "journal_inv s t" using q t(2) by (simp add: quiet_def pool_inv_def txn_inv_def)
  then obtain jn rs0 where jf: "pg_jfile s = Some (journal_bytes unsealed jn (tx_page_count_before t) rs0)"
    using j by (auto simp: journal_inv_def)
  have before: "recover_if_needed s = (Inr True, s\<lparr>pg_jfile := None\<rparr>)"
    using journal_replay_unsealed(2) [OF jf] jf assms(6) t(5) by (auto simp: recover_if_needed_def bind_op_def journal_delete_def ret_def)
  have one: "1 \<le> tx_page_count_before t" using n t(3) by simp
  have s0: "length (pg_file s0) = page_count (pg_header s0) * PAGE_SIZE" "header_from_bytes (pg_file s0) = Inr (pg_header s0)"
    using assms(1) by (simp_all add: settled_def)
  show ?thesis
  proof (rule seal_spec [OF q t(2) one assms(5)])
    fix s2 nonce rs
    assume s2: "seal s = (Inr (), s2)" "cache_inv s2" "pg_txn s2 = Some True" "pg_file s2 = pg_file s" "pg_path s2 = pg_path s"
      and jf2: "pg_jfile s2 = Some (journal_bytes (sealed (length rs)) nonce (tx_page_count_before t) rs)"
      and rs: "length rs < 2 ^ 32" "nonce < 2 ^ 32" "0 < length rs" "originals (pg_file s) (tx_page_count_before t) rs"
      and d: "\<And>p. dirty_page s2 p \<Longrightarrow> p \<in> fst ` set rs \<or> tx_page_count_before t < p"
    have b: "pg_txn s2 \<noteq> Some False" using s2(3) by simp
    have "recover_if_needed s3 = (Inr True, s3\<lparr>pg_file := pg_file s0, pg_header := pg_header s0, pg_jfile := None\<rparr>)"
      if f: "for_op flush_page ps s2 = (Inr (), s3)" for ps s3
      by (rule recover_hot [where rs = rs and nonce = nonce and n = "page_count (pg_header s0)"])
        (use flush_damage [OF s2(2) b f d] jf2 rs s0 n t(3-5) s2(4,5) assms(6) in simp_all)
    with before commit_seal [OF assms(4)] s2(1,4) t(4) show ?thesis by auto
  qed
qed

theorem commit_crash_points_witness:
  "\<exists>pgr s1 s s2. pager_create Map.empty ''db'' = Inr pgr \<and> begin_write (mk_pool pgr 4 7) = (Inr (), s1)
     \<and> update_page 1 (\<lambda>_. Inr (replicate PAGE_SIZE 9)) s1 = (Inr (), s) \<and> seal s = (Inr (), s2)
     \<and> recover_if_needed s2 = (Inr True, s2\<lparr>pg_file := pg_file (mk_pool pgr 4 7), pg_header := pg_header (mk_pool pgr 4 7), pg_jfile := None\<rparr>)"
proof (rule fresh_transaction)
  fix pgr s1 s
  assume a: "pager_create Map.empty ''db'' = Inr pgr" "settled (mk_pool pgr 4 7)" "begin_write (mk_pool pgr 4 7) = (Inr (), s1)"
    "update_page 1 (\<lambda>_. Inr (replicate PAGE_SIZE 9)) s1 = (Inr (), s)" "txn_run s1 s" "txn_journal s \<noteq> None"
    "header_ok (pg_header s)" "pg_path (mk_pool pgr 4 7) \<noteq> None"
  have nil: "for_op flush_page [] s2 = (Inr (), s2)" for s2 by (simp add: skip_def ret_def)
  from commit_crash_points [OF a(2,3,5,6,7,8)] nil a show ?thesis by blast
qed

end
