(* ===== verification/BTree.thy ===== *)
theory BTree
  imports Overflow Search Split
begin

text \<open>
  Table b-trees, \<^verbatim>\<open>src/src/quilldb/btree/btree.py\<close>: descent from the root, insertion with leaf and
  interior splits up to a new root, deletion with the removal of emptied pages. A \<^verbatim>\<open>BTree\<close> object is
  its root page number here, and the pool it works on is the state. The definitions follow the source
  call by call, pins included; the descents follow page numbers read from disk and are loops that
  may not end on a damaged file.
\<close>

section \<open>Definitions\<close>

type_synonym tree_path = "(nat \<times> nat) list"

definition fits_one_leaf_page :: "bytes list \<Rightarrow> bool" where
  "fits_one_leaf_page cells \<longleftrightarrow> 0 \<le> free_bytes (mk_page LEAF_TABLE cells 0)"

subsection \<open>Descent\<close>

definition search_step :: "int \<Rightarrow> nat \<Rightarrow> (pool, ((nat \<times> nat) option, nat) ctrl) op" where
  "search_step key page_id =
     bind_op (get_page page_id) (\<lambda>raw.
     bind_op (lift_res (parse_page raw 0)) (\<lambda>body.
     bind_op (unpin page_id False) (\<lambda>_.
       if pb_type body = LEAF_TABLE
       then bind_op (lift_res (binary_search_leaf body key)) (\<lambda>slot.
              ret (Return (map_option (\<lambda>i. (page_id, i)) slot)))
       else bind_op (lift_res (child_for_key body key)) (\<lambda>child. ret (Continue child)))))"

definition btree_search :: "nat \<Rightarrow> int \<Rightarrow> (pool, (nat \<times> nat) option) pop" where
  "btree_search root key = loop_op (search_step key) root"

definition find_leaf_step :: "int \<Rightarrow> nat \<times> tree_path \<Rightarrow> (pool, (tree_path, nat \<times> tree_path) ctrl) op" where
  "find_leaf_step rowid = (\<lambda>(page_id, path).
     bind_op (get_page page_id) (\<lambda>raw.
       finally_op
         (bind_op (lift_res (parse_page raw 0)) (\<lambda>body.
            if pb_type body = LEAF_TABLE
            then bind_op (lift_res (leaf_slot_lower_bound body rowid)) (\<lambda>slot.
                   ret (Return (path @ [(page_id, slot)])))
            else bind_op (lift_res (interior_slot_for_key body rowid)) (\<lambda>child_slot.
                 bind_op (lift_res (child_for_key body rowid)) (\<lambda>child.
                   ret (Continue (child, path @ [(page_id, child_slot)]))))))
         (unpin page_id False)))"

definition find_leaf :: "nat \<Rightarrow> int \<Rightarrow> (pool, tree_path) pop" where
  "find_leaf root rowid = loop_op (find_leaf_step rowid) (root, [])"

subsection \<open>Rewriting pages\<close>

text \<open>\<^verbatim>\<open>raw[:] = serialize_page(body)\<close> as the block of \<^verbatim>\<open>pinned_for_write\<close>, and on a page held already.\<close>

definition overwrite :: "page_body \<Rightarrow> bytes \<Rightarrow> unit res \<times> bytes" where
  "overwrite body page = (case serialize_page body of Inl e \<Rightarrow> (Inl e, page) | Inr d \<Rightarrow> (Inr (), d))"

definition put_body :: "nat \<Rightarrow> page_body \<Rightarrow> (pool, unit) op" where
  "put_body page_id body = bind_op (lift_res (serialize_page body)) (store_page page_id)"

text \<open>
  The parent's update after its child at \<open>child_slot\<close> split: the new left cell goes in front, and the
  pointer that led to the child now leads to the right half.
\<close>

definition link_child :: "nat \<Rightarrow> bytes \<Rightarrow> nat \<Rightarrow> page_body \<Rightarrow> page_body res" where
  "link_child child_slot new_left_cell right_page_id body =
     (if child_slot = length (pb_cells body)
      then bind_res (insert_cell child_slot new_left_cell body) (\<lambda>b. Inr (b\<lparr>pb_right_child := right_page_id\<rparr>))
      else bind_res (py_get (pb_cells body) child_slot) (\<lambda>c.
           bind_res (decode_interior_table_cell c) (\<lambda>(_, old_separator).
           bind_res (encode_interior_table_cell right_page_id old_separator) (\<lambda>c'.
           bind_res (py_set (pb_cells body) child_slot c') (\<lambda>cells.
             insert_cell child_slot new_left_cell (body\<lparr>pb_cells := cells\<rparr>))))))"

subsection \<open>Insertion\<close>

text \<open>The cell of a row, given the overflow page (any non-zero number while only its size matters).\<close>

definition row_cell :: "int \<Rightarrow> bytes \<Rightarrow> nat \<Rightarrow> nat \<Rightarrow> bytes res" where
  "row_cell rowid payload local_len overflow_page =
     encode_leaf_table_cell rowid (length payload) (take local_len payload) overflow_page"

text \<open>The \<^verbatim>\<open>try\<close> block of \<^verbatim>\<open>insert\<close>: \<open>True\<close> when the leaf has no room and was released for a split.\<close>

definition insert_body :: "nat \<Rightarrow> nat \<Rightarrow> int \<Rightarrow> bytes \<Rightarrow> page_body \<Rightarrow> (pool, bool) op" where
  "insert_body page_id slot rowid payload body =
     bind_op (lift_res (if slot < length (pb_cells body)
                        then bind_res (leaf_key (pb_cells body ! slot)) (\<lambda>existing_rowid.
                               if existing_rowid = rowid then Inl DuplicateRowIDError else Inr ())
                        else Inr ())) (\<lambda>_.
     bind_op (lift_res (local_payload_size LEAF_TABLE (length payload))) (\<lambda>local_len.
     bind_op (lift_res (row_cell rowid payload local_len (if local_len < length payload then 1 else 0))) (\<lambda>candidate.
       if \<not> fits body (length candidate) then bind_op (unpin page_id False) (\<lambda>_. ret True)
       else
         bind_op (if local_len < length payload
                  then write_overflow_chain allocate_page update_page (drop local_len payload) else ret 0) (\<lambda>overflow_page.
         bind_op (lift_res (row_cell rowid payload local_len overflow_page)) (\<lambda>cell.
         bind_op (lift_res (insert_cell slot cell body)) (\<lambda>body'.
         bind_op (put_body page_id body') (\<lambda>_. ret False)))))))"

text \<open>\<^verbatim>\<open>finally: if leaf_is_pinned: unpin\<close>: the pin was given up exactly when the block returns \<open>True\<close>.\<close>

definition finally_unless :: "('s, bool) op \<Rightarrow> ('s, unit) op \<Rightarrow> ('s, bool) op" where
  "finally_unless m fin s =
     (case m s of
        (Inr True, s') \<Rightarrow> (Inr True, s')
      | (r, s') \<Rightarrow> (case fin s' of (Inl e, s'') \<Rightarrow> (Inl e, s'') | (Inr _, s'') \<Rightarrow> (r, s'')))"

text \<open>The insertion of a pending separator into a full interior page, as lists.\<close>

definition combine_interior ::
  "nat \<Rightarrow> nat \<Rightarrow> int \<Rightarrow> nat \<Rightarrow> bytes \<Rightarrow> page_body \<Rightarrow> int list \<Rightarrow> nat list \<Rightarrow> (bytes list \<times> int list \<times> nat list \<times> nat) res" where
  "combine_interior child_slot left_child separator right_child new_left_cell body keys children =
     (if child_slot = length (pb_cells body)
      then Inr (pb_cells body @ [new_left_cell], keys @ [separator], children @ [left_child], right_child)
      else bind_res (py_get keys child_slot) (\<lambda>old_separator.
           bind_res (encode_interior_table_cell right_child old_separator) (\<lambda>rewritten_cell. Inr
             (take child_slot (pb_cells body) @ [new_left_cell, rewritten_cell] @ drop (child_slot + 1) (pb_cells body),
              take child_slot keys @ [separator, old_separator] @ drop (child_slot + 1) keys,
              take child_slot children @ [left_child, right_child] @ drop (child_slot + 1) children,
              pb_right_child body))))"

text \<open>One round of \<^verbatim>\<open>_promote_separator\<close>: \<open>Some\<close> when the page split and the cascade goes on above it.\<close>

definition promote_body ::
  "nat \<Rightarrow> nat \<Rightarrow> nat \<Rightarrow> nat \<Rightarrow> int \<Rightarrow> nat \<Rightarrow> page_body \<Rightarrow> (pool, (nat \<times> int \<times> nat) option) op" where
  "promote_body level page_id child_slot left_child separator right_child body =
     bind_op (lift_res (encode_interior_table_cell left_child separator)) (\<lambda>new_left_cell.
       if fits body (length new_left_cell)
       then bind_op (lift_res (link_child child_slot new_left_cell right_child body)) (\<lambda>body'.
            bind_op (put_body page_id body') (\<lambda>_. ret None))
       else
         bind_op (lift_res (map_res interior_key (pb_cells body))) (\<lambda>keys.
         bind_op (lift_res (map_res interior_child (pb_cells body))) (\<lambda>children.
         bind_op (lift_res (combine_interior child_slot left_child separator right_child new_left_cell body keys children))
           (\<lambda>(combined_cells, combined_keys, combined_children, combined_right_child).
         bind_op (lift_res (split_interior_cells combined_cells combined_keys combined_children combined_right_child
                     (child_slot = length (pb_cells body))))
           (\<lambda>(new_left_cells, new_left_right_child, new_right_cells, new_right_right_child, new_separator).
         bind_op allocate_page (\<lambda>new_right_page_id.
         bind_op (pinned_for_write new_right_page_id (overwrite (mk_page INTERIOR_TABLE new_right_cells new_right_right_child))) (\<lambda>_.
           if level = 0
           then
             bind_op allocate_page (\<lambda>new_left_page_id.
             bind_op (pinned_for_write new_left_page_id (overwrite (mk_page INTERIOR_TABLE new_left_cells new_left_right_child))) (\<lambda>_.
             bind_op (lift_res (encode_interior_table_cell new_left_page_id new_separator)) (\<lambda>root_cell.
             bind_op (put_body page_id (mk_page INTERIOR_TABLE [root_cell] new_right_page_id)) (\<lambda>_. ret None))))
           else
             bind_op (put_body page_id (mk_page INTERIOR_TABLE new_left_cells new_left_right_child)) (\<lambda>_.
               ret (Some (page_id, new_separator, new_right_page_id))))))))))"

definition promote_step ::
  "tree_path \<Rightarrow> nat \<Rightarrow> nat \<Rightarrow> int \<Rightarrow> nat \<Rightarrow> (pool, (nat \<times> int \<times> nat) option) op" where
  "promote_step path level left_child separator right_child =
     bind_op (lift_res (py_get path level)) (\<lambda>(page_id, child_slot).
     bind_op (get_page_for_write page_id) (\<lambda>raw.
       finally_op
         (bind_op (lift_res (parse_page raw 0)) (promote_body level page_id child_slot left_child separator right_child))
         (unpin page_id False)))"

text \<open>The loop counts \<^verbatim>\<open>level\<close> down; at level 0 a round always returns.\<close>

primrec promote_separator :: "tree_path \<Rightarrow> nat \<Rightarrow> nat \<Rightarrow> int \<Rightarrow> nat \<Rightarrow> (pool, unit) op" where
  "promote_separator path 0 left_child separator right_child =
     bind_op (promote_step path 0 left_child separator right_child) (\<lambda>_. skip)"
| "promote_separator path (Suc level) left_child separator right_child =
     bind_op (promote_step path (Suc level) left_child separator right_child) (\<lambda>r.
       case r of None \<Rightarrow> skip | Some (l, sep, r) \<Rightarrow> promote_separator path level l sep r)"

text \<open>
  The \<^verbatim>\<open>try\<close> block of \<^verbatim>\<open>_split_leaf\<close> in three parts. First the division of the leaf's cells and the new
  one, with no overflow page written yet: a row that cannot go next to its neighbours is refused here.
\<close>

definition split_plan :: "nat \<Rightarrow> int \<Rightarrow> bytes \<Rightarrow> bool \<Rightarrow> page_body \<Rightarrow> (nat \<times> bytes list \<times> bytes list \<times> int) res" where
  "split_plan insert_slot rowid payload is_rightmost body =
     bind_res (map_res leaf_key (pb_cells body)) (\<lambda>keys.
     let use_append_split = (is_rightmost \<and> (keys = [] \<or> last keys < rowid)) in
     bind_res (local_payload_size LEAF_TABLE (length payload)) (\<lambda>local_len.
     bind_res (row_cell rowid payload local_len (if local_len < length payload then 1 else 0)) (\<lambda>new_cell.
     bind_res (split_cells (take insert_slot (pb_cells body) @ [new_cell] @ drop insert_slot (pb_cells body))
                (take insert_slot keys @ [rowid] @ drop insert_slot keys) use_append_split)
       (\<lambda>(left_cells, right_cells, separator).
     if \<not> (fits_one_leaf_page left_cells \<and> fits_one_leaf_page right_cells) then Inl PageFullError
     else Inr (local_len, left_cells, right_cells, separator)))))"

text \<open>Then the overflow chain, whose first page goes into the new cell, in whichever half it is.\<close>

definition place_row :: "nat \<Rightarrow> int \<Rightarrow> bytes \<Rightarrow> nat \<Rightarrow> bytes list \<Rightarrow> bytes list \<Rightarrow> (pool, bytes list \<times> bytes list) op" where
  "place_row insert_slot rowid payload local_len left_cells right_cells =
     (if local_len < length payload
      then bind_op (write_overflow_chain allocate_page update_page (drop local_len payload)) (\<lambda>overflow_page.
           bind_op (lift_res (row_cell rowid payload local_len overflow_page)) (\<lambda>real_cell.
             if insert_slot < length left_cells
             then bind_op (lift_res (py_set left_cells insert_slot real_cell)) (\<lambda>l. ret (l, right_cells))
             else bind_op (lift_res (py_set right_cells (insert_slot - length left_cells) real_cell)) (\<lambda>r. ret (left_cells, r))))
      else ret (left_cells, right_cells))"

text \<open>
  Last the pages: the right half on a new one, the left half on the old one (on a new one too when the
  leaf was the root), and the parent. The separator and right page are returned when the parent has no room.
\<close>

definition write_halves ::
  "nat \<Rightarrow> (nat \<times> page_body \<times> nat) option \<Rightarrow> bytes list \<Rightarrow> bytes list \<Rightarrow> int \<Rightarrow> (pool, (int \<times> nat) option) op" where
  "write_halves page_id parent left_cells right_cells separator =
     bind_op (case parent of
                None \<Rightarrow> ret ([], True)
              | Some (_, pbody, _) \<Rightarrow> bind_op (lift_res (encode_interior_table_cell page_id separator)) (\<lambda>c.
                  ret (c, fits pbody (length c))))
       (\<lambda>(new_left_cell, parent_has_room).
     bind_op allocate_page (\<lambda>right_page_id.
     bind_op (pinned_for_write right_page_id (overwrite (mk_page LEAF_TABLE right_cells 0))) (\<lambda>_.
       case parent of
         None \<Rightarrow>
           bind_op allocate_page (\<lambda>left_page_id.
           bind_op (pinned_for_write left_page_id (overwrite (mk_page LEAF_TABLE left_cells 0))) (\<lambda>_.
           bind_op (lift_res (encode_interior_table_cell left_page_id separator)) (\<lambda>root_cell.
           bind_op (put_body page_id (mk_page INTERIOR_TABLE [root_cell] right_page_id)) (\<lambda>_. ret None))))
       | Some (parent_id, pbody, child_slot) \<Rightarrow>
           bind_op (put_body page_id (mk_page LEAF_TABLE left_cells 0)) (\<lambda>_.
             if parent_has_room
             then bind_op (lift_res (link_child child_slot new_left_cell right_page_id pbody)) (\<lambda>pbody'.
                  bind_op (put_body parent_id pbody') (\<lambda>_. ret None))
             else ret (Some (separator, right_page_id))))))"

definition split_leaf_body ::
  "nat \<Rightarrow> nat \<Rightarrow> int \<Rightarrow> bytes \<Rightarrow> (nat \<times> page_body \<times> nat) option \<Rightarrow> page_body \<Rightarrow> (pool, (int \<times> nat) option) op" where
  "split_leaf_body page_id insert_slot rowid payload parent body =
     (let is_rightmost = (case parent of None \<Rightarrow> True | Some (_, pbody, child_slot) \<Rightarrow> child_slot = length (pb_cells pbody)) in
      bind_op (lift_res (split_plan insert_slot rowid payload is_rightmost body)) (\<lambda>(local_len, left0, right0, separator).
      bind_op (place_row insert_slot rowid payload local_len left0 right0) (\<lambda>(left_cells, right_cells).
        write_halves page_id parent left_cells right_cells separator)))"

definition split_leaf :: "nat \<Rightarrow> tree_path \<Rightarrow> int \<Rightarrow> bytes \<Rightarrow> (pool, unit) op" where
  "split_leaf page_id path rowid payload =
     bind_op (get_page_for_write page_id) (\<lambda>raw.
     bind_op (if 1 < length path
              then let (parent_id, child_slot) = path ! (length path - 2) in
                   bind_op (get_page_for_write parent_id) (\<lambda>parent_raw.
                   bind_op (lift_res (parse_page parent_raw 0)) (\<lambda>pbody. ret (Some (parent_id, pbody, child_slot))))
              else ret None) (\<lambda>parent.
     bind_op (finally_op
                (bind_op (lift_res (parse_page raw 0)) (split_leaf_body page_id (snd (last path)) rowid payload parent))
                (bind_op (unpin page_id False) (\<lambda>_.
                   case parent of None \<Rightarrow> skip | Some (parent_id, _) \<Rightarrow> unpin parent_id False))) (\<lambda>pending.
       case pending of
         None \<Rightarrow> skip
       | Some (separator, right_page_id) \<Rightarrow> promote_separator path (length path - 2) page_id separator right_page_id)))"

definition insert_at :: "tree_path \<Rightarrow> int \<Rightarrow> bytes \<Rightarrow> (pool, unit) op" where
  "insert_at path rowid payload =
     (let (page_id, slot) = last path in
      bind_op (get_page_for_write page_id) (\<lambda>raw.
      bind_op (lift_res (parse_page raw 0)) (\<lambda>body.
      bind_op (finally_unless (insert_body page_id slot rowid payload body) (unpin page_id False)) (\<lambda>split.
        if split then split_leaf page_id path rowid payload else skip))))"

definition btree_insert :: "nat \<Rightarrow> int \<Rightarrow> bytes \<Rightarrow> (pool, unit) pop" where
  "btree_insert root rowid payload =
     bind_pop (find_leaf root rowid) (\<lambda>path. total_op (insert_at path rowid payload))"

subsection \<open>Deletion\<close>

text \<open>The leaf's part of \<^verbatim>\<open>delete\<close>: \<open>None\<close> when the row is absent, else the overflow page and whether the leaf is empty.\<close>

definition delete_from_leaf :: "nat \<Rightarrow> nat \<Rightarrow> int \<Rightarrow> (pool, (nat \<times> bool) option) op" where
  "delete_from_leaf leaf_page_id leaf_slot rowid =
     bind_op (get_page_for_write leaf_page_id) (\<lambda>raw.
       finally_op
         (bind_op (lift_res (parse_page raw 0)) (\<lambda>body.
            if length (pb_cells body) \<le> leaf_slot then ret None
            else bind_op (lift_res (decode_leaf_table_cell (pb_cells body ! leaf_slot))) (\<lambda>(found_rowid, _, _, overflow_page).
              if found_rowid \<noteq> rowid then ret None
              else bind_op (lift_res (delete_cell leaf_slot body)) (\<lambda>body'.
                   bind_op (put_body leaf_page_id body') (\<lambda>_. ret (Some (overflow_page, pb_cells body' = [])))))))
         (unpin leaf_page_id False))"

text \<open>Taking the child at \<open>child_slot\<close> out of its parent.\<close>

definition unlink_child :: "nat \<Rightarrow> page_body \<Rightarrow> page_body res" where
  "unlink_child child_slot parent =
     (if child_slot < length (pb_cells parent) then delete_cell child_slot parent
      else if pb_cells parent \<noteq> []
      then bind_res (decode_interior_table_cell (last (pb_cells parent))) (\<lambda>(new_right_child, _).
           bind_res (delete_cell (length (pb_cells parent) - 1) parent) (\<lambda>p. Inr (p\<lparr>pb_right_child := new_right_child\<rparr>)))
      else Inr (parent\<lparr>pb_right_child := 0\<rparr>))"

text \<open>One round of the loop: the parent's page number and whether it lost its last child.\<close>

definition unlink_step :: "tree_path \<Rightarrow> nat \<Rightarrow> nat \<Rightarrow> (pool, nat \<times> bool) op" where
  "unlink_step path level child_to_free =
     bind_op (lift_res (py_get path level)) (\<lambda>(parent_page_id, child_slot).
     bind_op (get_page_for_write parent_page_id) (\<lambda>parent_raw.
     bind_op (finally_op
                (bind_op (lift_res (parse_page parent_raw 0)) (\<lambda>parent0.
                 bind_op (lift_res (unlink_child child_slot parent0)) (\<lambda>parent.
                 let parent_is_empty = (pb_cells parent = [] \<and> pb_right_child parent = 0) in
                 bind_op (put_body parent_page_id
                            (if level = 0 \<and> parent_is_empty then mk_page LEAF_TABLE [] 0 else parent)) (\<lambda>_.
                   ret parent_is_empty))))
                (unpin parent_page_id False)) (\<lambda>parent_is_empty.
     bind_op (free_page child_to_free) (\<lambda>_. ret (parent_page_id, parent_is_empty)))))"

primrec unlink_upward :: "tree_path \<Rightarrow> nat \<Rightarrow> nat \<Rightarrow> (pool, bool) op" where
  "unlink_upward path 0 child_to_free = bind_op (unlink_step path 0 child_to_free) (\<lambda>_. ret True)"
| "unlink_upward path (Suc level) child_to_free =
     bind_op (unlink_step path (Suc level) child_to_free) (\<lambda>(parent_page_id, parent_is_empty).
       if \<not> parent_is_empty then ret True else unlink_upward path level parent_page_id)"

definition btree_delete :: "nat \<Rightarrow> int \<Rightarrow> (pool, bool) pop" where
  "btree_delete root rowid =
     bind_pop (find_leaf root rowid) (\<lambda>path.
     let (leaf_page_id, leaf_slot) = last path in
     bind_pop (total_op (delete_from_leaf leaf_page_id leaf_slot rowid)) (\<lambda>found.
       case found of
         None \<Rightarrow> total_op (ret False)
       | Some (overflow_page, leaf_now_empty) \<Rightarrow>
           bind_pop (if overflow_page \<noteq> 0 then free_overflow_chain load_page free_page overflow_page
                     else total_op skip) (\<lambda>_.
             total_op (if \<not> leaf_now_empty \<or> leaf_page_id = root then ret True
                       else unlink_upward path (length path - 2) leaf_page_id))))"

end
