(* ===== verification/TableTree.thy ===== *)
theory TableTree
  imports BTree
begin

text \<open>
  The trees that table b-tree pages stand for: what it means for the pages of a store to hold a tree,
  its rows in order, its key order and its pages; and a tree with a hole, which is what the path of a
  descent describes.
\<close>

section \<open>Rows and cells\<close>

text \<open>A row: its key, its payload and the overflow pages that hold the payload's tail.\<close>

type_synonym row = "int \<times> bytes \<times> nat list"

definition local_len :: "bytes \<Rightarrow> nat" where
  "local_len d = (case local_payload_size LEAF_TABLE (length d) of Inr l \<Rightarrow> l | Inl _ \<Rightarrow> 0)"

definition first_page :: "nat list \<Rightarrow> nat" where
  "first_page ids = (case ids of [] \<Rightarrow> 0 | p # _ \<Rightarrow> p)"

definition leaf_cell :: "row \<Rightarrow> bytes" where
  "leaf_cell = (\<lambda>(k, d, ids). case row_cell k d (local_len d) (first_page ids) of Inr c \<Rightarrow> c | Inl _ \<Rightarrow> [])"

definition node_cell :: "nat \<Rightarrow> int \<Rightarrow> bytes" where
  "node_cell p k = (case encode_interior_table_cell p k of Inr c \<Rightarrow> c | Inl _ \<Rightarrow> [])"

definition row_ok :: "row \<Rightarrow> bool" where
  "row_ok = (\<lambda>(k, d, ids). rowid_ok k \<and> length d < 2 ^ 64 \<and> (ids \<noteq> [] \<longleftrightarrow> local_len d < length d)
     \<and> (\<forall>p \<in> set ids. 1 \<le> p \<and> p < 2 ^ 32))"

lemma local_len: "local_payload_size LEAF_TABLE (length d) = Inr (local_len d)"
  by (simp add: local_len_def local_payload_size_def max_local_payload_eq Let_def)

lemma local_len_le: "local_len d \<le> length d"
  using local_payload_size_le(1) [OF local_len] .

lemma to_twos_complement_range: "0 \<le> to_twos_complement k" "to_twos_complement k < 2 ^ 64"
  by (simp_all add: to_twos_complement_mod)

lemma encode_node_cell:
  assumes "p < 2 ^ 32"
  shows "encode_interior_table_cell p k = Inr (node_cell p k)"
proof -
  have "\<exists>c. encode_interior_table_cell p k = Inr c"
    using assms encode_uvarint_defined [OF to_twos_complement_range [of k]]
    by (auto simp: encode_interior_table_cell_def to_bytes_def)
  then show ?thesis by (auto simp: node_cell_def)
qed

lemma node_cell_decode:
  assumes "p < 2 ^ 32" and "rowid_ok k"
  shows "decode_interior_table_cell (node_cell p k) = Inr (p, k)" and "interior_key (node_cell p k) = Inr k"
    and "interior_child (node_cell p k) = Inr p"
  using decode_interior_table_cell_encode [OF assms(2) encode_node_cell [OF assms(1)], of "[]"]
  by (simp_all add: interior_key_def interior_child_def)

lemma node_cell_length:
  assumes "p < 2 ^ 32"
  shows "length (node_cell p k) \<le> 13"
proof -
  from encode_node_cell [OF assms, of k] obtain b where b: "encode_uvarint (to_twos_complement k) = Inr b"
    "node_cell p k = be_encode 4 p @ b"
    by (auto simp: encode_interior_table_cell_def bind_res_eq_Inr to_bytes_eq_Inr)
  then show ?thesis using encode_uvarint_length [OF b(1)] by simp
qed

lemma row_cell_valid:
  assumes "length d < 2 ^ 64" and "(ov \<noteq> 0) = (local_len d < length d)" and "ov < 2 ^ 32"
  shows "\<exists>c. row_cell k d (local_len d) ov = Inr c"
  using assms encode_uvarint_defined [OF to_twos_complement_range [of k]] encode_uvarint_defined [of "int (length d)"] local_len_le [of d]
  by (auto simp: row_cell_def encode_leaf_table_cell_def require_valid_split_def local_len overflow_field_def to_bytes_def Let_def)

lemma row_cell_leaf_cell:
  assumes "row_ok (k, d, ids)"
  shows "row_cell k d (local_len d) (first_page ids) = Inr (leaf_cell (k, d, ids))"
proof -
  have "\<exists>c. row_cell k d (local_len d) (first_page ids) = Inr c"
    using assms by (intro row_cell_valid) (auto simp: row_ok_def first_page_def split: list.splits)
  then show ?thesis by (auto simp: leaf_cell_def)
qed

lemma leaf_cell_decode:
  assumes "row_ok (k, d, ids)"
  shows "decode_leaf_table_cell (leaf_cell (k, d, ids)) = Inr (k, length d, take (local_len d) d, first_page ids)"
    and "leaf_key (leaf_cell (k, d, ids)) = Inr k"
proof -
  have "rowid_ok k" using assms by (simp add: row_ok_def)
  from decode_leaf_table_cell_encode [OF this row_cell_leaf_cell [OF assms, unfolded row_cell_def], of "[]"]
  show "decode_leaf_table_cell (leaf_cell (k, d, ids)) = Inr (k, length d, take (local_len d) d, first_page ids)" by simp
  then show "leaf_key (leaf_cell (k, d, ids)) = Inr k" by (simp add: leaf_key_def)
qed

text \<open>The size of a row's cell does not depend on which overflow page it names.\<close>

lemma row_cell_length:
  assumes "row_cell k d l ov = Inr c" and "row_cell k d l ov' = Inr c'" and "(ov = 0) = (ov' = 0)"
  shows "length c = length c'"
  using assms
  by (auto simp: row_cell_def encode_leaf_table_cell_def bind_res_eq_Inr overflow_field_def to_bytes_eq_Inr split: if_splits)

section \<open>Trees\<close>

datatype ttree = TLeaf nat "row list" | TNode nat "ttree list" "int list"

fun pid :: "ttree \<Rightarrow> nat" where
  "pid (TLeaf p rows) = p"
| "pid (TNode p ts ks) = p"

fun pages_of :: "ttree \<Rightarrow> nat list" where
  "pages_of (TLeaf p rows) = p # concat (map (\<lambda>r. snd (snd r)) rows)"
| "pages_of (TNode p ts ks) = p # concat (map pages_of ts)"

fun rows_of :: "ttree \<Rightarrow> row list" where
  "rows_of (TLeaf p rows) = rows"
| "rows_of (TNode p ts ks) = concat (map rows_of ts)"

text \<open>
  The keys of a tree and its separators, in one sequence: a row's key \<open>k\<close> counts as \<open>2 * k\<close> and a
  separator \<open>k\<close> as \<open>2 * k + 1\<close>, so that the boundary rule (keys up to the separator on its left) is
  strict ascent of the sequence.
\<close>

definition after_seps :: "int list \<Rightarrow> int list list \<Rightarrow> int list" where
  "after_seps ks xs = concat (map2 (\<lambda>k x. (2 * k + 1) # x) ks xs)"

definition before_seps :: "int list list \<Rightarrow> int list \<Rightarrow> int list" where
  "before_seps xs ks = concat (map2 (\<lambda>x k. x @ [2 * k + 1]) xs ks)"

fun weave :: "int list list \<Rightarrow> int list \<Rightarrow> int list" where
  "weave [] ks = []"
| "weave (x # xs) ks = x @ after_seps ks xs"

fun flat :: "ttree \<Rightarrow> int list" where
  "flat (TLeaf p rows) = map (\<lambda>r. 2 * fst r) rows"
| "flat (TNode p ts ks) = weave (map flat ts) ks"

fun uniform :: "nat \<Rightarrow> ttree \<Rightarrow> bool" where
  "uniform h (TLeaf p rows) \<longleftrightarrow> h = 1 \<and> rows \<noteq> []"
| "uniform h (TNode p ts ks) \<longleftrightarrow> 1 < h \<and> (\<forall>t \<in> set ts. uniform (h - 1) t)"

text \<open>All leaves at one depth and, but for a root that is a leaf, none of them empty.\<close>

definition shaped :: "nat \<Rightarrow> ttree \<Rightarrow> bool" where
  "shaped h t \<longleftrightarrow> uniform h t \<or> h = 1 \<and> t = TLeaf (pid t) []"

definition leaf_body :: "row list \<Rightarrow> page_body" where
  "leaf_body rows = mk_page LEAF_TABLE (map leaf_cell rows) 0"

definition node_body :: "nat list \<Rightarrow> int list \<Rightarrow> page_body" where
  "node_body ps ks = mk_page INTERIOR_TABLE (map2 node_cell ps ks) (last ps)"

definition row_stored :: "(nat \<Rightarrow> bytes) \<Rightarrow> row \<Rightarrow> bool" where
  "row_stored v = (\<lambda>(k, d, ids). row_ok (k, d, ids) \<and> on_chain v ids (drop (local_len d) d))"

fun stored :: "(nat \<Rightarrow> bytes) \<Rightarrow> ttree \<Rightarrow> bool" where
  "stored v (TLeaf p rows) \<longleftrightarrow> parse_page (v p) 0 = Inr (leaf_body rows) \<and> used_bytes (leaf_body rows) \<le> PAGE_SIZE \<and> (\<forall>r \<in> set rows. row_stored v r)"
| "stored v (TNode p ts ks) \<longleftrightarrow> parse_page (v p) 0 = Inr (node_body (map pid ts) ks)
     \<and> used_bytes (node_body (map pid ts) ks) \<le> PAGE_SIZE \<and> length ts = Suc (length ks)
     \<and> (\<forall>k \<in> set ks. rowid_ok k) \<and> (\<forall>t \<in> set ts. pid t < 2 ^ 32 \<and> stored v t)"

lemma pid_in_pages: "pid t \<in> set (pages_of t)"
  by (cases t) simp_all

lemma row_stored_cong: "(\<And>p. p \<in> set ids \<Longrightarrow> v p = w p) \<Longrightarrow> row_stored v (k, d, ids) = row_stored w (k, d, ids)"
  using on_chain_cong [of ids v w] by (simp add: row_stored_def)

lemma stored_cong: "(\<And>p. p \<in> set (pages_of t) \<Longrightarrow> v p = w p) \<Longrightarrow> stored v t = stored w t"
proof (induction t)
  case (TLeaf p rows)
  have "row_stored v r = row_stored w r" if "r \<in> set rows" for r
  proof -
    obtain k d ids where r: "r = (k, d, ids)" by (cases r)
    have "set ids \<subseteq> set (pages_of (TLeaf p rows))" using that by (force simp: r)
    with TLeaf show ?thesis unfolding r by (intro row_stored_cong) blast
  qed
  with TLeaf show ?case by simp
next
  case (TNode p ts ks)
  then have "stored v t = stored w t" if "t \<in> set ts" for t using that by auto
  with TNode.prems show ?case by auto
qed

section \<open>Trees with a hole\<close>

text \<open>
  One level above the hole: the page, the children and separators left of the hole, and those right of
  it. A context is the list of levels from the root down.
\<close>

datatype tframe = Frame nat "ttree list" "int list" "int list" "ttree list"

fun fill :: "tframe \<Rightarrow> ttree \<Rightarrow> ttree" where
  "fill (Frame p ls kl kr rs) t = TNode p (ls @ t # rs) (kl @ kr)"

definition plug :: "tframe list \<Rightarrow> ttree \<Rightarrow> ttree" where
  "plug fs t = foldr fill fs t"

fun frame_pid :: "tframe \<Rightarrow> nat" where
  "frame_pid (Frame p ls kl kr rs) = p"

fun frame_entry :: "tframe \<Rightarrow> nat \<times> nat" where
  "frame_entry (Frame p ls kl kr rs) = (p, length ls)"

fun frame_wf :: "tframe \<Rightarrow> bool" where
  "frame_wf (Frame p ls kl kr rs) \<longleftrightarrow> length ls = length kl \<and> length rs = length kr"

fun frame_pages :: "tframe \<Rightarrow> nat list" where
  "frame_pages (Frame p ls kl kr rs) = p # concat (map pages_of (ls @ rs))"

fun flat_left :: "tframe \<Rightarrow> int list" where
  "flat_left (Frame p ls kl kr rs) = before_seps (map flat ls) kl"

fun flat_right :: "tframe \<Rightarrow> int list" where
  "flat_right (Frame p ls kl kr rs) = after_seps kr (map flat rs)"

fun rows_left :: "tframe \<Rightarrow> row list" where
  "rows_left (Frame p ls kl kr rs) = concat (map rows_of ls)"

fun rows_right :: "tframe \<Rightarrow> row list" where
  "rows_right (Frame p ls kl kr rs) = concat (map rows_of rs)"

fun stored_frame :: "(nat \<Rightarrow> bytes) \<Rightarrow> tframe \<Rightarrow> nat \<Rightarrow> bool" where
  "stored_frame v (Frame p ls kl kr rs) q \<longleftrightarrow>
     parse_page (v p) 0 = Inr (node_body (map pid ls @ q # map pid rs) (kl @ kr))
     \<and> used_bytes (node_body (map pid ls @ q # map pid rs) (kl @ kr)) \<le> PAGE_SIZE
     \<and> length (ls @ rs) = length (kl @ kr) \<and> (\<forall>k \<in> set (kl @ kr). rowid_ok k) \<and> q < 2 ^ 32
     \<and> (\<forall>t \<in> set (ls @ rs). pid t < 2 ^ 32 \<and> stored v t)"

fun hole :: "tframe list \<Rightarrow> nat \<Rightarrow> nat" where
  "hole [] q = q"
| "hole (f # fs) q = frame_pid f"

fun stored_ctx :: "(nat \<Rightarrow> bytes) \<Rightarrow> tframe list \<Rightarrow> nat \<Rightarrow> bool" where
  "stored_ctx v [] q \<longleftrightarrow> True"
| "stored_ctx v (f # fs) q \<longleftrightarrow> stored_frame v f (hole fs q) \<and> stored_ctx v fs q"

fun uniform_frame :: "nat \<Rightarrow> tframe \<Rightarrow> bool" where
  "uniform_frame h (Frame p ls kl kr rs) \<longleftrightarrow> 1 < h \<and> (\<forall>t \<in> set (ls @ rs). uniform (h - 1) t)"

fun uniform_ctx :: "nat \<Rightarrow> tframe list \<Rightarrow> bool" where
  "uniform_ctx h [] \<longleftrightarrow> True"
| "uniform_ctx h (f # fs) \<longleftrightarrow> uniform_frame h f \<and> uniform_ctx (h - 1) fs"

definition ctx_pages :: "tframe list \<Rightarrow> nat list" where
  "ctx_pages fs = concat (map frame_pages fs)"

definition ctx_left :: "tframe list \<Rightarrow> int list" where
  "ctx_left fs = concat (map flat_left fs)"

definition ctx_right :: "tframe list \<Rightarrow> int list" where
  "ctx_right fs = concat (rev (map flat_right fs))"

definition ctx_rows_left :: "tframe list \<Rightarrow> row list" where
  "ctx_rows_left fs = concat (map rows_left fs)"

definition ctx_rows_right :: "tframe list \<Rightarrow> row list" where
  "ctx_rows_right fs = concat (rev (map rows_right fs))"

lemmas ctx_defs = ctx_pages_def ctx_left_def ctx_right_def ctx_rows_left_def ctx_rows_right_def

lemma ctx_simps [simp]:
  "ctx_pages [] = []" "ctx_pages (f # fs) = frame_pages f @ ctx_pages fs" "ctx_pages (fs @ gs) = ctx_pages fs @ ctx_pages gs"
  "ctx_left [] = []" "ctx_left (f # fs) = flat_left f @ ctx_left fs" "ctx_left (fs @ gs) = ctx_left fs @ ctx_left gs"
  "ctx_right [] = []" "ctx_right (f # fs) = ctx_right fs @ flat_right f" "ctx_right (fs @ gs) = ctx_right gs @ ctx_right fs"
  "ctx_rows_left [] = []" "ctx_rows_left (f # fs) = rows_left f @ ctx_rows_left fs"
  "ctx_rows_left (fs @ gs) = ctx_rows_left fs @ ctx_rows_left gs"
  "ctx_rows_right [] = []" "ctx_rows_right (f # fs) = ctx_rows_right fs @ rows_right f"
  "ctx_rows_right (fs @ gs) = ctx_rows_right gs @ ctx_rows_right fs"
  by (simp_all add: ctx_defs)

lemma plug_simps [simp]: "plug [] t = t" "plug (f # fs) t = fill f (plug fs t)" "plug (fs @ gs) t = plug fs (plug gs t)"
  by (simp_all add: plug_def)

lemma weave_hole:
  "length xs = length kl \<Longrightarrow> weave (xs @ y # ys) (kl @ kr) = before_seps xs kl @ y @ after_seps kr ys"
proof (induction xs kl rule: list_induct2)
  case (Cons x xs k ks)
  then show ?case by (cases xs) (simp_all add: before_seps_def after_seps_def)
qed (simp add: before_seps_def)

lemma flat_fill: "frame_wf f \<Longrightarrow> flat (fill f t) = flat_left f @ flat t @ flat_right f"
  by (cases f) (simp add: weave_hole)

lemma flat_plug: "\<forall>f \<in> set fs. frame_wf f \<Longrightarrow> flat (plug fs t) = ctx_left fs @ flat t @ ctx_right fs"
  by (induction fs) (simp_all add: flat_fill)

lemma rows_plug: "rows_of (plug fs t) = ctx_rows_left fs @ rows_of t @ ctx_rows_right fs"
proof (induction fs)
  case (Cons f fs)
  then show ?case by (cases f) simp
qed simp

lemma pid_fill [simp]: "pid (fill f t) = frame_pid f"
  by (cases f) simp

lemma pid_plug: "pid (plug fs t) = hole fs (pid t)"
  by (cases fs) simp_all

lemma pages_plug: "mset (pages_of (plug fs t)) = mset (ctx_pages fs) + mset (pages_of t)"
proof (induction fs)
  case (Cons f fs)
  then show ?case by (cases f) (simp add: mset_concat sum_list_addf)
qed simp

lemma set_pages_plug: "set (pages_of (plug fs t)) = set (ctx_pages fs) \<union> set (pages_of t)"
  using arg_cong [OF pages_plug, of set_mset fs t] by simp

lemma distinct_pages_plug: "distinct (pages_of (plug fs t)) \<longleftrightarrow> distinct (ctx_pages fs @ pages_of t)"
  by (rule mset_eq_imp_distinct_iff) (simp add: pages_plug)

lemma stored_fill: "stored v (fill f t) \<longleftrightarrow> stored_frame v f (pid t) \<and> stored v t"
  by (cases f) auto

lemma stored_plug: "stored v (plug fs t) \<longleftrightarrow> stored_ctx v fs (pid t) \<and> stored v t"
  by (induction fs) (auto simp: stored_fill pid_plug)

lemma hole_append [simp]: "hole (fs @ gs) q = hole fs (hole gs q)"
  by (cases fs) simp_all

lemma stored_ctx_append [simp]: "stored_ctx v (fs @ gs) q \<longleftrightarrow> stored_ctx v fs (hole gs q) \<and> stored_ctx v gs q"
  by (induction fs) auto

lemma uniform_fill: "uniform h (fill f t) \<longleftrightarrow> uniform_frame h f \<and> uniform (h - 1) t"
  by (cases f) auto

lemma uniform_plug: "uniform h (plug fs t) \<longleftrightarrow> uniform_ctx h fs \<and> uniform (h - length fs) t"
  by (induction fs arbitrary: h) (auto simp: uniform_fill)

lemma plug_leaf: "plug fs (TLeaf q rows) = TLeaf p rs \<longleftrightarrow> fs = [] \<and> q = p \<and> rows = rs"
proof (cases fs)
  case (Cons f gs)
  then show ?thesis by (cases f) simp
qed auto

lemma shaped_plug: "shaped h (plug fs (TLeaf q rows)) \<longleftrightarrow> uniform_ctx h fs \<and> h - length fs = 1 \<and> (fs = [] \<or> rows \<noteq> [])"
  by (auto simp: shaped_def uniform_plug plug_leaf pid_plug)

lemma shapedI: "uniform h t \<Longrightarrow> shaped h t" "shaped 1 (TLeaf p rows)"
  by (auto simp: shaped_def)

lemma uniform_ctx_append [simp]: "uniform_ctx h (fs @ gs) \<longleftrightarrow> uniform_ctx h fs \<and> uniform_ctx (h - length fs) gs"
  by (induction fs arbitrary: h) auto

lemma stored_frame_cong:
  "(\<And>p. p \<in> set (frame_pages f) \<Longrightarrow> v p = w p) \<Longrightarrow> stored_frame v f q = stored_frame w f q"
proof (cases f)
  case (Frame p ls kl kr rs)
  assume eq: "\<And>p. p \<in> set (frame_pages f) \<Longrightarrow> v p = w p"
  then have "stored v t = stored w t" if "t \<in> set (ls @ rs)" for t
    using that by (intro stored_cong) (auto simp: Frame)
  then show ?thesis using eq by (simp add: Frame)
qed

lemma stored_ctx_cong:
  "(\<And>p. p \<in> set (ctx_pages fs) \<Longrightarrow> v p = w p) \<Longrightarrow> stored_ctx v fs q = stored_ctx w fs q"
proof (induction fs)
  case (Cons f fs)
  then show ?case using stored_frame_cong [of f v w] by simp
qed simp

lemma stored_ctx_wf: "stored_ctx v fs q \<Longrightarrow> f \<in> set fs \<Longrightarrow> \<exists>r. stored_frame v f r"
  by (induction fs) auto

end
