(* ===== verification/TreeSearch.thy ===== *)
theory TreeSearch
  imports TableTree
begin

text \<open>
  Descent in a stored tree: the path \<^verbatim>\<open>_find_leaf\<close> returns is a context around the one leaf that can
  hold the key, and \<^verbatim>\<open>search\<close> finds exactly the rows of the tree.
\<close>

section \<open>Reading an interior page\<close>

lemma node_cells_decode:
  assumes "length ps = Suc (length ks)" and "\<forall>p \<in> set ps. p < 2 ^ 32" and "\<forall>k \<in> set ks. rowid_ok k"
  shows "map_res interior_key (map2 node_cell ps ks) = Inr ks"
    and "map_res interior_child (map2 node_cell ps ks) = Inr (butlast ps)"
proof -
  have "map_res interior_key (map2 node_cell ps ks) = Inr ks \<and> map_res interior_child (map2 node_cell ps ks) = Inr (butlast ps)"
    using assms
  proof (induction ks arbitrary: ps)
    case Nil
    then show ?case by (cases ps) simp_all
  next
    case (Cons k ks)
    then obtain p ps' where ps: "ps = p # ps'" "length ps' = Suc (length ks)" by (cases ps) auto
    with Cons.IH [of ps'] Cons.prems show ?case by (auto simp: node_cell_decode)
  qed
  then show "map_res interior_key (map2 node_cell ps ks) = Inr ks"
    and "map_res interior_child (map2 node_cell ps ks) = Inr (butlast ps)" by simp_all
qed

lemma node_body_simps [simp]:
  "pb_type (node_body ps ks) = INTERIOR_TABLE" "pb_cells (node_body ps ks) = map2 node_cell ps ks"
  "pb_right_child (node_body ps ks) = last ps" "pb_header_offset (node_body ps ks) = 0"
  "pb_type (leaf_body rows) = LEAF_TABLE" "pb_cells (leaf_body rows) = map leaf_cell rows"
  "pb_right_child (leaf_body rows) = 0" "pb_header_offset (leaf_body rows) = 0"
  by (simp_all add: node_body_def leaf_body_def mk_page_def)

lemma node_slot_child:
  assumes "length ps = Suc (length ks)" and "\<forall>p \<in> set ps. p < 2 ^ 32" and "\<forall>k \<in> set ks. rowid_ok k" and "sorted ks"
  shows "interior_slot_for_key (node_body ps ks) key = Inr (scan_slot ks key)"
    and "child_for_key (node_body ps ks) key = Inr (ps ! scan_slot ks key)"
proof -
  note D = node_cells_decode [OF assms(1-3)]
  have k: "map_res interior_key (pb_cells (node_body ps ks)) = Inr ks" using D(1) by simp
  show "interior_slot_for_key (node_body ps ks) key = Inr (scan_slot ks key)" by (rule interior_slot_scan [OF k assms(4)])
  have "butlast ps @ [last ps] = ps" using assms(1) by (intro append_butlast_last_id) auto
  then show "child_for_key (node_body ps ks) key = Inr (ps ! scan_slot ks key)"
    using child_for_key_scan [OF k assms(4), of key] D(2) by (metis node_body_simps(2,3) sum.inject(2))
qed

lemma leaf_keys: "(\<forall>r \<in> set rows. row_ok r) \<Longrightarrow> map_res leaf_key (map leaf_cell rows) = Inr (map fst rows)"
proof (induction rows)
  case (Cons r rows)
  then show ?case by (cases r) (simp add: leaf_cell_decode)
qed simp

lemma stored_rows_ok: "stored v (TLeaf p rows) \<Longrightarrow> \<forall>r \<in> set rows. row_ok r"
  by (auto simp: row_stored_def)

section \<open>Order\<close>

lemma after_seps_Cons: "after_seps (k # ks) (x # xs) = (2 * k + 1) # x @ after_seps ks xs"
  by (simp add: after_seps_def)

lemma sep_in_after: "length xs = length ks \<Longrightarrow> k \<in> set ks \<Longrightarrow> 2 * k + 1 \<in> set (after_seps ks xs)"
proof (induction xs ks rule: list_induct2)
  case (Cons x xs j ks)
  then show ?case by (auto simp: after_seps_Cons)
qed simp

lemma after_seps_sorted: "length xs = length ks \<Longrightarrow> sorted_wrt (<) (after_seps ks xs) \<Longrightarrow> sorted_wrt (<) ks"
proof (induction xs ks rule: list_induct2)
  case (Cons x xs k ks)
  have "k < j" if "j \<in> set ks" for j
  proof -
    have "\<forall>y \<in> set (after_seps ks xs). 2 * k + 1 < y" using Cons.prems by (simp add: after_seps_Cons)
    from bspec [OF this sep_in_after [OF Cons.hyps that]] show ?thesis by simp
  qed
  with Cons show ?case by (simp add: after_seps_Cons sorted_wrt_append)
qed simp

lemma node_seps_sorted:
  assumes "length ts = Suc (length ks)" and "sorted_wrt (<) (flat (TNode p ts ks))"
  shows "sorted_wrt (<) ks"
proof -
  obtain t ts' where "ts = t # ts'" using assms(1) by (cases ts) auto
  then have "length (map flat ts') = length ks" "sorted_wrt (<) (after_seps ks (map flat ts'))"
    using assms by (simp_all add: sorted_wrt_append)
  then show ?thesis by (rule after_seps_sorted)
qed

lemma before_seps_last: "length xs = length ks \<Longrightarrow> ks \<noteq> [] \<Longrightarrow> \<exists>ys. before_seps xs ks = ys @ [2 * last ks + 1]"
proof (induction xs ks rule: list_induct2)
  case (Cons x xs k ks)
  then show ?case by (cases ks) (auto simp: before_seps_def)
qed simp

lemma rows_flat_even: "stored v t \<Longrightarrow> r \<in> set (rows_of t) \<Longrightarrow> 2 * fst r \<in> set (flat t)"
proof (induction t)
  case (TNode p ts ks)
  then obtain t where t: "t \<in> set ts" "r \<in> set (rows_of t)" by auto
  then have "2 * fst r \<in> set (flat t)" using TNode by auto
  moreover obtain us vs where ts: "ts = us @ t # vs" using t(1) by (meson split_list)
  have "length us \<le> length ks" using TNode.prems(1) by (simp add: ts)
  then have "flat (TNode p ts ks) = before_seps (map flat us) (take (length us) ks) @ flat t @ after_seps (drop (length us) ks) (map flat vs)"
    using weave_hole [of "map flat us" "take (length us) ks" "flat t" "map flat vs" "drop (length us) ks"] by (simp add: ts)
  ultimately show ?case by simp
qed simp

text \<open>The level of a descent: the frame the chosen slot leaves, everything around it on the right side of the key.\<close>

definition slot_frame :: "nat \<Rightarrow> nat \<Rightarrow> ttree list \<Rightarrow> int list \<Rightarrow> tframe" where
  "slot_frame i p ts ks = Frame p (take i ts) (take i ks) (drop i ks) (drop (Suc i) ts)"

lemma slot_frame_fill:
  assumes "i < length ts" and "length ts = Suc (length ks)"
  shows "fill (slot_frame i p ts ks) (ts ! i) = TNode p ts ks" and "frame_wf (slot_frame i p ts ks)"
    and "frame_entry (slot_frame i p ts ks) = (p, i)"
  using assms by (simp_all add: slot_frame_def id_take_nth_drop [symmetric])

lemma slot_frame_order:
  assumes len: "length ts = Suc (length ks)" and srt: "sorted_wrt (<) (flat (TNode p ts ks))" and i: "i = scan_slot ks key"
  shows "\<forall>x \<in> set (flat_left (slot_frame i p ts ks)). x < 2 * key"
    and "\<forall>x \<in> set (flat_right (slot_frame i p ts ks)). 2 * key < x"
proof -
  have il: "i \<le> length ks" using scan_slot_le i by simp
  then have it: "i < length ts" using len by simp
  let ?f = "slot_frame i p ts ks"
  note F = slot_frame_fill [OF it len, of p]
  have fl: "flat (TNode p ts ks) = flat_left ?f @ flat (ts ! i) @ flat_right ?f" using flat_fill [OF F(2), of "ts ! i"] F(1) by simp
  have sks: "sorted ks" using node_seps_sorted [OF len srt] by (simp add: strict_sorted_imp_sorted)
  show "\<forall>x \<in> set (flat_left ?f). x < 2 * key"
  proof (cases "take i ks = []")
    case True
    then have "i = 0 \<or> ks = []" by auto
    then have "take i ts = [] \<or> take i ks = []" by auto
    then show ?thesis using True by (auto simp: slot_frame_def before_seps_def)
  next
    case False
    have "length (map flat (take i ts)) = length (take i ks)" using il len by simp
    from before_seps_last [OF this False] obtain ys where ys: "flat_left ?f = ys @ [2 * last (take i ks) + 1]"
      by (auto simp: slot_frame_def)
    have "last (take i ks) = ks ! (i - 1)" "i - 1 < i" using False il by (simp_all add: last_conv_nth)
    then have "last (take i ks) < key" using scan_slot_below i by metis
    moreover have "\<forall>x \<in> set ys. x < 2 * last (take i ks) + 1" using srt [unfolded fl ys] by (auto simp: sorted_wrt_append)
    ultimately show ?thesis by (auto simp: ys)
  qed
  show "\<forall>x \<in> set (flat_right ?f). 2 * key < x"
  proof (cases "i < length ks")
    case True
    then obtain x xs where "drop i ks = ks ! i # drop (Suc i) ks" "map flat (drop (Suc i) ts) = x # xs"
      using len by (cases "map flat (drop (Suc i) ts)") (auto simp: Cons_nth_drop_Suc)
    then have r: "flat_right ?f = (2 * ks ! i + 1) # x @ after_seps (drop (Suc i) ks) xs"
      by (simp add: slot_frame_def after_seps_Cons)
    have "key \<le> ks ! i" using scan_slot_above [OF sks, of key i] i True by simp
    moreover have "\<forall>y \<in> set (flat_right ?f). 2 * ks ! i + 1 \<le> y" using srt [unfolded fl r] unfolding r by (auto simp: sorted_wrt_append intro: less_imp_le)
    ultimately show ?thesis by fastforce
  qed (simp add: slot_frame_def after_seps_def)
qed

section \<open>Descending\<close>

text \<open>A step that only reads: every page, pin and page in use is as before.\<close>

definition calm :: "nat multiset \<Rightarrow> nat set \<Rightarrow> pool \<Rightarrow> pool \<Rightarrow> bool" where
  "calm H W s s' \<longleftrightarrow> held H W s' \<and> view s' = view s \<and> live_pages s' = live_pages s \<and> spare_pages s' = spare_pages s \<and> frame s s'"

lemma calm_trans: "calm H W s s' \<Longrightarrow> calm H W s' s'' \<Longrightarrow> calm H W s s''"
  by (auto simp: calm_def intro: frame_trans)

lemma peek_page:
  assumes s: "held H W s" and cap: "size H + 1 < bp_capacity s" and p: "p \<in> live_pages s"
  obtains s1 s2 where "get_page p s = (Inr (view s p), s1)" and "unpin p False s1 = (Inr (), s2)" and "calm H W s s2"
proof (rule get_page_held [OF s p cap])
  fix s1
  assume g: "get_page p s = (Inr (view s p), s1)" "held (add_mset p H) W s1" "view s1 = view s" "live_pages s1 = live_pages s"
    "spare_pages s1 = spare_pages s" "frame s s1"
  show ?thesis
  proof (rule unpin_held [OF g(2), of p])
    fix s2
    assume u: "unpin p False s1 = (Inr (), s2)" "held (add_mset p H - {#p#}) (W \<inter> set_mset (add_mset p H - {#p#})) s2"
      "view s2 = view s1" "live_pages s2 = live_pages s1" "spare_pages s2 = spare_pages s1" "frame s1 s2"
    have "held H W s2" using u(2) heldD(8) [OF s] by (simp add: Int_absorb2)
    then show ?thesis using that [OF g(1) u(1)] g(3-6) u(3-6) frame_trans by (simp add: calm_def)
  qed simp
qed

lemma find_leaf_node:
  assumes s: "held H W s" and cap: "size H + 1 < bp_capacity s" and st: "stored (view s) (TNode p ts ks)"
    and p: "p \<in> live_pages s" and srt: "sorted_wrt (<) (flat (TNode p ts ks))"
  shows "\<exists>s'. find_leaf_step key (p, path) s = (Inr (Continue (pid (ts ! scan_slot ks key), path @ [(p, scan_slot ks key)])), s') \<and> calm H W s s'"
proof (rule peek_page [OF s cap p])
  fix s1 s2
  assume g: "get_page p s = (Inr (view s p), s1)" "unpin p False s1 = (Inr (), s2)" "calm H W s s2"
  have body: "parse_page (view s p) 0 = Inr (node_body (map pid ts) ks)" and len: "length (map pid ts) = Suc (length ks)"
    and ok: "\<forall>q \<in> set (map pid ts). q < 2 ^ 32" "\<forall>k \<in> set ks. rowid_ok k" using st by auto
  have "sorted ks" using node_seps_sorted [OF _ srt] len by (simp add: strict_sorted_imp_sorted)
  note D = node_slot_child [OF len ok this, of key]
  have "scan_slot ks key < length ts" using scan_slot_le [of ks key] len by simp
  then have "find_leaf_step key (p, path) s = (Inr (Continue (pid (ts ! scan_slot ks key), path @ [(p, scan_slot ks key)])), s2)"
    using g(1,2) by (simp add: find_leaf_step_def bind_op_def finally_op_def lift_res_def ret_def body D)
  then show ?thesis using g(3) by blast
qed

lemma leaf_slot:
  assumes st: "stored v (TLeaf p rows)" and srt: "sorted_wrt (<) (flat (TLeaf p rows))"
  shows "leaf_slot_lower_bound (leaf_body rows) key = Inr (scan_slot (map fst rows) key)" and "sorted (map fst rows)"
    and "map_res leaf_key (pb_cells (leaf_body rows)) = Inr (map fst rows)"
proof -
  have "sorted_wrt (\<lambda>r r'. 2 * fst r < 2 * fst r') rows" using srt by (simp add: sorted_wrt_map)
  then have "sorted_wrt (\<lambda>r r'. fst r \<le> fst r') rows" by (rule sorted_wrt_mono_rel [rotated]) simp
  then show srt': "sorted (map fst rows)" by (simp add: sorted_wrt_map)
  show k: "map_res leaf_key (pb_cells (leaf_body rows)) = Inr (map fst rows)" using leaf_keys [OF stored_rows_ok [OF st]] by simp
  show "leaf_slot_lower_bound (leaf_body rows) key = Inr (scan_slot (map fst rows) key)" by (rule leaf_slot_scan [OF k srt'])
qed

lemma find_leaf_leaf:
  assumes s: "held H W s" and cap: "size H + 1 < bp_capacity s" and st: "stored (view s) (TLeaf p rows)"
    and p: "p \<in> live_pages s" and srt: "sorted_wrt (<) (flat (TLeaf p rows))"
  shows "\<exists>s'. find_leaf_step key (p, path) s = (Inr (Return (path @ [(p, scan_slot (map fst rows) key)])), s') \<and> calm H W s s'"
proof (rule peek_page [OF s cap p])
  fix s1 s2
  assume g: "get_page p s = (Inr (view s p), s1)" "unpin p False s1 = (Inr (), s2)" "calm H W s s2"
  have body: "parse_page (view s p) 0 = Inr (leaf_body rows)" using st by simp
  have "find_leaf_step key (p, path) s = (Inr (Return (path @ [(p, scan_slot (map fst rows) key)])), s2)"
    using g(1,2) leaf_slot(1) [OF st srt, of key]
    by (simp add: find_leaf_step_def bind_op_def finally_op_def lift_res_def ret_def body)
  then show ?thesis using g(3) by blast
qed

text \<open>The child a descent enters: part of the tree, in order, and its pages in use.\<close>

lemma child_facts:
  assumes "stored v (TNode p ts ks)" and "sorted_wrt (<) (flat (TNode p ts ks))" and "t \<in> set ts"
  shows "stored v t" and "set (pages_of t) \<subseteq> set (pages_of (TNode p ts ks))" and "sorted_wrt (<) (flat t)"
proof -
  show "stored v t" "set (pages_of t) \<subseteq> set (pages_of (TNode p ts ks))" using assms(1,3) by auto
  obtain i where i: "i < length ts" "t = ts ! i" using assms(3) by (auto simp: in_set_conv_nth)
  have len: "length ts = Suc (length ks)" using assms(1) by simp
  note F = slot_frame_fill [OF i(1) len, of p]
  have "sorted_wrt (<) (flat_left (slot_frame i p ts ks) @ flat t @ flat_right (slot_frame i p ts ks))"
    using flat_fill [OF F(2), of t] F(1) assms(2) i(2) by simp
  then show "sorted_wrt (<) (flat t)" by (simp add: sorted_wrt_append)
qed

lemma find_leaf_loop:
  assumes "held H W s" and "size H + 1 < bp_capacity s" and "stored (view s) t" and "set (pages_of t) \<subseteq> live_pages s"
    and "sorted_wrt (<) (flat t)"
  shows "\<exists>fs q rows s'. loop_op (find_leaf_step key) (pid t, path) s
      = Some (Inr (path @ map frame_entry fs @ [(q, scan_slot (map fst rows) key)]), s')
    \<and> t = plug fs (TLeaf q rows) \<and> (\<forall>f \<in> set fs. frame_wf f) \<and> (\<forall>x \<in> set (ctx_left fs). x < 2 * key)
    \<and> (\<forall>x \<in> set (ctx_right fs). 2 * key < x) \<and> calm H W s s'"
  using assms
proof (induction t arbitrary: s path)
  case (TLeaf q rows)
  have "q \<in> live_pages s" using TLeaf.prems(4) by simp
  from find_leaf_leaf [OF TLeaf.prems(1-3) this TLeaf.prems(5), of key path] obtain s' where
    "find_leaf_step key (q, path) s = (Inr (Return (path @ [(q, scan_slot (map fst rows) key)])), s')" "calm H W s s'" by blast
  then show ?case
    by (intro exI [of _ "[]"] exI [of _ q] exI [of _ rows] exI [of _ s']) (simp add: loop_op_return)
next
  case (TNode p ts ks)
  let ?i = "scan_slot ks key"
  have len: "length ts = Suc (length ks)" using TNode.prems(3) by simp
  have i: "?i < length ts" using scan_slot_le [of ks key] len by simp
  have "p \<in> live_pages s" using TNode.prems(4) by simp
  from find_leaf_node [OF TNode.prems(1-3) this TNode.prems(5), of key path] obtain s1 where
    s1: "find_leaf_step key (p, path) s = (Inr (Continue (pid (ts ! ?i), path @ [(p, ?i)])), s1)" "calm H W s s1" by blast
  have c1: "held H W s1" "size H + 1 < bp_capacity s1" "view s1 = view s" "live_pages s1 = live_pages s"
    using s1(2) TNode.prems(2) by (simp_all add: calm_def frame_def)
  note C = child_facts [OF TNode.prems(3,5) nth_mem [OF i]]
  have "stored (view s1) (ts ! ?i)" "set (pages_of (ts ! ?i)) \<subseteq> live_pages s1" using C(1,2) c1(3,4) TNode.prems(4) by auto
  from TNode.IH [OF nth_mem [OF i] c1(1,2) this C(3), of "path @ [(p, ?i)]"] obtain fs q rows s' where
    IH: "loop_op (find_leaf_step key) (pid (ts ! ?i), path @ [(p, ?i)]) s1
      = Some (Inr ((path @ [(p, ?i)]) @ map frame_entry fs @ [(q, scan_slot (map fst rows) key)]), s')"
    "ts ! ?i = plug fs (TLeaf q rows)" "\<forall>f \<in> set fs. frame_wf f" "\<forall>x \<in> set (ctx_left fs). x < 2 * key"
    "\<forall>x \<in> set (ctx_right fs). 2 * key < x" "calm H W s1 s'" by blast
  note F = slot_frame_fill [OF i len, of p] slot_frame_order [OF len TNode.prems(5) refl, of key]
  show ?case
    by (rule exI [of _ "slot_frame ?i p ts ks # fs"], rule exI [of _ q], rule exI [of _ rows], rule exI [of _ s'])
      (use IH F s1(1) calm_trans [OF s1(2) IH(6)] in \<open>auto simp: loop_op_continue\<close>)
qed

section \<open>Searching\<close>

text \<open>The b-tree of height \<open>h\<close> rooted at page \<open>root\<close>.\<close>

definition table_tree :: "pool \<Rightarrow> nat \<Rightarrow> nat \<Rightarrow> ttree \<Rightarrow> bool" where
  "table_tree s root h t \<longleftrightarrow> pid t = root \<and> stored (view s) t \<and> distinct (pages_of t) \<and> set (pages_of t) \<subseteq> live_pages s
     \<and> sorted_wrt (<) (flat t) \<and> shaped h t"

text \<open>The keys around the hole of a context are not the key of the descent.\<close>

lemma rows_ctx_keys:
  assumes "stored v (plug fs t)" and "\<forall>f \<in> set fs. frame_wf f" and "\<forall>x \<in> set (ctx_left fs). x < 2 * key"
    and "\<forall>x \<in> set (ctx_right fs). 2 * key < x"
  shows "r \<in> set (ctx_rows_left fs) \<Longrightarrow> fst r < key" and "r \<in> set (ctx_rows_right fs) \<Longrightarrow> key < fst r"
proof -
  have even: "2 * fst r \<in> set (before_seps (map flat ts) ks)"
    if "r \<in> set (concat (map rows_of ts))" "\<forall>t \<in> set ts. stored v t" "length ts = length ks" for ts ks
    using that(3,1,2)
  proof (induction ts ks rule: list_induct2)
    case (Cons t ts k ks)
    then show ?case using rows_flat_even [of v t r] by (auto simp: before_seps_def)
  qed simp
  have even': "2 * fst r \<in> set (after_seps ks (map flat ts))"
    if "r \<in> set (concat (map rows_of ts))" "\<forall>t \<in> set ts. stored v t" "length ts = length ks" for ts ks
    using that(3,1,2)
  proof (induction ts ks rule: list_induct2)
    case (Cons t ts k ks)
    then show ?case using rows_flat_even [of v t r] by (auto simp: after_seps_def)
  qed simp
  have fr: "(r \<in> set (rows_left f) \<longrightarrow> 2 * fst r \<in> set (flat_left f)) \<and> (r \<in> set (rows_right f) \<longrightarrow> 2 * fst r \<in> set (flat_right f))"
    if f: "f \<in> set fs" for f
  proof (cases f)
    case (Frame p ls kl kr rs)
    have "stored_ctx v fs (pid t)" using assms(1) by (simp add: stored_plug)
    from stored_ctx_wf [OF this f] have "\<forall>t \<in> set (ls @ rs). stored v t" by (auto simp: Frame)
    moreover have "length ls = length kl" "length rs = length kr" using assms(2) f by (auto simp: Frame)
    ultimately show ?thesis using even [of ls kl] even' [of rs kr] by (simp add: Frame)
  qed
  show "fst r < key" if "r \<in> set (ctx_rows_left fs)"
  proof -
    from that obtain f where "f \<in> set fs" "r \<in> set (rows_left f)" by (auto simp: ctx_rows_left_def)
    then have "2 * fst r \<in> set (ctx_left fs)" using fr by (auto simp: ctx_left_def)
    then show ?thesis using assms(3) by auto
  qed
  show "key < fst r" if "r \<in> set (ctx_rows_right fs)"
  proof -
    from that obtain f where "f \<in> set fs" "r \<in> set (rows_right f)" by (auto simp: ctx_rows_right_def)
    then have "2 * fst r \<in> set (ctx_right fs)" using fr by (auto simp: ctx_right_def)
    then show ?thesis using assms(4) by auto
  qed
qed

lemma search_node:
  assumes s: "held H W s" and cap: "size H + 1 < bp_capacity s" and st: "stored (view s) (TNode p ts ks)"
    and p: "p \<in> live_pages s" and srt: "sorted_wrt (<) (flat (TNode p ts ks))"
  shows "\<exists>s'. search_step key p s = (Inr (Continue (pid (ts ! scan_slot ks key))), s') \<and> calm H W s s'"
proof (rule peek_page [OF s cap p])
  fix s1 s2
  assume g: "get_page p s = (Inr (view s p), s1)" "unpin p False s1 = (Inr (), s2)" "calm H W s s2"
  have body: "parse_page (view s p) 0 = Inr (node_body (map pid ts) ks)" and len: "length (map pid ts) = Suc (length ks)"
    and ok: "\<forall>q \<in> set (map pid ts). q < 2 ^ 32" "\<forall>k \<in> set ks. rowid_ok k" using st by auto
  have "sorted ks" using node_seps_sorted [OF _ srt] len by (simp add: strict_sorted_imp_sorted)
  note D = node_slot_child [OF len ok this, of key]
  have "scan_slot ks key < length ts" using scan_slot_le [of ks key] len by simp
  then have "search_step key p s = (Inr (Continue (pid (ts ! scan_slot ks key))), s2)"
    using g(1,2) by (simp add: search_step_def bind_op_def lift_res_def ret_def body D)
  then show ?thesis using g(3) by blast
qed

lemma search_leaf:
  assumes s: "held H W s" and cap: "size H + 1 < bp_capacity s" and st: "stored (view s) (TLeaf p rows)"
    and p: "p \<in> live_pages s" and srt: "sorted_wrt (<) (flat (TLeaf p rows))"
  shows "\<exists>r s'. search_step key p s = (Inr (Return (map_option (\<lambda>i. (p, i)) r)), s') \<and> calm H W s s'
    \<and> (case r of None \<Rightarrow> key \<notin> fst ` set rows | Some i \<Rightarrow> i < length rows \<and> fst (rows ! i) = key)"
proof (rule peek_page [OF s cap p])
  fix s1 s2
  assume g: "get_page p s = (Inr (view s p), s1)" "unpin p False s1 = (Inr (), s2)" "calm H W s s2"
  have body: "parse_page (view s p) 0 = Inr (leaf_body rows)" using st by simp
  note L = leaf_slot(2,3) [OF st srt]
  have "\<exists>r. binary_search_leaf (leaf_body rows) key = Inr r
      \<and> (case r of None \<Rightarrow> key \<notin> set (map fst rows) | Some i \<Rightarrow> i < length (map fst rows) \<and> map fst rows ! i = key)"
    unfolding binary_search_leaf_def using L by (intro binary_search_loop_scan) auto
  then obtain r where r: "binary_search_leaf (leaf_body rows) key = Inr r"
    "case r of None \<Rightarrow> key \<notin> set (map fst rows) | Some i \<Rightarrow> i < length (map fst rows) \<and> map fst rows ! i = key" by blast
  have "search_step key p s = (Inr (Return (map_option (\<lambda>i. (p, i)) r)), s2)"
    using g(1,2) r(1) by (simp add: search_step_def bind_op_def lift_res_def ret_def body)
  moreover have "case r of None \<Rightarrow> key \<notin> fst ` set rows | Some i \<Rightarrow> i < length rows \<and> fst (rows ! i) = key"
    using r(2) by (auto split: option.splits)
  ultimately show ?thesis using g(3) by blast
qed

lemma search_loop:
  assumes "held H W s" and "size H + 1 < bp_capacity s" and "stored (view s) t" and "set (pages_of t) \<subseteq> live_pages s"
    and "sorted_wrt (<) (flat t)"
  shows "\<exists>r s'. loop_op (search_step key) (pid t) s = Some (Inr r, s') \<and> calm H W s s'
    \<and> (case r of None \<Rightarrow> key \<notin> fst ` set (rows_of t)
        | Some (p, i) \<Rightarrow> \<exists>fs rows. t = plug fs (TLeaf p rows) \<and> i < length rows \<and> fst (rows ! i) = key)"
  using assms
proof (induction t arbitrary: s)
  case (TLeaf q rows)
  have "q \<in> live_pages s" using TLeaf.prems(4) by simp
  from search_leaf [OF TLeaf.prems(1-3) this TLeaf.prems(5), of key] obtain r s' where
    r: "search_step key q s = (Inr (Return (map_option (\<lambda>i. (q, i)) r)), s')" "calm H W s s'"
    "case r of None \<Rightarrow> key \<notin> fst ` set rows | Some i \<Rightarrow> i < length rows \<and> fst (rows ! i) = key" by blast
  have "\<exists>fs rows'. TLeaf q rows = plug fs (TLeaf q rows') \<and> i < length rows' \<and> fst (rows' ! i) = key"
    if "r = Some i" for i using r(3) that by (intro exI [of _ "[]"] exI [of _ rows]) simp
  with r show ?case by (cases r) (auto simp: loop_op_return)
next
  case (TNode p ts ks)
  let ?i = "scan_slot ks key"
  have len: "length ts = Suc (length ks)" using TNode.prems(3) by simp
  have i: "?i < length ts" using scan_slot_le [of ks key] len by simp
  have "p \<in> live_pages s" using TNode.prems(4) by simp
  from search_node [OF TNode.prems(1-3) this TNode.prems(5), of key] obtain s1 where
    s1: "search_step key p s = (Inr (Continue (pid (ts ! ?i))), s1)" "calm H W s s1" by blast
  have c1: "held H W s1" "size H + 1 < bp_capacity s1" "view s1 = view s" "live_pages s1 = live_pages s"
    using s1(2) TNode.prems(2) by (simp_all add: calm_def frame_def)
  note C = child_facts [OF TNode.prems(3,5) nth_mem [OF i]]
  have "stored (view s1) (ts ! ?i)" "set (pages_of (ts ! ?i)) \<subseteq> live_pages s1" using C(1,2) c1(3,4) TNode.prems(4) by auto
  from TNode.IH [OF nth_mem [OF i] c1(1,2) this C(3)] obtain r s' where
    IH: "loop_op (search_step key) (pid (ts ! ?i)) s1 = Some (Inr r, s')" "calm H W s1 s'"
    and r: "case r of None \<Rightarrow> key \<notin> fst ` set (rows_of (ts ! ?i))
      | Some (p, i) \<Rightarrow> \<exists>fs rows. ts ! ?i = plug fs (TLeaf p rows) \<and> i < length rows \<and> fst (rows ! i) = key" by blast
  let ?f = "slot_frame ?i p ts ks"
  note F = slot_frame_fill [OF i len, of p] slot_frame_order [OF len TNode.prems(5) refl, of key]
  have pl: "TNode p ts ks = plug [?f] (ts ! ?i)" using F(1) by simp
  have out: "fst r' \<noteq> key" if "r' \<in> set (ctx_rows_left [?f]) \<or> r' \<in> set (ctx_rows_right [?f])" for r'
  proof -
    have st: "stored (view s) (plug [?f] (ts ! ?i))" using TNode.prems(3) by (simp only: pl [symmetric])
    have "\<forall>f \<in> set [?f]. frame_wf f" "\<forall>x \<in> set (ctx_left [?f]). x < 2 * key" "\<forall>x \<in> set (ctx_right [?f]). 2 * key < x"
      using F(2,4,5) by simp_all
    note K = rows_ctx_keys [OF st this, of r']
    from that show ?thesis using K by blast
  qed
  have "case r of None \<Rightarrow> key \<notin> fst ` set (rows_of (TNode p ts ks))
      | Some (q, i) \<Rightarrow> \<exists>fs rows. TNode p ts ks = plug fs (TLeaf q rows) \<and> i < length rows \<and> fst (rows ! i) = key"
  proof (cases r)
    case None
    then show ?thesis using r out unfolding pl rows_plug by auto
  next
    case (Some qi)
    then obtain q j fs rows where "qi = (q, j)" "ts ! ?i = plug fs (TLeaf q rows)" "j < length rows" "fst (rows ! j) = key"
      using r by (cases qi) auto
    moreover from this F(1) have "TNode p ts ks = plug (?f # fs) (TLeaf q rows)" by simp
    ultimately show ?thesis using Some by (simp only: option.case prod.case) blast
  qed
  with IH s1 show ?case by (auto simp: loop_op_continue intro: calm_trans)
qed

end
