(* ===== verification/TreeWrite.thy ===== *)
theory TreeWrite
  imports TreeSearch
begin

text \<open>
  Writing tree pages: storing a page body through the pool, allocating and filling a page, and the
  two ways a separator is taken into an interior page, in place or by splitting it.
\<close>

section \<open>Page bodies\<close>

lemma used_bytes_footprint: "used_bytes b = pb_header_offset b + header_size (pb_type b) + footprint (pb_cells b)"
proof -
  have "2 * length cs + sum_list (map length cs) = footprint cs" for cs :: "bytes list"
    by (induction cs) simp_all
  from this [of "pb_cells b"] show ?thesis by (simp add: used_bytes_def cell_count_def)
qed

lemma used_bytes_node: "used_bytes (node_body ps ks) = 12 + footprint (map2 node_cell ps ks)"
  by (simp add: used_bytes_footprint header_size_eq is_leaf_def)

lemma used_bytes_leaf: "used_bytes (leaf_body rows) = 8 + footprint (map leaf_cell rows)"
  by (simp add: used_bytes_footprint header_size_eq is_leaf_def)

lemma fits_footprint: "fits b n \<longleftrightarrow> pb_header_offset b + header_size (pb_type b) + footprint (pb_cells b) + n + 2 \<le> PAGE_SIZE"
  by (auto simp: fits_def free_bytes_def used_bytes_footprint)

lemma page_ok_body:
  "used_bytes (leaf_body rows) \<le> PAGE_SIZE \<Longrightarrow> page_ok (leaf_body rows)"
  "used_bytes (node_body ps ks) \<le> PAGE_SIZE \<Longrightarrow> last ps < 2 ^ 32 \<Longrightarrow> page_ok (node_body ps ks)"
  by (simp_all add: page_ok_def is_leaf_def)

lemma serialize_parse:
  assumes "page_ok body" and "pb_header_offset body = 0"
  obtains d where "serialize_page body = Inr d" and "parse_page d 0 = Inr body" and "length d = PAGE_SIZE"
proof -
  obtain d where d: "serialize_page body = Inr d" using serialize_page_defined [OF assms(1)] by blast
  then have "parse_page d (pb_header_offset body) = Inr body"
    using assms(1) by (intro parse_serialize_page) (simp_all add: page_ok_def)
  with that d assms(2) serialize_page_length [OF d] show ?thesis by simp
qed

lemma put_body_held:
  assumes s: "held H W s" and p: "p \<in> W" and ok: "page_ok body" "pb_header_offset body = 0"
  obtains d s' where "put_body p body s = (Inr (), s')" and "held H W s'" and "view s' = (view s)(p := d)"
    and "parse_page d 0 = Inr body" and "live_pages s' = live_pages s" and "spare_pages s' = spare_pages s" and "frame s s'"
proof (rule serialize_parse [OF ok])
  fix d
  assume d: "serialize_page body = Inr d" "parse_page d 0 = Inr body" "length d = PAGE_SIZE"
  show ?thesis
    by (rule store_page_held [OF s p d(3)]) (use that d in \<open>simp add: put_body_def\<close>)
qed

text \<open>\<^verbatim>\<open>with pool.pinned_for_write(p) as raw: raw[:] = serialize_page(body)\<close>.\<close>

lemma pinned_overwrite_held:
  assumes s: "held H W s" and p: "p \<in> live_pages s" and cap: "size H + 1 < bp_capacity s"
    and ok: "page_ok body" "pb_header_offset body = 0"
  obtains d s' where "pinned_for_write p (overwrite body) s = (Inr (), s')" and "held H W s'" and "view s' = (view s)(p := d)"
    and "parse_page d 0 = Inr body" and "live_pages s' = live_pages s" and "spare_pages s' = spare_pages s" and "frame s s'"
proof (rule serialize_parse [OF ok])
  fix d
  assume d: "serialize_page body = Inr d" "parse_page d 0 = Inr body" "length d = PAGE_SIZE"
  show ?thesis
  proof (rule get_page_for_write_held [OF s p cap])
    fix s1
    assume g: "get_page_for_write p s = (Inr (view s p), s1)" "held (add_mset p H) (insert p W) s1" "view s1 = view s"
      "live_pages s1 = live_pages s" "spare_pages s1 = spare_pages s" "frame s s1"
    show ?thesis
    proof (rule store_page_held [OF g(2) insertI1 d(3)])
      fix s2
      assume st: "store_page p d s1 = (Inr (), s2)" "held (add_mset p H) (insert p W) s2" "view s2 = (view s1)(p := d)"
        "live_pages s2 = live_pages s1" "spare_pages s2 = spare_pages s1" "frame s1 s2"
      show ?thesis
      proof (rule unpin_held [OF st(2), of p])
        fix s3
        assume u: "unpin p False s2 = (Inr (), s3)" "held (add_mset p H - {#p#}) (insert p W \<inter> set_mset (add_mset p H - {#p#})) s3"
          "view s3 = view s2" "live_pages s3 = live_pages s2" "spare_pages s3 = spare_pages s2" "frame s2 s3"
        have "held H W s3" using u(2) heldD(8) [OF s] by (auto simp: held_def intro: steady_mono)
        moreover have "pinned_for_write p (overwrite body) s = (Inr (), s3)"
          using g(1) st(1) u(1) by (simp add: pinned_for_write_def overwrite_def d(1) bind_op_def finally_op_def lift_res_def)
        ultimately show ?thesis
          using that d(2) g(3-6) st(3-6) u(3-6) frame_trans [OF g(6) frame_trans [OF st(6) u(6)]] by simp
      qed simp
    qed
  qed
qed

text \<open>
  What a step may do: of the pages in use it writes only those in \<open>A\<close>, it takes at most \<open>n\<close> pages, it
  keeps the rollback point, and it leaves \<open>H\<close> pinned, \<open>W\<close> for writing.
\<close>

definition touches :: "nat multiset \<Rightarrow> nat set \<Rightarrow> nat \<Rightarrow> nat set \<Rightarrow> pool \<Rightarrow> pool \<Rightarrow> bool" where
  "touches H W n A s s' \<longleftrightarrow> held H W s' \<and> txn_frame s s' \<and> live_pages s \<subseteq> live_pages s' \<and> spare_pages s \<le> spare_pages s' + n
     \<and> (\<forall>q \<in> live_pages s - A. view s' q = view s q)"

lemma touchesD:
  assumes "touches H W n A s s'"
  shows "held H W s'" and "txn_frame s s'" and "live_pages s \<subseteq> live_pages s'" and "spare_pages s \<le> spare_pages s' + n"
    and "bp_capacity s' = bp_capacity s" and "q \<in> live_pages s \<Longrightarrow> q \<notin> A \<Longrightarrow> view s' q = view s q"
  using assms by (auto simp: touches_def txn_frame_def)

lemma touches_trans:
  assumes "touches H W n A s s'" and "touches H' W' m B s' s''" and "A \<subseteq> C" and "B \<inter> live_pages s \<subseteq> C" and "n + m \<le> k"
  shows "touches H' W' k C s s''"
proof -
  note D = touchesD [OF assms(1)] note E = touchesD [OF assms(2)]
  have "view s'' q = view s q" if "q \<in> live_pages s - C" for q
  proof -
    have "q \<notin> A" "q \<notin> B" "q \<in> live_pages s'" using that assms(3,4) D(3) by auto
    then show ?thesis using D(6) E(6) that by simp
  qed
  then show ?thesis using D E txn_frame_trans [OF D(2) E(2)] assms(5) by (auto simp: touches_def)
qed

definition page_holds :: "(nat \<Rightarrow> bytes) \<Rightarrow> nat \<Rightarrow> page_body \<Rightarrow> bool" where
  "page_holds v p body \<longleftrightarrow> parse_page (v p) 0 = Inr body \<and> used_bytes body \<le> PAGE_SIZE"

lemma page_holds_touches:
  "touches H W n A s s' \<Longrightarrow> p \<in> live_pages s \<Longrightarrow> p \<notin> A \<Longrightarrow> page_holds (view s') p body = page_holds (view s) p body"
  by (simp add: page_holds_def touchesD(6))

lemma stored_touches:
  "touches H W n A s s' \<Longrightarrow> set (pages_of t) \<subseteq> live_pages s - A \<Longrightarrow> stored (view s') t = stored (view s) t"
  by (rule stored_cong) (auto simp: touchesD(6))

lemma put_body_touches:
  assumes s: "held H W s" and p: "p \<in> W" and ok: "page_ok body" "pb_header_offset body = 0"
  shows "\<exists>s'. put_body p body s = (Inr (), s') \<and> touches H W 0 {p} s s' \<and> live_pages s' = live_pages s
    \<and> page_holds (view s') p body"
proof (rule put_body_held [OF assms])
  fix d s'
  assume w: "put_body p body s = (Inr (), s')" "held H W s'" "view s' = (view s)(p := d)" "parse_page d 0 = Inr body"
    "live_pages s' = live_pages s" "spare_pages s' = spare_pages s" "frame s s'"
  then show ?thesis using ok frame_txn_frame [OF w(7)] by (auto simp: touches_def page_holds_def page_ok_def)
qed

lemma new_page_touches:
  assumes s: "held H W s" and sp: "0 < spare_pages s" and cap: "size H + 1 < bp_capacity s"
    and ok: "page_ok body" "pb_header_offset body = 0"
  shows "\<exists>p s1 s'. allocate_page s = (Inr p, s1) \<and> pinned_for_write p (overwrite body) s1 = (Inr (), s') \<and> touches H W 1 {} s s'
    \<and> p \<notin> live_pages s \<and> p < 2 ^ 32 \<and> live_pages s' = insert p (live_pages s) \<and> page_holds (view s') p body"
proof -
  from allocate_page_held [OF s sp] obtain p s1 where a: "allocate_page s = (Inr p, s1)" "held H W s1" "p \<notin> live_pages s"
    "live_pages s1 = insert p (live_pages s)" "spare_pages s1 + 1 = spare_pages s"
    "\<forall>q \<in> live_pages s. view s1 q = view s q" "txn_frame s s1" by blast
  have p1: "p \<in> live_pages s1" using a(4) by simp
  have cap1: "size H + 1 < bp_capacity s1" using cap a(7) by (simp add: txn_frame_def)
  show ?thesis
  proof (rule pinned_overwrite_held [OF a(2) p1 cap1 ok])
    fix d s'
    assume w: "pinned_for_write p (overwrite body) s1 = (Inr (), s')" "held H W s'" "view s' = (view s1)(p := d)"
      "parse_page d 0 = Inr body" "live_pages s' = live_pages s1" "spare_pages s' = spare_pages s1" "frame s1 s'"
    have "view s' q = view s q" if "q \<in> live_pages s" for q using that a(3,6) w(3) by auto
    moreover have "p < 2 ^ 32" using held_store.live_range [OF a(2) p1] by simp
    ultimately show ?thesis
      using w a ok(1) txn_frame_trans [OF a(7) frame_txn_frame [OF w(7)]] by (auto simp: touches_def page_holds_def page_ok_def)
  qed
qed

text \<open>Pinning a page for writing, and giving the pin up.\<close>

lemma acquire:
  assumes s: "held H W s" and p: "p \<in> live_pages s" and cap: "size H + 1 < bp_capacity s"
  obtains s1 where "get_page_for_write p s = (Inr (view s p), s1)" and "touches (add_mset p H) (insert p W) 0 {} s s1"
    and "held (add_mset p H) (insert p W) s1" and "view s1 = view s" and "live_pages s1 = live_pages s" and "spare_pages s1 = spare_pages s"
    and "bp_capacity s1 = bp_capacity s"
proof (rule get_page_for_write_held [OF assms])
  fix s1
  assume g: "get_page_for_write p s = (Inr (view s p), s1)" "held (add_mset p H) (insert p W) s1" "view s1 = view s"
    "live_pages s1 = live_pages s" "spare_pages s1 = spare_pages s" "frame s s1"
  with that show ?thesis using frame_txn_frame [OF g(6)] by (simp add: touches_def frame_def)
qed

lemma release:
  assumes sub: "W \<subseteq> set_mset H" and t: "touches (add_mset p H) (insert p W) n A s s2"
  obtains s3 where "unpin p False s2 = (Inr (), s3)" and "touches H W n A s s3" and "view s3 = view s2" and "live_pages s3 = live_pages s2"
proof (rule unpin_held [OF touchesD(1) [OF t], of p])
  fix s3
  assume u: "unpin p False s2 = (Inr (), s3)" "held (add_mset p H - {#p#}) (insert p W \<inter> set_mset (add_mset p H - {#p#})) s3"
    "view s3 = view s2" "live_pages s3 = live_pages s2" "spare_pages s3 = spare_pages s2" "frame s2 s3"
  have "held H W s3" using u(2) sub by (auto simp: held_def intro: steady_mono)
  then have "touches H W n A s s3"
    using t u(3-5) txn_frame_trans [OF touchesD(2) [OF t] frame_txn_frame [OF u(6)]] by (simp add: touches_def)
  then show ?thesis using that u by blast
qed simp

text \<open>A block that works on a page it pins for writing: \<^verbatim>\<open>raw = get_page_for_write(p); try: ... finally: unpin(p)\<close>.\<close>

lemma write_block:
  assumes s: "held H W s" and p: "p \<in> live_pages s" and cap: "size H + 1 < bp_capacity s" and body: "page_holds (view s) p body"
    and run: "\<And>s1. held (add_mset p H) (insert p W) s1 \<Longrightarrow> view s1 = view s \<Longrightarrow> live_pages s1 = live_pages s
      \<Longrightarrow> spare_pages s1 = spare_pages s \<Longrightarrow> bp_capacity s1 = bp_capacity s
      \<Longrightarrow> \<exists>x s2. m body s1 = (x, s2) \<and> touches (add_mset p H) (insert p W) n A s1 s2 \<and> Q x (view s2) (live_pages s2)"
  shows "\<exists>x s'. bind_op (get_page_for_write p) (\<lambda>raw. finally_op (bind_op (lift_res (parse_page raw 0)) m) (unpin p False)) s = (x, s')
    \<and> touches H W n A s s' \<and> Q x (view s') (live_pages s')"
proof (rule acquire [OF s p cap])
  fix s1
  assume g: "get_page_for_write p s = (Inr (view s p), s1)" "touches (add_mset p H) (insert p W) 0 {} s s1"
    "held (add_mset p H) (insert p W) s1" "view s1 = view s" "live_pages s1 = live_pages s" "spare_pages s1 = spare_pages s"
    "bp_capacity s1 = bp_capacity s"
  from run [OF g(3-7)] obtain x s2 where r: "m body s1 = (x, s2)" "touches (add_mset p H) (insert p W) n A s1 s2"
    "Q x (view s2) (live_pages s2)" by blast
  have "touches (add_mset p H) (insert p W) n A s s2" by (rule touches_trans [OF g(2) r(2)]) auto
  with heldD(8) [OF s] show ?thesis
  proof (rule release)
    fix s3
    assume u: "unpin p False s2 = (Inr (), s3)" "touches H W n A s s3" "view s3 = view s2" "live_pages s3 = live_pages s2"
    have "bind_op (get_page_for_write p) (\<lambda>raw. finally_op (bind_op (lift_res (parse_page raw 0)) m) (unpin p False)) s = (x, s3)"
      using g(1) r(1) u(1) body by (simp add: bind_op_run finally_op_def page_holds_def)
    then show ?thesis using r(3) u(2-4) by auto
  qed
qed

section \<open>Taking a separator into a page\<close>

lemma node_cell_length_child: "p < 2 ^ 32 \<Longrightarrow> q < 2 ^ 32 \<Longrightarrow> length (node_cell p k) = length (node_cell q k)"
  using encode_node_cell [of p k] encode_node_cell [of q k]
  by (auto simp: encode_interior_table_cell_def bind_res_eq_Inr to_bytes_eq_Inr)
    (metis length_append length_be_encode)

lemma fits_node: "fits (node_body ps ks) n \<longleftrightarrow> footprint (map2 node_cell ps ks) + n + 2 \<le> PAGE_SIZE - 12"
  by (auto simp: fits_def free_bytes_def used_bytes_node PAGE_SIZE_def)

text \<open>The child \<open>q\<close> at the end of \<open>ls\<close> becomes \<open>l\<close> and \<open>r\<close> with the separator \<open>sep\<close> between them.\<close>

lemma map2_around:
  assumes "length ls = length kl"
  shows "map2 node_cell (ls @ xs) (kl @ ys) = map2 node_cell ls kl @ map2 node_cell xs ys"
    and "map2 node_cell (ls @ xs) kl = map2 node_cell ls kl"
  using assms by (simp_all add: zip_append1)

lemma link_child_node:
  assumes len: "length ls = length kl" "length rs = length kr" and ok: "\<forall>k \<in> set (kl @ kr). rowid_ok k"
    and ps: "q < 2 ^ 32" "l < 2 ^ 32" "r < 2 ^ 32" and fit: "fits (node_body (ls @ q # rs) (kl @ kr)) (length (node_cell l sep))"
  shows "link_child (length ls) (node_cell l sep) r (node_body (ls @ q # rs) (kl @ kr)) = Inr (node_body (ls @ [l, r] @ rs) (kl @ sep # kr))"
    and "used_bytes (node_body (ls @ [l, r] @ rs) (kl @ sep # kr)) \<le> PAGE_SIZE"
proof -
  let ?A = "map2 node_cell ls kl" and ?b = "node_body (ls @ q # rs) (kl @ kr)"
  have cells: "pb_cells ?b = ?A @ map2 node_cell (q # rs) kr" using len by simp
  have lenA: "length ?A = length ls" using len by simp
  show link: "link_child (length ls) (node_cell l sep) r ?b = Inr (node_body (ls @ [l, r] @ rs) (kl @ sep # kr))"
  proof (cases kr)
    case Nil
    then show ?thesis
      using len fit by (simp add: link_child_def insert_cell_def map2_around(2) node_body_def mk_page_def)
  next
    case (Cons k kr')
    then obtain r0 rs' where rs: "rs = r0 # rs'" using len by (cases rs) auto
    have get: "py_get (pb_cells ?b) (length ls) = Inr (node_cell q k)"
      using lenA unfolding cells by (simp add: py_get_def nth_append Cons)
    have set: "py_set (pb_cells ?b) (length ls) (node_cell r k) = Inr (?A @ map2 node_cell (r # rs) kr)"
      using lenA unfolding cells by (simp add: py_set_def list_update_append Cons)
    have dec: "decode_interior_table_cell (node_cell q k) = Inr (q, k)" using node_cell_decode [of q k] ps ok by (simp add: Cons)
    have enc: "encode_interior_table_cell r k = Inr (node_cell r k)" using encode_node_cell ps by simp
    have "footprint (?A @ map2 node_cell (r # rs) kr) = footprint (pb_cells ?b)"
      unfolding cells using node_cell_length_child [of r q k] ps by (simp add: Cons)
    then have "fits (?b\<lparr>pb_cells := ?A @ map2 node_cell (r # rs) kr\<rparr>) (length (node_cell l sep)) = fits ?b (length (node_cell l sep))"
      by (simp add: fits_footprint)
    then have "insert_cell (length ls) (node_cell l sep) (?b\<lparr>pb_cells := ?A @ map2 node_cell (r # rs) kr\<rparr>)
        = Inr (?b\<lparr>pb_cells := ?A @ node_cell l sep # map2 node_cell (r # rs) kr\<rparr>)"
      using fit lenA by (simp add: insert_cell_def)
    also have "?b\<lparr>pb_cells := ?A @ node_cell l sep # map2 node_cell (r # rs) kr\<rparr> = node_body (ls @ [l, r] @ rs) (kl @ sep # kr)"
      using len by (simp add: node_body_def mk_page_def rs)
    finally show ?thesis
      using len lenA get set dec enc by (simp add: link_child_def Cons)
  qed
  have "footprint (map2 node_cell (ls @ [l, r] @ rs) (kl @ sep # kr)) = footprint (map2 node_cell (ls @ q # rs) (kl @ kr)) + length (node_cell l sep) + 2"
    using len node_cell_length_child [of r q] ps by (cases kr) (auto simp: map2_around(2))
  then show "used_bytes (node_body (ls @ [l, r] @ rs) (kl @ sep # kr)) \<le> PAGE_SIZE"
    using fit unfolding fits_node used_bytes_node by (simp add: PAGE_SIZE_def)
qed

lemma combine_interior_node:
  assumes len: "length ls = length kl" "length rs = length kr" and ok: "\<forall>k \<in> set (kl @ kr). rowid_ok k"
    and ps: "\<forall>p \<in> set (ls @ q # rs). p < 2 ^ 32" "l < 2 ^ 32" "r < 2 ^ 32"
  shows "combine_interior (length ls) l sep r (node_cell l sep) (node_body (ls @ q # rs) (kl @ kr)) (kl @ kr) (butlast (ls @ q # rs))
    = Inr (map2 node_cell (ls @ [l, r] @ rs) (kl @ sep # kr), kl @ sep # kr, butlast (ls @ [l, r] @ rs), last (ls @ [l, r] @ rs))"
proof (cases kr)
  case Nil
  then show ?thesis using len by (simp add: combine_interior_def map2_around(2) butlast_append)
next
  case (Cons k kr')
  then obtain r0 rs' where rs: "rs = r0 # rs'" using len by (cases rs) auto
  have get: "py_get (kl @ kr) (length ls) = Inr k" using len by (simp add: py_get_def nth_append Cons)
  have enc: "encode_interior_table_cell r k = Inr (node_cell r k)" using encode_node_cell ps by simp
  show ?thesis
    using len get enc by (simp add: combine_interior_def Cons rs butlast_append)
qed

text \<open>Splitting an interior page at \<open>m\<close>.\<close>

lemma split_interior_node:
  assumes len: "length ps = Suc (length ks)" and n: "3 \<le> length ks"
  obtains m where "m < length ks" and "1 \<le> m" and "m + 1 < length ks"
    and "split_interior_cells (map2 node_cell ps ks) ks (butlast ps) (last ps) r
      = Inr (map2 node_cell (take (m + 1) ps) (take m ks), last (take (m + 1) ps), map2 node_cell (drop (m + 1) ps) (drop (m + 1) ks),
             last (drop (m + 1) ps), ks ! m)"
    and "r \<Longrightarrow> m = length ks - 2"
    and "\<not> r \<Longrightarrow> m = min (max (consume_closest_to_half_by_bytes (map2 node_cell ps ks)) 1) (length ks - 2)"
proof -
  let ?c = "map2 node_cell ps ks"
  define m where "m = (if r then length ks - 2 else min (max (consume_closest_to_half_by_bytes ?c) 1) (length ks - 2))"
  have lc: "length ?c = length ks" using len by simp
  have m: "1 \<le> m" "m + 1 < length ks" using n by (auto simp: m_def)
  have split_interior: "split_interior_cells ?c ks (butlast ps) (last ps) r
      = bind_res (py_get ks m) (\<lambda>sep. bind_res (py_get (butlast ps) m) (\<lambda>c. Inr (take m ?c, c, drop (m + 1) ?c, last ps, sep)))"
    unfolding split_interior_cells_def Let_def lc m_def using n by simp
  have "py_get (butlast ps) m = Inr (ps ! m)" "ps ! m = last (take (m + 1) ps)" "last ps = last (drop (m + 1) ps)"
    using m len by (simp_all add: py_get_def nth_butlast take_Suc_conv_app_nth)
  moreover have "take m ?c = map2 node_cell (take (m + 1) ps) (take m ks)" "drop (m + 1) ?c = map2 node_cell (drop (m + 1) ps) (drop (m + 1) ks)"
    using m len by (simp_all add: take_map take_zip drop_map drop_zip take_Suc_conv_app_nth map2_around(2))
  ultimately have "split_interior_cells ?c ks (butlast ps) (last ps) r
      = Inr (map2 node_cell (take (m + 1) ps) (take m ks), last (take (m + 1) ps), map2 node_cell (drop (m + 1) ps) (drop (m + 1) ks),
             last (drop (m + 1) ps), ks ! m)"
    unfolding split_interior using m by (simp add: py_get_def)
  with that m show ?thesis by (auto simp: m_def)
qed

end
