(* ===== verification/Promote.thy ===== *)
theory Promote
  imports TreeWrite
begin

text \<open>
  \<^verbatim>\<open>_promote_separator\<close>: a separator goes into the page above, which is split in turn when it has no
  room, up to a new root. The loop ends with the tree that holds the two halves, in the same order.
\<close>

section \<open>Both halves of a split interior page fit\<close>

lemma footprint_take_mono: "i \<le> j \<Longrightarrow> footprint (take i cs) \<le> footprint (take j cs)"
  using footprint_take_drop [of i "take j cs"] by (simp add: min_absorb1)

lemma footprint_bound: "\<forall>c \<in> set cs. length c + 2 \<le> b \<Longrightarrow> footprint cs \<le> b * length cs"
  by (induction cs) (auto simp: algebra_simps)

lemma node_cells_small: "\<forall>p \<in> set ps. p < 2 ^ 32 \<Longrightarrow> \<forall>c \<in> set (map2 node_cell ps ks). length c + 2 \<le> 15"
  using node_cell_length by (fastforce dest: set_zip_leftD)

text \<open>A combined page is over full by at most one cell; the byte-aware split point is then well inside it.\<close>

lemma interior_halves_fit:
  assumes small: "\<forall>c \<in> set cs. length c + 2 \<le> 15" and over: "4084 < footprint cs" and nearly: "footprint cs \<le> 4099"
    and m: "m = min (max (consume_closest_to_half_by_bytes cs) 1) (length cs - 2)"
  shows "footprint (take m cs) \<le> 4084" and "footprint (drop (m + 1) cs) \<le> 4084"
proof -
  let ?m = "consume_closest_to_half_by_bytes cs" and ?P = "\<lambda>k. footprint (take k cs)"
  have ne: "cs \<noteq> []" using over by auto
  have len: "272 < length cs" using footprint_bound [OF small] over by simp
  have lt: "?m < length cs" using consume_closest_least(1) ne by simp
  have step: "?P (Suc k) \<le> ?P k + 15" if "k < length cs" for k
    using small that nth_mem [OF that] by (fastforce simp: take_Suc_conv_app_nth)
  have bal: "\<bar>int (?P ?m) + int (?P (Suc ?m)) - int (footprint cs)\<bar> \<le> 15"
    using consume_closest_balanced [OF ne small] by (simp add: consume_imbalance_def)
  have "?m \<noteq> 0"
  proof
    assume "?m = 0"
    moreover from this have "?P (Suc ?m) \<le> 15" using step [of 0] ne by simp
    ultimately show False using bal over by simp
  qed
  moreover have "?m \<noteq> length cs - 1"
  proof
    assume eq: "?m = length cs - 1"
    then have "Suc ?m = length cs" using len by simp
    then have "?P (Suc ?m) = footprint cs" "footprint cs \<le> ?P ?m + 15" using step [OF lt] by simp_all
    then show False using bal over by linarith
  qed
  ultimately have mm: "m = ?m" using lt m by auto
  have "footprint (drop (m + 1) cs) + ?P (Suc ?m) = footprint cs" using footprint_take_drop [of "m + 1" cs] mm by simp
  moreover have "?P ?m \<le> ?P (Suc ?m)" by (rule footprint_take_mono) simp
  ultimately have "footprint (take m cs) \<le> 4084 \<and> footprint (drop (m + 1) cs) \<le> 4084"
    using bal nearly unfolding mm by linarith
  then show "footprint (take m cs) \<le> 4084" "footprint (drop (m + 1) cs) \<le> 4084" by simp_all
qed

text \<open>The page before the split, with the child \<open>q\<close> that became \<open>q\<close> and \<open>r\<close>.\<close>

lemma combined_size:
  assumes len: "length ls = length kl" "length rs = length kr" and ps: "\<forall>p \<in> set (ls @ [q, r] @ rs). p < 2 ^ 32"
    and used: "used_bytes (node_body (ls @ q # rs) (kl @ kr)) \<le> PAGE_SIZE"
    and full: "\<not> fits (node_body (ls @ q # rs) (kl @ kr)) (length (node_cell q sep))"
  defines "C \<equiv> map2 node_cell (ls @ [q, r] @ rs) (kl @ sep # kr)"
  shows "4084 < footprint C" and "footprint C \<le> 4099" and "\<forall>c \<in> set C. length c + 2 \<le> 15"
    and "kr = [] \<Longrightarrow> footprint (take (length C - 1) C) \<le> 4084"
proof -
  have q: "length (node_cell q sep) \<le> 13" using node_cell_length ps by simp
  have "footprint C = footprint (map2 node_cell (ls @ q # rs) (kl @ kr)) + length (node_cell q sep) + 2"
    unfolding C_def using len node_cell_length_child [of r q] ps by (cases kr) (auto simp: map2_around(2))
  with used full q show "4084 < footprint C" "footprint C \<le> 4099" by (simp_all add: used_bytes_node fits_node PAGE_SIZE_def)
  show "\<forall>c \<in> set C. length c + 2 \<le> 15" unfolding C_def using ps by (rule node_cells_small)
  show "footprint (take (length C - 1) C) \<le> 4084" if "kr = []"
    using that len used unfolding C_def by (simp add: used_bytes_node map2_around(2) PAGE_SIZE_def)
qed

lemma split_combined:
  assumes len: "length ls = length kl" "length rs = length kr" and ps: "\<forall>p \<in> set (ls @ [q, r] @ rs). p < 2 ^ 32"
    and used: "used_bytes (node_body (ls @ q # rs) (kl @ kr)) \<le> PAGE_SIZE"
    and full: "\<not> fits (node_body (ls @ q # rs) (kl @ kr)) (length (node_cell q sep))"
  defines "P \<equiv> ls @ [q, r] @ rs" and "K \<equiv> kl @ sep # kr"
  obtains m where "1 \<le> m" and "m + 1 < length K"
    and "split_interior_cells (map2 node_cell P K) K (butlast P) (last P) (length ls = length (map2 node_cell (ls @ q # rs) (kl @ kr)))
      = Inr (map2 node_cell (take (m + 1) P) (take m K), last (take (m + 1) P), map2 node_cell (drop (m + 1) P) (drop (m + 1) K),
             last (drop (m + 1) P), K ! m)"
    and "used_bytes (node_body (take (m + 1) P) (take m K)) \<le> PAGE_SIZE"
    and "used_bytes (node_body (drop (m + 1) P) (drop (m + 1) K)) \<le> PAGE_SIZE"
proof -
  let ?C = "map2 node_cell P K" and ?r = "length ls = length (map2 node_cell (ls @ q # rs) (kl @ kr))"
  note C = combined_size [OF len ps used full, folded P_def K_def]
  have PK: "length P = Suc (length K)" using len by (simp add: P_def K_def)
  then have lC: "length ?C = length K" by simp
  have n: "272 < length K" using footprint_bound [OF C(3)] C(1) lC by simp
  have r: "?r \<longleftrightarrow> kr = []" using len by (auto simp: length_0_conv)
  have "3 \<le> length K" using n by simp
  from PK this show ?thesis
  proof (rule split_interior_node [where r = ?r])
    fix m
    assume m: "m < length K" "1 \<le> m" "m + 1 < length K"
      and sp: "split_interior_cells ?C K (butlast P) (last P) ?r = Inr (map2 node_cell (take (m + 1) P) (take m K), last (take (m + 1) P),
          map2 node_cell (drop (m + 1) P) (drop (m + 1) K), last (drop (m + 1) P), K ! m)"
      and mr: "?r \<Longrightarrow> m = length K - 2" and mn: "\<not> ?r \<Longrightarrow> m = min (max (consume_closest_to_half_by_bytes ?C) 1) (length K - 2)"
    have tk: "map2 node_cell (take (m + 1) P) (take m K) = take m ?C" "map2 node_cell (drop (m + 1) P) (drop (m + 1) K) = drop (m + 1) ?C"
      using m PK by (simp_all add: take_map take_zip drop_map drop_zip take_Suc_conv_app_nth map2_around(2))
    have "footprint (take m ?C) \<le> 4084 \<and> footprint (drop (m + 1) ?C) \<le> 4084"
    proof (cases ?r)
      case True
      have "footprint (take m ?C) \<le> footprint (take (length ?C - 1) ?C)"
        using mr [OF True] lC by (intro footprint_take_mono) simp
      moreover have "\<forall>c \<in> set (drop (m + 1) ?C). length c + 2 \<le> 15" using C(3) in_set_dropD by fast
      then have "footprint (drop (m + 1) ?C) \<le> 15 * length (drop (m + 1) ?C)" by (rule footprint_bound)
      moreover have "length (drop (m + 1) ?C) = 1" using mr [OF True] n lC by simp
      ultimately show ?thesis using C(4) True r by simp
    next
      case False
      then show ?thesis using interior_halves_fit [OF C(3,1,2), of m] mn lC by simp
    qed
    then show ?thesis using that [OF m(2,3) sp] by (simp only: used_bytes_node tk) (simp add: PAGE_SIZE_def)
  qed
qed

section \<open>One round\<close>

text \<open>
  What a round leaves of a page \<open>p\<close> with children \<open>P\<close> and separators \<open>K\<close>: the page itself, its two
  halves with the separator between them still to be promoted, or a new root over the halves.
\<close>

inductive promoted :: "nat \<Rightarrow> nat \<Rightarrow> nat list \<Rightarrow> int list \<Rightarrow> nat set \<Rightarrow> (nat \<times> int \<times> nat) option \<Rightarrow> (nat \<Rightarrow> bytes) \<Rightarrow> nat set \<Rightarrow> bool"
  for level p P K L where
  in_place: "page_holds v p (node_body P K) \<Longrightarrow> promoted level p P K L None v L"
| halved: "0 < level \<Longrightarrow> 1 \<le> m \<Longrightarrow> m + 1 < length K \<Longrightarrow> np \<notin> L \<Longrightarrow> np < 2 ^ 32 \<Longrightarrow> page_holds v p (node_body (take (m + 1) P) (take m K))
    \<Longrightarrow> page_holds v np (node_body (drop (m + 1) P) (drop (m + 1) K)) \<Longrightarrow> promoted level p P K L (Some (p, K ! m, np)) v (insert np L)"
| new_root: "level = 0 \<Longrightarrow> 1 \<le> m \<Longrightarrow> m + 1 < length K \<Longrightarrow> nl \<notin> L \<Longrightarrow> nr \<notin> L \<Longrightarrow> nl \<noteq> nr \<Longrightarrow> nl < 2 ^ 32 \<Longrightarrow> nr < 2 ^ 32
    \<Longrightarrow> page_holds v nl (node_body (take (m + 1) P) (take m K)) \<Longrightarrow> page_holds v nr (node_body (drop (m + 1) P) (drop (m + 1) K))
    \<Longrightarrow> page_holds v p (node_body [nl, nr] [K ! m]) \<Longrightarrow> promoted level p P K L None v (insert nl (insert nr L))"

inductive_cases promotedE: "promoted level p P K L res v L'"

lemma mk_node: "mk_page INTERIOR_TABLE (map2 node_cell ps ks) (last ps) = node_body ps ks"
  by (simp add: node_body_def)

lemma used_root: "l < 2 ^ 32 \<Longrightarrow> used_bytes (node_body [l, r] [k]) \<le> PAGE_SIZE"
  using node_cell_length [of l k] by (simp add: used_bytes_node PAGE_SIZE_def)

lemma promote_body_spec:
  assumes s: "held H W s" and p: "p \<in> W" and cap: "size H + 1 < bp_capacity s" and sp: "2 \<le> spare_pages s"
    and len: "length ls = length kl" "length rs = length kr" and ps: "\<forall>p \<in> set (ls @ [q, r] @ rs). p < 2 ^ 32"
    and ks: "\<forall>k \<in> set (kl @ kr). rowid_ok k" and used: "used_bytes (node_body (ls @ q # rs) (kl @ kr)) \<le> PAGE_SIZE"
  shows "\<exists>res s'. promote_body level p (length ls) q sep r (node_body (ls @ q # rs) (kl @ kr)) s = (Inr res, s')
    \<and> touches H W 2 {p} s s' \<and> promoted level p (ls @ [q, r] @ rs) (kl @ sep # kr) (live_pages s) res (view s') (live_pages s')"
proof -
  let ?b = "node_body (ls @ q # rs) (kl @ kr)" and ?P = "ls @ [q, r] @ rs" and ?K = "kl @ sep # kr" and ?c = "node_cell q sep"
  have pl: "p \<in> live_pages s" using heldD(5,8) [OF s] p by blast
  have enc: "encode_interior_table_cell q sep = Inr ?c" using encode_node_cell ps by simp
  show ?thesis
  proof (cases "fits ?b (length ?c)")
    case True
    have psx: "q < 2 ^ 32" "r < 2 ^ 32" using ps by simp_all
    note L = link_child_node [OF len ks psx(1,1,2) True]
    have "last ?P < 2 ^ 32" using ps by (intro bspec [OF ps]) (simp add: last_in_set)
    then have "page_ok (node_body ?P ?K)" using L(2) by (intro page_ok_body)
    from put_body_touches [OF s p this] obtain s' where
      w: "put_body p (node_body ?P ?K) s = (Inr (), s')" "touches H W 0 {p} s s'" "live_pages s' = live_pages s" "page_holds (view s') p (node_body ?P ?K)"
      by auto
    have "promote_body level p (length ls) q sep r ?b s = (Inr None, s')"
      using True enc L(1) w(1) by (simp add: promote_body_def bind_op_def lift_res_def ret_def)
    moreover have "touches H W 2 {p} s s'" using w(2) by (auto simp: touches_def)
    moreover have "promoted level p ?P ?K (live_pages s) None (view s') (live_pages s')" using in_place [OF w(4)] w(3) by simp
    ultimately show ?thesis by blast
  next
    case False
    show ?thesis
    proof (rule split_combined [OF len ps used False])
      fix m
      let ?A = "node_body (take (m + 1) ?P) (take m ?K)" and ?B = "node_body (drop (m + 1) ?P) (drop (m + 1) ?K)"
      assume m: "1 \<le> m" "m + 1 < length ?K"
        and spl: "split_interior_cells (map2 node_cell ?P ?K) ?K (butlast ?P) (last ?P) (length ls = length (map2 node_cell (ls @ q # rs) (kl @ kr)))
          = Inr (map2 node_cell (take (m + 1) ?P) (take m ?K), last (take (m + 1) ?P), map2 node_cell (drop (m + 1) ?P) (drop (m + 1) ?K),
             last (drop (m + 1) ?P), ?K ! m)"
        and used': "used_bytes ?A \<le> PAGE_SIZE" "used_bytes ?B \<le> PAGE_SIZE"
      have lP: "length ?P = Suc (length ?K)" using len by simp
      have lasts: "last (take (m + 1) ?P) \<in> set ?P" "last (drop (m + 1) ?P) \<in> set ?P"
        by (rule in_set_takeD [OF last_in_set], use lP in force) (rule in_set_dropD [OF last_in_set], use m lP in force)
      have ok: "page_ok ?A" "page_ok ?B" using used' bspec [OF ps lasts(1)] bspec [OF ps lasts(2)] by (auto intro: page_ok_body)
      have ps0: "\<forall>p \<in> set (ls @ q # rs). p < 2 ^ 32" "q < 2 ^ 32" "r < 2 ^ 32" using ps by auto
      have len0: "length (ls @ q # rs) = Suc (length (kl @ kr))" using len by simp
      note D = node_cells_decode [OF len0 ps0(1) ks]
      note C = combine_interior_node [OF len ks ps0]
      have "0 < spare_pages s" using sp by simp
      from new_page_touches [OF s this cap ok(2)] obtain np s1 s2 where
        n: "allocate_page s = (Inr np, s1)" "pinned_for_write np (overwrite ?B) s1 = (Inr (), s2)" "touches H W 1 {} s s2"
          "np \<notin> live_pages s" "np < 2 ^ 32" "live_pages s2 = insert np (live_pages s)" "page_holds (view s2) np ?B" by auto
      note T2 = touchesD [OF n(3)]
      have cap2: "size H + 1 < bp_capacity s2" using cap T2(5) by simp
      have npp: "np \<noteq> p" using pl n(4) by auto
      have pre: "promote_body level p (length ls) q sep r ?b s
        = (if level = 0
           then
             bind_op allocate_page (\<lambda>new_left_page_id.
             bind_op (pinned_for_write new_left_page_id (overwrite ?A)) (\<lambda>_.
             bind_op (lift_res (encode_interior_table_cell new_left_page_id (?K ! m))) (\<lambda>root_cell.
             bind_op (put_body p (mk_page INTERIOR_TABLE [root_cell] np)) (\<lambda>_. ret None))))
           else
             bind_op (put_body p ?A) (\<lambda>_. ret (Some (p, ?K ! m, np)))) s2"
        using False enc D C spl n(1,2) by (simp add: promote_body_def mk_node bind_op_run)
      show ?thesis
      proof (cases "level = 0")
        case True
        have "0 < spare_pages s2" using sp T2(4) by simp
        from new_page_touches [OF T2(1) this cap2 ok(1)] obtain nl s3 s4 where
          l: "allocate_page s2 = (Inr nl, s3)" "pinned_for_write nl (overwrite ?A) s3 = (Inr (), s4)" "touches H W 1 {} s2 s4"
            "nl \<notin> live_pages s2" "nl < 2 ^ 32" "live_pages s4 = insert nl (live_pages s2)" "page_holds (view s4) nl ?A" by auto
        have root: "mk_page INTERIOR_TABLE [node_cell nl (?K ! m)] np = node_body [nl, np] [?K ! m]" by (simp add: node_body_def)
        have "page_ok (node_body [nl, np] [?K ! m])" using used_root [OF l(5)] n(5) by (intro page_ok_body) simp_all
        from put_body_touches [OF touchesD(1) [OF l(3)] p this] obtain s' where
          w: "put_body p (node_body [nl, np] [?K ! m]) s4 = (Inr (), s')" "touches H W 0 {p} s4 s'" "live_pages s' = live_pages s4"
            "page_holds (view s') p (node_body [nl, np] [?K ! m])" by auto
        have "promote_body level p (length ls) q sep r ?b s = (Inr None, s')"
          unfolding pre using True encode_node_cell [OF l(5)] root l(1,2) w(1) by (simp add: bind_op_run ret_def)
        moreover have t4: "touches H W 2 {} s s4" by (rule touches_trans [OF n(3) l(3)]) simp_all
        moreover have "touches H W 2 {p} s s'" by (rule touches_trans [OF t4 w(2)]) simp_all
        moreover have "page_holds (view s') nl ?A" "page_holds (view s') np ?B"
          using page_holds_touches [OF w(2)] page_holds_touches [OF l(3)] l(4,6,7) n(4,6,7) npp pl by auto
        moreover have "live_pages s' = insert nl (insert np (live_pages s))" using w(3) l(6) n(6) by simp
        moreover have "nl \<notin> live_pages s" "nl \<noteq> np" using l(4) n(6) by auto
        ultimately show ?thesis using new_root [OF True m, of nl "live_pages s" np "view s'" ?P p] n(4,5) l(5) w(4) by auto
      next
        case False
        from put_body_touches [OF T2(1) p ok(1)] obtain s' where
          w: "put_body p ?A s2 = (Inr (), s')" "touches H W 0 {p} s2 s'" "live_pages s' = live_pages s2" "page_holds (view s') p ?A" by auto
        have "promote_body level p (length ls) q sep r ?b s = (Inr (Some (p, ?K ! m, np)), s')"
          unfolding pre using False w(1) by (simp add: bind_op_run ret_def)
        moreover have "touches H W 2 {p} s s'" by (rule touches_trans [OF n(3) w(2)]) simp_all
        moreover have "page_holds (view s') np ?B" using page_holds_touches [OF w(2)] n(6,7) npp by auto
        ultimately show ?thesis using halved [OF _ m, of level np "live_pages s" "view s'" p ?P] False n(4-6) w(3,4) by auto
      qed
    qed
  qed
qed

lemma promote_step_spec:
  assumes s: "held H W s" and cap: "size H + 2 < bp_capacity s" and sp: "2 \<le> spare_pages s" and p: "p \<in> live_pages s"
    and path: "level < length path" "path ! level = (p, length ls)"
    and body: "page_holds (view s) p (node_body (ls @ q # rs) (kl @ kr))"
    and len: "length ls = length kl" "length rs = length kr" and ps: "\<forall>p \<in> set (ls @ [q, r] @ rs). p < 2 ^ 32"
    and ks: "\<forall>k \<in> set (kl @ kr). rowid_ok k"
  shows "\<exists>res s'. promote_step path level q sep r s = (Inr res, s') \<and> touches H W 2 {p} s s'
    \<and> promoted level p (ls @ [q, r] @ rs) (kl @ sep # kr) (live_pages s) res (view s') (live_pages s')"
proof -
  have "\<exists>x s'. bind_op (get_page_for_write p) (\<lambda>raw. finally_op (bind_op (lift_res (parse_page raw 0))
      (promote_body level p (length ls) q sep r)) (unpin p False)) s = (x, s') \<and> touches H W 2 {p} s s'
    \<and> (\<exists>res. x = Inr res \<and> promoted level p (ls @ [q, r] @ rs) (kl @ sep # kr) (live_pages s) res (view s') (live_pages s'))"
  proof (rule write_block [OF s p _ body])
    show "size H + 1 < bp_capacity s" using cap by simp
    fix s1
    assume s1: "held (add_mset p H) (insert p W) s1" "view s1 = view s" "live_pages s1 = live_pages s"
      "spare_pages s1 = spare_pages s" "bp_capacity s1 = bp_capacity s"
    have "size (add_mset p H) + 1 < bp_capacity s1" "2 \<le> spare_pages s1" using cap sp s1 by simp_all
    moreover have "used_bytes (node_body (ls @ q # rs) (kl @ kr)) \<le> PAGE_SIZE" using body by (simp add: page_holds_def)
    ultimately have "\<exists>res s2. promote_body level p (length ls) q sep r (node_body (ls @ q # rs) (kl @ kr)) s1 = (Inr res, s2)
      \<and> touches (add_mset p H) (insert p W) 2 {p} s1 s2
      \<and> promoted level p (ls @ [q, r] @ rs) (kl @ sep # kr) (live_pages s) res (view s2) (live_pages s2)"
      using promote_body_spec [OF s1(1) insertI1 _ _ len ps ks, of level sep] s1(3) by simp
    then show "\<exists>x s2. promote_body level p (length ls) q sep r (node_body (ls @ q # rs) (kl @ kr)) s1 = (x, s2)
      \<and> touches (add_mset p H) (insert p W) 2 {p} s1 s2
      \<and> (\<exists>res. x = Inr res \<and> promoted level p (ls @ [q, r] @ rs) (kl @ sep # kr) (live_pages s) res (view s2) (live_pages s2))"
      by blast
  qed
  then show ?thesis using path by (auto simp: promote_step_def py_get_def)
qed

section \<open>The loop\<close>

lemma weave_split:
  assumes "length xs = Suc (length ks)" and "m < length ks"
  shows "weave xs ks = weave (take (m + 1) xs) (take m ks) @ (2 * ks ! m + 1) # weave (drop (m + 1) xs) (drop (m + 1) ks)"
proof -
  obtain y ys where y: "drop (m + 1) xs = y # ys" using assms by (cases "drop (m + 1) xs") auto
  have xs: "xs = take m xs @ xs ! m # drop (m + 1) xs" and ks: "ks = take m ks @ ks ! m # drop (m + 1) ks"
    using assms by (simp_all add: id_take_nth_drop)
  have len: "length (take m xs) = length (take m ks)" using assms by simp
  have "weave xs ks = before_seps (take m xs) (take m ks) @ xs ! m @ after_seps (ks ! m # drop (m + 1) ks) (drop (m + 1) xs)"
    by (subst xs, subst ks) (rule weave_hole [OF len])
  moreover have "weave (take (m + 1) xs) (take m ks) = before_seps (take m xs) (take m ks) @ xs ! m"
    using weave_hole [OF len, of "xs ! m" "[]" "[]"] assms by (simp add: take_Suc_conv_app_nth after_seps_def)
  ultimately show ?thesis using y by (simp add: after_seps_Cons)
qed

text \<open>The two halves of a node, as trees.\<close>

lemma concat_halves: "concat (map f (take n ts)) @ concat (map f (drop n ts)) = concat (map f ts)"
  by (metis append_take_drop_id concat_append map_append)

lemma stored_halves:
  assumes "length ts = Suc (length ks)" and "m + 1 < length ks" and "\<forall>k \<in> set ks. rowid_ok k" and "\<forall>t \<in> set ts. pid t < 2 ^ 32 \<and> stored v t"
    and "page_holds v a (node_body (take (m + 1) (map pid ts)) (take m ks))"
    and "page_holds v b (node_body (drop (m + 1) (map pid ts)) (drop (m + 1) ks))"
  shows "stored v (TNode a (take (m + 1) ts) (take m ks))" and "stored v (TNode b (drop (m + 1) ts) (drop (m + 1) ks))"
  using assms by (auto simp: page_holds_def take_map drop_map dest: in_set_takeD in_set_dropD)

text \<open>The tree that holds \<open>l\<close> and \<open>r\<close> in place of the hole, and nothing else new.\<close>

definition rebuilt_in :: "nat set \<Rightarrow> (nat \<Rightarrow> bytes) \<Rightarrow> nat set \<Rightarrow> nat set \<Rightarrow> nat \<Rightarrow> nat \<Rightarrow> int list \<Rightarrow> row list \<Rightarrow> ttree \<Rightarrow> bool" where
  "rebuilt_in L v L' A root h fl rows t \<longleftrightarrow> pid t = root \<and> stored v t \<and> distinct (pages_of t)
     \<and> set (pages_of t) = A \<union> (L' - L) \<and> flat t = fl \<and> rows_of t = rows \<and> (uniform h t \<or> uniform (Suc h) t)"

abbreviation "rebuilt s s' \<equiv> rebuilt_in (live_pages s) (view s') (live_pages s')"

text \<open>Two trees that take the place of one, with the separator between them.\<close>

definition cut_in :: "nat set \<Rightarrow> (nat \<Rightarrow> bytes) \<Rightarrow> nat set \<Rightarrow> nat set \<Rightarrow> nat \<Rightarrow> int list \<Rightarrow> row list \<Rightarrow> ttree \<Rightarrow> int \<Rightarrow> ttree \<Rightarrow> bool" where
  "cut_in L v L' A h fl rows l sep r \<longleftrightarrow> stored v l \<and> stored v r \<and> distinct (pages_of l @ pages_of r)
     \<and> set (pages_of l @ pages_of r) = A \<union> (L' - L) \<and> flat l @ (2 * sep + 1) # flat r = fl
     \<and> rows_of l @ rows_of r = rows \<and> rowid_ok sep \<and> uniform h l \<and> uniform h r"

abbreviation cut :: "pool \<Rightarrow> pool \<Rightarrow> nat set \<Rightarrow> nat \<Rightarrow> int list \<Rightarrow> row list \<Rightarrow> ttree \<Rightarrow> int \<Rightarrow> ttree \<Rightarrow> bool" where
  "cut s s' \<equiv> cut_in (live_pages s) (view s') (live_pages s')"

lemma node_halves:
  assumes "length ts = Suc (length ks)" and "m + 1 < length ks" and "a \<noteq> b" and "a \<notin> set (concat (map pages_of ts))"
    and "b \<notin> set (concat (map pages_of ts))" and "distinct (concat (map pages_of ts))" and "1 < h" and "\<forall>t \<in> set ts. uniform (h - 1) t"
  defines "l \<equiv> TNode a (take (m + 1) ts) (take m ks)" and "r \<equiv> TNode b (drop (m + 1) ts) (drop (m + 1) ks)"
  shows "distinct (pages_of l @ pages_of r)" and "set (pages_of l @ pages_of r) = {a, b} \<union> set (concat (map pages_of ts))"
    and "flat l @ (2 * ks ! m + 1) # flat r = weave (map flat ts) ks" and "rows_of l @ rows_of r = concat (map rows_of ts)"
    and "uniform h l" and "uniform h r"
proof -
  have pg: "concat (map pages_of (take (m + 1) ts)) @ concat (map pages_of (drop (m + 1) ts)) = concat (map pages_of ts)"
    by (rule concat_halves)
  have "distinct (concat (map pages_of (take (m + 1) ts)) @ concat (map pages_of (drop (m + 1) ts)))" unfolding pg by (rule assms(6))
  moreover have "a \<notin> set (concat (map pages_of (take (m + 1) ts)) @ concat (map pages_of (drop (m + 1) ts)))" unfolding pg by (rule assms(4))
  moreover have "b \<notin> set (concat (map pages_of (take (m + 1) ts)) @ concat (map pages_of (drop (m + 1) ts)))" unfolding pg by (rule assms(5))
  ultimately show "distinct (pages_of l @ pages_of r)" using assms(3) by (simp add: l_def r_def)
  have "set (pages_of l @ pages_of r) = {a, b} \<union> set (concat (map pages_of (take (m + 1) ts)) @ concat (map pages_of (drop (m + 1) ts)))"
    by (auto simp: l_def r_def)
  then show "set (pages_of l @ pages_of r) = {a, b} \<union> set (concat (map pages_of ts))" unfolding pg .
  show "flat l @ (2 * ks ! m + 1) # flat r = weave (map flat ts) ks"
    using weave_split [of "map flat ts" ks m] assms(1,2) by (simp add: l_def r_def take_map drop_map)
  show "rows_of l @ rows_of r = concat (map rows_of ts)" using concat_halves [of rows_of "m + 1" ts] by (simp add: l_def r_def)
  show "uniform h l" "uniform h r" using assms(7,8) by (auto simp: l_def r_def dest: in_set_takeD in_set_dropD)
qed

lemma promote_frame:
  assumes s: "held H W s" and cap: "size H + 2 < bp_capacity s" and sp: "2 \<le> spare_pages s"
    and path: "level < length path" "path ! level = frame_entry f" and wf: "frame_wf f" and sf: "stored_frame (view s) f (pid l)"
    and lr: "stored (view s) l" "stored (view s) r" and dist: "distinct (frame_pages f @ pages_of l @ pages_of r)"
    and live: "set (frame_pages f @ pages_of l @ pages_of r) \<subseteq> live_pages s" and sep: "rowid_ok sep"
    and un: "uniform_frame h f" "uniform (h - 1) l" "uniform (h - 1) r"
  defines "A \<equiv> set (frame_pages f @ pages_of l @ pages_of r)"
    and "F \<equiv> flat_left f @ flat l @ (2 * sep + 1) # flat r @ flat_right f" and "R \<equiv> rows_left f @ rows_of l @ rows_of r @ rows_right f"
  obtains s' t where "promote_step path level (pid l) sep (pid r) s = (Inr None, s')" and "touches H W 2 {frame_pid f} s s'"
      and "rebuilt s s' A (frame_pid f) h F R t" and "0 < level \<Longrightarrow> uniform h t"
  | s' l' r' sep' where "promote_step path level (pid l) sep (pid r) s = (Inr (Some (frame_pid f, sep', pid r')), s')"
      and "touches H W 2 {frame_pid f} s s'" and "0 < level" and "pid l' = frame_pid f" and "cut s s' A h F R l' sep' r'"
proof -
  obtain p ls kl kr rs where f: "f = Frame p ls kl kr rs" by (cases f)
  let ?T = "ls @ [l, r] @ rs" and ?K = "kl @ sep # kr"
  have len: "length (map pid ls) = length kl" "length (map pid rs) = length kr" using wf by (simp_all add: f)
  have A: "A = insert p (set (concat (map pages_of ?T)))" by (auto simp: A_def f)
  have dT: "p \<notin> set (concat (map pages_of ?T))" "distinct (concat (map pages_of ?T))" using dist by (auto simp: f)
  have lT: "p \<in> live_pages s" "set (concat (map pages_of ?T)) \<subseteq> live_pages s" using live by (auto simp: f)
  have F: "F = weave (map flat ?T) ?K"
    using weave_hole [of "map flat ls" kl "flat l" "flat r # map flat rs" "sep # kr"] len by (simp add: F_def f after_seps_Cons)
  have R: "R = concat (map rows_of ?T)" by (simp add: R_def f)
  have "pid r \<in> live_pages s" using live pid_in_pages [of r] by auto
  then have rl: "pid r < 2 ^ 32" using held_store.live_range [OF s] by blast
  have ps: "\<forall>p \<in> set (map pid ls @ [pid l, pid r] @ map pid rs). p < 2 ^ 32" and ks: "\<forall>k \<in> set (kl @ kr). rowid_ok k"
    and body: "page_holds (view s) p (node_body (map pid ls @ pid l # map pid rs) (kl @ kr))"
    using sf rl by (auto simp: f page_holds_def)
  have pth: "path ! level = (p, length (map pid ls))" using path by (simp add: f)
  from promote_step_spec [OF s cap sp lT(1) path(1) pth body len ps ks, of sep] obtain res s1 where
    st: "promote_step path level (pid l) sep (pid r) s = (Inr res, s1)" "touches H W 2 {p} s s1"
    and pr: "promoted level p (map pid ?T) ?K (live_pages s) res (view s1) (live_pages s1)" by auto
  have TK: "length ?T = Suc (length ?K)" "\<forall>k \<in> set ?K. rowid_ok k" using len ks sep by auto
  have stT: "\<forall>t \<in> set ?T. pid t < 2 ^ 32 \<and> stored (view s1) t"
  proof
    fix t assume t: "t \<in> set ?T"
    have "set (pages_of t) \<subseteq> set (concat (map pages_of ?T))" using t by auto
    then have "set (pages_of t) \<subseteq> live_pages s - {p}" using dT(1) lT(2) by blast
    moreover have "stored (view s) t" using t sf lr by (auto simp: f)
    moreover have "pid t < 2 ^ 32" using t ps by auto
    ultimately show "pid t < 2 ^ 32 \<and> stored (view s1) t" using stored_touches [OF st(2)] by simp
  qed
  have unT: "\<forall>t \<in> set ?T. uniform (h - 1) t" "1 < h" using un by (auto simp: f)
  have fresh: "x \<notin> set (concat (map pages_of ?T))" "x \<noteq> p" if "x \<notin> live_pages s" for x using that lT by auto
  have fp: "frame_pid f = p" by (simp add: f)
  from pr show ?thesis
  proof (cases rule: promoted.cases)
    case in_place
    let ?t = "TNode p ?T ?K"
    have "rebuilt s s1 A p h F R ?t" "uniform h ?t"
      using in_place(2,3) stT TK dT unT by (simp_all add: rebuilt_in_def A F R page_holds_def ball_Un)
    with that(1) [of s1 ?t] st in_place(1) show ?thesis by (simp add: fp)
  next
    case (halved m np)
    let ?l = "TNode p (take (m + 1) ?T) (take m ?K)" and ?r = "TNode np (drop (m + 1) ?T) (drop (m + 1) ?K)"
    have "p \<noteq> np" using fresh(2) [OF halved(6)] by simp
    note N = node_halves [OF TK(1) halved(5) this dT(1) fresh(1) [OF halved(6)] dT(2) unT(2,1)]
    note S = stored_halves [OF TK(1) halved(5) TK(2) stT halved(8,9)]
    have "rowid_ok (?K ! m)" using TK(2) halved(5) nth_mem [of m ?K] by auto
    moreover have "set (pages_of ?l @ pages_of ?r) = A \<union> (live_pages s1 - live_pages s)"
      unfolding N(2) A using halved(2,6) by auto
    ultimately have "cut s s1 A h F R ?l (?K ! m) ?r" unfolding cut_in_def using S N by (simp only: F R simp_thms)
    with that(2) [of "?K ! m" ?r s1 ?l] st halved(1,3) show ?thesis by (simp add: fp)
  next
    case (new_root m nl nr)
    let ?l = "TNode nl (take (m + 1) ?T) (take m ?K)" and ?r = "TNode nr (drop (m + 1) ?T) (drop (m + 1) ?K)"
    let ?t = "TNode p [?l, ?r] [?K ! m]"
    note N = node_halves [OF TK(1) new_root(5,8) fresh(1) [OF new_root(6)] fresh(1) [OF new_root(7)] dT(2) unT(2,1)]
    note S = stored_halves [OF TK(1) new_root(5) TK(2) stT new_root(11,12)]
    have ok: "rowid_ok (?K ! m)" using TK(2) new_root(5) nth_mem [of m ?K] by auto
    have "stored (view s1) ?t" using S ok new_root(9,10,13) by (simp add: page_holds_def)
    moreover have "flat ?t = F" "rows_of ?t = R" using N(3,4) by (simp_all add: after_seps_def F R)
    moreover have pg: "set (pages_of ?t) = insert p (set (pages_of ?l @ pages_of ?r))" by simp
    have "p \<notin> set (pages_of ?l @ pages_of ?r)" unfolding N(2) using dT(1) lT(1) new_root(6,7) by auto
    then have "distinct (pages_of ?t)" using N(1) by simp
    moreover have "set (pages_of ?t) = A \<union> (live_pages s1 - live_pages s)"
      unfolding pg N(2) A using new_root(2,6,7) by auto
    moreover have "uniform (Suc h) ?t" using N(5,6) unT(2) by simp
    ultimately have "rebuilt s s1 A p h F R ?t" by (simp add: rebuilt_in_def)
    with that(1) [of s1 ?t] st new_root(1,3) show ?thesis by (simp add: fp)
  qed
qed

text \<open>A rebuilt subtree in its context.\<close>

lemma rebuilt_plug:
  assumes re: "rebuilt s s' A p (h - length fs) F R t" and un: "uniform (h - length fs) t \<or> fs = []" and t: "touches H W n B s s'"
    and ctx: "\<forall>f \<in> set fs. frame_wf f" "stored_ctx (view s) fs p" "distinct (ctx_pages fs)" "set (ctx_pages fs) \<inter> (A \<union> B) = {}"
      "set (ctx_pages fs) \<subseteq> live_pages s" "uniform_ctx h fs"
  shows "rebuilt s s' (set (ctx_pages fs) \<union> A) (hole fs p) h (ctx_left fs @ F @ ctx_right fs) (ctx_rows_left fs @ R @ ctx_rows_right fs)
    (plug fs t)"
proof -
  have R: "pid t = p" "stored (view s') t" "distinct (pages_of t)" "set (pages_of t) = A \<union> (live_pages s' - live_pages s)" "flat t = F" "rows_of t = R"
    using re by (simp_all add: rebuilt_in_def)
  have "stored_ctx (view s') fs p"
    using ctx(2,4,5) touchesD(6) [OF t] by (subst stored_ctx_cong [where w = "view s"]) auto
  then have "stored (view s') (plug fs t)" using R by (simp add: stored_plug)
  moreover have "distinct (pages_of (plug fs t))" using ctx(3-5) R(3,4) by (auto simp: distinct_pages_plug)
  moreover have "uniform h (plug fs t) \<or> uniform (Suc h) (plug fs t)" using un ctx(6) re by (auto simp: uniform_plug rebuilt_in_def)
  ultimately show ?thesis using R ctx(1) by (auto simp: rebuilt_in_def set_pages_plug pid_plug flat_plug rows_plug)
qed

lemma promote_loop:
  assumes "held H W s" and "size H + 2 < bp_capacity s" and "2 * length fs \<le> spare_pages s" and "fs \<noteq> []"
    and "\<forall>f \<in> set fs. frame_wf f" and "stored_ctx (view s) fs (pid l)" and "stored (view s) l" and "stored (view s) r"
    and "distinct (ctx_pages fs @ pages_of l @ pages_of r)" and "set (ctx_pages fs @ pages_of l @ pages_of r) \<subseteq> live_pages s"
    and "rowid_ok sep" and "uniform_ctx h fs" and "uniform (h - length fs) l" and "uniform (h - length fs) r"
  shows "\<exists>s' t. promote_separator (map frame_entry fs @ rest) (length fs - 1) (pid l) sep (pid r) s = (Inr (), s')
    \<and> touches H W (2 * length fs) (set (ctx_pages fs @ pages_of l @ pages_of r)) s s'
    \<and> rebuilt s s' (set (ctx_pages fs @ pages_of l @ pages_of r)) (hole fs (pid l)) h
        (ctx_left fs @ flat l @ (2 * sep + 1) # flat r @ ctx_right fs) (ctx_rows_left fs @ rows_of l @ rows_of r @ ctx_rows_right fs) t"
  using assms
proof (induction fs arbitrary: s l r sep rest rule: rev_induct)
  case (snoc f gs)
  let ?path = "map frame_entry (gs @ [f]) @ rest" and ?n = "length gs" and ?B = "set (frame_pages f @ pages_of l @ pages_of r)"
  let ?F = "flat_left f @ flat l @ (2 * sep + 1) # flat r @ flat_right f" and ?R = "rows_left f @ rows_of l @ rows_of r @ rows_right f"
  have pre: "frame_wf f" "stored_frame (view s) f (pid l)" "stored_ctx (view s) gs (frame_pid f)" "2 \<le> spare_pages s"
    "?n < length ?path" "?path ! ?n = frame_entry f" "distinct (frame_pages f @ pages_of l @ pages_of r)" "?B \<subseteq> live_pages s"
    "uniform_frame (h - ?n) f" "uniform (h - ?n - 1) l" "uniform (h - ?n - 1) r" "distinct (ctx_pages gs)" "set (ctx_pages gs) \<inter> ?B = {}"
    "set (ctx_pages gs) \<subseteq> live_pages s" "uniform_ctx h gs" "\<forall>f \<in> set gs. frame_wf f"
    using snoc.prems by (auto simp: nth_append)
  have fB: "frame_pid f \<in> ?B" by (cases f) simp
  have tot: "set (ctx_pages (gs @ [f]) @ pages_of l @ pages_of r) = set (ctx_pages gs) \<union> ?B" by auto
  show ?case
  proof (rule promote_frame [OF snoc.prems(1,2) pre(4-6,1,2) snoc.prems(7,8) pre(7,8) snoc.prems(11) pre(9-11)])
    fix s' t
    assume r: "promote_step ?path ?n (pid l) sep (pid r) s = (Inr None, s')" "touches H W 2 {frame_pid f} s s'"
      "rebuilt s s' ?B (frame_pid f) (h - ?n) ?F ?R t" "0 < ?n \<Longrightarrow> uniform (h - ?n) t"
    have un: "uniform (h - ?n) t \<or> gs = []" and dj: "set (ctx_pages gs) \<inter> (?B \<union> {frame_pid f}) = {}" using r(4) pre(13) fB by auto
    note P = rebuilt_plug [OF r(3) un r(2) pre(16,3,12) dj pre(14,15)]
    have "promote_separator ?path (length (gs @ [f]) - 1) (pid l) sep (pid r) s = (Inr (), s')"
      using r(1) by (cases gs) (simp_all add: bind_op_run skip_def ret_def)
    moreover have "touches H W (2 * length (gs @ [f])) (set (ctx_pages (gs @ [f]) @ pages_of l @ pages_of r)) s s'"
      using r(2) fB unfolding tot by (auto simp: touches_def)
    ultimately show ?thesis using P unfolding tot by auto
  next
    fix s1 l' r' sep'
    assume r: "promote_step ?path ?n (pid l) sep (pid r) s = (Inr (Some (frame_pid f, sep', pid r')), s1)"
      "touches H W 2 {frame_pid f} s s1" "0 < ?n" "pid l' = frame_pid f" "cut s s1 ?B (h - ?n) ?F ?R l' sep' r'"
    note T = touchesD [OF r(2)]
    have c: "stored (view s1) l'" "stored (view s1) r'" "distinct (pages_of l' @ pages_of r')"
      "set (pages_of l' @ pages_of r') = ?B \<union> (live_pages s1 - live_pages s)" "flat l' @ (2 * sep' + 1) # flat r' = ?F"
      "rows_of l' @ rows_of r' = ?R" "rowid_ok sep'" "uniform (h - ?n) l'" "uniform (h - ?n) r'" using r(5) by (simp_all add: cut_in_def)
    have q: "size H + 2 < bp_capacity s1" "2 * ?n \<le> spare_pages s1" "gs \<noteq> []" "stored_ctx (view s1) gs (pid l')"
      "distinct (ctx_pages gs @ pages_of l' @ pages_of r')" "set (ctx_pages gs @ pages_of l' @ pages_of r') \<subseteq> live_pages s1"
    proof -
      show "size H + 2 < bp_capacity s1" "2 * ?n \<le> spare_pages s1" "gs \<noteq> []" using T(4,5) snoc.prems(2,3) r(3) by auto
      show "stored_ctx (view s1) gs (pid l')"
        using pre(3,13,14) fB T(6) unfolding r(4) by (subst stored_ctx_cong [where w = "view s"]) auto
      have "set (ctx_pages gs) \<inter> set (pages_of l' @ pages_of r') = {}" unfolding c(4) using pre(13,14) by blast
      then show "distinct (ctx_pages gs @ pages_of l' @ pages_of r')" using pre(12) c(3) by simp
      have "set (pages_of l' @ pages_of r') \<subseteq> live_pages s1" unfolding c(4) using pre(8) T(3) by blast
      then show "set (ctx_pages gs @ pages_of l' @ pages_of r') \<subseteq> live_pages s1" using pre(14) T(3) by auto
    qed
    from snoc.IH [OF T(1) q(1-3) pre(16) q(4) c(1,2) q(5,6) c(7) pre(15) c(8,9), of "frame_entry f # rest"] obtain s' t where
      IH: "promote_separator (map frame_entry gs @ frame_entry f # rest) (?n - 1) (pid l') sep' (pid r') s1 = (Inr (), s')"
        "touches H W (2 * ?n) (set (ctx_pages gs @ pages_of l' @ pages_of r')) s1 s'"
      and re: "rebuilt s1 s' (set (ctx_pages gs @ pages_of l' @ pages_of r')) (hole gs (pid l')) h
        (ctx_left gs @ flat l' @ (2 * sep' + 1) # flat r' @ ctx_right gs) (ctx_rows_left gs @ rows_of l' @ rows_of r' @ ctx_rows_right gs) t"
      by blast
    let ?A = "set (ctx_pages (gs @ [f]) @ pages_of l @ pages_of r)"
    have A': "set (ctx_pages gs @ pages_of l' @ pages_of r') = ?A \<union> (live_pages s1 - live_pages s)" using c(4) by auto
    have ps: "promote_separator ?path (length (gs @ [f]) - 1) (pid l) sep (pid r) s = (Inr (), s')"
      using r IH(1) by (cases gs) (simp_all add: bind_op_run)
    have tt: "touches H W (2 * length (gs @ [f])) ?A s s'"
      by (rule touches_trans [OF r(2) IH(2) [unfolded A']]) (use fB in auto)
    have "live_pages s1 \<subseteq> live_pages s'" by (rule touchesD(3) [OF IH(2)])
    then have "?A \<union> (live_pages s1 - live_pages s) \<union> (live_pages s' - live_pages s1) = ?A \<union> (live_pages s' - live_pages s)"
      using T(3) by auto
    moreover have "ctx_left (gs @ [f]) @ flat l @ (2 * sep + 1) # flat r @ ctx_right (gs @ [f]) = ctx_left gs @ (flat l' @ (2 * sep' + 1) # flat r') @ ctx_right gs"
      unfolding c(5) by simp
    moreover have "ctx_rows_left (gs @ [f]) @ rows_of l @ rows_of r @ ctx_rows_right (gs @ [f]) = ctx_rows_left gs @ (rows_of l' @ rows_of r') @ ctx_rows_right gs"
      unfolding c(6) by simp
    ultimately have "rebuilt s s' ?A (hole (gs @ [f]) (pid l)) h
        (ctx_left (gs @ [f]) @ flat l @ (2 * sep + 1) # flat r @ ctx_right (gs @ [f])) (ctx_rows_left (gs @ [f]) @ rows_of l @ rows_of r @ ctx_rows_right (gs @ [f])) t"
      using re r(4) unfolding rebuilt_in_def A' by simp
    with ps tt show ?thesis by blast
  qed
qed simp

end
