(* ===== verification/LeafSplit.thy ===== *)
theory LeafSplit
  imports Promote
begin

text \<open>
  The leaf's part of \<^verbatim>\<open>BTree.insert\<close>: the row's overflow chain, the slot the row goes into, a leaf with
  room, and the division of a leaf without into two that are written back.
\<close>

section \<open>The row and its overflow chain\<close>

text \<open>The pages a payload's tail needs.\<close>

definition chain_need :: "bytes \<Rightarrow> nat" where
  "chain_need d = (if local_len d < length d then chain_length (length d - local_len d) else 0)"

text \<open>The cell used while only its size matters: overflow page 1 if the row spills.\<close>

definition candidate :: "int \<Rightarrow> bytes \<Rightarrow> row" where
  "candidate k d = (k, d, if local_len d < length d then [1] else [])"

lemma candidate_ok: "rowid_ok k \<Longrightarrow> length d < 2 ^ 64 \<Longrightarrow> row_ok (candidate k d)"
  by (auto simp: row_ok_def candidate_def)

lemma candidate_cell:
  assumes "rowid_ok k" and "length d < 2 ^ 64"
  shows "row_cell k d (local_len d) (if local_len d < length d then 1 else 0) = Inr (leaf_cell (candidate k d))"
  using row_cell_leaf_cell [OF candidate_ok [OF assms, unfolded candidate_def]]
  by (auto simp: candidate_def first_page_def)

lemma candidate_length:
  assumes "row_ok (k, d, ids)"
  shows "length (leaf_cell (candidate k d)) = length (leaf_cell (k, d, ids))"
proof (rule row_cell_length [OF candidate_cell row_cell_leaf_cell [OF assms]])
  show "rowid_ok k" "length d < 2 ^ 64" using assms by (simp_all add: row_ok_def)
  show "((if local_len d < length d then 1 else 0) = (0 :: nat)) = (first_page ids = 0)"
    using assms by (auto simp: row_ok_def first_page_def split: list.splits)
qed

interpretation txn_store: page_store "\<lambda>s. held H W s \<and> txn_frame s0 s" view live_pages spare_pages allocate_page load_page update_page free_page "set_mset H"
  for H W s0
proof
  show "1 \<le> p \<and> p < 2 ^ 32" if "held H W s \<and> txn_frame s0 s" "p \<in> live_pages s" for s p
    using held_store.live_range that by blast
  show "finite (live_pages s)" for s by (simp add: live_pages_def)
  show "length (view s p) = PAGE_SIZE" if "held H W s \<and> txn_frame s0 s" "p \<in> live_pages s" for s p
    using held_store.page_length that by blast
  show "set_mset H \<subseteq> live_pages s" if "held H W s \<and> txn_frame s0 s" for s using heldD(5) that by blast
next
  fix s p assume "held H W s \<and> txn_frame s0 s" "p \<in> live_pages s"
  with load_page_held [of H W s p] show "\<exists>s'. load_page p s = (Inr (view s p), s') \<and> (held H W s' \<and> txn_frame s0 s') \<and> live_pages s' = live_pages s
    \<and> spare_pages s' = spare_pages s \<and> (\<forall>q \<in> live_pages s. view s' q = view s q)" by (metis frame_txn_frame txn_frame_trans)
next
  fix s p d and g :: "bytes \<Rightarrow> bytes res"
  assume a: "held H W s \<and> txn_frame s0 s" "p \<in> live_pages s" "g (view s p) = Inr d" "length d = PAGE_SIZE"
  from update_page_held [where g = g, OF conjunct1 [OF a(1)] a(2-4)] a(1) frame_txn_frame txn_frame_trans
  show "\<exists>s'. update_page p g s = (Inr (), s') \<and> (held H W s' \<and> txn_frame s0 s') \<and> live_pages s' = live_pages s
    \<and> spare_pages s' = spare_pages s \<and> (\<forall>q \<in> live_pages s. view s' q = (if q = p then d else view s q))" by fastforce
next
  fix s assume "held H W s \<and> txn_frame s0 s" "0 < spare_pages s"
  with allocate_page_held [of H W s] show "\<exists>p s'. allocate_page s = (Inr p, s') \<and> (held H W s' \<and> txn_frame s0 s') \<and> p \<notin> live_pages s
    \<and> live_pages s' = insert p (live_pages s) \<and> spare_pages s' + 1 = spare_pages s
    \<and> (\<forall>q \<in> live_pages s. view s' q = view s q)" by (metis txn_frame_trans)
next
  fix s p assume "held H W s \<and> txn_frame s0 s" "p \<in> live_pages s" "p \<noteq> 1" "p \<notin># H"
  with free_page_held [of H W s p] show "\<exists>s'. free_page p s = (Inr (), s') \<and> (held H W s' \<and> txn_frame s0 s') \<and> live_pages s' = live_pages s - {p}
    \<and> spare_pages s' = spare_pages s + 1 \<and> (\<forall>q \<in> live_pages s'. view s' q = view s q)" by (metis txn_frame_trans)
qed

lemma spill_row:
  assumes s: "held H W s" and d: "rowid_ok k" "length d < 2 ^ 64" and sp: "chain_need d \<le> spare_pages s"
  obtains ids s' where "(if local_len d < length d then write_overflow_chain allocate_page update_page (drop (local_len d) d) else ret 0) s
      = (Inr (first_page ids), s')" and "touches H W (chain_need d) {} s s'" and "distinct ids" and "set ids \<inter> live_pages s = {}"
    and "live_pages s' = live_pages s \<union> set ids" and "row_stored (view s') (k, d, ids)"
proof (cases "local_len d < length d")
  case True
  have i: "held H W s \<and> txn_frame s s" using s by simp
  have ne: "drop (local_len d) d \<noteq> []" "chain_length (length (drop (local_len d) d)) \<le> spare_pages s"
    using True sp by (simp_all add: chain_need_def)
  show ?thesis
  proof (rule txn_store.write_chain [OF i ne])
    fix ids s'
    assume w: "write_overflow_chain allocate_page update_page (drop (local_len d) d) s = (Inr (hd ids), s')" "held H W s' \<and> txn_frame s s'"
      "ids \<noteq> []" "distinct ids" "set ids \<inter> live_pages s = {}" "live_pages s' = live_pages s \<union> set ids"
      "spare_pages s' + length ids = spare_pages s" "\<forall>q \<in> live_pages s. view s' q = view s q" "on_chain (view s') ids (drop (local_len d) d)"
      "length ids = chain_length (length (drop (local_len d) d))"
    have range: "1 \<le> p \<and> p < 2 ^ 32" if "p \<in> set ids" for p
      using txn_store.live_range [OF w(2)] w(6) that by blast
    have "touches H W (chain_need d) {} s s'" using w True by (auto simp: touches_def chain_need_def)
    moreover have "row_stored (view s') (k, d, ids)" using range d True w(3,9) by (simp add: row_stored_def row_ok_def)
    moreover have "hd ids = first_page ids" using w(3) by (cases ids) (simp_all add: first_page_def)
    ultimately show ?thesis using that [of ids s'] True w by simp
  qed
next
  case False
  then have "local_len d = length d" using local_len_le [of d] by simp
  then show ?thesis using that [of "[]" s] s d False
    by (simp add: ret_def first_page_def touches_def row_stored_def row_ok_def)
qed

section \<open>The place of the row\<close>

definition ins_at :: "nat \<Rightarrow> 'a \<Rightarrow> 'a list \<Rightarrow> 'a list" where
  "ins_at i x xs = take i xs @ x # drop i xs"

lemma ins_at_not_Nil [simp]: "ins_at i c cs \<noteq> []"
  by (simp add: ins_at_def)

lemma ins_at_simps: "map f (ins_at i x xs) = ins_at i (f x) (map f xs)" "set (ins_at i x xs) = insert x (set xs)"
  "length (ins_at i x xs) = Suc (length xs)" "footprint (ins_at i c cs) = length c + 2 + footprint cs"
proof -
  show "set (ins_at i x xs) = insert x (set xs)"
    using arg_cong [OF append_take_drop_id [of i xs], of set] unfolding ins_at_def by (simp del: append_take_drop_id)
  show "footprint (ins_at i c cs) = length c + 2 + footprint cs" using footprint_take_drop [of i cs] by (simp add: ins_at_def)
qed (simp_all add: ins_at_def take_map drop_map)

lemma insort_after: "\<forall>x \<in> set xs. f x < f r \<Longrightarrow> insort_key f r (xs @ ys) = xs @ insort_key f r ys"
  by (induction xs) auto

lemma insort_before: "\<forall>y \<in> set ys. f r \<le> f y \<Longrightarrow> insort_key f r ys = r # ys"
  by (cases ys) auto

lemma scan_rows:
  assumes "sorted (map fst rows)"
  shows "\<forall>x \<in> set (take (scan_slot (map fst rows) k) rows). fst x < k" and "\<forall>y \<in> set (drop (scan_slot (map fst rows) k) rows). k \<le> fst y"
proof -
  let ?i = "scan_slot (map fst rows) k"
  have i: "?i \<le> length rows" using scan_slot_le [of "map fst rows" k] by simp
  show "\<forall>x \<in> set (take ?i rows). fst x < k"
  proof
    fix x assume "x \<in> set (take ?i rows)"
    then obtain j where "j < ?i" "x = rows ! j" using i by (auto simp: in_set_conv_nth)
    then show "fst x < k" using scan_slot_below [of j "map fst rows" k] i by simp
  qed
  show "\<forall>y \<in> set (drop ?i rows). k \<le> fst y"
  proof
    fix y assume "y \<in> set (drop ?i rows)"
    then obtain j where j: "j < length rows - ?i" "y = rows ! (?i + j)" by (auto simp: in_set_conv_nth)
    then have "?i + j < length rows" by simp
    then show "k \<le> fst y" using scan_slot_above [OF assms, of k "?i + j"] j(2) by simp
  qed
qed

text \<open>The slot a descent finds is where sorted insertion would put the row, in the whole tree.\<close>

lemma ins_at_insort:
  assumes "sorted (map fst rows)" and "i = scan_slot (map fst rows) (fst r)" and "\<forall>x \<in> set xs. fst x < fst r" and "\<forall>y \<in> set ys. fst r < fst y"
  shows "xs @ ins_at i r rows @ ys = insort_key fst r (xs @ rows @ ys)"
proof -
  note lo = scan_rows(1) [OF assms(1), of "fst r", folded assms(2)]
  have "\<forall>y \<in> set (drop i rows @ ys). fst r \<le> fst y"
    using scan_rows(2) [OF assms(1), of "fst r", folded assms(2)] assms(4) by auto
  from insort_before [OF this] insort_after [OF assms(3), of "rows @ ys"] insort_after [OF lo, of "drop i rows @ ys"]
  show ?thesis by (simp add: ins_at_def flip: append_assoc)
qed

lemma ins_at_order:
  assumes srt: "sorted_wrt (<) (xs @ map (\<lambda>r. 2 * fst r) rows @ ys)" and "i = scan_slot (map fst rows) (fst r)"
    and "\<forall>x \<in> set xs. x < 2 * fst r" and "\<forall>y \<in> set ys. 2 * fst r < y" and new: "fst r \<notin> fst ` set rows"
  shows "sorted_wrt (<) (xs @ map (\<lambda>r. 2 * fst r) (ins_at i r rows) @ ys)"
proof -
  have "sorted_wrt (\<lambda>r r'. 2 * fst r < 2 * fst r') rows" using srt by (simp add: sorted_wrt_append sorted_wrt_map)
  then have "sorted_wrt (\<lambda>r r'. fst r \<le> fst r') rows" by (rule sorted_wrt_mono_rel [rotated]) simp
  then have s1: "sorted (map fst rows)" by (simp add: sorted_wrt_map)
  note lo = scan_rows(1) [OF s1, of "fst r", folded assms(2)]
  from scan_rows(2) [OF s1, of "fst r", folded assms(2)] new have hi: "\<forall>y \<in> set (drop i rows). fst r < fst y" by (metis in_set_dropD image_eqI order_le_less)
  have "sorted_wrt (<) (xs @ map (\<lambda>r. 2 * fst r) (take i rows @ drop i rows) @ ys)" using srt by simp
  then show ?thesis using lo hi assms(3,4) by (auto simp: ins_at_def sorted_wrt_append simp del: append_take_drop_id)
qed

section \<open>A leaf with room\<close>

lemma leaf_cells_ins: "leaf_body (ins_at i r rows) = (leaf_body rows)\<lparr>pb_cells := take i (map leaf_cell rows) @ [leaf_cell r] @ drop i (map leaf_cell rows)\<rparr>"
  by (simp add: leaf_body_def mk_page_def ins_at_def take_map drop_map)

lemma used_bytes_ins: "used_bytes (leaf_body (ins_at i r rows)) = used_bytes (leaf_body rows) + length (leaf_cell r) + 2"
  by (simp add: used_bytes_leaf ins_at_simps)

lemma fits_leaf: "fits (leaf_body rows) n \<longleftrightarrow> used_bytes (leaf_body rows) + n + 2 \<le> PAGE_SIZE"
  by (auto simp: fits_def free_bytes_def)

text \<open>The duplicate test at the slot of the descent.\<close>

lemma duplicate_slot:
  assumes "sorted (map fst rows)" and "i = scan_slot (map fst rows) k"
  shows "(i < length rows \<and> fst (rows ! i) = k) \<longleftrightarrow> k \<in> fst ` set rows"
proof
  assume "k \<in> fst ` set rows"
  then obtain j where j: "j < length rows" "fst (rows ! j) = k" by (auto simp: in_set_conv_nth)
  then have ij: "i \<le> j" using scan_slot_below [of j "map fst rows" k] assms(2) by (force simp: not_le [symmetric])
  then have "map fst rows ! i \<le> map fst rows ! j" using assms(1) j(1) by (intro sorted_nth_mono) simp_all
  moreover have "k \<le> map fst rows ! i" using scan_slot_above [OF assms(1), of k i] assms(2) ij j(1) by simp
  ultimately show "i < length rows \<and> fst (rows ! i) = k" using ij j by simp
qed force

lemma duplicate_check:
  assumes "sorted (map fst rows)" and "i = scan_slot (map fst rows) k" and "\<forall>r \<in> set rows. row_ok r"
  shows "(if i < length (pb_cells (leaf_body rows))
      then bind_res (leaf_key (pb_cells (leaf_body rows) ! i)) (\<lambda>existing. if existing = k then Inl DuplicateRowIDError else Inr ())
      else Inr ()) = (if k \<in> fst ` set rows then Inl DuplicateRowIDError else Inr ())"
proof (cases "i < length rows")
  case True
  obtain k' d' ids' where r: "rows ! i = (k', d', ids')" by (cases "rows ! i")
  have "row_ok (k', d', ids')" using bspec [OF assms(3) nth_mem [OF True]] by (simp add: r)
  then show ?thesis using duplicate_slot [OF assms(1,2)] True by (auto simp: r leaf_cell_decode)
qed (use duplicate_slot [OF assms(1,2)] in simp)

lemma insert_body_prefix:
  assumes "sorted (map fst rows)" and "i = scan_slot (map fst rows) k" and "\<forall>r \<in> set rows. row_ok r"
    and d: "rowid_ok k" "length d < 2 ^ 64"
  shows "k \<in> fst ` set rows \<Longrightarrow> insert_body q i k d (leaf_body rows) s = (Inl DuplicateRowIDError, s)"
    and "k \<notin> fst ` set rows \<Longrightarrow> insert_body q i k d (leaf_body rows) s =
      (if \<not> fits (leaf_body rows) (length (leaf_cell (candidate k d))) then bind_op (unpin q False) (\<lambda>_. ret True)
       else
         bind_op (if local_len d < length d then write_overflow_chain allocate_page update_page (drop (local_len d) d) else ret 0) (\<lambda>ov.
         bind_op (lift_res (row_cell k d (local_len d) ov)) (\<lambda>cell.
         bind_op (lift_res (insert_cell i cell (leaf_body rows))) (\<lambda>body'.
         bind_op (put_body q body') (\<lambda>_. ret False))))) s"
  unfolding insert_body_def duplicate_check [OF assms(1-3)] local_len by (simp_all add: candidate_cell [OF d])

lemma insert_body_room:
  assumes s: "held H W s" and q: "q \<in> W" and rows: "sorted (map fst rows)" "i = scan_slot (map fst rows) k" "\<forall>r \<in> set rows. row_ok r"
    and d: "rowid_ok k" "length d < 2 ^ 64" and new: "k \<notin> fst ` set rows"
    and fit: "fits (leaf_body rows) (length (leaf_cell (candidate k d)))" and sp: "chain_need d \<le> spare_pages s"
  obtains ids s' where "insert_body q i k d (leaf_body rows) s = (Inr False, s')" and "touches H W (chain_need d) {q} s s'"
    and "distinct ids" and "set ids \<inter> live_pages s = {}" and "live_pages s' = live_pages s \<union> set ids"
    and "row_stored (view s') (k, d, ids)" and "page_holds (view s') q (leaf_body (ins_at i (k, d, ids) rows))"
proof (rule spill_row [OF s d sp])
  fix ids s1
  assume w: "(if local_len d < length d then write_overflow_chain allocate_page update_page (drop (local_len d) d) else ret 0) s
      = (Inr (first_page ids), s1)" "touches H W (chain_need d) {} s s1" "distinct ids" "set ids \<inter> live_pages s = {}"
      "live_pages s1 = live_pages s \<union> set ids" "row_stored (view s1) (k, d, ids)"
  let ?r = "(k, d, ids)" let ?b = "leaf_body (ins_at i ?r rows)"
  have rok: "row_ok ?r" using w(6) by (simp add: row_stored_def)
  have fit': "fits (leaf_body rows) (length (leaf_cell ?r))" using fit candidate_length [OF rok] by simp
  then have "page_ok ?b" by (intro page_ok_body(1)) (simp add: used_bytes_ins fits_leaf)
  from put_body_touches [OF touchesD(1) [OF w(2)] q this] obtain s' where
    p: "put_body q ?b s1 = (Inr (), s')" "touches H W 0 {q} s1 s'" "live_pages s' = live_pages s1" "page_holds (view s') q ?b" by auto
  have ins: "insert_cell i (leaf_cell ?r) (leaf_body rows) = Inr ?b"
    using fit' by (simp add: insert_cell_def leaf_cells_ins)
  have "insert_body q i k d (leaf_body rows) s = (Inr False, s')"
    unfolding insert_body_prefix(2) [OF rows d new]
    using fit w(1) row_cell_leaf_cell [OF rok] ins p(1) by (simp add: bind_op_run ret_def)
  moreover have "touches H W (chain_need d) {q} s s'" by (rule touches_trans [OF w(2) p(2)]) simp_all
  moreover have "q \<in> live_pages s" using heldD(5,8) [OF s] q by blast
  then have "row_stored (view s') ?r"
    using w(4,5,6) touchesD(6) [OF p(2)] by (subst row_stored_cong [where w = "view s1"]) auto
  ultimately show ?thesis using that w(3-5) p(3,4) by simp
qed

section \<open>Dividing a leaf\<close>

lemma leaf_cell_size:
  assumes "row_ok (k, d, ids)"
  shows "length (leaf_cell (k, d, ids)) \<le> local_len d + 22"
proof -
  from row_cell_leaf_cell [OF assms] obtain a b ov where e: "encode_uvarint (int (length d)) = Inr a" "encode_uvarint (to_twos_complement k) = Inr b"
    "overflow_field (first_page ids) = Inr ov" "a @ b @ take (local_len d) d @ ov = leaf_cell (k, d, ids)"
    by (auto simp: row_cell_def encode_leaf_table_cell_def bind_res_eq_Inr)
  moreover have "length ov \<le> 4" using e(3) by (auto simp: overflow_field_def to_bytes_eq_Inr split: if_splits)
  ultimately show ?thesis using encode_uvarint_length(1) [OF e(1)] encode_uvarint_length(1) [OF e(2)]
    by (simp add: min_def flip: e(4))
qed

lemma leaf_cell_small:
  assumes "row_ok r"
  shows "length (leaf_cell r) \<le> 4083"
proof -
  obtain k d ids where r: "r = (k, d, ids)" by (cases r)
  have "local_len d \<le> 4061" using local_payload_size_le(2) [OF local_len] by (simp add: max_local_payload_eq)
  with leaf_cell_size assms show ?thesis unfolding r by fastforce
qed

lemma fits_one_leaf: "fits_one_leaf_page (map leaf_cell rows) \<longleftrightarrow> used_bytes (leaf_body rows) \<le> PAGE_SIZE"
  by (auto simp: fits_one_leaf_page_def free_bytes_def leaf_body_def)

text \<open>
  A division is refused only if some cell is bigger than half a page: otherwise either the old rows stay
  together and the new one goes alone, or the halves are within half a page of each other.
\<close>

definition oversized :: "row list \<Rightarrow> int \<Rightarrow> bytes \<Rightarrow> bool" where
  "oversized rows k d \<longleftrightarrow> (\<exists>r \<in> insert (candidate k d) (set rows). 2042 < length (leaf_cell r))"

lemma scan_slot_end:
  assumes "sorted ks" and "ks \<noteq> []" and "last ks < k"
  shows "scan_slot ks k = length ks"
proof -
  have "\<forall>x \<in> set ks. x \<le> last ks" using assms(1,2) by (cases ks rule: rev_cases) (auto simp: sorted_wrt_append)
  then have "takeWhile (\<lambda>x. x < k) ks = ks" using assms(3) by (auto simp: takeWhile_eq_all_conv)
  then show ?thesis by (simp only: scan_slot_def)
qed

lemma halves_fit:
  assumes small: "\<forall>c \<in> set cs. length c + 2 \<le> 2044" and len: "2 \<le> length cs" and T: "4088 < footprint cs" "footprint cs \<le> 4088 + 2044"
  shows "footprint (take (closest_to_half_by_bytes cs) cs) \<le> 4088" and "footprint (drop (closest_to_half_by_bytes cs) cs) \<le> 4088"
proof -
  let ?n = "closest_to_half_by_bytes cs"
  have "imbalance cs ?n \<le> int 2044" using T(1) by (intro closest_to_half_balanced [OF len small]) simp
  moreover have "footprint (take ?n cs) + footprint (drop ?n cs) = footprint cs" by (rule footprint_take_drop)
  ultimately have "footprint (take ?n cs) \<le> 4088 \<and> footprint (drop ?n cs) \<le> 4088" using T(2) unfolding imbalance_def by linarith
  then show "footprint (take ?n cs) \<le> 4088" "footprint (drop ?n cs) \<le> 4088" by simp_all
qed

lemma split_plan_leaf:
  assumes ok: "\<forall>r \<in> set rows. row_ok r" and d: "rowid_ok k" "length d < 2 ^ 64"
    and full: "\<not> fits (leaf_body rows) (length (leaf_cell (candidate k d)))" and used: "used_bytes (leaf_body rows) \<le> PAGE_SIZE"
    and place: "sorted (map fst rows)" "i = scan_slot (map fst rows) k"
  defines "R \<equiv> ins_at i (candidate k d) rows"
  obtains "split_plan i k d rm (leaf_body rows) = Inl PageFullError" and "oversized rows k d"
  | n where "1 \<le> n" and "n < length R"
      and "split_plan i k d rm (leaf_body rows) = Inr (local_len d, map leaf_cell (take n R), map leaf_cell (drop n R), fst (R ! (n - 1)))"
      and "used_bytes (leaf_body (take n R)) \<le> PAGE_SIZE" and "used_bytes (leaf_body (drop n R)) \<le> PAGE_SIZE"
proof -
  let ?keys = "map fst rows" and ?c = "leaf_cell (candidate k d)" and ?C = "map leaf_cell R"
  let ?r = "rm \<and> (?keys = [] \<or> last ?keys < k)"
  have ne: "rows \<noteq> []"
    using full leaf_cell_small [OF candidate_ok [OF d]] by (auto simp: fits_leaf used_bytes_leaf PAGE_SIZE_def)
  have cells: "take i (map leaf_cell rows) @ [?c] @ drop i (map leaf_cell rows) = ?C"
    and keys: "take i ?keys @ [k] @ drop i ?keys = map fst R"
    by (simp_all add: R_def ins_at_def take_map drop_map candidate_def)
  have len: "2 \<le> length ?C" "length (map fst R) = length ?C" using ne by (cases rows; simp add: R_def ins_at_simps)+
  then show ?thesis
  proof (rule split_cells_shape [where r = ?r])
    fix n
    assume n: "1 \<le> n" "n < length ?C" "?r \<Longrightarrow> n = length ?C - 1" "\<not> ?r \<Longrightarrow> n = closest_to_half_by_bytes ?C"
      and sp: "split_cells ?C (map fst R) ?r = Inr (take n ?C, drop n ?C, map fst R ! (n - 1))"
    have pl: "split_plan i k d rm (leaf_body rows) = (if \<not> (fits_one_leaf_page (map leaf_cell (take n R)) \<and> fits_one_leaf_page (map leaf_cell (drop n R)))
        then Inl PageFullError else Inr (local_len d, map leaf_cell (take n R), map leaf_cell (drop n R), fst (R ! (n - 1))))"
      using sp n(1,2) leaf_keys [OF ok] cells keys
      by (simp add: split_plan_def local_len candidate_cell [OF d] take_map drop_map Let_def)
    have "fits_one_leaf_page (map leaf_cell (take n R)) \<and> fits_one_leaf_page (map leaf_cell (drop n R))" if nb: "\<not> oversized rows k d"
    proof (cases ?r)
      case True
      then have "i = length rows" using scan_slot_end [OF place(1)] ne place(2) by simp
      then have "take n R = rows" "drop n R = [candidate k d]" using n(3) [OF True] by (simp_all add: R_def ins_at_def)
      then show ?thesis using used leaf_cell_small [OF candidate_ok [OF d]] by (simp only: fits_one_leaf) (simp add: used_bytes_leaf PAGE_SIZE_def)
    next
      case False
      have small: "\<forall>c \<in> set ?C. length c + 2 \<le> 2044" using nb by (auto simp: oversized_def R_def ins_at_simps not_less)
      have "footprint ?C = length ?c + 2 + footprint (map leaf_cell rows)" by (simp add: R_def ins_at_simps)
      moreover have "length ?c + 2 \<le> 2044" using nb by (simp add: oversized_def)
      ultimately have "4088 < footprint ?C" "footprint ?C \<le> 4088 + 2044" using full used by (simp_all add: fits_leaf used_bytes_leaf PAGE_SIZE_def)
      from halves_fit [OF small len(1) this] show ?thesis using n(4) [OF False]
        by (simp add: fits_one_leaf used_bytes_leaf PAGE_SIZE_def take_map drop_map)
    qed
    then show ?thesis using that n(1,2) pl by (auto simp: fits_one_leaf split: if_splits)
  qed
qed

text \<open>Filling in the real overflow page changes no size.\<close>

lemma ins_at_update: "i \<le> length xs \<Longrightarrow> (ins_at i x xs)[i := y] = ins_at i y xs"
  by (simp add: ins_at_def list_update_append)

lemma leaf_size_cong:
  assumes "map (\<lambda>r. length (leaf_cell r)) xs = map (\<lambda>r. length (leaf_cell r)) ys"
  shows "used_bytes (leaf_body xs) = used_bytes (leaf_body ys)"
proof -
  have "footprint (map leaf_cell zs) = sum_list (map (\<lambda>n. n + 2) (map (\<lambda>r. length (leaf_cell r)) zs))" for zs
    by (induction zs) simp_all
  then show ?thesis unfolding used_bytes_leaf by (simp only: assms)
qed

lemma place_row_spec:
  assumes s: "held H W s" and d: "rowid_ok k" "length d < 2 ^ 64" and sp: "chain_need d \<le> spare_pages s"
    and i: "i \<le> length rows" and n: "n \<le> length rows"
  defines "R \<equiv> ins_at i (candidate k d) rows"
  obtains ids s' where "place_row i k d (local_len d) (map leaf_cell (take n R)) (map leaf_cell (drop n R)) s
      = (Inr (map leaf_cell (take n (ins_at i (k, d, ids) rows)), map leaf_cell (drop n (ins_at i (k, d, ids) rows))), s')"
    and "touches H W (chain_need d) {} s s'" and "distinct ids" and "set ids \<inter> live_pages s = {}"
    and "live_pages s' = live_pages s \<union> set ids" and "row_stored (view s') (k, d, ids)"
    and "used_bytes (leaf_body (take n (ins_at i (k, d, ids) rows))) = used_bytes (leaf_body (take n R))"
    and "used_bytes (leaf_body (drop n (ins_at i (k, d, ids) rows))) = used_bytes (leaf_body (drop n R))"
proof (rule spill_row [OF s d sp])
  fix ids s'
  assume w: "(if local_len d < length d then write_overflow_chain allocate_page update_page (drop (local_len d) d) else ret 0) s
      = (Inr (first_page ids), s')" "touches H W (chain_need d) {} s s'" "distinct ids" "set ids \<inter> live_pages s = {}"
      "live_pages s' = live_pages s \<union> set ids" "row_stored (view s') (k, d, ids)"
  let ?r = "(k, d, ids)" let ?R = "ins_at i ?r rows"
  have rok: "row_ok ?r" using w(6) by (simp add: row_stored_def)
  have R: "?R = R[i := ?r]" using i by (simp add: R_def ins_at_update)
  have lR: "length R = Suc (length rows)" by (simp add: R_def ins_at_simps)
  have sizes: "map (\<lambda>r. length (leaf_cell r)) ?R = map (\<lambda>r. length (leaf_cell r)) R"
    using candidate_length [OF rok] by (simp add: R_def ins_at_simps)
  then have "used_bytes (leaf_body (take n ?R)) = used_bytes (leaf_body (take n R))" "used_bytes (leaf_body (drop n ?R)) = used_bytes (leaf_body (drop n R))"
    by (auto intro!: leaf_size_cong simp: take_map drop_map simp flip: take_map drop_map)
  moreover have "place_row i k d (local_len d) (map leaf_cell (take n R)) (map leaf_cell (drop n R)) s
      = (Inr (map leaf_cell (take n ?R), map leaf_cell (drop n ?R)), s')"
  proof (cases "local_len d < length d")
    case True
    show ?thesis
    proof (cases "i < n")
      case True
      then show ?thesis using w(1) \<open>local_len d < length d\<close> row_cell_leaf_cell [OF rok] n lR unfolding R
        by (simp add: place_row_def bind_op_run ret_def py_set_def take_update_swap map_update)
    next
      case False
      then show ?thesis using w(1) \<open>local_len d < length d\<close> row_cell_leaf_cell [OF rok] n i lR unfolding R
        by (simp add: place_row_def bind_op_run ret_def py_set_def drop_update_swap map_update)
    qed
  next
    case False
    then have "ids = []" using rok by (auto simp: row_ok_def)
    then have "R = ?R" using False by (simp add: R_def candidate_def)
    then show ?thesis using False w(1) by (simp add: place_row_def ret_def)
  qed
  ultimately show ?thesis using that w(2-6) by blast
qed

section \<open>Writing the halves\<close>

lemma mk_leaf: "mk_page LEAF_TABLE (map leaf_cell rows) 0 = leaf_body rows"
  by (simp add: leaf_body_def)

lemma write_halves_root:
  assumes s: "held H W s" and q: "q \<in> W" and cap: "size H + 1 < bp_capacity s" and sp: "2 \<le> spare_pages s"
    and used: "used_bytes (leaf_body L) \<le> PAGE_SIZE" "used_bytes (leaf_body R) \<le> PAGE_SIZE"
  shows "\<exists>nl nr s'. write_halves q None (map leaf_cell L) (map leaf_cell R) sep s = (Inr None, s') \<and> touches H W 2 {q} s s'
    \<and> nl \<notin> live_pages s \<and> nr \<notin> live_pages s \<and> nl \<noteq> nr \<and> nl < 2 ^ 32 \<and> nr < 2 ^ 32 \<and> live_pages s' = {nl, nr} \<union> live_pages s
    \<and> page_holds (view s') nl (leaf_body L) \<and> page_holds (view s') nr (leaf_body R) \<and> page_holds (view s') q (node_body [nl, nr] [sep])"
proof -
  have ql: "q \<in> live_pages s" using heldD(5,8) [OF s] q by blast
  have "0 < spare_pages s" using sp by simp
  from new_page_touches [OF s this cap page_ok_body(1) [OF used(2)]] obtain nr s1 s2 where
    r: "allocate_page s = (Inr nr, s1)" "pinned_for_write nr (overwrite (leaf_body R)) s1 = (Inr (), s2)" "touches H W 1 {} s s2"
      "nr \<notin> live_pages s" "nr < 2 ^ 32" "live_pages s2 = insert nr (live_pages s)" "page_holds (view s2) nr (leaf_body R)" by auto
  note T = touchesD [OF r(3)]
  have "0 < spare_pages s2" "size H + 1 < bp_capacity s2" using sp cap T(4,5) by simp_all
  from new_page_touches [OF T(1) this page_ok_body(1) [OF used(1)]] obtain nl s3 s4 where
    l: "allocate_page s2 = (Inr nl, s3)" "pinned_for_write nl (overwrite (leaf_body L)) s3 = (Inr (), s4)" "touches H W 1 {} s2 s4"
      "nl \<notin> live_pages s2" "nl < 2 ^ 32" "live_pages s4 = insert nl (live_pages s2)" "page_holds (view s4) nl (leaf_body L)" by auto
  have root: "mk_page INTERIOR_TABLE [node_cell nl sep] nr = node_body [nl, nr] [sep]" by (simp add: node_body_def)
  have "page_ok (node_body [nl, nr] [sep])" using used_root [OF l(5)] r(5) by (intro page_ok_body) simp_all
  from put_body_touches [OF touchesD(1) [OF l(3)] q this] obtain s' where
    w: "put_body q (node_body [nl, nr] [sep]) s4 = (Inr (), s')" "touches H W 0 {q} s4 s'" "live_pages s' = live_pages s4"
      "page_holds (view s') q (node_body [nl, nr] [sep])" by auto
  have "write_halves q None (map leaf_cell L) (map leaf_cell R) sep s = (Inr None, s')"
    using r(1,2) l(1,2) w(1) encode_node_cell [OF l(5)] root by (simp add: write_halves_def mk_leaf bind_op_run ret_def)
  moreover have t4: "touches H W 2 {} s s4" by (rule touches_trans [OF r(3) l(3)]) simp_all
  moreover have "touches H W 2 {q} s s'" by (rule touches_trans [OF t4 w(2)]) simp_all
  moreover have "page_holds (view s') nl (leaf_body L)" "page_holds (view s') nr (leaf_body R)"
    using page_holds_touches [OF w(2)] page_holds_touches [OF l(3)] l(4,6,7) r(4,6,7) ql by auto
  moreover have "nl \<notin> live_pages s" "nl \<noteq> nr" "live_pages s' = {nl, nr} \<union> live_pages s" using l(4,6) r(6) w(3) by auto
  ultimately show ?thesis using r(4,5) l(5) w(4) by blast
qed

lemma write_halves_child:
  assumes s: "held H W s" and q: "q \<in> W" "p \<in> W" "q \<noteq> p" and cap: "size H + 1 < bp_capacity s" and sp: "1 \<le> spare_pages s"
    and used: "used_bytes (leaf_body L) \<le> PAGE_SIZE" "used_bytes (leaf_body R) \<le> PAGE_SIZE"
    and len: "length ls = length kl" "length rs = length kr" and ps: "\<forall>x \<in> set (ls @ q # rs). x < 2 ^ 32"
    and ks: "\<forall>k \<in> set (kl @ kr). rowid_ok k" and body: "page_holds (view s) p (node_body (ls @ q # rs) (kl @ kr))"
  shows "\<exists>res np s'. write_halves q (Some (p, node_body (ls @ q # rs) (kl @ kr), length ls)) (map leaf_cell L) (map leaf_cell R) sep s = (Inr res, s')
    \<and> touches H W 1 {q, p} s s' \<and> np \<notin> live_pages s \<and> np < 2 ^ 32 \<and> live_pages s' = insert np (live_pages s)
    \<and> page_holds (view s') q (leaf_body L) \<and> page_holds (view s') np (leaf_body R)
    \<and> (res = None \<and> page_holds (view s') p (node_body (ls @ [q, np] @ rs) (kl @ sep # kr))
       \<or> res = Some (sep, np) \<and> page_holds (view s') p (node_body (ls @ q # rs) (kl @ kr)))"
proof -
  let ?b = "node_body (ls @ q # rs) (kl @ kr)"
  have ql: "q \<in> live_pages s" "p \<in> live_pages s" using heldD(5,8) [OF s] q by blast+
  have q32: "q < 2 ^ 32" using ps by simp
  have "0 < spare_pages s" using sp by simp
  from new_page_touches [OF s this cap page_ok_body(1) [OF used(2)]] obtain np s1 s2 where
    r: "allocate_page s = (Inr np, s1)" "pinned_for_write np (overwrite (leaf_body R)) s1 = (Inr (), s2)" "touches H W 1 {} s s2"
      "np \<notin> live_pages s" "np < 2 ^ 32" "live_pages s2 = insert np (live_pages s)" "page_holds (view s2) np (leaf_body R)" by auto
  from put_body_touches [OF touchesD(1) [OF r(3)] q(1) page_ok_body(1) [OF used(1)]] obtain s3 where
    w: "put_body q (leaf_body L) s2 = (Inr (), s3)" "touches H W 0 {q} s2 s3" "live_pages s3 = live_pages s2" "page_holds (view s3) q (leaf_body L)" by auto
  have t3: "touches H W 1 {q} s s3" by (rule touches_trans [OF r(3) w(2)]) simp_all
  have ne: "np \<noteq> q" "np \<noteq> p" using ql r(4) by auto
  have R3: "page_holds (view s3) np (leaf_body R)" using page_holds_touches [OF w(2)] r(6,7) ne by simp
  have p3: "page_holds (view s3) p ?b" using page_holds_touches [OF t3] ql body q(3) by simp
  show ?thesis
  proof (cases "fits ?b (length (node_cell q sep))")
    case True
    note L = link_child_node [OF len ks q32 q32 r(5) True]
    have "last (ls @ [q, np] @ rs) \<in> set (ls @ [q, np] @ rs)" by (intro last_in_set) simp
    moreover have "\<forall>x \<in> set (ls @ [q, np] @ rs). x < 2 ^ 32" using ps r(5) by auto
    ultimately have "page_ok (node_body (ls @ [q, np] @ rs) (kl @ sep # kr))" using L(2) by (intro page_ok_body) (auto simp only:)
    from put_body_touches [OF touchesD(1) [OF t3] q(2) this] obtain s' where
      v: "put_body p (node_body (ls @ [q, np] @ rs) (kl @ sep # kr)) s3 = (Inr (), s')" "touches H W 0 {p} s3 s'" "live_pages s' = live_pages s3"
        "page_holds (view s') p (node_body (ls @ [q, np] @ rs) (kl @ sep # kr))" by auto
    have "write_halves q (Some (p, ?b, length ls)) (map leaf_cell L) (map leaf_cell R) sep s = (Inr None, s')"
      using r(1,2) w(1) v(1) encode_node_cell [OF q32] True L(1) by (simp add: write_halves_def mk_leaf bind_op_run ret_def)
    moreover have "touches H W 1 {q, p} s s'" by (rule touches_trans [OF t3 v(2)]) auto
    moreover have "page_holds (view s') q (leaf_body L)" "page_holds (view s') np (leaf_body R)"
      using page_holds_touches [OF v(2)] w(3,4) R3 r(6) ql ne q(3) by auto
    ultimately show ?thesis using r(4-6) w(3) v(3,4) by auto
  next
    case False
    then have "write_halves q (Some (p, ?b, length ls)) (map leaf_cell L) (map leaf_cell R) sep s = (Inr (Some (sep, np)), s3)"
      using r(1,2) w(1) encode_node_cell [OF q32] by (simp add: write_halves_def mk_leaf bind_op_run ret_def)
    moreover have "touches H W 1 {q, p} s s3" using t3 by (auto simp: touches_def)
    ultimately show ?thesis using r(4-6) w(3,4) R3 p3 by auto
  qed
qed

end
