(* ===== verification/TreeInsert.thy ===== *)
theory TreeInsert
  imports LeafSplit
begin

text \<open>
  \<^verbatim>\<open>BTree.insert\<close>: the row goes into its leaf, or the leaf is divided and the separator promoted; the
  tree that results holds the old rows and the new one in key order.
\<close>

section \<open>The divided leaf as two trees\<close>

lemma sorted_insert_above:
  fixes x y :: int
  assumes "sorted_wrt (<) (us @ x # y # vs)" and "x + 1 < y"
  shows "sorted_wrt (<) (us @ x # (x + 1) # y # vs)"
proof -
  have "\<forall>u \<in> set us. u < x" "\<forall>v \<in> set vs. y < v" using assms(1) by (simp_all add: sorted_wrt_append)
  then have "\<forall>u \<in> set us. u < x + 1" "\<forall>v \<in> set vs. x + 1 < v" using assms(2) by fastforce+
  then show ?thesis using assms by (simp add: sorted_wrt_append)
qed

lemma cut_order:
  fixes R :: "row list"
  assumes "sorted_wrt (<) (xs @ map (\<lambda>r. 2 * fst r) R @ ys)" and "1 \<le> n" and "n < length R"
  shows "sorted_wrt (<) (xs @ map (\<lambda>r. 2 * fst r) (take n R) @ (2 * fst (R ! (n - 1)) + 1) # map (\<lambda>r. 2 * fst r) (drop n R) @ ys)"
proof -
  let ?g = "\<lambda>r :: row. 2 * fst r :: int"
  have R: "R = take (n - 1) R @ R ! (n - 1) # R ! n # drop (Suc n) R"
    using assms(2,3) id_take_nth_drop [of "n - 1" R] Cons_nth_drop_Suc [of n R] by simp
  have T: "take n R = take (n - 1) R @ [R ! (n - 1)]" "drop n R = R ! n # drop (Suc n) R"
    using assms(2,3) take_Suc_conv_app_nth [of "n - 1" R] Cons_nth_drop_Suc [of n R] by simp_all
  have "sorted_wrt (<) (xs @ map ?g (take (n - 1) R @ R ! (n - 1) # R ! n # drop (Suc n) R) @ ys)"
    using assms(1) R by (simp only:)
  then have srt: "sorted_wrt (<) ((xs @ map ?g (take (n - 1) R)) @ ?g (R ! (n - 1)) # ?g (R ! n) # map ?g (drop (Suc n) R) @ ys)" by simp
  then have "?g (R ! (n - 1)) + 1 < ?g (R ! n)" by (simp add: sorted_wrt_append)
  from sorted_insert_above [OF srt this] show ?thesis unfolding T by simp
qed

definition row_pages :: "row list \<Rightarrow> nat list" where
  "row_pages rows = concat (map (\<lambda>r. snd (snd r)) rows)"

lemma row_pages_simps [simp]:
  "pages_of (TLeaf p rows) = p # row_pages rows" "row_pages (xs @ ys) = row_pages xs @ row_pages ys" "row_pages [] = []"
  "row_pages ((k, d, ids) # rows) = ids @ row_pages rows"
  by (simp_all add: row_pages_def)

declare pages_of.simps(1) [simp del]

lemma row_pages_ins: "mset (row_pages (ins_at i (k, d, ids) rows)) = mset ids + mset (row_pages rows)"
proof -
  have "mset (row_pages (take i rows)) + mset (row_pages (drop i rows)) = mset (row_pages rows)"
    by (metis append_take_drop_id mset_append row_pages_simps(2))
  then show ?thesis by (simp add: ins_at_def)
qed

lemma row_stored_touches:
  "touches H W n A s s' \<Longrightarrow> set ids \<subseteq> live_pages s - A \<Longrightarrow> row_stored (view s') (k, d, ids) = row_stored (view s) (k, d, ids)"
  by (rule row_stored_cong) (auto simp: touchesD(6))

lemma rows_stored_ins:
  assumes old: "stored (view s) (TLeaf q rows)" "set (row_pages rows) \<subseteq> live_pages s - A" and t: "touches H W n A s s'"
    and new: "row_stored (view s') (k, d, ids)" and r: "r \<in> set (ins_at i (k, d, ids) rows)"
  shows "row_stored (view s') r"
proof (cases "r = (k, d, ids)")
  case False
  then have r: "r \<in> set rows" using r by (simp add: ins_at_simps)
  obtain k' d' ids' where r': "r = (k', d', ids')" by (cases r)
  have "set ids' \<subseteq> set (row_pages rows)" using r by (force simp: row_pages_def r')
  then have "row_stored (view s') r = row_stored (view s) r"
    unfolding r' using old(2) by (intro row_stored_touches [OF t]) blast
  then show ?thesis using old(1) r by simp
qed (use new in simp)

lemma leaf_halves:
  fixes i :: nat
  assumes old: "stored (view s) (TLeaf q rows)" "set (row_pages rows) \<subseteq> live_pages s - A" "distinct (row_pages rows)"
    and t: "touches H W m A s s'" and new: "row_stored (view s') (k, d, ids)" "distinct ids" "set ids \<inter> live_pages s = {}"
    and ab: "a \<noteq> b" "a \<notin> set ids \<union> set (row_pages rows)" "b \<notin> set ids \<union> set (row_pages rows)"
  defines "R \<equiv> ins_at i (k, d, ids) rows"
  assumes n: "1 \<le> n" "n < length R"
    and pg: "page_holds (view s') a (leaf_body (take n R))" "page_holds (view s') b (leaf_body (drop n R))"
  shows "stored (view s') (TLeaf a (take n R))" and "stored (view s') (TLeaf b (drop n R))" and "rowid_ok (fst (R ! (n - 1)))"
    and "distinct (pages_of (TLeaf a (take n R)) @ pages_of (TLeaf b (drop n R)))"
    and "set (pages_of (TLeaf a (take n R)) @ pages_of (TLeaf b (drop n R))) = {a, b} \<union> set ids \<union> set (row_pages rows)"
proof -
  have st: "row_stored (view s') r" if "r \<in> set R" for r using rows_stored_ins [OF old(1,2) t new(1)] that by (simp add: R_def)
  then show "stored (view s') (TLeaf a (take n R))" "stored (view s') (TLeaf b (drop n R))"
    using pg by (auto simp: page_holds_def dest: in_set_takeD in_set_dropD)
  have "row_stored (view s') (R ! (n - 1))" using n by (intro st nth_mem) simp
  then show "rowid_ok (fst (R ! (n - 1)))" by (auto simp: row_stored_def row_ok_def)
  have cat: "row_pages (take n R) @ row_pages (drop n R) = row_pages R" by (simp flip: row_pages_simps(2))
  have M: "mset (row_pages R) = mset ids + mset (row_pages rows)" by (simp add: R_def row_pages_ins)
  then have S: "set (row_pages R) = set ids \<union> set (row_pages rows)" by (metis set_mset_mset set_mset_union)
  have "distinct (ids @ row_pages rows)" using new(2,3) old(2,3) by auto
  then have D: "distinct (row_pages R)" using M by (metis mset_append mset_eq_imp_distinct_iff)
  have "set (pages_of (TLeaf a (take n R)) @ pages_of (TLeaf b (drop n R))) = {a, b} \<union> set (row_pages (take n R) @ row_pages (drop n R))" by auto
  then show "set (pages_of (TLeaf a (take n R)) @ pages_of (TLeaf b (drop n R))) = {a, b} \<union> set ids \<union> set (row_pages rows)"
    unfolding cat S by auto
  have "distinct (row_pages (take n R) @ row_pages (drop n R))" "a \<notin> set (row_pages (take n R) @ row_pages (drop n R))"
    "b \<notin> set (row_pages (take n R) @ row_pages (drop n R))" unfolding cat S using D ab(2,3) by auto
  then show "distinct (pages_of (TLeaf a (take n R)) @ pages_of (TLeaf b (drop n R)))" using ab(1) by simp
qed

section \<open>Splitting a leaf\<close>

text \<open>The key sequence \<open>fl\<close> stands wherever the rows stood.\<close>

definition in_order :: "row list \<Rightarrow> int list \<Rightarrow> bool" where
  "in_order rows fl \<longleftrightarrow> (\<forall>xs ys. sorted_wrt (<) (xs @ map (\<lambda>r. 2 * fst r) rows @ ys) \<longrightarrow> sorted_wrt (<) (xs @ fl @ ys))"

lemma in_order_cut:
  "1 \<le> n \<Longrightarrow> n < length R \<Longrightarrow> in_order R (flat (TLeaf a (take n R)) @ (2 * fst (R ! (n - 1)) + 1) # flat (TLeaf b (drop n R)))"
  using cut_order [of _ R] by (simp add: in_order_def)

text \<open>The key of the row before the division does not depend on the overflow pages.\<close>

lemma ins_at_key: "fst (ins_at i (k, x) rows ! j) = fst (ins_at i (k, y) rows ! j)"
  by (simp add: ins_at_def nth_append nth_Cons')

lemma split_body_prefix:
  assumes s: "held H W s" and d: "rowid_ok k" "length d < 2 ^ 64" and sp: "chain_need d \<le> spare_pages s"
    and leaf: "\<forall>r \<in> set rows. row_ok r" "used_bytes (leaf_body rows) \<le> PAGE_SIZE"
    and i: "sorted (map fst rows)" "i = scan_slot (map fst rows) k" and full: "\<not> fits (leaf_body rows) (length (leaf_cell (candidate k d)))"
  obtains "split_leaf_body q i k d parent (leaf_body rows) s = (Inl PageFullError, s)" and "oversized rows k d"
  | ids n s1 where "touches H W (chain_need d) {} s s1" and "distinct ids" and "set ids \<inter> live_pages s = {}"
      and "live_pages s1 = live_pages s \<union> set ids" and "row_stored (view s1) (k, d, ids)" and "1 \<le> n" and "n < length (ins_at i (k, d, ids) rows)"
      and "used_bytes (leaf_body (take n (ins_at i (k, d, ids) rows))) \<le> PAGE_SIZE"
      and "used_bytes (leaf_body (drop n (ins_at i (k, d, ids) rows))) \<le> PAGE_SIZE"
      and "split_leaf_body q i k d parent (leaf_body rows) s = write_halves q parent (map leaf_cell (take n (ins_at i (k, d, ids) rows)))
        (map leaf_cell (drop n (ins_at i (k, d, ids) rows))) (fst (ins_at i (k, d, ids) rows ! (n - 1))) s1"
proof -
  let ?rm = "case parent of None \<Rightarrow> True | Some (_, pbody, child_slot) \<Rightarrow> child_slot = length (pb_cells pbody)"
  let ?R = "ins_at i (candidate k d) rows"
  show ?thesis
  proof (rule split_plan_leaf [OF leaf(1) d full leaf(2) i, where rm = ?rm])
    assume "split_plan i k d ?rm (leaf_body rows) = Inl PageFullError" "oversized rows k d"
    then show ?thesis using that(1) by (simp add: split_leaf_body_def Let_def)
  next
    fix n
    assume n: "1 \<le> n" "n < length ?R"
      and pl: "split_plan i k d ?rm (leaf_body rows) = Inr (local_len d, map leaf_cell (take n ?R), map leaf_cell (drop n ?R), fst (?R ! (n - 1)))"
      and used: "used_bytes (leaf_body (take n ?R)) \<le> PAGE_SIZE" "used_bytes (leaf_body (drop n ?R)) \<le> PAGE_SIZE"
    have il: "i \<le> length rows" using scan_slot_le [of "map fst rows" k] i(2) by simp
    have nr: "n \<le> length rows" using n(2) by (simp add: ins_at_simps)
    show ?thesis
    proof (rule place_row_spec [OF s d sp il nr])
      fix ids s1
      let ?R1 = "ins_at i (k, d, ids) rows"
      assume w: "place_row i k d (local_len d) (map leaf_cell (take n ?R)) (map leaf_cell (drop n ?R)) s
          = (Inr (map leaf_cell (take n ?R1), map leaf_cell (drop n ?R1)), s1)"
        "touches H W (chain_need d) {} s s1" "distinct ids" "set ids \<inter> live_pages s = {}" "live_pages s1 = live_pages s \<union> set ids"
        "row_stored (view s1) (k, d, ids)" "used_bytes (leaf_body (take n ?R1)) = used_bytes (leaf_body (take n ?R))"
        "used_bytes (leaf_body (drop n ?R1)) = used_bytes (leaf_body (drop n ?R))"
      have "fst (?R ! (n - 1)) = fst (?R1 ! (n - 1))" unfolding candidate_def by (rule ins_at_key)
      then have "split_leaf_body q i k d parent (leaf_body rows) s = write_halves q parent (map leaf_cell (take n ?R1)) (map leaf_cell (drop n ?R1)) (fst (?R1 ! (n - 1))) s1"
        using pl w(1) by (simp add: split_leaf_body_def Let_def bind_op_run)
      then show ?thesis using that(2) [OF w(2-6) n(1)] n(2) used w(7,8) by (simp add: ins_at_simps)
    qed
  qed
qed

definition unchanged :: "pool \<Rightarrow> (nat \<Rightarrow> bytes) \<Rightarrow> nat set \<Rightarrow> bool" where
  "unchanged s v L \<longleftrightarrow> v = view s \<and> L = live_pages s"

lemma split_body_root:
  assumes s: "held H W s" and q: "q \<in> W" and cap: "size H + 1 < bp_capacity s" and d: "rowid_ok k" "length d < 2 ^ 64"
    and sp: "chain_need d + 2 \<le> spare_pages s" and leaf: "stored (view s) (TLeaf q rows)" "distinct (pages_of (TLeaf q rows))"
      "set (pages_of (TLeaf q rows)) \<subseteq> live_pages s"
    and i: "sorted (map fst rows)" "i = scan_slot (map fst rows) k" and full: "\<not> fits (leaf_body rows) (length (leaf_cell (candidate k d)))"
  shows "\<exists>r s'. split_leaf_body q i k d None (leaf_body rows) s = (r, s') \<and> touches H W (chain_need d + 2) {q} s s'
    \<and> (r = Inl PageFullError \<and> oversized rows k d \<and> unchanged s (view s') (live_pages s')
       \<or> r = Inr None \<and> (\<exists>ids fl t. rebuilt s s' (set (pages_of (TLeaf q rows))) q 1 fl (ins_at i (k, d, ids) rows) t
            \<and> in_order (ins_at i (k, d, ids) rows) fl))"
proof -
  have sp1: "chain_need d \<le> spare_pages s" using sp by simp
  have used: "used_bytes (leaf_body rows) \<le> PAGE_SIZE" using leaf(1) by simp
  show ?thesis
  proof (rule split_body_prefix [OF s d sp1 stored_rows_ok [OF leaf(1)] used i full, where q = q and parent = None])
    assume "split_leaf_body q i k d None (leaf_body rows) s = (Inl PageFullError, s)" "oversized rows k d"
    then show ?thesis using s by (simp add: touches_def unchanged_def)
  next
    fix ids n s1
    let ?R = "ins_at i (k, d, ids) rows"
    assume w: "touches H W (chain_need d) {} s s1" "distinct ids" "set ids \<inter> live_pages s = {}" "live_pages s1 = live_pages s \<union> set ids"
        "row_stored (view s1) (k, d, ids)" "1 \<le> n" "n < length ?R"
        "used_bytes (leaf_body (take n ?R)) \<le> PAGE_SIZE" "used_bytes (leaf_body (drop n ?R)) \<le> PAGE_SIZE"
      and eq: "split_leaf_body q i k d None (leaf_body rows) s = write_halves q None (map leaf_cell (take n ?R)) (map leaf_cell (drop n ?R)) (fst (?R ! (n - 1))) s1"
    note T = touchesD [OF w(1)]
    have "size H + 1 < bp_capacity s1" "2 \<le> spare_pages s1" using cap sp T(4,5) by simp_all
    from write_halves_root [OF T(1) q this w(8,9), of "fst (?R ! (n - 1))"] obtain nl nr s' where
      h: "split_leaf_body q i k d None (leaf_body rows) s = (Inr None, s')" "touches H W 2 {q} s1 s'" "nl \<notin> live_pages s1" "nr \<notin> live_pages s1"
        "nl \<noteq> nr" "nl < 2 ^ 32" "nr < 2 ^ 32" "live_pages s' = {nl, nr} \<union> live_pages s1" "page_holds (view s') nl (leaf_body (take n ?R))"
        "page_holds (view s') nr (leaf_body (drop n ?R))" "page_holds (view s') q (node_body [nl, nr] [fst (?R ! (n - 1))])"
      unfolding eq by blast
    have tt: "touches H W (chain_need d + 2) {q} s s'" by (rule touches_trans [OF w(1) h(2)]) simp_all
    have rp: "set (row_pages rows) \<subseteq> live_pages s - {q}" "distinct (row_pages rows)" using leaf(2,3) by auto
    have ql: "q \<in> live_pages s" using leaf(3) by simp
    then have new: "row_stored (view s') (k, d, ids)" using row_stored_touches [OF h(2), of ids] w(3-5) by auto
    have ab: "nl \<notin> set ids \<union> set (row_pages rows)" "nr \<notin> set ids \<union> set (row_pages rows)" using h(3,4) w(4) rp(1) by auto
    note L = leaf_halves [OF leaf(1) rp tt new w(2,3) h(5) ab w(6,7) h(9,10)]
    let ?l = "TLeaf nl (take n ?R)" and ?r = "TLeaf nr (drop n ?R)" and ?k = "fst (?R ! (n - 1))"
    let ?t = "TNode q [?l, ?r] [?k]"
    have "stored (view s') ?t" using L(1-3) h(6,7,11) by (simp add: page_holds_def)
    moreover have qn: "q \<notin> set (pages_of ?l @ pages_of ?r)" unfolding L(5) using ql h(3,4) w(3,4) rp(1) by auto
    then have "distinct (pages_of ?t)" using L(4) by simp
    moreover have "set (pages_of ?t) = insert q (set (pages_of ?l @ pages_of ?r))" by simp
    then have "set (pages_of ?t) = set (pages_of (TLeaf q rows)) \<union> (live_pages s' - live_pages s)"
      unfolding L(5) using h(3,4,8) w(3,4) rp(1) by auto
    moreover have "rows_of ?t = ?R" "uniform (Suc 1) ?t" using w(6,7) by simp_all
    ultimately have "rebuilt s s' (set (pages_of (TLeaf q rows))) q 1 (flat ?t) ?R ?t" by (simp add: rebuilt_in_def)
    moreover have "in_order ?R (flat ?t)" using in_order_cut [OF w(6,7), of nl nr] by (simp add: after_seps_def)
    ultimately show ?thesis using h(1) tt by blast
  qed
qed

lemma split_body_child:
  assumes s: "held H W s" and q: "q \<in> W" "p \<in> W" "q \<noteq> p" and cap: "size H + 1 < bp_capacity s" and d: "rowid_ok k" "length d < 2 ^ 64"
    and sp: "chain_need d + 1 \<le> spare_pages s" and leaf: "stored (view s) (TLeaf q rows)" "distinct (pages_of (TLeaf q rows))"
      "set (pages_of (TLeaf q rows)) \<subseteq> live_pages s - {p}"
    and i: "sorted (map fst rows)" "i = scan_slot (map fst rows) k" and full: "\<not> fits (leaf_body rows) (length (leaf_cell (candidate k d)))"
    and len: "length ls = length kl" "length rs = length kr" and ps: "\<forall>x \<in> set (ls @ q # rs). x < 2 ^ 32"
    and ks: "\<forall>k \<in> set (kl @ kr). rowid_ok k" and body: "page_holds (view s) p (node_body (ls @ q # rs) (kl @ kr))"
  defines "B \<equiv> node_body (ls @ q # rs) (kl @ kr)" and "A \<equiv> set (pages_of (TLeaf q rows))"
  shows "\<exists>r s'. split_leaf_body q i k d (Some (p, B, length ls)) (leaf_body rows) s = (r, s') \<and> touches H W (chain_need d + 1) {q, p} s s'
    \<and> (r = Inl PageFullError \<and> oversized rows k d \<and> unchanged s (view s') (live_pages s')
       \<or> (\<exists>res ids lt sep rt. r = Inr res \<and> pid lt = q \<and> cut s s' A 1 (flat lt @ (2 * sep + 1) # flat rt) (ins_at i (k, d, ids) rows) lt sep rt
            \<and> in_order (ins_at i (k, d, ids) rows) (flat lt @ (2 * sep + 1) # flat rt)
            \<and> (res = None \<and> page_holds (view s') p (node_body (ls @ [q, pid rt] @ rs) (kl @ sep # kr))
               \<or> res = Some (sep, pid rt) \<and> page_holds (view s') p B)))"
proof -
  have sp1: "chain_need d \<le> spare_pages s" using sp by simp
  have used: "used_bytes (leaf_body rows) \<le> PAGE_SIZE" using leaf(1) by simp
  show ?thesis
  proof (rule split_body_prefix [OF s d sp1 stored_rows_ok [OF leaf(1)] used i full, where q = q and parent = "Some (p, B, length ls)"])
    assume "split_leaf_body q i k d (Some (p, B, length ls)) (leaf_body rows) s = (Inl PageFullError, s)" "oversized rows k d"
    then show ?thesis using s by (simp add: touches_def unchanged_def)
  next
    fix ids n s1
    let ?R = "ins_at i (k, d, ids) rows" let ?k = "fst (?R ! (n - 1))"
    assume w: "touches H W (chain_need d) {} s s1" "distinct ids" "set ids \<inter> live_pages s = {}" "live_pages s1 = live_pages s \<union> set ids"
        "row_stored (view s1) (k, d, ids)" "1 \<le> n" "n < length ?R"
        "used_bytes (leaf_body (take n ?R)) \<le> PAGE_SIZE" "used_bytes (leaf_body (drop n ?R)) \<le> PAGE_SIZE"
      and eq: "split_leaf_body q i k d (Some (p, B, length ls)) (leaf_body rows) s
        = write_halves q (Some (p, B, length ls)) (map leaf_cell (take n ?R)) (map leaf_cell (drop n ?R)) ?k s1"
    note T = touchesD [OF w(1)]
    have ql: "q \<in> live_pages s" "p \<in> live_pages s" using heldD(5,8) [OF s] q by blast+
    have c: "size H + 1 < bp_capacity s1" "1 \<le> spare_pages s1" using cap sp T(4,5) by simp_all
    have b1: "page_holds (view s1) p (node_body (ls @ q # rs) (kl @ kr))" using page_holds_touches [OF w(1) ql(2)] body by simp
    from write_halves_child [OF T(1) q c w(8,9) len ps ks b1, of ?k, folded B_def, folded eq] obtain res np s' where
      h: "split_leaf_body q i k d (Some (p, B, length ls)) (leaf_body rows) s = (Inr res, s')" "touches H W 1 {q, p} s1 s'" "np \<notin> live_pages s1"
        "np < 2 ^ 32" "live_pages s' = insert np (live_pages s1)" "page_holds (view s') q (leaf_body (take n ?R))"
        "page_holds (view s') np (leaf_body (drop n ?R))"
        "res = None \<and> page_holds (view s') p (node_body (ls @ [q, np] @ rs) (kl @ ?k # kr)) \<or> res = Some (?k, np) \<and> page_holds (view s') p B"
      by blast
    have tt: "touches H W (chain_need d + 1) {q, p} s s'" by (rule touches_trans [OF w(1) h(2)]) simp_all
    have rp: "set (row_pages rows) \<subseteq> live_pages s - {q, p}" "distinct (row_pages rows)" using leaf(2,3) by auto
    have new: "row_stored (view s') (k, d, ids)" using row_stored_touches [OF h(2), of ids] ql w(3-5) by auto
    have ab: "q \<noteq> np" "q \<notin> set ids \<union> set (row_pages rows)" "np \<notin> set ids \<union> set (row_pages rows)" using h(3) ql w(3,4) rp(1) by auto
    note L = leaf_halves [OF leaf(1) rp tt new w(2,3) ab w(6,7) h(6,7)]
    let ?l = "TLeaf q (take n ?R)" and ?r = "TLeaf np (drop n ?R)"
    have "set (pages_of ?l @ pages_of ?r) = A \<union> (live_pages s' - live_pages s)"
      unfolding L(5) A_def using h(3,5) w(3,4) ql by auto
    then have c1: "cut s s' A 1 (flat ?l @ (2 * ?k + 1) # flat ?r) ?R ?l ?k ?r" unfolding cut_in_def using L(1-4) w(6,7) by simp
    note ord = in_order_cut [OF w(6,7), of q np]
    show ?thesis
      by (rule exI [of _ "Inr res"], rule exI [of _ s'], rule conjI [OF h(1)], rule conjI [OF tt], rule disjI2, rule exI [of _ res],
          rule exI [of _ ids], rule exI [of _ ?l], rule exI [of _ ?k], rule exI [of _ ?r], rule conjI [OF refl],
          rule conjI [OF pid.simps(1)], rule conjI [OF c1], rule conjI [OF ord]) (use h(8) in simp)
  qed
qed

section \<open>The pins of an insertion\<close>

definition after_split :: "nat \<Rightarrow> tree_path \<Rightarrow> (int \<times> nat) option res \<Rightarrow> (pool, unit) op" where
  "after_split q path r s =
     (case r of Inl e \<Rightarrow> (Inl e, s) | Inr None \<Rightarrow> (Inr (), s)
      | Inr (Some (sep, np)) \<Rightarrow> promote_separator path (length path - 2) q sep np s)"

lemma split_leaf_root:
  assumes s: "held H W s" and q: "q \<in> live_pages s" and cap: "size H + 1 < bp_capacity s" and body: "page_holds (view s) q body"
    and run: "\<And>s1. held (add_mset q H) (insert q W) s1 \<Longrightarrow> view s1 = view s \<Longrightarrow> live_pages s1 = live_pages s
      \<Longrightarrow> spare_pages s1 = spare_pages s \<Longrightarrow> bp_capacity s1 = bp_capacity s
      \<Longrightarrow> \<exists>r s2. split_leaf_body q i k d None body s1 = (r, s2) \<and> touches (add_mset q H) (insert q W) n A s1 s2 \<and> Q r (view s2) (live_pages s2)"
  shows "\<exists>r s'. split_leaf q [(q, i)] k d s = after_split q [(q, i)] r s' \<and> touches H W n A s s' \<and> Q r (view s') (live_pages s')"
proof (rule acquire [OF s q cap])
  fix s1
  assume g: "get_page_for_write q s = (Inr (view s q), s1)" "touches (add_mset q H) (insert q W) 0 {} s s1"
    "held (add_mset q H) (insert q W) s1" "view s1 = view s" "live_pages s1 = live_pages s" "spare_pages s1 = spare_pages s"
    "bp_capacity s1 = bp_capacity s"
  from run [OF g(3-7)] obtain r s2 where r: "split_leaf_body q i k d None body s1 = (r, s2)"
    "touches (add_mset q H) (insert q W) n A s1 s2" "Q r (view s2) (live_pages s2)" by blast
  have "touches (add_mset q H) (insert q W) n A s s2" by (rule touches_trans [OF g(2) r(2)]) auto
  with heldD(8) [OF s] show ?thesis
  proof (rule release)
    fix s3
    assume u: "unpin q False s2 = (Inr (), s3)" "touches H W n A s s3" "view s3 = view s2" "live_pages s3 = live_pages s2"
    have "split_leaf q [(q, i)] k d s = after_split q [(q, i)] r s3"
      using g(1) r(1) u(1) body
      by (simp add: split_leaf_def after_split_def bind_op_def finally_op_def lift_res_def ret_def skip_def page_holds_def
          split: sum.split option.split)
    with r(3) u(2-4) show ?thesis by (intro exI [of _ r] exI [of _ s3]) simp
  qed
qed

lemma split_leaf_child:
  assumes s: "held H W s" and q: "q \<in> live_pages s" "p \<in> live_pages s" and cap: "size H + 2 < bp_capacity s"
    and body: "page_holds (view s) q body" "page_holds (view s) p pbody" and path: "path = path0 @ [(p, cs), (q, i)]"
    and run: "\<And>s2. held (add_mset p (add_mset q H)) (insert p (insert q W)) s2 \<Longrightarrow> view s2 = view s \<Longrightarrow> live_pages s2 = live_pages s
      \<Longrightarrow> spare_pages s2 = spare_pages s \<Longrightarrow> bp_capacity s2 = bp_capacity s
      \<Longrightarrow> \<exists>r s3. split_leaf_body q i k d (Some (p, pbody, cs)) body s2 = (r, s3)
        \<and> touches (add_mset p (add_mset q H)) (insert p (insert q W)) n A s2 s3 \<and> Q r (view s3) (live_pages s3)"
  shows "\<exists>r s'. split_leaf q path k d s = after_split q path r s' \<and> touches H W n A s s' \<and> Q r (view s') (live_pages s')"
proof -
  have caps: "size H + 1 < bp_capacity s" using cap by simp
  show ?thesis
  proof (rule acquire [OF s q(1) caps])
    fix s1
    assume g: "get_page_for_write q s = (Inr (view s q), s1)" "touches (add_mset q H) (insert q W) 0 {} s s1"
      "held (add_mset q H) (insert q W) s1" "view s1 = view s" "live_pages s1 = live_pages s" "spare_pages s1 = spare_pages s"
      "bp_capacity s1 = bp_capacity s"
    have p1: "p \<in> live_pages s1" "size (add_mset q H) + 1 < bp_capacity s1" using q(2) cap g by simp_all
    show ?thesis
    proof (rule acquire [OF g(3) p1])
      fix s2
      assume f: "get_page_for_write p s1 = (Inr (view s1 p), s2)" "touches (add_mset p (add_mset q H)) (insert p (insert q W)) 0 {} s1 s2"
        "held (add_mset p (add_mset q H)) (insert p (insert q W)) s2" "view s2 = view s1" "live_pages s2 = live_pages s1"
        "spare_pages s2 = spare_pages s1" "bp_capacity s2 = bp_capacity s1"
      from run [OF f(3)] f(4-7) g(4-7) obtain r s3 where r: "split_leaf_body q i k d (Some (p, pbody, cs)) body s2 = (r, s3)"
        "touches (add_mset p (add_mset q H)) (insert p (insert q W)) n A s2 s3" "Q r (view s3) (live_pages s3)" by auto
      have t2: "touches (add_mset p (add_mset q H)) (insert p (insert q W)) 0 {} s s2" by (rule touches_trans [OF g(2) f(2)]) auto
      have "touches (add_mset p (add_mset q H)) (insert p (insert q W)) n A s s3" by (rule touches_trans [OF t2 r(2)]) auto
      then have t3: "touches (add_mset q (add_mset p H)) (insert q (insert p W)) n A s s3"
        by (simp add: add_mset_commute insert_commute)
      have sub: "insert p W \<subseteq> set_mset (add_mset p H)" using heldD(8) [OF s] by auto
      show ?thesis
      proof (rule release [OF sub t3])
        fix s4
        assume u: "unpin q False s3 = (Inr (), s4)" "touches (add_mset p H) (insert p W) n A s s4" "view s4 = view s3" "live_pages s4 = live_pages s3"
        show ?thesis
        proof (rule release [OF heldD(8) [OF s] u(2)])
          fix s5
          assume v: "unpin p False s4 = (Inr (), s5)" "touches H W n A s s5" "view s5 = view s4" "live_pages s5 = live_pages s4"
          have idx: "path ! (length path - 2) = (p, cs)" "1 < length path" "snd (last path) = i" by (simp_all add: path nth_append)
          have "split_leaf q path k d s = after_split q path r s5"
            using g(1,4) f(1) r(1) u(1) v(1) body idx
            by (simp add: split_leaf_def after_split_def bind_op_def finally_op_def lift_res_def ret_def skip_def page_holds_def
                split: sum.split option.split)
          with r(3) u(3,4) v(2-4) show ?thesis by (intro exI [of _ r] exI [of _ s5]) simp
        qed
      qed
    qed
  qed
qed

text \<open>The three ways \<^verbatim>\<open>insert\<close> leaves its leaf: the key is there, the row fits, or the leaf is to be split.\<close>

lemma insert_at_cases:
  assumes s: "held H W s" and q: "q \<in> live_pages s" and cap: "size H + 1 < bp_capacity s" and d: "rowid_ok k" "length d < 2 ^ 64"
    and sp: "chain_need d \<le> spare_pages s" and leaf: "stored (view s) (TLeaf q rows)" "sorted (map fst rows)"
    and i: "i = scan_slot (map fst rows) k" and path: "last path = (q, i)"
  obtains (duplicate) s' where "k \<in> fst ` set rows" and "insert_at path k d s = (Inl DuplicateRowIDError, s')" and "touches H W 0 {} s s'"
      and "unchanged s (view s') (live_pages s')"
  | (room) ids s' where "k \<notin> fst ` set rows" and "insert_at path k d s = (Inr (), s')" and "touches H W (chain_need d) {q} s s'" and "distinct ids"
      and "set ids \<inter> live_pages s = {}" and "live_pages s' = live_pages s \<union> set ids" and "row_stored (view s') (k, d, ids)"
      and "page_holds (view s') q (leaf_body (ins_at i (k, d, ids) rows))"
  | (full) s' where "k \<notin> fst ` set rows" and "\<not> fits (leaf_body rows) (length (leaf_cell (candidate k d)))"
      and "insert_at path k d s = split_leaf q path k d s'" and "touches H W 0 {} s s'" and "unchanged s (view s') (live_pages s')"
proof (rule acquire [OF s q cap])
  fix s1
  assume g: "get_page_for_write q s = (Inr (view s q), s1)" "touches (add_mset q H) (insert q W) 0 {} s s1"
    "held (add_mset q H) (insert q W) s1" "view s1 = view s" "live_pages s1 = live_pages s" "spare_pages s1 = spare_pages s"
    "bp_capacity s1 = bp_capacity s"
  note ok = stored_rows_ok [OF leaf(1)] and sub = heldD(8) [OF s]
  have body: "parse_page (view s q) 0 = Inr (leaf_body rows)" using leaf(1) by simp
  show ?thesis
  proof (cases "k \<in> fst ` set rows")
    case True
    show ?thesis
    proof (rule release [OF sub g(2)])
      fix s2
      assume u: "unpin q False s1 = (Inr (), s2)" "touches H W 0 {} s s2" "view s2 = view s1" "live_pages s2 = live_pages s1"
      have "insert_at path k d s = (Inl DuplicateRowIDError, s2)"
        using g(1) u(1) insert_body_prefix(1) [OF leaf(2) i ok d True, of q s1]
        by (simp add: insert_at_def path body bind_op_def lift_res_def finally_unless_def)
      then show ?thesis using duplicate True u(2-4) g(4,5) by (simp add: unchanged_def)
    qed
  next
    case new: False
    show ?thesis
    proof (cases "fits (leaf_body rows) (length (leaf_cell (candidate k d)))")
      case True
      have "chain_need d \<le> spare_pages s1" using sp g(6) by simp
      from g(3) insertI1 leaf(2) i ok d new True this show ?thesis
      proof (rule insert_body_room)
        fix ids s2
        assume w: "insert_body q i k d (leaf_body rows) s1 = (Inr False, s2)" "touches (add_mset q H) (insert q W) (chain_need d) {q} s1 s2"
          "distinct ids" "set ids \<inter> live_pages s1 = {}" "live_pages s2 = live_pages s1 \<union> set ids" "row_stored (view s2) (k, d, ids)"
          "page_holds (view s2) q (leaf_body (ins_at i (k, d, ids) rows))"
        have "touches (add_mset q H) (insert q W) (chain_need d) {q} s s2" by (rule touches_trans [OF g(2) w(2)]) auto
        with sub show ?thesis
        proof (rule release)
          fix s3
          assume u: "unpin q False s2 = (Inr (), s3)" "touches H W (chain_need d) {q} s s3" "view s3 = view s2" "live_pages s3 = live_pages s2"
          have "insert_at path k d s = (Inr (), s3)"
            using g(1) w(1) u(1) by (simp add: insert_at_def path body bind_op_def lift_res_def finally_unless_def skip_def ret_def)
          then show ?thesis using room new u(2-4) w(3-7) g(5) by simp
        qed
      qed
    next
      case False
      show ?thesis
      proof (rule release [OF sub g(2)])
        fix s2
        assume u: "unpin q False s1 = (Inr (), s2)" "touches H W 0 {} s s2" "view s2 = view s1" "live_pages s2 = live_pages s1"
        have "insert_body q i k d (leaf_body rows) s1 = (Inr True, s2)"
          using insert_body_prefix(2) [OF leaf(2) i ok d new, of q s1] False u(1) by (simp add: bind_op_run ret_def)
        then have "insert_at path k d s = split_leaf q path k d s2"
          using g(1) by (simp add: insert_at_def path body bind_op_def lift_res_def finally_unless_def)
        then show ?thesis using full new False u(2-4) g(4,5) by (simp add: unchanged_def)
      qed
    qed
  qed
qed

section \<open>The tree after an insertion\<close>

lemma rebuilt_after_cut:
  assumes "cut s s1 A h0 fl0 rows0 l sep r" and "rebuilt s1 s2 (C \<union> set (pages_of l @ pages_of r)) root h fl rows t"
    and "live_pages s \<subseteq> live_pages s1" and "live_pages s1 \<subseteq> live_pages s2"
  shows "rebuilt s s2 (C \<union> A) root h fl rows t"
proof -
  have "set (pages_of l @ pages_of r) = A \<union> (live_pages s1 - live_pages s)" using assms(1) by (simp add: cut_in_def)
  moreover have "C \<union> (A \<union> (live_pages s1 - live_pages s)) \<union> (live_pages s2 - live_pages s1) = C \<union> A \<union> (live_pages s2 - live_pages s)"
    using assms(3,4) by auto
  ultimately show ?thesis using assms(2) by (simp add: rebuilt_in_def)
qed

text \<open>The level above the cut, when the page there had room for the separator.\<close>

lemma node_in_place:
  assumes t: "touches H W n B s s1" and c: "cut s s1 A (h - 1) fl rows l sep r" and f: "f = Frame p ls kl kr rs" and wf: "frame_wf f"
    and sf: "stored_frame (view s) f (pid l)" and pg: "distinct (frame_pages f)" "set (frame_pages f) \<subseteq> live_pages s"
      "set (frame_pages f) \<inter> A = {}" "B \<inter> set (frame_pages f) \<subseteq> {p}" and un: "uniform_frame h f" and r: "pid r < 2 ^ 32"
    and body: "page_holds (view s1) p (node_body (map pid ls @ [pid l, pid r] @ map pid rs) (kl @ sep # kr))"
  shows "rebuilt s s1 (set (frame_pages f) \<union> A) p h (flat_left f @ fl @ flat_right f) (rows_left f @ rows @ rows_right f)
      (TNode p (ls @ [l, r] @ rs) (kl @ sep # kr))" (is "rebuilt _ _ _ _ _ _ _ ?t")
    and "uniform h (TNode p (ls @ [l, r] @ rs) (kl @ sep # kr))"
proof -
  have C: "stored (view s1) l" "stored (view s1) r" "distinct (pages_of l @ pages_of r)" "set (pages_of l @ pages_of r) = A \<union> (live_pages s1 - live_pages s)"
    "flat l @ (2 * sep + 1) # flat r = fl" "rows_of l @ rows_of r = rows" "rowid_ok sep" "uniform (h - 1) l" "uniform (h - 1) r"
    using c by (simp_all add: cut_in_def)
  have len: "length ls = length kl" "length rs = length kr" using wf by (simp_all add: f)
  have other: "pid x < 2 ^ 32 \<and> stored (view s1) x" if x: "x \<in> set (ls @ rs)" for x
  proof -
    have "set (pages_of x) \<subseteq> set (frame_pages f) - {p}" using x pg(1) by (auto simp: f)
    then have "set (pages_of x) \<subseteq> live_pages s - B" using pg(2,4) by blast
    from stored_touches [OF t this] sf x show ?thesis by (auto simp: f)
  qed
  have "stored (view s1) ?t" using body other C(1,2,7) sf r len by (auto simp: page_holds_def f)
  moreover have "set (frame_pages f) \<inter> set (pages_of l @ pages_of r) = {}" unfolding C(4) using pg(2,3) by blast
  then have "distinct (pages_of ?t)" using C(3) pg(1) by (auto simp: f)
  moreover have "set (pages_of ?t) = set (frame_pages f) \<union> set (pages_of l @ pages_of r)" by (auto simp: f)
  then have "set (pages_of ?t) = set (frame_pages f) \<union> A \<union> (live_pages s1 - live_pages s)" unfolding C(4) by auto
  moreover have "flat ?t = flat_left f @ fl @ flat_right f"
    using weave_hole [of "map flat ls" kl "flat l" "flat r # map flat rs" "sep # kr"] len by (simp add: f after_seps_Cons flip: C(5))
  moreover have "rows_of ?t = rows_left f @ rows @ rows_right f" by (simp add: f flip: C(6))
  moreover show "uniform h ?t" using un C(8,9) by (auto simp: f)
  ultimately show "rebuilt s s1 (set (frame_pages f) \<union> A) p h (flat_left f @ fl @ flat_right f) (rows_left f @ rows @ rows_right f) ?t"
    by (simp add: rebuilt_in_def)
qed

text \<open>The tree around the leaf of a descent, and what an insertion makes of it.\<close>

definition descent :: "pool \<Rightarrow> tframe list \<Rightarrow> nat \<Rightarrow> row list \<Rightarrow> nat \<Rightarrow> bool" where
  "descent s fs q rows h \<longleftrightarrow> (\<forall>f \<in> set fs. frame_wf f) \<and> stored (view s) (plug fs (TLeaf q rows))
     \<and> distinct (pages_of (plug fs (TLeaf q rows))) \<and> set (pages_of (plug fs (TLeaf q rows))) \<subseteq> live_pages s
     \<and> shaped h (plug fs (TLeaf q rows))"

lemma descentD:
  assumes "descent s fs q rows h"
  shows "\<forall>f \<in> set fs. frame_wf f" and "stored_ctx (view s) fs q" and "stored (view s) (TLeaf q rows)"
    and "distinct (ctx_pages fs)" and "distinct (pages_of (TLeaf q rows))" and "set (ctx_pages fs) \<inter> set (pages_of (TLeaf q rows)) = {}"
    and "set (ctx_pages fs) \<subseteq> live_pages s" and "set (pages_of (TLeaf q rows)) \<subseteq> live_pages s" and "uniform_ctx h fs" and "h - length fs = 1"
    and "set (pages_of (plug fs (TLeaf q rows))) = set (ctx_pages fs) \<union> set (pages_of (TLeaf q rows))"
  using assms by (auto simp: descent_def stored_plug distinct_pages_plug set_pages_plug shaped_plug)

lemma descent_same: "descent s fs q rows h \<Longrightarrow> unchanged s (view s') (live_pages s') \<Longrightarrow> descent s' fs q rows h"
  by (simp add: descent_def unchanged_def)

definition row_added :: "pool \<Rightarrow> pool \<Rightarrow> tframe list \<Rightarrow> nat \<Rightarrow> row list \<Rightarrow> nat \<Rightarrow> nat \<Rightarrow> int \<Rightarrow> bytes \<Rightarrow> bool" where
  "row_added s s' fs q rows h i k d \<longleftrightarrow> (\<exists>ids fl t. rebuilt s s' (set (pages_of (plug fs (TLeaf q rows)))) (hole fs q) h
     (ctx_left fs @ fl @ ctx_right fs) (ctx_rows_left fs @ ins_at i (k, d, ids) rows @ ctx_rows_right fs) t
     \<and> in_order (ins_at i (k, d, ids) rows) fl)"

lemma row_added_plug:
  assumes D: "descent s fs q rows h" and t: "touches H W n B s s'" "B \<inter> set (ctx_pages fs) = {}"
    and re: "rebuilt s s' (set (pages_of (TLeaf q rows))) q 1 fl (ins_at i (k, d, ids) rows) t" and un: "uniform 1 t \<or> fs = []"
    and ord: "in_order (ins_at i (k, d, ids) rows) fl"
  shows "row_added s s' fs q rows h i k d"
proof -
  note D = descentD [OF D]
  have dj: "set (ctx_pages fs) \<inter> (set (pages_of (TLeaf q rows)) \<union> B) = {}" using D(6) t(2) by blast
  from rebuilt_plug [OF _ _ t(1) D(1,2,4) dj D(7,9), of _ _ t] re un D(10)
  have "rebuilt s s' (set (ctx_pages fs) \<union> set (pages_of (TLeaf q rows))) (hole fs q) h (ctx_left fs @ fl @ ctx_right fs)
    (ctx_rows_left fs @ ins_at i (k, d, ids) rows @ ctx_rows_right fs) (plug fs t)" by simp
  then show ?thesis using ord unfolding row_added_def D(11) by blast
qed

lemma row_added_room:
  assumes D: "descent s fs q rows h" and t: "touches H W n {q} s s'" and ids: "distinct ids" "set ids \<inter> live_pages s = {}"
    "live_pages s' = live_pages s \<union> set ids" "row_stored (view s') (k, d, ids)" and pg: "page_holds (view s') q (leaf_body (ins_at i (k, d, ids) rows))"
  shows "row_added s s' fs q rows h i k d"
proof -
  note E = descentD [OF D]
  let ?R = "ins_at i (k, d, ids) rows"
  have rp: "set (row_pages rows) \<subseteq> live_pages s - {q}" "distinct (row_pages rows)" "q \<in> live_pages s" using E(5,8) by auto
  have "stored (view s') (TLeaf q ?R)"
    using pg rows_stored_ins [OF E(3) rp(1) t ids(4)] by (auto simp: page_holds_def)
  moreover have M: "mset (row_pages ?R) = mset ids + mset (row_pages rows)" by (rule row_pages_ins)
  then have S: "set (row_pages ?R) = set ids \<union> set (row_pages rows)" by (metis set_mset_mset set_mset_union)
  have "distinct (ids @ row_pages rows)" using ids(1,2) rp by auto
  then have "distinct (row_pages ?R)" using M by (metis mset_append mset_eq_imp_distinct_iff)
  then have "distinct (pages_of (TLeaf q ?R))" using S ids(2) rp by auto
  moreover have "set (pages_of (TLeaf q ?R)) = set (pages_of (TLeaf q rows)) \<union> (live_pages s' - live_pages s)" using S ids(2,3) by auto
  ultimately have "rebuilt s s' (set (pages_of (TLeaf q rows))) q 1 (flat (TLeaf q ?R)) ?R (TLeaf q ?R)" by (simp add: rebuilt_in_def)
  moreover have "{q} \<inter> set (ctx_pages fs) = {}" using E(6) by auto
  moreover have "in_order ?R (flat (TLeaf q ?R))" by (simp add: in_order_def)
  ultimately show ?thesis using row_added_plug [OF D t] by simp
qed

lemma split_root_tree:
  assumes s: "held H W s" and D: "descent s [] q rows h" and cap: "size H + 2 < bp_capacity s" and d: "rowid_ok k" "length d < 2 ^ 64"
    and sp: "chain_need d + 2 \<le> spare_pages s" and i: "sorted (map fst rows)" "i = scan_slot (map fst rows) k" and full: "\<not> fits (leaf_body rows) (length (leaf_cell (candidate k d)))"
  shows "\<exists>r s'. split_leaf q [(q, i)] k d s = (r, s') \<and> touches H W (chain_need d + 2) {q} s s'
    \<and> (r = Inl PageFullError \<and> oversized rows k d \<and> unchanged s (view s') (live_pages s') \<or> r = Inr () \<and> row_added s s' [] q rows h i k d)"
proof -
  note E = descentD [OF D]
  define Q where "Q = (\<lambda>(r :: (int \<times> nat) option res) v L. r = Inl PageFullError \<and> oversized rows k d \<and> unchanged s v L
    \<or> r = Inr None \<and> (\<exists>ids fl t. rebuilt_in (live_pages s) v L (set (pages_of (TLeaf q rows))) q 1 fl (ins_at i (k, d, ids) rows) t
        \<and> in_order (ins_at i (k, d, ids) rows) fl))"
  have q: "q \<in> live_pages s" and cap1: "size H + 1 < bp_capacity s" using E(8) cap by auto
  have body: "page_holds (view s) q (leaf_body rows)" using E(3) by (simp add: page_holds_def)
  have "\<exists>r s'. split_leaf q [(q, i)] k d s = after_split q [(q, i)] r s' \<and> touches H W (chain_need d + 2) {q} s s' \<and> Q r (view s') (live_pages s')"
  proof (rule split_leaf_root [OF s q cap1 body])
    fix s1
    assume s1: "held (add_mset q H) (insert q W) s1" "view s1 = view s" "live_pages s1 = live_pages s" "spare_pages s1 = spare_pages s"
      "bp_capacity s1 = bp_capacity s"
    have pre: "size (add_mset q H) + 1 < bp_capacity s1" "chain_need d + 2 \<le> spare_pages s1" "stored (view s1) (TLeaf q rows)"
      "set (pages_of (TLeaf q rows)) \<subseteq> live_pages s1"
      using cap sp E(3,8) s1 by simp_all
    from split_body_root [OF s1(1) insertI1 pre(1) d pre(2,3) E(5) pre(4) i full]
    show "\<exists>r s2. split_leaf_body q i k d None (leaf_body rows) s1 = (r, s2) \<and> touches (add_mset q H) (insert q W) (chain_need d + 2) {q} s1 s2
      \<and> Q r (view s2) (live_pages s2)"
      unfolding Q_def unchanged_def s1(2,3) .
  qed
  then obtain r s' where r: "split_leaf q [(q, i)] k d s = after_split q [(q, i)] r s'" "touches H W (chain_need d + 2) {q} s s'"
    "Q r (view s') (live_pages s')" by blast
  from r(3) consider (full) "r = Inl PageFullError" "oversized rows k d" "unchanged s (view s') (live_pages s')"
    | (added) ids fl t where "r = Inr None" "rebuilt s s' (set (pages_of (TLeaf q rows))) q 1 fl (ins_at i (k, d, ids) rows) t" "in_order (ins_at i (k, d, ids) rows) fl"
    unfolding Q_def by blast
  then show ?thesis
  proof cases
    case full
    then show ?thesis using r(1,2) by (simp add: after_split_def)
  next
    case added
    then have "row_added s s' [] q rows h i k d" using row_added_plug [OF D r(2) _ added(2) _ added(3)] by simp
    then show ?thesis using r(1,2) added(1) by (simp add: after_split_def)
  qed
qed

lemma touches_weaken: "touches H W n A s s' \<Longrightarrow> A \<subseteq> B \<Longrightarrow> n \<le> m \<Longrightarrow> touches H W m B s s'"
  by (auto simp: touches_def)

lemma split_child_tree:
  assumes s: "held H W s" and D: "descent s (gs @ [f]) q rows h" and cap: "size H + 3 < bp_capacity s" and d: "rowid_ok k" "length d < 2 ^ 64"
    and sp: "chain_need d + 1 + 2 * length (gs @ [f]) \<le> spare_pages s" and i: "sorted (map fst rows)" "i = scan_slot (map fst rows) k"
    and full: "\<not> fits (leaf_body rows) (length (leaf_cell (candidate k d)))"
  defines "path \<equiv> map frame_entry (gs @ [f]) @ [(q, i)]"
  shows "\<exists>r s'. split_leaf q path k d s = (r, s')
    \<and> touches H W (chain_need d + 1 + 2 * length (gs @ [f])) (set (pages_of (plug (gs @ [f]) (TLeaf q rows)))) s s'
    \<and> (r = Inl PageFullError \<and> oversized rows k d \<and> unchanged s (view s') (live_pages s') \<or> r = Inr () \<and> row_added s s' (gs @ [f]) q rows h i k d)"
proof -
  note E = descentD [OF D]
  obtain p ls kl kr rs where f: "f = Frame p ls kl kr rs" by (cases f)
  let ?B = "node_body (map pid ls @ q # map pid rs) (kl @ kr)" and ?A = "set (pages_of (TLeaf q rows))"
  define Q where "Q = (\<lambda>(r :: (int \<times> nat) option res) v L. r = Inl PageFullError \<and> oversized rows k d \<and> unchanged s v L
    \<or> (\<exists>res ids lt sep rt. r = Inr res \<and> pid lt = q
         \<and> cut_in (live_pages s) v L ?A 1 (flat lt @ (2 * sep + 1) # flat rt) (ins_at i (k, d, ids) rows) lt sep rt
         \<and> in_order (ins_at i (k, d, ids) rows) (flat lt @ (2 * sep + 1) # flat rt)
         \<and> (res = None \<and> page_holds v p (node_body (map pid ls @ [q, pid rt] @ map pid rs) (kl @ sep # kr))
            \<or> res = Some (sep, pid rt) \<and> page_holds v p ?B)))"
  have sf: "stored_frame (view s) f q" "frame_wf f" using E(1,2) by simp_all
  have q: "q \<in> live_pages s" "p \<in> live_pages s" "q \<noteq> p" and pA: "p \<notin> ?A" using E(6-8) by (auto simp: f)
  have len: "length (map pid ls) = length kl" "length (map pid rs) = length kr" using sf(2) by (simp_all add: f)
  have body: "page_holds (view s) q (leaf_body rows)" "page_holds (view s) p ?B" using E(3) sf(1) by (simp_all add: page_holds_def f)
  have ps: "\<forall>x \<in> set (map pid ls @ q # map pid rs). x < 2 ^ 32" "\<forall>k \<in> set (kl @ kr). rowid_ok k" using sf(1) by (auto simp: f)
  have cap2: "size H + 2 < bp_capacity s" using cap by simp
  have path: "path = map frame_entry gs @ [(p, length (map pid ls)), (q, i)]" by (simp add: path_def f)
  have "\<exists>r s'. split_leaf q path k d s = after_split q path r s' \<and> touches H W (chain_need d + 1) {q, p} s s' \<and> Q r (view s') (live_pages s')"
  proof (rule split_leaf_child [OF s q(1,2) cap2 body path])
    fix s2
    let ?H = "add_mset p (add_mset q H)" and ?W = "insert p (insert q W)"
    assume s2: "held ?H ?W s2" "view s2 = view s" "live_pages s2 = live_pages s" "spare_pages s2 = spare_pages s" "bp_capacity s2 = bp_capacity s"
    have pre: "q \<in> ?W" "p \<in> ?W" "size ?H + 1 < bp_capacity s2" "chain_need d + 1 \<le> spare_pages s2" "stored (view s2) (TLeaf q rows)"
      "?A \<subseteq> live_pages s2 - {p}" "page_holds (view s2) p ?B"
      using cap sp E(3,8) s2 pA body(2) by auto
    from split_body_child [OF s2(1) pre(1,2) q(3) pre(3) d pre(4,5) E(5) pre(6) i full len ps pre(7)]
    show "\<exists>r s3. split_leaf_body q i k d (Some (p, ?B, length (map pid ls))) (leaf_body rows) s2 = (r, s3)
      \<and> touches ?H ?W (chain_need d + 1) {q, p} s2 s3 \<and> Q r (view s3) (live_pages s3)"
      unfolding Q_def unchanged_def s2(2,3) .
  qed
  then obtain r s1 where r: "split_leaf q path k d s = after_split q path r s1" "touches H W (chain_need d + 1) {q, p} s s1"
    "Q r (view s1) (live_pages s1)" by blast
  let ?P = "set (pages_of (plug (gs @ [f]) (TLeaf q rows)))" and ?n = "chain_need d + 1 + 2 * length (gs @ [f])"
  have sub: "{q, p} \<subseteq> ?P" using E(11) by (auto simp: f)
  have wide: "touches H W ?n ?P s s1" using r(2) sub by (auto simp: touches_def)
  have split: "set (ctx_pages (gs @ [f])) = set (ctx_pages gs) \<union> set (frame_pages f)" by simp
  have pgs: "distinct (ctx_pages gs)" "distinct (frame_pages f)" "set (ctx_pages gs) \<inter> set (frame_pages f) = {}"
    "set (ctx_pages gs) \<inter> ?A = {}" "set (frame_pages f) \<inter> ?A = {}" "set (ctx_pages gs) \<subseteq> live_pages s" "set (frame_pages f) \<subseteq> live_pages s"
    using E(4,6,7) by auto
  from r(3) consider (full) "r = Inl PageFullError" "oversized rows k d" "unchanged s (view s1) (live_pages s1)"
    | (cut) res ids lt sep rt where "r = Inr res" "pid lt = q"
        "cut s s1 ?A 1 (flat lt @ (2 * sep + 1) # flat rt) (ins_at i (k, d, ids) rows) lt sep rt"
        "in_order (ins_at i (k, d, ids) rows) (flat lt @ (2 * sep + 1) # flat rt)"
        "res = None \<and> page_holds (view s1) p (node_body (map pid ls @ [q, pid rt] @ map pid rs) (kl @ sep # kr))
          \<or> res = Some (sep, pid rt) \<and> page_holds (view s1) p ?B"
    unfolding Q_def by blast
  then show ?thesis
  proof cases
    case full
    then show ?thesis using r(1) wide by (simp add: after_split_def)
  next
    case cut
    let ?R = "ins_at i (k, d, ids) rows" and ?fl = "flat lt @ (2 * sep + 1) # flat rt"
    have c: "stored (view s1) lt" "stored (view s1) rt" "distinct (pages_of lt @ pages_of rt)"
      "set (pages_of lt @ pages_of rt) = ?A \<union> (live_pages s1 - live_pages s)" "rowid_ok sep" "uniform 1 lt" "uniform 1 rt"
      using cut(3) by (simp_all add: cut_in_def)
    have lt: "set (pages_of lt @ pages_of rt) \<subseteq> live_pages s1" unfolding c(4) using E(8) touchesD(3) [OF r(2)] by blast
    then have "pid rt \<in> live_pages s1" using pid_in_pages [of rt] by auto
    then have r32: "pid rt < 2 ^ 32" using held_store.live_range [OF touchesD(1) [OF r(2)]] by blast
    from cut(5) show ?thesis
    proof (elim disjE conjE)
      assume res: "res = None" and b: "page_holds (view s1) p (node_body (map pid ls @ [q, pid rt] @ map pid rs) (kl @ sep # kr))"
      have h1: "h - length gs - 1 = 1" using E(10) by simp
      have "uniform_frame (h - length gs) f" "uniform_ctx h gs" using E(9) by simp_all
      moreover have "{q, p} \<inter> set (frame_pages f) \<subseteq> {p}" using pgs(5) by auto
      ultimately have re: "rebuilt s s1 (set (frame_pages f) \<union> ?A) p (h - length gs) (flat_left f @ ?fl @ flat_right f) (rows_left f @ ?R @ rows_right f)
          (TNode p (ls @ [lt, rt] @ rs) (kl @ sep # kr))"
        and un: "uniform (h - length gs) (TNode p (ls @ [lt, rt] @ rs) (kl @ sep # kr))"
        using node_in_place [OF r(2) _ f sf(2) _ pgs(2,7,5) _ _ r32, of "h - length gs" "?fl" ?R lt sep] cut(2,3) h1 sf(1) b by auto
      have "stored_ctx (view s) gs p" using E(2) by (simp add: f)
      moreover have "set (ctx_pages gs) \<inter> (set (frame_pages f) \<union> ?A \<union> {q, p}) = {}" using pgs(3,4) by (auto simp: f)
      ultimately have "rebuilt s s1 (set (ctx_pages gs) \<union> (set (frame_pages f) \<union> ?A)) (hole gs p) h
          (ctx_left gs @ (flat_left f @ ?fl @ flat_right f) @ ctx_right gs) (ctx_rows_left gs @ (rows_left f @ ?R @ rows_right f) @ ctx_rows_right gs)
          (plug gs (TNode p (ls @ [lt, rt] @ rs) (kl @ sep # kr)))"
        using E(1,9) pgs(1,6) un by (intro rebuilt_plug [OF re _ r(2)]) simp_all
      then have "row_added s s1 (gs @ [f]) q rows h i k d"
        using cut(4) unfolding row_added_def E(11) split
        by (intro exI [of _ ids] exI [of _ ?fl] exI [of _ "plug gs (TNode p (ls @ [lt, rt] @ rs) (kl @ sep # kr))"]) (simp add: f Un_assoc)
      then show ?thesis using r(1) wide cut(1) res by (simp add: after_split_def)
    next
      assume res: "res = Some (sep, pid rt)" and b: "page_holds (view s1) p ?B"
      let ?fs = "gs @ [f]"
      have keep: "view s1 x = view s x" if "x \<in> set (ctx_pages gs) \<union> (set (frame_pages f) - {p})" for x
      proof (rule touchesD(6) [OF r(2)])
        show "x \<in> live_pages s" using that pgs(6,7) by blast
        have "q \<in> ?A" "p \<in> set (frame_pages f)" by (simp_all add: f)
        then show "x \<notin> {q, p}" using that pgs(3-5) by blast
      qed
      have "stored_ctx (view s1) gs p" using E(2) keep by (subst stored_ctx_cong [where w = "view s"]) (auto simp: f)
      moreover have "stored_frame (view s1) f q"
      proof -
        have "stored (view s1) x = stored (view s) x" if "x \<in> set (ls @ rs)" for x
          using that keep pgs(2) by (intro stored_cong) (auto simp: f)
        then show ?thesis using sf(1) b by (auto simp: f page_holds_def)
      qed
      ultimately have ctx: "stored_ctx (view s1) ?fs (pid lt)" using cut(2) by (simp add: f)
      have "set (ctx_pages ?fs) \<inter> set (pages_of lt @ pages_of rt) = {}" unfolding c(4) split using pgs(4-7) by blast
      then have dist: "distinct (ctx_pages ?fs @ pages_of lt @ pages_of rt)" using E(4) c(3) by simp blast
      have live: "set (ctx_pages ?fs @ pages_of lt @ pages_of rt) \<subseteq> live_pages s1" using lt E(7) touchesD(3) [OF r(2)] by auto
      have pre: "size H + 2 < bp_capacity s1" "2 * length ?fs \<le> spare_pages s1" "?fs \<noteq> []" using cap sp touchesD(4,5) [OF r(2)] by auto
      have un: "uniform (h - length ?fs) lt" "uniform (h - length ?fs) rt" using c(6,7) E(10) by simp_all
      from promote_loop [OF touchesD(1) [OF r(2)] pre E(1) ctx c(1,2) dist live c(5) E(9) un, of "[(q, i)]"] obtain s' t where
        pr: "promote_separator path (length ?fs - 1) q sep (pid rt) s1 = (Inr (), s')"
          "touches H W (2 * length ?fs) (set (ctx_pages ?fs @ pages_of lt @ pages_of rt)) s1 s'"
        and re: "rebuilt s1 s' (set (ctx_pages ?fs @ pages_of lt @ pages_of rt)) (hole ?fs (pid lt)) h
          (ctx_left ?fs @ flat lt @ (2 * sep + 1) # flat rt @ ctx_right ?fs) (ctx_rows_left ?fs @ rows_of lt @ rows_of rt @ ctx_rows_right ?fs) t"
        unfolding path_def cut(2) by blast
      have "rows_of lt @ rows_of rt = ?R" using cut(3) by (simp add: cut_in_def)
      then have rows: "ctx_rows_left ?fs @ rows_of lt @ rows_of rt @ ctx_rows_right ?fs = ctx_rows_left ?fs @ ?R @ ctx_rows_right ?fs"
        by (metis append_assoc)
      have "rebuilt s s' (set (ctx_pages ?fs) \<union> ?A) (hole ?fs q) h (ctx_left ?fs @ ?fl @ ctx_right ?fs) (ctx_rows_left ?fs @ ?R @ ctx_rows_right ?fs) t"
        using rebuilt_after_cut [OF cut(3), of s' "set (ctx_pages ?fs)"] re touchesD(3) [OF r(2)] touchesD(3) [OF pr(2)]
        unfolding rows cut(2) by (simp add: Un_assoc)
      then have "row_added s s' ?fs q rows h i k d" using cut(4) unfolding row_added_def E(11) by blast
      moreover have "split_leaf q path k d s = (Inr (), s')" using r(1) cut(1) res pr(1) by (simp add: after_split_def path_def)
      moreover have "touches H W ?n ?P s s'"
      proof (rule touches_trans [OF r(2) pr(2)])
        show "set (ctx_pages ?fs @ pages_of lt @ pages_of rt) \<inter> live_pages s \<subseteq> ?P"
          using c(4) E(11) by auto
      qed (use sub in simp_all)
      ultimately show ?thesis by blast
    qed
  qed
qed

lemma insert_at_tree:
  assumes s: "held H W s" and D: "descent s fs q rows h" and cap: "size H + 3 < bp_capacity s" and d: "rowid_ok k" "length d < 2 ^ 64"
    and sp: "chain_need d + 2 + 2 * length fs \<le> spare_pages s" and srt: "sorted (map fst rows)" and i: "i = scan_slot (map fst rows) k"
  defines "path \<equiv> map frame_entry fs @ [(q, i)]" and "P \<equiv> set (pages_of (plug fs (TLeaf q rows)))"
  shows "\<exists>r s'. insert_at path k d s = (r, s') \<and> touches H W (chain_need d + 2 + 2 * length fs) P s s'
    \<and> (k \<in> fst ` set rows \<and> r = Inl DuplicateRowIDError \<and> unchanged s (view s') (live_pages s')
       \<or> k \<notin> fst ` set rows \<and> (r = Inl PageFullError \<and> oversized rows k d \<and> unchanged s (view s') (live_pages s')
            \<or> r = Inr () \<and> row_added s s' fs q rows h i k d))"
proof -
  note E = descentD [OF D]
  let ?n = "chain_need d + 2 + 2 * length fs"
  have q: "q \<in> live_pages s" "q \<in> P" using E(8) by (auto simp: P_def E(11))
  have pre: "size H + 1 < bp_capacity s" "chain_need d \<le> spare_pages s" "last path = (q, i)" using cap sp by (simp_all add: path_def)
  have il: "i \<le> length rows" using scan_slot_le [of "map fst rows" k] i by simp
  show ?thesis
  proof (rule insert_at_cases [OF s q(1) pre(1) d pre(2) E(3) srt i pre(3)])
    fix s'
    assume "k \<in> fst ` set rows" "insert_at path k d s = (Inl DuplicateRowIDError, s')" "touches H W 0 {} s s'"
      "unchanged s (view s') (live_pages s')"
    then show ?thesis using touches_weaken [of H W 0 "{}" s s' P ?n] by auto
  next
    fix ids s'
    assume w: "k \<notin> fst ` set rows" "insert_at path k d s = (Inr (), s')" "touches H W (chain_need d) {q} s s'" "distinct ids"
      "set ids \<inter> live_pages s = {}" "live_pages s' = live_pages s \<union> set ids" "row_stored (view s') (k, d, ids)"
      "page_holds (view s') q (leaf_body (ins_at i (k, d, ids) rows))"
    then show ?thesis using row_added_room [OF D w(3-8)] touches_weaken [OF w(3), of P ?n] q(2) by auto
  next
    fix s1
    assume w: "k \<notin> fst ` set rows" "\<not> fits (leaf_body rows) (length (leaf_cell (candidate k d)))"
      "insert_at path k d s = split_leaf q path k d s1" "touches H W 0 {} s s1" "unchanged s (view s1) (live_pages s1)"
    have D1: "descent s1 fs q rows h" by (rule descent_same [OF D w(5)])
    have un: "unchanged s1 v L \<longleftrightarrow> unchanged s v L" and ra: "row_added s1 s2 fs q rows h i k d \<longleftrightarrow> row_added s s2 fs q rows h i k d" for v L s2
      using w(5) by (simp_all add: unchanged_def row_added_def)
    have "\<exists>r s'. split_leaf q path k d s1 = (r, s') \<and> touches H W ?n P s1 s'
      \<and> (r = Inl PageFullError \<and> oversized rows k d \<and> unchanged s1 (view s') (live_pages s') \<or> r = Inr () \<and> row_added s1 s' fs q rows h i k d)"
    proof (cases fs rule: rev_exhaust)
      case Nil
      have "size H + 2 < bp_capacity s1" "chain_need d + 2 \<le> spare_pages s1" using cap sp touchesD(4,5) [OF w(4)] by (auto simp: Nil)
      from split_root_tree [OF touchesD(1) [OF w(4)] D1 [unfolded Nil] this(1) d this(2) srt i w(2)] obtain r s' where
        r: "split_leaf q path k d s1 = (r, s')" "touches H W (chain_need d + 2) {q} s1 s'"
          "r = Inl PageFullError \<and> oversized rows k d \<and> unchanged s1 (view s') (live_pages s') \<or> r = Inr () \<and> row_added s1 s' fs q rows h i k d"
        by (auto simp: path_def Nil)
      from touches_weaken [OF r(2), of P ?n] q(2) r(1,3) show ?thesis by auto
    next
      case (snoc gs f)
      have "size H + 3 < bp_capacity s1" "chain_need d + 1 + 2 * length (gs @ [f]) \<le> spare_pages s1"
        using cap sp touchesD(4,5) [OF w(4)] by (auto simp: snoc)
      from split_child_tree [OF touchesD(1) [OF w(4)] D1 [unfolded snoc] this(1) d this(2) srt i w(2)] obtain r s' where
        r: "split_leaf q path k d s1 = (r, s')" "touches H W (chain_need d + 1 + 2 * length fs) P s1 s'"
          "r = Inl PageFullError \<and> oversized rows k d \<and> unchanged s1 (view s') (live_pages s') \<or> r = Inr () \<and> row_added s1 s' fs q rows h i k d"
        unfolding path_def P_def snoc by blast
      from touches_weaken [OF r(2), of P ?n] r(1,3) show ?thesis by auto
    qed
    then obtain r s' where r: "split_leaf q path k d s1 = (r, s')" "touches H W ?n P s1 s'"
      "r = Inl PageFullError \<and> oversized rows k d \<and> unchanged s1 (view s') (live_pages s') \<or> r = Inr () \<and> row_added s1 s' fs q rows h i k d" by blast
    have "touches H W ?n P s s'" by (rule touches_trans [OF w(4) r(2)]) auto
    then show ?thesis using r(1,3) w(1,3) un ra by auto
  qed
qed

section \<open>Insertion\<close>

text \<open>
  The result of inserting a row into the table \<open>t\<close>: which error when, with the table untouched; or a
  table with the row in its place, whose pages are the old ones and those newly allocated.
\<close>

definition insert_result :: "pool \<Rightarrow> nat \<Rightarrow> nat \<Rightarrow> ttree \<Rightarrow> int \<Rightarrow> bytes \<Rightarrow> unit res \<Rightarrow> pool \<Rightarrow> bool" where
  "insert_result s root h t k d r s' \<longleftrightarrow>
     (case r of
        Inl e \<Rightarrow> view s' = view s \<and> live_pages s' = live_pages s \<and> (if k \<in> fst ` set (rows_of t) then e = DuplicateRowIDError else e = PageFullError \<and> oversized (rows_of t) k d)
      | Inr _ \<Rightarrow> k \<notin> fst ` set (rows_of t) \<and> (\<forall>p \<in> live_pages s - set (pages_of t). view s' p = view s p) \<and> live_pages s \<subseteq> live_pages s'
          \<and> (\<exists>h' t' ids. table_tree s' root h' t' \<and> h \<le> h' \<and> h' \<le> Suc h \<and> rows_of t' = insort_key fst (k, d, ids) (rows_of t)
               \<and> set (pages_of t') = set (pages_of t) \<union> (live_pages s' - live_pages s)))"

lemma row_added_table:
  assumes t: "table_tree s root h t" "t = plug fs (TLeaf q rows)" and wf: "\<forall>f \<in> set fs. frame_wf f"
    and ord: "\<forall>x \<in> set (ctx_left fs). x < 2 * k" "\<forall>x \<in> set (ctx_right fs). 2 * k < x" and new: "k \<notin> fst ` set rows"
    and srt: "sorted (map fst rows)" and add: "row_added s s' fs q rows h (scan_slot (map fst rows) k) k d" and mono: "live_pages s \<subseteq> live_pages s'"
  shows "\<exists>h' t' ids. table_tree s' root h' t' \<and> h \<le> h' \<and> h' \<le> Suc h \<and> rows_of t' = insort_key fst (k, d, ids) (rows_of t)
    \<and> set (pages_of t') = set (pages_of t) \<union> (live_pages s' - live_pages s)"
proof -
  let ?i = "scan_slot (map fst rows) k"
  have T: "pid t = root" "stored (view s) t" "set (pages_of t) \<subseteq> live_pages s" "sorted_wrt (<) (flat t)"
    using t(1) by (simp_all add: table_tree_def)
  from add obtain ids fl t' where
    re: "rebuilt s s' (set (pages_of t)) (hole fs q) h (ctx_left fs @ fl @ ctx_right fs) (ctx_rows_left fs @ ins_at ?i (k, d, ids) rows @ ctx_rows_right fs) t'"
    and io: "in_order (ins_at ?i (k, d, ids) rows) fl" unfolding row_added_def t(2) by blast
  have fl: "flat t = ctx_left fs @ map (\<lambda>r. 2 * fst r) rows @ ctx_right fs" using flat_plug [OF wf] by (simp add: t(2))
  have "sorted_wrt (<) (ctx_left fs @ map (\<lambda>r. 2 * fst r) (ins_at ?i (k, d, ids) rows) @ ctx_right fs)"
    using T(4) ord new unfolding fl by (intro ins_at_order) simp_all
  then have "sorted_wrt (<) (flat t')" using io re by (simp add: in_order_def rebuilt_in_def)
  moreover have "hole fs q = root" using T(1) by (simp add: t(2) pid_plug)
  moreover have "set (pages_of t') \<subseteq> live_pages s'" using re T(3) mono by (auto simp: rebuilt_in_def)
  ultimately have "table_tree s' root h t' \<or> table_tree s' root (Suc h) t'" using re by (auto simp: table_tree_def rebuilt_in_def intro: shapedI(1))
  moreover have "ctx_rows_left fs @ ins_at ?i (k, d, ids) rows @ ctx_rows_right fs = insort_key fst (k, d, ids) (rows_of t)"
    using ins_at_insort [OF srt, of ?i "(k, d, ids)" "ctx_rows_left fs" "ctx_rows_right fs"] rows_ctx_keys [OF T(2) [unfolded t(2)] wf ord]
    by (simp add: t(2) rows_plug)
  then have "rows_of t' = insort_key fst (k, d, ids) (rows_of t)" using re by (simp add: rebuilt_in_def)
  moreover have "set (pages_of t') = set (pages_of t) \<union> (live_pages s' - live_pages s)" using re by (simp add: rebuilt_in_def)
  ultimately show ?thesis by (metis le_refl le_SucI)
qed

lemma btree_insert_tree:
  assumes s: "held H W s" and cap: "size H + 3 < bp_capacity s" and t: "table_tree s root h t" and d: "rowid_ok k" "length d < 2 ^ 64"
    and sp: "chain_need d + 2 * h \<le> spare_pages s"
  shows "\<exists>r s'. btree_insert root k d s = Some (r, s') \<and> touches H W (chain_need d + 2 * h) (set (pages_of t)) s s'
    \<and> insert_result s root h t k d r s'"
proof -
  have T: "pid t = root" "stored (view s) t" "distinct (pages_of t)" "set (pages_of t) \<subseteq> live_pages s" "sorted_wrt (<) (flat t)" "shaped h t"
    using t by (simp_all add: table_tree_def)
  have "size H + 1 < bp_capacity s" using cap by simp
  from find_leaf_loop [OF s this T(2,4,5), of k "[]"] obtain fs q rows s1 where
    f: "find_leaf root k s = Some (Inr (map frame_entry fs @ [(q, scan_slot (map fst rows) k)]), s1)" and pl: "t = plug fs (TLeaf q rows)"
    and wf: "\<forall>f \<in> set fs. frame_wf f" and ord: "\<forall>x \<in> set (ctx_left fs). x < 2 * k" "\<forall>x \<in> set (ctx_right fs). 2 * k < x" and calm: "calm H W s s1"
    by (auto simp: find_leaf_def T(1))
  let ?i = "scan_slot (map fst rows) k" and ?path = "map frame_entry fs @ [(q, scan_slot (map fst rows) k)]"
  have c: "held H W s1" "view s1 = view s" "live_pages s1 = live_pages s" "spare_pages s1 = spare_pages s" "bp_capacity s1 = bp_capacity s" "txn_frame s s1"
    using calm frame_txn_frame by (auto simp: calm_def frame_def)
  have t1: "touches H W 0 {} s s1" using c by (simp add: touches_def)
  have D: "descent s1 fs q rows h" using T wf c(2,3) by (simp add: descent_def pl)
  have fl: "flat t = ctx_left fs @ map (\<lambda>r. 2 * fst r) rows @ ctx_right fs" using flat_plug [OF wf] by (simp add: pl)
  have srt: "sorted (map fst rows)"
    using leaf_slot(2) [of "view s" q rows] T(2,5) unfolding fl by (simp add: pl stored_plug sorted_wrt_append)
  have "uniform_ctx h fs \<and> h - length fs = 1" using descentD(9,10) [OF D] by simp
  then have hl: "h = Suc (length fs)" by arith
  have pre: "size H + 3 < bp_capacity s1" "chain_need d + 2 + 2 * length fs \<le> spare_pages s1" using cap sp c by (simp_all add: hl)
  from insert_at_tree [OF c(1) D pre(1) d pre(2) srt refl] obtain r s' where
    r: "insert_at ?path k d s1 = (r, s')" "touches H W (chain_need d + 2 + 2 * length fs) (set (pages_of t)) s1 s'"
    and o: "k \<in> fst ` set rows \<and> r = Inl DuplicateRowIDError \<and> unchanged s1 (view s') (live_pages s')
       \<or> k \<notin> fst ` set rows \<and> (r = Inl PageFullError \<and> oversized rows k d \<and> unchanged s1 (view s') (live_pages s')
            \<or> r = Inr () \<and> row_added s1 s' fs q rows h ?i k d)" unfolding pl by blast
  have run: "btree_insert root k d s = Some (r, s')" using f r(1) by (simp add: btree_insert_def bind_pop_def total_op_def)
  have tt: "touches H W (chain_need d + 2 * h) (set (pages_of t)) s s'" by (rule touches_trans [OF t1 r(2)]) (simp_all add: hl)
  note K = rows_ctx_keys [OF T(2) [unfolded pl] wf ord]
  have "k \<notin> fst ` set (ctx_rows_left fs)" "k \<notin> fst ` set (ctx_rows_right fs)" using K(1) K(2) by fastforce+
  then have keys: "k \<in> fst ` set (rows_of t) \<longleftrightarrow> k \<in> fst ` set rows" by (simp add: pl rows_plug image_Un)
  have "insert_result s root h t k d r s'"
  proof (cases r)
    case (Inl e)
    have "set rows \<subseteq> set (rows_of t)" by (auto simp: pl rows_plug)
    then have "oversized rows k d \<Longrightarrow> oversized (rows_of t) k d" by (auto simp: oversized_def)
    then show ?thesis using Inl o keys c(2,3) by (auto simp: insert_result_def unchanged_def)
  next
    case (Inr u)
    then have add: "row_added s s' fs q rows h ?i k d" and new: "k \<notin> fst ` set rows" using o c(2,3) by (auto simp: row_added_def)
    from row_added_table [OF t pl wf ord new srt add touchesD(3) [OF tt]] show ?thesis
      using Inr new keys touchesD(3,6) [OF tt] by (auto simp: insert_result_def)
  qed
  with run tt show ?thesis by blast
qed

end
