(* ===== verification/TreeDelete.thy ===== *)
theory TreeDelete
  imports TreeInsert "HOL-Library.Sublist"
begin

text \<open>
  \<^verbatim>\<open>BTree.delete\<close>: the row leaves its leaf and its overflow pages are freed; an emptied leaf is freed too,
  and with it every page above it that has no child left.
\<close>

section \<open>Giving pages back\<close>

definition frees :: "nat multiset \<Rightarrow> nat set \<Rightarrow> nat set \<Rightarrow> nat set \<Rightarrow> pool \<Rightarrow> pool \<Rightarrow> bool" where
  "frees H W F A s s' \<longleftrightarrow> held H W s' \<and> txn_frame s s' \<and> live_pages s' = live_pages s - F \<and> spare_pages s \<le> spare_pages s'
     \<and> (\<forall>q \<in> live_pages s' - A. view s' q = view s q)"

lemma freesD:
  assumes "frees H W F A s s'"
  shows "held H W s'" and "txn_frame s s'" and "live_pages s' = live_pages s - F" and "spare_pages s \<le> spare_pages s'"
    and "bp_capacity s' = bp_capacity s" and "q \<in> live_pages s \<Longrightarrow> q \<notin> F \<Longrightarrow> q \<notin> A \<Longrightarrow> view s' q = view s q"
  using assms by (auto simp: frees_def txn_frame_def)

lemma frees_trans:
  assumes "frees H W F A s s'" and "frees H' W' G B s' s''" and "K = F \<union> G" and "A \<subseteq> C" and "B \<subseteq> C"
  shows "frees H' W' K C s s''"
proof -
  note D = freesD [OF assms(1)] note E = freesD [OF assms(2)]
  have "live_pages s'' = live_pages s - K" unfolding E(3) D(3) assms(3) by auto
  moreover have "view s'' q = view s q" if "q \<in> live_pages s'' - C" for q
  proof -
    have "q \<in> live_pages s" "q \<in> live_pages s'" "q \<notin> F" "q \<notin> G" "q \<notin> A" "q \<notin> B" using that assms(4,5) unfolding E(3) D(3) by auto
    then show ?thesis using D(6) E(6) by simp
  qed
  ultimately show ?thesis using D E txn_frame_trans [OF D(2) E(2)] by (simp add: frees_def)
qed

lemma frees_touches: "touches H W 0 A s s' \<Longrightarrow> live_pages s' = live_pages s \<Longrightarrow> frees H W {} A s s'"
  by (simp add: touches_def frees_def)

lemma stored_frees: "frees H W F A s s' \<Longrightarrow> set (pages_of t) \<subseteq> live_pages s - (F \<union> A) \<Longrightarrow> stored (view s') t = stored (view s) t"
  by (rule stored_cong) (auto dest: freesD(6))

lemma free_page_frees:
  assumes "held H W s" and "p \<in> live_pages s" and "p \<noteq> 1" and "p \<notin># H"
  shows "\<exists>s'. free_page p s = (Inr (), s') \<and> frees H W {p} {} s s'"
  using free_page_held [OF assms] by (fastforce simp: frees_def)

lemma free_chain_frees:
  assumes s: "held H W s" and r: "row_stored (view s) (k, d, ids)" and ids: "set ids \<subseteq> live_pages s" "distinct ids" "1 \<notin> set ids"
    "set ids \<inter> set_mset H = {}"
  shows "\<exists>s'. (if first_page ids \<noteq> 0 then free_overflow_chain load_page free_page (first_page ids) else total_op skip) s = Some (Inr (), s')
    \<and> frees H W (set ids) {} s s'"
proof (cases ids)
  case Nil
  then show ?thesis using s by (simp add: first_page_def total_op_def skip_def ret_def frees_def)
next
  case (Cons p ps)
  have "p \<noteq> 0" using r by (simp add: row_stored_def row_ok_def Cons)
  have i: "held H W s \<and> txn_frame s s" using s by simp
  have ch: "on_chain (view s) ids (drop (local_len d) d)" using r by (simp add: row_stored_def)
  have "set ids \<inter> set [] = {}" by simp
  from txn_store.free_chain_spec [OF i ids(1,2) this ch ids(3,4), of p] Cons obtain s' where
    f: "free_chain load_page free_page [] p s = Some (Inr (), s')" "held H W s' \<and> txn_frame s s'" "live_pages s' = live_pages s - set ids"
      "spare_pages s' = spare_pages s + length ids" "\<forall>q \<in> live_pages s'. view s' q = view s q" by auto
  then show ?thesis using \<open>p \<noteq> 0\<close> by (auto simp: first_page_def Cons free_overflow_chain_def frees_def)
qed

section \<open>The leaf\<close>

definition del_at :: "nat \<Rightarrow> 'a list \<Rightarrow> 'a list" where
  "del_at i xs = take i xs @ drop (Suc i) xs"

lemma del_at_map: "map f (del_at i xs) = del_at i (map f xs)"
  by (simp add: del_at_def take_map drop_map)

lemma del_at_set: "set (del_at i xs) \<subseteq> set xs"
  by (auto simp: del_at_def dest: in_set_takeD in_set_dropD)

lemma del_at_split: "i < length xs \<Longrightarrow> xs = take i xs @ xs ! i # drop (Suc i) xs"
  by (rule id_take_nth_drop)

lemma subseq_skip: "subseq (xs @ ys) (xs @ k # ys)"
  by (induction xs) auto

lemma del_at_subseq: "subseq (del_at i xs) xs"
proof (cases "i < length xs")
  case True
  show ?thesis by (subst (2) del_at_split [OF True]) (simp add: del_at_def subseq_skip)
qed (simp add: del_at_def)

lemma del_at_used: "used_bytes (leaf_body (del_at i rows)) \<le> used_bytes (leaf_body rows)"
proof (cases "i < length rows")
  case True
  have "footprint (map leaf_cell rows) = footprint (map leaf_cell (take i rows @ rows ! i # drop (Suc i) rows))"
    using del_at_split [OF True] by simp
  then show ?thesis by (simp add: used_bytes_leaf del_at_def)
qed (simp add: del_at_def)

lemma delete_from_leaf_spec:
  assumes s: "held H W s" and q: "q \<in> live_pages s" and cap: "size H + 1 < bp_capacity s" and leaf: "stored (view s) (TLeaf q rows)"
    and place: "sorted (map fst rows)" "i = scan_slot (map fst rows) k"
  shows "\<exists>r s'. delete_from_leaf q i k s = (Inr r, s') \<and> frees H W {} {q} s s'
    \<and> (k \<notin> fst ` set rows \<and> r = None \<and> view s' = view s
       \<or> (\<exists>d ids. i < length rows \<and> rows ! i = (k, d, ids) \<and> r = Some (first_page ids, del_at i rows = [])
            \<and> page_holds (view s') q (leaf_body (del_at i rows))))"
proof -
  have body: "page_holds (view s) q (leaf_body rows)" using leaf by (simp add: page_holds_def)
  note ok = stored_rows_ok [OF leaf]
  define m where "m = (\<lambda>body. if length (pb_cells body) \<le> i then ret None
            else bind_op (lift_res (decode_leaf_table_cell (pb_cells body ! i))) (\<lambda>(found_rowid, _, _, overflow_page).
              if found_rowid \<noteq> k then ret None
              else bind_op (lift_res (delete_cell i body)) (\<lambda>body'.
                   bind_op (put_body q body') (\<lambda>_. ret (Some (overflow_page, pb_cells body' = []))))))"
  define Q where "Q = (\<lambda>(x :: (nat \<times> bool) option res) v L. L = live_pages s \<and> (\<exists>r. x = Inr r
    \<and> (k \<notin> fst ` set rows \<and> r = None \<and> v = view s
       \<or> (\<exists>d ids. i < length rows \<and> rows ! i = (k, d, ids) \<and> r = Some (first_page ids, del_at i rows = [])
            \<and> page_holds v q (leaf_body (del_at i rows))))))"
  have "\<exists>x s'. bind_op (get_page_for_write q) (\<lambda>raw. finally_op (bind_op (lift_res (parse_page raw 0)) m) (unpin q False)) s = (x, s')
    \<and> touches H W 0 {q} s s' \<and> Q x (view s') (live_pages s')"
  proof (rule write_block [OF s q cap body])
    fix s1
    assume s1: "held (add_mset q H) (insert q W) s1" "view s1 = view s" "live_pages s1 = live_pages s" "spare_pages s1 = spare_pages s"
      "bp_capacity s1 = bp_capacity s"
    have t1: "touches (add_mset q H) (insert q W) 0 {q} s1 s1" using s1(1) by (simp add: touches_def)
    show "\<exists>x s2. m (leaf_body rows) s1 = (x, s2) \<and> touches (add_mset q H) (insert q W) 0 {q} s1 s2 \<and> Q x (view s2) (live_pages s2)"
    proof (cases "k \<in> fst ` set rows")
      case True
      then have i: "i < length rows" "fst (rows ! i) = k" using duplicate_slot [OF place] by simp_all
      obtain d ids where r: "rows ! i = (k, d, ids)" using i(2) by (cases "rows ! i") auto
      have rok: "row_ok (k, d, ids)" using ok nth_mem [OF i(1)] r by metis
      have "page_ok (leaf_body (del_at i rows))"
        using body del_at_used [of i rows] by (intro page_ok_body(1)) (simp add: page_holds_def)
      from put_body_touches [OF s1(1) insertI1 this] obtain s2 where
        p: "put_body q (leaf_body (del_at i rows)) s1 = (Inr (), s2)" "touches (add_mset q H) (insert q W) 0 {q} s1 s2"
          "live_pages s2 = live_pages s1" "page_holds (view s2) q (leaf_body (del_at i rows))" by auto
      have del: "delete_cell i (leaf_body rows) = Inr (leaf_body (del_at i rows))"
        using i(1) by (simp add: delete_cell_def cell_count_def leaf_body_def mk_page_def del_at_def take_map drop_map)
      have "m (leaf_body rows) s1 = (Inr (Some (first_page ids, del_at i rows = [])), s2)"
        using i r leaf_cell_decode [OF rok] del p(1) by (simp add: m_def bind_op_run ret_def)
      then show ?thesis using p i r s1(3) by (auto simp: Q_def)
    next
      case False
      have "m (leaf_body rows) s1 = (Inr None, s1)"
      proof (cases "i < length rows")
        case True
        obtain k' d ids where r: "rows ! i = (k', d, ids)" by (cases "rows ! i")
        have "row_ok (k', d, ids)" using ok nth_mem [OF True] r by metis
        moreover have "k' \<noteq> k" using duplicate_slot [OF place] False True r by auto
        ultimately show ?thesis using True r by (simp add: m_def leaf_cell_decode ret_def)
      qed (simp add: m_def ret_def)
      then show ?thesis using False t1 s1(2,3) by (auto simp: Q_def)
    qed
  qed
  then show ?thesis unfolding delete_from_leaf_def m_def Q_def using frees_touches by blast
qed

section \<open>Taking a child out of its parent\<close>

text \<open>What is left of a level when the child in its hole is gone: its children and separators.\<close>

fun rest_children :: "tframe \<Rightarrow> ttree list" where
  "rest_children (Frame p ls kl kr rs) = ls @ rs"

fun rest_seps :: "tframe \<Rightarrow> int list" where
  "rest_seps (Frame p ls kl kr rs) = (if kr = [] then butlast kl else kl @ tl kr)"

lemma rest_length: "frame_wf f \<Longrightarrow> rest_children f \<noteq> [] \<Longrightarrow> length (rest_children f) = Suc (length (rest_seps f))"
  by (cases f) (auto simp: length_0_conv neq_Nil_conv)

lemma unlink_child_node:
  assumes len: "length ls = length kl" "length rs = length kr" and ps: "\<forall>x \<in> set (ls @ rs). x < 2 ^ 32" and ks: "\<forall>k \<in> set (kl @ kr). rowid_ok k"
  shows "unlink_child (length ls) (node_body (ls @ q # rs) (kl @ kr))
    = Inr (if ls @ rs = [] then mk_page INTERIOR_TABLE [] 0 else node_body (ls @ rs) (if kr = [] then butlast kl else kl @ tl kr))"
proof (cases kr)
  case (Cons k kr')
  then obtain r rs' where rs: "rs = r # rs'" using len by (cases rs) auto
  have "map2 node_cell (ls @ q # rs) (kl @ kr) = map2 node_cell ls kl @ node_cell q k # map2 node_cell rs kr'"
    using len by (simp add: Cons map2_around)
  moreover have "length (map2 node_cell ls kl) = length ls" using len by simp
  moreover have "map2 node_cell (ls @ rs) (kl @ kr') = map2 node_cell ls kl @ map2 node_cell rs kr'" using len by (simp add: map2_around)
  moreover have "last (ls @ q # rs) = last (ls @ rs)" by (simp add: rs)
  ultimately show ?thesis
    using len by (simp add: unlink_child_def delete_cell_def cell_count_def node_body_def mk_page_def Cons rs)
next
  case Nil
  then have rs: "rs = []" using len by simp
  show ?thesis
  proof (cases kl rule: rev_cases)
    case Nil
    then show ?thesis using \<open>kr = []\<close> rs len by (simp add: unlink_child_def node_body_def mk_page_def)
  next
    case (snoc kl' k)
    then obtain ls' l where ls: "ls = ls' @ [l]" "length ls' = length kl'" using len(1) by (cases ls rule: rev_cases) auto
    have cells: "map2 node_cell (ls @ [q]) kl = map2 node_cell ls' kl' @ [node_cell l k]"
      using ls by (simp add: snoc map2_around)
    have "map2 node_cell (ls' @ [l]) kl' = map2 node_cell ls' kl'" using ls by (simp add: map2_around)
    moreover have "decode_interior_table_cell (node_cell l k) = Inr (l, k)" using ps ks by (intro node_cell_decode) (simp_all add: ls snoc)
    ultimately show ?thesis
      using cells ls \<open>kr = []\<close> rs
      by (simp add: unlink_child_def delete_cell_def cell_count_def snoc node_body_def mk_page_def)
  qed
qed

lemma rest_used:
  assumes "frame_wf f" and "f = Frame p ls kl kr rs" and "used_bytes (node_body (map pid ls @ q # map pid rs) (kl @ kr)) \<le> PAGE_SIZE"
  shows "used_bytes (node_body (map pid (rest_children f)) (rest_seps f)) \<le> PAGE_SIZE"
proof (cases kr)
  case (Cons k kr')
  then show ?thesis using assms by (simp add: used_bytes_node map2_around)
next
  case Nil
  then show ?thesis
  proof (cases kl rule: rev_cases)
    case (snoc kl' k)
    then obtain ls' l where "ls = ls' @ [l]" "length ls' = length kl'" using assms(1,2) by (cases ls rule: rev_cases) auto
    then show ?thesis using assms snoc Nil by (simp add: used_bytes_node map2_around)
  qed (use assms in \<open>simp add: used_bytes_node\<close>)
qed

text \<open>What one round leaves on the parent's page.\<close>

definition rest_body :: "nat \<Rightarrow> tframe \<Rightarrow> page_body" where
  "rest_body level f = (if rest_children f \<noteq> [] then node_body (map pid (rest_children f)) (rest_seps f)
     else if level = 0 then leaf_body [] else mk_page INTERIOR_TABLE [] 0)"

lemma rest_body_ok:
  assumes sf: "stored_frame v f c" and wf: "frame_wf f" and small: "\<forall>x \<in> set (map pid (rest_children f)). x < 2 ^ 32"
  shows "page_ok (rest_body level f)" and "used_bytes (rest_body level f) \<le> PAGE_SIZE"
proof -
  obtain p ls kl kr rs where f: "f = Frame p ls kl kr rs" by (cases f)
  have used: "used_bytes (node_body (map pid (rest_children f)) (rest_seps f)) \<le> PAGE_SIZE"
    using sf by (intro rest_used [OF wf f, of c]) (simp add: f)
  have empty: "used_bytes (mk_page INTERIOR_TABLE [] 0) \<le> PAGE_SIZE" "used_bytes (leaf_body []) \<le> PAGE_SIZE"
    by (simp_all add: used_bytes_footprint leaf_body_def mk_page_def header_size_eq is_leaf_def PAGE_SIZE_def)
  have e: "page_ok (mk_page INTERIOR_TABLE [] 0)" using empty by (simp add: page_ok_def mk_page_def is_leaf_def)
  show "page_ok (rest_body level f)"
  proof (cases "rest_children f = []")
    case False
    then have "last (map pid (rest_children f)) \<in> set (map pid (rest_children f))" by (intro last_in_set) simp
    with small False show ?thesis by (simp only: rest_body_def) (auto intro: page_ok_body(2) [OF used])
  qed (use e page_ok_body(1) [OF empty(2)] in \<open>simp add: rest_body_def\<close>)
  show "used_bytes (rest_body level f) \<le> PAGE_SIZE" using used empty by (simp add: rest_body_def)
qed

lemma unlink_step_spec:
  assumes s: "held H W s" and cap: "size H + 1 < bp_capacity s" and path: "level < length path" "path ! level = frame_entry f"
    and wf: "frame_wf f" and sf: "stored_frame (view s) f c" and live: "frame_pid f \<in> live_pages s" "c \<in> live_pages s"
    and c: "c \<noteq> 1" "c \<notin># H" "c \<noteq> frame_pid f" and kids: "\<forall>t \<in> set (rest_children f). pid t \<in> live_pages s"
  shows "\<exists>s'. unlink_step path level c s = (Inr (frame_pid f, rest_children f = []), s') \<and> frees H W {c} {frame_pid f} s s'
    \<and> page_holds (view s') (frame_pid f) (rest_body level f)"
proof -
  obtain p ls kl kr rs where f: "f = Frame p ls kl kr rs" by (cases f)
  have len: "length (map pid ls) = length kl" "length (map pid rs) = length kr" using wf by (simp_all add: f)
  have range: "\<forall>x \<in> set (map pid (rest_children f)). 1 \<le> x \<and> x < 2 ^ 32" using kids held_store.live_range [OF s] by auto
  have ps: "\<forall>x \<in> set (map pid ls @ map pid rs). x < 2 ^ 32" and ks: "\<forall>k \<in> set (kl @ kr). rowid_ok k"
    using sf by (auto simp: f)
  have small: "\<forall>x \<in> set (map pid (rest_children f)). x < 2 ^ 32" using range by simp
  note ok = rest_body_ok [OF sf wf small, of level]
  let ?b = "node_body (map pid ls @ c # map pid rs) (kl @ kr)"
  have body: "page_holds (view s) p ?b" using sf by (simp add: f page_holds_def)
  define up where "up = (if rest_children f = [] then mk_page INTERIOR_TABLE [] 0 else node_body (map pid (rest_children f)) (rest_seps f))"
  have un: "unlink_child (length ls) ?b = Inr up"
    using unlink_child_node [OF len ps ks, of c] by (simp add: up_def f)
  have empty: "(pb_cells up = [] \<and> pb_right_child up = 0) \<longleftrightarrow> rest_children f = []"
  proof (cases "rest_children f = []")
    case False
    then have "last (map pid (rest_children f)) \<in> set (map pid (rest_children f))" by (intro last_in_set) simp
    then have "last (map pid (rest_children f)) \<noteq> 0" using range by fastforce
    then show ?thesis using False by (simp add: up_def node_body_def mk_page_def)
  qed (simp add: up_def mk_page_def)
  have wr: "(if level = 0 \<and> rest_children f = [] then mk_page LEAF_TABLE [] 0 else up) = rest_body level f"
    by (simp add: up_def rest_body_def leaf_body_def)
  define m where "m = (\<lambda>parent0. bind_op (lift_res (unlink_child (length ls) parent0)) (\<lambda>parent.
                 let parent_is_empty = (pb_cells parent = [] \<and> pb_right_child parent = 0) in
                 bind_op (put_body p (if level = 0 \<and> parent_is_empty then mk_page LEAF_TABLE [] 0 else parent)) (\<lambda>_.
                   ret parent_is_empty)))"
  define Q where "Q = (\<lambda>(x :: bool res) v L. L = live_pages s \<and> x = Inr (rest_children f = []) \<and> page_holds v p (rest_body level f))"
  have pl: "p \<in> live_pages s" using live by (simp add: f)
  have "\<exists>x s1. bind_op (get_page_for_write p) (\<lambda>raw. finally_op (bind_op (lift_res (parse_page raw 0)) m) (unpin p False)) s = (x, s1)
    \<and> touches H W 0 {p} s s1 \<and> Q x (view s1) (live_pages s1)"
  proof (rule write_block [OF s pl cap body])
    fix s1
    assume s1: "held (add_mset p H) (insert p W) s1" "view s1 = view s" "live_pages s1 = live_pages s"
    have off: "pb_header_offset (rest_body level f) = 0" by (simp add: rest_body_def node_body_def leaf_body_def mk_page_def)
    from put_body_touches [OF s1(1) insertI1 ok(1) off] obtain s2 where
      w: "put_body p (rest_body level f) s1 = (Inr (), s2)" "touches (add_mset p H) (insert p W) 0 {p} s1 s2"
        "live_pages s2 = live_pages s1" "page_holds (view s2) p (rest_body level f)" by auto
    have "m ?b s1 = (Inr (rest_children f = []), s2)"
      unfolding m_def Let_def using un w(1) empty wr by (simp add: bind_op_run ret_def)
    then show "\<exists>x s2. m ?b s1 = (x, s2) \<and> touches (add_mset p H) (insert p W) 0 {p} s1 s2 \<and> Q x (view s2) (live_pages s2)"
      using w(2-4) s1(3) by (simp add: Q_def)
  qed
  then obtain s1 where r: "bind_op (get_page_for_write p) (\<lambda>raw. finally_op (bind_op (lift_res (parse_page raw 0)) m) (unpin p False)) s
      = (Inr (rest_children f = []), s1)" "touches H W 0 {p} s s1" "live_pages s1 = live_pages s" "page_holds (view s1) p (rest_body level f)"
    unfolding Q_def by blast
  have "c \<in> live_pages s1" using live r(3) by simp
  from free_page_frees [OF touchesD(1) [OF r(2)] this c(1,2)] obtain s2 where
    fr: "free_page c s1 = (Inr (), s2)" "frees H W {c} {} s1 s2" by blast
  have "frees H W {c} {p} s s2" by (rule frees_trans [OF frees_touches [OF r(2,3)] fr(2)]) auto
  moreover have "page_holds (view s2) p (rest_body level f)"
    using r(3,4) freesD(6) [OF fr(2), of p] pl c(3) by (simp add: page_holds_def f)
  moreover have "unlink_step path level c s = (Inr (p, rest_children f = []), s2)"
  proof -
    define blk where "blk = bind_op (get_page_for_write p) (\<lambda>raw. finally_op (bind_op (lift_res (parse_page raw 0)) m) (unpin p False))"
    have "unlink_step path level c s = bind_op blk (\<lambda>e. bind_op (free_page c) (\<lambda>_. ret (p, e))) s"
      using path unfolding unlink_step_def m_def bind_op_assoc blk_def by (simp add: py_get_def f)
    moreover have "blk s = (Inr (rest_children f = []), s1)" unfolding blk_def by (rule r(1))
    ultimately show ?thesis using fr(1) by (simp add: bind_op_run ret_def)
  qed
  ultimately show ?thesis by (auto simp: f)
qed

section \<open>The loop\<close>

text \<open>The level that keeps children, as a tree: its key sequence loses the child's and one separator.\<close>

fun rest_tree :: "tframe \<Rightarrow> ttree" where
  "rest_tree (Frame p ls kl kr rs) = TNode p (ls @ rs) (rest_seps (Frame p ls kl kr rs))"

lemma before_seps_snoc: "length xs = length ks \<Longrightarrow> before_seps (xs @ [x]) (ks @ [k]) = before_seps xs ks @ x @ [2 * k + 1]"
  by (simp add: before_seps_def)

lemma rest_tree_flat:
  assumes "frame_wf f" and "rest_children f \<noteq> []"
  shows "subseq (flat (rest_tree f)) (flat_left f @ flat_right f)"
proof -
  obtain p ls kl kr rs where f: "f = Frame p ls kl kr rs" by (cases f)
  have len: "length ls = length kl" "length rs = length kr" using assms(1) by (simp_all add: f)
  show ?thesis
  proof (cases kr)
    case (Cons k kr')
    then obtain r rs' where rs: "rs = r # rs'" using len by (cases rs) auto
    have "flat (rest_tree f) = before_seps (map flat ls) kl @ flat r @ after_seps kr' (map flat rs')"
      using weave_hole [of "map flat ls" kl "flat r" "map flat rs'" kr'] len by (simp add: f Cons rs)
    then show ?thesis using subseq_skip by (simp add: f Cons rs after_seps_Cons)
  next
    case Nil
    then have rs: "rs = []" using len by simp
    then obtain ls' l kl' k where ls: "ls = ls' @ [l]" "kl = kl' @ [k]" "length ls' = length kl'"
      using assms(2) len(1) by (cases ls rule: rev_cases; cases kl rule: rev_cases) (auto simp: f)
    have "flat (rest_tree f) = before_seps (map flat ls') kl' @ flat l"
      using weave_hole [of "map flat ls'" kl' "flat l" "[]" "[]"] ls by (simp add: f Nil rs after_seps_def)
    then show ?thesis using ls(3) subseq_skip [of "before_seps (map flat ls') kl' @ flat l" "[]" "2 * k + 1"]
      by (simp add: f Nil rs ls before_seps_snoc after_seps_def)
  qed
qed

lemma rest_tree_facts:
  assumes wf: "frame_wf f" and ne: "rest_children f \<noteq> []" and sf: "stored_frame v f c"
    and body: "page_holds v' (frame_pid f) (rest_body level f)" and kids: "\<forall>t \<in> set (rest_children f). stored v' t = stored v t"
  shows "stored v' (rest_tree f)" and "pid (rest_tree f) = frame_pid f" and "pages_of (rest_tree f) = frame_pages f"
    and "rows_of (rest_tree f) = rows_left f @ rows_right f" and "uniform_frame h f \<Longrightarrow> uniform h (rest_tree f)"
proof -
  obtain p ls kl kr rs where f: "f = Frame p ls kl kr rs" by (cases f)
  show "pid (rest_tree f) = frame_pid f" "pages_of (rest_tree f) = frame_pages f" "rows_of (rest_tree f) = rows_left f @ rows_right f"
    "uniform_frame h f \<Longrightarrow> uniform h (rest_tree f)" by (auto simp: f)
  have "set (rest_seps f) \<subseteq> set (kl @ kr)" by (auto simp: f dest: in_set_butlastD list.set_sel(2))
  moreover have "\<forall>k \<in> set (kl @ kr). rowid_ok k" using sf by (simp add: f)
  ultimately have ks: "\<forall>k \<in> set (rest_seps f). rowid_ok k" by blast
  have b: "page_holds v' p (node_body (map pid (ls @ rs)) (rest_seps f))" using body ne by (simp add: rest_body_def f)
  have len: "length (ls @ rs) = Suc (length (rest_seps f))" using rest_length [OF wf ne] by (simp add: f)
  have "\<forall>t \<in> set (ls @ rs). pid t < 2 ^ 32 \<and> stored v' t" using sf kids by (auto simp: f)
  then have "stored v' (TNode p (ls @ rs) (rest_seps f))" using b ks len by (simp add: page_holds_def del: rest_seps.simps)
  then show "stored v' (rest_tree f)" by (simp add: f del: rest_seps.simps stored.simps)
qed

text \<open>What is left when the child in the hole of \<open>fs\<close> is taken out and its page, with all pages it empties, is freed.\<close>

definition pruned :: "pool \<Rightarrow> pool \<Rightarrow> nat set \<Rightarrow> nat set \<Rightarrow> nat \<Rightarrow> nat \<Rightarrow> int list \<Rightarrow> row list \<Rightarrow> ttree \<Rightarrow> bool" where
  "pruned s s' A F root h fl rows t \<longleftrightarrow> pid t = root \<and> stored (view s') t \<and> distinct (pages_of t) \<and> set (pages_of t) = A - F
     \<and> subseq (flat t) fl \<and> rows_of t = rows \<and> (uniform h t \<or> t = TLeaf root [])"

lemma unlink_loop:
  assumes "held H W s" and "size H + 1 < bp_capacity s" and "fs \<noteq> []" and "\<forall>f \<in> set fs. frame_wf f" and "stored_ctx (view s) fs c"
    and "distinct (c # ctx_pages fs)" and "set (c # ctx_pages fs) \<subseteq> live_pages s" and "1 \<notin> set (c # ctx_pages fs)"
    and "set (c # ctx_pages fs) \<inter> set_mset H = {}" and "uniform_ctx h fs"
  shows "\<exists>s' t F. unlink_upward (map frame_entry fs @ rest) (length fs - 1) c s = (Inr True, s')
    \<and> frees H W (insert c F) (set (ctx_pages fs)) s s' \<and> F \<subseteq> set (ctx_pages fs)
    \<and> pruned s s' (set (ctx_pages fs)) F (hole fs c) h (ctx_left fs @ ctx_right fs) (ctx_rows_left fs @ ctx_rows_right fs) t"
  using assms
proof (induction fs arbitrary: s c rest rule: rev_induct)
  case (snoc f gs)
  let ?path = "map frame_entry (gs @ [f]) @ rest" and ?n = "length gs"
  obtain p ls kl kr rs where f: "f = Frame p ls kl kr rs" by (cases f)
  have pre: "frame_wf f" "stored_frame (view s) f c" "stored_ctx (view s) gs (frame_pid f)" "?n < length ?path" "?path ! ?n = frame_entry f"
    "frame_pid f \<in> live_pages s" "c \<in> live_pages s" "c \<noteq> 1" "c \<notin># H" "c \<noteq> frame_pid f" "uniform_ctx h gs" "uniform_frame (h - ?n) f"
    using snoc.prems by (auto simp: nth_append f)
  have kids: "\<forall>t \<in> set (rest_children f). set (pages_of t) \<subseteq> set (frame_pages f) - {p}" using snoc.prems(6) by (auto simp: f)
  then have "\<forall>t \<in> set (rest_children f). pid t \<in> live_pages s" using snoc.prems(7) pid_in_pages by fastforce
  from unlink_step_spec [OF snoc.prems(1,2) pre(4,5,1,2,6-10) this] obtain s1 where
    st: "unlink_step ?path ?n c s = (Inr (p, rest_children f = []), s1)" "frees H W {c} {p} s s1" "page_holds (view s1) p (rest_body ?n f)"
    by (auto simp: f)
  have ctx1: "stored_ctx (view s1) gs p"
    using pre(3) snoc.prems(6,7) freesD(6) [OF st(2)] by (subst stored_ctx_cong [where w = "view s"]) (auto simp: f)
  show ?case
  proof (cases "rest_children f = []")
    case False
    have "\<forall>t \<in> set (rest_children f). stored (view s1) t = stored (view s) t"
    proof
      fix t assume "t \<in> set (rest_children f)"
      then have "set (pages_of t) \<subseteq> set (frame_pages f) - {p}" using kids by blast
      moreover have "set (frame_pages f) \<subseteq> live_pages s - {c}" using snoc.prems(6,7) by auto
      ultimately show "stored (view s1) t = stored (view s) t" by (intro stored_frees [OF st(2)]) blast
    qed
    note R = rest_tree_facts [OF pre(1) False pre(2) _ this, of ?n]
    have R1: "stored (view s1) (rest_tree f)" "pid (rest_tree f) = p" "pages_of (rest_tree f) = frame_pages f"
      "rows_of (rest_tree f) = rows_left f @ rows_right f" "uniform (h - ?n) (rest_tree f)"
      using R st(3) pre(12) by (simp_all add: f)
    let ?t = "plug gs (rest_tree f)"
    have wf: "\<forall>f \<in> set gs. frame_wf f" using snoc.prems(4) by simp
    have "flat ?t = ctx_left gs @ flat (rest_tree f) @ ctx_right gs" by (rule flat_plug [OF wf])
    then have "subseq (flat ?t) (ctx_left (gs @ [f]) @ ctx_right (gs @ [f]))"
      using list_emb_append_mono [OF subseq_order.refl list_emb_append_mono [OF rest_tree_flat [OF pre(1) False] subseq_order.refl], of "ctx_left gs" "ctx_right gs"]
      by simp
    moreover have "stored (view s1) ?t" using ctx1 R1 by (simp add: stored_plug)
    moreover have "uniform h ?t" using pre(11) R1(5) by (simp add: uniform_plug)
    moreover have "distinct (pages_of ?t)" "set (pages_of ?t) = set (ctx_pages (gs @ [f]))"
      using snoc.prems(6) R1(3) by (simp_all add: distinct_pages_plug set_pages_plug)
    moreover have "rows_of ?t = ctx_rows_left (gs @ [f]) @ ctx_rows_right (gs @ [f])" using R1(4) by (simp add: rows_plug)
    moreover have "pid ?t = hole (gs @ [f]) c" using R1(2) by (simp add: pid_plug f)
    ultimately have "pruned s s1 (set (ctx_pages (gs @ [f]))) {} (hole (gs @ [f]) c) h (ctx_left (gs @ [f]) @ ctx_right (gs @ [f]))
      (ctx_rows_left (gs @ [f]) @ ctx_rows_right (gs @ [f])) ?t" by (simp add: pruned_def)
    moreover have "frees H W {c} (set (ctx_pages (gs @ [f]))) s s1" using st(2) by (auto simp: frees_def f)
    moreover have "unlink_upward ?path (length (gs @ [f]) - 1) c s = (Inr True, s1)"
      using st(1) False by (cases gs) (simp_all add: bind_op_run ret_def)
    ultimately show ?thesis by (intro exI [of _ s1] exI [of _ ?t] exI [of _ "{}"]) simp
  next
    case True
    then have e: "ls = []" "rs = []" "kl = []" "kr = []" using pre(1) by (auto simp: f)
    show ?thesis
    proof (cases gs)
      case Nil
      have "pruned s s1 (set (ctx_pages [f])) {} (hole [f] c) h (ctx_left [f] @ ctx_right [f]) (ctx_rows_left [f] @ ctx_rows_right [f]) (TLeaf p [])"
        using st(3) Nil by (simp add: pruned_def f e rest_body_def page_holds_def before_seps_def after_seps_def)
      moreover have "frees H W {c} (set (ctx_pages [f])) s s1" using st(2) by (simp add: f e)
      ultimately show ?thesis using st(1) True by (intro exI [of _ s1] exI [of _ "TLeaf p []"] exI [of _ "{}"]) (simp add: Nil bind_op_run ret_def)
    next
      case (Cons g gs')
      have q: "size H + 1 < bp_capacity s1" "gs \<noteq> []" "\<forall>f \<in> set gs. frame_wf f" "distinct (p # ctx_pages gs)"
        "set (p # ctx_pages gs) \<subseteq> live_pages s1" "1 \<notin> set (p # ctx_pages gs)" "set (p # ctx_pages gs) \<inter> set_mset H = {}"
        using snoc.prems freesD(3,5) [OF st(2)] Cons by (auto simp: f)
      from snoc.IH [OF freesD(1) [OF st(2)] q(1-3) ctx1 q(4-7) pre(11), of "frame_entry f # rest"] obtain s' t F where
        IH: "unlink_upward (map frame_entry gs @ frame_entry f # rest) (?n - 1) p s1 = (Inr True, s')"
          "frees H W (insert p F) (set (ctx_pages gs)) s1 s'" "F \<subseteq> set (ctx_pages gs)"
          "pruned s1 s' (set (ctx_pages gs)) F (hole gs p) h (ctx_left gs @ ctx_right gs) (ctx_rows_left gs @ ctx_rows_right gs) t" by blast
      have "frees H W (insert c (insert p F)) (set (ctx_pages (gs @ [f]))) s s'"
        by (rule frees_trans [OF st(2) IH(2)]) (auto simp: f)
      moreover have "unlink_upward ?path (length (gs @ [f]) - 1) c s = (Inr True, s')"
        using st(1) True IH(1) by (simp add: Cons bind_op_run)
      moreover have "set (ctx_pages gs) - F = set (ctx_pages (gs @ [f])) - insert p F" using q(4) by (auto simp: f e)
      then have "pruned s s' (set (ctx_pages (gs @ [f]))) (insert p F) (hole (gs @ [f]) c) h (ctx_left (gs @ [f]) @ ctx_right (gs @ [f]))
        (ctx_rows_left (gs @ [f]) @ ctx_rows_right (gs @ [f])) t"
        using IH(4) by (simp add: pruned_def f e before_seps_def after_seps_def)
      moreover have "insert p F \<subseteq> set (ctx_pages (gs @ [f]))" using IH(3) by (auto simp: f)
      ultimately show ?thesis by blast
    qed
  qed
qed simp

section \<open>The tree after a deletion\<close>

lemma del_at_filter:
  assumes "distinct (map fst rows)" and "i < length rows" and "fst (rows ! i) = k"
  shows "filter (\<lambda>r. fst r \<noteq> k) rows = del_at i rows"
proof -
  note sp = del_at_split [OF assms(2)]
  have "map fst rows = map fst (take i rows) @ k # map fst (drop (Suc i) rows)" by (subst sp) (simp add: assms(3))
  then have "k \<notin> fst ` set (take i rows)" "k \<notin> fst ` set (drop (Suc i) rows)" using assms(1) by auto
  then have "filter (\<lambda>r. fst r \<noteq> k) (take i rows) = take i rows" "filter (\<lambda>r. fst r \<noteq> k) (drop (Suc i) rows) = drop (Suc i) rows"
    by (force intro: filter_True)+
  then show ?thesis by (subst sp) (simp add: assms(3) del_at_def)
qed

lemma filter_absent: "(\<And>r. r \<in> set rows \<Longrightarrow> fst r \<noteq> k) \<Longrightarrow> filter (\<lambda>r. fst r \<noteq> k) rows = rows"
  by (induction rows) auto

lemma sorted_subseq: "subseq xs ys \<Longrightarrow> sorted_wrt R ys \<Longrightarrow> sorted_wrt R xs"
  by (induction rule: list_emb.induct) (auto dest: list_emb_set)

lemma del_at_pages:
  assumes "i < length rows" and "rows ! i = (k, d, ids)" and "distinct (row_pages rows)"
  shows "set (row_pages (del_at i rows)) = set (row_pages rows) - set ids" and "distinct (row_pages (del_at i rows))"
    and "set ids \<subseteq> set (row_pages rows)" and "distinct ids"
proof -
  have "rows = take i rows @ (k, d, ids) # drop (Suc i) rows" using del_at_split [OF assms(1)] assms(2) by simp
  then have rp: "row_pages rows = row_pages (take i rows) @ ids @ row_pages (drop (Suc i) rows)"
    using row_pages_simps(2,4) by metis
  show "set (row_pages (del_at i rows)) = set (row_pages rows) - set ids" "distinct (row_pages (del_at i rows))"
    "set ids \<subseteq> set (row_pages rows)" "distinct ids"
    using assms(3) unfolding rp del_at_def by auto
qed

definition delete_result :: "pool \<Rightarrow> nat \<Rightarrow> nat \<Rightarrow> ttree \<Rightarrow> int \<Rightarrow> bool \<Rightarrow> pool \<Rightarrow> bool" where
  "delete_result s root h t k r s' \<longleftrightarrow>
     (if k \<in> fst ` set (rows_of t)
      then r \<and> (\<exists>t' d ids. (k, d, ids) \<in> set (rows_of t) \<and> (table_tree s' root h t' \<or> t' = TLeaf root [] \<and> table_tree s' root 1 t')
          \<and> rows_of t' = filter (\<lambda>r. fst r \<noteq> k) (rows_of t) \<and> set (pages_of t') \<subseteq> set (pages_of t) - set ids
          \<and> live_pages s' = live_pages s - (set (pages_of t) - set (pages_of t'))
          \<and> (\<forall>q \<in> live_pages s - set (pages_of t). view s' q = view s q))
      else \<not> r \<and> unchanged s (view s') (live_pages s'))"

lemma delete_resultI:
  assumes "(k, d, ids) \<in> set (rows_of t)" and "table_tree s' root h t' \<or> t' = TLeaf root [] \<and> table_tree s' root 1 t'"
    and "rows_of t' = filter (\<lambda>r. fst r \<noteq> k) (rows_of t)" and "set (pages_of t') \<subseteq> set (pages_of t) - set ids"
    and "frees H W (set (pages_of t) - set (pages_of t')) A s s'" and "A \<subseteq> set (pages_of t)"
  shows "delete_result s root h t k True s'"
proof -
  have "k \<in> fst ` set (rows_of t)" using assms(1) by force
  moreover have "\<forall>q \<in> live_pages s - set (pages_of t). view s' q = view s q" using freesD(6) [OF assms(5)] assms(6) by blast
  ultimately show ?thesis using assms(1-4) freesD(3) [OF assms(5)] unfolding delete_result_def by auto
qed

lemma row_pages_mem: "(k, d, ids) \<in> set rows \<Longrightarrow> set ids \<subseteq> set (row_pages rows)"
  by (induction rows) (auto simp: row_pages_def)

text \<open>A leaf that keeps rows, in its context.\<close>

lemma leaf_kept:
  assumes t: "table_tree s root h (plug fs (TLeaf q rows))" and wf: "\<forall>f \<in> set fs. frame_wf f" and i: "i < length rows" "rows ! i = (k, d, ids)"
    and fr: "frees H W (set ids) {q} s s'" and pg: "page_holds (view s') q (leaf_body (del_at i rows))" and ne: "fs = [] \<or> del_at i rows \<noteq> []"
  shows "table_tree s' root h (plug fs (TLeaf q (del_at i rows)))"
    and "set (pages_of (plug fs (TLeaf q (del_at i rows)))) = set (pages_of (plug fs (TLeaf q rows))) - set ids"
proof -
  note D = t [unfolded table_tree_def stored_plug distinct_pages_plug set_pages_plug pid_plug shaped_plug flat_plug [OF wf]]
  have dist: "distinct (row_pages rows)" "distinct (ctx_pages fs)" "q \<notin> set (row_pages rows)" "q \<notin> set (ctx_pages fs)"
    "set (ctx_pages fs) \<inter> set (row_pages rows) = {}" using D by auto
  have live: "set (ctx_pages fs) \<subseteq> live_pages s" "set (row_pages rows) \<subseteq> live_pages s" "q \<in> live_pages s" using D by auto
  have old: "stored_ctx (view s) fs q" "\<forall>x \<in> set rows. row_stored (view s) x" using D by auto
  note P = del_at_pages [OF i dist(1)]
  have "view s' p = view s p" if "p \<in> set (ctx_pages fs)" for p
    using that dist live P(3) by (intro freesD(6) [OF fr]) auto
  then have "stored_ctx (view s') fs q" using old(1) by (subst stored_ctx_cong [where w = "view s"])
  moreover have "row_stored (view s') r" if r: "r \<in> set (del_at i rows)" for r
  proof -
    obtain k' d' ids' where rr: "r = (k', d', ids')" by (cases r)
    have "row_stored (view s) (k', d', ids')" using bspec [OF old(2) subsetD [OF del_at_set r]] by (simp only: rr)
    moreover have "set ids' \<subseteq> set (row_pages (del_at i rows))" by (rule row_pages_mem) (use r in \<open>simp add: rr\<close>)
    then have "set ids' \<subseteq> live_pages s - set ids" "q \<notin> set ids'" unfolding P(1) using live(2) dist(3) by blast+
    then have "row_stored (view s') (k', d', ids') = row_stored (view s) (k', d', ids')"
      by (intro row_stored_cong freesD(6) [OF fr]) auto
    ultimately show ?thesis by (simp add: rr)
  qed
  then have "stored (view s') (TLeaf q (del_at i rows))" using pg by (simp add: page_holds_def)
  moreover have "sorted_wrt (<) (flat (plug fs (TLeaf q (del_at i rows))))"
  proof -
    have "subseq (map (\<lambda>r. 2 * fst r) (del_at i rows)) (map (\<lambda>r. 2 * fst r) rows)"
      by (rule subseq_map [OF del_at_subseq])
    then have "subseq (flat (plug fs (TLeaf q (del_at i rows)))) (flat (plug fs (TLeaf q rows)))"
      unfolding flat_plug [OF wf] flat.simps by (intro list_emb_append_mono subseq_order.refl)
    then show ?thesis using t unfolding table_tree_def by (blast intro: sorted_subseq)
  qed
  moreover have "set (row_pages (del_at i rows)) \<subseteq> live_pages s'" "set (ctx_pages fs) \<subseteq> live_pages s'" "q \<in> live_pages s'"
    using live P dist unfolding freesD(3) [OF fr] by auto
  ultimately show "table_tree s' root h (plug fs (TLeaf q (del_at i rows)))"
    using D dist P ne by (auto simp: table_tree_def stored_plug distinct_pages_plug set_pages_plug pid_plug shaped_plug)
  show "set (pages_of (plug fs (TLeaf q (del_at i rows)))) = set (pages_of (plug fs (TLeaf q rows))) - set ids"
    using dist P by (auto simp: set_pages_plug)
qed

text \<open>A leaf that is emptied, below another page.\<close>

lemma leaf_emptied:
  assumes s: "held H W s" and cap: "size H + 1 < bp_capacity s" and t: "table_tree s root h (plug fs (TLeaf q [(k, d, ids)]))"
    and wf: "\<forall>f \<in> set fs. frame_wf f" and fs: "fs \<noteq> []" and fr: "frees H W (set ids) {q} s s1"
    and pg: "1 \<notin> set (pages_of (plug fs (TLeaf q [(k, d, ids)])))" "set (pages_of (plug fs (TLeaf q [(k, d, ids)]))) \<inter> set_mset H = {}"
  shows "\<exists>s' t'. unlink_upward (map frame_entry fs @ rest) (length fs - 1) q s1 = (Inr True, s')
    \<and> frees H W (set (pages_of (plug fs (TLeaf q [(k, d, ids)]))) - set (pages_of t')) (set (pages_of (plug fs (TLeaf q [(k, d, ids)])))) s s'
    \<and> (table_tree s' root h t' \<or> t' = TLeaf root [] \<and> table_tree s' root 1 t')
    \<and> rows_of t' = ctx_rows_left fs @ ctx_rows_right fs \<and> set (pages_of t') \<subseteq> set (pages_of (plug fs (TLeaf q [(k, d, ids)]))) - set ids"
proof -
  let ?t = "plug fs (TLeaf q [(k, d, ids)])"
  note D = t [unfolded table_tree_def stored_plug distinct_pages_plug set_pages_plug pid_plug shaped_plug flat_plug [OF wf]]
  have dist: "distinct (q # ctx_pages fs)" "distinct ids" "q \<notin> set ids" "set (ctx_pages fs) \<inter> set ids = {}" using D by auto
  have live: "set (q # ctx_pages fs) \<subseteq> live_pages s" "set ids \<subseteq> live_pages s" using D by auto
  have "view s1 p = view s p" if "p \<in> set (ctx_pages fs)" for p
    using that dist live by (intro freesD(6) [OF fr]) auto
  then have ctx: "stored_ctx (view s1) fs q" using D by (subst stored_ctx_cong [where w = "view s"]) auto
  have "size H + 1 < bp_capacity s1" "set (q # ctx_pages fs) \<subseteq> live_pages s1" using cap live dist freesD(3,5) [OF fr] by auto
  moreover have "1 \<notin> set (q # ctx_pages fs)" "set (q # ctx_pages fs) \<inter> set_mset H = {}" using pg by (auto simp: set_pages_plug)
  moreover have "uniform_ctx h fs" using D by simp
  ultimately obtain s' t' F where
    u: "unlink_upward (map frame_entry fs @ rest) (length fs - 1) q s1 = (Inr True, s')" "frees H W (insert q F) (set (ctx_pages fs)) s1 s'"
      "F \<subseteq> set (ctx_pages fs)"
    and pr: "pruned s1 s' (set (ctx_pages fs)) F (hole fs q) h (ctx_left fs @ ctx_right fs) (ctx_rows_left fs @ ctx_rows_right fs) t'"
    using unlink_loop [OF freesD(1) [OF fr] _ fs wf ctx dist(1), of h rest] by blast
  note R = pr [unfolded pruned_def]
  have pages: "set (pages_of ?t) = set (ctx_pages fs) \<union> insert q (set ids)" by (simp add: set_pages_plug)
  have gone: "set (pages_of ?t) - set (pages_of t') = set ids \<union> insert q F" unfolding pages using R dist u(3) by auto
  have "frees H W (set (pages_of ?t) - set (pages_of t')) (set (pages_of ?t)) s s'"
    unfolding gone by (rule frees_trans [OF fr u(2)]) (auto simp: pages)
  moreover have "table_tree s' root h t' \<or> t' = TLeaf root [] \<and> table_tree s' root 1 t'"
  proof -
    have "subseq (flat t') (ctx_left fs @ flat (TLeaf q [(k, d, ids)]) @ ctx_right fs)"
      using R subseq_skip [of "ctx_left fs" "ctx_right fs" "2 * k"] by (auto intro: subseq_order.trans)
    then have "sorted_wrt (<) (flat t')" using D by (blast intro: sorted_subseq)
    moreover have "set (pages_of t') \<subseteq> live_pages s'"
      using R live dist unfolding freesD(3) [OF u(2)] freesD(3) [OF fr] by auto
    moreover have "hole fs q = root" using D by simp
    ultimately have "shaped g t' \<Longrightarrow> table_tree s' root g t'" for g using R by (simp add: table_tree_def)
    moreover have "uniform h t' \<or> t' = TLeaf root []" using R \<open>hole fs q = root\<close> by simp
    ultimately show ?thesis using shapedI by metis
  qed
  moreover have "set (pages_of t') \<subseteq> set (pages_of ?t) - set ids" unfolding pages using R dist by auto
  moreover have "rows_of t' = ctx_rows_left fs @ ctx_rows_right fs" using R by simp
  ultimately show ?thesis using u(1) by blast
qed

lemma btree_delete_tree:
  assumes s: "held H W s" and cap: "size H + 1 < bp_capacity s" and t: "table_tree s root h t"
    and pg: "1 \<notin> set (pages_of t)" "set (pages_of t) \<inter> set_mset H = {}"
  shows "\<exists>r s'. btree_delete root k s = Some (Inr r, s') \<and> held H W s' \<and> txn_frame s s' \<and> spare_pages s \<le> spare_pages s'
    \<and> delete_result s root h t k r s'"
proof -
  have T: "pid t = root" "stored (view s) t" "distinct (pages_of t)" "set (pages_of t) \<subseteq> live_pages s" "sorted_wrt (<) (flat t)" "shaped h t"
    using t by (simp_all add: table_tree_def)
  from find_leaf_loop [OF s cap T(2,4,5), of k "[]"] obtain fs q rows s1 where
    f: "find_leaf root k s = Some (Inr (map frame_entry fs @ [(q, scan_slot (map fst rows) k)]), s1)" and pl: "t = plug fs (TLeaf q rows)"
    and wf: "\<forall>f \<in> set fs. frame_wf f" and ord: "\<forall>x \<in> set (ctx_left fs). x < 2 * k" "\<forall>x \<in> set (ctx_right fs). 2 * k < x" and calm: "calm H W s s1"
    by (auto simp: find_leaf_def T(1))
  let ?i = "scan_slot (map fst rows) k" and ?path = "map frame_entry fs @ [(q, scan_slot (map fst rows) k)]"
  have c: "held H W s1" "view s1 = view s" "live_pages s1 = live_pages s" "spare_pages s1 = spare_pages s" "bp_capacity s1 = bp_capacity s" "txn_frame s s1"
    using calm frame_txn_frame by (auto simp: calm_def frame_def)
  have fr1: "frees H W {} {} s s1" using c by (simp add: frees_def)
  have t1: "table_tree s1 root h t" using t c by (simp add: table_tree_def)
  have leaf: "stored (view s1) (TLeaf q rows)" "q \<in> live_pages s1" "size H + 1 < bp_capacity s1"
    using T(2,4) c cap by (auto simp: pl stored_plug set_pages_plug)
  have fl: "sorted_wrt (<) (flat (TLeaf q rows))" using T(5) flat_plug [OF wf] by (simp add: pl sorted_wrt_append)
  note srt = leaf_slot(2) [OF leaf(1) fl]
  have dk: "distinct (map fst rows)"
  proof -
    have "distinct (map (\<lambda>r. 2 * fst r) rows)" using fl strict_sorted_iff by auto
    then show ?thesis by (auto simp: distinct_map inj_on_def)
  qed
  note K = rows_ctx_keys [OF T(2) [unfolded pl] wf ord]
  have out: "filter (\<lambda>r. fst r \<noteq> k) (ctx_rows_left fs) = ctx_rows_left fs" "filter (\<lambda>r. fst r \<noteq> k) (ctx_rows_right fs) = ctx_rows_right fs"
    using K(1) K(2) by (intro filter_absent; fastforce)+
  have "k \<notin> fst ` set (ctx_rows_left fs)" "k \<notin> fst ` set (ctx_rows_right fs)" using K(1) K(2) by fastforce+
  then have keys: "k \<in> fst ` set (rows_of t) \<longleftrightarrow> k \<in> fst ` set rows" by (simp add: pl rows_plug image_Un)
  from delete_from_leaf_spec [OF c(1) leaf(2,3,1) srt refl, of k] obtain r s2 where
    d: "delete_from_leaf q ?i k s1 = (Inr r, s2)" "frees H W {} {q} s1 s2"
    and o: "k \<notin> fst ` set rows \<and> r = None \<and> view s2 = view s1
       \<or> (\<exists>d ids. ?i < length rows \<and> rows ! ?i = (k, d, ids) \<and> r = Some (first_page ids, del_at ?i rows = [])
            \<and> page_holds (view s2) q (leaf_body (del_at ?i rows)))" by blast
  from o show ?thesis
  proof (elim disjE exE conjE)
    assume a: "k \<notin> fst ` set rows" "r = None" "view s2 = view s1"
    have "btree_delete root k s = Some (Inr False, s2)"
      using f d(1) a(2) by (simp add: btree_delete_def bind_pop_def total_op_def ret_def)
    moreover have "frees H W {} {q} s s2" by (rule frees_trans [OF fr1 d(2)]) auto
    ultimately show ?thesis using a keys freesD(1-4) c(2,3) by (auto simp: delete_result_def unchanged_def)
  next
    fix d ids
    assume a: "?i < length rows" "rows ! ?i = (k, d, ids)" "r = Some (first_page ids, del_at ?i rows = [])"
      "page_holds (view s2) q (leaf_body (del_at ?i rows))"
    have rs: "row_stored (view s1) (k, d, ids)" using leaf(1) nth_mem [OF a(1)] by (simp add: a(2))
    have pgs: "distinct (row_pages rows)" "q \<notin> set (row_pages rows)" "set (row_pages rows) \<subseteq> live_pages s1"
      "1 \<notin> set (row_pages rows)" "set (row_pages rows) \<inter> set_mset H = {}" "q \<notin> set (ctx_pages fs)"
      using T(3,4) c pg by (auto simp: pl distinct_pages_plug set_pages_plug)
    note P = del_at_pages [OF a(1,2) pgs(1)]
    have q2: "view s2 p = view s1 p" if "p \<in> set ids" for p
      using that P(3) pgs by (intro freesD(6) [OF d(2)]) auto
    have "row_stored (view s2) (k, d, ids)" using rs row_stored_cong [OF q2, of ids] by simp
    moreover have "set ids \<subseteq> live_pages s2" "1 \<notin> set ids" "set ids \<inter> set_mset H = {}"
      using P(3) pgs unfolding freesD(3) [OF d(2)] by auto
    ultimately obtain s3 where
      fc: "(if first_page ids \<noteq> 0 then free_overflow_chain load_page free_page (first_page ids) else total_op skip) s2 = Some (Inr (), s3)"
        "frees H W (set ids) {} s2 s3"
      using free_chain_frees [OF freesD(1) [OF d(2)], of k d ids] P(4) by blast
    have fr3: "frees H W (set ids) {q} s1 s3" by (rule frees_trans [OF d(2) fc(2)]) auto
    have "q \<notin> set ids" "q \<in> live_pages s2" using P(3) pgs(2) leaf(2) unfolding freesD(3) [OF d(2)] by auto
    then have pg3: "page_holds (view s3) q (leaf_body (del_at ?i rows))"
      using a(4) freesD(6) [OF fc(2), of q] by (simp add: page_holds_def)
    have mem: "(k, d, ids) \<in> set (rows_of t)" using nth_mem [OF a(1)] by (simp add: pl rows_plug a(2))
    then have present: "k \<in> fst ` set (rows_of t)" by force
    have rows: "filter (\<lambda>r. fst r \<noteq> k) (rows_of t) = ctx_rows_left fs @ del_at ?i rows @ ctx_rows_right fs"
      using out del_at_filter [OF dk a(1), of k] a(2) by (simp add: pl rows_plug)
    have run: "btree_delete root k s = total_op (if del_at ?i rows \<noteq> [] \<or> q = root then ret True
        else unlink_upward ?path (length fs - 1) q) s3"
      using f d(1) a(3) fc(1) by (simp add: btree_delete_def bind_pop_def total_op_def)
    have root: "q = root \<longleftrightarrow> fs = []" using pgs(6) T(1) by (cases fs; cases "hd fs") (auto simp: pl)
    show ?thesis
    proof (cases "del_at ?i rows \<noteq> [] \<or> q = root")
      case True
      let ?t = "plug fs (TLeaf q (del_at ?i rows))"
      have "fs = [] \<or> del_at ?i rows \<noteq> []" using True root by auto
      note L = leaf_kept [OF t1 [unfolded pl] wf a(1,2) fr3 pg3 this]
      have gone: "set (pages_of t) - set (pages_of ?t) = set ids" using L(2) P(3) by (auto simp: pl set_pages_plug)
      have fr: "frees H W (set (pages_of t) - set (pages_of ?t)) {q} s s3" unfolding gone by (rule frees_trans [OF fr1 fr3]) auto
      have "delete_result s root h t k True s3"
        by (rule delete_resultI [OF mem _ _ _ fr]) (use L rows in \<open>auto simp: rows_plug pl set_pages_plug\<close>)
      then show ?thesis using run True freesD(1,2,4) [OF fr] by (auto simp: total_op_def ret_def)
    next
      case False
      then have "take ?i rows = []" "drop (Suc ?i) rows = []" by (simp_all add: del_at_def)
      then have rows1: "rows = [(k, d, ids)]" using del_at_split [OF a(1)] a(2) by (metis append_Nil)
      have "1 \<notin> set (pages_of (plug fs (TLeaf q [(k, d, ids)])))" "set (pages_of (plug fs (TLeaf q [(k, d, ids)]))) \<inter> set_mset H = {}"
        using pg by (simp_all add: pl rows1)
      from leaf_emptied [OF c(1) leaf(3) t1 [unfolded pl rows1] wf _ fr3 this, of "[(q, ?i)]"] False root obtain s' t' where
        u: "unlink_upward ?path (length fs - 1) q s3 = (Inr True, s')" "frees H W (set (pages_of t) - set (pages_of t')) (set (pages_of t)) s1 s'"
          "table_tree s' root h t' \<or> t' = TLeaf root [] \<and> table_tree s' root 1 t'" "rows_of t' = ctx_rows_left fs @ ctx_rows_right fs"
          "set (pages_of t') \<subseteq> set (pages_of t) - set ids"
        unfolding pl rows1 by auto
      have fr: "frees H W (set (pages_of t) - set (pages_of t')) (set (pages_of t)) s s'" by (rule frees_trans [OF fr1 u(2)]) auto
      have "delete_result s root h t k True s'"
        by (rule delete_resultI [OF mem u(3) _ u(5) fr]) (use u(4) rows False in auto)
      then show ?thesis using run False u(1) freesD(1,2,4) [OF fr] by (auto simp: total_op_def)
    qed
  qed
qed

end
