(* ===== verification/Table.thy ===== *)
theory Table
  imports PoolStore Transaction TreeDelete
begin

text \<open>
  Tables as their clients see them: what search, insertion and deletion do to a stored tree, with the whole pool
  around it, and a sample table on which the theorems are applied.
\<close>

section \<open>A sample table\<close>

definition sample_rows :: "row list" where
  "sample_rows = [(5, [104, 105], [])]"

definition sample_table :: pool where
  "sample_table = snd (update_page 2 (\<lambda>_. serialize_page (leaf_body sample_rows)) (mk_pool blank_pager 8 0))"

lemma sample_row_ok: "row_ok (5, [104, 105], [])"
  by (simp add: row_ok_def rowid_ok_def local_len_def local_payload_size_def max_local_payload_eq Let_def)

lemma sample_table:
  "store_inv sample_table" "bp_capacity sample_table = 8" "spare_pages sample_table = 4294967292"
  "table_tree sample_table 2 1 (TLeaf 2 sample_rows)"
proof -
  have st: "store_inv (mk_pool blank_pager 8 0)" by (rule store_inv_fresh) (simp_all add: blank_pager_def default_header_def)
  have hd: "bp_capacity (mk_pool blank_pager 8 0) = 8" "spare_pages (mk_pool blank_pager 8 0) = 4294967292" "live_pages (mk_pool blank_pager 8 0) = {1..3}"
    by (simp_all add: mk_pool_def pager.defs blank_pager_def default_header_def spare_pages_def live_pages_def freelist_def)
  have used: "used_bytes (leaf_body sample_rows) \<le> PAGE_SIZE"
    using leaf_cell_small [OF sample_row_ok] by (simp add: used_bytes_leaf sample_rows_def PAGE_SIZE_def)
  show "store_inv sample_table" "bp_capacity sample_table = 8" "spare_pages sample_table = 4294967292"
    "table_tree sample_table 2 1 (TLeaf 2 sample_rows)"
  proof -
    obtain d where d: "serialize_page (leaf_body sample_rows) = Inr d" "parse_page d 0 = Inr (leaf_body sample_rows)" "length d = PAGE_SIZE"
      using serialize_parse [OF page_ok_body(1) [OF used]] by auto
    have h: "held {#} {} (mk_pool blank_pager 8 0)" using st by (simp add: store_inv_held)
    have "2 \<in> live_pages (mk_pool blank_pager 8 0)" by (simp add: hd)
    from update_page_held [OF h this, of "\<lambda>_. serialize_page (leaf_body sample_rows)" d] d obtain s' where
      u: "update_page 2 (\<lambda>_. serialize_page (leaf_body sample_rows)) (mk_pool blank_pager 8 0) = (Inr (), s')" "held {#} {} s'"
        "live_pages s' = {1..3}" "spare_pages s' = 4294967292" "view s' = (view (mk_pool blank_pager 8 0))(2 := d)" "frame (mk_pool blank_pager 8 0) s'"
      unfolding hd by auto
    then have e: "sample_table = s'" by (simp add: sample_table_def)
    show "store_inv sample_table" "spare_pages sample_table = 4294967292" using u by (simp_all add: e store_inv_held)
    show "bp_capacity sample_table = 8" using u(6) hd(1) by (simp add: e frame_def)
    show "table_tree sample_table 2 1 (TLeaf 2 sample_rows)"
      using u(3,5) d(2) used sample_row_ok
      by (auto simp: e table_tree_def shaped_def sample_rows_def row_stored_def local_len_def local_payload_size_def max_local_payload_eq Let_def)
  qed
qed

lemma chain_need_small: "length d \<le> 4061 \<Longrightarrow> chain_need d = 0"
  by (simp add: chain_need_def local_len_def local_payload_size_def max_local_payload_eq Let_def)

section \<open>Properties\<close>

text \<open>
  C5. \<^verbatim>\<open>BTree.search\<close> always returns on a well-formed tree, finds a rowid exactly when a row of the
  tree has it, names the leaf page and slot that hold it, and changes nothing.
\<close>

theorem search_correct:
  assumes "store_inv s" and "2 \<le> bp_capacity s" and "table_tree s root h t"
  shows "\<exists>r s'. btree_search root key s = Some (Inr r, s') \<and> calm {#} {} s s'
    \<and> (case r of None \<Rightarrow> key \<notin> fst ` set (rows_of t)
        | Some (p, i) \<Rightarrow> \<exists>fs rows. t = plug fs (TLeaf p rows) \<and> i < length rows \<and> fst (rows ! i) = key)"
proof -
  have "held {#} {} s" using assms(1) by (simp add: store_inv_held)
  moreover have "size ({#} :: nat multiset) + 1 < bp_capacity s" using assms(2) by simp
  ultimately show ?thesis
    using search_loop [of "{#}" "{}" s t key] assms(3) by (auto simp: table_tree_def btree_search_def)
qed


theorem search_correct_witness:
  "\<exists>p i s'. btree_search 2 5 sample_table = Some (Inr (Some (p, i)), s') \<and> calm {#} {} sample_table s'"
  using search_correct [of sample_table 2 1 "TLeaf 2 sample_rows" 5] sample_table
  by (fastforce simp: sample_rows_def split: option.splits)

text \<open>
  C2. \<^verbatim>\<open>BTree.insert\<close> always returns on a well-formed table with enough spare pages and a pool of four pages or more.
  It raises \<^verbatim>\<open>DuplicateRowIDError\<close> exactly when the rowid is there, and otherwise \<^verbatim>\<open>PageFullError\<close> at most when
  a cell is bigger than half a page, and after an error no page has changed; or the result is a well-formed table holding the old rows and the new one in key
  order, at most one level higher, whose pages are the old ones and the newly allocated, no other page
  having changed, no pin being left, and the transaction's rollback point kept.
\<close>

theorem insert_correct:
  assumes "store_inv s" and "4 \<le> bp_capacity s" and "table_tree s root h t" and "rowid_ok k" and "length d < 2 ^ 64"
    and "chain_need d + 2 * h \<le> spare_pages s"
  shows "\<exists>r s'. btree_insert root k d s = Some (r, s') \<and> store_inv s' \<and> txn_frame s s' \<and> spare_pages s \<le> spare_pages s' + chain_need d + 2 * h
    \<and> insert_result s root h t k d r s'"
proof -
  have "held {#} {} s" "size ({#} :: nat multiset) + 3 < bp_capacity s" using assms(1,2) by (simp_all add: store_inv_held)
  from btree_insert_tree [OF this assms(3-6)] show ?thesis unfolding store_inv_held using touchesD(1,2,4) by (auto simp: add.assoc)
qed


theorem insert_correct_witness:
  "\<exists>s' h' t' ids. btree_insert 2 7 [1, 2, 3] sample_table = Some (Inr (), s') \<and> table_tree s' 2 h' t'
     \<and> rows_of t' = sample_rows @ [(7, [1, 2, 3], ids)]"
proof -
  have "\<not> oversized sample_rows 7 [1, 2, 3]"
    using leaf_cell_size [OF sample_row_ok] leaf_cell_size [OF candidate_ok [of 7 "[1, 2, 3]", unfolded candidate_def]]
    by (auto simp: oversized_def sample_rows_def candidate_def local_len_def local_payload_size_def max_local_payload_eq Let_def rowid_ok_def)
  then show ?thesis
    using insert_correct [of sample_table 2 1 "TLeaf 2 sample_rows" 7 "[1, 2, 3]"] sample_table chain_need_small [of "[1, 2, 3]"]
    by (fastforce simp: rowid_ok_def insert_result_def sample_rows_def split: sum.splits)
qed

text \<open>
  C3. \<^verbatim>\<open>BTree.delete\<close> always returns on a well-formed table and says whether the rowid was there. If not,
  no page has changed. If so, the result is a well-formed table with the remaining rows in order, or the
  empty leaf; the row's overflow pages and every page the deletion emptied are back on the freelist, the
  tree's other pages are still its own, no page outside it has changed and no pin is left.
\<close>

theorem delete_correct:
  assumes "store_inv s" and "2 \<le> bp_capacity s" and "table_tree s root h t" and "1 \<notin> set (pages_of t)"
  shows "\<exists>r s'. btree_delete root k s = Some (Inr r, s') \<and> store_inv s' \<and> txn_frame s s' \<and> spare_pages s \<le> spare_pages s'
    \<and> delete_result s root h t k r s'"
proof -
  have "held {#} {} s" "size ({#} :: nat multiset) + 1 < bp_capacity s" using assms(1,2) by (simp_all add: store_inv_held)
  from btree_delete_tree [OF this assms(3,4)] show ?thesis unfolding store_inv_held by simp
qed


theorem delete_correct_witness:
  "\<exists>s'. btree_delete 2 5 sample_table = Some (Inr True, s') \<and> table_tree s' 2 1 (TLeaf 2 [])"
proof -
  obtain s' t' where "btree_delete 2 5 sample_table = Some (Inr True, s')" "table_tree s' 2 1 t'" "rows_of t' = []"
    using delete_correct [of sample_table 2 1 "TLeaf 2 sample_rows" 5] sample_table
    by (fastforce simp: delete_result_def sample_rows_def)
  moreover from this have "t' = TLeaf 2 []" by (cases t') (auto simp: table_tree_def shaped_def)
  ultimately show ?thesis by simp
qed

end
