(* ===== verification/TableMap.thy ===== *)
theory TableMap
  imports Table
begin

text \<open>
  A table b-tree as a finite map from rowids to payloads: the contract its clients rely on, as a locale,
  and the b-tree over the buffer pool as its provider. A client that runs any sequence of calls sees
  the answers of the map.
\<close>

section \<open>The map\<close>

datatype table_call = Lookup int | Put int bytes | Remove int

datatype table_answer = Found bool | Stored | Refused err | Removed bool

type_synonym row_map = "int \<Rightarrow> bytes option"

fun map_call :: "table_call \<Rightarrow> row_map \<Rightarrow> table_answer \<times> row_map" where
  "map_call (Lookup k) m = (Found (m k \<noteq> None), m)"
| "map_call (Put k d) m = (if m k = None then (Stored, m(k \<mapsto> d)) else (Refused DuplicateRowIDError, m))"
| "map_call (Remove k) m = (Removed (m k \<noteq> None), m(k := None))"

fun map_calls :: "table_call list \<Rightarrow> row_map \<Rightarrow> table_answer list \<times> row_map" where
  "map_calls [] m = ([], m)"
| "map_calls (c # cs) m = (let (a, m1) = map_call c m; (as, m2) = map_calls cs m1 in (a # as, m2))"

section \<open>The client\<close>

text \<open>A client's calls on any table, an exception caught and reported.\<close>

fun do_call :: "(int \<Rightarrow> ('s, 'a option) pop) \<Rightarrow> (int \<Rightarrow> bytes \<Rightarrow> ('s, unit) pop) \<Rightarrow> (int \<Rightarrow> ('s, bool) pop)
    \<Rightarrow> table_call \<Rightarrow> 's \<Rightarrow> (table_answer \<times> 's) option" where
  "do_call get put remove (Lookup k) s = (case get k s of None \<Rightarrow> None
     | Some (Inl e, s') \<Rightarrow> Some (Refused e, s') | Some (Inr r, s') \<Rightarrow> Some (Found (r \<noteq> None), s'))"
| "do_call get put remove (Put k d) s = (case put k d s of None \<Rightarrow> None
     | Some (Inl e, s') \<Rightarrow> Some (Refused e, s') | Some (Inr u, s') \<Rightarrow> Some (Stored, s'))"
| "do_call get put remove (Remove k) s = (case remove k s of None \<Rightarrow> None
     | Some (Inl e, s') \<Rightarrow> Some (Refused e, s') | Some (Inr b, s') \<Rightarrow> Some (Removed b, s'))"

fun do_calls :: "(int \<Rightarrow> ('s, 'a option) pop) \<Rightarrow> (int \<Rightarrow> bytes \<Rightarrow> ('s, unit) pop) \<Rightarrow> (int \<Rightarrow> ('s, bool) pop)
    \<Rightarrow> table_call list \<Rightarrow> 's \<Rightarrow> (table_answer list \<times> 's) option" where
  "do_calls get put remove [] s = Some ([], s)"
| "do_calls get put remove (c # cs) s = (case do_call get put remove c s of None \<Rightarrow> None
     | Some (a, s1) \<Rightarrow> (case do_calls get put remove cs s1 of None \<Rightarrow> None | Some (as, s2) \<Rightarrow> Some (a # as, s2)))"

text \<open>The rows a client may store: keys in range, payloads up to half a page.\<close>

fun small_call :: "table_call \<Rightarrow> bool" where
  "small_call (Put k d) \<longleftrightarrow> rowid_ok k \<and> length d \<le> 2020"
| "small_call _ \<longleftrightarrow> True"

text \<open>The contract: \<open>holds n s m\<close> says that \<open>s\<close> stores \<open>m\<close> and has room for \<open>n\<close> more calls.\<close>

locale rowid_table =
  fixes get :: "int \<Rightarrow> ('s, 'a option) pop" and put :: "int \<Rightarrow> bytes \<Rightarrow> ('s, unit) pop" and remove :: "int \<Rightarrow> ('s, bool) pop"
    and holds :: "nat \<Rightarrow> 's \<Rightarrow> row_map \<Rightarrow> bool"
  assumes get_law: "holds (Suc n) s m \<Longrightarrow> \<exists>r s'. get k s = Some (Inr r, s') \<and> (r \<noteq> None \<longleftrightarrow> m k \<noteq> None) \<and> holds n s' m"
    and put_law: "holds (Suc n) s m \<Longrightarrow> small_call (Put k d) \<Longrightarrow> \<exists>s'. if m k = None
      then put k d s = Some (Inr (), s') \<and> holds n s' (m(k \<mapsto> d)) else put k d s = Some (Inl DuplicateRowIDError, s') \<and> holds n s' m"
    and remove_law: "holds (Suc n) s m \<Longrightarrow> \<exists>s'. remove k s = Some (Inr (m k \<noteq> None), s') \<and> holds n s' (m(k := None))"
begin

lemma one_call:
  assumes "holds (Suc n) s m" and "small_call c"
  shows "\<exists>s'. do_call get put remove c s = Some (fst (map_call c m), s') \<and> holds n s' (snd (map_call c m))"
proof (cases c)
  case (Lookup k)
  then show ?thesis using get_law [OF assms(1), of k] by auto
next
  case (Put k d)
  then show ?thesis using put_law [OF assms(1), of k d] assms(2) by (auto split: if_splits)
next
  case (Remove k)
  then show ?thesis using remove_law [OF assms(1), of k] by auto
qed

lemma calls_refine:
  "holds (length cs) s m \<Longrightarrow> list_all small_call cs
    \<Longrightarrow> \<exists>s'. do_calls get put remove cs s = Some (fst (map_calls cs m), s') \<and> holds 0 s' (snd (map_calls cs m))"
proof (induction cs arbitrary: s m)
  case (Cons c cs)
  then obtain s1 where 1: "do_call get put remove c s = Some (fst (map_call c m), s1)" "holds (length cs) s1 (snd (map_call c m))"
    using one_call [of "length cs" s m c] by auto
  with Cons obtain s2 where "do_calls get put remove cs s1 = Some (fst (map_calls cs (snd (map_call c m))), s2)"
    "holds 0 s2 (snd (map_calls cs (snd (map_call c m))))" by fastforce
  with 1 show ?case by (simp add: split_beta Let_def)
qed simp

end

section \<open>The b-tree as provider\<close>

definition contents :: "row list \<Rightarrow> row_map" where
  "contents rows = map_of (map (\<lambda>(k, d, ids). (k, d)) rows)"

definition small_rows :: "row list \<Rightarrow> bool" where
  "small_rows rows \<longleftrightarrow> (\<forall>(k, d, ids) \<in> set rows. length d \<le> 2020)"

definition table_holds :: "nat \<Rightarrow> nat \<Rightarrow> pool \<Rightarrow> row_map \<Rightarrow> bool" where
  "table_holds root n s m \<longleftrightarrow> store_inv s \<and> 4 \<le> bp_capacity s \<and> (\<exists>h t. table_tree s root h t \<and> 1 \<notin> set (pages_of t)
     \<and> small_rows (rows_of t) \<and> m = contents (rows_of t) \<and> 2 * n * (h + n) \<le> spare_pages s)"

lemma contents_simps [simp]: "contents [] = Map.empty" "contents ((k, d, ids) # rows) = (contents rows)(k \<mapsto> d)"
  by (simp_all add: contents_def)

lemma contents_None: "contents rows k = None \<longleftrightarrow> k \<notin> fst ` set rows"
  unfolding contents_def map_of_eq_None_iff by (force simp: image_image)

lemma contents_insort: "k \<notin> fst ` set rows \<Longrightarrow> contents (insort_key fst (k, d, ids) rows) = (contents rows)(k \<mapsto> d)"
  by (induction rows) (auto simp: fun_eq_iff)

lemma contents_filter: "contents (filter (\<lambda>r. fst r \<noteq> k) rows) = (contents rows)(k := None)"
  by (induction rows) (auto simp: fun_eq_iff)

lemma small_rows_simps: "small_rows (insort_key fst (k, d, ids) rows) \<longleftrightarrow> length d \<le> 2020 \<and> small_rows rows"
  "small_rows rows \<Longrightarrow> small_rows (filter P rows)"
  by (auto simp: small_rows_def set_insort_key)

lemma store_live_one: "store_inv s \<Longrightarrow> 1 \<in> live_pages s"
  by (auto simp: store_inv_def freelist_inv_def live_pages_def)

lemma stored_row_ok: "stored v t \<Longrightarrow> r \<in> set (rows_of t) \<Longrightarrow> row_ok r"
proof (induction t)
  case (TLeaf p rows)
  then show ?case using stored_rows_ok by auto
qed auto

lemma not_oversized:
  assumes "stored v t" and "small_rows (rows_of t)" and "rowid_ok k" and "length d \<le> 2020"
  shows "\<not> oversized (rows_of t) k d"
proof -
  have cell: "length (leaf_cell (k', d', ids)) \<le> 2042" if "row_ok (k', d', ids)" "length d' \<le> 2020" for k' d' ids
    using leaf_cell_size [OF that(1)] local_len_le [of d'] that(2) by simp
  have "length d < 2 ^ 64" using assms(4) by simp
  from candidate_ok [OF assms(3) this] have "length (leaf_cell (candidate k d)) \<le> 2042"
    unfolding candidate_def by (rule cell [OF _ assms(4)])
  moreover have "length (leaf_cell r) \<le> 2042" if "r \<in> set (rows_of t)" for r
    using that stored_row_ok [OF assms(1) that] assms(2) by (cases r) (auto simp: small_rows_def intro!: cell)
  ultimately show ?thesis by (auto simp: oversized_def not_less)
qed

lemma budget:
  assumes "2 * Suc n * (h + Suc n) \<le> a" and "a \<le> b + 2 * h" and "h' \<le> Suc h"
  shows "2 * n * (h' + n) \<le> (b :: nat)"
proof -
  have "2 * n * (h' + n) \<le> 2 * n * (Suc h + n)" using assms(3) by (intro mult_le_mono2) simp
  also have "\<dots> + 2 * h \<le> 2 * Suc n * (h + Suc n)" by (simp add: algebra_simps)
  finally show ?thesis using assms(1,2) by linarith
qed

lemma holds_mono: "2 * Suc n * (h + Suc n) \<le> (a :: nat) \<Longrightarrow> a \<le> b \<Longrightarrow> 2 * n * (h + n) \<le> b"
  by (rule budget [of n h a b h]) simp_all

lemma table_get_law:
  assumes "table_holds root (Suc n) s m"
  shows "\<exists>r s'. btree_search root k s = Some (Inr r, s') \<and> (r \<noteq> None \<longleftrightarrow> m k \<noteq> None) \<and> table_holds root n s' m"
proof -
  obtain h t where s: "store_inv s" "4 \<le> bp_capacity s" and t: "table_tree s root h t" "1 \<notin> set (pages_of t)" "small_rows (rows_of t)"
    "m = contents (rows_of t)" "2 * Suc n * (h + Suc n) \<le> spare_pages s" using assms by (auto simp: table_holds_def)
  have hs: "held {#} {} s" using s(1) by (simp add: store_inv_held)
  have T: "stored (view s) t" "set (pages_of t) \<subseteq> live_pages s" "sorted_wrt (<) (flat t)" "pid t = root" using t(1) by (simp_all add: table_tree_def)
  have "size ({#} :: nat multiset) + 1 < bp_capacity s" using s(2) by simp
  from search_loop [OF hs this T(1-3), of k] obtain r s' where
    r: "btree_search root k s = Some (Inr r, s')" "calm {#} {} s s'"
      "case r of None \<Rightarrow> k \<notin> fst ` set (rows_of t) | Some (p, i) \<Rightarrow> \<exists>fs rows. t = plug fs (TLeaf p rows) \<and> i < length rows \<and> fst (rows ! i) = k"
    unfolding btree_search_def T(4) by blast
  have "r \<noteq> None \<longleftrightarrow> m k \<noteq> None"
    using r(3) unfolding t(4) contents_None by (auto simp: rows_plug split: option.splits)
  moreover have "table_holds root n s' m"
    using r(2) s t holds_mono [OF t(5)] unfolding table_holds_def
    by (auto simp: calm_def store_inv_held frame_def table_tree_def intro!: exI [of _ h] exI [of _ t])
  ultimately show ?thesis using r(1) by blast
qed

lemma table_put_law:
  assumes "table_holds root (Suc n) s m" and small: "small_call (Put k d)"
  shows "\<exists>s'. if m k = None then btree_insert root k d s = Some (Inr (), s') \<and> table_holds root n s' (m(k \<mapsto> d))
    else btree_insert root k d s = Some (Inl DuplicateRowIDError, s') \<and> table_holds root n s' m"
proof -
  obtain h t where s: "store_inv s" "4 \<le> bp_capacity s" and t: "table_tree s root h t" "1 \<notin> set (pages_of t)" "small_rows (rows_of t)"
    "m = contents (rows_of t)" "2 * Suc n * (h + Suc n) \<le> spare_pages s" using assms by (auto simp: table_holds_def)
  have d: "rowid_ok k" "length d < 2 ^ 64" "length d \<le> 2020" "chain_need d = 0" using small chain_need_small [of d] by simp_all
  have hs: "held {#} {} s" "size ({#} :: nat multiset) + 3 < bp_capacity s" using s by (simp_all add: store_inv_held)
  have "2 * h \<le> 2 * Suc n * (h + Suc n)" by (simp add: algebra_simps)
  then have sp: "chain_need d + 2 * h \<le> spare_pages s" using t(5) d(4) by simp
  from btree_insert_tree [OF hs t(1) d(1,2) sp] obtain r s' where
    r: "btree_insert root k d s = Some (r, s')" "touches {#} {} (2 * h) (set (pages_of t)) s s'" "insert_result s root h t k d r s'"
    unfolding d(4) by auto
  note T = touchesD [OF r(2)]
  have s': "store_inv s'" "4 \<le> bp_capacity s'" using T s by (simp_all add: store_inv_held)
  have "stored (view s) t" using t(1) by (simp add: table_tree_def)
  note no = not_oversized [OF this t(3) d(1,3)]
  show ?thesis
  proof (cases "k \<in> fst ` set (rows_of t)")
    case True
    then have "r = Inl DuplicateRowIDError" "view s' = view s" "live_pages s' = live_pages s"
      using r(3) no by (auto simp: insert_result_def split: sum.splits)
    moreover from this have "table_holds root n s' m"
      using s' t T(4) budget [OF t(5), of "spare_pages s'" h] unfolding table_holds_def
      by (auto simp: table_tree_def intro!: exI [of _ h] exI [of _ t])
    ultimately show ?thesis using r(1) True contents_None [of "rows_of t" k] t(4) by auto
  next
    case False
    then obtain h' t' ids where t': "r = Inr ()" "table_tree s' root h' t'" "h' \<le> Suc h" "rows_of t' = insort_key fst (k, d, ids) (rows_of t)"
      "set (pages_of t') = set (pages_of t) \<union> (live_pages s' - live_pages s)"
      using r(3) no by (auto simp: insert_result_def split: sum.splits)
    have "1 \<notin> set (pages_of t')" using t'(5) t(2) store_live_one [OF s(1)] by auto
    then have "table_holds root n s' (m(k \<mapsto> d))"
      using s' t(3,4) t'(2) budget [OF t(5) T(4) t'(3)] d(3) t'(4) contents_insort [OF False, of d ids] unfolding table_holds_def
      by (auto simp: small_rows_simps intro!: exI [of _ h'] exI [of _ t'])
    then show ?thesis using r(1) t'(1) False contents_None [of "rows_of t" k] t(4) by auto
  qed
qed

lemma table_remove_law:
  assumes "table_holds root (Suc n) s m"
  shows "\<exists>s'. btree_delete root k s = Some (Inr (m k \<noteq> None), s') \<and> table_holds root n s' (m(k := None))"
proof -
  obtain h t where s: "store_inv s" "4 \<le> bp_capacity s" and t: "table_tree s root h t" "1 \<notin> set (pages_of t)" "small_rows (rows_of t)"
    "m = contents (rows_of t)" "2 * Suc n * (h + Suc n) \<le> spare_pages s" using assms by (auto simp: table_holds_def)
  have hs: "held {#} {} s" "size ({#} :: nat multiset) + 1 < bp_capacity s" using s by (simp_all add: store_inv_held)
  from btree_delete_tree [OF hs t(1,2), of k] obtain r s' where
    r: "btree_delete root k s = Some (Inr r, s')" "held {#} {} s'" "txn_frame s s'" "spare_pages s \<le> spare_pages s'" "delete_result s root h t k r s'"
    by auto
  have s': "store_inv s'" "4 \<le> bp_capacity s'" using r s by (simp_all add: store_inv_held txn_frame_def)
  have room: "2 * n * (h + n) \<le> spare_pages s'" by (rule holds_mono [OF t(5) r(4)])
  have h1: "1 \<le> h" using t(1) by (cases t) (auto simp: table_tree_def shaped_def)
  show ?thesis
  proof (cases "k \<in> fst ` set (rows_of t)")
    case True
    then obtain t' where t': "r" "table_tree s' root h t' \<or> t' = TLeaf root [] \<and> table_tree s' root 1 t'"
      "rows_of t' = filter (\<lambda>r. fst r \<noteq> k) (rows_of t)" "set (pages_of t') \<subseteq> set (pages_of t)"
      using r(5) unfolding delete_result_def by auto
    obtain h' where h': "table_tree s' root h' t'" "h' \<le> h" using t'(2) h1 by auto
    have "2 * n * (h' + n) \<le> 2 * n * (h + n)" using h'(2) by simp
    then have "2 * n * (h' + n) \<le> spare_pages s'" using room by linarith
    moreover have "1 \<notin> set (pages_of t')" using t'(4) t(2) by auto
    moreover have "small_rows (rows_of t')" "m(k := None) = contents (rows_of t')"
      using t(3,4) by (simp_all add: t'(3) small_rows_simps contents_filter)
    ultimately have "table_holds root n s' (m(k := None))" using s' h'(1) unfolding table_holds_def by blast
    moreover have "m k \<noteq> None" using True by (simp only: t(4) contents_None not_not)
    ultimately show ?thesis using r(1) t'(1) by simp
  next
    case False
    then have u: "\<not> r" "view s' = view s" "live_pages s' = live_pages s" using r(5) by (auto simp: delete_result_def unchanged_def)
    have "m k = None" using False by (simp only: t(4) contents_None not_False_eq_True)
    then have "m(k := None) = m" by (rule fun_upd_idem)
    moreover have "table_holds root n s' m"
      using s' t u room unfolding table_holds_def by (auto simp: table_tree_def intro!: exI [of _ h] exI [of _ t])
    ultimately show ?thesis using r(1) u(1) \<open>m k = None\<close> by simp
  qed
qed

interpretation tm: rowid_table "btree_search root" "btree_insert root" "btree_delete root" "table_holds root" for root
  by unfold_locales (rule table_get_law table_put_law table_remove_law; assumption)+

section \<open>Property\<close>

text \<open>
  C1. A table b-tree refines the finite map from rowids to payloads: on a well-formed table with rows of
  up to half a page and enough spare pages, any sequence of searches, insertions and deletions
  returns, answers exactly as the map does (duplicates refused, absent rows not deleted), and leaves
  a well-formed table holding the map's final rows.
\<close>

theorem table_refines_map:
  assumes "table_holds root (length cs) s m" and "list_all small_call cs"
  shows "\<exists>s'. do_calls (btree_search root) (btree_insert root) (btree_delete root) cs s = Some (fst (map_calls cs m), s')
    \<and> table_holds root 0 s' (snd (map_calls cs m))"
  using tm.calls_refine [OF assms] .


theorem table_refines_map_witness:
  "\<exists>s'. do_calls (btree_search 2) (btree_insert 2) (btree_delete 2) [Put 7 [1], Remove 5, Lookup 5, Put 7 [2], Lookup 7] sample_table
     = Some ([Stored, Removed True, Found False, Refused DuplicateRowIDError, Found True], s')"
proof -
  have "table_holds 2 (length [Put 7 [1], Remove 5, Lookup 5, Put 7 [2], Lookup 7]) sample_table (contents sample_rows)"
    using sample_table unfolding table_holds_def
    by (auto simp: sample_rows_def small_rows_def intro!: exI [of _ 1] exI [of _ "TLeaf 2 sample_rows"])
  then show ?thesis
    using table_refines_map [of 2 "[Put 7 [1], Remove 5, Lookup 5, Put 7 [2], Lookup 7]" sample_table "contents sample_rows"]
    by (auto simp: sample_rows_def rowid_ok_def simp del: do_calls.simps)
qed

end
