(* ===== verification/Locks.thy ===== *)
theory Locks
  imports Prelude "HOL-Library.AList"
begin

text \<open>
  The lock manager, \<^verbatim>\<open>src/src/quilldb/txn/locks.py\<close>: shared and exclusive locks on named resources,
  first come first served, with deadlock detection. A thread inside \<^verbatim>\<open>acquire\<close> holds the resource's
  condition from one \<^verbatim>\<open>wait\<close> to the next, and each such stretch is one step here: the entry of the
  call and every round of its wait loop. Dictionaries are association lists in insertion order. The
  expiry of the deadline is an argument of a round.
\<close>

section \<open>Definitions\<close>

datatype lock_mode = SHARED | EXCLUSIVE

fun COMPATIBLE :: "lock_mode \<Rightarrow> lock_mode \<Rightarrow> bool" where
  "COMPATIBLE SHARED SHARED = True"
| "COMPATIBLE SHARED EXCLUSIVE = False"
| "COMPATIBLE EXCLUSIVE SHARED = False"
| "COMPATIBLE EXCLUSIVE EXCLUSIVE = False"

record lock_entry =
  holders :: "(int \<times> lock_mode) list"
  waiters :: "(int \<times> lock_mode) list"

type_synonym lock_edge = "int \<times> string \<times> int"

record lock_manager =
  locks :: "(string \<times> lock_entry) list"
  waiting_for :: "(int \<times> string) list"
  doomed :: "(int \<times> lock_edge list) list"

definition empty_entry :: lock_entry where
  "empty_entry = \<lparr>holders = [], waiters = []\<rparr>"

definition new_lock_manager :: lock_manager where
  "new_lock_manager = \<lparr>locks = [], waiting_for = [], doomed = []\<rparr>"

definition entry_for :: "string \<Rightarrow> lock_manager \<Rightarrow> lock_entry \<times> lock_manager" where
  "entry_for resource lm =
     (case map_of (locks lm) resource of
        None \<Rightarrow> (empty_entry, lm\<lparr>locks := AList.update resource empty_entry (locks lm)\<rparr>)
      | Some entry \<Rightarrow> (entry, lm))"

definition put_entry :: "string \<Rightarrow> lock_entry \<Rightarrow> lock_manager \<Rightarrow> lock_manager" where
  "put_entry resource entry lm = lm\<lparr>locks := AList.update resource entry (locks lm)\<rparr>"

text \<open>The nested function \<^verbatim>\<open>grantable\<close> of \<^verbatim>\<open>acquire\<close>.\<close>

definition grantable :: "int \<Rightarrow> lock_mode \<Rightarrow> lock_entry \<Rightarrow> bool" where
  "grantable txn_id mode entry \<longleftrightarrow>
     (if waiters entry \<noteq> [] \<and> fst (hd (waiters entry)) \<noteq> txn_id then False
      else list_all (\<lambda>(holder, other_mode). holder \<noteq> txn_id \<longrightarrow> COMPATIBLE mode other_mode) (holders entry))"

definition grant :: "int \<Rightarrow> lock_mode \<Rightarrow> lock_entry \<Rightarrow> lock_entry" where
  "grant txn_id mode entry = entry\<lparr>holders := AList.update txn_id mode (holders entry)\<rparr>"

text \<open>The entry of \<^verbatim>\<open>acquire\<close>: true when the call returns at once, false when it joined the queue.\<close>

definition acquire_start :: "int \<Rightarrow> string \<Rightarrow> lock_mode \<Rightarrow> lock_manager \<Rightarrow> bool \<times> lock_manager" where
  "acquire_start txn_id resource mode lm =
     (let (entry, lm1) = entry_for resource lm; held = map_of (holders entry) txn_id in
      if held = Some mode \<or> held = Some EXCLUSIVE then (True, lm1)
      else if grantable txn_id mode entry then (True, put_entry resource (grant txn_id mode entry) lm1)
      else (False, put_entry resource (entry\<lparr>waiters := waiters entry @ [(txn_id, mode)]\<rparr>) lm1))"

text \<open>
  \<^verbatim>\<open>_detect_deadlock\<close>: the recursive walk and the loop over a resource's holders. The mutable path and
  edge lists of the source are grown before a call and restored after it; here they are passed down.
\<close>

definition wait_domain :: "lock_manager \<Rightarrow> int set" where
  "wait_domain lm = fst ` set (waiting_for lm)"

lemma walk_decreases:
  assumes "map_of (waiting_for lm) t = Some r" and "t \<notin> set path"
  shows "card (wait_domain lm - insert t (set path)) < card (wait_domain lm - set path)"
proof -
  have "t \<in> wait_domain lm" using map_of_SomeD [OF assms(1)] by (force simp: wait_domain_def)
  then have "wait_domain lm - insert t (set path) \<subset> wait_domain lm - set path" using assms(2) by auto
  moreover have "finite (wait_domain lm - set path)" by (simp add: wait_domain_def)
  ultimately show ?thesis by (rule psubset_card_mono [rotated])
qed

function walk :: "lock_manager \<Rightarrow> int \<Rightarrow> int list \<Rightarrow> lock_edge list \<Rightarrow> (int \<times> lock_edge list) option"
  and walk_holders :: "lock_manager \<Rightarrow> int \<Rightarrow> string \<Rightarrow> int list \<Rightarrow> int list \<Rightarrow> lock_edge list \<Rightarrow> (int \<times> lock_edge list) option" where
  "walk lm txn_id path path_edges =
     (if txn_id \<in> set path
      then let i = length (takeWhile (\<lambda>t. t \<noteq> txn_id) path) in Some (Max (set (drop i path)), drop i path_edges)
      else case map_of (waiting_for lm) txn_id of
        None \<Rightarrow> None
      | Some resource \<Rightarrow> (case map_of (locks lm) resource of
          None \<Rightarrow> None
        | Some entry \<Rightarrow> walk_holders lm txn_id resource (map fst (holders entry)) (path @ [txn_id]) path_edges))"
| "walk_holders lm txn_id resource [] path path_edges = None"
| "walk_holders lm txn_id resource (holder # rest) path path_edges =
     (if holder = txn_id then walk_holders lm txn_id resource rest path path_edges
      else case walk lm holder path (path_edges @ [(txn_id, resource, holder)]) of
        Some found \<Rightarrow> Some found
      | None \<Rightarrow> walk_holders lm txn_id resource rest path path_edges)"
  by pat_completeness auto

termination
  by (relation "measures [\<lambda>x. case x of Inl (lm, t, path, _) \<Rightarrow> card (wait_domain lm - set path)
      | Inr (lm, t, r, hs, path, _) \<Rightarrow> card (wait_domain lm - set path),
      \<lambda>x. case x of Inl _ \<Rightarrow> 0 | Inr (lm, t, r, hs, path, _) \<Rightarrow> Suc (length hs)]")
    (auto intro: walk_decreases)

declare walk.simps [simp del]

definition detect_deadlock :: "int \<Rightarrow> lock_manager \<Rightarrow> (int \<times> lock_edge list) option" where
  "detect_deadlock waiting_txn lm = walk lm waiting_txn [] []"

text \<open>The \<^verbatim>\<open>finally\<close> of the wait loop.\<close>

definition leave_queue :: "int \<Rightarrow> string \<Rightarrow> lock_mode \<Rightarrow> lock_manager \<Rightarrow> lock_manager" where
  "leave_queue txn_id resource mode lm =
     (let (entry, lm1) = entry_for resource lm;
          lm2 = put_entry resource (entry\<lparr>waiters := remove1 (txn_id, mode) (waiters entry)\<rparr>) lm1 in
      lm2\<lparr>waiting_for := AList.delete txn_id (waiting_for lm2), doomed := AList.delete txn_id (doomed lm2)\<rparr>)"

definition wake :: "string \<Rightarrow> lock_manager \<Rightarrow> lock_manager" where
  "wake resource lm = snd (entry_for resource lm)"

text \<open>One round of the wait loop: \<open>None\<close> when it goes round again or sleeps, else how the call ends.\<close>

definition wait_round :: "int \<Rightarrow> string \<Rightarrow> lock_mode \<Rightarrow> bool \<Rightarrow> lock_manager \<Rightarrow> unit res option \<times> lock_manager" where
  "wait_round txn_id resource mode timed_out lm =
     (let (entry, lm) = entry_for resource lm in
      if grantable txn_id mode entry
      then (Some (Inr ()), leave_queue txn_id resource mode (put_entry resource (grant txn_id mode entry) lm))
      else case map_of (doomed lm) txn_id of
        Some doomed_cycle \<Rightarrow> (Some (Inl (DeadlockError txn_id doomed_cycle)), leave_queue txn_id resource mode lm)
      | None \<Rightarrow>
          let lm1 = lm\<lparr>waiting_for := AList.update txn_id resource (waiting_for lm)\<rparr>;
              sleep = (\<lambda>lm. if timed_out then (Some (Inl LockTimeoutError), leave_queue txn_id resource mode lm) else (None, lm)) in
          (case detect_deadlock txn_id lm1 of
             None \<Rightarrow> sleep lm1
           | Some (victim, cycle) \<Rightarrow>
               if victim = txn_id then (Some (Inl (DeadlockError victim cycle)), leave_queue txn_id resource mode lm1)
               else if map_of (doomed lm1) victim = None
               then let lm2 = lm1\<lparr>doomed := AList.update victim cycle (doomed lm1)\<rparr> in
                    (case map_of (waiting_for lm2) victim of
                       Some victim_resource \<Rightarrow> (None, wake victim_resource lm2)
                     | None \<Rightarrow> sleep lm2)
               else sleep lm1))"

definition release_all :: "int \<Rightarrow> lock_manager \<Rightarrow> lock_manager" where
  "release_all txn_id lm = lm
     \<lparr>locks := map (\<lambda>(r, entry). (r, entry\<lparr>holders := AList.delete txn_id (holders entry)\<rparr>)) (locks lm),
      waiting_for := AList.delete txn_id (waiting_for lm), doomed := AList.delete txn_id (doomed lm)\<rparr>"

section \<open>The detector\<close>

text \<open>The wait-for edges the detector follows: from a waiting transaction to the other holders of what it wants.\<close>

definition waits_on :: "lock_manager \<Rightarrow> int \<Rightarrow> string \<Rightarrow> int \<Rightarrow> bool" where
  "waits_on lm t r h \<longleftrightarrow> map_of (waiting_for lm) t = Some r \<and> h \<noteq> t
     \<and> (\<exists>e. map_of (locks lm) r = Some e \<and> h \<in> fst ` set (holders e))"

definition wait_graph :: "lock_manager \<Rightarrow> (int \<times> int) set" where
  "wait_graph lm = {(t, h). \<exists>r. waits_on lm t r h}"

text \<open>\<open>trail lm ts es t\<close>: the edges \<open>es\<close> lead through the transactions \<open>ts\<close> and on to \<open>t\<close>.\<close>

fun trail :: "lock_manager \<Rightarrow> int list \<Rightarrow> lock_edge list \<Rightarrow> int \<Rightarrow> bool" where
  "trail lm [] es t \<longleftrightarrow> es = []"
| "trail lm (p # ps) [] t \<longleftrightarrow> False"
| "trail lm (p # ps) ((a, r, b) # es) t \<longleftrightarrow> a = p \<and> b = hd (ps @ [t]) \<and> waits_on lm p r b \<and> trail lm ps es t"

lemma trail_snoc: "trail lm ps es t \<Longrightarrow> waits_on lm t r h \<Longrightarrow> trail lm (ps @ [t]) (es @ [(t, r, h)]) h"
  by (induction lm ps es t rule: trail.induct) (auto simp: hd_append)

lemma trail_drop: "trail lm ps es t \<Longrightarrow> trail lm (drop i ps) (drop i es) t"
proof (induction i arbitrary: ps es)
  case (Suc i)
  then show ?case by (cases ps; cases es) auto
qed simp

lemma trail_reach: "trail lm ps es t \<Longrightarrow> p \<in> set ps \<Longrightarrow> (p, t) \<in> (wait_graph lm)\<^sup>+"
proof (induction lm ps es t arbitrary: p rule: trail.induct)
  case (3 lm q ps a r b es t)
  then have e: "(q, b) \<in> wait_graph lm" and b: "b = hd (ps @ [t])" by (auto simp: wait_graph_def)
  have "(q, t) \<in> (wait_graph lm)\<^sup>+"
  proof (cases ps)
    case Nil
    then show ?thesis using e b by auto
  next
    case (Cons p' ps')
    then have "(b, t) \<in> (wait_graph lm)\<^sup>+" using 3 b by simp
    then show ?thesis using e by (meson trancl_into_trancl2)
  qed
  with 3 show ?case by auto
qed simp_all

definition deadlock_cycle :: "lock_manager \<Rightarrow> int \<Rightarrow> lock_edge list \<Rightarrow> bool" where
  "deadlock_cycle lm v es \<longleftrightarrow> (\<exists>ts. ts \<noteq> [] \<and> distinct ts \<and> trail lm ts es (hd ts) \<and> v = Max (set ts))"

lemma first_index:
  assumes "t \<in> set ps"
  shows "\<exists>qs rs. ps = qs @ t # rs \<and> length (takeWhile (\<lambda>u. u \<noteq> t) ps) = length qs"
proof -
  obtain qs rs where "ps = qs @ t # rs" "t \<notin> set qs" using split_list_first [OF assms] by blast
  moreover from this have "takeWhile (\<lambda>u. u \<noteq> t) ps = qs"
    using takeWhile_append2 [of qs "\<lambda>u. u \<noteq> t" "t # rs"] by fastforce
  ultimately show ?thesis by auto
qed

lemma walk_sound:
  "walk lm t path es = Some (v, c) \<Longrightarrow> trail lm path es t \<Longrightarrow> distinct path \<Longrightarrow> deadlock_cycle lm v c"
  "walk_holders lm t r hs path es = Some (v, c) \<Longrightarrow> \<forall>h \<in> set hs. h \<noteq> t \<longrightarrow> trail lm path (es @ [(t, r, h)]) h
    \<Longrightarrow> distinct path \<Longrightarrow> deadlock_cycle lm v c"
proof (induction lm t path es and lm t r hs path es arbitrary: v c and v c rule: walk_walk_holders.induct)
  case (1 lm t path es)
  show ?case
  proof (cases "t \<in> set path")
    case True
    from first_index [OF True] obtain qs rs where
      ps: "path = qs @ t # rs" "length (takeWhile (\<lambda>u. u \<noteq> t) path) = length qs" by blast
    have "walk lm t path es = Some (Max (set (drop (length qs) path)), drop (length qs) es)"
      unfolding walk.simps [of lm t path es] ps(2) using True by (simp add: Let_def)
    then have "v = Max (set (t # rs))" "c = drop (length qs) es" using 1(2) ps(1) by simp_all
    moreover have "trail lm (t # rs) (drop (length qs) es) t" using trail_drop [OF 1(3), of "length qs"] ps(1) by simp
    ultimately show ?thesis using 1(4) ps(1) by (auto simp: deadlock_cycle_def intro!: exI [of _ "t # rs"])
  next
    case False
    then obtain r e where w: "map_of (waiting_for lm) t = Some r" "map_of (locks lm) r = Some e"
      "walk_holders lm t r (map fst (holders e)) (path @ [t]) es = Some (v, c)" using 1(2) by (auto simp: walk.simps split: option.splits)
    have "\<forall>h \<in> set (map fst (holders e)). h \<noteq> t \<longrightarrow> trail lm (path @ [t]) (es @ [(t, r, h)]) h"
      using w(1,2) 1(3) by (auto simp: waits_on_def intro!: trail_snoc rev_image_eqI)
    from 1(1) [OF False w(1,2,3) this] False 1(4) show ?thesis by simp
  qed
next
  case (3 lm t r h hs path es)
  show ?case
  proof (cases "h = t")
    case True
    then show ?thesis using 3 by simp
  next
    case False
    show ?thesis
    proof (cases "walk lm h path (es @ [(t, r, h)])")
      case None
      then show ?thesis using 3 False by simp
    next
      case (Some f)
      then show ?thesis using 3 False by auto
    qed
  qed
qed simp

lemma walk_holders_None:
  "walk_holders lm t r hs path es = None \<longleftrightarrow> (\<forall>h \<in> set hs. h \<noteq> t \<longrightarrow> walk lm h path (es @ [(t, r, h)]) = None)"
  by (induction hs) (auto split: option.splits)

lemma walk_None:
  assumes "walk lm t path es = None"
  shows "t \<notin> set path" and "(t, h) \<in> wait_graph lm \<Longrightarrow> \<exists>es'. walk lm h (path @ [t]) es' = None"
proof -
  show t: "t \<notin> set path" using assms by (auto simp: walk.simps Let_def)
  show "\<exists>es'. walk lm h (path @ [t]) es' = None" if "(t, h) \<in> wait_graph lm"
  proof -
    from that obtain r e where w: "map_of (waiting_for lm) t = Some r" "h \<noteq> t" "map_of (locks lm) r = Some e" "h \<in> set (map fst (holders e))"
      by (auto simp: wait_graph_def waits_on_def)
    have "walk_holders lm t r (map fst (holders e)) (path @ [t]) es = None" using assms t w by (simp add: walk.simps)
    then show ?thesis using w unfolding walk_holders_None by blast
  qed
qed

lemma walk_None_reach:
  assumes "(t, u) \<in> (wait_graph lm)\<^sup>*" and "walk lm t path es = None"
  shows "\<exists>path' es'. walk lm u path' es' = None \<and> set path \<subseteq> set path' \<and> (u = t \<and> path' = path \<or> t \<in> set path')"
  using assms(1)
proof (induction rule: rtrancl_induct)
  case base
  then show ?case using assms(2) by blast
next
  case (step u w)
  then obtain path' es' where p: "walk lm u path' es' = None" "set path \<subseteq> set path'" "u = t \<and> path' = path \<or> t \<in> set path'" by blast
  from walk_None(2) [OF p(1) step(2)] obtain es'' where "walk lm w (path' @ [u]) es'' = None" by blast
  then show ?case using p(2,3) by (intro exI [of _ "path' @ [u]"] exI [of _ es'']) auto
qed

lemma walk_complete:
  assumes "walk lm t path es = None" and "(t, u) \<in> (wait_graph lm)\<^sup>*"
  shows "(u, u) \<notin> (wait_graph lm)\<^sup>+"
proof
  assume c: "(u, u) \<in> (wait_graph lm)\<^sup>+"
  from walk_None_reach [OF assms(2,1)] obtain p es1 where p: "walk lm u p es1 = None" by blast
  from c obtain w where w: "(u, w) \<in> wait_graph lm" "(w, u) \<in> (wait_graph lm)\<^sup>*" by (meson tranclD)
  from walk_None(2) [OF p w(1)] obtain es2 where "walk lm w (p @ [u]) es2 = None" by blast
  from walk_None_reach [OF w(2) this] obtain p' es3 where "walk lm u p' es3 = None" "set (p @ [u]) \<subseteq> set p'" by blast
  then show False using walk_None(1) by fastforce
qed

section \<open>Steps of the system\<close>

definition the_entry :: "lock_manager \<Rightarrow> string \<Rightarrow> lock_entry" where
  "the_entry lm r = (case map_of (locks lm) r of None \<Rightarrow> empty_entry | Some e \<Rightarrow> e)"

definition queue :: "lock_entry \<Rightarrow> int set" where
  "queue e = fst ` set (waiters e)"

definition waiting :: "lock_manager \<Rightarrow> int \<Rightarrow> bool" where
  "waiting lm t \<longleftrightarrow> (\<exists>r. t \<in> queue (the_entry lm r))"

text \<open>
  A transaction is run by one thread: it makes a call only when none of its calls is waiting. The label
  of a step is the call and how it went.
\<close>

datatype lock_event = Start int string lock_mode bool | Round int string lock_mode "unit res option" | Release int

inductive lock_step :: "lock_manager \<Rightarrow> lock_event \<Rightarrow> lock_manager \<Rightarrow> bool" where
  start: "\<not> waiting lm t \<Longrightarrow> acquire_start t r m lm = (b, lm') \<Longrightarrow> lock_step lm (Start t r m b) lm'"
| round: "(t, m) \<in> set (waiters (the_entry lm r)) \<Longrightarrow> wait_round t r m timed_out lm = (out, lm') \<Longrightarrow> lock_step lm (Round t r m out) lm'"
| release: "\<not> waiting lm t \<Longrightarrow> lock_step lm (Release t) (release_all t lm)"

inductive_cases lock_stepE: "lock_step lm ev lm'"

inductive lock_run :: "lock_manager \<Rightarrow> lock_event list \<Rightarrow> lock_manager \<Rightarrow> bool" where
  stay: "lock_run lm [] lm"
| step: "lock_run lm evs lm1 \<Longrightarrow> lock_step lm1 ev lm2 \<Longrightarrow> lock_run lm (evs @ [ev]) lm2"

subsection \<open>What the operations do to an entry\<close>

lemma queue_simps [simp]:
  "queue (grant t m e) = queue e" "queue (e\<lparr>holders := hs\<rparr>) = queue e" "queue (e\<lparr>waiters := remove1 w ws\<rparr>) = fst ` set (remove1 w ws)"
  "queue (e\<lparr>waiters := waiters e @ [(t, m)]\<rparr>) = insert t (queue e)"
  by (auto simp: queue_def grant_def)

lemma entry_for_simps [simp]:
  "fst (entry_for r lm) = the_entry lm r" "the_entry (snd (entry_for r lm)) q = the_entry lm q"
  "waiting_for (snd (entry_for r lm)) = waiting_for lm" "doomed (snd (entry_for r lm)) = doomed lm"
  by (auto simp: entry_for_def the_entry_def update_conv split: option.splits)

lemma entry_for_case [simp]: "(case entry_for r lm of (e, l) \<Rightarrow> f e l) = f (the_entry lm r) (snd (entry_for r lm))"
  by (simp add: split_beta)

lemma the_entry_simps [simp]:
  "the_entry (put_entry r e lm) q = (if q = r then e else the_entry lm q)"
  "the_entry (lm\<lparr>waiting_for := x\<rparr>) = the_entry lm" "the_entry (lm\<lparr>doomed := y\<rparr>) = the_entry lm"
  "waiting_for (put_entry r e lm) = waiting_for lm" "doomed (put_entry r e lm) = doomed lm"
  by (auto simp: put_entry_def the_entry_def update_conv fun_eq_iff)

lemma the_entry_leave [simp]:
  "the_entry (leave_queue t r m lm) q
     = (if q = r then (the_entry lm r)\<lparr>waiters := remove1 (t, m) (waiters (the_entry lm r))\<rparr> else the_entry lm q)"
  "waiting_for (leave_queue t r m lm) = AList.delete t (waiting_for lm)"
  by (simp_all add: leave_queue_def Let_def)

lemma the_entry_wake [simp]: "the_entry (wake r lm) = the_entry lm" "waiting_for (wake r lm) = waiting_for lm"
  by (simp_all add: wake_def fun_eq_iff)

lemma the_entry_release [simp]:
  "the_entry (release_all t lm) r = (the_entry lm r)\<lparr>holders := AList.delete t (holders (the_entry lm r))\<rparr>"
  "waiting_for (release_all t lm) = AList.delete t (waiting_for lm)"
proof -
  have "map_of (map (\<lambda>(r, entry). (r, entry\<lparr>holders := AList.delete t (holders entry)\<rparr>)) xs) r
    = map_option (\<lambda>e. e\<lparr>holders := AList.delete t (holders e)\<rparr>) (map_of xs r)" for xs :: "(string \<times> lock_entry) list"
    by (induction xs) auto
  then show "the_entry (release_all t lm) r = (the_entry lm r)\<lparr>holders := AList.delete t (holders (the_entry lm r))\<rparr>"
    by (simp add: release_all_def the_entry_def empty_entry_def split: option.split)
qed (simp add: release_all_def)

text \<open>The two outcomes of a call's entry, and those of a round, on the entry and the wait-for table.\<close>

lemma acquire_start_cases:
  assumes "acquire_start t r m lm = (b, lm')"
  obtains (held) "b" and "map_of (holders (the_entry lm r)) t \<in> {Some m, Some EXCLUSIVE}" and "the_entry lm' = the_entry lm"
      and "waiting_for lm' = waiting_for lm"
  | (granted) "b" and "map_of (holders (the_entry lm r)) t \<notin> {Some m, Some EXCLUSIVE}" and "grantable t m (the_entry lm r)"
      and "the_entry lm' = (the_entry lm)(r := grant t m (the_entry lm r))" and "waiting_for lm' = waiting_for lm"
  | (queued) "\<not> b" and "map_of (holders (the_entry lm r)) t \<notin> {Some m, Some EXCLUSIVE}" and "\<not> grantable t m (the_entry lm r)"
      and "the_entry lm' = (the_entry lm)(r := (the_entry lm r)\<lparr>waiters := waiters (the_entry lm r) @ [(t, m)]\<rparr>)"
      and "waiting_for lm' = waiting_for lm"
  using assms unfolding acquire_start_def Let_def entry_for_case
  by (auto simp: Let_def fun_eq_iff split: if_splits)

lemma wait_round_cases:
  assumes "wait_round t r m timed_out lm = (res, lm')"
  obtains (granted) "res = Some (Inr ())" and "grantable t m (the_entry lm r)"
      and "the_entry lm' = (the_entry lm)(r := (grant t m (the_entry lm r))\<lparr>waiters := remove1 (t, m) (waiters (the_entry lm r))\<rparr>)"
      and "waiting_for lm' = AList.delete t (waiting_for lm)"
  | (ended) e where "res = Some (Inl e)" and "\<not> grantable t m (the_entry lm r)"
      and "the_entry lm' = (the_entry lm)(r := (the_entry lm r)\<lparr>waiters := remove1 (t, m) (waiters (the_entry lm r))\<rparr>)"
      and "map_of (waiting_for lm') = (map_of (waiting_for lm))(t := None)"
  | (blocked) "res = None" and "\<not> grantable t m (the_entry lm r)" and "the_entry lm' = the_entry lm"
      and "waiting_for lm' = AList.update t r (waiting_for lm)"
proof -
  have d: "map_of (AList.delete t (AList.update t r xs)) = (map_of xs)(t := None)" "map_of (AList.delete t xs) = (map_of xs)(t := None)"
    for xs :: "(int \<times> string) list" by (auto simp: delete_conv update_conv)
  show ?thesis
    using assms that unfolding wait_round_def Let_def entry_for_case
    by (auto simp: Let_def fun_eq_iff grant_def d update_conv split: if_splits option.splits prod.splits)
qed

subsection \<open>The invariant\<close>

definition entry_inv :: "lock_entry \<Rightarrow> bool" where
  "entry_inv e \<longleftrightarrow> distinct (map fst (holders e)) \<and> distinct (map fst (waiters e))
     \<and> (\<forall>(a, m) \<in> set (holders e). \<forall>(b, n) \<in> set (holders e). a \<noteq> b \<longrightarrow> COMPATIBLE m n)
     \<and> (\<forall>(t, m) \<in> set (waiters e). map_of (holders e) t \<notin> {Some m, Some EXCLUSIVE})"

definition lock_inv :: "lock_manager \<Rightarrow> bool" where
  "lock_inv lm \<longleftrightarrow> (\<forall>r. entry_inv (the_entry lm r))
     \<and> (\<forall>r q t. t \<in> queue (the_entry lm r) \<longrightarrow> t \<in> queue (the_entry lm q) \<longrightarrow> r = q)
     \<and> (\<forall>t r. map_of (waiting_for lm) t = Some r \<longrightarrow> t \<in> queue (the_entry lm r))"

lemma COMPATIBLE_commute: "COMPATIBLE m n = COMPATIBLE n m"
  by (cases m; cases n) simp_all

lemma set_update_keys: "distinct (map fst al) \<Longrightarrow> set (AList.update k v al) = insert (k, v) {p \<in> set al. fst p \<noteq> k}"
  by (induction al) (auto simp: image_iff)

lemma grant_entry_inv:
  assumes "entry_inv e" and "grantable t m e" and "t \<notin> fst ` set ws" and "set ws \<subseteq> set (waiters e)" and "distinct (map fst ws)"
  shows "entry_inv ((grant t m e)\<lparr>waiters := ws\<rparr>)"
proof -
  have g: "h \<noteq> t \<Longrightarrow> (h, n) \<in> set (holders e) \<Longrightarrow> COMPATIBLE m n" for h n
    using assms(2) by (auto simp: grantable_def list_all_iff split: if_splits)
  have upd: "(h, n) \<in> set (AList.update t m (holders e)) \<Longrightarrow> h = t \<and> n = m \<or> h \<noteq> t \<and> (h, n) \<in> set (holders e)" for h n
    using assms(1) by (auto simp: entry_inv_def set_update_keys)
  have "distinct (map fst (AList.update t m (holders e)))" using assms(1) by (simp add: entry_inv_def distinct_update)
  moreover have "COMPATIBLE n n'" if "(a, n) \<in> set (AList.update t m (holders e))" "(b, n') \<in> set (AList.update t m (holders e))" "a \<noteq> b" for a n b n'
    using upd [OF that(1)] upd [OF that(2)] that(3) g assms(1) COMPATIBLE_commute by (auto simp: entry_inv_def)
  moreover have "map_of (AList.update t m (holders e)) u \<notin> {Some n, Some EXCLUSIVE}" if "(u, n) \<in> set ws" for u n
  proof -
    have "u \<noteq> t" using that assms(3) by force
    moreover have "(u, n) \<in> set (waiters e)" using that assms(4) by blast
    ultimately show ?thesis using assms(1) by (auto simp: entry_inv_def update_conv)
  qed
  ultimately show ?thesis using assms(5) by (auto simp: entry_inv_def grant_def)
qed

lemma delete_subset: "set (AList.delete k al) \<subseteq> set al"
  by (auto simp: AList.delete_eq)

lemma release_entry_inv:
  assumes "entry_inv e"
  shows "entry_inv (e\<lparr>holders := AList.delete t (holders e)\<rparr>)"
proof -
  note sub = subsetD [OF delete_subset [of t "holders e"]]
  have "COMPATIBLE m n" if "(a, m) \<in> set (AList.delete t (holders e))" "(b, n) \<in> set (AList.delete t (holders e))" "a \<noteq> b" for a m b n
    using assms that(3) sub [OF that(1)] sub [OF that(2)] unfolding entry_inv_def by auto
  moreover have "map_of (AList.delete t (holders e)) u \<notin> {Some m, Some EXCLUSIVE}" if "(u, m) \<in> set (waiters e)" for u m
    using assms that unfolding entry_inv_def by (cases "u = t") (auto simp: delete_conv)
  ultimately show ?thesis using assms distinct_delete [of "holders e" t] unfolding entry_inv_def by auto
qed

lemma queue_entry_inv:
  assumes "entry_inv e" and "t \<notin> queue e" and "map_of (holders e) t \<notin> {Some m, Some EXCLUSIVE}"
  shows "entry_inv (e\<lparr>waiters := waiters e @ [(t, m)]\<rparr>)"
  using assms unfolding entry_inv_def queue_def by auto

lemma leave_entry_inv: "entry_inv e \<Longrightarrow> entry_inv (e\<lparr>waiters := remove1 w (waiters e)\<rparr>)"
  unfolding entry_inv_def by (auto simp: distinct_map distinct_remove1 dest: notin_set_remove1 inj_on_subset [OF _ set_remove1_subset])

lemma left_queue: "distinct (map fst ws) \<Longrightarrow> (t, m) \<in> set ws \<Longrightarrow> fst ` set (remove1 (t, m) ws) = fst ` set ws - {t}"
  by (induction ws) (auto simp: image_iff)

lemma entry_invD:
  assumes "lock_inv lm"
  shows "entry_inv (the_entry lm r)" and "distinct (map fst (waiters (the_entry lm r)))"
    and "t \<in> queue (the_entry lm r) \<Longrightarrow> t \<in> queue (the_entry lm q) \<Longrightarrow> r = q"
    and "map_of (waiting_for lm) t = Some r \<Longrightarrow> t \<in> queue (the_entry lm r)"
  using assms by (auto simp: lock_inv_def) (simp add: entry_inv_def)

lemma lock_invI:
  assumes "\<And>r. entry_inv (the_entry lm r)" and "\<And>r q t. t \<in> queue (the_entry lm r) \<Longrightarrow> t \<in> queue (the_entry lm q) \<Longrightarrow> r = q"
    and "\<And>t r. map_of (waiting_for lm) t = Some r \<Longrightarrow> t \<in> queue (the_entry lm r)"
  shows "lock_inv lm"
  using assms unfolding lock_inv_def by blast

lemma start_inv:
  assumes inv: "lock_inv lm" and w: "\<not> waiting lm t" and run: "acquire_start t r m lm = (b, lm')"
  shows "lock_inv lm'"
proof -
  have notin: "t \<notin> queue (the_entry lm q)" for q using w by (auto simp: waiting_def)
  note I = entry_invD [OF inv]
  from run show ?thesis
  proof (cases rule: acquire_start_cases)
    case held
    then show ?thesis using inv by (simp add: lock_inv_def)
  next
    case granted
    have "entry_inv ((grant t m (the_entry lm r))\<lparr>waiters := waiters (the_entry lm r)\<rparr>)"
      using I(1,2) granted(3) notin [unfolded queue_def] by (intro grant_entry_inv) auto
    then have "entry_inv (grant t m (the_entry lm r))" by (simp add: grant_def)
    then show ?thesis using inv by (auto simp: lock_inv_def granted(4,5) grant_def)
  next
    case queued
    have "entry_inv ((the_entry lm r)\<lparr>waiters := waiters (the_entry lm r) @ [(t, m)]\<rparr>)"
      by (rule queue_entry_inv [OF I(1) notin queued(2)])
    then show ?thesis using inv notin by (auto simp: lock_inv_def queued(4,5))
  qed
qed

lemma round_inv:
  assumes inv: "lock_inv lm" and w: "(t, m) \<in> set (waiters (the_entry lm r))" and run: "wait_round t r m timed_out lm = (out, lm')"
  shows "lock_inv lm'"
proof -
  note I = entry_invD [OF inv]
  have t: "t \<in> queue (the_entry lm r)" using w by (force simp: queue_def)
  have left: "fst ` set (remove1 (t, m) (waiters (the_entry lm r))) = queue (the_entry lm r) - {t}"
    using left_queue [OF I(2) w] by (simp add: queue_def)
  from run show ?thesis
  proof (cases rule: wait_round_cases)
    case granted
    have "distinct (map fst (remove1 (t, m) (waiters (the_entry lm r))))"
      using leave_entry_inv [OF I(1), of "(t, m)"] by (simp add: entry_inv_def)
    then have "entry_inv ((grant t m (the_entry lm r))\<lparr>waiters := remove1 (t, m) (waiters (the_entry lm r))\<rparr>)"
      using I(1) granted(2) left set_remove1_subset by (intro grant_entry_inv) auto
    then show ?thesis using inv left I(3,4) unfolding lock_inv_def granted(3,4) by (auto simp: grant_def delete_conv split: if_splits)
  next
    case (ended e)
    then show ?thesis using inv leave_entry_inv left I(3,4) unfolding lock_inv_def ended(3,4) by (auto split: if_splits)
  next
    case blocked
    then show ?thesis using inv t unfolding lock_inv_def blocked(3,4) by (auto simp: update_conv split: if_splits)
  qed
qed

lemma release_inv: "lock_inv lm \<Longrightarrow> lock_inv (release_all t lm)"
  by (auto simp: lock_inv_def release_entry_inv delete_conv split: if_splits)

lemma lock_step_inv: "lock_step lm ev lm' \<Longrightarrow> lock_inv lm \<Longrightarrow> lock_inv lm'"
  by (induction rule: lock_step.induct) (auto intro: start_inv round_inv release_inv)

lemma lock_inv_new: "lock_inv new_lock_manager"
  by (simp add: lock_inv_def entry_inv_def the_entry_def new_lock_manager_def empty_entry_def queue_def)

lemma lock_run_inv: "lock_run lm evs lm' \<Longrightarrow> lock_inv lm \<Longrightarrow> lock_inv lm'"
  by (induction rule: lock_run.induct) (auto intro: lock_step_inv)

end
