(* ===== verification/LockSafety.thy ===== *)
theory LockSafety
  imports Locks
begin

text \<open>
  What the lock manager guarantees: exclusion, first come first served, that a queue drains, and what
  the deadlock detector finds and misses. The lock calls of \<^verbatim>\<open>src/src/quilldb/txn/transaction.py\<close>
  are given by the requests they make.
\<close>

section \<open>Queues\<close>

text \<open>\<open>before ws u t\<close>: both are in the queue, and \<open>u\<close> came first.\<close>

definition before :: "(int \<times> lock_mode) list \<Rightarrow> int \<Rightarrow> int \<Rightarrow> bool" where
  "before ws u t \<longleftrightarrow> (\<exists>as m bs n cs. ws = as @ (u, m) # bs @ (t, n) # cs)"

text \<open>\<open>first_of lm r u t\<close>: \<open>u\<close> waits for \<open>r\<close>, and \<open>t\<close> does not, or came later.\<close>

definition first_of :: "lock_manager \<Rightarrow> string \<Rightarrow> int \<Rightarrow> int \<Rightarrow> bool" where
  "first_of lm r u t \<longleftrightarrow> u \<in> queue (the_entry lm r) \<and> (t \<in> queue (the_entry lm r) \<longrightarrow> before (waiters (the_entry lm r)) u t)"

lemma before_snoc: "u \<in> fst ` set ws \<Longrightarrow> before (ws @ [(t, m)]) u t"
  by (fastforce simp: before_def in_set_conv_decomp)

lemma before_append: "before ws u t \<Longrightarrow> before (ws @ vs) u t"
  by (force simp: before_def)

lemma before_remove1:
  assumes "before ws u t" and "v \<noteq> u" and "v \<noteq> t"
  shows "before (remove1 (v, k) ws) u t"
proof -
  from assms(1) obtain as m bs n cs where ws: "ws = as @ (u, m) # bs @ (t, n) # cs" unfolding before_def by blast
  show ?thesis
  proof (cases "(v, k) \<in> set as")
    case True
    then have "remove1 (v, k) ws = remove1 (v, k) as @ (u, m) # bs @ (t, n) # cs" by (simp add: ws remove1_append)
    then show ?thesis unfolding before_def by blast
  next
    case False
    then have e: "remove1 (v, k) ws = as @ (u, m) # remove1 (v, k) (bs @ (t, n) # cs)" using assms(2) by (simp add: ws remove1_append)
    moreover have "\<exists>bs' cs'. remove1 (v, k) (bs @ (t, n) # cs) = bs' @ (t, n) # cs'" using assms(3) by (auto simp: remove1_append)
    ultimately show ?thesis unfolding before_def by metis
  qed
qed

lemma before_hd:
  assumes "before ws u t" and "distinct (map fst ws)"
  shows "fst (hd ws) \<noteq> t"
proof -
  from assms(1) obtain as m bs n cs where "ws = as @ (u, m) # bs @ (t, n) # cs" unfolding before_def by blast
  with assms(2) show ?thesis by (cases as) auto
qed

lemma before_ne: "before ws u t \<Longrightarrow> ws \<noteq> []"
  by (auto simp: before_def)

lemma before_queue: "before ws u t \<Longrightarrow> u \<in> fst ` set ws \<and> t \<in> fst ` set ws"
  by (force simp: before_def)

lemma first_of_left:
  assumes "lock_inv lm" and "first_of lm r u t" and "(v, k) \<in> set (waiters (the_entry lm r))" and "v \<noteq> u"
    and "waiters (the_entry lm' r) = remove1 (v, k) (waiters (the_entry lm r))"
  shows "first_of lm' r u t"
proof -
  have left: "fst ` set (remove1 (v, k) (waiters (the_entry lm r))) = queue (the_entry lm r) - {v}"
    using left_queue [OF entry_invD(2) [OF assms(1)] assms(3)] by (simp add: queue_def)
  then show ?thesis
    using assms(2,4) before_remove1 [of "waiters (the_entry lm r)" u t v k] by (auto simp: first_of_def queue_def assms(5))
qed

text \<open>Whatever the system does, the one who came first keeps its place until its call ends.\<close>

lemma first_of_step:
  assumes inv: "lock_inv lm" and st: "lock_step lm ev lm'" and f: "first_of lm r u t" and ne: "u \<noteq> t"
    and u: "\<forall>m out. ev = Round u r m out \<longrightarrow> out = None"
  shows "first_of lm' r u t" and "ev \<noteq> Round t r m (Some (Inr ()))"
proof -
  note dist = entry_invD(2) [OF inv, of r]
  have head: "fst (hd (waiters (the_entry lm r))) = t \<Longrightarrow> False" "waiters (the_entry lm r) \<noteq> []"
  proof -
    show ne': "waiters (the_entry lm r) \<noteq> []" using f by (auto simp: first_of_def queue_def)
    assume t: "fst (hd (waiters (the_entry lm r))) = t"
    then have "t \<in> queue (the_entry lm r)" using ne' by (force simp: queue_def)
    then show False using f before_hd [OF _ dist] t by (auto simp: first_of_def)
  qed
  from st have "first_of lm' r u t \<and> ev \<noteq> Round t r m (Some (Inr ()))"
  proof (cases rule: lock_step.cases)
    case (start v q k g)
    have nv: "v \<notin> queue (the_entry lm r)" using start(2) by (auto simp: waiting_def)
    from start(3) have "first_of lm' r u t"
    proof (cases rule: acquire_start_cases)
      case queued
      then show ?thesis
        using f nv before_snoc [of u "waiters (the_entry lm r)" t k] before_append by (auto simp: first_of_def queue_def)
    qed (use f in \<open>auto simp: first_of_def grant_def\<close>)
    then show ?thesis using start(1) by simp
  next
    case (round v k q tm out)
    have vq: "q = r \<Longrightarrow> (v, k) \<in> set (waiters (the_entry lm r))" using round(2) by simp
    from round(3) show ?thesis
    proof (cases rule: wait_round_cases)
      case granted
      have vt: "q = r \<Longrightarrow> v \<noteq> t" using granted(2) head by (auto simp: grantable_def split: if_splits)
      moreover have "first_of lm' r u t"
      proof (cases "q = r")
        case True
        then show ?thesis using first_of_left [OF inv f vq] granted(1,3) u round(1) by auto
      qed (use f granted(3) in \<open>simp add: first_of_def\<close>)
      ultimately show ?thesis using round(1) granted(1) by auto
    next
      case (ended e)
      have "first_of lm' r u t"
      proof (cases "q = r")
        case True
        then show ?thesis using first_of_left [OF inv f vq] ended(1,3) u round(1) by auto
      qed (use f ended(3) in \<open>simp add: first_of_def\<close>)
      then show ?thesis using round(1) ended(1) by simp
    next
      case blocked
      then show ?thesis using f round(1) by (simp add: first_of_def)
    qed
  next
    case (release v)
    then show ?thesis using f by (simp add: first_of_def)
  qed
  then show "first_of lm' r u t" "ev \<noteq> Round t r m (Some (Inr ()))" by simp_all
qed

definition call_ended :: "int \<Rightarrow> string \<Rightarrow> lock_event list \<Rightarrow> bool" where
  "call_ended t r evs \<longleftrightarrow> (\<exists>m res. Round t r m (Some res) \<in> set evs)"

lemma first_of_run:
  assumes "lock_run lm evs lm'" and "lock_inv lm" and "first_of lm r u t" and "u \<noteq> t" and "\<not> call_ended u r evs"
  shows "first_of lm' r u t \<and> (\<forall>m. Round t r m (Some (Inr ())) \<notin> set evs)"
  using assms
proof (induction rule: lock_run.induct)
  case (step lm evs lm1 ev lm2)
  have ne: "\<not> call_ended u r evs" "\<forall>m out. ev = Round u r m out \<longrightarrow> out = None"
    using step.prems(4) by (auto simp: call_ended_def) (metis option.exhaust)
  have IH: "first_of lm1 r u t" "\<forall>m. Round t r m (Some (Inr ())) \<notin> set evs" using step.IH [OF step.prems(1-3) ne(1)] by auto
  note S = first_of_step [OF lock_run_inv [OF step.hyps(1) step.prems(1)] step.hyps(2) IH(1) step.prems(3) ne(2)]
  show ?case using IH S by auto
qed simp

section \<open>Draining a queue\<close>

text \<open>The schedule in which every holder of \<open>r\<close> finishes, then each waiting request goes round once and its transaction finishes.\<close>

fun release_each :: "int list \<Rightarrow> lock_manager \<Rightarrow> lock_manager" where
  "release_each [] lm = lm"
| "release_each (t # ts) lm = release_each ts (release_all t lm)"

fun drain :: "string \<Rightarrow> (int \<times> lock_mode) list \<Rightarrow> lock_manager \<Rightarrow> unit res option list \<times> lock_manager" where
  "drain r [] lm = ([], lm)"
| "drain r ((t, m) # ws) lm =
     (let (out, lm1) = wait_round t r m False lm; (outs, lm2) = drain r ws (release_all t lm1) in (out # outs, lm2))"

lemma release_each_entry:
  "waiters (the_entry (release_each ts lm) r) = waiters (the_entry lm r)"
  "holders (the_entry (release_each ts lm) r) = filter (\<lambda>(h, m). h \<notin> set ts) (holders (the_entry lm r))"
proof (induction ts arbitrary: lm)
  case (Cons t ts)
  { case 1 then show ?case using Cons(1) by simp }
  { case 2 then show ?case using Cons(2) by (simp add: AList.delete_eq) (rule filter_cong, auto) }
qed simp_all

lemma drain_free:
  "holders (the_entry lm r) = [] \<Longrightarrow> waiters (the_entry lm r) = ws \<Longrightarrow> distinct (map fst ws)
    \<Longrightarrow> fst (drain r ws lm) = map (\<lambda>_. Some (Inr ())) ws"
proof (induction r ws lm rule: drain.induct)
  case (2 r t m ws lm)
  have g: "grantable t m (the_entry lm r)" using 2 by (simp add: grantable_def)
  obtain out lm1 where w: "wait_round t r m False lm = (out, lm1)" by (cases "wait_round t r m False lm")
  then have o: "out = Some (Inr ())" "the_entry lm1 r = (grant t m (the_entry lm r))\<lparr>waiters := ws\<rparr>"
    using g 2(2,3) by (cases rule: wait_round_cases; simp)+
  have "holders (the_entry (release_all t lm1) r) = []" "waiters (the_entry (release_all t lm1) r) = ws"
    using 2(2) o(2) by (simp_all add: grant_def)
  from 2(1) [OF w [symmetric] refl this] 2(4) w o show ?case by (simp add: split_beta)
qed simp

text \<open>The schedule is one the system can take.\<close>

lemma lock_run_trans: "lock_run lm1 bs lm2 \<Longrightarrow> lock_run lm0 as lm1 \<Longrightarrow> lock_run lm0 (as @ bs) lm2"
proof (induction rule: lock_run.induct)
  case (step lm evs lm1 ev lm2)
  then show ?case using lock_run.step [of lm0 "as @ evs" lm1 ev lm2] by simp
qed simp

lemma lock_run_one: "lock_step lm ev lm' \<Longrightarrow> lock_run lm [ev] lm'"
  using lock_run.step [OF lock_run.stay] by fastforce

lemma waiting_release [simp]: "waiting (release_all t lm) u \<longleftrightarrow> waiting lm u"
  by (simp add: waiting_def)

lemma release_each_run: "\<forall>t \<in> set ts. \<not> waiting lm t \<Longrightarrow> \<exists>evs. lock_run lm evs (release_each ts lm)"
proof (induction ts arbitrary: lm)
  case (Cons t ts)
  then have "lock_run lm [Release t] (release_all t lm)" by (intro lock_run_one lock_step.release) simp
  moreover from Cons obtain evs where "lock_run (release_all t lm) evs (release_each ts (release_all t lm))" by fastforce
  ultimately show ?case using lock_run_trans by fastforce
qed (auto intro: lock_run.stay)

lemma drain_run:
  "holders (the_entry lm r) = [] \<Longrightarrow> waiters (the_entry lm r) = ws \<Longrightarrow> lock_inv lm \<Longrightarrow> \<exists>evs. lock_run lm evs (snd (drain r ws lm))"
proof (induction r ws lm rule: drain.induct)
  case (2 r t m ws lm)
  have g: "grantable t m (the_entry lm r)" using 2 by (simp add: grantable_def)
  obtain out lm1 where w: "wait_round t r m False lm = (out, lm1)" by (cases "wait_round t r m False lm")
  then have o: "the_entry lm1 = (the_entry lm)(r := (grant t m (the_entry lm r))\<lparr>waiters := ws\<rparr>)"
    using g 2(2,3) by (cases rule: wait_round_cases; simp)
  have s1: "lock_step lm (Round t r m out) lm1" using w 2(3) by (intro lock_step.round) auto
  have inv1: "lock_inv lm1" by (rule lock_step_inv [OF s1 2(4)])
  have "\<not> waiting lm1 t"
  proof -
    have t: "t \<in> queue (the_entry lm r)" "t \<notin> fst ` set ws" using 2(3) entry_invD(2) [OF 2(4), of r] by (simp_all add: queue_def)
    have "t \<notin> queue (the_entry lm q)" if "q \<noteq> r" for q using that t(1) entry_invD(3) [OF 2(4)] by blast
    then show ?thesis using t(2) by (auto simp: waiting_def o queue_def split: if_splits)
  qed
  then have "lock_run lm1 [Release t] (release_all t lm1)" by (intro lock_run_one lock_step.release)
  then have r2: "lock_run lm [Round t r m out, Release t] (release_all t lm1)"
    using lock_run_trans [OF _ lock_run_one [OF s1]] by fastforce
  have "holders (the_entry (release_all t lm1) r) = []" "waiters (the_entry (release_all t lm1) r) = ws"
    using 2(2) o by (simp_all add: grant_def)
  from 2(1) [OF w [symmetric] refl this release_inv [OF inv1]] obtain evs where "lock_run (release_all t lm1) evs (snd (drain r ws (release_all t lm1)))" by blast
  from lock_run_trans [OF this r2] w show ?case by (auto simp: split_beta)
qed (auto intro: lock_run.stay)

section \<open>What the detector misses and what it finds\<close>

lemma grantable_holder: "\<not> grantable t m e \<Longrightarrow> waiters e = (t, m) # ws \<Longrightarrow> \<exists>h. h \<in> fst ` set (holders e) \<and> h \<noteq> t"
  by (force simp: grantable_def list_all_iff)

text \<open>Everybody who waits is asleep for good, and whoever they wait for waits too.\<close>

definition all_blocked :: "lock_manager \<Rightarrow> bool" where
  "all_blocked lm \<longleftrightarrow> (\<forall>r t m. (t, m) \<in> set (waiters (the_entry lm r)) \<longrightarrow>
     map_of (waiting_for lm) t = Some r \<and> \<not> grantable t m (the_entry lm r)
     \<and> (\<forall>h \<in> fst ` set (holders (the_entry lm r)). waiting lm h))"

text \<open>A transaction that holds a lock and waits for a stronger mode of it stands at the front of the queue.\<close>

definition upgrades_first :: "lock_manager \<Rightarrow> bool" where
  "upgrades_first lm \<longleftrightarrow> (\<forall>r t. t \<in> queue (the_entry lm r) \<longrightarrow> t \<in> fst ` set (holders (the_entry lm r))
     \<longrightarrow> t = fst (hd (waiters (the_entry lm r))))"

lemma blocked_edge:
  assumes bl: "all_blocked lm" and up: "upgrades_first lm" and t: "waiting lm t"
  shows "\<exists>h. (t, h) \<in> wait_graph lm \<and> waiting lm h"
proof -
  obtain r m where w: "(t, m) \<in> set (waiters (the_entry lm r))" using t by (auto simp: waiting_def queue_def)
  let ?e = "the_entry lm r"
  obtain u n ws where hd: "waiters ?e = (u, n) # ws" using w by (cases "waiters ?e") auto
  have "(u, n) \<in> set (waiters ?e)" using hd by simp
  then have B: "map_of (waiting_for lm) t = Some r" "\<forall>h \<in> fst ` set (holders ?e). waiting lm h" "\<not> grantable u n ?e"
    using bl w unfolding all_blocked_def by blast+
  from grantable_holder [OF B(3) hd] obtain h where h: "h \<in> fst ` set (holders ?e)" "h \<noteq> u" by blast
  have "h \<noteq> t"
  proof
    assume "h = t"
    moreover have "t \<in> queue ?e" using w by (force simp: queue_def)
    ultimately have "t = u" using up h(1) hd unfolding upgrades_first_def by fastforce
    then show False using h(2) \<open>h = t\<close> by simp
  qed
  moreover have "map_of (locks lm) r = Some ?e" using w by (auto simp: the_entry_def empty_entry_def split: option.splits)
  ultimately have "(t, h) \<in> wait_graph lm" using h(1) B(1) by (auto simp: wait_graph_def waits_on_def)
  then show ?thesis using B(2) h(1) by blast
qed

lemma endless_reach:
  assumes next_ex: "\<And>x. P x \<Longrightarrow> \<exists>y. (x, y) \<in> G \<and> P y" and fin: "finite {x. P x}" and t: "P t"
  shows "\<exists>u. (t, u) \<in> G\<^sup>* \<and> (u, u) \<in> G\<^sup>+"
proof (rule ccontr)
  assume none: "\<nexists>u. (t, u) \<in> G\<^sup>* \<and> (u, u) \<in> G\<^sup>+"
  define A where "A = {x. P x \<and> (t, x) \<in> G\<^sup>*}"
  let ?G = "G \<inter> A \<times> A"
  have finA: "finite A" by (rule finite_subset [OF _ fin]) (auto simp: A_def)
  have "acyclic ?G"
  proof (rule acyclicI, intro allI notI)
    fix x assume x: "(x, x) \<in> ?G\<^sup>+"
    then have "(x, x) \<in> G\<^sup>+" by (rule trancl_mono) blast
    moreover have "x \<in> A" using x by (induction rule: trancl.induct) auto
    ultimately show False using none by (auto simp: A_def)
  qed
  then have "wf (?G\<inverse>)" using finA by (intro finite_acyclic_wf_converse finite_subset [of ?G "A \<times> A"]) auto
  moreover have "t \<in> A" using t by (simp add: A_def)
  ultimately obtain z where z: "z \<in> A" "\<And>y. (y, z) \<in> ?G\<inverse> \<Longrightarrow> y \<notin> A" by (rule wfE_min) blast
  from next_ex [of z] z(1) obtain y where y: "(z, y) \<in> G" "P y" by (auto simp: A_def)
  then have ya: "y \<in> A" using z(1) by (auto simp: A_def)
  then have "(y, z) \<in> ?G\<inverse>" using z(1) y(1) by simp
  from z(2) [OF this] ya show False ..
qed

lemma blocked_detected:
  assumes "all_blocked lm" and "upgrades_first lm" and "waiting lm t"
  shows "detect_deadlock t lm \<noteq> None"
proof
  assume none: "detect_deadlock t lm = None"
  have "x \<in> wait_domain lm" if "waiting lm x" for x
  proof -
    from that obtain r m where "(x, m) \<in> set (waiters (the_entry lm r))" by (auto simp: waiting_def queue_def)
    then have "map_of (waiting_for lm) x = Some r" using assms(1) unfolding all_blocked_def by blast
    from map_of_SomeD [OF this] show ?thesis by (force simp: wait_domain_def)
  qed
  then have "{x. waiting lm x} \<subseteq> wait_domain lm" by blast
  then have "finite {x. waiting lm x}" by (rule finite_subset) (simp add: wait_domain_def)
  from endless_reach [of "waiting lm" "wait_graph lm" t, OF blocked_edge [OF assms(1,2)] this assms(3)]
  obtain u where "(t, u) \<in> (wait_graph lm)\<^sup>*" "(u, u) \<in> (wait_graph lm)\<^sup>+" by blast
  then show False using walk_complete [OF none [unfolded detect_deadlock_def]] by blast
qed

section \<open>The lock calls of a transaction\<close>

definition SCHEMA_RESOURCE :: string where "SCHEMA_RESOURCE = ''__schema__''"

definition WRITER_RESOURCE :: string where "WRITER_RESOURCE = ''__writer__''"

definition lock_schema_read :: "(string \<times> lock_mode) list" where
  "lock_schema_read = [(SCHEMA_RESOURCE, SHARED)]"

definition lock_schema_write :: "(string \<times> lock_mode) list" where
  "lock_schema_write = [(SCHEMA_RESOURCE, EXCLUSIVE)]"

definition lock_for_read :: "string \<Rightarrow> (string \<times> lock_mode) list" where
  "lock_for_read table = [(table, SHARED)]"

definition lock_for_write :: "string \<Rightarrow> (string \<times> lock_mode) list" where
  "lock_for_write table = [(WRITER_RESOURCE, EXCLUSIVE), (table, EXCLUSIVE)]"

definition lock_immediate :: "(string \<times> lock_mode) list" where
  "lock_immediate = lock_schema_read @ [(WRITER_RESOURCE, EXCLUSIVE)]"

text \<open>A call makes its requests in order; what is returned is the request it waits in, and those after it.\<close>

fun request_all :: "int \<Rightarrow> (string \<times> lock_mode) list \<Rightarrow> lock_manager \<Rightarrow> (string \<times> lock_mode) list \<times> lock_manager" where
  "request_all t [] lm = ([], lm)"
| "request_all t ((r, m) # rs) lm =
     (case acquire_start t r m lm of (granted, lm1) \<Rightarrow> if granted then request_all t rs lm1 else ((r, m) # rs, lm1))"

text \<open>
  Transaction 1 runs a query, transaction 2 a \<^verbatim>\<open>CREATE TABLE\<close>, then transaction 1 a \<^verbatim>\<open>CREATE TABLE\<close>; both
  go to sleep.
\<close>

definition schema_deadlock :: lock_manager where
  "schema_deadlock =
     (let lm1 = snd (request_all 1 lock_schema_read new_lock_manager);
          lm2 = snd (request_all 2 lock_schema_write lm1);
          lm3 = snd (request_all 1 lock_schema_write lm2);
          lm4 = snd (wait_round 2 SCHEMA_RESOURCE EXCLUSIVE False lm3) in
      snd (wait_round 1 SCHEMA_RESOURCE EXCLUSIVE False lm4))"

text \<open>A sample system: two readers of a table and a writer queued behind them.\<close>

definition sample_locks :: lock_manager where
  "sample_locks =
     (let lm1 = snd (acquire_start 1 ''t'' SHARED new_lock_manager); lm2 = snd (acquire_start 2 ''t'' SHARED lm1);
          lm3 = snd (acquire_start 3 ''t'' EXCLUSIVE lm2) in snd (acquire_start 4 ''t'' SHARED lm3))"

text \<open>And two writers, each holding what the other wants.\<close>

definition crossed_locks :: lock_manager where
  "crossed_locks = \<lparr>locks = [(''a'', \<lparr>holders = [(1, EXCLUSIVE)], waiters = [(2, EXCLUSIVE)]\<rparr>),
      (''b'', \<lparr>holders = [(2, EXCLUSIVE)], waiters = [(1, EXCLUSIVE)]\<rparr>)],
    waiting_for = [(1, ''b''), (2, ''a'')], doomed = []\<rparr>"

lemma crossed_entry: "the_entry crossed_locks r = (if r = ''a'' then \<lparr>holders = [(1, EXCLUSIVE)], waiters = [(2, EXCLUSIVE)]\<rparr>
    else if r = ''b'' then \<lparr>holders = [(2, EXCLUSIVE)], waiters = [(1, EXCLUSIVE)]\<rparr> else empty_entry)"
  by (simp add: the_entry_def crossed_locks_def)

lemma crossed_waiting: "waiting crossed_locks 1" "waiting crossed_locks 2"
  by (auto simp: waiting_def crossed_entry queue_def intro: exI [of _ "''a''"] exI [of _ "''b''"])

lemma sample_locks_eq:
  "sample_locks = \<lparr>locks = [(''t'', \<lparr>holders = [(1, SHARED), (2, SHARED)], waiters = [(3, EXCLUSIVE), (4, SHARED)]\<rparr>)],
     waiting_for = [], doomed = []\<rparr>"
  by code_simp

lemma sample_locks_run: "\<exists>evs. lock_run new_lock_manager evs sample_locks"
proof -
  have st: "lock_run a evs lm \<Longrightarrow> \<not> waiting lm t \<Longrightarrow> \<exists>evs. lock_run a evs (snd (acquire_start t r m lm))" for a evs lm t r m
    by (cases "acquire_start t r m lm") (auto intro: lock_run.step lock_step.start)
  define l1 where "l1 = snd (acquire_start 1 ''t'' SHARED new_lock_manager)"
  define l2 where "l2 = snd (acquire_start 2 ''t'' SHARED l1)"
  define l3 where "l3 = snd (acquire_start 3 ''t'' EXCLUSIVE l2)"
  have e: "l1 = \<lparr>locks = [(''t'', \<lparr>holders = [(1, SHARED)], waiters = []\<rparr>)], waiting_for = [], doomed = []\<rparr>"
    "l2 = \<lparr>locks = [(''t'', \<lparr>holders = [(1, SHARED), (2, SHARED)], waiters = []\<rparr>)], waiting_for = [], doomed = []\<rparr>"
    "l3 = \<lparr>locks = [(''t'', \<lparr>holders = [(1, SHARED), (2, SHARED)], waiters = [(3, EXCLUSIVE)]\<rparr>)], waiting_for = [], doomed = []\<rparr>"
    unfolding l1_def l2_def l3_def by code_simp+
  have w: "\<not> waiting new_lock_manager 1" "\<not> waiting l1 2" "\<not> waiting l2 3" "\<not> waiting l3 4"
    unfolding e by (auto simp: waiting_def the_entry_def queue_def new_lock_manager_def empty_entry_def split: if_splits)
  obtain e1 where "lock_run new_lock_manager e1 l1" using st [OF lock_run.stay w(1)] unfolding l1_def by blast
  then obtain e2 where "lock_run new_lock_manager e2 l2" using st [OF _ w(2)] unfolding l2_def by blast
  then obtain e3 where "lock_run new_lock_manager e3 l3" using st [OF _ w(3)] unfolding l3_def by blast
  then show ?thesis using st [OF _ w(4)] unfolding sample_locks_def l1_def l2_def l3_def Let_def by blast
qed

section \<open>Properties\<close>

text \<open>
  C10. Whatever sequence of calls, rounds, timeouts and releases the transactions go through, two of them
  hold the same resource only in shared mode, nobody is queued twice, and whoever waits does not
  already hold what it waits for.
\<close>

theorem locks_exclude:
  assumes "lock_run new_lock_manager evs lm"
  shows "(\<forall>(a, m) \<in> set (holders (the_entry lm r)). \<forall>(b, n) \<in> set (holders (the_entry lm r)). a \<noteq> b \<longrightarrow> m = SHARED \<and> n = SHARED)
    \<and> distinct (map fst (holders (the_entry lm r))) \<and> distinct (map fst (waiters (the_entry lm r)))
    \<and> (\<forall>(t, k) \<in> set (waiters (the_entry lm r)). map_of (holders (the_entry lm r)) t \<notin> {Some k, Some EXCLUSIVE})"
proof -
  have "COMPATIBLE m n \<Longrightarrow> m = SHARED \<and> n = SHARED" for m n by (cases m; cases n) simp_all
  then show ?thesis
    using entry_invD(1) [OF lock_run_inv [OF assms lock_inv_new], of r] unfolding entry_inv_def by blast
qed


theorem locks_exclude_witness:
  "\<exists>evs. lock_run new_lock_manager evs sample_locks \<and> (1, SHARED) \<in> set (holders (the_entry sample_locks ''t''))
     \<and> (2, SHARED) \<in> set (holders (the_entry sample_locks ''t'')) \<and> distinct (map fst (waiters (the_entry sample_locks ''t'')))"
proof -
  obtain evs where run: "lock_run new_lock_manager evs sample_locks" using sample_locks_run by blast
  from locks_exclude [OF run, of "''t''"] run show ?thesis by (auto simp: sample_locks_eq the_entry_def)
qed







text \<open>
  C13. The deadlock detector is sound and complete for the wait-for graph it looks at: when it answers with
  a victim and a list of edges, these are the edges of a cycle of waiting transactions, each waiting
  for a resource the next one holds, and the victim is the youngest of them; when it answers that
  there is none, no cycle can be reached from the transaction. It ends on every graph.
\<close>

theorem detector_correct:
  "case detect_deadlock t lm of
     None \<Rightarrow> \<forall>u. (t, u) \<in> (wait_graph lm)\<^sup>* \<longrightarrow> (u, u) \<notin> (wait_graph lm)\<^sup>+
   | Some (victim, edges) \<Rightarrow> \<exists>ts. ts \<noteq> [] \<and> distinct ts \<and> trail lm ts edges (hd ts) \<and> victim = Max (set ts)"
proof (cases "detect_deadlock t lm")
  case None
  then show ?thesis using walk_complete [of lm t "[]" "[]"] by (simp add: detect_deadlock_def)
next
  case (Some f)
  then show ?thesis
    using walk_sound(1) [of lm t "[]" "[]" "fst f" "snd f"] by (auto simp: detect_deadlock_def deadlock_cycle_def)
qed


lemma crossed_locks_detect: "detect_deadlock 1 crossed_locks = Some (2, [(1, ''b'', 2), (2, ''a'', 1)])"
  by code_simp

theorem detector_correct_witness:
  "\<exists>ts. ts \<noteq> [] \<and> distinct ts \<and> trail crossed_locks ts [(1, ''b'', 2), (2, ''a'', 1)] (hd ts) \<and> 2 = Max (set ts)"
  using detector_correct [of 1 crossed_locks] by (simp add: crossed_locks_detect)

text \<open>
  C14. No deadlock goes unnoticed as long as every transaction that waits to upgrade a lock it holds stands
  at the front of the queue: when everybody waiting is blocked, and so is everybody they wait for,
  the detector finds a cycle from each of them.
\<close>

theorem deadlocks_detected:
  assumes "all_blocked lm" and "upgrades_first lm" and "waiting lm t"
  shows "detect_deadlock t lm \<noteq> None"
  using blocked_detected [OF assms] .


theorem deadlocks_detected_witness: "detect_deadlock 1 crossed_locks \<noteq> None"
proof (rule deadlocks_detected)
  show "all_blocked crossed_locks"
    using crossed_waiting by (simp add: all_blocked_def crossed_entry empty_entry_def grantable_def crossed_locks_def [THEN arg_cong [of _ _ waiting_for]])
  show "upgrades_first crossed_locks" by (simp add: upgrades_first_def crossed_entry empty_entry_def queue_def)
  show "waiting crossed_locks 1" by (rule crossed_waiting)
qed

text \<open>
  C15. An upgrade queued behind another request deadlocks unnoticed: after a query and a \<^verbatim>\<open>CREATE TABLE\<close> of
  one transaction with a \<^verbatim>\<open>CREATE TABLE\<close> of another in between, both wait for the schema lock,
  neither can ever be granted, the detector finds no cycle from either, every round leaves them
  asleep, and only a timeout ends the call.
\<close>

theorem schema_upgrade_undetected:
  "all_blocked schema_deadlock \<and> waiting schema_deadlock 1 \<and> waiting schema_deadlock 2
     \<and> detect_deadlock 1 schema_deadlock = None \<and> detect_deadlock 2 schema_deadlock = None
     \<and> wait_round 1 SCHEMA_RESOURCE EXCLUSIVE False schema_deadlock = (None, schema_deadlock)
     \<and> wait_round 2 SCHEMA_RESOURCE EXCLUSIVE False schema_deadlock = (None, schema_deadlock)
     \<and> fst (wait_round 2 SCHEMA_RESOURCE EXCLUSIVE True schema_deadlock) = Some (Inl LockTimeoutError)"
proof -
  have eq: "schema_deadlock = \<lparr>locks = [(SCHEMA_RESOURCE, \<lparr>holders = [(1, SHARED)], waiters = [(2, EXCLUSIVE), (1, EXCLUSIVE)]\<rparr>)],
      waiting_for = [(2, SCHEMA_RESOURCE), (1, SCHEMA_RESOURCE)], doomed = []\<rparr>" by code_simp
  have w: "waiting schema_deadlock 1" "waiting schema_deadlock 2"
    by (auto simp: waiting_def eq the_entry_def queue_def intro!: exI [of _ SCHEMA_RESOURCE])
  then have "all_blocked schema_deadlock"
    by (auto simp: all_blocked_def the_entry_def empty_entry_def grantable_def eq split: if_splits)
  moreover have "detect_deadlock 1 schema_deadlock = None" "detect_deadlock 2 schema_deadlock = None" by code_simp+
  moreover have "wait_round 1 SCHEMA_RESOURCE EXCLUSIVE False schema_deadlock = (None, schema_deadlock)"
    "wait_round 2 SCHEMA_RESOURCE EXCLUSIVE False schema_deadlock = (None, schema_deadlock)"
    "fst (wait_round 2 SCHEMA_RESOURCE EXCLUSIVE True schema_deadlock) = Some (Inl LockTimeoutError)" by code_simp+
  ultimately show ?thesis using w by blast
qed

end
