(* ===== verification/TableCursor.thy ===== *)
theory TableCursor
  imports Table
begin

text \<open>
  Cursors over table b-trees, \<^verbatim>\<open>src/src/quilldb/btree/cursor.py\<close>: a path from the root to a leaf slot,
  every page of it pinned, that moves to the next or the previous row. A cursor is its path; the state
  of an operation is the pool and the path, so that an exception leaves both as they were then.
\<close>

section \<open>Definitions\<close>

type_synonym cursor_path = "(nat \<times> nat \<times> page_body) list"

type_synonym cursor = "pool \<times> cursor_path"

definition on_pool :: "(pool, 'a) op \<Rightarrow> (cursor, 'a) op" where
  "on_pool m c = (case m (fst c) of (r, s) \<Rightarrow> (r, (s, snd c)))"

definition get_path :: "(cursor, cursor_path) op" where
  "get_path c = (Inr (snd c), c)"

definition set_path :: "cursor_path \<Rightarrow> (cursor, unit) op" where
  "set_path p c = (Inr (), (fst c, p))"

definition push_path :: "nat \<times> nat \<times> page_body \<Rightarrow> (cursor, unit) op" where
  "push_path e c = (Inr (), (fst c, snd c @ [e]))"

definition cursor_valid :: "cursor \<Rightarrow> bool" where
  "cursor_valid c \<longleftrightarrow> snd c \<noteq> []"

definition cursor_close :: "(cursor, unit) op" where
  "cursor_close =
     bind_op get_path (\<lambda>path.
     bind_op (for_op (\<lambda>(page_id, slot, body). on_pool (unpin page_id False)) path) (\<lambda>_. set_path []))"

definition cursor_rowid :: "(cursor, int) op" where
  "cursor_rowid =
     bind_op get_path (\<lambda>path.
       if path = [] then fail ValueError
       else case last path of (page_id, slot, body) \<Rightarrow>
         lift_res (bind_res (py_get (pb_cells body) slot) (\<lambda>cell.
                   bind_res (decode_leaf_table_cell cell) (\<lambda>(rowid, rest). Inr rowid))))"

definition descend_step :: "bool \<Rightarrow> nat \<Rightarrow> (cursor, (unit, nat) ctrl) op" where
  "descend_step rightmost page_id =
     bind_op (on_pool (get_page page_id)) (\<lambda>raw.
     bind_op (lift_res (parse_page raw 0)) (\<lambda>body.
       if pb_type body = LEAF_TABLE
       then if pb_cells body = [] then bind_op (on_pool (unpin page_id False)) (\<lambda>_. ret (Return ()))
            else bind_op (push_path (page_id, if rightmost then length (pb_cells body) - 1 else 0, body)) (\<lambda>_. ret (Return ()))
       else bind_op (lift_res (children_of_interior body)) (\<lambda>kids.
            let slot = (if rightmost then length kids - 1 else 0) in
            bind_op (push_path (page_id, slot, body)) (\<lambda>_.
            bind_op (lift_res (py_get kids slot)) (\<lambda>kid. ret (Continue kid))))))"

definition descend_to_leaf :: "nat \<Rightarrow> bool \<Rightarrow> (cursor, unit) pop" where
  "descend_to_leaf start_page_id rightmost = loop_op (descend_step rightmost) start_page_id"

definition cursor_first :: "nat \<Rightarrow> (cursor, unit) pop" where
  "cursor_first root = bind_pop (total_op cursor_close) (\<lambda>_. descend_to_leaf root False)"

definition cursor_last :: "nat \<Rightarrow> (cursor, unit) pop" where
  "cursor_last root = bind_pop (total_op cursor_close) (\<lambda>_. descend_to_leaf root True)"

text \<open>
  The loop of \<^verbatim>\<open>_advance\<close> up to the redescent: the child to descend into, or none when the path is used up.
\<close>

definition advance_step :: "unit \<Rightarrow> (cursor, (nat option, unit) ctrl) op" where
  "advance_step = (\<lambda>_.
     bind_op get_path (\<lambda>path.
       if path = [] then ret (Return None)
       else case last path of (page_id, slot, body) \<Rightarrow>
         bind_op (lift_res (if pb_type body \<noteq> LEAF_TABLE then map_sum id Some (children_of_interior body) else Inr None)) (\<lambda>kids.
         case kids of
           Some ks \<Rightarrow>
             if slot + 1 < length ks
             then bind_op (set_path (butlast path @ [(page_id, slot + 1, body)])) (\<lambda>_. ret (Return (Some (ks ! (slot + 1)))))
             else bind_op (on_pool (unpin page_id False)) (\<lambda>_. bind_op (set_path (butlast path)) (\<lambda>_. ret (Continue ())))
         | None \<Rightarrow> bind_op (on_pool (unpin page_id False)) (\<lambda>_. bind_op (set_path (butlast path)) (\<lambda>_. ret (Continue ()))))))"

definition cursor_advance :: "(cursor, bool) pop" where
  "cursor_advance =
     bind_pop (loop_op advance_step ()) (\<lambda>child.
       case child of
         None \<Rightarrow> total_op (ret False)
       | Some kid \<Rightarrow> bind_pop (descend_to_leaf kid False) (\<lambda>_. total_op (ret True)))"

definition retreat_step :: "unit \<Rightarrow> (cursor, (nat option, unit) ctrl) op" where
  "retreat_step = (\<lambda>_.
     bind_op get_path (\<lambda>path.
       if path = [] then ret (Return None)
       else case last path of (page_id, slot, body) \<Rightarrow>
         if pb_type body \<noteq> LEAF_TABLE \<and> 0 < slot
         then bind_op (set_path (butlast path @ [(page_id, slot - 1, body)])) (\<lambda>_.
              bind_op (lift_res (children_of_interior body)) (\<lambda>kids.
              bind_op (lift_res (py_get kids (slot - 1))) (\<lambda>kid. ret (Return (Some kid)))))
         else bind_op (on_pool (unpin page_id False)) (\<lambda>_. bind_op (set_path (butlast path)) (\<lambda>_. ret (Continue ())))))"

definition cursor_retreat :: "(cursor, bool) pop" where
  "cursor_retreat =
     bind_pop (loop_op retreat_step ()) (\<lambda>child.
       case child of
         None \<Rightarrow> total_op (ret False)
       | Some kid \<Rightarrow> bind_pop (descend_to_leaf kid True) (\<lambda>_. total_op (ret True)))"

definition cursor_next :: "(cursor, bool) pop" where
  "cursor_next =
     bind_pop (total_op get_path) (\<lambda>path.
       if path = [] then total_op (ret False)
       else case last path of (page_id, slot, body) \<Rightarrow>
         if slot + 1 < length (pb_cells body)
         then total_op (bind_op (set_path (butlast path @ [(page_id, slot + 1, body)])) (\<lambda>_. ret True))
         else cursor_advance)"

definition cursor_prev :: "(cursor, bool) pop" where
  "cursor_prev =
     bind_pop (total_op get_path) (\<lambda>path.
       if path = [] then total_op (ret False)
       else case last path of (page_id, slot, body) \<Rightarrow>
         if 1 \<le> slot
         then total_op (bind_op (set_path (butlast path @ [(page_id, slot - 1, body)])) (\<lambda>_. ret True))
         else cursor_retreat)"

text \<open>The descent of \<^verbatim>\<open>seek\<close>: whether the key was found, or nothing when its leaf has no row for it.\<close>

definition seek_step :: "int \<Rightarrow> nat \<Rightarrow> (cursor, (bool option, nat) ctrl) op" where
  "seek_step key page_id =
     bind_op (on_pool (get_page page_id)) (\<lambda>raw.
     bind_op (lift_res (parse_page raw 0)) (\<lambda>body.
       if pb_type body = INTERIOR_TABLE
       then bind_op (lift_res (interior_slot_for_key body key)) (\<lambda>slot.
            bind_op (push_path (page_id, slot, body)) (\<lambda>_.
            bind_op (lift_res (bind_res (children_of_interior body) (\<lambda>kids. py_get kids slot))) (\<lambda>kid. ret (Continue kid))))
       else bind_op (lift_res (leaf_slot_lower_bound body key)) (\<lambda>idx.
            if idx < length (pb_cells body)
            then bind_op (push_path (page_id, idx, body)) (\<lambda>_.
                 bind_op (lift_res (decode_leaf_table_cell (pb_cells body ! idx))) (\<lambda>(row_id, rest).
                   ret (Return (Some (row_id = key)))))
            else bind_op (on_pool (unpin page_id False)) (\<lambda>_. ret (Return None)))))"

definition cursor_seek :: "nat \<Rightarrow> int \<Rightarrow> (cursor, bool) pop" where
  "cursor_seek root key =
     bind_pop (total_op cursor_close) (\<lambda>_.
     bind_pop (loop_op (seek_step key) root) (\<lambda>found.
       case found of
         Some b \<Rightarrow> total_op (ret b)
       | None \<Rightarrow> bind_pop cursor_advance (\<lambda>_. total_op (ret False))))"

definition on_pool_pop :: "(pool, 'a) pop \<Rightarrow> (cursor, 'a) pop" where
  "on_pool_pop m c = map_option (\<lambda>(r, s). (r, (s, snd c))) (m (fst c))"

definition cursor_record :: "(cursor, bytes) pop" where
  "cursor_record =
     bind_pop (total_op get_path) (\<lambda>path.
       if path = [] then total_op (fail ValueError)
       else case last path of (page_id, slot, body) \<Rightarrow>
         bind_pop (total_op (lift_res (bind_res (py_get (pb_cells body) slot) decode_leaf_table_cell)))
           (\<lambda>(rowid, total_payload_len, local_payload, overflow_page).
             if overflow_page = 0 then total_op (ret local_payload)
             else bind_pop (on_pool_pop (read_overflow_chain load_page overflow_page (total_payload_len - length local_payload)))
                    (\<lambda>remaining_payload. total_op (ret (local_payload @ remaining_payload)))))"

section \<open>Pins\<close>

text \<open>A pool in which nothing has happened since \<open>s0\<close> but pins: exactly \<open>H\<close> are held.\<close>

definition quiet :: "nat multiset \<Rightarrow> pool \<Rightarrow> pool \<Rightarrow> bool" where
  "quiet H s0 s \<longleftrightarrow> held H {} s \<and> txn_frame s0 s \<and> bp_capacity s = bp_capacity s0 \<and> live_pages s = live_pages s0
     \<and> spare_pages s = spare_pages s0 \<and> (\<forall>p \<in> live_pages s0. view s p = view s0 p)"

definition at_path :: "nat multiset \<Rightarrow> pool \<Rightarrow> cursor \<Rightarrow> bool" where
  "at_path H s0 c \<longleftrightarrow> quiet (H + mset (map fst (snd c))) s0 (fst c)"

lemma quiet_get:
  assumes "quiet H s0 s" and "p \<in> live_pages s0" and "size H + 1 < bp_capacity s0"
  shows "\<exists>s'. get_page p s = (Inr (view s0 p), s') \<and> quiet (add_mset p H) s0 s'"
proof -
  note Q = assms(1) [unfolded quiet_def]
  have "held H {} s" "p \<in> live_pages s" "size H + 1 < bp_capacity s" using Q assms(2,3) by simp_all
  from get_page_held [OF this] obtain s' where
    "get_page p s = (Inr (view s p), s')" "held (add_mset p H) {} s'" "view s' = view s" "live_pages s' = live_pages s"
    "spare_pages s' = spare_pages s" "frame s s'" by metis
  then show ?thesis using Q assms(2) frame_txn_frame [of s s'] by (auto simp: quiet_def frame_def intro: txn_frame_trans)
qed

lemma quiet_unpin:
  assumes "quiet (add_mset p H) s0 s"
  shows "\<exists>s'. unpin p False s = (Inr (), s') \<and> quiet H s0 s'"
proof -
  note Q = assms [unfolded quiet_def]
  have "held (add_mset p H) {} s" "p \<in># add_mset p H" using Q by simp_all
  from unpin_held [OF this] obtain s' where
    "unpin p False s = (Inr (), s')" "held H {} s'" "view s' = view s" "live_pages s' = live_pages s"
    "spare_pages s' = spare_pages s" "frame s s'" by (metis add_mset_remove_trivial inf_bot_left)
  then show ?thesis using Q frame_txn_frame [of s s'] by (auto simp: quiet_def frame_def intro: txn_frame_trans)
qed

text \<open>Fetching the page to be visited, then pushing it or letting it go; and dropping the last page of the path.\<close>

lemma visit_page:
  assumes "at_path H s0 c" and "p \<in> live_pages s0" and "size H + length (snd c) + 1 < bp_capacity s0"
  obtains s' where "on_pool (get_page p) c = (Inr (view s0 p), (s', snd c))" and "\<And>i b. at_path H s0 (s', snd c @ [(p, i, b)])"
    and "\<exists>s''. on_pool (unpin p False) (s', snd c) = (Inr (), (s'', snd c)) \<and> at_path H s0 (s'', snd c)"
proof -
  have "size (H + mset (map fst (snd c))) + 1 < bp_capacity s0" using assms(3) by simp
  from quiet_get [OF assms(1) [unfolded at_path_def] assms(2) this] obtain s' where
    g: "get_page p (fst c) = (Inr (view s0 p), s')" "quiet (add_mset p (H + mset (map fst (snd c)))) s0 s'" by blast
  show ?thesis
    by (rule that [of s']) (use g quiet_unpin [OF g(2)] in \<open>auto simp: on_pool_def at_path_def\<close>)
qed

lemma drop_page:
  assumes "at_path H s0 c" and "snd c = path @ [(p, i, b)]"
  obtains s' where "on_pool (unpin p False) c = (Inr (), (s', snd c))" and "at_path H s0 (s', path)"
  using quiet_unpin [of p "H + mset (map fst path)" s0 "fst c"] assms by (auto simp: on_pool_def at_path_def)

lemma move_slot: "at_path H s0 (s, path @ [(p, i, b)]) \<Longrightarrow> at_path H s0 (s, path @ [(p, j, b')])"
  by (simp add: at_path_def)

lemma close_path:
  assumes "at_path H s0 c"
  shows "\<exists>s'. cursor_close c = (Inr (), (s', [])) \<and> at_path H s0 (s', [])"
proof -
  let ?drop = "\<lambda>(page_id, slot, body). on_pool (unpin page_id False)"
  have "\<exists>s'. for_op ?drop path (s, q) = (Inr (), (s', q)) \<and> quiet H s0 s'"
    if "quiet (H + mset (map fst path)) s0 s" for path s and q :: cursor_path
    using that
  proof (induction path arbitrary: s)
    case (Cons e path)
    obtain p i b where e: "e = (p, i, b)" by (cases e)
    have "quiet (add_mset p (H + mset (map fst path))) s0 s" using Cons.prems by (simp add: e)
    from quiet_unpin [OF this] obtain s1 where "unpin p False s = (Inr (), s1)" "quiet (H + mset (map fst path)) s0 s1" by blast
    with Cons.IH [of s1] show ?case by (auto simp: e bind_op_def on_pool_def)
  qed (simp add: skip_def ret_def)
  from this [of "snd c" "fst c" "snd c"] assms show ?thesis
    by (auto simp: at_path_def cursor_close_def get_path_def set_path_def bind_op_def)
qed

section \<open>Paths of a tree\<close>

fun cursor_entry :: "tframe \<Rightarrow> nat \<Rightarrow> nat \<times> nat \<times> page_body" where
  "cursor_entry (Frame p ls kl kr rs) q = (p, length ls, node_body (map pid ls @ q # map pid rs) (kl @ kr))"

fun ctx_path :: "tframe list \<Rightarrow> nat \<Rightarrow> cursor_path" where
  "ctx_path [] q = []"
| "ctx_path (f # fs) q = cursor_entry f (hole fs q) # ctx_path fs q"

lemma ctx_path_append: "ctx_path (fs @ gs) q = ctx_path fs (hole gs q) @ ctx_path gs q"
  by (induction fs) simp_all

lemma length_ctx_path [simp]: "length (ctx_path fs q) = length fs"
  by (induction fs) simp_all

definition cursor_at :: "nat multiset \<Rightarrow> pool \<Rightarrow> ttree \<Rightarrow> cursor \<Rightarrow> nat \<Rightarrow> bool" where
  "cursor_at H s0 t c n \<longleftrightarrow> at_path H s0 c \<and> (\<exists>fs q rows i. t = plug fs (TLeaf q rows) \<and> (\<forall>f \<in> set fs. frame_wf f)
     \<and> i < length rows \<and> snd c = ctx_path fs q @ [(q, i, leaf_body rows)] \<and> n = length (ctx_rows_left fs) + i)"

lemma cursor_atI:
  "at_path H s0 c \<Longrightarrow> t = plug fs (TLeaf q rows) \<Longrightarrow> \<forall>f \<in> set fs. frame_wf f \<Longrightarrow> i < length rows
    \<Longrightarrow> snd c = ctx_path fs q @ [(q, i, leaf_body rows)] \<Longrightarrow> n = length (ctx_rows_left fs) + i \<Longrightarrow> cursor_at H s0 t c n"
  unfolding cursor_at_def by blast

lemma node_children:
  assumes "length ps = Suc (length ks)" and "\<forall>p \<in> set ps. p < 2 ^ 32" and "\<forall>k \<in> set ks. rowid_ok k"
  shows "children_of_interior (node_body ps ks) = Inr ps"
proof -
  have "butlast ps @ [last ps] = ps" using assms(1) by (intro append_butlast_last_id) auto
  then show ?thesis using node_cells_decode(2) [OF assms] by (simp add: children_of_interior_def)
qed

lemma cursor_entry_slot:
  assumes "i < length ts" and "length ts = Suc (length ks)"
  shows "cursor_entry (slot_frame i p ts ks) (pid (ts ! i)) = (p, i, node_body (map pid ts) ks)"
proof -
  have "take i (map pid ts) @ pid (ts ! i) # drop (Suc i) (map pid ts) = map pid ts"
    using id_take_nth_drop [of i "map pid ts"] assms(1) by simp
  then show ?thesis using assms by (simp add: slot_frame_def take_map drop_map)
qed

text \<open>Where a descent to one side ends.\<close>

definition edge_leaf :: "bool \<Rightarrow> ttree \<Rightarrow> cursor_path \<Rightarrow> bool" where
  "edge_leaf rm t path \<longleftrightarrow> (\<exists>fs q rows. t = plug fs (TLeaf q rows) \<and> (\<forall>f \<in> set fs. frame_wf f) \<and> rows \<noteq> []
     \<and> path = ctx_path fs q @ [(q, if rm then length rows - 1 else 0, leaf_body rows)]
     \<and> (if rm then ctx_rows_right fs = [] else ctx_rows_left fs = []))"

lemma descend_tree:
  assumes "at_path H s0 c" and "stored (view s0) t" and "set (pages_of t) \<subseteq> live_pages s0" and "uniform h t"
    and "size H + length (snd c) + h < bp_capacity s0"
  shows "\<exists>s' path. descend_to_leaf (pid t) rm c = Some (Inr (), (s', snd c @ path)) \<and> at_path H s0 (s', snd c @ path) \<and> edge_leaf rm t path"
  using assms
proof (induction t arbitrary: c h)
  case (TLeaf p rows)
  have p: "p \<in> live_pages s0" "size H + length (snd c) + 1 < bp_capacity s0" "rows \<noteq> []" using TLeaf.prems by auto
  from visit_page [OF TLeaf.prems(1) p(1,2)] obtain s' where
    g: "on_pool (get_page p) c = (Inr (view s0 p), (s', snd c))" "\<And>i b. at_path H s0 (s', snd c @ [(p, i, b)])" by metis
  let ?e = "(p, if rm then length rows - 1 else 0, leaf_body rows)"
  have "descend_step rm p c = (Inr (Return ()), (s', snd c @ [?e]))"
    using g(1) TLeaf.prems(2) p(3) by (auto simp: descend_step_def bind_op_def lift_res_def push_path_def ret_def)
  then show ?case
    using g(2) p(3) unfolding descend_to_leaf_def edge_leaf_def
    by (intro exI [of _ s'] exI [of _ "[?e]"] conjI exI [of _ "[]"] exI [of _ p] exI [of _ rows]) (simp_all add: loop_op_return)
next
  case (TNode p ts ks)
  have st: "parse_page (view s0 p) 0 = Inr (node_body (map pid ts) ks)" "length ts = Suc (length ks)" "p \<in> live_pages s0" "1 < h"
    and kids: "children_of_interior (node_body (map pid ts) ks) = Inr (map pid ts)"
    using TNode.prems(2-4) node_children [of "map pid ts" ks] by auto
  have "size H + length (snd c) + 1 < bp_capacity s0" using TNode.prems(5) st(4) by simp
  from visit_page [OF TNode.prems(1) st(3) this] obtain s' where
    g: "on_pool (get_page p) c = (Inr (view s0 p), (s', snd c))" "\<And>i b. at_path H s0 (s', snd c @ [(p, i, b)])" by metis
  let ?i = "if rm then length ts - 1 else 0"
  have i: "?i < length ts" "?i \<le> length ks" using st(2) by auto
  let ?e = "(p, ?i, node_body (map pid ts) ks)" and ?t = "ts ! ?i" and ?f = "slot_frame ?i p ts ks"
  have "ts \<noteq> []" using st(2) by auto
  then have pg: "py_get (map pid ts) ?i = Inr (pid ?t)" by (cases rm) (simp_all add: py_get_def)
  then have step: "descend_step rm p c = (Inr (Continue (pid ?t)), (s', snd c @ [?e]))"
    using g(1) st(1) kids by (cases rm) (simp_all add: descend_step_def bind_op_def lift_res_def push_path_def ret_def Let_def)
  have kid: "stored (view s0) t \<and> set (pages_of t) \<subseteq> live_pages s0 \<and> uniform (h - 1) t" if "t \<in> set ts" for t
    using TNode.prems(2-4) that by auto
  have "?t \<in> set ts" using i(1) by simp
  moreover note kid [OF this]
  moreover have "size H + length (snd (s', snd c @ [?e])) + (h - 1) < bp_capacity s0" using TNode.prems(5) st(4) by simp
  ultimately obtain s'' path where
    IH: "descend_to_leaf (pid ?t) rm (s', snd c @ [?e]) = Some (Inr (), (s'', (snd c @ [?e]) @ path))" "at_path H s0 (s'', (snd c @ [?e]) @ path)"
      "edge_leaf rm ?t path" using TNode.IH [of ?t "(s', snd c @ [?e])" "h - 1"] g(2) by auto
  from IH(3) obtain fs q rows where e: "?t = plug fs (TLeaf q rows)" "\<forall>f \<in> set fs. frame_wf f" "rows \<noteq> []"
    "path = ctx_path fs q @ [(q, if rm then length rows - 1 else 0, leaf_body rows)]" "if rm then ctx_rows_right fs = [] else ctx_rows_left fs = []"
    unfolding edge_leaf_def by blast
  note F = slot_frame_fill [OF i(1) st(2), of p]
  have "pid ?t = hole fs q" by (simp add: e(1) pid_plug)
  then have "cursor_entry ?f (hole fs q) = ?e" using cursor_entry_slot [OF i(1) st(2), of p] by simp
  then have "edge_leaf rm (TNode p ts ks) (?e # path)"
    using F(1,2) e i(2) st(2) unfolding edge_leaf_def
    by (intro exI [of _ "?f # fs"] exI [of _ q] exI [of _ rows]) (auto simp: slot_frame_def)
  then show ?case
    using IH(1,2) step unfolding descend_to_leaf_def by (intro exI [of _ s''] exI [of _ "?e # path"]) (simp add: loop_op_continue)
qed

section \<open>Moving to the next leaf\<close>

text \<open>Where a move out of a leaf ends: on row \<open>n\<close>, or nowhere when there is none.\<close>

definition landed :: "nat multiset \<Rightarrow> pool \<Rightarrow> ttree \<Rightarrow> bool \<Rightarrow> cursor \<Rightarrow> nat option \<Rightarrow> bool" where
  "landed H s0 t b c n \<longleftrightarrow> at_path H s0 c
     \<and> (case n of Some n \<Rightarrow> b \<and> n < length (rows_of t) \<and> cursor_at H s0 t c n | None \<Rightarrow> \<not> b \<and> snd c = [])"

lemma frame_parts:
  assumes "stored (view s0) (plug (gs @ [Frame p ls kl kr rs]) t)" and "set (pages_of (plug (gs @ [Frame p ls kl kr rs]) t)) \<subseteq> live_pages s0"
    and "uniform h (plug (gs @ [Frame p ls kl kr rs]) t)"
  shows "children_of_interior (node_body (map pid ls @ pid t # map pid rs) (kl @ kr)) = Inr (map pid ls @ pid t # map pid rs)"
    and "x \<in> set (ls @ rs) \<Longrightarrow> stored (view s0) x \<and> set (pages_of x) \<subseteq> live_pages s0 \<and> uniform (h - length gs - 1) x"
    and "length gs + 1 < h"
proof -
  show "children_of_interior (node_body (map pid ls @ pid t # map pid rs) (kl @ kr)) = Inr (map pid ls @ pid t # map pid rs)"
    by (rule node_children) (use assms(1) in \<open>auto simp: stored_plug\<close>)
  show "x \<in> set (ls @ rs) \<Longrightarrow> stored (view s0) x \<and> set (pages_of x) \<subseteq> live_pages s0 \<and> uniform (h - length gs - 1) x" "length gs + 1 < h"
    using assms by (auto simp: stored_plug uniform_plug set_pages_plug)
qed

text \<open>The same tree, seen from the neighbour of the hole.\<close>

lemma plug_shift:
  "plug (gs @ [Frame p ls kl (k # kr) (r # rs)]) t = plug (gs @ [Frame p (ls @ [t]) (kl @ [k]) kr rs]) r"
  "cursor_entry (Frame p (ls @ [t]) (kl @ [k]) kr rs) (pid r) = (p, length ls + 1, node_body (map pid ls @ pid t # map pid (r # rs)) (kl @ k # kr))"
  "cursor_entry (Frame p ls kl (k # kr) (r # rs)) (pid t) = (p, length ls, node_body (map pid ls @ pid t # map pid (r # rs)) (kl @ k # kr))"
  by simp_all

lemma advance_ctx:
  assumes "stored (view s0) (plug fs t)" and "set (pages_of (plug fs t)) \<subseteq> live_pages s0" and "fs = [] \<or> uniform h (plug fs t)"
    and "size H + h < bp_capacity s0" and "\<forall>f \<in> set fs. frame_wf f" and "at_path H s0 c" and "snd c = ctx_path fs (pid t)"
  shows "\<exists>b c'. cursor_advance c = Some (Inr b, c') \<and> landed H s0 (plug fs t) b c'
    (let n = length (ctx_rows_left fs @ rows_of t) in if n < length (rows_of (plug fs t)) then Some n else None)"
  using assms
proof (induction fs arbitrary: t c rule: rev_induct)
  case Nil
  then have "cursor_advance c = Some (Inr False, c)"
    by (simp add: cursor_advance_def advance_step_def bind_pop_def loop_op_return bind_op_def get_path_def ret_def total_op_def)
  then show ?case using Nil by (auto simp: landed_def)
next
  case (snoc f gs)
  obtain p ls kl kr rs where f: "f = Frame p ls kl kr rs" by (cases f)
  have wf: "length rs = length kr" "length ls = length kl" using snoc.prems(5) by (simp_all add: f)
  have un: "uniform h (plug (gs @ [f]) t)" using snoc.prems(3) by simp
  note P = frame_parts [OF snoc.prems(1,2) [unfolded f] un [unfolded f]]
  have path: "snd c = ctx_path gs p @ [(p, length ls, node_body (map pid ls @ pid t # map pid rs) (kl @ kr))]"
    using snoc.prems(7) by (simp add: f ctx_path_append)
  show ?case
  proof (cases rs)
    case Nil
    from drop_page [OF snoc.prems(6) path] obtain s' where
      d: "on_pool (unpin p False) c = (Inr (), (s', snd c))" "at_path H s0 (s', ctx_path gs p)" by metis
    have "advance_step () c = (Inr (Continue ()), (s', ctx_path gs p))"
      using d(1) path P(1) Nil by (simp add: advance_step_def bind_op_def get_path_def set_path_def lift_res_def ret_def)
    then have run: "cursor_advance c = cursor_advance (s', ctx_path gs p)"
      by (simp add: cursor_advance_def bind_pop_def loop_op_continue)
    have eq: "plug (gs @ [f]) t = plug gs (fill f t)" "ctx_rows_left (gs @ [f]) @ rows_of t = ctx_rows_left gs @ rows_of (fill f t)"
      using Nil by (simp_all add: f)
    have "pid (fill f t) = p" by (simp add: f)
    then show ?thesis
      using snoc.IH [of "fill f t" "(s', ctx_path gs p)"] snoc.prems(1-5) d(2) unfolding run eq by auto
  next
    case (Cons r rs')
    then obtain k kr' where kr: "kr = k # kr'" using wf(1) by (cases kr) auto
    let ?g = "Frame p (ls @ [t]) (kl @ [k]) kr' rs'" and ?path = "ctx_path gs p @ [(p, length ls + 1, node_body (map pid ls @ pid t # map pid rs) (kl @ kr))]"
    have step: "advance_step () c = (Inr (Return (Some (pid r))), (fst c, ?path))"
      using path P(1) Cons by (simp add: advance_step_def bind_op_def get_path_def set_path_def lift_res_def ret_def nth_append)
    have at: "at_path H s0 (fst c, ?path)" using snoc.prems(6) path by (cases c) (auto intro: move_slot)
    have r: "stored (view s0) r" "set (pages_of r) \<subseteq> live_pages s0" "uniform (h - length gs - 1) r" using P(2) [of r] Cons by simp_all
    have "size H + length (snd (fst c, ?path)) + (h - length gs - 1) < bp_capacity s0" using snoc.prems(4) P(3) by simp
    from descend_tree [OF at r this, of False] obtain s' path' where
      d: "descend_to_leaf (pid r) False (fst c, ?path) = Some (Inr (), (s', ?path @ path'))" "at_path H s0 (s', ?path @ path')" "edge_leaf False r path'"
      by auto
    from d(3) obtain fs q rows where e: "r = plug fs (TLeaf q rows)" "\<forall>f \<in> set fs. frame_wf f" "rows \<noteq> []"
      "path' = ctx_path fs q @ [(q, 0, leaf_body rows)]" "ctx_rows_left fs = []" by (auto simp: edge_leaf_def)
    have run: "cursor_advance c = Some (Inr True, (s', ?path @ path'))"
      using step d(1) by (simp add: cursor_advance_def bind_pop_def loop_op_return total_op_def ret_def)
    have tree: "plug (gs @ [f]) t = plug (gs @ ?g # fs) (TLeaf q rows)" using plug_shift(1) [of gs p ls kl k kr' r rs' t] by (simp add: f Cons kr e(1))
    have n: "length (ctx_rows_left (gs @ [f]) @ rows_of t) = length (ctx_rows_left (gs @ ?g # fs))" by (simp add: f e(5))
    have "pid r = hole fs q" by (simp add: e(1) pid_plug)
    then have "?path @ path' = ctx_path (gs @ ?g # fs) q @ [(q, 0, leaf_body rows)]"
      using plug_shift(2) [of p ls t kl k kr' rs' r] by (simp add: e(4) ctx_path_append Cons kr)
    then have "cursor_at H s0 (plug (gs @ [f]) t) (s', ?path @ path') (length (ctx_rows_left (gs @ [f]) @ rows_of t))"
      unfolding n using d(2) e(2,3) tree snoc.prems(5) wf
      by (intro cursor_atI [where fs = "gs @ ?g # fs" and i = 0]) (auto simp: f kr Cons)
    moreover have "length (ctx_rows_left (gs @ [f]) @ rows_of t) < length (rows_of (plug (gs @ [f]) t))"
      unfolding n tree rows_plug using e(3) by simp
    ultimately show ?thesis using run d(2) by (auto simp: landed_def)
  qed
qed

lemma plug_shift_left:
  "plug (gs @ [Frame p (ls @ [l]) (kl @ [k]) kr rs]) t = plug (gs @ [Frame p ls kl (k # kr) (t # rs)]) l"
  "cursor_entry (Frame p ls kl (k # kr) (t # rs)) (pid l) = (p, length ls, node_body (map pid (ls @ [l]) @ pid t # map pid rs) ((kl @ [k]) @ kr))"
  by simp_all

lemma retreat_ctx:
  assumes "stored (view s0) (plug fs t)" and "set (pages_of (plug fs t)) \<subseteq> live_pages s0" and "fs = [] \<or> uniform h (plug fs t)"
    and "size H + h < bp_capacity s0" and "\<forall>f \<in> set fs. frame_wf f" and "at_path H s0 c" and "snd c = ctx_path fs (pid t)"
  shows "\<exists>b c'. cursor_retreat c = Some (Inr b, c') \<and> landed H s0 (plug fs t) b c'
    (if ctx_rows_left fs \<noteq> [] then Some (length (ctx_rows_left fs) - 1) else None)"
  using assms
proof (induction fs arbitrary: t c rule: rev_induct)
  case Nil
  then have "cursor_retreat c = Some (Inr False, c)"
    by (simp add: cursor_retreat_def retreat_step_def bind_pop_def loop_op_return bind_op_def get_path_def ret_def total_op_def)
  then show ?case using Nil by (auto simp: landed_def)
next
  case (snoc f gs)
  obtain p ls kl kr rs where f: "f = Frame p ls kl kr rs" by (cases f)
  have wf: "length rs = length kr" "length ls = length kl" using snoc.prems(5) by (simp_all add: f)
  have un: "uniform h (plug (gs @ [f]) t)" using snoc.prems(3) by simp
  note P = frame_parts [OF snoc.prems(1,2) [unfolded f] un [unfolded f]]
  have path: "snd c = ctx_path gs p @ [(p, length ls, node_body (map pid ls @ pid t # map pid rs) (kl @ kr))]"
    using snoc.prems(7) by (simp add: f ctx_path_append)
  show ?case
  proof (cases ls rule: rev_cases)
    case Nil
    from drop_page [OF snoc.prems(6) path] obtain s' where
      d: "on_pool (unpin p False) c = (Inr (), (s', snd c))" "at_path H s0 (s', ctx_path gs p)" by metis
    have "retreat_step () c = (Inr (Continue ()), (s', ctx_path gs p))"
      using d(1) path Nil by (simp add: retreat_step_def bind_op_def get_path_def set_path_def lift_res_def ret_def)
    then have run: "cursor_retreat c = cursor_retreat (s', ctx_path gs p)"
      by (simp add: cursor_retreat_def bind_pop_def loop_op_continue)
    have eq: "plug (gs @ [f]) t = plug gs (fill f t)" "ctx_rows_left (gs @ [f]) = ctx_rows_left gs"
      using Nil by (simp_all add: f)
    have "pid (fill f t) = p" by (simp add: f)
    then show ?thesis
      using snoc.IH [of "fill f t" "(s', ctx_path gs p)"] snoc.prems(1-5) d(2) unfolding run eq by auto
  next
    case (snoc ls' l)
    then obtain kl' k where kl: "kl = kl' @ [k]" using wf(2) by (cases kl rule: rev_cases) auto
    let ?g = "Frame p ls' kl' (k # kr) (t # rs)" and ?path = "ctx_path gs p @ [(p, length ls - 1, node_body (map pid ls @ pid t # map pid rs) (kl @ kr))]"
    have step: "retreat_step () c = (Inr (Return (Some (pid l))), (fst c, ?path))"
      using path P(1) snoc by (simp add: retreat_step_def bind_op_def get_path_def set_path_def lift_res_def ret_def nth_append py_get_def)
    have at: "at_path H s0 (fst c, ?path)" using snoc.prems(6) path by (cases c) (auto intro: move_slot)
    have l: "stored (view s0) l" "set (pages_of l) \<subseteq> live_pages s0" "uniform (h - length gs - 1) l" using P(2) [of l] snoc by simp_all
    have "size H + length (snd (fst c, ?path)) + (h - length gs - 1) < bp_capacity s0" using snoc.prems(4) P(3) by simp
    from descend_tree [OF at l this, of True] obtain s' path' where
      d: "descend_to_leaf (pid l) True (fst c, ?path) = Some (Inr (), (s', ?path @ path'))" "at_path H s0 (s', ?path @ path')" "edge_leaf True l path'"
      by auto
    from d(3) obtain fs q rows where e: "l = plug fs (TLeaf q rows)" "\<forall>f \<in> set fs. frame_wf f" "rows \<noteq> []"
      "path' = ctx_path fs q @ [(q, length rows - 1, leaf_body rows)]" "ctx_rows_right fs = []" by (auto simp: edge_leaf_def)
    have run: "cursor_retreat c = Some (Inr True, (s', ?path @ path'))"
      using step d(1) by (simp add: cursor_retreat_def bind_pop_def loop_op_return total_op_def ret_def)
    have tree: "plug (gs @ [f]) t = plug (gs @ ?g # fs) (TLeaf q rows)" by (simp add: f snoc kl e(1))
    have n: "ctx_rows_left (gs @ [f]) = ctx_rows_left (gs @ ?g # fs) @ rows" by (simp add: f snoc e(1,5) rows_plug)
    have "pid l = hole fs q" by (simp add: e(1) pid_plug)
    then have "?path @ path' = ctx_path (gs @ ?g # fs) q @ [(q, length rows - 1, leaf_body rows)]"
      using plug_shift_left(2) [of p ls' kl' k kr t rs l] by (simp add: e(4) ctx_path_append snoc kl)
    then have "cursor_at H s0 (plug (gs @ [f]) t) (s', ?path @ path') (length (ctx_rows_left (gs @ [f])) - 1)"
      unfolding n using d(2) e(2,3) tree snoc.prems(5) wf
      by (intro cursor_atI [where fs = "gs @ ?g # fs" and i = "length rows - 1"]) (auto simp: f kl snoc Suc_leI)
    moreover have "0 < length rows" using e(3) by simp
    then have "length (ctx_rows_left (gs @ [f])) - 1 < length (rows_of (plug (gs @ [f]) t))" unfolding n tree rows_plug length_append rows_of.simps
      by linarith
    moreover have "ctx_rows_left (gs @ [f]) \<noteq> []" using e(3) unfolding n by simp
    ultimately show ?thesis using run d(2) by (auto simp: landed_def)
  qed
qed

section \<open>The operations on a stored table\<close>

text \<open>A table open for reading: what a cursor over it needs.\<close>

definition cursor_table :: "nat multiset \<Rightarrow> pool \<Rightarrow> nat \<Rightarrow> nat \<Rightarrow> ttree \<Rightarrow> bool" where
  "cursor_table H s0 root h t \<longleftrightarrow> table_tree s0 root h t \<and> size H + h < bp_capacity s0"

lemma cursor_tableD:
  assumes "cursor_table H s0 root h t"
  shows "pid t = root" and "stored (view s0) t" and "set (pages_of t) \<subseteq> live_pages s0" and "sorted_wrt (<) (flat t)" and "shaped h t"
    and "size H + h < bp_capacity s0" and "1 \<le> h" and "distinct (pages_of t)"
  using assms by (auto simp: cursor_table_def table_tree_def shaped_def elim: uniform.elims)

text \<open>Where a cursor is: on row \<open>n\<close> of the table, or nowhere.\<close>

definition cursor_pos :: "nat multiset \<Rightarrow> pool \<Rightarrow> ttree \<Rightarrow> cursor \<Rightarrow> nat option \<Rightarrow> bool" where
  "cursor_pos H s0 t c n \<longleftrightarrow> at_path H s0 c
     \<and> (case n of Some n \<Rightarrow> n < length (rows_of t) \<and> cursor_at H s0 t c n | None \<Rightarrow> snd c = [])"

lemma cursor_pos_valid: "cursor_pos H s0 t c n \<Longrightarrow> cursor_valid c \<longleftrightarrow> n \<noteq> None"
  by (auto simp: cursor_pos_def cursor_valid_def cursor_at_def split: option.splits)

lemma landed_pos: "landed H s0 t b c n \<Longrightarrow> cursor_pos H s0 t c n \<and> b = (n \<noteq> None)"
  by (auto simp: landed_def cursor_pos_def split: option.splits)

lemma uniform_rows: "uniform h t \<Longrightarrow> stored v t \<Longrightarrow> rows_of t \<noteq> []"
proof (induction t arbitrary: h)
  case (TNode p ts ks)
  then obtain t where "t \<in> set ts" by (cases ts) auto
  then show ?case using TNode by fastforce
qed simp

lemma cursor_at_row:
  assumes "cursor_at H s0 t c n" and "stored (view s0) t"
  obtains p i rows where "last (snd c) = (p, i, leaf_body rows)" and "i < length rows" and "rows_of t ! n = rows ! i" and "snd c \<noteq> []"
    and "\<forall>r \<in> set rows. row_stored (view s0) r" and "set rows \<subseteq> set (rows_of t)"
proof -
  from assms(1) obtain fs q rows i where c: "t = plug fs (TLeaf q rows)" "i < length rows" "snd c = ctx_path fs q @ [(q, i, leaf_body rows)]"
    "n = length (ctx_rows_left fs) + i" unfolding cursor_at_def by blast
  have "\<forall>r \<in> set rows. row_stored (view s0) r" using assms(2) by (simp add: c(1) stored_plug)
  then show ?thesis using c by (intro that [of q i rows]) (auto simp: rows_plug nth_append)
qed

lemma first_pos:
  assumes t: "cursor_table H s0 root h t" and c: "at_path H s0 c"
  shows "\<exists>c'. cursor_first root c = Some (Inr (), c') \<and> cursor_pos H s0 t c' (if rows_of t = [] then None else Some 0)"
    and "\<exists>c'. cursor_last root c = Some (Inr (), c') \<and> cursor_pos H s0 t c' (if rows_of t = [] then None else Some (length (rows_of t) - 1))"
proof -
  note T = cursor_tableD [OF t]
  from close_path [OF c] obtain s1 where s1: "cursor_close c = (Inr (), (s1, []))" "at_path H s0 (s1, [])" by blast
  have run: "cursor_first root c = descend_to_leaf (pid t) False (s1, [])" "cursor_last root c = descend_to_leaf (pid t) True (s1, [])"
    using s1(1) by (simp_all add: cursor_first_def cursor_last_def bind_pop_def total_op_def T(1))
  have both: "\<exists>c'. descend_to_leaf (pid t) rm (s1, []) = Some (Inr (), c')
      \<and> cursor_pos H s0 t c' (if rows_of t = [] then None else Some (if rm then length (rows_of t) - 1 else 0))" for rm
  proof (cases "uniform h t")
    case True
    have "size H + length (snd (s1, [] :: cursor_path)) + h < bp_capacity s0" using T(6) by simp
    from descend_tree [OF s1(2) T(2,3) True this, of rm] obtain s' path where
      d: "descend_to_leaf (pid t) rm (s1, []) = Some (Inr (), (s', path))" "at_path H s0 (s', path)" "edge_leaf rm t path" by auto
    from d(3) obtain fs q rows where e: "t = plug fs (TLeaf q rows)" "\<forall>f \<in> set fs. frame_wf f" "rows \<noteq> []"
      "path = ctx_path fs q @ [(q, if rm then length rows - 1 else 0, leaf_body rows)]"
      "if rm then ctx_rows_right fs = [] else ctx_rows_left fs = []" unfolding edge_leaf_def by blast
    have "0 < length rows" using e(3) by simp
    moreover have "rows_of t = ctx_rows_left fs @ rows @ ctx_rows_right fs" by (simp add: e(1) rows_plug)
    ultimately have "cursor_at H s0 t (s', path) (if rm then length (rows_of t) - 1 else 0)" "rows_of t \<noteq> []"
      "(if rm then length (rows_of t) - 1 else 0) < length (rows_of t)"
      using d(2) e(2,4,5)
      by (cases rows; auto intro!: cursor_atI [where fs = fs and q = q and rows = rows and i = "if rm then length rows - 1 else 0", OF _ e(1)])+
    then show ?thesis using d(1,2) by (auto simp: cursor_pos_def)
  next
    case False
    then have e: "t = TLeaf (pid t) []" "h = 1" using T(5) by (simp_all add: shaped_def)
    have p: "pid t \<in> live_pages s0" "parse_page (view s0 (pid t)) 0 = Inr (leaf_body [])" using T(2,3) by (subst (asm) (1 2) e(1), simp)+
    have "size H + length (snd (s1, [] :: cursor_path)) + 1 < bp_capacity s0" using T(6) e(2) by simp
    from visit_page [OF s1(2) p(1) this] obtain s2 s3 where
      g: "on_pool (get_page (pid t)) (s1, []) = (Inr (view s0 (pid t)), (s2, []))" "on_pool (unpin (pid t) False) (s2, []) = (Inr (), (s3, []))"
        "at_path H s0 (s3, [])" by (metis snd_conv)
    have "descend_step rm (pid t) (s1, []) = (Inr (Return ()), (s3, []))"
      using g(1,2) p(2) by (simp add: descend_step_def bind_op_def lift_res_def ret_def)
    then show ?thesis using g(3) by (subst e(1)) (auto simp: descend_to_leaf_def loop_op_return cursor_pos_def)
  qed
  show "\<exists>c'. cursor_first root c = Some (Inr (), c') \<and> cursor_pos H s0 t c' (if rows_of t = [] then None else Some 0)"
    using both [of False] unfolding run if_False .
  show "\<exists>c'. cursor_last root c = Some (Inr (), c') \<and> cursor_pos H s0 t c' (if rows_of t = [] then None else Some (length (rows_of t) - 1))"
    using both [of True] unfolding run if_True .
qed

text \<open>On a row, the cursor's context is that of its leaf.\<close>

lemma leaf_context:
  assumes t: "cursor_table H s0 root h t" and e: "t = plug fs (TLeaf q rows)" and rows: "rows \<noteq> []"
  shows "fs = [] \<or> uniform h (plug fs (TLeaf q rows))" and "q \<in> live_pages s0"
proof -
  note T = cursor_tableD [OF t]
  have "uniform h t" using T(5) rows unfolding shaped_def e by (auto simp: plug_leaf)
  then show "fs = [] \<or> uniform h (plug fs (TLeaf q rows))" by (simp add: e)
  show "q \<in> live_pages s0" using T(3) by (simp add: e set_pages_plug)
qed

lemma next_pos:
  assumes t: "cursor_table H s0 root h t" and c: "cursor_pos H s0 t c (Some n)"
  shows "\<exists>c'. cursor_next c = Some (Inr (n + 1 < length (rows_of t)), c')
    \<and> cursor_pos H s0 t c' (if n + 1 < length (rows_of t) then Some (n + 1) else None)"
proof -
  note T = cursor_tableD [OF t]
  from c obtain fs q rows i where e: "t = plug fs (TLeaf q rows)" "\<forall>f \<in> set fs. frame_wf f" "i < length rows"
    "snd c = ctx_path fs q @ [(q, i, leaf_body rows)]" "n = length (ctx_rows_left fs) + i" and at: "at_path H s0 c"
    unfolding cursor_pos_def cursor_at_def by auto
  have len: "length (rows_of t) = length (ctx_rows_left fs) + length rows + length (ctx_rows_right fs)" by (simp add: e(1) rows_plug)
  have rows: "rows \<noteq> []" using e(3) by auto
  show ?thesis
  proof (cases "i + 1 < length rows")
    case True
    let ?c = "(fst c, ctx_path fs q @ [(q, i + 1, leaf_body rows)])"
    have "at_path H s0 ?c" using at e(4) by (cases c) (auto intro: move_slot)
    then have "cursor_at H s0 t ?c (n + 1)" using e True by (intro cursor_atI [where fs = fs and i = "i + 1", OF _ e(1)]) simp_all
    moreover have "cursor_next c = Some (Inr True, ?c)"
      using e(4) True by (simp add: cursor_next_def bind_pop_def total_op_def get_path_def bind_op_def set_path_def ret_def)
    ultimately show ?thesis using True \<open>at_path H s0 ?c\<close> len e(5) by (auto simp: cursor_pos_def)
  next
    case False
    then have i: "i + 1 = length rows" using e(3) by simp
    from drop_page [OF at e(4)] obtain s' where
      d: "on_pool (unpin q False) c = (Inr (), (s', snd c))" "at_path H s0 (s', ctx_path fs q)" by metis
    have "advance_step () c = (Inr (Continue ()), (s', ctx_path fs q))"
      using d(1) e(4) by (simp add: advance_step_def bind_op_def get_path_def set_path_def lift_res_def ret_def)
    then have run: "cursor_next c = cursor_advance (s', ctx_path fs q)"
      using e(4) False by (simp add: cursor_next_def cursor_advance_def bind_pop_def loop_op_continue total_op_def get_path_def)
    have "length (ctx_rows_left fs @ rows_of (TLeaf q rows)) = n + 1" using i e(5) by simp
    with advance_ctx [OF T(2,3) [unfolded e(1)] leaf_context(1) [OF t e(1) rows] T(6) e(2), of "(s', ctx_path fs q)"] d(2)
    show ?thesis unfolding run e(1) [symmetric] by (auto simp: Let_def dest!: landed_pos split: if_splits)
  qed
qed

lemma prev_pos:
  assumes t: "cursor_table H s0 root h t" and c: "cursor_pos H s0 t c (Some n)"
  shows "\<exists>c'. cursor_prev c = Some (Inr (0 < n), c') \<and> cursor_pos H s0 t c' (if 0 < n then Some (n - 1) else None)"
proof -
  note T = cursor_tableD [OF t]
  from c obtain fs q rows i where e: "t = plug fs (TLeaf q rows)" "\<forall>f \<in> set fs. frame_wf f" "i < length rows"
    "snd c = ctx_path fs q @ [(q, i, leaf_body rows)]" "n = length (ctx_rows_left fs) + i" and at: "at_path H s0 c" and n: "n < length (rows_of t)"
    unfolding cursor_pos_def cursor_at_def by auto
  have rows: "rows \<noteq> []" using e(3) by auto
  show ?thesis
  proof (cases "1 \<le> i")
    case True
    let ?c = "(fst c, ctx_path fs q @ [(q, i - 1, leaf_body rows)])"
    have "at_path H s0 ?c" using at e(4) by (cases c) (auto intro: move_slot)
    then have "cursor_at H s0 t ?c (n - 1)" using e True by (intro cursor_atI [where fs = fs and i = "i - 1", OF _ e(1)]) simp_all
    moreover have "cursor_prev c = Some (Inr True, ?c)"
      using e(4) True by (simp add: cursor_prev_def bind_pop_def total_op_def get_path_def bind_op_def set_path_def ret_def)
    ultimately show ?thesis using True \<open>at_path H s0 ?c\<close> n e(5) by (auto simp: cursor_pos_def)
  next
    case False
    then have i: "n = length (ctx_rows_left fs)" using e(5) by simp
    from drop_page [OF at e(4)] obtain s' where
      d: "on_pool (unpin q False) c = (Inr (), (s', snd c))" "at_path H s0 (s', ctx_path fs q)" by metis
    have "retreat_step () c = (Inr (Continue ()), (s', ctx_path fs q))"
      using d(1) e(4) by (simp add: retreat_step_def bind_op_def get_path_def set_path_def lift_res_def ret_def)
    then have run: "cursor_prev c = cursor_retreat (s', ctx_path fs q)"
      using e(4) False by (simp add: cursor_prev_def cursor_retreat_def bind_pop_def loop_op_continue total_op_def get_path_def)
    from retreat_ctx [OF T(2,3) [unfolded e(1)] leaf_context(1) [OF t e(1) rows] T(6) e(2), of "(s', ctx_path fs q)"] d(2)
    show ?thesis unfolding run e(1) [symmetric] i by (auto dest!: landed_pos split: if_splits)
  qed
qed

section \<open>Seeking\<close>

lemma scan_slot_found:
  assumes "sorted ks"
  shows "key \<in> set ks \<longleftrightarrow> scan_slot ks key < length ks \<and> ks ! scan_slot ks key = key"
proof
  assume "key \<in> set ks"
  then obtain j where j: "j < length ks" "ks ! j = key" by (auto simp: in_set_conv_nth)
  have "scan_slot ks key \<le> j" using scan_slot_below [of j ks key] j(2) by (metis less_irrefl not_le)
  then have "ks ! scan_slot ks key \<le> key" using sorted_nth_mono [OF assms, of "scan_slot ks key" j] j by simp
  moreover have "key \<le> ks ! scan_slot ks key" using scan_slot_above [OF assms] \<open>scan_slot ks key \<le> j\<close> j(1) by simp
  ultimately show "scan_slot ks key < length ks \<and> ks ! scan_slot ks key = key" using \<open>scan_slot ks key \<le> j\<close> j(1) by simp
next
  assume "scan_slot ks key < length ks \<and> ks ! scan_slot ks key = key"
  then show "key \<in> set ks" using nth_mem [of "scan_slot ks key" ks] by simp
qed

lemma leaf_cell_at: "row_ok r \<Longrightarrow> \<exists>x. decode_leaf_table_cell (leaf_cell r) = Inr (fst r, x)"
  by (cases r) (use leaf_cell_decode(1) in auto)

lemma seek_tree:
  assumes "at_path H s0 c" and "stored (view s0) t" and "set (pages_of t) \<subseteq> live_pages s0" and "sorted_wrt (<) (flat t)" and "shaped h t"
    and "size H + length (snd c) + h < bp_capacity s0"
  shows "\<exists>r s' path fs q rows. loop_op (seek_step key) (pid t) c = Some (Inr r, (s', snd c @ path)) \<and> at_path H s0 (s', snd c @ path)
    \<and> t = plug fs (TLeaf q rows) \<and> (\<forall>f \<in> set fs. frame_wf f) \<and> (\<forall>x \<in> set (ctx_left fs). x < 2 * key) \<and> (\<forall>x \<in> set (ctx_right fs). 2 * key < x)
    \<and> (let i = scan_slot (map fst rows) key in
       if i < length rows then r = Some (fst (rows ! i) = key) \<and> path = ctx_path fs q @ [(q, i, leaf_body rows)] else r = None \<and> path = ctx_path fs q)"
  using assms
proof (induction t arbitrary: c h)
  case (TLeaf p rows)
  let ?i = "scan_slot (map fst rows) key"
  have p: "p \<in> live_pages s0" "size H + length (snd c) + 1 < bp_capacity s0" using TLeaf.prems by (auto simp: shaped_def)
  from visit_page [OF TLeaf.prems(1) p] obtain s' s'' where
    g: "on_pool (get_page p) c = (Inr (view s0 p), (s', snd c))" "\<And>i b. at_path H s0 (s', snd c @ [(p, i, b)])"
      "on_pool (unpin p False) (s', snd c) = (Inr (), (s'', snd c))" "at_path H s0 (s'', snd c)" by metis
  have b: "parse_page (view s0 p) 0 = Inr (leaf_body rows)" using TLeaf.prems(2) by simp
  note L = leaf_slot(1) [OF TLeaf.prems(2,4), of key]
  show ?case
  proof (cases "?i < length rows")
    case True
    have "row_ok (rows ! ?i)" using stored_rows_ok [OF TLeaf.prems(2)] True by simp
    then obtain x where "decode_leaf_table_cell (leaf_cell (rows ! ?i)) = Inr (fst (rows ! ?i), x)" using leaf_cell_at by blast
    then have "seek_step key p c = (Inr (Return (Some (fst (rows ! ?i) = key))), (s', snd c @ [(p, ?i, leaf_body rows)]))"
      using g(1) b L True by (simp add: seek_step_def bind_op_def lift_res_def push_path_def ret_def)
    then show ?thesis using g(2) True
      by (intro exI [of _ "Some (fst (rows ! ?i) = key)"] exI [of _ s'] exI [of _ "[(p, ?i, leaf_body rows)]"] exI [of _ "[]"] exI [of _ p] exI [of _ rows])
        (simp add: loop_op_return)
  next
    case False
    then have "seek_step key p c = (Inr (Return None), (s'', snd c))"
      using g(1,3) b L by (simp add: seek_step_def bind_op_def lift_res_def ret_def)
    then show ?thesis using g(4) False
      by (intro exI [of _ "None"] exI [of _ s''] exI [of _ "[]"] exI [of _ p] exI [of _ rows]) (simp add: loop_op_return)
  qed
next
  case (TNode p ts ks)
  let ?i = "scan_slot ks key"
  have h: "1 < h" "\<forall>t \<in> set ts. uniform (h - 1) t" using TNode.prems(5) by (auto simp: shaped_def)
  have st: "parse_page (view s0 p) 0 = Inr (node_body (map pid ts) ks)" "length ts = Suc (length ks)" "p \<in> live_pages s0"
    and ok: "length (map pid ts) = Suc (length ks)" "\<forall>q \<in> set (map pid ts). q < 2 ^ 32" "\<forall>k \<in> set ks. rowid_ok k"
    using TNode.prems(2,3) by auto
  have "size H + length (snd c) + 1 < bp_capacity s0" using TNode.prems(6) h(1) by simp
  from visit_page [OF TNode.prems(1) st(3) this] obtain s' where
    g: "on_pool (get_page p) c = (Inr (view s0 p), (s', snd c))" "\<And>i b. at_path H s0 (s', snd c @ [(p, i, b)])" by metis
  have "sorted ks" using node_seps_sorted [OF st(2) TNode.prems(4)] by (simp add: strict_sorted_imp_sorted)
  note D = node_slot_child(1) [OF ok this, of key] node_children [OF ok]
  have i: "?i < length ts" using scan_slot_le [of ks key] st(2) by simp
  let ?e = "(p, ?i, node_body (map pid ts) ks)" and ?t = "ts ! ?i" and ?f = "slot_frame ?i p ts ks"
  have step: "seek_step key p c = (Inr (Continue (pid ?t)), (s', snd c @ [?e]))"
    using g(1) st(1) D i by (simp add: seek_step_def bind_op_def lift_res_def push_path_def ret_def py_get_def)
  note C = child_facts [OF TNode.prems(2,4) nth_mem [OF i]]
  have "set (pages_of ?t) \<subseteq> live_pages s0" "shaped (h - 1) ?t" "size H + length (snd (s', snd c @ [?e])) + (h - 1) < bp_capacity s0"
    using C(2) TNode.prems(3,6) h nth_mem [OF i] by (auto intro: shapedI(1))
  from TNode.IH [OF nth_mem [OF i] g(2) C(1) this(1) C(3) this(2,3)] obtain r s'' path fs q rows where
    IH: "loop_op (seek_step key) (pid ?t) (s', snd c @ [?e]) = Some (Inr r, (s'', (snd c @ [?e]) @ path))" "at_path H s0 (s'', (snd c @ [?e]) @ path)"
      "?t = plug fs (TLeaf q rows)" "\<forall>f \<in> set fs. frame_wf f" "\<forall>x \<in> set (ctx_left fs). x < 2 * key" "\<forall>x \<in> set (ctx_right fs). 2 * key < x"
    and e: "if scan_slot (map fst rows) key < length rows
       then r = Some (fst (rows ! scan_slot (map fst rows) key) = key) \<and> path = ctx_path fs q @ [(q, scan_slot (map fst rows) key, leaf_body rows)]
       else r = None \<and> path = ctx_path fs q" by (auto simp: Let_def)
  note F = slot_frame_fill [OF i st(2), of p] slot_frame_order [OF st(2) TNode.prems(4) refl, of key]
  have "pid ?t = hole fs q" by (simp add: IH(3) pid_plug)
  then have ent: "cursor_entry ?f (hole fs q) = ?e" using cursor_entry_slot [OF i st(2), of p] by simp
  have tree: "TNode p ts ks = plug (?f # fs) (TLeaf q rows)" using F(1) IH(3) by simp
  have run: "loop_op (seek_step key) (pid (TNode p ts ks)) c = Some (Inr r, (s'', snd c @ ?e # path))" using IH(1) step by (simp add: loop_op_continue)
  show ?case
    by (rule exI [of _ r], rule exI [of _ s''], rule exI [of _ "?e # path"], rule exI [of _ "?f # fs"], rule exI [of _ q], rule exI [of _ rows])
      (use run tree IH(2,4-6) e F(2,4,5) ent in \<open>auto simp: Let_def\<close>)
qed

definition lower_rows :: "int \<Rightarrow> row list \<Rightarrow> nat" where
  "lower_rows key rows = length (takeWhile (\<lambda>r. fst r < key) rows)"

lemma takeWhile_map_fst: "length (takeWhile (\<lambda>r. fst r < key) rows) = scan_slot (map fst rows) key"
  by (induction rows) (auto simp: scan_slot_def)

lemma lower_rows_ctx:
  assumes "\<forall>r \<in> set xs. fst r < key" and "\<forall>r \<in> set zs. key < fst r"
  shows "lower_rows key (xs @ ys @ zs) = length xs + scan_slot (map fst ys) key"
proof -
  have z: "takeWhile (\<lambda>r. fst r < key) zs = []" using assms(2) by (cases zs) auto
  have "length (takeWhile (\<lambda>r. fst r < key) (ys @ zs)) = scan_slot (map fst ys) key"
    using z by (induction ys) (auto simp: scan_slot_def)
  then show ?thesis using assms(1) by (simp add: lower_rows_def)
qed

lemma seek_pos:
  assumes t: "cursor_table H s0 root h t" and c: "at_path H s0 c"
  shows "\<exists>c'. cursor_seek root key c = Some (Inr (key \<in> fst ` set (rows_of t)), c')
    \<and> cursor_pos H s0 t c' (if lower_rows key (rows_of t) < length (rows_of t) then Some (lower_rows key (rows_of t)) else None)"
proof -
  note T = cursor_tableD [OF t]
  from close_path [OF c] obtain s1 where s1: "cursor_close c = (Inr (), (s1, []))" "at_path H s0 (s1, [])" by blast
  have "size H + length (snd (s1, [] :: cursor_path)) + h < bp_capacity s0" using T(6) by simp
  from seek_tree [OF s1(2) T(2-5) this, of key] obtain r s' path fs q rows where
    g: "loop_op (seek_step key) root (s1, []) = Some (Inr r, (s', path))" "at_path H s0 (s', path)"
    and e: "t = plug fs (TLeaf q rows)" "\<forall>f \<in> set fs. frame_wf f" "\<forall>x \<in> set (ctx_left fs). x < 2 * key" "\<forall>x \<in> set (ctx_right fs). 2 * key < x"
    and r: "if scan_slot (map fst rows) key < length rows
       then r = Some (fst (rows ! scan_slot (map fst rows) key) = key) \<and> path = ctx_path fs q @ [(q, scan_slot (map fst rows) key, leaf_body rows)]
       else r = None \<and> path = ctx_path fs q" by (auto simp: Let_def T(1))
  let ?i = "scan_slot (map fst rows) key"
  note K = rows_ctx_keys [OF T(2) [unfolded e(1)] e(2-4)]
  have low: "lower_rows key (rows_of t) = length (ctx_rows_left fs) + ?i" unfolding e(1) rows_plug using lower_rows_ctx K by simp
  have leaf: "stored (view s0) (TLeaf q rows)" "sorted_wrt (<) (flat (TLeaf q rows))"
    using T(2,4) by (simp_all add: e(1) stored_plug flat_plug [OF e(2)] sorted_wrt_append)
  have "key \<notin> fst ` set (ctx_rows_left fs)" "key \<notin> fst ` set (ctx_rows_right fs)" using K(1) K(2) by fastforce+
  then have "key \<in> fst ` set (rows_of t) \<longleftrightarrow> key \<in> set (map fst rows)" by (simp add: e(1) rows_plug image_Un)
  then have found: "key \<in> fst ` set (rows_of t) \<longleftrightarrow> ?i < length rows \<and> fst (rows ! ?i) = key"
    unfolding scan_slot_found [OF leaf_slot(2) [OF leaf]] by auto
  have run: "cursor_seek root key c = bind_pop (loop_op (seek_step key) root) (\<lambda>found. case found of
         Some b \<Rightarrow> total_op (ret b) | None \<Rightarrow> bind_pop cursor_advance (\<lambda>_. total_op (ret False))) (s1, [])"
    using s1(1) by (simp add: cursor_seek_def bind_pop_def total_op_def)
  show ?thesis
  proof (cases "?i < length rows")
    case True
    then have p: "r = Some (fst (rows ! ?i) = key)" "path = ctx_path fs q @ [(q, ?i, leaf_body rows)]" using r by simp_all
    have "cursor_at H s0 t (s', path) (lower_rows key (rows_of t))"
      using g(2) e(2) True p(2) low by (intro cursor_atI [where fs = fs and i = ?i, OF _ e(1)]) simp_all
    moreover have "lower_rows key (rows_of t) < length (rows_of t)" using True unfolding low by (simp add: e(1) rows_plug)
    moreover have "cursor_seek root key c = Some (Inr (fst (rows ! ?i) = key), (s', path))"
      unfolding run using g(1) p(1) by (simp add: bind_pop_def total_op_def ret_def)
    ultimately show ?thesis using found True g(2) by (auto simp: cursor_pos_def)
  next
    case False
    then have p: "r = None" "path = ctx_path fs q" and i: "?i = length rows" using r scan_slot_le [of "map fst rows" key] by simp_all
    have un: "fs = [] \<or> uniform h (plug fs (TLeaf q rows))"
      using T(5) unfolding shaped_def e(1) by (auto simp: plug_leaf)
    have "length (ctx_rows_left fs @ rows_of (TLeaf q rows)) = lower_rows key (rows_of t)" using low i by simp
    with advance_ctx [OF T(2,3) [unfolded e(1)] un T(6) e(2), of "(s', path)"] g(2) p(2) obtain b c' where
      a: "cursor_advance (s', path) = Some (Inr b, c')"
        "landed H s0 t b c' (if lower_rows key (rows_of t) < length (rows_of t) then Some (lower_rows key (rows_of t)) else None)"
      unfolding e(1) [symmetric] Let_def by (metis snd_conv pid.simps(1))
    have "cursor_seek root key c = Some (Inr False, c')" unfolding run using g(1) p(1) a(1) by (simp add: bind_pop_def total_op_def ret_def)
    then show ?thesis using found False landed_pos [OF a(2)] by auto
  qed
qed

section \<open>Reading the row\<close>

lemma leaf_rows_pages:
  assumes "distinct (pages_of t)" and "(k, d, ids) \<in> set (rows_of t)"
  shows "distinct ids" and "set ids \<subseteq> set (pages_of t)"
proof -
  have "distinct ids \<and> set ids \<subseteq> set (pages_of t)" using assms
  proof (induction t)
    case (TLeaf p rows)
    then have "ids \<in> set (map (\<lambda>r. snd (snd r)) rows)" by force
    then show ?case using TLeaf.prems(1) unfolding pages_of.simps distinct.simps distinct_concat_iff set_concat set_simps by blast
  next
    case (TNode p ts ks)
    then obtain t where t: "t \<in> set ts" "(k, d, ids) \<in> set (rows_of t)" by auto
    moreover have "distinct (pages_of t)" using TNode.prems(1) t(1) by (auto simp: distinct_concat_iff)
    ultimately show ?case using TNode.IH by auto
  qed
  then show "distinct ids" "set ids \<subseteq> set (pages_of t)" by simp_all
qed

lemma on_chain_length: "on_chain v ids d \<Longrightarrow> d \<noteq> [] \<Longrightarrow> ids \<noteq> []"
  by (cases ids) auto

lemma quiet_chain:
  assumes q: "quiet H s0 s" and r: "row_stored (view s0) (k, d, ids)" and ids: "set ids \<subseteq> live_pages s0" "distinct ids"
  shows "\<exists>s'. read_overflow_chain load_page (first_page ids) (length (drop (local_len d) d)) s = Some (Inr (drop (local_len d) d), s') \<and> quiet H s0 s'"
proof -
  note Q = q [unfolded quiet_def]
  let ?d = "drop (local_len d) d"
  have ch: "on_chain (view s) ids ?d" using r ids(1) Q by (subst on_chain_cong [of ids _ "view s0"]) (auto simp: row_stored_def)
  have i: "held H {} s \<and> txn_frame s0 s" "set ids \<subseteq> live_pages s" "set ids \<inter> set [] = {}" using Q ids(1) by simp_all
  have l: "length (replicate (length ?d) 0 :: bytes) = 0 + length ?d" by simp
  from txn_store.read_chain_spec [OF i(1,2) ids(2) i(3) ch l, of "first_page ids"] obtain s' where
    "read_chain load_page (length ?d) [] (first_page ids) 0 (replicate (length ?d) 0) s = Some (Inr ?d, s')"
    "held H {} s' \<and> txn_frame s0 s'" "live_pages s' = live_pages s" "spare_pages s' = spare_pages s" "\<forall>q \<in> live_pages s. view s' q = view s q"
    by (auto simp: first_page_def)
  then show ?thesis using Q by (auto simp: read_overflow_chain_def quiet_def txn_frame_def)
qed

lemma read_pos:
  assumes t: "cursor_table H s0 root h t" and c: "cursor_pos H s0 t c (Some n)" and r: "rows_of t ! n = (k, d, ids)"
  shows "cursor_rowid c = (Inr k, c)" and "\<exists>c'. cursor_record c = Some (Inr d, c') \<and> cursor_pos H s0 t c' (Some n)"
proof -
  note T = cursor_tableD [OF t]
  have at: "cursor_at H s0 t c n" "n < length (rows_of t)" "at_path H s0 c" using c by (auto simp: cursor_pos_def)
  from cursor_at_row [OF at(1) T(2)] obtain p i rows where
    e: "last (snd c) = (p, i, leaf_body rows)" "i < length rows" "rows ! i = (k, d, ids)" "snd c \<noteq> []"
      "\<forall>r \<in> set rows. row_stored (view s0) r" unfolding r by metis
  have rs: "row_stored (view s0) (k, d, ids)" using e(2,3,5) nth_mem by metis
  have ok: "row_ok (k, d, ids)" using rs by (simp add: row_stored_def)
  note D = leaf_cell_decode(1) [OF ok]
  have cell: "py_get (pb_cells (leaf_body rows)) i = Inr (leaf_cell (k, d, ids))" using e(2,3) by (simp add: py_get_def)
  show "cursor_rowid c = (Inr k, c)"
    using e(1,4) cell D by (simp add: cursor_rowid_def bind_op_def get_path_def lift_res_def)
  have mem: "(k, d, ids) \<in> set (rows_of t)" using nth_mem [OF at(2)] by (simp add: r)
  note P = leaf_rows_pages [OF T(8) mem]
  show "\<exists>c'. cursor_record c = Some (Inr d, c') \<and> cursor_pos H s0 t c' (Some n)"
  proof (cases "first_page ids = 0")
    case True
    have "local_len d = length d" using True ok local_len_le [of d] by (cases ids) (auto simp: row_ok_def first_page_def)
    then have "cursor_record c = Some (Inr d, c)"
      using e(1,4) cell D True by (simp add: cursor_record_def bind_pop_def total_op_def get_path_def lift_res_def ret_def)
    then show ?thesis using c by blast
  next
    case False
    have len: "length d - length (take (local_len d) d) = length (drop (local_len d) d)" by simp
    have "set ids \<subseteq> live_pages s0" using P(2) T(3) by blast
    from quiet_chain [OF at(3) [unfolded at_path_def] rs this P(1)] obtain s' where
      q: "read_overflow_chain load_page (first_page ids) (length (drop (local_len d) d)) (fst c) = Some (Inr (drop (local_len d) d), s')"
        "quiet (H + mset (map fst (snd c))) s0 s'" by blast
    have "cursor_record c = Some (Inr d, (s', snd c))"
      using e(1,4) cell D False q(1) [unfolded len [symmetric]]
      by (simp add: cursor_record_def bind_pop_def total_op_def get_path_def lift_res_def ret_def on_pool_pop_def)
    moreover have "at_path H s0 (s', snd c)" using q(2) by (simp add: at_path_def)
    ultimately show ?thesis using at by (auto simp: cursor_pos_def cursor_at_def)
  qed
qed

section \<open>A cursor as an index into a list\<close>

datatype cursor_call = First | Last | Next | Prev | Seek int | Read | Close

datatype cursor_answer = Moved bool | Row int bytes | NoRow | Closed

definition do_cursor :: "nat \<Rightarrow> cursor_call \<Rightarrow> (cursor, cursor_answer) pop" where
  "do_cursor root call =
     (case call of
        First \<Rightarrow> bind_pop (cursor_first root) (\<lambda>_ c. Some (Inr (Moved (cursor_valid c)), c))
      | Last \<Rightarrow> bind_pop (cursor_last root) (\<lambda>_ c. Some (Inr (Moved (cursor_valid c)), c))
      | Next \<Rightarrow> bind_pop cursor_next (\<lambda>b. total_op (ret (Moved b)))
      | Prev \<Rightarrow> bind_pop cursor_prev (\<lambda>b. total_op (ret (Moved b)))
      | Seek key \<Rightarrow> bind_pop (cursor_seek root key) (\<lambda>b. total_op (ret (Moved b)))
      | Read \<Rightarrow> (\<lambda>c. if cursor_valid c
                     then bind_pop (total_op cursor_rowid) (\<lambda>k. bind_pop cursor_record (\<lambda>d. total_op (ret (Row k d)))) c
                     else Some (Inr NoRow, c))
      | Close \<Rightarrow> bind_pop (total_op cursor_close) (\<lambda>_. total_op (ret Closed)))"

fun do_cursor_calls :: "nat \<Rightarrow> cursor_call list \<Rightarrow> (cursor, cursor_answer list) pop" where
  "do_cursor_calls root [] = total_op (ret [])"
| "do_cursor_calls root (x # xs) = bind_pop (do_cursor root x) (\<lambda>a. bind_pop (do_cursor_calls root xs) (\<lambda>as. total_op (ret (a # as))))"

text \<open>The same calls on an index into the rows in key order, or no index.\<close>

fun list_cursor :: "row list \<Rightarrow> cursor_call \<Rightarrow> nat option \<Rightarrow> cursor_answer \<times> nat option" where
  "list_cursor rows First n = (Moved (rows \<noteq> []), if rows = [] then None else Some 0)"
| "list_cursor rows Last n = (Moved (rows \<noteq> []), if rows = [] then None else Some (length rows - 1))"
| "list_cursor rows Next None = (Moved False, None)"
| "list_cursor rows Next (Some n) = (Moved (n + 1 < length rows), if n + 1 < length rows then Some (n + 1) else None)"
| "list_cursor rows Prev None = (Moved False, None)"
| "list_cursor rows Prev (Some n) = (Moved (0 < n), if 0 < n then Some (n - 1) else None)"
| "list_cursor rows (Seek key) n = (Moved (key \<in> fst ` set rows), if lower_rows key rows < length rows then Some (lower_rows key rows) else None)"
| "list_cursor rows Read None = (NoRow, None)"
| "list_cursor rows Read (Some n) = (case rows ! n of (k, d, ids) \<Rightarrow> Row k d, Some n)"
| "list_cursor rows Close n = (Closed, None)"

fun list_cursor_calls :: "row list \<Rightarrow> cursor_call list \<Rightarrow> nat option \<Rightarrow> cursor_answer list \<times> nat option" where
  "list_cursor_calls rows [] n = ([], n)"
| "list_cursor_calls rows (x # xs) n =
     (let (a, n1) = list_cursor rows x n; (as, n2) = list_cursor_calls rows xs n1 in (a # as, n2))"

lemma cursor_call:
  assumes t: "cursor_table H s0 root h t" and c: "cursor_pos H s0 t c n"
  shows "\<exists>c'. do_cursor root x c = Some (Inr (fst (list_cursor (rows_of t) x n)), c') \<and> cursor_pos H s0 t c' (snd (list_cursor (rows_of t) x n))"
proof -
  have at: "at_path H s0 c" using c by (simp add: cursor_pos_def)
  note simps = do_cursor_def bind_pop_def total_op_def ret_def
  show ?thesis
  proof (cases x)
    case First
    from first_pos(1) [OF t at] show ?thesis using cursor_pos_valid by (fastforce simp: First simps split: if_splits)
  next
    case Last
    from first_pos(2) [OF t at] show ?thesis using cursor_pos_valid by (fastforce simp: Last simps split: if_splits)
  next
    case Next
    show ?thesis
    proof (cases n)
      case None
      then have "cursor_next c = Some (Inr False, c)" using c by (simp add: cursor_pos_def cursor_next_def simps get_path_def)
      then show ?thesis using None c by (simp add: Next simps)
    next
      case (Some m)
      from next_pos [OF t c [unfolded Some]] show ?thesis by (auto simp: Next Some simps)
    qed
  next
    case Prev
    show ?thesis
    proof (cases n)
      case None
      then have "cursor_prev c = Some (Inr False, c)" using c by (simp add: cursor_pos_def cursor_prev_def simps get_path_def)
      then show ?thesis using None c by (simp add: Prev simps)
    next
      case (Some m)
      from prev_pos [OF t c [unfolded Some]] show ?thesis by (auto simp: Prev Some simps)
    qed
  next
    case (Seek key)
    from seek_pos [OF t at, of key] show ?thesis by (auto simp: Seek simps)
  next
    case Read
    show ?thesis
    proof (cases n)
      case None
      then show ?thesis using c cursor_pos_valid [OF c] by (simp add: Read simps)
    next
      case (Some m)
      obtain k d ids where r: "rows_of t ! m = (k, d, ids)" by (cases "rows_of t ! m")
      from read_pos [OF t c [unfolded Some] r] show ?thesis using cursor_pos_valid [OF c] by (auto simp: Read Some r simps)
    qed
  next
    case Close
    from close_path [OF at] show ?thesis by (auto simp: Close simps cursor_pos_def)
  qed
qed

lemma cursor_calls:
  assumes t: "cursor_table H s0 root h t"
  shows "cursor_pos H s0 t c n \<Longrightarrow> \<exists>c'. do_cursor_calls root xs c = Some (Inr (fst (list_cursor_calls (rows_of t) xs n)), c')
    \<and> cursor_pos H s0 t c' (snd (list_cursor_calls (rows_of t) xs n))"
proof (induction xs arbitrary: c n)
  case (Cons x xs)
  from cursor_call [OF t Cons.prems, of x] obtain c1 where
    c1: "do_cursor root x c = Some (Inr (fst (list_cursor (rows_of t) x n)), c1)" "cursor_pos H s0 t c1 (snd (list_cursor (rows_of t) x n))" by blast
  from Cons.IH [OF c1(2)] show ?case using c1(1) by (auto simp: bind_pop_def total_op_def ret_def split_beta Let_def)
qed (simp add: total_op_def ret_def)

section \<open>Property\<close>

text \<open>
  C4. A cursor refines an index into the table's rows in key order: on a well-formed table, in a pool
  with room for a path, any sequence of calls returns, and answers exactly as the index does (moves
  forward and back across leaves, ends, seeks to the first key not below the one asked for, payloads
  reassembled from their overflow chains); no page changes, and once closed the cursor holds no pin.
\<close>

theorem cursor_refines_list:
  assumes "store_inv s" and "table_tree s root h t" and "h < bp_capacity s"
  shows "\<exists>s' s'' path. do_cursor_calls root calls (s, []) = Some (Inr (fst (list_cursor_calls (rows_of t) calls None)), (s', path))
    \<and> (\<forall>p \<in> live_pages s. view s' p = view s p) \<and> cursor_close (s', path) = (Inr (), (s'', [])) \<and> store_inv s''
    \<and> (\<forall>p \<in> live_pages s. view s'' p = view s p) \<and> live_pages s'' = live_pages s"
proof -
  have t: "cursor_table {#} s root h t" using assms(2,3) by (simp add: cursor_table_def)
  have "cursor_pos {#} s t (s, []) None" using assms(1) by (simp add: cursor_pos_def at_path_def quiet_def store_inv_held)
  from cursor_calls [OF t this, of calls] obtain s' path where
    c: "do_cursor_calls root calls (s, []) = Some (Inr (fst (list_cursor_calls (rows_of t) calls None)), (s', path))" "at_path {#} s (s', path)"
    by (auto simp: cursor_pos_def)
  from close_path [OF c(2)] obtain s'' where "cursor_close (s', path) = (Inr (), (s'', []))" "at_path {#} s (s'', [])" by blast
  with c show ?thesis by (auto simp: at_path_def quiet_def store_inv_held)
qed


theorem cursor_refines_list_witness:
  "\<exists>c. do_cursor_calls 2 [First, Read, Next, Seek 6, Seek 3, Read, Prev] (sample_table, [])
     = Some (Inr [Moved True, Row 5 [104, 105], Moved False, Moved False, Moved False, Row 5 [104, 105], Moved False], c)"
  using cursor_refines_list [of sample_table 2 1 "TLeaf 2 sample_rows" "[First, Read, Next, Seek 6, Seek 3, Read, Prev]"] sample_table
  by (auto simp: sample_rows_def lower_rows_def simp del: do_cursor_calls.simps)

end
