(* ===== verification/Values.thy ===== *)
theory Values
  imports RecordCodec "HOL-Library.List_Lexorder"
begin

text \<open>
  What the executor uses of Python's numbers: unbounded integers, IEEE 754 doubles as their bit
  patterns, and the exact comparison of one with the other. Every finite double is a whole multiple of
  \<open>2 ^ -1074\<close>, so its value is kept as that integer; the operations compute exactly and round to
  nearest, ties to even. Which of the NaN patterns an operation gives is not the format's business:
  one of them is used here.
\<close>

section \<open>Doubles\<close>

definition fp_negative :: "64 word \<Rightarrow> bool" where
  "fp_negative w \<longleftrightarrow> 2 ^ 63 \<le> uint w"

definition fp_mag :: "64 word \<Rightarrow> int" where
  "fp_mag w = uint w mod 2 ^ 63"

definition fp_is_nan :: "64 word \<Rightarrow> bool" where
  "fp_is_nan w \<longleftrightarrow> 2047 * 2 ^ 52 < fp_mag w"

definition fp_is_inf :: "64 word \<Rightarrow> bool" where
  "fp_is_inf w \<longleftrightarrow> fp_mag w = 2047 * 2 ^ 52"

text \<open>The value of a finite double, in units of \<open>2 ^ -1074\<close>.\<close>

definition fp_scaled :: "64 word \<Rightarrow> int" where
  "fp_scaled w =
     (let k = nat (fp_mag w div 2 ^ 52); f = fp_mag w mod 2 ^ 52; v = (if k = 0 then f else (2 ^ 52 + f) * 2 ^ (k - 1)) in
      if fp_negative w then - v else v)"

definition fp_make :: "bool \<Rightarrow> int \<Rightarrow> 64 word" where
  "fp_make s m = word_of_int (m + (if s then 2 ^ 63 else 0))"

definition fp_nan :: "64 word" where
  "fp_nan = fp_make False (2047 * 2 ^ 52 + 2 ^ 51)"

definition fp_inf :: "bool \<Rightarrow> 64 word" where
  "fp_inf s = fp_make s (2047 * 2 ^ 52)"

text \<open>The bits of \<open>p / q\<close> rounded, with \<open>p\<close> and \<open>q\<close> not negative.\<close>

function int_bit_length :: "int \<Rightarrow> nat" where
  "int_bit_length n = (if n \<le> 0 then 0 else Suc (int_bit_length (n div 2)))"
  by pat_completeness auto

termination
  by (relation "measure nat") auto

declare int_bit_length.simps [simp del]

definition round_half_even :: "int \<Rightarrow> int \<Rightarrow> int" where
  "round_half_even p q =
     (let m = p div q; r = 2 * (p mod q) in if r > q \<or> (r = q \<and> odd m) then m + 1 else m)"

definition fp_round :: "int \<Rightarrow> int \<Rightarrow> int" where
  "fp_round p q =
     (let k = int_bit_length (p div q) - 53;
          bits = int k * 2 ^ 52 + round_half_even p (q * 2 ^ k) in
      min bits (2047 * 2 ^ 52))"

definition fp_of_ratio :: "bool \<Rightarrow> int \<Rightarrow> int \<Rightarrow> 64 word" where
  "fp_of_ratio s p q = fp_make s (fp_round \<bar>p\<bar> \<bar>q\<bar>)"

text \<open>\<^verbatim>\<open>float(n)\<close>, which refuses an integer that rounds to infinity, and \<^verbatim>\<open>int(x)\<close>, which truncates.\<close>

definition float_of_int :: "int \<Rightarrow> (64 word) res" where
  "float_of_int n =
     (let w = fp_of_ratio (n < 0) (n * 2 ^ 1074) 1 in if fp_is_inf w then Inl OverflowError else Inr w)"

definition int_of_float :: "64 word \<Rightarrow> int res" where
  "int_of_float w =
     (if fp_is_nan w then Inl ValueError else if fp_is_inf w then Inl OverflowError
      else Inr (sgn (fp_scaled w) * (\<bar>fp_scaled w\<bar> div 2 ^ 1074)))"

definition fp_neg :: "64 word \<Rightarrow> 64 word" where
  "fp_neg w = fp_make (\<not> fp_negative w) (fp_mag w)"

definition fp_add :: "64 word \<Rightarrow> 64 word \<Rightarrow> 64 word" where
  "fp_add a b =
     (if fp_is_nan a \<or> fp_is_nan b then fp_nan
      else if fp_is_inf a then (if fp_is_inf b \<and> fp_negative a \<noteq> fp_negative b then fp_nan else a)
      else if fp_is_inf b then b
      else let v = fp_scaled a + fp_scaled b in
           if v = 0 then fp_make (fp_negative a \<and> fp_negative b) 0 else fp_of_ratio (v < 0) v 1)"

definition fp_sub :: "64 word \<Rightarrow> 64 word \<Rightarrow> 64 word" where
  "fp_sub a b = fp_add a (fp_neg b)"

definition fp_mul :: "64 word \<Rightarrow> 64 word \<Rightarrow> 64 word" where
  "fp_mul a b =
     (let s = (fp_negative a \<noteq> fp_negative b) in
      if fp_is_nan a \<or> fp_is_nan b then fp_nan
      else if fp_is_inf a \<or> fp_is_inf b
      then if fp_mag a = 0 \<or> fp_mag b = 0 then fp_nan else fp_inf s
      else fp_of_ratio s (fp_scaled a * fp_scaled b) (2 ^ 1074))"

text \<open>Division by a double that is not zero.\<close>

definition fp_div :: "64 word \<Rightarrow> 64 word \<Rightarrow> 64 word" where
  "fp_div a b =
     (let s = (fp_negative a \<noteq> fp_negative b) in
      if fp_is_nan a \<or> fp_is_nan b then fp_nan
      else if fp_is_inf a then if fp_is_inf b then fp_nan else fp_inf s
      else if fp_is_inf b then fp_make s 0
      else fp_of_ratio s (fp_scaled a * 2 ^ 1074) (fp_scaled b))"

section \<open>The order of numbers\<close>

datatype extended = MinusInfinity | Finite int | PlusInfinity

instantiation extended :: linorder
begin

fun less_eq_extended :: "extended \<Rightarrow> extended \<Rightarrow> bool" where
  "MinusInfinity \<le> y \<longleftrightarrow> True"
| "Finite a \<le> Finite b \<longleftrightarrow> a \<le> b"
| "Finite a \<le> PlusInfinity \<longleftrightarrow> True"
| "Finite a \<le> MinusInfinity \<longleftrightarrow> False"
| "PlusInfinity \<le> y \<longleftrightarrow> y = PlusInfinity"

definition less_extended :: "extended \<Rightarrow> extended \<Rightarrow> bool" where
  "x < y \<longleftrightarrow> x \<le> y \<and> \<not> y \<le> (x :: extended)"

instance
proof
  fix x y z :: extended
  show "x < y \<longleftrightarrow> x \<le> y \<and> \<not> y \<le> x" by (rule less_extended_def)
  show "x \<le> x" by (cases x) simp_all
  show "x \<le> y \<Longrightarrow> y \<le> z \<Longrightarrow> x \<le> z" by (cases x; cases y; cases z) simp_all
  show "x \<le> y \<Longrightarrow> y \<le> x \<Longrightarrow> x = y" by (cases x; cases y) simp_all
  show "x \<le> y \<or> y \<le> x" by (cases x; cases y) auto
qed

end

text \<open>Where a number stands: an integer is compared exactly, a NaN with nothing.\<close>

fun num_place :: "pyval \<Rightarrow> extended option" where
  "num_place (VInt n) = Some (Finite (n * 2 ^ 1074))"
| "num_place (VReal w) =
     (if fp_is_nan w then None
      else if fp_is_inf w then Some (if fp_negative w then MinusInfinity else PlusInfinity)
      else Some (Finite (fp_scaled w)))"
| "num_place _ = None"

definition num_eq :: "pyval \<Rightarrow> pyval \<Rightarrow> bool" where
  "num_eq a b \<longleftrightarrow> (case (num_place a, num_place b) of (Some x, Some y) \<Rightarrow> x = y | _ \<Rightarrow> False)"

definition num_less :: "pyval \<Rightarrow> pyval \<Rightarrow> bool" where
  "num_less a b \<longleftrightarrow> (case (num_place a, num_place b) of (Some x, Some y) \<Rightarrow> x < y | _ \<Rightarrow> False)"

text \<open>Python's \<^verbatim>\<open>==\<close> on two values: never true across classes, nor of a NaN.\<close>

fun py_eq :: "pyval \<Rightarrow> pyval \<Rightarrow> bool" where
  "py_eq VNull VNull \<longleftrightarrow> True"
| "py_eq (VText a) (VText b) \<longleftrightarrow> a = b"
| "py_eq (VBlob a) (VBlob b) \<longleftrightarrow> a = b"
| "py_eq a b \<longleftrightarrow> num_eq a b"

fun is_number :: "pyval \<Rightarrow> bool" where
  "is_number (VInt n) \<longleftrightarrow> True"
| "is_number (VReal w) \<longleftrightarrow> True"
| "is_number _ \<longleftrightarrow> False"

text \<open>\<^verbatim>\<open><\<close> on two values of one class; other pairs raise \<^verbatim>\<open>TypeError\<close>.\<close>

fun py_less :: "pyval \<Rightarrow> pyval \<Rightarrow> bool res" where
  "py_less (VText a) (VText b) = Inr (a < b)"
| "py_less (VBlob a) (VBlob b) = Inr (a < b)"
| "py_less a b = (if is_number a \<and> is_number b then Inr (num_less a b) else Inl TypeError)"

end
