(* ===== verification/Tokenizer.thy ===== *)
theory Tokenizer
  imports Values Utf8
begin

text \<open>
  The scanner, \<^verbatim>\<open>src/src/quilldb/sql/tokens.py\<close> and \<^verbatim>\<open>src/src/quilldb/sql/tokenizer.py\<close>. A text is its
  code points. The loop's index \<open>i\<close> is kept next to the text from \<open>i\<close> on; what Python's Unicode tables
  say of a character is an argument.
\<close>

section \<open>Definitions\<close>

datatype token_type =
    T_EOF | T_IDENTIFIER | T_INTEGER | T_REAL | T_STRING | T_PARAMETER | T_LEFT_PAREN | T_RIGHT_PAREN | T_COMMA | T_SEMICOLON
       | T_DOT | T_STAR | T_PLUS | T_MINUS | T_SLASH | T_PERCENT | T_EQ | T_NE | T_LT | T_LE | T_GT | T_GE | T_CREATE | T_TABLE
       | T_INSERT | T_INTO | T_VALUES | T_SELECT | T_FROM | T_WHERE | T_DELETE | T_UPDATE | T_SET | T_INDEX | T_ON | T_UNIQUE
       | T_ANALYZE | T_EXPLAIN | T_BEGIN | T_COMMIT | T_ROLLBACK | T_INTEGER_TYPE | T_REAL_TYPE | T_TEXT_TYPE | T_BLOB_TYPE
       | T_NULL | T_TRUE | T_FALSE | T_AND | T_OR | T_NOT | T_IS | T_LIKE | T_JOIN | T_LEFT | T_INNER | T_OUTER | T_GROUP | T_BY
       | T_HAVING | T_ORDER | T_ASC | T_DESC | T_LIMIT | T_OFFSET | T_DISTINCT | T_AS

record token =
  tok_type :: token_type
  tok_lexeme :: ustr
  tok_value :: pyval
  tok_position :: nat

abbreviation mk_token :: "token_type \<Rightarrow> ustr \<Rightarrow> pyval \<Rightarrow> nat \<Rightarrow> token" where
  "mk_token ty lexeme v position \<equiv> \<lparr>tok_type = ty, tok_lexeme = lexeme, tok_value = v, tok_position = position\<rparr>"

definition ustr_of :: "string \<Rightarrow> ustr" where
  "ustr_of = map of_char"

definition KEYWORDS :: "(ustr \<times> token_type) list" where
  "KEYWORDS = map (\<lambda>(k, t). (ustr_of k, t)) [
     (''create'', T_CREATE), (''table'', T_TABLE), (''insert'', T_INSERT), (''into'', T_INTO), (''values'', T_VALUES)
       , (''select'', T_SELECT), (''from'', T_FROM), (''where'', T_WHERE), (''delete'', T_DELETE), (''update'', T_UPDATE)
       , (''set'', T_SET), (''index'', T_INDEX), (''on'', T_ON), (''unique'', T_UNIQUE), (''analyze'', T_ANALYZE)
       , (''explain'', T_EXPLAIN), (''begin'', T_BEGIN), (''commit'', T_COMMIT), (''rollback'', T_ROLLBACK)
       , (''integer'', T_INTEGER_TYPE), (''real'', T_REAL_TYPE), (''text'', T_TEXT_TYPE), (''blob'', T_BLOB_TYPE)
       , (''null'', T_NULL), (''true'', T_TRUE), (''false'', T_FALSE), (''and'', T_AND), (''or'', T_OR), (''not'', T_NOT)
       , (''is'', T_IS), (''like'', T_LIKE), (''join'', T_JOIN), (''left'', T_LEFT), (''inner'', T_INNER), (''outer'', T_OUTER)
       , (''group'', T_GROUP), (''by'', T_BY), (''having'', T_HAVING), (''order'', T_ORDER), (''asc'', T_ASC), (''desc'', T_DESC)
       , (''limit'', T_LIMIT), (''offset'', T_OFFSET), (''distinct'', T_DISTINCT), (''as'', T_AS)]"

definition two_char_operators :: "(ustr \<times> token_type) list" where
  "two_char_operators = map (\<lambda>(k, t). (ustr_of k, t)) [
     (''!='', T_NE), (''<>'', T_NE), (''<='', T_LE), (''>='', T_GE)]"

definition one_char_operators :: "(ustr \<times> token_type) list" where
  "one_char_operators = map (\<lambda>(k, t). (ustr_of k, t)) [
     (''('', T_LEFT_PAREN), ('')'', T_RIGHT_PAREN), ('','', T_COMMA), ('';'', T_SEMICOLON), (''.'', T_DOT), (''*'', T_STAR)
       , (''+'', T_PLUS), (''-'', T_MINUS), (''/'', T_SLASH), (''%'', T_PERCENT), (''='', T_EQ), (''<'', T_LT), (''>'', T_GT)]"

text \<open>
  \<^verbatim>\<open>isdigit\<close>, \<^verbatim>\<open>isalpha\<close>, \<^verbatim>\<open>isalnum\<close>, \<^verbatim>\<open>casefold\<close>, and the decimal value \<^verbatim>\<open>int\<close> and \<^verbatim>\<open>float\<close> give a digit: some
  characters are digits without having one.
\<close>

record char_tables =
  is_digit :: "nat \<Rightarrow> bool"
  is_alpha :: "nat \<Rightarrow> bool"
  is_alnum :: "nat \<Rightarrow> bool"
  casefold :: "ustr \<Rightarrow> ustr"
  decimal :: "nat \<Rightarrow> nat option"

definition is_space :: "nat \<Rightarrow> bool" where
  "is_space c \<longleftrightarrow> c = 32 \<or> c = 9 \<or> c = 13 \<or> c = 10"

text \<open>The text after the first \<^verbatim>\<open>*/\<close>.\<close>

fun after_close :: "ustr \<Rightarrow> ustr option" where
  "after_close (a # b # cs) = (if a = 42 \<and> b = 47 then Some cs else after_close (b # cs))"
| "after_close cs = None"

text \<open>\<^verbatim>\<open>_scan_string\<close> after the opening quote: the contents and the text after the closing quote.\<close>

fun scan_string :: "ustr \<Rightarrow> (ustr \<times> ustr) res" where
  "scan_string [] = Inl SQLSyntaxError"
| "scan_string (c # cs) =
     (if c = 39
      then (case cs of
              d # ds \<Rightarrow> if d = 39 then bind_res (scan_string ds) (\<lambda>(v, rest). Inr (39 # v, rest)) else Inr ([], cs)
            | [] \<Rightarrow> Inr ([], []))
      else bind_res (scan_string cs) (\<lambda>(v, rest). Inr (c # v, rest)))"

text \<open>\<^verbatim>\<open>int(lexeme)\<close>, which refuses more than 4300 digits, and \<^verbatim>\<open>float(lexeme)\<close>, rounded once.\<close>

fun digits_value :: "char_tables \<Rightarrow> nat \<Rightarrow> ustr \<Rightarrow> nat res" where
  "digits_value u acc [] = Inr acc"
| "digits_value u acc (c # cs) = (case decimal u c of None \<Rightarrow> Inl ValueError | Some d \<Rightarrow> digits_value u (10 * acc + d) cs)"

definition int_of_lexeme :: "char_tables \<Rightarrow> ustr \<Rightarrow> pyval res" where
  "int_of_lexeme u cs =
     (if cs = [] \<or> 4300 < length cs then Inl ValueError else map_sum id (\<lambda>n. VInt (int n)) (digits_value u 0 cs))"

definition float_of_decimal :: "nat \<Rightarrow> int \<Rightarrow> 64 word" where
  "float_of_decimal m e =
     (if 0 \<le> e then fp_of_ratio False (int m * 10 ^ nat e * 2 ^ 1074) 1
      else fp_of_ratio False (int m * 2 ^ 1074) (10 ^ nat (- e)))"

definition float_of_lexeme :: "char_tables \<Rightarrow> ustr \<Rightarrow> ustr \<Rightarrow> bool \<Rightarrow> ustr \<Rightarrow> pyval res" where
  "float_of_lexeme u whole frac negative_exponent exponent =
     bind_res (digits_value u 0 (whole @ frac)) (\<lambda>m.
     bind_res (digits_value u 0 exponent) (\<lambda>e.
       Inr (VReal (float_of_decimal m ((if negative_exponent then - int e else int e) - int (length frac))))))"

text \<open>\<^verbatim>\<open>_scan_number\<close>: the value and the text after the literal.\<close>

definition scan_number :: "char_tables \<Rightarrow> ustr \<Rightarrow> (pyval \<times> ustr) res" where
  "scan_number u s =
     (let whole = takeWhile (is_digit u) s; s1 = dropWhile (is_digit u) s;
          is_real = (case s1 of c # cs \<Rightarrow> c = 46 | [] \<Rightarrow> False);
          frac = (if is_real then takeWhile (is_digit u) (tl s1) else []);
          s2 = (if is_real then dropWhile (is_digit u) (tl s1) else s1)
      in case s2 of
           c # cs \<Rightarrow>
             if c = 101 \<or> c = 69
             then let signed = (case cs of d # ds \<Rightarrow> d = 43 \<or> d = 45 | [] \<Rightarrow> False); s3 = (if signed then tl cs else cs) in
               (case s3 of
                  d # ds \<Rightarrow> if is_digit u d
                    then bind_res (float_of_lexeme u whole frac (signed \<and> hd cs = 45) (takeWhile (is_digit u) s3))
                           (\<lambda>v. Inr (v, dropWhile (is_digit u) s3))
                    else Inl SQLSyntaxError
                | [] \<Rightarrow> Inl SQLSyntaxError)
             else bind_res (if is_real then float_of_lexeme u whole frac False [] else int_of_lexeme u whole) (\<lambda>v. Inr (v, s2))
         | [] \<Rightarrow> bind_res (if is_real then float_of_lexeme u whole frac False [] else int_of_lexeme u whole) (\<lambda>v. Inr (v, s2)))"

definition word_char :: "char_tables \<Rightarrow> nat \<Rightarrow> bool" where
  "word_char u c \<longleftrightarrow> is_alnum u c \<or> c = 95"

definition keyword_type :: "char_tables \<Rightarrow> ustr \<Rightarrow> token_type" where
  "keyword_type u lexeme = (case map_of KEYWORDS (casefold u lexeme) of Some t \<Rightarrow> t | None \<Rightarrow> T_IDENTIFIER)"

text \<open>What one turn of the loop does at a character: skip to a later point, or make a token and go on after it.\<close>

datatype scan_turn = Skip ustr | Emit token_type pyval ustr

definition number_starts :: "char_tables \<Rightarrow> ustr \<Rightarrow> bool" where
  "number_starts u s \<longleftrightarrow>
     (case s of [] \<Rightarrow> False | c # cs \<Rightarrow> is_digit u c \<or> c = 46 \<and> (case cs of d # ds \<Rightarrow> is_digit u d | [] \<Rightarrow> False))"

definition scan_one :: "char_tables \<Rightarrow> nat \<Rightarrow> ustr \<Rightarrow> scan_turn res" where
  "scan_one u c cs =
     (if is_space c then Inr (Skip cs)
      else if c = 45 \<and> take 1 cs = [45] then Inr (Skip (dropWhile (\<lambda>d. d \<noteq> 10) cs))
      else if c = 47 \<and> take 1 cs = [42]
      then (case after_close (tl cs) of None \<Rightarrow> Inl SQLSyntaxError | Some rest \<Rightarrow> Inr (Skip rest))
      else if c = 39 then bind_res (scan_string cs) (\<lambda>(v, rest). Inr (Emit T_STRING (VText v) rest))
      else if number_starts u (c # cs)
      then bind_res (scan_number u (c # cs)) (\<lambda>(v, rest).
             Inr (Emit (case v of VReal w \<Rightarrow> T_REAL | _ \<Rightarrow> T_INTEGER) v rest))
      else if is_alpha u c \<or> c = 95
      then let rest = dropWhile (word_char u) cs in
           Inr (Emit (keyword_type u (take (length cs + 1 - length rest) (c # cs))) VNull rest)
      else if c = 63 then Inr (Emit T_PARAMETER VNull cs)
      else case map_of two_char_operators (take 2 (c # cs)) of
        Some ty \<Rightarrow> Inr (Emit ty VNull (tl cs))
      | None \<Rightarrow>
          (case map_of one_char_operators [c] of
             Some ty \<Rightarrow> Inr (Emit ty VNull cs)
           | None \<Rightarrow> Inl SQLSyntaxError))"

text \<open>Every turn moves on.\<close>

definition turn_rest :: "scan_turn \<Rightarrow> ustr" where
  "turn_rest t = (case t of Skip rest \<Rightarrow> rest | Emit ty v rest \<Rightarrow> rest)"

text \<open>A text that ends with another, as the rest of a scan does.\<close>

definition ends_with :: "ustr \<Rightarrow> ustr \<Rightarrow> bool" where
  "ends_with s rest \<longleftrightarrow> (\<exists>pre. s = pre @ rest)"

lemma ends_withI [simp]: "ends_with s s" "ends_with s [] " "ends_with cs rest \<Longrightarrow> ends_with (c # cs) rest"
  unfolding ends_with_def by (metis append_Nil append_Nil2 append_Cons)+

lemma ends_with_dropWhile [simp]: "ends_with s (dropWhile P s)"
  unfolding ends_with_def using takeWhile_dropWhile_id [of P s, symmetric] by blast

lemma ends_with_trans: "ends_with a b \<Longrightarrow> ends_with b c \<Longrightarrow> ends_with a c"
  unfolding ends_with_def by (metis append.assoc)

lemma ends_with_length: "ends_with s rest \<Longrightarrow> length rest \<le> length s"
  by (auto simp: ends_with_def)

lemma scan_string_ends: "scan_string cs = Inr (v, rest) \<Longrightarrow> ends_with cs rest"
  by (induction cs arbitrary: v rule: scan_string.induct) (auto simp: bind_res_eq_Inr split: if_splits list.splits)

lemma after_close_ends: "after_close cs = Some rest \<Longrightarrow> ends_with cs rest"
  by (induction cs rule: after_close.induct) (auto split: if_splits)

lemma scan_number_ends:
  assumes "scan_number u (c # cs) = Inr (v, rest)" and "number_starts u (c # cs)"
  shows "ends_with cs rest"
proof -
  let ?s1 = "dropWhile (is_digit u) (c # cs)"
  let ?real = "case ?s1 of c # cs \<Rightarrow> c = 46 | [] \<Rightarrow> False"
  define s2 where "s2 = (if ?real then dropWhile (is_digit u) (tl ?s1) else ?s1)"
  have tl: "ends_with s (tl s)" for s :: ustr by (cases s) simp_all
  have s2: "ends_with cs s2"
  proof (cases "is_digit u c")
    case True
    have "ends_with cs (dropWhile (is_digit u) (tl (dropWhile (is_digit u) cs)))"
      by (rule ends_with_trans [OF ends_with_dropWhile ends_with_trans [OF tl ends_with_dropWhile]])
    then show ?thesis using True by (auto simp: s2_def)
  next
    case False
    then show ?thesis using assms(2) by (auto simp: s2_def number_starts_def)
  qed
  have "ends_with s2 rest"
  proof (cases s2)
    case Nil
    then show ?thesis using assms(1) unfolding scan_number_def Let_def s2_def [symmetric] by (auto simp: bind_res_eq_Inr)
  next
    case (Cons d ds)
    show ?thesis
    proof (cases "d = 101 \<or> d = 69")
      case True
      then show ?thesis using assms(1) Cons unfolding scan_number_def Let_def s2_def [symmetric]
        by (auto simp: bind_res_eq_Inr split: list.splits if_splits intro: ends_with_trans [OF tl])
    next
      case False
      then show ?thesis using assms(1) Cons unfolding scan_number_def Let_def s2_def [symmetric] by (auto simp: bind_res_eq_Inr)
    qed
  qed
  with s2 show ?thesis by (rule ends_with_trans)
qed

lemma scan_one_ends: "scan_one u c cs = Inr t \<Longrightarrow> ends_with cs (turn_rest t)"
proof -
  assume a: "scan_one u c cs = Inr t"
  have tl: "ends_with s (tl s)" for s :: ustr by (cases s) simp_all
  show ?thesis
    using a unfolding scan_one_def
    by (auto simp: turn_rest_def bind_res_eq_Inr Let_def tl split: if_splits option.splits
        dest: scan_string_ends scan_number_ends intro: ends_with_trans [OF tl after_close_ends])
qed

function scan :: "char_tables \<Rightarrow> nat \<Rightarrow> ustr \<Rightarrow> token list res" where
  "scan u i s =
     (case s of
        [] \<Rightarrow> Inr [mk_token T_EOF [] VNull i]
      | c # cs \<Rightarrow> bind_res (scan_one u c cs) (\<lambda>turn.
          case turn of
            Skip rest \<Rightarrow> scan u (i + (length s - length rest)) rest
          | Emit ty v rest \<Rightarrow>
              bind_res (scan u (i + (length s - length rest)) rest) (\<lambda>ts.
                Inr (mk_token ty (take (length s - length rest) s) v i # ts))))"
  by pat_completeness auto

termination
  by (relation "measure (\<lambda>(u, i, s). length s)") (auto dest!: scan_one_ends ends_with_length simp: turn_rest_def)

declare scan.simps [simp del]

definition tokenize :: "char_tables \<Rightarrow> ustr \<Rightarrow> token list res" where
  "tokenize u sql = scan u 0 sql"

section \<open>What the tokens are of the text\<close>

text \<open>White space and comments, up to the text \<open>r\<close> that follows them: a line comment ends at its line's end.\<close>

inductive gap :: "ustr \<Rightarrow> ustr \<Rightarrow> bool" where
  none: "gap [] r"
| space: "is_space c \<Longrightarrow> gap g r \<Longrightarrow> gap (c # g) r"
| line: "10 \<notin> set l \<Longrightarrow> gap g r \<Longrightarrow> g @ r = [] \<or> hd (g @ r) = 10 \<Longrightarrow> gap (45 # 45 # l @ g) r"
| block: "after_close (b @ [42, 47]) = Some [] \<Longrightarrow> gap g r \<Longrightarrow> gap (47 # 42 # b @ [42, 47] @ g) r"

definition quote_text :: "ustr \<Rightarrow> ustr" where
  "quote_text v = 39 # concat (map (\<lambda>c. if c = 39 then [39, 39] else [c]) v) @ [39]"

definition is_word :: "char_tables \<Rightarrow> ustr \<Rightarrow> bool" where
  "is_word u w \<longleftrightarrow> (case w of [] \<Rightarrow> False | c # cs \<Rightarrow> (is_alpha u c \<or> c = 95) \<and> list_all (word_char u) cs)"

text \<open>The kind and the value of a token follow from its lexeme and the text \<open>r\<close> after it.\<close>

definition token_fits :: "char_tables \<Rightarrow> token \<Rightarrow> ustr \<Rightarrow> bool" where
  "token_fits u t r \<longleftrightarrow>
     (\<exists>v. tok_lexeme t = quote_text v \<and> tok_type t = T_STRING \<and> tok_value t = VText v)
   \<or> (scan_number u (tok_lexeme t @ r) = Inr (tok_value t, r) \<and> tok_type t = (case tok_value t of VReal w \<Rightarrow> T_REAL | _ \<Rightarrow> T_INTEGER))
   \<or> (is_word u (tok_lexeme t) \<and> (r = [] \<or> \<not> word_char u (hd r)) \<and> tok_type t = keyword_type u (tok_lexeme t) \<and> tok_value t = VNull)
   \<or> (tok_lexeme t = [63] \<and> tok_type t = T_PARAMETER \<and> tok_value t = VNull)
   \<or> (map_of (one_char_operators @ two_char_operators) (tok_lexeme t) = Some (tok_type t) \<and> tok_value t = VNull)"

text \<open>The tokens of the text from point \<open>i\<close> on: lexemes in order, gaps between them, then the end.\<close>

fun laid_out :: "char_tables \<Rightarrow> nat \<Rightarrow> token list \<Rightarrow> ustr \<Rightarrow> bool" where
  "laid_out u i [] s \<longleftrightarrow> False"
| "laid_out u i (t # ts) s \<longleftrightarrow>
     (if ts = [] then gap s [] \<and> t = mk_token T_EOF [] VNull (i + length s)
      else \<exists>g r. s = g @ tok_lexeme t @ r \<and> gap g (tok_lexeme t @ r) \<and> tok_lexeme t \<noteq> [] \<and> tok_position t = i + length g
        \<and> token_fits u t r \<and> laid_out u (i + length g + length (tok_lexeme t)) ts r)"

lemma scan_string_quote: "scan_string cs = Inr (v, rest) \<Longrightarrow> 39 # cs = quote_text v @ rest"
proof (induction cs arbitrary: v rest rule: scan_string.induct)
  case (2 c cs)
  show ?case
  proof (cases "c = 39")
    case True
    show ?thesis
    proof (cases cs)
      case Nil
      then show ?thesis using 2 True by (simp add: quote_text_def)
    next
      case (Cons d ds)
      then show ?thesis using 2 True by (auto simp: quote_text_def bind_res_eq_Inr split: if_splits)
    qed
  next
    case False
    then show ?thesis using 2 by (auto simp: quote_text_def bind_res_eq_Inr)
  qed
qed simp

lemma quote_scan_string:
  assumes "r = [] \<or> hd r \<noteq> 39"
  shows "scan_string (tl (quote_text v @ r)) = Inr (v, r)"
proof (induction v)
  case Nil
  then show ?case using assms by (cases r) (simp_all add: quote_text_def)
next
  case (Cons c v)
  then show ?case by (simp add: quote_text_def)
qed

lemma after_close_split: "after_close cs = Some rest \<Longrightarrow> \<exists>b. cs = b @ [42, 47] @ rest \<and> after_close (b @ [42, 47]) = Some []"
proof (induction cs rule: after_close.induct)
  case (1 a b cs)
  show ?case
  proof (cases "a = 42 \<and> b = 47")
    case True
    then show ?thesis using 1 by (intro exI [of _ "[]"]) simp
  next
    case False
    then obtain x where x: "b # cs = x @ [42, 47] @ rest" "after_close (x @ [42, 47]) = Some []" using 1 by auto
    then show ?thesis using False by (intro exI [of _ "a # x"]) (cases x; auto)
  qed
qed simp_all

text \<open>The turns, one by one.\<close>

lemma scan_one_Skip:
  assumes "scan_one u c cs = Inr (Skip rest)"
  shows "is_space c \<and> rest = cs \<or> c = 45 \<and> take 1 cs = [45] \<and> rest = dropWhile (\<lambda>d. d \<noteq> 10) cs
    \<or> c = 47 \<and> take 1 cs = [42] \<and> after_close (tl cs) = Some rest"
proof -
  have "False" if "\<not> is_space c" "\<not> (c = 45 \<and> take 1 cs = [45])" "\<not> (c = 47 \<and> take 1 cs = [42])"
    using assms that by (auto simp: scan_one_def bind_res_eq_Inr Let_def split: if_splits option.splits)
  moreover have "rest = cs" if "is_space c" using assms that by (simp add: scan_one_def)
  moreover have "rest = dropWhile (\<lambda>d. d \<noteq> 10) cs" if "\<not> is_space c" "c = 45 \<and> take 1 cs = [45]"
    using assms that by (simp add: scan_one_def)
  moreover have "after_close (tl cs) = Some rest" if "\<not> is_space c" "\<not> (c = 45 \<and> take 1 cs = [45])" "c = 47 \<and> take 1 cs = [42]"
    using assms that by (auto simp: scan_one_def split: option.splits)
  ultimately show ?thesis by blast
qed

lemma scan_one_Emit:
  assumes "scan_one u c cs = Inr (Emit ty v rest)"
  obtains (string) s where "c = 39" and "scan_string cs = Inr (s, rest)" and "ty = T_STRING" and "v = VText s"
  | (number) "scan_number u (c # cs) = Inr (v, rest)" and "ty = (case v of VReal w \<Rightarrow> T_REAL | _ \<Rightarrow> T_INTEGER)"
  | (word) "is_alpha u c \<or> c = 95" and "rest = dropWhile (word_char u) cs" and "ty = keyword_type u (take (length cs + 1 - length rest) (c # cs))" and "v = VNull"
  | (parameter) "c = 63" and "ty = T_PARAMETER" and "v = VNull" and "rest = cs"
  | (two) "map_of two_char_operators (take 2 (c # cs)) = Some ty" and "v = VNull" and "rest = tl cs"
  | (one) "map_of one_char_operators [c] = Some ty" and "v = VNull" and "rest = cs"
proof -
  have ns: "\<not> is_space c" "\<not> (c = 45 \<and> take 1 cs = [45])" "\<not> (c = 47 \<and> take 1 cs = [42])"
    using assms by (auto simp: scan_one_def split: if_splits option.splits)
  note D = assms [unfolded scan_one_def if_not_P [OF ns(1)] if_not_P [OF ns(2)] if_not_P [OF ns(3)] Let_def]
  show thesis
  proof (cases "c = 39")
    case True
    then show thesis using D by (auto simp: bind_res_eq_Inr intro: string)
  next
    case c: False
    show thesis
    proof (cases "number_starts u (c # cs)")
      case True
      then show thesis using D c by (auto simp: bind_res_eq_Inr intro: number)
    next
      case n: False
      show thesis
      proof (cases "is_alpha u c \<or> c = 95")
        case True
        then show thesis using D c n word by auto
      next
        case w: False
        show thesis
        proof (cases "c = 63")
          case True
          then show thesis using D c n w parameter by auto
        next
          case p: False
          show thesis
          proof (cases "map_of two_char_operators (take 2 (c # cs))")
            case None
            then show thesis using D c n w p one by (simp split: option.splits)
          next
            case (Some ty')
            then show thesis using D c n w p two by simp
          qed
        qed
      qed
    qed
  qed
qed

text \<open>What a turn does, told by the text it passes over.\<close>

lemma skip_gap:
  assumes "scan_one u c cs = Inr (Skip rest)"
  shows "\<exists>w. c # cs = w @ rest \<and> (\<forall>g r. rest = g @ r \<longrightarrow> gap g r \<longrightarrow> gap (w @ g) r)"
proof -
  consider "is_space c" "rest = cs" | "c = 45" "take 1 cs = [45]" "rest = dropWhile (\<lambda>d. d \<noteq> 10) cs"
    | "c = 47" "take 1 cs = [42]" "after_close (tl cs) = Some rest"
    using scan_one_Skip [OF assms] by blast
  then show ?thesis
  proof cases
    case 1
    then show ?thesis by (intro exI [of _ "[c]"]) (auto intro: gap.space)
  next
    case 2
    then obtain ds where cs: "cs = 45 # ds" by (cases cs) auto
    let ?l = "takeWhile (\<lambda>d. d \<noteq> 10) ds"
    have "rest = dropWhile (\<lambda>d. d \<noteq> 10) ds" using 2(3) by (simp add: cs)
    then have "rest = [] \<or> hd rest = 10" using hd_dropWhile [of "\<lambda>d. d \<noteq> 10" ds] by auto
    moreover have "10 \<notin> set ?l" by (auto dest: set_takeWhileD)
    ultimately have "\<forall>g r. rest = g @ r \<longrightarrow> gap g r \<longrightarrow> gap ((45 # 45 # ?l) @ g) r" using gap.line [of ?l] by fastforce
    moreover have "c # cs = (45 # 45 # ?l) @ rest" using 2(1) \<open>rest = dropWhile (\<lambda>d. d \<noteq> 10) ds\<close> by (simp add: cs)
    ultimately show ?thesis by blast
  next
    case 3
    then obtain ds where cs: "cs = 42 # ds" by (cases cs) auto
    then obtain b where "ds = b @ [42, 47] @ rest" "after_close (b @ [42, 47]) = Some []" using after_close_split 3(3) by auto
    then show ?thesis using 3 gap.block by (intro exI [of _ "47 # 42 # b @ [42, 47]"]) (auto simp: cs)
  qed
qed

lemma operators_eval:
  "one_char_operators = [([40], T_LEFT_PAREN), ([41], T_RIGHT_PAREN), ([44], T_COMMA), ([59], T_SEMICOLON), ([46], T_DOT), ([42], T_STAR),
     ([43], T_PLUS), ([45], T_MINUS), ([47], T_SLASH), ([37], T_PERCENT), ([61], T_EQ), ([60], T_LT), ([62], T_GT)]"
  "two_char_operators = [([33, 61], T_NE), ([60, 62], T_NE), ([60, 61], T_LE), ([62, 61], T_GE)]"
  by (simp_all add: one_char_operators_def two_char_operators_def ustr_of_def)

lemma map_of_operators:
  "map_of two_char_operators w = Some ty \<Longrightarrow> map_of (one_char_operators @ two_char_operators) w = Some ty \<and> length w = 2"
  "map_of one_char_operators w = Some ty \<Longrightarrow> map_of (one_char_operators @ two_char_operators) w = Some ty"
  by (auto simp: operators_eval split: if_splits)

lemma token_fitsI:
  "token_fits u (mk_token T_STRING (quote_text s) (VText s) i) r"
  "scan_number u (w @ r) = Inr (v, r) \<Longrightarrow> token_fits u (mk_token (case v of VReal x \<Rightarrow> T_REAL | _ \<Rightarrow> T_INTEGER) w v i) r"
  "is_word u w \<Longrightarrow> r = [] \<or> \<not> word_char u (hd r) \<Longrightarrow> token_fits u (mk_token (keyword_type u w) w VNull i) r"
  "token_fits u (mk_token T_PARAMETER [63] VNull i) r"
  "map_of (one_char_operators @ two_char_operators) w = Some ty \<Longrightarrow> token_fits u (mk_token ty w VNull i) r"
  unfolding token_fits_def token.simps by blast+

lemma emit_token:
  assumes "scan_one u c cs = Inr (Emit ty v rest)"
  shows "\<exists>w. c # cs = w @ rest \<and> w \<noteq> [] \<and> token_fits u (mk_token ty w v i) rest"
proof -
  obtain pre where pre: "cs = pre @ rest" using scan_one_ends [OF assms] by (auto simp: ends_with_def turn_rest_def)
  then have w: "c # cs = (c # pre) @ rest" "length cs + 1 - length rest = length (c # pre)" by simp_all
  have stay: "pre = []" if "rest = cs" using pre that by simp
  from assms have "token_fits u (mk_token ty (c # pre) v i) rest"
  proof (cases rule: scan_one_Emit)
    case (string s)
    then have "(c # pre) @ rest = quote_text s @ rest" using scan_string_quote [of cs s rest] w(1) by simp
    then have "c # pre = quote_text s" by (simp only: append_same_eq)
    then show ?thesis unfolding string(3,4) by (simp only: token_fitsI(1))
  next
    case number
    then show ?thesis using w(1) unfolding number(2) by (intro token_fitsI(2)) simp
  next
    case word
    have "pre @ rest = takeWhile (word_char u) cs @ rest" using pre word(2) by simp
    then have tw: "pre = takeWhile (word_char u) cs" by (simp only: append_same_eq)
    have "list_all (word_char u) pre" unfolding tw by (auto simp: list_all_iff dest: set_takeWhileD)
    then have "is_word u (c # pre)" using word(1) by (simp add: is_word_def)
    moreover have "rest = [] \<or> \<not> word_char u (hd rest)" using word(2) hd_dropWhile [of "word_char u" cs] by auto
    moreover have "take (length cs + 1 - length rest) (c # cs) = c # pre" unfolding w(2) w(1) by simp
    ultimately show ?thesis unfolding word(3,4) by (simp only: token_fitsI(3))
  next
    case parameter
    have "pre = []" using stay parameter(4) .
    show ?thesis unfolding parameter(1-3) \<open>pre = []\<close> by (rule token_fitsI(4))
  next
    case two
    then have "length (take 2 (c # cs)) = 2" using map_of_operators(1) by blast
    then obtain d ds where cs: "cs = d # ds" by (cases cs) auto
    have "rest = ds" using two(3) unfolding cs by simp
    have "pre @ ds = [d] @ ds" using pre unfolding \<open>rest = ds\<close> cs by simp
    then have "pre = [d]" by (simp only: append_same_eq)
    moreover have "map_of (one_char_operators @ two_char_operators) [c, d] = Some ty"
      using map_of_operators(1) [OF two(1)] by (simp add: cs)
    ultimately show ?thesis unfolding two(2) by (simp only: token_fitsI(5))
  next
    case one
    have "pre = []" using stay one(3) .
    show ?thesis unfolding one(2) \<open>pre = []\<close> by (rule token_fitsI(5)) (rule map_of_operators(2) [OF one(1)])
  qed
  then show ?thesis using w(1) by (intro exI [of _ "c # pre"]) simp
qed

lemma laid_out_skip:
  assumes "laid_out u (i + length w) ts rest" and "\<forall>g r. rest = g @ r \<longrightarrow> gap g r \<longrightarrow> gap (w @ g) r"
  shows "laid_out u i ts (w @ rest)"
proof (cases ts)
  case (Cons t ts')
  show ?thesis
  proof (cases "ts' = []")
    case True
    then show ?thesis using assms by (simp add: Cons add.assoc)
  next
    case False
    with assms(1) obtain g r where "rest = g @ tok_lexeme t @ r" "gap g (tok_lexeme t @ r)" "tok_lexeme t \<noteq> []"
      "tok_position t = i + length w + length g" "token_fits u t r" "laid_out u (i + length w + length g + length (tok_lexeme t)) ts' r"
      by (auto simp: Cons)
    then show ?thesis using assms(2) False unfolding Cons
      by (simp, intro exI [of _ "w @ g"] exI [of _ r]) (simp add: add.assoc)
  qed
qed (use assms in simp)

lemma scan_laid_out: "scan u i s = Inr ts \<Longrightarrow> laid_out u i ts s"
proof (induction u i s arbitrary: ts rule: scan.induct)
  case (1 u i s)
  show ?case
  proof (cases s)
    case Nil
    then show ?thesis using 1 by (auto simp: scan.simps [of u i] gap.none)
  next
    case (Cons c cs)
    from 1(3) obtain turn where t: "scan_one u c cs = Inr turn" by (auto simp: scan.simps [of u i] Cons bind_res_eq_Inr)
    show ?thesis
    proof (cases turn)
      case (Skip rest)
      from skip_gap [OF t [unfolded Skip]] obtain w where w: "c # cs = w @ rest" "\<forall>g r. rest = g @ r \<longrightarrow> gap g r \<longrightarrow> gap (w @ g) r" by blast
      have len: "length (c # cs) - length rest = length w" unfolding w(1) by simp
      have "scan u (i + length w) rest = Inr ts" using 1(3) t unfolding Cons Skip by (subst (asm) scan.simps) (simp add: len [simplified])
      then have "laid_out u (i + length w) ts rest" using 1(1) [OF Cons t Skip] len by (simp add: Cons)
      from laid_out_skip [OF this w(2)] show ?thesis unfolding Cons w(1) .
    next
      case (Emit ty v rest)
      from emit_token [OF t [unfolded Emit], of i] obtain w where
        w: "c # cs = w @ rest" "w \<noteq> []" "token_fits u (mk_token ty w v i) rest" by blast
      have len: "length (c # cs) - length rest = length w" "take (length w) (c # cs) = w" unfolding w(1) by simp_all
      obtain ts' where ts': "scan u (i + length w) rest = Inr ts'" "ts = mk_token ty w v i # ts'"
        using 1(3) t unfolding Cons Emit by (subst (asm) scan.simps) (auto simp: len [simplified] bind_res_eq_Inr)
      then have "laid_out u (i + length w) ts' rest" using 1(2) [OF Cons t Emit] len by (simp add: Cons)
      moreover from this have "ts' \<noteq> []" by auto
      ultimately have "laid_out u i (mk_token ty w v i # ts') (w @ rest)" using w(2,3) gap.none by (auto intro!: exI [of _ "[]"] exI [of _ rest])
      then show ?thesis unfolding Cons ts'(2) w(1) .
    qed
  qed
qed

section \<open>Errors\<close>

lemma scan_string_error: "scan_string cs = Inl e \<Longrightarrow> e = SQLSyntaxError"
  by (induction cs rule: scan_string.induct) (auto simp: bind_res_eq_Inl split: if_splits list.splits)

definition decimal_digits :: "char_tables \<Rightarrow> bool" where
  "decimal_digits u \<longleftrightarrow> (\<forall>c. is_digit u c \<longrightarrow> decimal u c \<noteq> None)"

lemma digits_value_error: "digits_value u acc cs = Inl e \<Longrightarrow> e = ValueError \<and> (\<exists>c \<in> set cs. decimal u c = None)"
  by (induction u acc cs rule: digits_value.induct) (auto split: option.splits)

lemma int_of_lexeme_error:
  "int_of_lexeme u cs = Inl e \<Longrightarrow> e = ValueError \<and> (cs = [] \<or> 4300 < length cs \<or> (\<exists>c \<in> set cs. decimal u c = None))"
  by (cases "digits_value u 0 cs") (auto simp: int_of_lexeme_def dest: digits_value_error split: if_splits)

lemma float_of_lexeme_error:
  "float_of_lexeme u a b s x = Inl e \<Longrightarrow> e = ValueError \<and> (\<exists>c \<in> set a \<union> set b \<union> set x. decimal u c = None)"
  by (auto simp: float_of_lexeme_def bind_res_eq_Inl dest!: digits_value_error)

text \<open>The digits a conversion meets are digits, and no more of them than the text has.\<close>

lemma float_of_digits_error:
  "float_of_lexeme u (takeWhile (is_digit u) a) (takeWhile (is_digit u) b) s (takeWhile (is_digit u) x) = Inl e
   \<Longrightarrow> e = ValueError \<and> \<not> decimal_digits u"
  "float_of_lexeme u (takeWhile (is_digit u) a) (takeWhile (is_digit u) b) s [] = Inl e \<Longrightarrow> e = ValueError \<and> \<not> decimal_digits u"
  by (auto simp: decimal_digits_def dest!: float_of_lexeme_error set_takeWhileD)

lemma int_of_digits_error:
  assumes "int_of_lexeme u (takeWhile (is_digit u) (c # cs)) = Inl e" and "is_digit u c"
  shows "e = ValueError \<and> (decimal_digits u \<longrightarrow> 4300 < length (c # cs))"
proof -
  have le: "length (takeWhile (is_digit u) (c # cs)) \<le> length (c # cs)" by (rule length_takeWhile_le)
  have ne: "takeWhile (is_digit u) (c # cs) \<noteq> []" using assms(2) by simp
  have dec: "decimal u x \<noteq> None" if "decimal_digits u" "x \<in> set (takeWhile (is_digit u) (c # cs))" for x
    using that(1) set_takeWhileD [OF that(2)] unfolding decimal_digits_def by blast
  show ?thesis using int_of_lexeme_error [OF assms(1)] ne dec le by (meson order_less_le_trans)
qed

lemma scan_number_error:
  assumes "scan_number u (c # cs) = Inl e" and "number_starts u (c # cs)"
  shows "e = SQLSyntaxError \<or> e = ValueError \<and> (decimal_digits u \<longrightarrow> 4300 < length (c # cs))"
proof -
  let ?s1 = "dropWhile (is_digit u) (c # cs)"
  let ?real = "case ?s1 of c # cs \<Rightarrow> c = 46 | [] \<Rightarrow> False"
  define s2 where "s2 = (if ?real then dropWhile (is_digit u) (tl ?s1) else ?s1)"
  define real where "real = ?real"
  define whole where "whole = takeWhile (is_digit u) (c # cs)"
  define frac where "frac = (if real then takeWhile (is_digit u) (tl ?s1) else [])"
  define number where "number = (if real
    then float_of_lexeme u (takeWhile (is_digit u) (c # cs)) (if real then takeWhile (is_digit u) (tl ?s1) else []) False []
    else int_of_lexeme u (takeWhile (is_digit u) (c # cs)))"
  have n: "e' = ValueError \<and> (decimal_digits u \<longrightarrow> 4300 < length (c # cs))" if "number = Inl e'" for e'
  proof (cases real)
    case True
    then have "float_of_lexeme u (takeWhile (is_digit u) (c # cs)) (takeWhile (is_digit u) (tl ?s1)) False [] = Inl e'"
      using that unfolding number_def by (simp only: if_True)
    from float_of_digits_error(2) [OF this] show ?thesis by simp
  next
    case False
    then have d: "is_digit u c" using assms(2) by (auto simp: number_starts_def real_def split: if_splits)
    have "int_of_lexeme u (takeWhile (is_digit u) (c # cs)) = Inl e'" using that False unfolding number_def by (simp only: if_False)
    from int_of_digits_error [OF this d] show ?thesis .
  qed
  have x: "e' = ValueError \<and> \<not> decimal_digits u"
    if "float_of_lexeme u (takeWhile (is_digit u) (c # cs)) (if real then takeWhile (is_digit u) (tl ?s1) else []) s (takeWhile (is_digit u) ds) = Inl e'"
    for e' s ds
  proof (cases real)
    case True
    from that [unfolded if_P [OF True]] show ?thesis by (rule float_of_digits_error(1))
  next
    case False
    have "float_of_lexeme u (takeWhile (is_digit u) (c # cs)) (takeWhile (is_digit u) []) s (takeWhile (is_digit u) ds) = Inl e'"
      using that [unfolded if_not_P [OF False]] by simp
    then show ?thesis by (rule float_of_digits_error(1))
  qed
  have number_eq: "number = (if real then float_of_lexeme u whole frac False [] else int_of_lexeme u whole)"
    by (simp only: number_def whole_def frac_def)
  have x': "e' = ValueError \<and> \<not> decimal_digits u"
    if "is_digit u d'" "float_of_lexeme u whole frac s (d' # takeWhile (is_digit u) ds) = Inl e'" for e' s d' ds
    using x [of s "d' # ds" e'] that by (simp add: whole_def frac_def)
  note D = assms(1) [unfolded scan_number_def Let_def real_def [symmetric] s2_def [unfolded real_def [symmetric], symmetric]
      frac_def [symmetric], folded whole_def, folded number_eq]
  show ?thesis
  proof (cases s2)
    case Nil
    then show ?thesis using D n by (auto simp: bind_res_eq_Inl)
  next
    case (Cons d ds)
    show ?thesis
    proof (cases "d = 101 \<or> d = 69")
      case True
      then show ?thesis using D Cons by (auto simp: bind_res_eq_Inl split: list.splits if_splits dest!: x')
    next
      case False
      then show ?thesis using D Cons n by (auto simp: bind_res_eq_Inl)
    qed
  qed
qed

lemma scan_one_error:
  assumes "scan_one u c cs = Inl e"
  shows "e = SQLSyntaxError \<or> e = ValueError \<and> (decimal_digits u \<longrightarrow> 4300 < length (c # cs))"
proof (cases "number_starts u (c # cs)")
  case True
  then show ?thesis using assms scan_number_error [OF _ True]
    unfolding scan_one_def by (auto simp: bind_res_eq_Inl dest: scan_string_error split: if_splits option.splits)
next
  case False
  then show ?thesis using assms unfolding scan_one_def
    by (auto simp: bind_res_eq_Inl Let_def dest: scan_string_error split: if_splits option.splits)
qed

lemma scan_error:
  "scan u i s = Inl e \<Longrightarrow> e = SQLSyntaxError \<or> e = ValueError \<and> (decimal_digits u \<longrightarrow> 4300 < length s)"
proof (induction u i s rule: scan.induct)
  case (1 u i s)
  show ?case
  proof (cases s)
    case (Cons c cs)
    show ?thesis
    proof (cases "scan_one u c cs")
      case (Inl e')
      then show ?thesis using 1(3) scan_one_error [OF Inl] by (subst (asm) scan.simps) (simp add: Cons)
    next
      case (Inr turn)
      have le: "length (turn_rest turn) \<le> length s" using ends_with_length [OF scan_one_ends [OF Inr]] by (simp add: Cons)
      show ?thesis
      proof (cases turn)
        case (Skip rest)
        then have "scan u (i + (length s - length rest)) rest = Inl e" using 1(3) Inr by (subst (asm) scan.simps) (simp add: Cons)
        then show ?thesis using 1(1) [OF Cons Inr Skip] le by (auto simp: Skip turn_rest_def)
      next
        case (Emit ty v rest)
        then have "scan u (i + (length s - length rest)) rest = Inl e"
          using 1(3) Inr by (subst (asm) scan.simps) (simp add: Cons bind_res_eq_Inl)
        then show ?thesis using 1(2) [OF Cons Inr Emit] le by (auto simp: Emit turn_rest_def)
      qed
    qed
  qed (use 1(3) in \<open>simp add: scan.simps [of u i]\<close>)
qed

text \<open>A digit without a decimal value, a superscript two for one, ends the scan with a \<^verbatim>\<open>ValueError\<close>.\<close>

lemma tokenize_undecimal_digit:
  assumes "is_digit u c" and "decimal u c = None" and "c \<noteq> 46" and "c \<noteq> 39" and "c \<noteq> 45" and "c \<noteq> 47" and "\<not> is_space c"
  shows "tokenize u [c] = Inl ValueError"
  using assms by (simp add: tokenize_def scan.simps [of u _ "_ # _"] scan_one_def number_starts_def scan_number_def int_of_lexeme_def)

section \<open>Properties\<close>

definition ascii_tables :: char_tables where
  "ascii_tables = \<lparr>is_digit = (\<lambda>c. 48 \<le> c \<and> c \<le> 57), is_alpha = (\<lambda>c. 65 \<le> c \<and> c \<le> 90 \<or> 97 \<le> c \<and> c \<le> 122),
     is_alnum = (\<lambda>c. 48 \<le> c \<and> c \<le> 57 \<or> 65 \<le> c \<and> c \<le> 90 \<or> 97 \<le> c \<and> c \<le> 122),
     casefold = map (\<lambda>c. if 65 \<le> c \<and> c \<le> 90 then c + 32 else c),
     decimal = (\<lambda>c. if 48 \<le> c \<and> c \<le> 57 then Some (c - 48) else None)\<rparr>"

text \<open>
  C30. The tokens of a text lay it out with nothing lost: their lexemes stand in it in order at their positions, only
  white space and comments lie between them, each one's kind and value are those of its lexeme, and the end comes last.
\<close>

theorem tokenize_lossless:
  assumes "tokenize u sql = Inr ts"
  shows "laid_out u 0 ts sql"
  using scan_laid_out assms unfolding tokenize_def .

lemma tokenize_example:
  "tokenize ascii_tables (ustr_of ''Set -- s'' @ [10, 63, 52, 50]) =
     Inr [mk_token T_SET (ustr_of ''Set'') VNull 0, mk_token T_PARAMETER [63] VNull 9, mk_token T_INTEGER [52, 50] (VInt 42) 10,
       mk_token T_EOF [] VNull 12]"
  by (simp add: tokenize_def scan.simps [of _ _ "_ # _"] scan.simps [of _ _ "[]"] scan_one_def ustr_of_def ascii_tables_def is_space_def number_starts_def
      word_char_def keyword_type_def KEYWORDS_def operators_eval scan_number_def int_of_lexeme_def)

theorem tokenize_lossless_witness:
  "laid_out ascii_tables 0 [mk_token T_SET (ustr_of ''Set'') VNull 0, mk_token T_PARAMETER [63] VNull 9,
     mk_token T_INTEGER [52, 50] (VInt 42) 10, mk_token T_EOF [] VNull 12] (ustr_of ''Set -- s'' @ [10, 63, 52, 50])"
  by (rule tokenize_lossless [OF tokenize_example])

text \<open>
  C31. Quoting is safe: whatever the text, its quoted form is scanned as one string token of that very value and nothing
  else.
\<close>

theorem string_literal_roundtrip:
  "tokenize u (quote_text v) =
     Inr [mk_token T_STRING (quote_text v) (VText v) 0, mk_token T_EOF [] VNull (length (quote_text v))]"
proof -
  have q: "quote_text v = 39 # tl (quote_text v)" by (simp add: quote_text_def)
  have "scan_one u 39 (tl (quote_text v)) = Inr (Emit T_STRING (VText v) [])"
    using quote_scan_string [of "[]" v] by (simp add: scan_one_def is_space_def)
  then show ?thesis unfolding tokenize_def by (subst scan.simps, subst (2) q) (simp add: scan.simps [of _ _ "[]"])
qed

text \<open>
  Scanning a text of at most 4300 characters, where every digit has a decimal value, ends with tokens or with
  a \<^verbatim>\<open>SQLSyntaxError\<close>.
\<close>

theorem tokenize_raises_syntax_errors_only:
  assumes "decimal_digits u" and "length sql \<le> 4300"
  shows "tokenize u sql = Inl SQLSyntaxError \<or> (\<exists>ts. tokenize u sql = Inr ts)"
  using scan_error [of u 0 sql] assms by (cases "tokenize u sql") (auto simp: tokenize_def)

theorem tokenize_raises_syntax_errors_only_witness:
  "tokenize ascii_tables (ustr_of ''a!b'') = Inl SQLSyntaxError \<or> (\<exists>ts. tokenize ascii_tables (ustr_of ''a!b'') = Inr ts)"
  by (rule tokenize_raises_syntax_errors_only) (simp_all add: ascii_tables_def decimal_digits_def ustr_of_def)

end
