(* ===== verification/Ast.thy ===== *)
theory Ast
  imports Tokenizer
begin

text \<open>
  The syntax trees, \<^verbatim>\<open>src/src/quilldb/sql/ast.py\<close>: one constructor per node class, a tuple is a list, an operator
  is its spelling.
\<close>

datatype data_type = INTEGER_T | REAL_T | TEXT_T | BLOB_T

record column_def =
  cd_name :: ustr
  cd_data_type :: data_type

datatype expression =
    Literal pyval
  | Column ustr "ustr option"
  | Parameter nat
  | UnaryOp string expression
  | BinaryOp expression string expression
  | IsNull expression bool
  | FunctionCall ustr "expression list" bool

record order_key =
  ok_expression :: expression
  ok_descending :: bool

record table_ref =
  tr_name :: ustr
  tr_alias :: "ustr option"

record join_clause =
  jc_join_type :: string
  jc_table :: table_ref
  jc_on :: "expression option"

record select_stmt =
  se_expressions :: "expression list option"
  se_table :: table_ref
  se_joins :: "join_clause list"
  se_where :: "expression option"
  se_group_by :: "expression list"
  se_having :: "expression option"
  se_distinct :: bool
  se_order_by :: "order_key list"
  se_limit :: "expression option"
  se_offset :: "expression option"

record assignment =
  as_column :: ustr
  as_value :: expression

datatype statement =
    CreateTable ustr "column_def list"
  | Insert ustr "expression list"
  | Select select_stmt
  | Delete ustr "expression option"
  | Update ustr "assignment list" "expression option"
  | CreateIndex ustr ustr "ustr list" bool
  | Analyze "ustr option"
  | Explain select_stmt bool
  | Begin bool
  | Commit
  | Rollback

text \<open>The parameters of an expression, from left to right.\<close>

fun parameters :: "expression \<Rightarrow> nat list" where
  "parameters (Parameter i) = [i]"
| "parameters (UnaryOp oper e) = parameters e"
| "parameters (BinaryOp l oper r) = parameters l @ parameters r"
| "parameters (IsNull e negated) = parameters e"
| "parameters (FunctionCall f es star) = concat (map parameters es)"
| "parameters e = []"

end
