(* ===== verification/Parser.thy ===== *)
theory Parser
  imports Ast Effects
begin

text \<open>
  The parser, \<^verbatim>\<open>src/src/quilldb/sql/parser.py\<close>: recursive descent for statements, precedence climbing for
  expressions. The state is the tokens from \<open>current\<close> on and the number of parameters met. The methods
  call each other in a cycle, so they take fuel; \<open>None\<close> is running out of it, which \<open>parse\<close> never does.
\<close>

section \<open>Definitions\<close>

record parser =
  p_rest :: "token list"
  p_parameters :: nat

type_synonym 'a parse = "(parser, 'a) pop"

definition ok :: "'a \<Rightarrow> 'a parse" where
  "ok x s = Some (Inr x, s)"

definition syntax_error :: "'a parse" where
  "syntax_error s = Some (Inl SQLSyntaxError, s)"

definition out_of_fuel :: "'a parse" where
  "out_of_fuel s = None"

definition peek :: "token parse" where
  "peek s = (case p_rest s of [] \<Rightarrow> Some (Inl IndexError, s) | t # ts \<Rightarrow> Some (Inr t, s))"

definition advance :: "token parse" where
  "advance s = (case p_rest s of [] \<Rightarrow> Some (Inl IndexError, s) | t # ts \<Rightarrow> Some (Inr t, s\<lparr>p_rest := ts\<rparr>))"

definition expect :: "token_type \<Rightarrow> token parse" where
  "expect ty = bind_pop peek (\<lambda>token. if tok_type token \<noteq> ty then syntax_error else advance)"

text \<open>\<^verbatim>\<open>if self._peek().type is ty: self._advance(); ...\<close>, the shape of every optional part.\<close>

definition if_next :: "token_type \<Rightarrow> 'a parse \<Rightarrow> 'a parse \<Rightarrow> 'a parse" where
  "if_next ty yes no = bind_pop peek (\<lambda>token. if tok_type token = ty then bind_pop advance (\<lambda>_. yes) else no)"

text \<open>\<^verbatim>\<open>items = [item()]; while self._peek().type is COMMA: self._advance(); items.append(item())\<close>.\<close>

fun comma_list :: "nat \<Rightarrow> (nat \<Rightarrow> 'a parse) \<Rightarrow> 'a list parse" where
  "comma_list 0 item = out_of_fuel"
| "comma_list (Suc n) item =
     bind_pop (item n) (\<lambda>x. if_next T_COMMA (bind_pop (comma_list n item) (\<lambda>xs. ok (x # xs))) (ok [x]))"

lemma comma_list_cong [fundef_cong]:
  "n = n' \<Longrightarrow> (\<And>k. k < n' \<Longrightarrow> item k = item' k) \<Longrightarrow> comma_list n item = comma_list n' item'"
proof (induction n arbitrary: n')
  case (Suc n)
  then obtain k where "n' = Suc k" by (cases n') auto
  then show ?case using Suc by simp
qed (use comma_list.simps(1) in metis)

definition COMPARISON_BINDING_POWER :: nat where "COMPARISON_BINDING_POWER = 30"
definition NOT_BINDING_POWER :: nat where "NOT_BINDING_POWER = 25"
definition UNARY_ARITHMETIC_BINDING_POWER :: nat where "UNARY_ARITHMETIC_BINDING_POWER = 60"

fun COLUMN_TYPES :: "token_type \<Rightarrow> data_type option" where
  "COLUMN_TYPES T_INTEGER_TYPE = Some INTEGER_T"
| "COLUMN_TYPES T_REAL_TYPE = Some REAL_T"
| "COLUMN_TYPES T_TEXT_TYPE = Some TEXT_T"
| "COLUMN_TYPES T_BLOB_TYPE = Some BLOB_T"
| "COLUMN_TYPES _ = None"

fun BINARY_OPERATORS :: "token_type \<Rightarrow> (nat \<times> string) option" where
  "BINARY_OPERATORS T_OR = Some (10, ''OR'')"
| "BINARY_OPERATORS T_AND = Some (20, ''AND'')"
| "BINARY_OPERATORS T_EQ = Some (COMPARISON_BINDING_POWER, ''='')"
| "BINARY_OPERATORS T_NE = Some (COMPARISON_BINDING_POWER, ''!='')"
| "BINARY_OPERATORS T_LT = Some (COMPARISON_BINDING_POWER, ''<'')"
| "BINARY_OPERATORS T_LE = Some (COMPARISON_BINDING_POWER, ''<='')"
| "BINARY_OPERATORS T_GT = Some (COMPARISON_BINDING_POWER, ''>'')"
| "BINARY_OPERATORS T_GE = Some (COMPARISON_BINDING_POWER, ''>='')"
| "BINARY_OPERATORS T_LIKE = Some (COMPARISON_BINDING_POWER, ''LIKE'')"
| "BINARY_OPERATORS T_PLUS = Some (40, ''+'')"
| "BINARY_OPERATORS T_MINUS = Some (40, ''-'')"
| "BINARY_OPERATORS T_STAR = Some (50, ''*'')"
| "BINARY_OPERATORS T_SLASH = Some (50, ''/'')"
| "BINARY_OPERATORS T_PERCENT = Some (50, ''%'')"
| "BINARY_OPERATORS _ = None"

fun UNARY_ARITHMETIC_OPERATORS :: "token_type \<Rightarrow> string option" where
  "UNARY_ARITHMETIC_OPERATORS T_PLUS = Some ''+''"
| "UNARY_ARITHMETIC_OPERATORS T_MINUS = Some ''-''"
| "UNARY_ARITHMETIC_OPERATORS _ = None"

text \<open>The expression grammar. \<open>parse_operators\<close> is the loop of \<^verbatim>\<open>_expression\<close>.\<close>

fun parse_expression :: "nat \<Rightarrow> nat \<Rightarrow> expression parse"
  and parse_operators :: "nat \<Rightarrow> nat \<Rightarrow> expression \<Rightarrow> bool \<Rightarrow> expression parse"
  and parse_prefix :: "nat \<Rightarrow> expression parse"
  and parse_atom :: "nat \<Rightarrow> expression parse"
  and parse_function_call :: "nat \<Rightarrow> ustr \<Rightarrow> expression parse"
where
  "parse_expression 0 m = out_of_fuel"
| "parse_expression (Suc n) m = bind_pop (parse_prefix n) (\<lambda>left. parse_operators n m left False)"
| "parse_operators 0 m left used_comparison = out_of_fuel"
| "parse_operators (Suc n) m left used_comparison = bind_pop peek (\<lambda>token.
     if tok_type token = T_IS
     then if COMPARISON_BINDING_POWER < m \<or> used_comparison then ok left
       else bind_pop advance (\<lambda>_. bind_pop (if_next T_NOT (ok True) (ok False)) (\<lambda>negated. bind_pop (expect T_NULL) (\<lambda>_.
         parse_operators n m (IsNull left negated) True)))
     else case BINARY_OPERATORS (tok_type token) of
       None \<Rightarrow> ok left
     | Some (binding_power, operator_lexeme) \<Rightarrow>
         if binding_power < m then ok left
         else if binding_power = COMPARISON_BINDING_POWER \<and> used_comparison then ok left
         else bind_pop advance (\<lambda>_. bind_pop (parse_expression n (binding_power + 1)) (\<lambda>right.
           parse_operators n m (BinaryOp left operator_lexeme right)
             (if binding_power = COMPARISON_BINDING_POWER then True else used_comparison))))"
| "parse_prefix 0 = out_of_fuel"
| "parse_prefix (Suc n) = bind_pop peek (\<lambda>token.
     if tok_type token = T_NOT
     then bind_pop advance (\<lambda>_. bind_pop (parse_expression n NOT_BINDING_POWER) (\<lambda>operand. ok (UnaryOp ''NOT'' operand)))
     else case UNARY_ARITHMETIC_OPERATORS (tok_type token) of
       Some operator \<Rightarrow> bind_pop advance (\<lambda>_. bind_pop (parse_expression n UNARY_ARITHMETIC_BINDING_POWER) (\<lambda>operand.
         ok (UnaryOp operator operand)))
     | None \<Rightarrow> parse_atom n)"
| "parse_atom 0 = out_of_fuel"
| "parse_atom (Suc n) = bind_pop peek (\<lambda>token.
     if tok_type token \<in> {T_INTEGER, T_REAL, T_STRING} then bind_pop advance (\<lambda>_. ok (Literal (tok_value token)))
     else if tok_type token = T_NULL then bind_pop advance (\<lambda>_. ok (Literal VNull))
     else if tok_type token = T_IDENTIFIER
     then bind_pop advance (\<lambda>_. bind_pop peek (\<lambda>next_token.
       if tok_type next_token = T_LEFT_PAREN then parse_function_call n (tok_lexeme token)
       else if tok_type next_token = T_DOT
       then bind_pop advance (\<lambda>_. bind_pop (expect T_IDENTIFIER) (\<lambda>column. ok (Column (tok_lexeme column) (Some (tok_lexeme token)))))
       else ok (Column (tok_lexeme token) None)))
     else if tok_type token = T_PARAMETER
     then bind_pop advance (\<lambda>_ s. Some (Inr (Parameter (p_parameters s)), s\<lparr>p_parameters := p_parameters s + 1\<rparr>))
     else if tok_type token = T_LEFT_PAREN
     then bind_pop advance (\<lambda>_. bind_pop (parse_expression n 0) (\<lambda>e. bind_pop (expect T_RIGHT_PAREN) (\<lambda>_. ok e)))
     else syntax_error)"
| "parse_function_call 0 name = out_of_fuel"
| "parse_function_call (Suc n) name = bind_pop (expect T_LEFT_PAREN) (\<lambda>_.
     if_next T_STAR (bind_pop (expect T_RIGHT_PAREN) (\<lambda>_. ok (FunctionCall name [] True)))
       (bind_pop (comma_list n (\<lambda>k. parse_expression k 0)) (\<lambda>args.
          bind_pop (expect T_RIGHT_PAREN) (\<lambda>_. ok (FunctionCall name args False)))))"

text \<open>Statements. \<open>expect_name\<close> is \<^verbatim>\<open>self._expect(TokenType.IDENTIFIER, ...).lexeme\<close>.\<close>

definition expect_name :: "ustr parse" where
  "expect_name = bind_pop (expect T_IDENTIFIER) (\<lambda>token. ok (tok_lexeme token))"

definition expression_list :: "nat \<Rightarrow> expression list parse" where
  "expression_list n = comma_list n (\<lambda>k. parse_expression k 0)"

fun parse_column_defs :: "nat \<Rightarrow> char_tables \<Rightarrow> ustr list \<Rightarrow> column_def list parse" where
  "parse_column_defs 0 u seen_names = out_of_fuel"
| "parse_column_defs (Suc n) u seen_names =
     bind_pop expect_name (\<lambda>name.
       if casefold u name \<in> set seen_names then syntax_error
       else bind_pop advance (\<lambda>type_token.
         case COLUMN_TYPES (tok_type type_token) of
           None \<Rightarrow> syntax_error
         | Some ty \<Rightarrow> if_next T_COMMA
             (bind_pop (parse_column_defs n u (casefold u name # seen_names)) (\<lambda>cs. ok (\<lparr>cd_name = name, cd_data_type = ty\<rparr> # cs)))
             (ok [\<lparr>cd_name = name, cd_data_type = ty\<rparr>])))"

definition parse_create_table :: "nat \<Rightarrow> char_tables \<Rightarrow> statement parse" where
  "parse_create_table n u =
     bind_pop (expect T_TABLE) (\<lambda>_. bind_pop expect_name (\<lambda>name. bind_pop (expect T_LEFT_PAREN) (\<lambda>_.
     bind_pop (parse_column_defs n u []) (\<lambda>columns. bind_pop (expect T_RIGHT_PAREN) (\<lambda>_. ok (CreateTable name columns))))))"

definition parse_create_index :: "nat \<Rightarrow> bool \<Rightarrow> statement parse" where
  "parse_create_index n unique =
     bind_pop (expect T_INDEX) (\<lambda>_. bind_pop expect_name (\<lambda>name. bind_pop (expect T_ON) (\<lambda>_. bind_pop expect_name (\<lambda>table.
     bind_pop (expect T_LEFT_PAREN) (\<lambda>_. bind_pop (comma_list n (\<lambda>_. expect_name)) (\<lambda>columns.
     bind_pop (expect T_RIGHT_PAREN) (\<lambda>_. ok (CreateIndex name table columns unique))))))))"

definition parse_create :: "nat \<Rightarrow> char_tables \<Rightarrow> statement parse" where
  "parse_create n u =
     bind_pop (expect T_CREATE) (\<lambda>_. bind_pop (if_next T_UNIQUE (ok True) (ok False)) (\<lambda>unique. bind_pop peek (\<lambda>token.
       if unique \<or> tok_type token = T_INDEX then parse_create_index n unique else parse_create_table n u)))"

definition parse_insert :: "nat \<Rightarrow> statement parse" where
  "parse_insert n =
     bind_pop (expect T_INSERT) (\<lambda>_. bind_pop (expect T_INTO) (\<lambda>_. bind_pop expect_name (\<lambda>table. bind_pop (expect T_VALUES) (\<lambda>_.
     bind_pop (expect T_LEFT_PAREN) (\<lambda>_. bind_pop (expression_list n) (\<lambda>vs. bind_pop (expect T_RIGHT_PAREN) (\<lambda>_.
     ok (Insert table vs))))))))"

definition optional_expression :: "nat \<Rightarrow> token_type \<Rightarrow> expression option parse" where
  "optional_expression n ty = if_next ty (bind_pop (parse_expression n 0) (\<lambda>e. ok (Some e))) (ok None)"

definition parse_order_key :: "nat \<Rightarrow> order_key parse" where
  "parse_order_key n =
     bind_pop (parse_expression n 0) (\<lambda>e.
       bind_pop (if_next T_ASC (ok False) (if_next T_DESC (ok True) (ok False))) (\<lambda>descending.
       ok \<lparr>ok_expression = e, ok_descending = descending\<rparr>))"

definition parse_table_ref :: "table_ref parse" where
  "parse_table_ref =
     bind_pop expect_name (\<lambda>name.
       bind_pop (if_next T_AS (bind_pop expect_name (\<lambda>a. ok (Some a)))
         (bind_pop peek (\<lambda>token. if tok_type token = T_IDENTIFIER then bind_pop advance (\<lambda>t. ok (Some (tok_lexeme t))) else ok None)))
       (\<lambda>alias. ok \<lparr>tr_name = name, tr_alias = alias\<rparr>))"

definition parse_join_type :: "string option parse" where
  "parse_join_type =
     if_next T_JOIN (ok (Some ''INNER''))
    (if_next T_INNER (bind_pop (expect T_JOIN) (\<lambda>_. ok (Some ''INNER'')))
    (if_next T_LEFT (bind_pop (if_next T_OUTER (ok ()) (ok ())) (\<lambda>_. bind_pop (expect T_JOIN) (\<lambda>_. ok (Some ''LEFT''))))
    (ok None)))"

fun parse_joins :: "nat \<Rightarrow> join_clause list parse" where
  "parse_joins 0 = out_of_fuel"
| "parse_joins (Suc n) =
     if_next T_COMMA
       (bind_pop parse_table_ref (\<lambda>table. bind_pop (parse_joins n) (\<lambda>js.
          ok (\<lparr>jc_join_type = ''INNER'', jc_table = table, jc_on = None\<rparr> # js))))
       (bind_pop parse_join_type (\<lambda>join_type. case join_type of
          None \<Rightarrow> ok []
        | Some jt \<Rightarrow>
            bind_pop parse_table_ref (\<lambda>table. bind_pop (expect T_ON) (\<lambda>_. bind_pop (parse_expression n 0) (\<lambda>cond.
            bind_pop (parse_joins n) (\<lambda>js. ok (\<lparr>jc_join_type = jt, jc_table = table, jc_on = Some cond\<rparr> # js)))))))"

definition parse_from_clause :: "nat \<Rightarrow> (table_ref \<times> join_clause list) parse" where
  "parse_from_clause n = bind_pop parse_table_ref (\<lambda>first. bind_pop (parse_joins n) (\<lambda>joins. ok (first, joins)))"

definition parse_select :: "nat \<Rightarrow> select_stmt parse" where
  "parse_select n =
     bind_pop (expect T_SELECT) (\<lambda>_.
     bind_pop (if_next T_DISTINCT (ok True) (ok False)) (\<lambda>distinct.
     bind_pop (if_next T_STAR (ok None) (bind_pop (expression_list n) (\<lambda>es. ok (Some es)))) (\<lambda>expressions.
     bind_pop (expect T_FROM) (\<lambda>_.
     bind_pop (parse_from_clause n) (\<lambda>(table, joins).
     bind_pop (optional_expression n T_WHERE) (\<lambda>where_clause.
     bind_pop (if_next T_GROUP (bind_pop (expect T_BY) (\<lambda>_. expression_list n)) (ok [])) (\<lambda>group_by.
     bind_pop (optional_expression n T_HAVING) (\<lambda>having.
     bind_pop (if_next T_ORDER (bind_pop (expect T_BY) (\<lambda>_. comma_list n parse_order_key)) (ok [])) (\<lambda>order_by.
     bind_pop (optional_expression n T_LIMIT) (\<lambda>limit.
     bind_pop (optional_expression n T_OFFSET) (\<lambda>offset.
       ok \<lparr>se_expressions = expressions, se_table = table, se_joins = joins, se_where = where_clause, se_group_by = group_by,
           se_having = having, se_distinct = distinct, se_order_by = order_by, se_limit = limit, se_offset = offset\<rparr>)))))))))))"

definition parse_delete :: "nat \<Rightarrow> statement parse" where
  "parse_delete n =
     bind_pop (expect T_DELETE) (\<lambda>_. bind_pop (expect T_FROM) (\<lambda>_. bind_pop expect_name (\<lambda>table.
     bind_pop (optional_expression n T_WHERE) (\<lambda>where_clause. ok (Delete table where_clause)))))"

definition parse_assignment :: "nat \<Rightarrow> assignment parse" where
  "parse_assignment n =
     bind_pop expect_name (\<lambda>column. bind_pop (expect T_EQ) (\<lambda>_. bind_pop (parse_expression n 0) (\<lambda>v.
     ok \<lparr>as_column = column, as_value = v\<rparr>)))"

definition parse_update :: "nat \<Rightarrow> statement parse" where
  "parse_update n =
     bind_pop (expect T_UPDATE) (\<lambda>_. bind_pop expect_name (\<lambda>table. bind_pop (expect T_SET) (\<lambda>_.
     bind_pop (comma_list n parse_assignment) (\<lambda>assignments. bind_pop (optional_expression n T_WHERE) (\<lambda>where_clause.
     ok (Update table assignments where_clause))))))"

definition parse_analyze :: "statement parse" where
  "parse_analyze =
     bind_pop (expect T_ANALYZE) (\<lambda>_. bind_pop peek (\<lambda>token.
       if tok_type token = T_IDENTIFIER then bind_pop advance (\<lambda>t. ok (Analyze (Some (tok_lexeme t)))) else ok (Analyze None)))"

definition parse_explain :: "nat \<Rightarrow> statement parse" where
  "parse_explain n =
     bind_pop (expect T_EXPLAIN) (\<lambda>_. bind_pop (if_next T_ANALYZE (ok True) (ok False)) (\<lambda>analyze.
     bind_pop (parse_select n) (\<lambda>statement. ok (Explain statement analyze))))"

definition parse_begin :: "char_tables \<Rightarrow> statement parse" where
  "parse_begin u =
     bind_pop (expect T_BEGIN) (\<lambda>_. bind_pop peek (\<lambda>token.
       if tok_type token = T_IDENTIFIER \<and> casefold u (tok_lexeme token) = ustr_of ''immediate''
       then bind_pop advance (\<lambda>_. ok (Begin True)) else ok (Begin False)))"

definition parse_commit :: "statement parse" where
  "parse_commit = bind_pop (expect T_COMMIT) (\<lambda>_. ok Commit)"

definition parse_rollback :: "statement parse" where
  "parse_rollback = bind_pop (expect T_ROLLBACK) (\<lambda>_. ok Rollback)"

definition statement_body :: "nat \<Rightarrow> char_tables \<Rightarrow> token_type \<Rightarrow> statement parse" where
  "statement_body n u ty =
     (if ty = T_CREATE then parse_create n u
      else if ty = T_INSERT then parse_insert n
      else if ty = T_SELECT then bind_pop (parse_select n) (\<lambda>select. ok (Select select))
      else if ty = T_DELETE then parse_delete n
      else if ty = T_UPDATE then parse_update n
      else if ty = T_ANALYZE then parse_analyze
      else if ty = T_EXPLAIN then parse_explain n
      else if ty = T_BEGIN then parse_begin u
      else if ty = T_COMMIT then parse_commit
      else if ty = T_ROLLBACK then parse_rollback
      else syntax_error)"

definition parse_statement :: "nat \<Rightarrow> char_tables \<Rightarrow> statement parse" where
  "parse_statement n u =
     bind_pop peek (\<lambda>token. bind_pop (statement_body n u (tok_type token)) (\<lambda>statement.
     bind_pop (if_next T_SEMICOLON (ok ()) (ok ())) (\<lambda>_. bind_pop (expect T_EOF) (\<lambda>_. ok statement))))"

text \<open>\<^verbatim>\<open>Parser(tokens).parse_statement()\<close>, and \<^verbatim>\<open>parse(sql)\<close>, with fuel for the tokens there are.\<close>

definition parse_tokens :: "char_tables \<Rightarrow> token list \<Rightarrow> statement res option" where
  "parse_tokens u ts = map_option fst (parse_statement (4 * length ts + 8) u \<lparr>p_rest = ts, p_parameters = 0\<rparr>)"

definition parse :: "char_tables \<Rightarrow> ustr \<Rightarrow> statement res option" where
  "parse u sql = (case tokenize u sql of Inl e \<Rightarrow> Some (Inl e) | Inr ts \<Rightarrow> parse_tokens u ts)"

end
