(* ===== verification/ParserTotal.thy ===== *)
theory ParserTotal
  imports Parser
begin

text \<open>
  The parser returns a tree or raises \<^verbatim>\<open>SQLSyntaxError\<close>: it never indexes past the tokens, and the fuel for the
  tokens it has is enough.
\<close>

section \<open>Running a parser to a postcondition\<close>

definition wp :: "'a parse \<Rightarrow> ('a \<Rightarrow> parser \<Rightarrow> bool) \<Rightarrow> parser \<Rightarrow> bool" where
  "wp m Q s \<longleftrightarrow> (case m s of None \<Rightarrow> False | Some (Inl e, s') \<Rightarrow> e = SQLSyntaxError | Some (Inr x, s') \<Rightarrow> Q x s')"

text \<open>The end token is ahead.\<close>

definition ready :: "parser \<Rightarrow> bool" where
  "ready s \<longleftrightarrow> p_rest s \<noteq> [] \<and> tok_type (last (p_rest s)) = T_EOF"

abbreviation left_over :: "parser \<Rightarrow> nat" where
  "left_over s \<equiv> length (p_rest s)"

definition keeps :: "parser \<Rightarrow> parser \<Rightarrow> bool" where
  "keeps s s' \<longleftrightarrow> ready s' \<and> left_over s' \<le> left_over s"

definition eats :: "parser \<Rightarrow> parser \<Rightarrow> bool" where
  "eats s s' \<longleftrightarrow> ready s' \<and> left_over s' < left_over s"

lemma wp_simps [simp]:
  "wp (ok x) Q = Q x"
  "wp syntax_error Q = (\<lambda>s. True)"
  "wp (bind_pop m f) Q = wp m (\<lambda>x. wp (f x) Q)"
  by (auto simp: fun_eq_iff wp_def ok_def syntax_error_def bind_pop_def split: option.splits prod.splits sum.splits)

lemma wp_mono: "wp m Q s \<Longrightarrow> (\<And>x s'. Q x s' \<Longrightarrow> Q' x s') \<Longrightarrow> wp m Q' s"
  by (auto simp: wp_def split: option.splits prod.splits sum.splits)

lemma wp_peek: "ready s \<Longrightarrow> wp peek Q s = Q (hd (p_rest s)) s"
  by (cases "p_rest s") (simp_all add: ready_def wp_def peek_def)

lemma wp_advance:
  assumes "ready s" and "tok_type (hd (p_rest s)) \<noteq> T_EOF" and "\<And>t s'. eats s s' \<Longrightarrow> Q t s'"
  shows "wp advance Q s"
proof (cases "p_rest s")
  case (Cons t ts)
  then have "ts \<noteq> []" using assms(1,2) by (auto simp: ready_def)
  then have "eats s (s\<lparr>p_rest := ts\<rparr>)" using assms(1) by (simp add: Cons eats_def ready_def)
  from assms(3) [OF this] show ?thesis by (simp add: wp_def advance_def Cons)
qed (use assms(1) in \<open>simp add: ready_def\<close>)

lemma wp_expect:
  assumes "ready s" and "ty \<noteq> T_EOF" and "\<And>t s'. eats s s' \<Longrightarrow> Q t s'"
  shows "wp (expect ty) Q s"
  using wp_advance [OF assms(1) _ assms(3)] assms(2) by (auto simp: expect_def wp_peek assms(1))

lemma wp_if_next:
  assumes "ready s" and "ty \<noteq> T_EOF" and "\<And>s'. eats s s' \<Longrightarrow> wp yes Q s'" and "wp no Q s"
  shows "wp (if_next ty yes no) Q s"
  using wp_advance [OF assms(1)] assms(2-4) by (auto simp: if_next_def wp_peek assms(1))

lemma eats_ready [simp]: "eats s s' \<Longrightarrow> ready s'" "keeps s s' \<Longrightarrow> ready s'"
  by (simp_all add: eats_def keeps_def)

lemma eats_trans:
  "eats s s1 \<Longrightarrow> eats s1 s2 \<Longrightarrow> eats s s2"
  "eats s s1 \<Longrightarrow> keeps s1 s2 \<Longrightarrow> eats s s2"
  "keeps s s1 \<Longrightarrow> eats s1 s2 \<Longrightarrow> eats s s2"
  "eats s s1 \<Longrightarrow> keeps s1 s2 \<Longrightarrow> keeps s s2"
  "keeps s s1 \<Longrightarrow> keeps s1 s2 \<Longrightarrow> keeps s s2"
  "eats s s1 \<Longrightarrow> keeps s s1"
  unfolding eats_def keeps_def by linarith+

lemma keeps_refl: "ready s \<Longrightarrow> keeps s s"
  by (simp add: keeps_def)

lemma eats_fuel: "eats s s1 \<Longrightarrow> left_over s1 + 1 \<le> left_over s"
  by (simp add: eats_def)

lemma wp_comma_list:
  assumes item: "\<And>k s. k < n \<Longrightarrow> ready s \<Longrightarrow> 4 * left_over s + c \<le> k \<Longrightarrow> wp (item k) (\<lambda>_. eats s) s"
    and "ready s" and "4 * left_over s + c + 1 \<le> n"
  shows "wp (comma_list n item) (\<lambda>_. eats s) s"
  using assms
proof (induction n arbitrary: s)
  case (Suc n)
  have "wp (if_next T_COMMA (bind_pop (comma_list n item) (\<lambda>xs. ok (x # xs))) (ok [x])) (\<lambda>_. eats s) s1" if s1: "eats s s1" for x s1
  proof (rule wp_if_next)
    fix s2 assume s2: "eats s1 s2"
    have "wp (comma_list n item) (\<lambda>_. eats s2) s2"
    proof (rule Suc.IH)
      show "wp (item k) (\<lambda>_. eats s') s'" if "k < n" "ready s'" "4 * left_over s' + c \<le> k" for k s'
        using Suc.prems(1) that by simp
      show "4 * left_over s2 + c + 1 \<le> n" using eats_fuel [OF s1] eats_fuel [OF s2] Suc.prems(3) by simp
    qed (use s2 in simp)
    then show "wp (bind_pop (comma_list n item) (\<lambda>xs. ok (x # xs))) (\<lambda>_. eats s) s2"
      unfolding wp_simps by (rule wp_mono) (rule eats_trans(1) [OF s1 eats_trans(1) [OF s2]])
  qed (use s1 in auto)
  moreover have "wp (item n) (\<lambda>_. eats s) s" using Suc.prems by simp
  ultimately show ?case by (auto elim!: wp_mono)
qed simp

section \<open>Expressions\<close>

lemma operator_not_end:
  "BINARY_OPERATORS ty = Some x \<Longrightarrow> ty \<noteq> T_EOF"
  "UNARY_ARITHMETIC_OPERATORS ty = Some y \<Longrightarrow> ty \<noteq> T_EOF"
  by auto

definition terminates_on :: "nat \<Rightarrow> bool" where
  "terminates_on n \<longleftrightarrow>
     (\<forall>m s. ready s \<longrightarrow> 4 * left_over s + 4 \<le> n \<longrightarrow> wp (parse_expression n m) (\<lambda>_. eats s) s)
   \<and> (\<forall>m l used s. ready s \<longrightarrow> 4 * left_over s + 1 \<le> n \<longrightarrow> wp (parse_operators n m l used) (\<lambda>_. keeps s) s)
   \<and> (\<forall>s. ready s \<longrightarrow> 4 * left_over s + 3 \<le> n \<longrightarrow> wp (parse_prefix n) (\<lambda>_. eats s) s)
   \<and> (\<forall>s. ready s \<longrightarrow> 4 * left_over s + 2 \<le> n \<longrightarrow> wp (parse_atom n) (\<lambda>_. eats s) s)
   \<and> (\<forall>name s. ready s \<longrightarrow> 4 * left_over s + 2 \<le> n \<longrightarrow> wp (parse_function_call n name) (\<lambda>_. eats s) s)"

lemma terminates_onD:
  assumes "terminates_on n" and "ready s"
  shows "4 * left_over s + 4 \<le> n \<Longrightarrow> wp (parse_expression n m) (\<lambda>_. eats s) s"
    and "4 * left_over s + 1 \<le> n \<Longrightarrow> wp (parse_operators n m l used) (\<lambda>_. keeps s) s"
    and "4 * left_over s + 3 \<le> n \<Longrightarrow> wp (parse_prefix n) (\<lambda>_. eats s) s"
    and "4 * left_over s + 2 \<le> n \<Longrightarrow> wp (parse_atom n) (\<lambda>_. eats s) s"
    and "4 * left_over s + 2 \<le> n \<Longrightarrow> wp (parse_function_call n name) (\<lambda>_. eats s) s"
  using assms unfolding terminates_on_def by blast+

text \<open>A call after a token was eaten has the fuel it needs.\<close>

lemma after_eating:
  assumes "terminates_on n" and "4 * left_over s + 1 \<le> Suc n" and "eats s s1"
  shows expression_after: "wp (parse_expression n m) (\<lambda>_. eats s) s1"
    and operators_after: "wp (parse_operators n m l used) (\<lambda>_. keeps s) s1" "wp (parse_operators n m l used) (\<lambda>_. eats s) s1"
  using assms(3) eats_fuel [OF assms(3)] assms(2)
  by (auto intro: wp_mono [OF terminates_onD(1) [OF assms(1)]] wp_mono [OF terminates_onD(2) [OF assms(1)]] eats_trans)

lemma call_after:
  assumes "terminates_on n" and "4 * left_over s + 2 \<le> Suc n" and "eats s s1"
  shows "wp (parse_function_call n name) (\<lambda>_. eats s) s1"
  using assms(3) eats_fuel [OF assms(3)] assms(2)
  by (auto intro: wp_mono [OF terminates_onD(5) [OF assms(1)]] eats_trans)

lemma expect_after: "eats s s1 \<Longrightarrow> ty \<noteq> T_EOF \<Longrightarrow> wp (expect ty) (\<lambda>_. eats s) s1"
  by (rule wp_expect) (auto intro: eats_trans)

lemma advance_after: "eats s s1 \<Longrightarrow> tok_type (hd (p_rest s1)) \<noteq> T_EOF \<Longrightarrow> wp advance (\<lambda>_. eats s) s1"
  by (rule wp_advance) (auto intro: eats_trans)

lemma expression_step:
  assumes "terminates_on n" and "ready s" and "4 * left_over s + 4 \<le> Suc n"
  shows "wp (parse_expression (Suc n) m) (\<lambda>_. eats s) s"
  unfolding parse_expression.simps wp_simps
  by (rule wp_mono [OF terminates_onD(3)]) (use assms in \<open>auto intro: operators_after\<close>)

lemma is_null_step:
  assumes "terminates_on n" and "4 * left_over s + 1 \<le> Suc n" and "eats s s1"
  shows "wp (bind_pop (if_next T_NOT (ok True) (ok False)) (\<lambda>negated. bind_pop (expect T_NULL) (\<lambda>_.
         parse_operators n m (IsNull l negated) True))) (\<lambda>_. keeps s) s1"
proof -
  have null: "wp (bind_pop (expect T_NULL) (\<lambda>_. parse_operators n m (IsNull l negated) True)) (\<lambda>_. keeps s) s2"
    if "eats s s2" for negated s2
    unfolding wp_simps by (rule wp_mono [OF expect_after [OF that]]) (use assms in \<open>auto intro: operators_after\<close>)
  show ?thesis unfolding wp_simps(3) [of "if_next _ _ _"]
    by (rule wp_if_next) (use assms(3) null in \<open>auto simp del: wp_simps(3) intro: eats_trans\<close>)
qed

lemma operators_step:
  assumes "terminates_on n" and "ready s" and "4 * left_over s + 1 \<le> Suc n"
  shows "wp (parse_operators (Suc n) m l used) (\<lambda>_. keeps s) s"
proof (cases "tok_type (hd (p_rest s)) = T_IS")
  case True
  have "wp advance (\<lambda>_. wp (bind_pop (if_next T_NOT (ok True) (ok False)) (\<lambda>negated. bind_pop (expect T_NULL) (\<lambda>_.
         parse_operators n m (IsNull l negated) True))) (\<lambda>_. keeps s)) s"
    by (rule wp_advance [OF assms(2)]) (use True is_null_step [OF assms(1,3)] in auto)
  then show ?thesis using True assms(2) by (simp add: wp_peek keeps_refl)
next
  case False
  have right: "wp advance (\<lambda>_. wp (parse_expression n k) (\<lambda>r. wp (parse_operators n m (f r) used') (\<lambda>_. keeps s))) s"
    if "tok_type (hd (p_rest s)) \<noteq> T_EOF" for k f used'
    by (rule wp_advance [OF assms(2) that], rule wp_mono [OF expression_after [OF assms(1,3)]])
      (auto intro: operators_after [OF assms(1,3)])
  show ?thesis using False assms(2) right operator_not_end(1) by (auto simp: wp_peek keeps_refl split: option.splits)
qed

lemma prefix_step:
  assumes "terminates_on n" and "ready s" and "4 * left_over s + 3 \<le> Suc n"
  shows "wp (parse_prefix (Suc n)) (\<lambda>_. eats s) s"
proof -
  have "wp advance (\<lambda>_. wp (parse_expression n k) (\<lambda>_. eats s)) s" if "tok_type (hd (p_rest s)) \<noteq> T_EOF" for k
    by (rule wp_advance [OF assms(2) that]) (use assms in \<open>auto intro: expression_after\<close>)
  moreover have "wp (parse_atom n) (\<lambda>_. eats s) s" using assms by (intro terminates_onD(4)) auto
  ultimately show ?thesis using assms(2) operator_not_end(2) by (auto simp: wp_peek split: option.splits)
qed

lemma parameter_after: "eats s s1 \<Longrightarrow> wp (\<lambda>s. Some (Inr (Parameter (p_parameters s)), s\<lparr>p_parameters := p_parameters s + 1\<rparr>)) (\<lambda>_. eats s) s1"
  by (simp add: wp_def eats_def ready_def)

lemma atom_step:
  assumes "terminates_on n" and "ready s" and "4 * left_over s + 2 \<le> Suc n"
  shows "wp (parse_atom (Suc n)) (\<lambda>_. eats s) s"
proof -
  have adv: "wp advance (\<lambda>_. wp p (\<lambda>_. eats s)) s1" if "ready s1" "s1 = s \<or> eats s s1" "tok_type (hd (p_rest s1)) \<noteq> T_EOF" "\<And>s2. eats s s2 \<Longrightarrow> wp p (\<lambda>_. eats s) s2"
    for p :: "expression parse" and s1
    by (rule wp_advance [OF that(1,3)]) (use that in \<open>auto intro: eats_trans\<close>)
  have column: "wp (bind_pop (expect T_IDENTIFIER) (\<lambda>column. ok (Column (tok_lexeme column) w))) (\<lambda>_. eats s) s1" if "eats s s1" for w s1
    using expect_after [OF that] by simp
  have paren: "wp (bind_pop (parse_expression n 0) (\<lambda>e. bind_pop (expect T_RIGHT_PAREN) (\<lambda>_. ok e))) (\<lambda>_. eats s) s1" if "eats s s1" for s1
    unfolding wp_simps
    by (rule wp_mono [OF expression_after [OF assms(1) _ that]]) (use assms(3) in \<open>auto intro: expect_after\<close>)
  have name: "wp (bind_pop peek (\<lambda>next_token.
       if tok_type next_token = T_LEFT_PAREN then parse_function_call n w
       else if tok_type next_token = T_DOT
       then bind_pop advance (\<lambda>_. bind_pop (expect T_IDENTIFIER) (\<lambda>column. ok (Column (tok_lexeme column) (Some w))))
       else ok (Column w None))) (\<lambda>_. eats s) s1" if s1: "eats s s1" for w s1
    using s1 call_after [OF assms(1,3) s1] adv [of s1, OF _ _ _ column]
    unfolding wp_simps(3) [of peek] wp_peek [OF eats_ready(1) [OF s1]] by (auto simp del: wp_simps(3) simp: wp_simps(3) [of advance])
  note A = adv [OF assms(2)]
  have literal: "wp advance (\<lambda>_. wp (ok (Literal v)) (\<lambda>_. eats s)) s" if "tok_type (hd (p_rest s)) \<noteq> T_EOF" for v
    by (rule A) (use that in auto)
  have "wp (if ty \<in> {T_INTEGER, T_REAL, T_STRING} then bind_pop advance (\<lambda>_. ok (Literal (tok_value token)))
     else if ty = T_NULL then bind_pop advance (\<lambda>_. ok (Literal VNull))
     else if ty = T_IDENTIFIER
     then bind_pop advance (\<lambda>_. bind_pop peek (\<lambda>next_token.
       if tok_type next_token = T_LEFT_PAREN then parse_function_call n (tok_lexeme token)
       else if tok_type next_token = T_DOT
       then bind_pop advance (\<lambda>_. bind_pop (expect T_IDENTIFIER) (\<lambda>column. ok (Column (tok_lexeme column) (Some (tok_lexeme token)))))
       else ok (Column (tok_lexeme token) None)))
     else if ty = T_PARAMETER
     then bind_pop advance (\<lambda>_ s. Some (Inr (Parameter (p_parameters s)), s\<lparr>p_parameters := p_parameters s + 1\<rparr>))
     else if ty = T_LEFT_PAREN
     then bind_pop advance (\<lambda>_. bind_pop (parse_expression n 0) (\<lambda>e. bind_pop (expect T_RIGHT_PAREN) (\<lambda>_. ok e)))
     else syntax_error) (\<lambda>_. eats s) s" if "ty = tok_type (hd (p_rest s))" for ty token
  proof (cases "ty = T_EOF")
    case False
    then have ne: "tok_type (hd (p_rest s)) \<noteq> T_EOF" using that by simp
    have "wp advance (\<lambda>_. wp p (\<lambda>_. eats s)) s" if "\<And>s2. eats s s2 \<Longrightarrow> wp p (\<lambda>_. eats s) s2" for p :: "expression parse"
      by (rule A) (use ne that in auto)
    note B = this [OF name] this [OF paren] this [OF parameter_after] literal [OF ne]
    show ?thesis using B by (auto simp del: wp_simps(3) simp: wp_simps(3) [of advance])
  qed simp
  then show ?thesis unfolding parse_atom.simps wp_simps(3) [of peek] wp_peek [OF assms(2)] by blast
qed

lemma function_call_step:
  assumes "\<And>k. k \<le> n \<Longrightarrow> terminates_on k" and "ready s" and "4 * left_over s + 2 \<le> Suc n"
  shows "wp (parse_function_call (Suc n) name) (\<lambda>_. eats s) s"
proof -
  have "wp (comma_list n (\<lambda>k. parse_expression k 0)) (\<lambda>_. eats s1) s1" if s1: "eats s s1" for s1
    by (rule wp_comma_list [where c = 4]) (use s1 eats_fuel [OF s1] assms(1,3) in \<open>auto intro: terminates_onD(1)\<close>)
  then have args: "wp (comma_list n (\<lambda>k. parse_expression k 0)) (\<lambda>_. wp (expect T_RIGHT_PAREN) (\<lambda>_. eats s)) s1" if "eats s s1" for s1
    by (rule wp_mono) (use that in \<open>auto intro: expect_after eats_trans\<close>)
  have "wp (if_next T_STAR (bind_pop (expect T_RIGHT_PAREN) (\<lambda>_. ok (FunctionCall name [] True)))
       (bind_pop (comma_list n (\<lambda>k. parse_expression k 0)) (\<lambda>args.
          bind_pop (expect T_RIGHT_PAREN) (\<lambda>_. ok (FunctionCall name args False))))) (\<lambda>_. eats s) s1" if "eats s s1" for s1
    by (rule wp_if_next) (use that args [OF that] in \<open>auto intro: expect_after eats_trans\<close>)
  then show ?thesis unfolding parse_function_call.simps wp_simps by (intro wp_expect [OF assms(2)]) auto
qed

lemma terminates_on_all: "terminates_on n"
proof (induction n rule: less_induct)
  case (less n)
  show ?case
  proof (cases n)
    case 0
    then show ?thesis by (auto simp: terminates_on_def)
  next
    case (Suc k)
    then have *: "terminates_on k" "\<And>j. j \<le> k \<Longrightarrow> terminates_on j" using less by auto
    show ?thesis unfolding terminates_on_def Suc
      using expression_step [OF *(1)] operators_step [OF *(1)] prefix_step [OF *(1)] atom_step [OF *(1)] function_call_step [OF *(2)]
      by blast
  qed
qed

section \<open>Statements\<close>

text \<open>A part that is fine on every state with at most \<open>b\<close> tokens left.\<close>

definition safe :: "nat \<Rightarrow> 'a parse \<Rightarrow> bool" where
  "safe b p \<longleftrightarrow> (\<forall>s. ready s \<longrightarrow> left_over s \<le> b \<longrightarrow> wp p (\<lambda>_. keeps s) s)"

named_theorems safe_intros \<open>parts of statements\<close>

lemma safe_ok [safe_intros]: "safe b (ok x)" "safe b syntax_error"
  by (simp_all add: safe_def keeps_refl)

lemma safe_bind [safe_intros]:
  assumes "safe b p" and "\<And>x. safe b (f x)"
  shows "safe b (bind_pop p f)"
proof -
  have "wp (f x) (\<lambda>_. keeps s) s1" if "keeps s s1" "left_over s \<le> b" for x s s1
    by (rule wp_mono [of _ "\<lambda>_. keeps s1"]) (use assms(2) [of x] that in \<open>auto simp: safe_def keeps_def\<close>)
  then show ?thesis using assms(1) unfolding safe_def by (auto elim!: wp_mono)
qed

lemma safe_peek [safe_intros]: "safe b peek"
  by (simp add: safe_def wp_peek keeps_refl)

lemma safe_if [safe_intros]: "safe b p \<Longrightarrow> safe b q \<Longrightarrow> safe b (if c then p else q)"
  by simp

lemma safe_expect [safe_intros]: "ty \<noteq> T_EOF \<Longrightarrow> safe b (expect ty)"
  unfolding safe_def by (auto intro!: wp_expect eats_trans(6))

lemma safe_if_next [safe_intros]:
  assumes "ty \<noteq> T_EOF" and "safe b yes" and "safe b no"
  shows "safe b (if_next ty yes no)"
  unfolding safe_def
proof (intro allI impI)
  fix s assume s: "ready s" "left_over s \<le> b"
  show "wp (if_next ty yes no) (\<lambda>_. keeps s) s"
  proof (rule wp_if_next)
    fix s1 assume s1: "eats s s1"
    then have "wp yes (\<lambda>_. keeps s1) s1" using assms(2) s(2) by (simp add: safe_def eats_def)
    then show "wp yes (\<lambda>_. keeps s) s1" by (rule wp_mono) (rule eats_trans(4) [OF s1])
  qed (use assms s in \<open>auto simp: safe_def\<close>)
qed

lemma safe_name [safe_intros]: "safe b expect_name"
  unfolding expect_name_def by (intro safe_intros) simp

lemma wp_name: "ready s \<Longrightarrow> wp expect_name (\<lambda>_. eats s) s"
  unfolding expect_name_def wp_simps by (rule wp_expect) simp_all

lemma safe_name_token [safe_intros]:
  "safe b (bind_pop peek (\<lambda>token. if tok_type token = T_IDENTIFIER then bind_pop advance (\<lambda>t. ok (f t)) else ok y))"
  by (auto simp: safe_def wp_peek keeps_refl intro!: wp_advance eats_trans(6))

lemma safe_expression [safe_intros]: "4 * b + 4 \<le> n \<Longrightarrow> safe b (parse_expression n m)"
  unfolding safe_def
  by (intro allI impI, rule wp_mono [OF terminates_onD(1) [OF terminates_on_all]]) (auto intro: eats_trans(6))

lemma safe_comma_list:
  assumes "\<And>k s. ready s \<Longrightarrow> 4 * left_over s + 4 \<le> k \<Longrightarrow> wp (item k) (\<lambda>_. eats s) s" and "4 * b + 5 \<le> n"
  shows "safe b (comma_list n item)"
  unfolding safe_def
  by (intro allI impI, rule wp_mono [OF wp_comma_list [where c = 4]]) (use assms in \<open>auto intro: eats_trans(6)\<close>)

lemma safe_expression_list [safe_intros]: "4 * b + 5 \<le> n \<Longrightarrow> safe b (expression_list n)"
  unfolding expression_list_def by (rule safe_comma_list [OF terminates_onD(1) [OF terminates_on_all]])

lemma safe_names [safe_intros]: "4 * b + 5 \<le> n \<Longrightarrow> safe b (comma_list n (\<lambda>_. expect_name))"
  by (rule safe_comma_list [OF wp_name])

text \<open>A part that eats, followed by a safe one, eats.\<close>

lemma wp_then_safe:
  assumes "wp p (\<lambda>_. eats s) s" and "\<And>x. safe (left_over s) (f x)"
  shows "wp (bind_pop p f) (\<lambda>_. eats s) s"
proof -
  have "wp (f x) (\<lambda>_. eats s) s1" if s1: "eats s s1" for x s1
  proof -
    have "wp (f x) (\<lambda>_. keeps s1) s1" using assms(2) [of x] s1 eats_fuel [OF s1] unfolding safe_def by auto
    then show ?thesis by (rule wp_mono) (rule eats_trans(2) [OF s1])
  qed
  then show ?thesis using assms(1) by (auto elim!: wp_mono)
qed

lemma safe_order_keys [safe_intros]:
  assumes "4 * b + 5 \<le> n" shows "safe b (comma_list n parse_order_key)"
proof (rule safe_comma_list [OF _ assms])
  fix k s assume "ready s" and "4 * left_over s + 4 \<le> k"
  then show "wp (parse_order_key k) (\<lambda>_. eats s) s"
    unfolding parse_order_key_def
    by (intro wp_then_safe terminates_onD(1) [OF terminates_on_all] safe_intros) simp_all
qed

lemma safe_assignments [safe_intros]:
  assumes "4 * b + 5 \<le> n" shows "safe b (comma_list n parse_assignment)"
proof (rule safe_comma_list [OF _ assms])
  fix k s assume "ready s" and "4 * left_over s + 4 \<le> k"
  then show "wp (parse_assignment k) (\<lambda>_. eats s) s"
    unfolding parse_assignment_def by (intro wp_then_safe wp_name safe_intros) simp_all
qed

lemma safe_optional [safe_intros]: "ty \<noteq> T_EOF \<Longrightarrow> 4 * b + 4 \<le> n \<Longrightarrow> safe b (optional_expression n ty)"
  unfolding optional_expression_def by (intro safe_intros)

lemma safe_table_ref [safe_intros]: "safe b parse_table_ref"
  unfolding parse_table_ref_def by (intro safe_intros) simp_all

lemma wp_table_ref: "ready s \<Longrightarrow> wp parse_table_ref (\<lambda>_. eats s) s"
  unfolding parse_table_ref_def by (intro wp_then_safe wp_name safe_intros) simp_all

lemma safe_join_type [safe_intros]: "safe b parse_join_type"
  unfolding parse_join_type_def by (intro safe_intros) simp_all

lemma wp_joins: "ready s \<Longrightarrow> 4 * left_over s + 5 \<le> n \<Longrightarrow> wp (parse_joins n) (\<lambda>_. keeps s) s"
proof (induction n arbitrary: s)
  case (Suc n)
  have rest: "wp (bind_pop (parse_joins n) (\<lambda>js. ok (f js))) (\<lambda>_. keeps s) s1" if "eats s s1" for f :: "join_clause list \<Rightarrow> join_clause list" and s1
    unfolding wp_simps
    by (rule wp_mono [OF Suc.IH [of s1]]) (use that eats_fuel [OF that] Suc.prems(2) in \<open>auto intro: eats_trans\<close>)
  have comma: "wp (bind_pop parse_table_ref (\<lambda>table. bind_pop (parse_joins n) (\<lambda>js. ok (f table js)))) (\<lambda>_. keeps s) s1"
    if "eats s s1" for f :: "table_ref \<Rightarrow> join_clause list \<Rightarrow> join_clause list" and s1
    unfolding wp_simps(3) [of parse_table_ref]
    by (rule wp_mono [OF wp_table_ref]) (use that in \<open>auto simp del: wp_simps(3) intro!: rest intro: eats_trans\<close>)
  have join: "wp (bind_pop parse_table_ref (\<lambda>table. bind_pop (expect T_ON) (\<lambda>_. bind_pop (parse_expression n 0) (\<lambda>cond.
            bind_pop (parse_joins n) (\<lambda>js. ok (f table cond js)))))) (\<lambda>_. keeps s) s1"
    if s1: "keeps s s1" for f :: "table_ref \<Rightarrow> expression \<Rightarrow> join_clause list \<Rightarrow> join_clause list" and s1
  proof -
    have "wp (bind_pop (expect T_ON) (\<lambda>_. bind_pop (parse_expression n 0) (\<lambda>cond.
            bind_pop (parse_joins n) (\<lambda>js. ok (f table cond js))))) (\<lambda>_. keeps s) s2" if s2: "eats s s2" for table s2
    proof -
      have "wp (bind_pop (parse_expression n 0) (\<lambda>cond. bind_pop (parse_joins n) (\<lambda>js. ok (f table cond js)))) (\<lambda>_. keeps s) s3"
        if s3: "eats s s3" for s3
        unfolding wp_simps(3) [of "parse_expression _ _"]
        by (rule wp_mono [OF expression_after [OF terminates_on_all _ s3]])
          (use Suc.prems(2) in \<open>auto simp del: wp_simps(3) intro: rest\<close>)
      then show ?thesis unfolding wp_simps(3) [of "expect _"] by (intro wp_mono [OF expect_after [OF s2]]) simp_all
    qed
    then show ?thesis unfolding wp_simps(3) [of parse_table_ref] using s1
      by (intro wp_mono [OF wp_table_ref]) (auto simp del: wp_simps(3) intro: eats_trans)
  qed
  show ?case unfolding parse_joins.simps
  proof (rule wp_if_next [OF Suc.prems(1)])
    have "wp parse_join_type (\<lambda>_. keeps s) s" using safe_join_type Suc.prems(1) unfolding safe_def by blast
    then show "wp (bind_pop parse_join_type (\<lambda>join_type. case join_type of
          None \<Rightarrow> ok []
        | Some jt \<Rightarrow>
            bind_pop parse_table_ref (\<lambda>table. bind_pop (expect T_ON) (\<lambda>_. bind_pop (parse_expression n 0) (\<lambda>cond.
            bind_pop (parse_joins n) (\<lambda>js. ok (\<lparr>jc_join_type = jt, jc_table = table, jc_on = Some cond\<rparr> # js))))))) (\<lambda>_. keeps s) s"
      unfolding wp_simps(3) [of parse_join_type]
      by (rule wp_mono) (auto simp del: wp_simps(3) intro: join split: option.splits)
  qed (simp_all del: wp_simps(3) add: comma)
qed simp

lemma safe_joins [safe_intros]: "4 * b + 5 \<le> n \<Longrightarrow> safe b (parse_joins n)"
  by (simp add: safe_def wp_joins)

lemma safe_from_clause [safe_intros]: "4 * b + 5 \<le> n \<Longrightarrow> safe b (parse_from_clause n)"
  unfolding parse_from_clause_def by (intro safe_intros)

lemma wp_column_defs: "ready s \<Longrightarrow> left_over s < n \<Longrightarrow> wp (parse_column_defs n u seen) (\<lambda>_. keeps s) s"
proof (induction n arbitrary: s seen)
  case (Suc n)
  have rest: "wp (if_next T_COMMA (bind_pop (parse_column_defs n u seen') (\<lambda>cs. ok (f cs))) (ok x)) (\<lambda>_. keeps s) s1"
    if s1: "eats s s1" for f :: "column_def list \<Rightarrow> column_def list" and x s1 seen'
  proof (rule wp_if_next)
    fix s2 assume s2: "eats s1 s2"
    have "wp (parse_column_defs n u seen') (\<lambda>_. keeps s2) s2"
      using s2 eats_fuel [OF s1] eats_fuel [OF s2] Suc.prems(2) by (intro Suc.IH) auto
    then show "wp (bind_pop (parse_column_defs n u seen') (\<lambda>cs. ok (f cs))) (\<lambda>_. keeps s) s2"
      unfolding wp_simps by (rule wp_mono) (rule eats_trans(4) [OF eats_trans(1) [OF s1 s2]])
  qed (use s1 in \<open>auto intro: eats_trans\<close>)
  have ty: "wp (bind_pop advance (\<lambda>type_token. case COLUMN_TYPES (tok_type type_token) of None \<Rightarrow> syntax_error
      | Some ty \<Rightarrow> if_next T_COMMA (bind_pop (parse_column_defs n u seen') (\<lambda>cs. ok (\<lparr>cd_name = name, cd_data_type = ty\<rparr> # cs)))
          (ok [\<lparr>cd_name = name, cd_data_type = ty\<rparr>]))) (\<lambda>_. keeps s) s1" if s1: "eats s s1" for name s1 seen'
  proof (cases "tok_type (hd (p_rest s1)) = T_EOF")
    case True
    then show ?thesis using s1 by (cases "p_rest s1") (auto simp: wp_def advance_def bind_pop_def eats_def ready_def syntax_error_def)
  next
    case False
    show ?thesis unfolding wp_simps(3) [of advance]
      by (rule wp_advance [OF _ False])
        (use s1 in \<open>auto simp del: wp_simps(3) split: option.splits intro!: rest intro: eats_trans\<close>)
  qed
  show ?case unfolding parse_column_defs.simps wp_simps(3) [of expect_name]
    by (rule wp_mono [OF wp_name [OF Suc.prems(1)]]) (simp del: wp_simps(3) add: ty)
qed simp

lemma safe_column_defs [safe_intros]: "b < n \<Longrightarrow> safe b (parse_column_defs n u seen)"
  by (simp add: safe_def wp_column_defs)

lemma safe_select [safe_intros]: "4 * b + 5 \<le> n \<Longrightarrow> safe b (parse_select n)"
  unfolding parse_select_def case_prod_beta by (intro safe_intros) simp_all

lemma safe_create: "4 * b + 5 \<le> n \<Longrightarrow> safe b (parse_create n u)"
  unfolding parse_create_def parse_create_index_def parse_create_table_def by (intro safe_intros) simp_all

lemma safe_begin: "safe b (parse_begin u)"
proof -
  have "safe b (bind_pop peek (\<lambda>token.
       if tok_type token = T_IDENTIFIER \<and> casefold u (tok_lexeme token) = ustr_of ''immediate''
       then bind_pop advance (\<lambda>_. ok (Begin True)) else ok (Begin False)))"
    by (auto simp: safe_def wp_peek keeps_refl intro!: wp_advance eats_trans(6))
  then show ?thesis unfolding parse_begin_def by (intro safe_bind [of _ "expect T_BEGIN"] safe_expect) simp
qed

lemma safe_statement: "4 * b + 5 \<le> n \<Longrightarrow> safe b (statement_body n u ty)"
  unfolding statement_body_def parse_insert_def parse_delete_def parse_update_def parse_analyze_def parse_explain_def
    parse_commit_def parse_rollback_def
  by (intro safe_intros safe_create safe_begin) simp_all

lemma wp_statement:
  assumes "ready s" and "4 * left_over s + 5 \<le> n"
  shows "wp (parse_statement n u) (\<lambda>_ _. True) s"
proof -
  have eof: "wp (expect T_EOF) (\<lambda>_ _. True) s1" if "ready s1" for s1
    using that by (cases "p_rest s1") (auto simp: ready_def expect_def wp_def bind_pop_def peek_def advance_def syntax_error_def)
  have "safe (left_over s) (bind_pop peek (\<lambda>token. bind_pop (statement_body n u (tok_type token)) (\<lambda>statement.
     bind_pop (if_next T_SEMICOLON (ok ()) (ok ())) (\<lambda>_. ok statement))))"
    by (intro safe_intros safe_statement assms(2)) simp
  then have "wp (bind_pop peek (\<lambda>token. bind_pop (statement_body n u (tok_type token)) (\<lambda>statement.
     bind_pop (if_next T_SEMICOLON (ok ()) (ok ())) (\<lambda>_. ok statement)))) (\<lambda>_. keeps s) s"
    using assms(1) unfolding safe_def by blast
  then have "wp (bind_pop peek (\<lambda>token. bind_pop (statement_body n u (tok_type token)) (\<lambda>statement.
     bind_pop (if_next T_SEMICOLON (ok ()) (ok ())) (\<lambda>_. ok statement)))) (\<lambda>_. ready) s"
    by (rule wp_mono) (rule eats_ready(2))
  then show ?thesis unfolding parse_statement_def by (auto elim!: wp_mono intro: eof)
qed

lemma scan_ends: "scan u i s = Inr ts \<Longrightarrow> ts \<noteq> [] \<and> tok_type (last ts) = T_EOF"
proof (induction u i s arbitrary: ts rule: scan.induct)
  case (1 u i s)
  show ?case
  proof (cases s)
    case Nil
    then show ?thesis using 1(3) by (auto simp: scan.simps [of u i])
  next
    case (Cons c cs)
    from 1(3) obtain turn where t: "scan_one u c cs = Inr turn" by (auto simp: scan.simps [of u i] Cons bind_res_eq_Inr)
    show ?thesis
    proof (cases turn)
      case (Skip rest)
      then have "scan u (i + (length s - length rest)) rest = Inr ts" using 1(3) t by (simp add: scan.simps [of u i] Cons)
      then show ?thesis by (rule 1(1) [OF Cons t Skip])
    next
      case (Emit ty v rest)
      then obtain t ts' where "scan u (i + (length s - length rest)) rest = Inr ts'" "ts = t # ts'"
        using 1(3) t by (auto simp: scan.simps [of u i] Cons bind_res_eq_Inr)
      then show ?thesis using 1(2) [OF Cons t Emit] by simp
    qed
  qed
qed

lemma parse_tokens_total:
  assumes "ts \<noteq> []" and "tok_type (last ts) = T_EOF"
  shows "parse_tokens u ts = Some (Inl SQLSyntaxError) \<or> (\<exists>statement. parse_tokens u ts = Some (Inr statement))"
proof -
  have "ready \<lparr>p_rest = ts, p_parameters = 0\<rparr>" using assms by (simp add: ready_def)
  from wp_statement [OF this, of "4 * length ts + 8" u] show ?thesis
    by (auto simp: parse_tokens_def wp_def split: option.splits prod.splits sum.splits)
qed

section \<open>Properties\<close>



end
