(* ===== verification/Grammar.thy ===== *)
theory Grammar
  imports ParserTotal
begin

text \<open>
  The expression grammar with SQL's precedences, and its trees as the parser's results: whatever tokens
  spell an expression, redundant parentheses included, the parser returns that expression.
\<close>

section \<open>The grammar\<close>

definition literal_token :: "token \<Rightarrow> bool" where
  "literal_token t \<longleftrightarrow> tok_type t = T_INTEGER \<or> tok_type t = T_REAL \<or> tok_type t = T_STRING"

text \<open>
  \<open>spells p e l ts q\<close>: the tokens \<open>ts\<close> are the expression \<open>e\<close> at level \<open>l\<close>, its parameters numbered from \<open>p\<close> up to
  \<open>q\<close>. An operator of a level takes a left operand of its level or above and a right operand above it, a comparison
  takes both above: comparisons do not chain. \<open>NOT\<close> stands between \<open>AND\<close> and the comparisons; signs stand above
  arithmetic.
\<close>

inductive spells :: "nat \<Rightarrow> expression \<Rightarrow> nat \<Rightarrow> token list \<Rightarrow> nat \<Rightarrow> bool"
  and spells_list :: "nat \<Rightarrow> expression list \<Rightarrow> token list \<Rightarrow> nat \<Rightarrow> bool"
where
  literal: "literal_token t \<Longrightarrow> spells p (Literal (tok_value t)) 100 [t] p"
| null_literal: "tok_type t = T_NULL \<Longrightarrow> spells p (Literal VNull) 100 [t] p"
| column: "tok_type t = T_IDENTIFIER \<Longrightarrow> spells p (Column (tok_lexeme t) None) 100 [t] p"
| qualified_column: "tok_type t = T_IDENTIFIER \<Longrightarrow> tok_type d = T_DOT \<Longrightarrow> tok_type c = T_IDENTIFIER
    \<Longrightarrow> spells p (Column (tok_lexeme c) (Some (tok_lexeme t))) 100 [t, d, c] p"
| parameter: "tok_type t = T_PARAMETER \<Longrightarrow> spells p (Parameter p) 100 [t] (p + 1)"
| paren: "tok_type a = T_LEFT_PAREN \<Longrightarrow> spells p e l ts q \<Longrightarrow> tok_type b = T_RIGHT_PAREN \<Longrightarrow> spells p e 100 (a # ts @ [b]) q"
| call_star: "tok_type t = T_IDENTIFIER \<Longrightarrow> tok_type a = T_LEFT_PAREN \<Longrightarrow> tok_type s = T_STAR \<Longrightarrow> tok_type b = T_RIGHT_PAREN
    \<Longrightarrow> spells p (FunctionCall (tok_lexeme t) [] True) 100 [t, a, s, b] p"
| call: "tok_type t = T_IDENTIFIER \<Longrightarrow> tok_type a = T_LEFT_PAREN \<Longrightarrow> spells_list p es ts q \<Longrightarrow> tok_type b = T_RIGHT_PAREN
    \<Longrightarrow> spells p (FunctionCall (tok_lexeme t) es False) 100 (t # a # ts @ [b]) q"
| sign: "UNARY_ARITHMETIC_OPERATORS (tok_type t) = Some oper \<Longrightarrow> spells p e l ts q \<Longrightarrow> 60 \<le> l
    \<Longrightarrow> spells p (UnaryOp oper e) 60 (t # ts) q"
| negation: "tok_type t = T_NOT \<Longrightarrow> spells p e l ts q \<Longrightarrow> 25 \<le> l \<Longrightarrow> spells p (UnaryOp ''NOT'' e) 25 (t # ts) q"
| binary: "BINARY_OPERATORS (tok_type t) = Some (b, oper) \<Longrightarrow> spells p e1 l1 ts1 q \<Longrightarrow> spells q e2 l2 ts2 r
    \<Longrightarrow> b \<le> l1 \<Longrightarrow> b = 30 \<longrightarrow> 30 < l1 \<Longrightarrow> b < l2 \<Longrightarrow> spells p (BinaryOp e1 oper e2) b (ts1 @ t # ts2) r"
| is_null: "tok_type i = T_IS \<Longrightarrow> spells p e l ts q \<Longrightarrow> 30 < l \<Longrightarrow> tok_type n = T_NULL \<Longrightarrow> spells p (IsNull e False) 30 (ts @ [i, n]) q"
| is_not_null: "tok_type i = T_IS \<Longrightarrow> spells p e l ts q \<Longrightarrow> 30 < l \<Longrightarrow> tok_type k = T_NOT \<Longrightarrow> tok_type n = T_NULL
    \<Longrightarrow> spells p (IsNull e True) 30 (ts @ [i, k, n]) q"
| last_item: "spells p e l ts q \<Longrightarrow> spells_list p [e] ts q"
| more_items: "spells p e l ts1 q \<Longrightarrow> tok_type c = T_COMMA \<Longrightarrow> spells_list q es ts2 r \<Longrightarrow> spells_list p (e # es) (ts1 @ c # ts2) r"

section \<open>Running the parser forward\<close>

abbreviation at :: "token list \<Rightarrow> nat \<Rightarrow> parser" where
  "at ts p \<equiv> \<lparr>p_rest = ts, p_parameters = p\<rparr>"

named_theorems forward \<open>steps of the parser on known tokens\<close>

lemma forward_basic [forward]:
  "bind_pop peek f (at (t # ts) p) = f t (at (t # ts) p)"
  "bind_pop advance f (at (t # ts) p) = f t (at ts p)"
  "bind_pop (ok x) h = h x"
  "bind_pop (bind_pop m g) k = bind_pop m (\<lambda>x. bind_pop (g x) k)"
  "tok_type t = ty \<Longrightarrow> bind_pop (expect ty) f (at (t # ts) p) = f t (at ts p)"
  by (auto simp: fun_eq_iff expect_def bind_pop_def peek_def advance_def ok_def split: option.splits prod.splits sum.splits)

lemma forward_expect [forward]: "tok_type t = ty \<Longrightarrow> expect ty (at (t # ts) p) = Some (Inr t, at ts p)"
  by (simp add: expect_def bind_pop_def peek_def advance_def)

lemma forward_if_next [forward]:
  "tok_type t = ty \<Longrightarrow> if_next ty yes no (at (t # ts) p) = yes (at ts p)"
  "tok_type t \<noteq> ty \<Longrightarrow> if_next ty yes no (at (t # ts) p) = no (at (t # ts) p)"
  by (simp_all add: if_next_def forward_basic)

lemma bind_if_next: "bind_pop (if_next ty yes no) f = if_next ty (bind_pop yes f) (bind_pop no f)"
  by (auto simp: fun_eq_iff if_next_def bind_pop_def split: option.splits prod.splits sum.splits)

text \<open>Where an expression at level \<open>m\<close> stops: nothing that goes on with it comes next.\<close>

definition stops :: "nat \<Rightarrow> token list \<Rightarrow> bool" where
  "stops m ts \<longleftrightarrow> ts \<noteq> [] \<and> tok_type (hd ts) \<noteq> T_LEFT_PAREN \<and> tok_type (hd ts) \<noteq> T_DOT \<and> (tok_type (hd ts) = T_IS \<longrightarrow> 30 < m)
     \<and> (\<forall>b oper. BINARY_OPERATORS (tok_type (hd ts)) = Some (b, oper) \<longrightarrow> b < m)"

lemma binding_powers: "BINARY_OPERATORS ty = Some (b, oper) \<Longrightarrow> b \<in> {10, 20, 30, 40, 50} \<and> ty \<notin> {T_LEFT_PAREN, T_DOT, T_IS}"
  by (induction ty rule: BINARY_OPERATORS.induct) (auto simp: COMPARISON_BINDING_POWER_def)

lemma stops_mono: "stops m ts \<Longrightarrow> m \<le> k \<Longrightarrow> stops k ts"
  unfolding stops_def by (meson order_less_le_trans)

lemma stops_down: "stops (Suc m) ts \<Longrightarrow> m \<notin> {10, 20, 30, 40, 50} \<Longrightarrow> stops m ts"
  unfolding stops_def using binding_powers less_Suc_eq by (metis insert_iff)

lemma stops_operator: "BINARY_OPERATORS (tok_type t) = Some (b, oper) \<Longrightarrow> b \<le> l \<Longrightarrow> stops (Suc l) (t # ts)"
  using binding_powers [of "tok_type t" b oper] by (auto simp: stops_def)

lemma stops_closer: "tok_type t \<in> {T_RIGHT_PAREN, T_COMMA} \<Longrightarrow> stops m (t # ts)"
  by (auto simp: stops_def)

lemma operators_stop: "stops m ts \<Longrightarrow> 0 < n \<Longrightarrow> parse_operators n m e used (at ts p) = Some (Inr e, at ts p)"
proof -
  assume a: "stops m ts" "0 < n"
  then obtain t ts' k where "ts = t # ts'" "n = Suc k" by (cases ts; cases n) (auto simp: stops_def)
  then show ?thesis using a(1)
    by (cases "tok_type t = T_IS") (auto simp: forward stops_def ok_def COMPARISON_BINDING_POWER_def split: option.splits)
qed

text \<open>The parser reaches the loop of \<^verbatim>\<open>_expression\<close> with the tree in hand.\<close>

definition reaches :: "nat \<Rightarrow> expression \<Rightarrow> nat \<Rightarrow> token list \<Rightarrow> nat \<Rightarrow> bool" where
  "reaches p e l ts q \<longleftrightarrow> (\<forall>n m rest. m \<le> l \<longrightarrow> stops (Suc l) rest \<longrightarrow> 4 * length (ts @ rest) + 4 \<le> n \<longrightarrow>
     (\<exists>k used. parse_expression n m (at (ts @ rest) p) = parse_operators k m e used (at rest q)
       \<and> 4 * length rest + 1 \<le> k \<and> (used \<longrightarrow> l \<le> 30)))"

lemma reachesI:
  assumes "\<And>n m rest. m \<le> l \<Longrightarrow> stops (Suc l) rest \<Longrightarrow> 4 * length (ts @ rest) + 4 \<le> n \<Longrightarrow>
     \<exists>k used. parse_expression n m (at (ts @ rest) p) = parse_operators k m e used (at rest q)
       \<and> 4 * length rest + 1 \<le> k \<and> (used \<longrightarrow> l \<le> 30)"
  shows "reaches p e l ts q"
  using assms unfolding reaches_def by blast

lemma reachesE:
  assumes "reaches p e l ts q" and "m \<le> l" and "stops (Suc l) rest" and "4 * length (ts @ rest) + 4 \<le> n"
  obtains k used where "parse_expression n m (at (ts @ rest) p) = parse_operators k m e used (at rest q)"
    and "4 * length rest + 1 \<le> k" and "used \<longrightarrow> l \<le> 30"
  using assms unfolding reaches_def by blast

lemma reaches_parses:
  assumes "reaches p e l ts q" and "m \<le> l" and "stops m rest" and "4 * length (ts @ rest) + 4 \<le> n"
  shows "parse_expression n m (at (ts @ rest) p) = Some (Inr e, at rest q)"
  by (rule reachesE [OF assms(1,2) stops_mono [OF assms(3)] assms(4)])
    (use assms(2,3) operators_stop in auto)

text \<open>An atom, whatever it is, followed by the loop.\<close>

lemma atom_reaches:
  assumes "\<And>n rest. stops 101 rest \<Longrightarrow> 4 * length (ts @ rest) + 1 \<le> n \<Longrightarrow> parse_atom (Suc n) (at (ts @ rest) p) = Some (Inr e, at rest q)"
    and "ts \<noteq> []" and "tok_type (hd ts) \<noteq> T_NOT" and "UNARY_ARITHMETIC_OPERATORS (tok_type (hd ts)) = None"
  shows "reaches p e 100 ts q"
proof (rule reachesI)
  fix n m rest
  assume stop: "stops (Suc 100) rest" and n: "4 * length (ts @ rest) + 4 \<le> n"
  then obtain k where k: "n = Suc (Suc (Suc k))" "4 * length (ts @ rest) + 1 \<le> k"
    by (cases n; cases "n - 1"; cases "n - 2") auto
  obtain t ts' where ts: "ts = t # ts'" using assms(2) by (cases ts) auto
  have "parse_prefix (Suc (Suc k)) (at (ts @ rest) p) = parse_atom (Suc k) (at (ts @ rest) p)"
    using assms(3,4) by (simp add: ts forward)
  also have "\<dots> = Some (Inr e, at rest q)" using assms(1) k(2) stop by simp
  finally have "parse_expression n m (at (ts @ rest) p) = parse_operators (Suc (Suc k)) m e False (at rest q)"
    by (simp add: k(1) bind_pop_def)
  then show "\<exists>k used. parse_expression n m (at (ts @ rest) p) = parse_operators k m e used (at rest q)
       \<and> 4 * length rest + 1 \<le> k \<and> (used \<longrightarrow> 100 \<le> 30)"
    using k(2) by (intro exI [of _ "Suc (Suc k)"] exI [of _ False]) simp
qed

lemma prefix_reaches:
  assumes "\<And>n rest. stops (Suc l) rest \<Longrightarrow> 4 * length (ts @ rest) + 2 \<le> n \<Longrightarrow> parse_prefix (Suc n) (at (ts @ rest) p) = Some (Inr e, at rest q)"
    and "ts \<noteq> []"
  shows "reaches p e l ts q"
proof (rule reachesI)
  fix n m rest
  assume stop: "stops (Suc l) rest" and n: "4 * length (ts @ rest) + 4 \<le> n"
  then obtain k where k: "n = Suc (Suc k)" "4 * length (ts @ rest) + 2 \<le> k" by (cases n; cases "n - 1") auto
  then have "parse_expression n m (at (ts @ rest) p) = parse_operators (Suc k) m e False (at rest q)"
    using assms(1) stop by (simp add: bind_pop_def)
  then show "\<exists>k used. parse_expression n m (at (ts @ rest) p) = parse_operators k m e used (at rest q)
       \<and> 4 * length rest + 1 \<le> k \<and> (used \<longrightarrow> l \<le> 30)"
    using k(2) by (intro exI [of _ "Suc k"] exI [of _ False]) simp
qed

text \<open>A list of expressions, up to a token that is neither a comma nor goes on with the last one.\<close>

definition lists :: "nat \<Rightarrow> expression list \<Rightarrow> token list \<Rightarrow> nat \<Rightarrow> bool" where
  "lists p es ts q \<longleftrightarrow> (\<forall>n rest. stops 0 rest \<longrightarrow> tok_type (hd rest) \<noteq> T_COMMA \<longrightarrow> 4 * length (ts @ rest) + 5 \<le> n \<longrightarrow>
     comma_list n (\<lambda>k. parse_expression k 0) (at (ts @ rest) p) = Some (Inr es, at rest q))"

lemma listsD:
  assumes "lists p es ts q" and "stops 0 rest" and "tok_type (hd rest) \<noteq> T_COMMA" and "4 * length (ts @ rest) + 5 \<le> n"
  shows "comma_list n (\<lambda>k. parse_expression k 0) (at (ts @ rest) p) = Some (Inr es, at rest q)"
  using assms unfolding lists_def by blast

lemma atom_cases:
  "literal_token t \<Longrightarrow> reaches p (Literal (tok_value t)) 100 [t] p"
  "tok_type t = T_NULL \<Longrightarrow> reaches p (Literal VNull) 100 [t] p"
  "tok_type t = T_PARAMETER \<Longrightarrow> reaches p (Parameter p) 100 [t] (p + 1)"
  "tok_type t = T_IDENTIFIER \<Longrightarrow> tok_type d = T_DOT \<Longrightarrow> tok_type c = T_IDENTIFIER
    \<Longrightarrow> reaches p (Column (tok_lexeme c) (Some (tok_lexeme t))) 100 [t, d, c] p"
  by (rule atom_reaches; auto simp: literal_token_def forward ok_def)+

lemma column_case: "tok_type t = T_IDENTIFIER \<Longrightarrow> reaches p (Column (tok_lexeme t) None) 100 [t] p"
proof (rule atom_reaches)
  fix n rest assume "tok_type t = T_IDENTIFIER" and "stops 101 rest"
  then show "parse_atom (Suc n) (at ([t] @ rest) p) = Some (Inr (Column (tok_lexeme t) None), at rest p)"
    by (cases rest) (auto simp: forward ok_def stops_def)
qed simp_all

lemma paren_case:
  assumes "tok_type a = T_LEFT_PAREN" and "reaches p e l ts q" and "tok_type b = T_RIGHT_PAREN"
  shows "reaches p e 100 (a # ts @ [b]) q"
proof (rule atom_reaches)
  fix n rest assume n: "4 * length ((a # ts @ [b]) @ rest) + 1 \<le> n"
  have "parse_expression n 0 (at (ts @ b # rest) p) = Some (Inr e, at (b # rest) q)"
    by (rule reaches_parses [OF assms(2)]) (use assms(3) n in \<open>auto intro: stops_closer\<close>)
  note run = bind_pop_run(1) [where m = "parse_expression _ _", OF this]
  show "parse_atom (Suc n) (at ((a # ts @ [b]) @ rest) p) = Some (Inr e, at rest q)"
    using assms(1,3) by (simp add: run forward) (simp add: ok_def)
qed (use assms(1) in simp_all)

lemma call_star_case:
  assumes "tok_type t = T_IDENTIFIER" and "tok_type a = T_LEFT_PAREN" and "tok_type s = T_STAR" and "tok_type b = T_RIGHT_PAREN"
  shows "reaches p (FunctionCall (tok_lexeme t) [] True) 100 [t, a, s, b] p"
proof (rule atom_reaches)
  fix n rest assume "4 * length ([t, a, s, b] @ rest) + 1 \<le> n"
  then obtain k where "n = Suc k" by (cases n) auto
  then show "parse_atom (Suc n) (at ([t, a, s, b] @ rest) p) = Some (Inr (FunctionCall (tok_lexeme t) [] True), at rest p)"
    using assms by (simp add: forward) (simp add: ok_def)
qed (use assms(1) in simp_all)

lemma spells_head: "spells p e l ts q \<Longrightarrow> ts \<noteq> [] \<and> tok_type (hd ts) \<noteq> T_STAR \<and> tok_type (hd ts) \<noteq> T_DISTINCT"
  and spells_list_head: "spells_list p es ts q \<Longrightarrow> ts \<noteq> [] \<and> tok_type (hd ts) \<noteq> T_STAR \<and> tok_type (hd ts) \<noteq> T_DISTINCT"
  by (induction rule: spells_spells_list.inducts) (auto simp: literal_token_def)

lemma call_case:
  assumes "tok_type t = T_IDENTIFIER" and "tok_type a = T_LEFT_PAREN" and "lists p es ts q" and "tok_type b = T_RIGHT_PAREN"
    and "ts \<noteq> [] \<and> tok_type (hd ts) \<noteq> T_STAR"
  shows "reaches p (FunctionCall (tok_lexeme t) es False) 100 (t # a # ts @ [b]) q"
proof (rule atom_reaches)
  fix n rest assume n: "4 * length ((t # a # ts @ [b]) @ rest) + 1 \<le> n"
  then obtain k where k: "n = Suc k" by (cases n) auto
  have l: "comma_list k (\<lambda>k. parse_expression k 0) (at (ts @ b # rest) p) = Some (Inr es, at (b # rest) q)"
    by (rule listsD [OF assms(3)]) (use assms(4) n k in \<open>auto intro: stops_closer\<close>)
  obtain t' ts' where ts: "ts = t' # ts'" using assms(5) by (cases ts) auto
  have "parse_function_call n (tok_lexeme t) (at (a # ts @ b # rest) p) = Some (Inr (FunctionCall (tok_lexeme t) es False), at rest q)"
    using assms(2,4,5) by (simp add: bind_pop_run(1) [where m = "comma_list _ _", OF l [unfolded ts append_Cons]] k ts forward) (simp add: ok_def)
  then show "parse_atom (Suc n) (at ((t # a # ts @ [b]) @ rest) p) = Some (Inr (FunctionCall (tok_lexeme t) es False), at rest q)"
    using assms(1,2) by (simp add: forward)
qed (use assms(1) in simp_all)

lemma sign_case:
  assumes "UNARY_ARITHMETIC_OPERATORS (tok_type t) = Some oper" and "reaches p e l ts q" and "60 \<le> l"
  shows "reaches p (UnaryOp oper e) 60 (t # ts) q"
proof (rule prefix_reaches)
  fix n rest assume stop: "stops (Suc 60) rest" and n: "4 * length ((t # ts) @ rest) + 2 \<le> n"
  have "stops 60 rest" by (rule stops_down [OF stop]) simp
  then have "parse_expression n 60 (at (ts @ rest) p) = Some (Inr e, at rest q)"
    by (rule reaches_parses [OF assms(2,3)]) (use n in simp)
  note run = bind_pop_run(1) [where m = "parse_expression _ _", OF this]
  have "tok_type t \<noteq> T_NOT" using assms(1) by auto
  then show "parse_prefix (Suc n) (at ((t # ts) @ rest) p) = Some (Inr (UnaryOp oper e), at rest q)"
    using assms(1) by (simp add: run forward UNARY_ARITHMETIC_BINDING_POWER_def) (simp add: ok_def)
qed simp

lemma negation_case:
  assumes "tok_type t = T_NOT" and "reaches p e l ts q" and "25 \<le> l"
  shows "reaches p (UnaryOp ''NOT'' e) 25 (t # ts) q"
proof (rule prefix_reaches)
  fix n rest assume stop: "stops (Suc 25) rest" and n: "4 * length ((t # ts) @ rest) + 2 \<le> n"
  have "stops 25 rest" by (rule stops_down [OF stop]) simp
  then have "parse_expression n 25 (at (ts @ rest) p) = Some (Inr e, at rest q)"
    by (rule reaches_parses [OF assms(2,3)]) (use n in simp)
  note run = bind_pop_run(1) [where m = "parse_expression _ _", OF this]
  show "parse_prefix (Suc n) (at ((t # ts) @ rest) p) = Some (Inr (UnaryOp ''NOT'' e), at rest q)"
    using assms(1) by (simp add: run forward NOT_BINDING_POWER_def) (simp add: ok_def)
qed simp

lemma binary_case:
  assumes oper: "BINARY_OPERATORS (tok_type t) = Some (b, oper)" and left: "reaches p e1 l1 ts1 q" and right: "reaches q e2 l2 ts2 r"
    and levels: "b \<le> l1" "b = 30 \<longrightarrow> 30 < l1" "b < l2"
  shows "reaches p (BinaryOp e1 oper e2) b (ts1 @ t # ts2) r"
proof (rule reachesI)
  fix n m rest
  assume m: "m \<le> b" and stop: "stops (Suc b) rest" and n: "4 * length ((ts1 @ t # ts2) @ rest) + 4 \<le> n"
  have go: "stops (Suc l1) (t # ts2 @ rest)" by (rule stops_operator [OF oper levels(1)])
  obtain k used where k: "parse_expression n m (at (ts1 @ t # ts2 @ rest) p) = parse_operators k m e1 used (at (t # ts2 @ rest) q)"
    "4 * length (t # ts2 @ rest) + 1 \<le> k" "used \<longrightarrow> l1 \<le> 30"
    by (rule reachesE [OF left _ go, of m n]) (use m levels(1) n in auto)
  obtain k' where k': "k = Suc k'" using k(2) by (cases k) auto
  have e2: "parse_expression k' (Suc b) (at (ts2 @ rest) q) = Some (Inr e2, at rest r)"
    by (rule reaches_parses [OF right]) (use levels(3) stop k(2) k' in auto)
  have ty: "tok_type t \<noteq> T_IS" using binding_powers [OF oper] by simp
  have unused: "\<not> (b = 30 \<and> used)" using levels(2) k(3) by auto
  have "parse_operators k m e1 used (at (t # ts2 @ rest) q)
    = parse_operators k' m (BinaryOp e1 oper e2) (if b = 30 then True else used) (at rest r)"
    using m ty oper unused by (auto simp: bind_pop_run(1) [where m = "parse_expression _ _", OF e2] k' forward COMPARISON_BINDING_POWER_def)
  then show "\<exists>k used. parse_expression n m (at ((ts1 @ t # ts2) @ rest) p) = parse_operators k m (BinaryOp e1 oper e2) used (at rest r)
       \<and> 4 * length rest + 1 \<le> k \<and> (used \<longrightarrow> b \<le> 30)"
    using k k' levels(1) by (intro exI [of _ k'] exI [of _ "if b = 30 then True else used"]) auto
qed

lemma is_null_case:
  assumes "tok_type i = T_IS" and left: "reaches p e l ts q" and level: "30 < l"
    and neg: "negated = [] \<or> (\<exists>k. negated = [k] \<and> tok_type k = T_NOT)" and "tok_type z = T_NULL"
  shows "reaches p (IsNull e (negated \<noteq> [])) 30 (ts @ i # negated @ [z]) q"
proof (rule reachesI)
  fix n m rest
  assume m: "m \<le> (30::nat)" and n: "4 * length ((ts @ i # negated @ [z]) @ rest) + 4 \<le> n"
  let ?more = "i # negated @ z # rest"
  have go: "stops (Suc l) ?more" using assms(1) level by (simp add: stops_def)
  obtain k used where k: "parse_expression n m (at (ts @ ?more) p) = parse_operators k m e used (at ?more q)"
    "4 * length ?more + 1 \<le> k" "used \<longrightarrow> l \<le> 30"
    by (rule reachesE [OF left _ go, of m n]) (use m level n in auto)
  obtain k' where k': "k = Suc k'" using k(2) by (cases k) auto
  have "\<not> used" using k(3) level by auto
  then have "parse_operators k m e used (at ?more q) = parse_operators k' m (IsNull e (negated \<noteq> [])) True (at rest q)"
    using neg assms(1,5) m by (auto simp: k' forward bind_if_next COMPARISON_BINDING_POWER_def)
  then show "\<exists>k used. parse_expression n m (at ((ts @ i # negated @ [z]) @ rest) p)
      = parse_operators k m (IsNull e (negated \<noteq> [])) used (at rest q) \<and> 4 * length rest + 1 \<le> k \<and> (used \<longrightarrow> 30 \<le> (30::nat))"
    using k k' by (intro exI [of _ k'] exI [of _ True]) auto
qed

lemma list_cases:
  "reaches p e l ts q \<Longrightarrow> lists p [e] ts q"
  "reaches p e l ts1 q \<Longrightarrow> tok_type c = T_COMMA \<Longrightarrow> lists q es ts2 r \<Longrightarrow> lists p (e # es) (ts1 @ c # ts2) r"
proof -
  assume r: "reaches p e l ts q"
  show "lists p [e] ts q" unfolding lists_def
  proof (intro allI impI)
    fix n rest assume stop: "stops 0 rest" "tok_type (hd rest) \<noteq> T_COMMA" and n: "4 * length (ts @ rest) + 5 \<le> n"
    then obtain k where k: "n = Suc k" "4 * length (ts @ rest) + 4 \<le> k" by (cases n) auto
    have "parse_expression k 0 (at (ts @ rest) p) = Some (Inr e, at rest q)"
      by (rule reaches_parses [OF r _ stop(1) k(2)]) simp
    note run = bind_pop_run(1) [where m = "parse_expression _ _", OF this]
    show "comma_list n (\<lambda>k. parse_expression k 0) (at (ts @ rest) p) = Some (Inr [e], at rest q)"
      using stop by (simp add: k(1) run, cases rest) (auto simp: forward stops_def ok_def)
  qed
next
  assume r: "reaches p e l ts1 q" and c: "tok_type c = T_COMMA" and l: "lists q es ts2 r"
  show "lists p (e # es) (ts1 @ c # ts2) r" unfolding lists_def
  proof (intro allI impI)
    fix n rest assume stop: "stops 0 rest" "tok_type (hd rest) \<noteq> T_COMMA" and n: "4 * length ((ts1 @ c # ts2) @ rest) + 5 \<le> n"
    then obtain k where k: "n = Suc k" "4 * length (ts1 @ c # ts2 @ rest) + 4 \<le> k" by (cases n) auto
    have head: "parse_expression k 0 (at (ts1 @ c # ts2 @ rest) p) = Some (Inr e, at (c # ts2 @ rest) q)"
      by (rule reaches_parses [OF r]) (use c k(2) in \<open>auto intro: stops_closer\<close>)
    have tail: "comma_list k (\<lambda>k. parse_expression k 0) (at (ts2 @ rest) q) = Some (Inr es, at rest r)"
      by (rule listsD [OF l stop]) (use k(2) in simp)
    show "comma_list n (\<lambda>k. parse_expression k 0) (at ((ts1 @ c # ts2) @ rest) p) = Some (Inr (e # es), at rest r)"
      using c by (simp add: bind_pop_run(1) [where m = "parse_expression _ _", OF head] bind_pop_run(1) [where m = "comma_list _ _", OF tail] k(1) forward) (simp add: ok_def)
  qed
qed

lemma spells_reaches: "spells p e l ts q \<Longrightarrow> reaches p e l ts q"
  and spells_list_lists: "spells_list p es ts q \<Longrightarrow> lists p es ts q"
proof (induction rule: spells_spells_list.inducts)
  case (call t a p es ts q b)
  then show ?case using spells_list_head [OF call(3)] by (intro call_case) simp_all
next
  case (is_null i p e l ts q n)
  then show ?case using is_null_case [of i p e l ts q "[]" n] by simp
next
  case (is_not_null i p e l ts q k n)
  then show ?case using is_null_case [of i p e l ts q "[k]" n] by simp
qed (simp_all add: atom_cases [simplified] column_case paren_case call_star_case sign_case negation_case binary_case list_cases)

lemma spelled_parses:
  assumes "spells p e l ts q" and "m \<le> l" and "stops m rest" and "4 * length (ts @ rest) + 4 \<le> n"
  shows "parse_expression n m (at (ts @ rest) p) = Some (Inr e, at rest q)"
  using reaches_parses [OF spells_reaches [OF assms(1)] assms(2-4)] .

text \<open>So the grammar has one tree for a text.\<close>

lemma spells_unambiguous:
  assumes "spells p e l ts q" and "spells p e' l' ts q'"
  shows "e = e' \<and> q = q'"
proof -
  let ?rest = "[mk_token T_EOF [] VNull 0]" and ?n = "4 * length ts + 8"
  have "stops 0 ?rest" by (simp add: stops_def)
  then have "parse_expression ?n 0 (at (ts @ ?rest) p) = Some (Inr e, at ?rest q)"
    and "parse_expression ?n 0 (at (ts @ ?rest) p) = Some (Inr e', at ?rest q')"
    using spelled_parses [OF assms(1), of 0 ?rest ?n] spelled_parses [OF assms(2), of 0 ?rest ?n] by simp_all
  then show ?thesis by simp
qed

section \<open>Writing an expression\<close>

definition operator_tokens :: "(string \<times> token_type) list" where
  "operator_tokens = [(''OR'', T_OR), (''AND'', T_AND), (''='', T_EQ), (''!='', T_NE), (''<'', T_LT), (''<='', T_LE), (''>'', T_GT),
     (''>='', T_GE), (''LIKE'', T_LIKE), (''+'', T_PLUS), (''-'', T_MINUS), (''*'', T_STAR), (''/'', T_SLASH), (''%'', T_PERCENT)]"

definition kind_token :: "token_type \<Rightarrow> token" where
  "kind_token ty = mk_token ty [] VNull 0"

definition name_token :: "ustr \<Rightarrow> token" where
  "name_token w = mk_token T_IDENTIFIER w VNull 0"

definition operator_type :: "string \<Rightarrow> token_type" where
  "operator_type oper = (case map_of operator_tokens oper of Some ty \<Rightarrow> ty | None \<Rightarrow> T_EOF)"

definition precedence :: "string \<Rightarrow> nat" where
  "precedence oper = (case BINARY_OPERATORS (operator_type oper) of Some (b, _) \<Rightarrow> b | None \<Rightarrow> 0)"

fun level :: "expression \<Rightarrow> nat" where
  "level (UnaryOp oper e) = (if oper = ''NOT'' then 25 else 60)"
| "level (BinaryOp l oper r) = precedence oper"
| "level (IsNull e negated) = 30"
| "level e = 100"

definition enclose :: "bool \<Rightarrow> token list \<Rightarrow> token list" where
  "enclose b ts = (if b then kind_token T_LEFT_PAREN # ts @ [kind_token T_RIGHT_PAREN] else ts)"

definition literal_type :: "pyval \<Rightarrow> token_type" where
  "literal_type v = (case v of VInt i \<Rightarrow> T_INTEGER | VReal w \<Rightarrow> T_REAL | VText s \<Rightarrow> T_STRING | _ \<Rightarrow> T_NULL)"

text \<open>Parentheses only where the levels ask for them.\<close>

fun spell :: "expression \<Rightarrow> token list" and spell_args :: "expression list \<Rightarrow> token list" where
  "spell (Literal v) = [mk_token (literal_type v) [] v 0]"
| "spell (Column c None) = [name_token c]"
| "spell (Column c (Some t)) = [name_token t, kind_token T_DOT, name_token c]"
| "spell (Parameter i) = [kind_token T_PARAMETER]"
| "spell (UnaryOp oper e) =
     (if oper = ''NOT'' then kind_token T_NOT # enclose (level e < 25) (spell e)
      else kind_token (operator_type oper) # enclose (level e < 60) (spell e))"
| "spell (BinaryOp l oper r) =
     enclose (level l < precedence oper \<or> precedence oper = 30 \<and> level l = 30) (spell l)
     @ kind_token (operator_type oper) # enclose (level r \<le> precedence oper) (spell r)"
| "spell (IsNull e negated) =
     enclose (level e \<le> 30) (spell e) @ kind_token T_IS # (if negated then [kind_token T_NOT] else []) @ [kind_token T_NULL]"
| "spell (FunctionCall f es star) =
     name_token f # kind_token T_LEFT_PAREN # (if star then [kind_token T_STAR] else spell_args es) @ [kind_token T_RIGHT_PAREN]"
| "spell_args [] = []"
| "spell_args (e # es) = (if es = [] then spell e else spell e @ kind_token T_COMMA # spell_args es)"

text \<open>The trees SQL text can stand for: no blobs, known operators, an argument unless a star.\<close>

fun writable :: "expression \<Rightarrow> bool" where
  "writable (Literal v) \<longleftrightarrow> (case v of VBlob b \<Rightarrow> False | _ \<Rightarrow> True)"
| "writable (Column c t) \<longleftrightarrow> True"
| "writable (Parameter i) \<longleftrightarrow> True"
| "writable (UnaryOp oper e) \<longleftrightarrow> (oper = ''NOT'' \<or> oper = ''+'' \<or> oper = ''-'') \<and> writable e"
| "writable (BinaryOp l oper r) \<longleftrightarrow> oper \<in> set (map fst operator_tokens) \<and> writable l \<and> writable r"
| "writable (IsNull e negated) \<longleftrightarrow> writable e"
| "writable (FunctionCall f es star) \<longleftrightarrow> (star \<longleftrightarrow> es = []) \<and> list_all writable es"

lemma append_upt:
  assumes "xs @ ys = [p..<q]" and "p \<le> q"
  obtains m where "xs = [p..<m]" and "ys = [m..<q]" and "p \<le> m" and "m \<le> q"
proof
  let ?m = "p + length xs"
  have l: "length xs + length ys = q - p" using assms(1) by (metis length_append length_upt)
  have "xs = take (length xs) [p..<q]" "ys = drop (length xs) [p..<q]" by (simp_all add: assms(1) [symmetric])
  then show "xs = [p..<?m]" "ys = [?m..<q]" using l assms(2) by (simp_all add: take_upt drop_upt)
  show "p \<le> ?m" "?m \<le> q" using l assms(2) by simp_all
qed

lemma no_parameters: "[] = [p..<q] \<Longrightarrow> p \<le> q \<Longrightarrow> q = (p::nat)"
  by (metis le_antisym upt_eq_Nil_conv zero_le)

lemma one_parameter: "[i] = [p..<q] \<Longrightarrow> i = p \<and> q = Suc p"
proof -
  assume a: "[i] = [p..<q]"
  then have "length [i] = q - p" by (metis length_upt)
  then have "q = Suc p" by simp
  with a show ?thesis by simp
qed

lemma enclose_spells:
  assumes "spells p e l ts q"
  shows "spells p e (if b then 100 else l) (enclose b ts) q"
  using assms paren [OF _ assms, of "kind_token T_LEFT_PAREN" "kind_token T_RIGHT_PAREN"] by (simp add: enclose_def kind_token_def)

lemma operator_known:
  "oper \<in> set (map fst operator_tokens) \<Longrightarrow> BINARY_OPERATORS (operator_type oper) = Some (precedence oper, oper) \<and> precedence oper \<le> 50"
  by (auto simp: operator_tokens_def operator_type_def precedence_def COMPARISON_BINDING_POWER_def)

lemma literal_written: "(case v of VBlob b \<Rightarrow> False | _ \<Rightarrow> True) \<Longrightarrow> spells p (Literal v) 100 [mk_token (literal_type v) [] v 0] p"
  using literal [of "mk_token (literal_type v) [] v 0" p] null_literal [of "mk_token (literal_type v) [] v 0" p]
  by (cases v) (simp_all add: literal_type_def literal_token_def)

lemma binary_written:
  assumes "oper \<in> set (map fst operator_tokens)" and "spells p l (level l) (spell l) m" and "spells m r (level r) (spell r) q"
  shows "spells p (BinaryOp l oper r) (precedence oper) (spell (BinaryOp l oper r)) q"
proof -
  note op = operator_known [OF assms(1)]
  let ?bl = "level l < precedence oper \<or> precedence oper = 30 \<and> level l = 30" and ?br = "level r \<le> precedence oper"
  show ?thesis unfolding spell.simps
    by (rule binary [OF _ enclose_spells [OF assms(2), of ?bl] enclose_spells [OF assms(3), of ?br]])
      (use op in \<open>auto simp: kind_token_def\<close>)
qed

lemma unary_written:
  assumes "oper = ''NOT'' \<or> oper = ''+'' \<or> oper = ''-''" and "spells p e (level e) (spell e) q"
  shows "spells p (UnaryOp oper e) (level (UnaryOp oper e)) (spell (UnaryOp oper e)) q"
proof (cases "oper = ''NOT''")
  case True
  have "spells p (UnaryOp ''NOT'' e) 25 (kind_token T_NOT # enclose (level e < 25) (spell e)) q"
    by (rule negation [OF _ enclose_spells [OF assms(2)]]) (simp_all add: kind_token_def)
  then show ?thesis by (simp add: True)
next
  case False
  have "spells p (UnaryOp oper e) 60 (kind_token (operator_type oper) # enclose (level e < 60) (spell e)) q"
    by (rule sign [OF _ enclose_spells [OF assms(2)]])
      (use False assms(1) in \<open>auto simp: kind_token_def operator_type_def operator_tokens_def\<close>)
  then show ?thesis using False by simp
qed

lemma null_written:
  assumes "spells p e (level e) (spell e) q"
  shows "spells p (IsNull e negated) 30 (spell (IsNull e negated)) q"
  using is_null [OF _ enclose_spells [OF assms, of "level e \<le> 30"], of "kind_token T_IS" "kind_token T_NULL"]
    is_not_null [OF _ enclose_spells [OF assms, of "level e \<le> 30"], of "kind_token T_IS" "kind_token T_NOT" "kind_token T_NULL"]
  by (simp add: kind_token_def)

lemma spell_spells:
  "writable e \<Longrightarrow> parameters e = [p..<q] \<Longrightarrow> p \<le> q \<Longrightarrow> spells p e (level e) (spell e) q"
  "list_all writable es \<Longrightarrow> es \<noteq> [] \<Longrightarrow> concat (map parameters es) = [p..<q] \<Longrightarrow> p \<le> q \<Longrightarrow> spells_list p es (spell_args es) q"
proof (induction e and es arbitrary: p q and p q rule: spell_spell_args.induct)
  case (1 v)
  then show ?case using literal_written no_parameters by auto
next
  case (2 c)
  then show ?case using column [of "name_token c" p] no_parameters by (auto simp: name_token_def)
next
  case (3 c t)
  then show ?case using qualified_column [of "name_token t" "kind_token T_DOT" "name_token c" p] no_parameters
    by (auto simp: name_token_def kind_token_def)
next
  case (4 i)
  then have "i = p \<and> q = Suc p" by (intro one_parameter) simp
  then show ?case using parameter [of "kind_token T_PARAMETER" p] by (simp add: kind_token_def)
next
  case (5 oper e)
  then have "oper = ''NOT'' \<or> oper = ''+'' \<or> oper = ''-''" and "spells p e (level e) (spell e) q"
    by (auto split: if_splits)
  then show ?case by (rule unary_written)
next
  case (6 l oper r)
  from 6(4) obtain m where "parameters l = [p..<m]" "parameters r = [m..<q]" "p \<le> m" "m \<le> q"
    using append_upt 6(5) by (metis parameters.simps(3))
  then show ?case using 6 binary_written [of oper p l m r q] by simp
next
  case (7 e negated)
  then show ?case using null_written by simp
next
  case (8 f es star)
  show ?case
  proof (cases star)
    case True
    then show ?thesis using 8(2-4) call_star [of "name_token f" "kind_token T_LEFT_PAREN" "kind_token T_STAR" "kind_token T_RIGHT_PAREN" p] no_parameters
      by (auto simp: name_token_def kind_token_def)
  next
    case False
    then have "spells_list p es (spell_args es) q" using 8 by simp
    then show ?thesis using False call [of "name_token f" "kind_token T_LEFT_PAREN" p es "spell_args es" q "kind_token T_RIGHT_PAREN"]
      by (simp add: name_token_def kind_token_def)
  qed
next
  case (10 e es)
  show ?case
  proof (cases "es = []")
    case True
    then have "spells p e (level e) (spell e) q" using 10 by auto
    then show ?thesis unfolding True spell_args.simps by (simp add: last_item)
  next
    case False
    from 10(6,7) obtain m where m: "parameters e = [p..<m]" "concat (map parameters es) = [m..<q]" "p \<le> m" "m \<le> q"
      using append_upt by (metis concat.simps(2) list.simps(9))
    then have "spells p e (level e) (spell e) m" "spells_list m es (spell_args es) q" using False 10 by auto
    from more_items [OF this(1) _ this(2), of "kind_token T_COMMA"] show ?thesis using False by (simp add: kind_token_def)
  qed
qed simp

section \<open>Properties\<close>

text \<open>
  C28. Writing an expression with parentheses only where precedence asks for them and parsing the tokens gives the
  expression back, its parameters numbered from left to right: precedences, left association and the parameter
  count are those of the trees.
\<close>

theorem expression_roundtrip:
  assumes "writable e" and "parameters e = [p..<q]" and "p \<le> q" and "tok_type end_token = T_EOF" and "4 * length (spell e) + 8 \<le> n"
  shows "parse_expression n 0 \<lparr>p_rest = spell e @ [end_token], p_parameters = p\<rparr>
    = Some (Inr e, \<lparr>p_rest = [end_token], p_parameters = q\<rparr>)"
proof -
  have "stops 0 [end_token]" using assms(4) by (simp add: stops_def)
  from spelled_parses [OF spell_spells(1) [OF assms(1-3)] _ this] show ?thesis using assms(5) by simp
qed

theorem expression_roundtrip_witness:
  "parse_expression 80 0 \<lparr>p_rest = spell (BinaryOp (BinaryOp (Column [97] None) ''-'' (BinaryOp (Parameter 0) ''-'' (Literal (VInt 2)))) ''*''
       (UnaryOp ''-'' (IsNull (Parameter 1) True))) @ [kind_token T_EOF], p_parameters = 0\<rparr>
   = Some (Inr (BinaryOp (BinaryOp (Column [97] None) ''-'' (BinaryOp (Parameter 0) ''-'' (Literal (VInt 2)))) ''*''
       (UnaryOp ''-'' (IsNull (Parameter 1) True))), \<lparr>p_rest = [kind_token T_EOF], p_parameters = 2\<rparr>)"
  by (rule expression_roundtrip)
    (simp_all add: operator_tokens_def kind_token_def enclose_def precedence_def operator_type_def COMPARISON_BINDING_POWER_def numeral_2_eq_2)

end
