(* ===== verification/StatementGrammar.thy ===== *)
theory StatementGrammar
  imports Grammar
begin

text \<open>
  The statement grammar, and its trees as the parser's results: a token list that spells a statement, with or
  without a semicolon, is parsed to that statement.
\<close>

section \<open>The grammar\<close>

definition flag :: "token_type \<Rightarrow> bool \<Rightarrow> token list \<Rightarrow> bool" where
  "flag ty b ts \<longleftrightarrow> (if b then \<exists>t. ts = [t] \<and> tok_type t = ty else ts = [])"

text \<open>Items between commas, \<open>item p x ts q\<close> saying that \<open>ts\<close> spells \<open>x\<close> with parameters \<open>p\<close> to \<open>q\<close>.\<close>

inductive items :: "(nat \<Rightarrow> 'a \<Rightarrow> token list \<Rightarrow> nat \<Rightarrow> bool) \<Rightarrow> nat \<Rightarrow> 'a list \<Rightarrow> token list \<Rightarrow> nat \<Rightarrow> bool"
  for item where
  items_last: "item p x ts q \<Longrightarrow> items item p [x] ts q"
| items_more: "item p x ts1 q \<Longrightarrow> tok_type c = T_COMMA \<Longrightarrow> items item q xs ts2 r \<Longrightarrow> items item p (x # xs) (ts1 @ c # ts2) r"

definition spells_name :: "nat \<Rightarrow> ustr \<Rightarrow> token list \<Rightarrow> nat \<Rightarrow> bool" where
  "spells_name p w ts q \<longleftrightarrow> q = p \<and> (\<exists>t. ts = [t] \<and> tok_type t = T_IDENTIFIER \<and> tok_lexeme t = w)"

definition spells_any :: "nat \<Rightarrow> expression \<Rightarrow> token list \<Rightarrow> nat \<Rightarrow> bool" where
  "spells_any p e ts q \<longleftrightarrow> (\<exists>l. spells p e l ts q)"

inductive spells_opt :: "token_type \<Rightarrow> nat \<Rightarrow> expression option \<Rightarrow> token list \<Rightarrow> nat \<Rightarrow> bool" for ty where
  opt_none: "spells_opt ty p None [] p"
| opt_some: "tok_type t = ty \<Longrightarrow> spells p e l ts q \<Longrightarrow> spells_opt ty p (Some e) (t # ts) q"

inductive spells_order_key :: "nat \<Rightarrow> order_key \<Rightarrow> token list \<Rightarrow> nat \<Rightarrow> bool" where
  key_plain: "spells p e l ts q \<Longrightarrow> spells_order_key p \<lparr>ok_expression = e, ok_descending = False\<rparr> ts q"
| key_asc: "spells p e l ts q \<Longrightarrow> tok_type d = T_ASC \<Longrightarrow> spells_order_key p \<lparr>ok_expression = e, ok_descending = False\<rparr> (ts @ [d]) q"
| key_desc: "spells p e l ts q \<Longrightarrow> tok_type d = T_DESC \<Longrightarrow> spells_order_key p \<lparr>ok_expression = e, ok_descending = True\<rparr> (ts @ [d]) q"

inductive spells_assignment :: "nat \<Rightarrow> assignment \<Rightarrow> token list \<Rightarrow> nat \<Rightarrow> bool" where
  assignment: "tok_type c = T_IDENTIFIER \<Longrightarrow> tok_type t = T_EQ \<Longrightarrow> spells p e l ts q
    \<Longrightarrow> spells_assignment p \<lparr>as_column = tok_lexeme c, as_value = e\<rparr> (c # t # ts) q"

inductive spells_ref :: "table_ref \<Rightarrow> token list \<Rightarrow> bool" where
  ref_plain: "tok_type t = T_IDENTIFIER \<Longrightarrow> spells_ref \<lparr>tr_name = tok_lexeme t, tr_alias = None\<rparr> [t]"
| ref_alias: "tok_type t = T_IDENTIFIER \<Longrightarrow> tok_type a = T_IDENTIFIER
    \<Longrightarrow> spells_ref \<lparr>tr_name = tok_lexeme t, tr_alias = Some (tok_lexeme a)\<rparr> [t, a]"
| ref_as: "tok_type t = T_IDENTIFIER \<Longrightarrow> tok_type k = T_AS \<Longrightarrow> tok_type a = T_IDENTIFIER
    \<Longrightarrow> spells_ref \<lparr>tr_name = tok_lexeme t, tr_alias = Some (tok_lexeme a)\<rparr> [t, k, a]"

inductive spells_join_type :: "string \<Rightarrow> token list \<Rightarrow> bool" where
  "tok_type t = T_JOIN \<Longrightarrow> spells_join_type ''INNER'' [t]"
| "tok_type i = T_INNER \<Longrightarrow> tok_type t = T_JOIN \<Longrightarrow> spells_join_type ''INNER'' [i, t]"
| "tok_type i = T_LEFT \<Longrightarrow> tok_type t = T_JOIN \<Longrightarrow> spells_join_type ''LEFT'' [i, t]"
| "tok_type i = T_LEFT \<Longrightarrow> tok_type k = T_OUTER \<Longrightarrow> tok_type t = T_JOIN \<Longrightarrow> spells_join_type ''LEFT'' [i, k, t]"

inductive spells_joins :: "nat \<Rightarrow> join_clause list \<Rightarrow> token list \<Rightarrow> nat \<Rightarrow> bool" where
  joins_none: "spells_joins p [] [] p"
| joins_comma: "tok_type c = T_COMMA \<Longrightarrow> spells_ref tr ts1 \<Longrightarrow> spells_joins p js ts2 q
    \<Longrightarrow> spells_joins p (\<lparr>jc_join_type = ''INNER'', jc_table = tr, jc_on = None\<rparr> # js) (c # ts1 @ ts2) q"
| joins_on: "spells_join_type jt ts0 \<Longrightarrow> spells_ref tr ts1 \<Longrightarrow> tok_type k = T_ON \<Longrightarrow> spells p e l ts2 q \<Longrightarrow> spells_joins q js ts3 r
    \<Longrightarrow> spells_joins p (\<lparr>jc_join_type = jt, jc_table = tr, jc_on = Some e\<rparr> # js) (ts0 @ ts1 @ k # ts2 @ ts3) r"

inductive spells_columns :: "nat \<Rightarrow> expression list option \<Rightarrow> token list \<Rightarrow> nat \<Rightarrow> bool" where
  columns_star: "tok_type t = T_STAR \<Longrightarrow> spells_columns p None [t] p"
| columns_list: "spells_list p es ts q \<Longrightarrow> spells_columns p (Some es) ts q"

text \<open>\<^verbatim>\<open>GROUP BY\<close> and \<^verbatim>\<open>ORDER BY\<close>, which may be missing.\<close>

inductive spells_by :: "token_type \<Rightarrow> (nat \<Rightarrow> 'a list \<Rightarrow> token list \<Rightarrow> nat \<Rightarrow> bool) \<Rightarrow> nat \<Rightarrow> 'a list \<Rightarrow> token list \<Rightarrow> nat \<Rightarrow> bool"
  for ty list where
  by_none: "spells_by ty list p [] [] p"
| by_list: "tok_type t = ty \<Longrightarrow> tok_type b = T_BY \<Longrightarrow> list p xs ts q \<Longrightarrow> spells_by ty list p xs (t # b # ts) q"

inductive spells_select :: "nat \<Rightarrow> select_stmt \<Rightarrow> token list \<Rightarrow> nat \<Rightarrow> bool" where
  select: "tok_type s = T_SELECT \<Longrightarrow> flag T_DISTINCT dst ds \<Longrightarrow> spells_columns p0 cols cs p1 \<Longrightarrow> tok_type f = T_FROM
    \<Longrightarrow> spells_ref tr ts1 \<Longrightarrow> spells_joins p1 js ts2 p2 \<Longrightarrow> spells_opt T_WHERE p2 wh ts3 p3
    \<Longrightarrow> spells_by T_GROUP spells_list p3 group_by ts4 p4 \<Longrightarrow> spells_opt T_HAVING p4 having ts5 p5
    \<Longrightarrow> spells_by T_ORDER (items spells_order_key) p5 order_by ts6 p6
    \<Longrightarrow> spells_opt T_LIMIT p6 limit ts7 p7 \<Longrightarrow> spells_opt T_OFFSET p7 offset ts8 p8
    \<Longrightarrow> spells_select p0 \<lparr>se_expressions = cols, se_table = tr, se_joins = js, se_where = wh, se_group_by = group_by,
         se_having = having, se_distinct = dst, se_order_by = order_by, se_limit = limit, se_offset = offset\<rparr>
       (s # ds @ cs @ f # ts1 @ ts2 @ ts3 @ ts4 @ ts5 @ ts6 @ ts7 @ ts8) p8"

text \<open>Column definitions whose names differ after case folding, from \<open>seen\<close> too.\<close>

inductive spells_column_defs :: "char_tables \<Rightarrow> ustr list \<Rightarrow> column_def list \<Rightarrow> token list \<Rightarrow> bool" for u where
  column_last: "tok_type t = T_IDENTIFIER \<Longrightarrow> casefold u (tok_lexeme t) \<notin> set seen \<Longrightarrow> COLUMN_TYPES (tok_type k) = Some ty
    \<Longrightarrow> spells_column_defs u seen [\<lparr>cd_name = tok_lexeme t, cd_data_type = ty\<rparr>] [t, k]"
| column_more: "tok_type t = T_IDENTIFIER \<Longrightarrow> casefold u (tok_lexeme t) \<notin> set seen \<Longrightarrow> COLUMN_TYPES (tok_type k) = Some ty
    \<Longrightarrow> tok_type c = T_COMMA \<Longrightarrow> spells_column_defs u (casefold u (tok_lexeme t) # seen) cs ts
    \<Longrightarrow> spells_column_defs u seen (\<lparr>cd_name = tok_lexeme t, cd_data_type = ty\<rparr> # cs) (t # k # c # ts)"

inductive spells_statement :: "char_tables \<Rightarrow> statement \<Rightarrow> token list \<Rightarrow> bool" for u where
  create_table: "tok_type a = T_CREATE \<Longrightarrow> tok_type b = T_TABLE \<Longrightarrow> tok_type t = T_IDENTIFIER \<Longrightarrow> tok_type c = T_LEFT_PAREN
    \<Longrightarrow> spells_column_defs u [] cs ts \<Longrightarrow> tok_type d = T_RIGHT_PAREN
    \<Longrightarrow> spells_statement u (CreateTable (tok_lexeme t) cs) (a # b # t # c # ts @ [d])"
| create_index: "tok_type a = T_CREATE \<Longrightarrow> flag T_UNIQUE unique us \<Longrightarrow> tok_type b = T_INDEX \<Longrightarrow> tok_type i = T_IDENTIFIER
    \<Longrightarrow> tok_type k = T_ON \<Longrightarrow> tok_type t = T_IDENTIFIER \<Longrightarrow> tok_type c = T_LEFT_PAREN \<Longrightarrow> items spells_name 0 ws ts 0
    \<Longrightarrow> tok_type d = T_RIGHT_PAREN
    \<Longrightarrow> spells_statement u (CreateIndex (tok_lexeme i) (tok_lexeme t) ws unique) (a # us @ b # i # k # t # c # ts @ [d])"
| insert: "tok_type a = T_INSERT \<Longrightarrow> tok_type b = T_INTO \<Longrightarrow> tok_type t = T_IDENTIFIER \<Longrightarrow> tok_type v = T_VALUES
    \<Longrightarrow> tok_type c = T_LEFT_PAREN \<Longrightarrow> spells_list 0 es ts q \<Longrightarrow> tok_type d = T_RIGHT_PAREN
    \<Longrightarrow> spells_statement u (Insert (tok_lexeme t) es) (a # b # t # v # c # ts @ [d])"
| select_statement: "spells_select 0 s ts q \<Longrightarrow> spells_statement u (Select s) ts"
| delete: "tok_type a = T_DELETE \<Longrightarrow> tok_type b = T_FROM \<Longrightarrow> tok_type t = T_IDENTIFIER \<Longrightarrow> spells_opt T_WHERE 0 wh ts q
    \<Longrightarrow> spells_statement u (Delete (tok_lexeme t) wh) (a # b # t # ts)"
| update: "tok_type a = T_UPDATE \<Longrightarrow> tok_type t = T_IDENTIFIER \<Longrightarrow> tok_type b = T_SET \<Longrightarrow> items spells_assignment 0 asgs ts1 q
    \<Longrightarrow> spells_opt T_WHERE q wh ts2 r \<Longrightarrow> spells_statement u (Update (tok_lexeme t) asgs wh) (a # t # b # ts1 @ ts2)"
| analyze_all: "tok_type a = T_ANALYZE \<Longrightarrow> spells_statement u (Analyze None) [a]"
| analyze: "tok_type a = T_ANALYZE \<Longrightarrow> tok_type t = T_IDENTIFIER \<Longrightarrow> spells_statement u (Analyze (Some (tok_lexeme t))) [a, t]"
| explain: "tok_type a = T_EXPLAIN \<Longrightarrow> flag T_ANALYZE analyze bs \<Longrightarrow> spells_select 0 s ts q
    \<Longrightarrow> spells_statement u (Explain s analyze) (a # bs @ ts)"
| begin_deferred: "tok_type a = T_BEGIN \<Longrightarrow> spells_statement u (Begin False) [a]"
| begin_immediate: "tok_type a = T_BEGIN \<Longrightarrow> tok_type t = T_IDENTIFIER \<Longrightarrow> casefold u (tok_lexeme t) = ustr_of ''immediate''
    \<Longrightarrow> spells_statement u (Begin True) [a, t]"
| commit: "tok_type a = T_COMMIT \<Longrightarrow> spells_statement u Commit [a]"
| rollback: "tok_type a = T_ROLLBACK \<Longrightarrow> spells_statement u Rollback [a]"

section \<open>The parser on spelled parts\<close>

text \<open>What comes next is of one of these kinds.\<close>

definition follows :: "token_type set \<Rightarrow> token list \<Rightarrow> bool" where
  "follows S ts \<longleftrightarrow> ts \<noteq> [] \<and> tok_type (hd ts) \<in> S"

definition closers :: "token_type set" where
  "closers = {T_COMMA, T_RIGHT_PAREN, T_FROM, T_WHERE, T_GROUP, T_HAVING, T_ORDER, T_ASC, T_DESC, T_LIMIT, T_OFFSET, T_JOIN, T_INNER,
     T_LEFT, T_SEMICOLON, T_EOF}"

lemma follows_simps [simp]: "follows S (t # ts) \<longleftrightarrow> tok_type t \<in> S" "\<not> follows S []"
  by (simp_all add: follows_def)

lemma follows_mono: "follows S ts \<Longrightarrow> S \<subseteq> S' \<Longrightarrow> follows S' ts"
  by (auto simp: follows_def)

lemma follows_stops: "follows closers ts \<Longrightarrow> stops m ts"
  by (auto simp: follows_def closers_def stops_def)

lemma run_bind: "m s = Some (Inr x, s') \<Longrightarrow> bind_pop m f s = f x s'"
  by (rule bind_pop_run(1))

lemma run_any:
  assumes "spells p e l ts q" and "follows closers rest" and "4 * length (ts @ rest) + 4 \<le> n"
  shows "parse_expression n 0 (at (ts @ rest) p) = Some (Inr e, at rest q)"
  by (rule spelled_parses [OF assms(1) _ follows_stops [OF assms(2)] assms(3)]) simp

lemma run_list:
  assumes "spells_list p es ts q" and "follows (closers - {T_COMMA}) rest" and "4 * length (ts @ rest) + 5 \<le> n"
  shows "expression_list n (at (ts @ rest) p) = Some (Inr es, at rest q)"
  unfolding expression_list_def
  by (rule listsD [OF spells_list_lists [OF assms(1)]]) (use assms(2,3) in \<open>auto intro: follows_stops simp: follows_def\<close>)

lemma run_opt:
  assumes "spells_opt ty p eo ts q" and "follows (closers - {ty}) rest" and "4 * length (ts @ rest) + 4 \<le> n"
  shows "optional_expression n ty (at (ts @ rest) p) = Some (Inr eo, at rest q)"
  using assms(1)
proof cases
  case opt_none
  then show ?thesis using assms(2) by (cases rest) (auto simp: optional_expression_def forward ok_def)
next
  case (opt_some t e l ts')
  have "parse_expression n 0 (at (ts' @ rest) p) = Some (Inr e, at rest q)"
    by (rule run_any [OF opt_some(4)]) (use assms(2,3) opt_some in \<open>auto intro: follows_mono\<close>)
  note run = run_bind [where m = "parse_expression _ _", OF this]
  show ?thesis using opt_some by (simp add: optional_expression_def forward run) (simp add: ok_def)
qed

lemma opt_follows: "spells_opt ty p eo ts q \<Longrightarrow> follows S rest \<Longrightarrow> follows (insert ty S) (ts @ rest)"
  by (erule spells_opt.cases) (auto intro: follows_mono)

lemma run_items:
  assumes "items item p xs ts q"
    and run: "\<And>k x ts p q rest. item p x ts q \<Longrightarrow> follows S rest \<Longrightarrow> 4 * length (ts @ rest) + 4 \<le> k
      \<Longrightarrow> pr k (at (ts @ rest) p) = Some (Inr x, at rest q)"
    and "T_COMMA \<in> S" and "follows (S - {T_COMMA}) rest" and "4 * length (ts @ rest) + 5 \<le> n"
  shows "comma_list n pr (at (ts @ rest) p) = Some (Inr xs, at rest q)"
  using assms(1,5)
proof (induction arbitrary: n)
  case (items_last p x ts q)
  obtain k where k: "n = Suc k" "4 * length (ts @ rest) + 4 \<le> k" using items_last(2) by (cases n) auto
  have "pr k (at (ts @ rest) p) = Some (Inr x, at rest q)"
    by (rule run [OF items_last(1) follows_mono [OF assms(4)] k(2)]) auto
  note r = run_bind [where m = "pr _", OF this]
  show ?case using assms(4) by (simp add: k(1) r, cases rest) (auto simp: follows_def forward ok_def)
next
  case (items_more p x ts1 q c xs ts2 r)
  obtain k where k: "n = Suc k" "4 * length (ts1 @ c # ts2 @ rest) + 4 \<le> k" using items_more(5) by (cases n) auto
  have "pr k (at (ts1 @ c # ts2 @ rest) p) = Some (Inr x, at (c # ts2 @ rest) q)"
    by (rule run [OF items_more(1) _ k(2)]) (use items_more(2) assms(3) in simp)
  note r1 = run_bind [where m = "pr _", OF this]
  have "comma_list k pr (at (ts2 @ rest) q) = Some (Inr xs, at rest r)" using items_more(4) k(2) by simp
  note r2 = run_bind [where m = "comma_list _ _", OF this]
  show ?case using items_more(2) by (simp add: k(1) r1 r2 forward) (simp add: ok_def)
qed

lemma run_name: "tok_type t = T_IDENTIFIER \<Longrightarrow> expect_name (at (t # ts) p) = Some (Inr (tok_lexeme t), at ts p)"
  by (simp add: expect_name_def forward) (simp add: ok_def)

lemma bind_name [forward]: "tok_type t = T_IDENTIFIER \<Longrightarrow> bind_pop expect_name f (at (t # ts) p) = f (tok_lexeme t) (at ts p)"
  by (rule run_bind [where m = expect_name, OF run_name])

lemma run_order_key:
  assumes "spells_order_key p key ts q" and "follows (closers - {T_ASC, T_DESC}) rest" and "4 * length (ts @ rest) + 4 \<le> n"
  shows "parse_order_key n (at (ts @ rest) p) = Some (Inr key, at rest q)"
proof -
  have closes: "follows closers rest" by (rule follows_mono [OF assms(2)]) auto
  obtain t rs where rest: "rest = t # rs" and t: "tok_type t \<noteq> T_ASC" "tok_type t \<noteq> T_DESC"
    using assms(2) by (cases rest) (auto simp: follows_def)
  show ?thesis
    using assms(1)
  proof cases
    case (key_plain e l)
    have "parse_expression n 0 (at (ts @ rest) p) = Some (Inr e, at rest q)" by (rule run_any [OF key_plain(2) closes assms(3)])
    from run_bind [where m = "parse_expression _ _" and f = "f :: expression \<Rightarrow> order_key parse" for f, OF this]
    show ?thesis using t by (simp add: key_plain(1) parse_order_key_def) (simp add: rest bind_if_next forward ok_def)
  next
    case (key_asc e l ts' d)
    have "parse_expression n 0 (at (ts' @ d # rest) p) = Some (Inr e, at (d # rest) q)"
      by (rule run_any [OF key_asc(3)]) (use assms(3) key_asc in \<open>auto simp: closers_def\<close>)
    note run = run_bind [where m = "parse_expression _ _", OF this]
    show ?thesis using key_asc by (simp add: parse_order_key_def run bind_if_next forward) (simp add: ok_def)
  next
    case (key_desc e l ts' d)
    have "parse_expression n 0 (at (ts' @ d # rest) p) = Some (Inr e, at (d # rest) q)"
      by (rule run_any [OF key_desc(3)]) (use assms(3) key_desc in \<open>auto simp: closers_def\<close>)
    note run = run_bind [where m = "parse_expression _ _", OF this]
    show ?thesis using key_desc by (simp add: parse_order_key_def run bind_if_next forward) (simp add: ok_def)
  qed
qed

lemma run_assignment:
  assumes "spells_assignment p asg ts q" and "follows closers rest" and "4 * length (ts @ rest) + 4 \<le> n"
  shows "parse_assignment n (at (ts @ rest) p) = Some (Inr asg, at rest q)"
  using assms(1)
proof cases
  case (assignment c t e l ts')
  have "parse_expression n 0 (at (ts' @ rest) p) = Some (Inr e, at rest q)"
    by (rule run_any [OF assignment(5) assms(2)]) (use assms(3) assignment in auto)
  note run = run_bind [where m = "parse_expression _ _", OF this]
  show ?thesis using assignment by (simp add: parse_assignment_def forward run) (simp add: ok_def)
qed

lemma run_ref:
  assumes "spells_ref tr ts" and "follows (- {T_AS, T_IDENTIFIER}) rest"
  shows "parse_table_ref (at (ts @ rest) p) = Some (Inr tr, at rest p)"
proof -
  obtain t rs where rest: "rest = t # rs" and t: "tok_type t \<noteq> T_AS" "tok_type t \<noteq> T_IDENTIFIER"
    using assms(2) by (cases rest) (auto simp: follows_def)
  show ?thesis
    using assms(1) t by cases (simp_all add: parse_table_ref_def rest bind_if_next forward, simp_all add: ok_def)
qed

lemma run_flag:
  assumes "flag ty b ts" and "follows (- {ty}) rest"
  shows "bind_pop (if_next ty (ok True) (ok False)) f (at (ts @ rest) p) = f b (at rest p)"
  using assms by (cases rest) (auto simp: flag_def bind_if_next forward split: if_splits)

lemma run_join_type:
  assumes "spells_join_type jt ts"
  shows "bind_pop parse_join_type f (at (ts @ t # rest) p) = f (Some jt) (at (t # rest) p)"
  using assms by cases (simp_all add: parse_join_type_def bind_if_next forward)

lemma join_type_head: "spells_join_type jt ts \<Longrightarrow> follows {T_JOIN, T_INNER, T_LEFT} (ts @ rest)"
  by (erule spells_join_type.cases) simp_all

lemma run_no_join:
  assumes "follows (- {T_JOIN, T_INNER, T_LEFT}) rest"
  shows "bind_pop parse_join_type f (at rest p) = f None (at rest p)"
  using assms by (cases rest) (auto simp: parse_join_type_def bind_if_next forward)

lemma joins_follow: "spells_joins p js ts q \<Longrightarrow> follows S rest \<Longrightarrow> follows (insert T_COMMA (insert T_JOIN (insert T_INNER (insert T_LEFT S)))) (ts @ rest)"
  by (erule spells_joins.cases) (auto intro: follows_mono follows_mono [OF join_type_head])

lemma run_joins:
  assumes "spells_joins p js ts q" and "follows (closers - {T_COMMA, T_JOIN, T_INNER, T_LEFT}) rest" and "4 * length (ts @ rest) + 5 \<le> n"
  shows "parse_joins n (at (ts @ rest) p) = Some (Inr js, at rest q)"
  using assms(1,3)
proof (induction arbitrary: n)
  case (joins_none p)
  obtain k where k: "n = Suc k" using joins_none by (cases n) auto
  obtain t rs where rest: "rest = t # rs" using assms(2) by (cases rest) auto
  have "follows (- {T_JOIN, T_INNER, T_LEFT}) rest" using assms(2) by (rule follows_mono) auto
  note none = run_no_join [OF this]
  have "tok_type t \<noteq> T_COMMA" using assms(2) by (simp add: rest)
  then show ?case by (simp add: k rest forward none [unfolded rest]) (simp add: ok_def)
next
  case (joins_comma c tr ts1 p js ts2 q)
  obtain k where k: "n = Suc k" "4 * length (ts2 @ rest) + 5 \<le> k" using joins_comma(5) by (cases n) auto
  have "follows (- {T_AS, T_IDENTIFIER}) (ts2 @ rest)"
    by (rule follows_mono [OF joins_follow [OF joins_comma(3) assms(2)]]) (auto simp: closers_def)
  note r1 = run_bind [where m = parse_table_ref, OF run_ref [OF joins_comma(2) this]]
  note r2 = run_bind [where m = "parse_joins _", OF joins_comma(4) [OF k(2)]]
  show ?case using joins_comma(1) by (simp add: k(1) forward r1 r2) (simp add: ok_def)
next
  case (joins_on jt ts0 tr ts1 o' p e l ts2 q js ts3 r)
  obtain k where k: "n = Suc k" "4 * length (ts0 @ ts1 @ o' # ts2 @ ts3 @ rest) + 4 \<le> k" using joins_on(7) by (cases n) auto
  obtain j js0 where ts0: "ts0 = j # js0" "tok_type j \<noteq> T_COMMA" using join_type_head [OF joins_on(1), of "[]"] by (cases ts0) auto
  obtain j1 js1 where ts1: "ts1 = j1 # js1" using joins_on(2) by cases auto
  note r0 = run_join_type [OF joins_on(1)]
  note r1 = run_bind [where m = parse_table_ref, OF run_ref [OF joins_on(2), of "o' # ts2 @ ts3 @ rest"]]
  have "parse_expression k 0 (at (ts2 @ ts3 @ rest) p) = Some (Inr e, at (ts3 @ rest) q)"
    by (rule run_any [OF joins_on(4)]) (use joins_follow [OF joins_on(5) assms(2)] k(2) in \<open>auto intro: follows_mono simp: closers_def\<close>)
  note r2 = run_bind [where m = "parse_expression _ _", OF this]
  have "parse_joins k (at (ts3 @ rest) q) = Some (Inr js, at rest r)" by (rule joins_on(6)) (use k(2) in simp)
  note r3 = run_bind [where m = "parse_joins _", OF this]
  have "parse_joins n (at ((ts0 @ ts1 @ o' # ts2 @ ts3) @ rest) p)
    = bind_pop parse_join_type (\<lambda>join_type. case join_type of
          None \<Rightarrow> ok []
        | Some jt \<Rightarrow>
            bind_pop parse_table_ref (\<lambda>table. bind_pop (expect T_ON) (\<lambda>_. bind_pop (parse_expression k 0) (\<lambda>cond.
            bind_pop (parse_joins k) (\<lambda>js. ok (\<lparr>jc_join_type = jt, jc_table = table, jc_on = Some cond\<rparr> # js))))))
        (at (ts0 @ ts1 @ o' # ts2 @ ts3 @ rest) p)"
    using ts0 by (simp add: k(1) forward)
  also have "\<dots> = Some (Inr (\<lparr>jc_join_type = jt, jc_table = tr, jc_on = Some e\<rparr> # js), at rest r)"
    using joins_on(3)
    by (simp add: ts1 forward r0 [of _ j1 "js1 @ o' # ts2 @ ts3 @ rest"] r1 [unfolded ts1 append_Cons] r2 r3) (simp add: ok_def)
  finally show ?case .
qed

lemma run_by:
  assumes "spells_by ty list p xs ts q" and "\<And>ts. list p xs ts q \<Longrightarrow> 4 * length (ts @ rest) + 5 \<le> n
      \<Longrightarrow> pr (at (ts @ rest) p) = Some (Inr xs, at rest q)"
    and "follows (- {ty}) rest" and "4 * length (ts @ rest) + 5 \<le> n"
  shows "if_next ty (bind_pop (expect T_BY) (\<lambda>_. pr)) (ok []) (at (ts @ rest) p) = Some (Inr xs, at rest q)"
  using assms(1)
proof cases
  case by_none
  then show ?thesis using assms(3) by (cases rest) (auto simp: forward ok_def)
next
  case (by_list t b ts')
  then show ?thesis using assms(2) [of ts'] assms(4) by (simp add: forward)
qed

lemma by_follows: "spells_by ty list p xs ts q \<Longrightarrow> follows S rest \<Longrightarrow> follows (insert ty S) (ts @ rest)"
  by (erule spells_by.cases) (auto intro: follows_mono)

lemma run_columns:
  assumes "spells_columns p cols ts q" and "tok_type f = T_FROM" and "4 * length (ts @ f # rest) + 5 \<le> n"
  shows "if_next T_STAR (ok None) (bind_pop (expression_list n) (\<lambda>es. ok (Some es))) (at (ts @ f # rest) p)
    = Some (Inr cols, at (f # rest) q)"
  using assms(1)
proof cases
  case (columns_star t)
  then show ?thesis by (simp add: forward) (simp add: ok_def)
next
  case (columns_list es)
  obtain t ts' where ts: "ts = t # ts'" "tok_type t \<noteq> T_STAR" using spells_list_head [OF columns_list(2)] by (cases ts) auto
  have "expression_list n (at (ts @ f # rest) p) = Some (Inr es, at (f # rest) q)"
    by (rule run_list [OF columns_list(2)]) (use assms in \<open>auto simp: closers_def\<close>)
  note run = run_bind [where m = "expression_list _", OF this [unfolded ts(1) append_Cons]]
  show ?thesis using ts(2) columns_list(1) by (simp add: ts(1) forward run) (simp add: ok_def)
qed

abbreviation statement_end :: "token_type set" where
  "statement_end \<equiv> {T_SEMICOLON, T_EOF}"

lemma columns_head: "spells_columns p cols ts q \<Longrightarrow> follows (- {T_DISTINCT}) (ts @ rest)"
proof (cases ts)
  case (Cons t ts')
  then show "spells_columns p cols ts q \<Longrightarrow> follows (- {T_DISTINCT}) (ts @ rest)"
    by (auto elim!: spells_columns.cases dest: spells_list_head)
qed (auto elim!: spells_columns.cases dest: spells_list_head)

lemma run_select:
  assumes "spells_select p s ts q" and "follows statement_end rest" and "4 * length (ts @ rest) + 5 \<le> n"
  shows "parse_select n (at (ts @ rest) p) = Some (Inr s, at rest q)"
  using assms(1)
proof cases
  case (select s0 dst ds cols cs p1 f tr ts1 js ts2 p2 wh ts3 p3 group_by ts4 p4 having ts5 p5 order_by ts6 p6 limit ts7 p7 offset ts8)
  let ?r7 = "ts8 @ rest"
  let ?r6 = "ts7 @ ?r7"
  let ?r5 = "ts6 @ ?r6"
  let ?r4 = "ts5 @ ?r5"
  let ?r3 = "ts4 @ ?r4"
  let ?r2 = "ts3 @ ?r3"
  let ?r1 = "ts2 @ ?r2"
  have n: "4 * length (ts1 @ ?r1) + 9 \<le> n" "4 * length (cs @ f # ts1 @ ?r1) + 5 \<le> n"
    using assms(3) select(2) by simp_all
  note f8 = assms(2)
  note f7 = opt_follows [OF select(14) f8]
  note f6 = opt_follows [OF select(13) f7]
  note f5 = by_follows [OF select(12) f6]
  note f4 = opt_follows [OF select(11) f5]
  note f3 = by_follows [OF select(10) f4]
  note f2 = opt_follows [OF select(9) f3]
  note f1 = joins_follow [OF select(8) f2]
  have "if_next T_STAR (ok None) (bind_pop (expression_list n) (\<lambda>es. ok (Some es))) (at (cs @ f # ts1 @ ?r1) p)
    = Some (Inr cols, at (f # ts1 @ ?r1) p1)" by (rule run_columns [OF select(5,6) n(2)])
  note r0 = run_bind [where m = "if_next T_STAR _ _", OF this]
  have "parse_table_ref (at (ts1 @ ?r1) p1) = Some (Inr tr, at ?r1 p1)"
    by (rule run_ref [OF select(7) follows_mono [OF f1]]) auto
  note r1 = run_bind [where m = parse_table_ref, OF this]
  have "parse_joins n (at ?r1 p1) = Some (Inr js, at ?r2 p2)"
    by (rule run_joins [OF select(8) follows_mono [OF f2]]) (use n in \<open>auto simp: closers_def\<close>)
  note r2 = run_bind [where m = "parse_joins _", OF this]
  have "optional_expression n T_WHERE (at ?r2 p2) = Some (Inr wh, at ?r3 p3)"
    by (rule run_opt [OF select(9) follows_mono [OF f3]]) (use n in \<open>auto simp: closers_def\<close>)
  note r3 = run_bind [where m = "optional_expression _ _", OF this]
  have keys: "expression_list n (at (ts @ ?r4) p3) = Some (Inr group_by, at ?r4 p4)"
    if "spells_list p3 group_by ts p4" "4 * length (ts @ ?r4) + 5 \<le> n" for ts
    by (rule run_list [OF that(1) _ that(2)]) (use follows_mono [OF f4] in \<open>auto simp: closers_def\<close>)
  have "if_next T_GROUP (bind_pop (expect T_BY) (\<lambda>_. expression_list n)) (ok []) (at ?r3 p3) = Some (Inr group_by, at ?r4 p4)"
    by (rule run_by [OF select(10)]) (use n keys follows_mono [OF f4] in auto)
  note r4 = run_bind [where m = "if_next T_GROUP _ _", OF this]
  have "optional_expression n T_HAVING (at ?r4 p4) = Some (Inr having, at ?r5 p5)"
    by (rule run_opt [OF select(11) follows_mono [OF f5]]) (use n in \<open>auto simp: closers_def\<close>)
  note r5 = run_bind [where m = "optional_expression _ _", OF this]
  have order_keys: "comma_list n parse_order_key (at (ts @ ?r6) p5) = Some (Inr order_by, at ?r6 p6)"
    if "items spells_order_key p5 order_by ts p6" "4 * length (ts @ ?r6) + 5 \<le> n" for ts
    by (rule run_items [OF that(1) run_order_key, where S = "closers - {T_ASC, T_DESC}"])
      (use that(2) follows_mono [OF f6] in \<open>auto simp: closers_def\<close>)
  have "if_next T_ORDER (bind_pop (expect T_BY) (\<lambda>_. comma_list n parse_order_key)) (ok []) (at ?r5 p5) = Some (Inr order_by, at ?r6 p6)"
    by (rule run_by [OF select(12)]) (use n order_keys follows_mono [OF f6] in auto)
  note r6 = run_bind [where m = "if_next T_ORDER _ _", OF this]
  have "optional_expression n T_LIMIT (at ?r6 p6) = Some (Inr limit, at ?r7 p7)"
    by (rule run_opt [OF select(13) follows_mono [OF f7]]) (use n in \<open>auto simp: closers_def\<close>)
  note r7 = run_bind [where m = "optional_expression _ _", OF this]
  have "optional_expression n T_OFFSET (at ?r7 p7) = Some (Inr offset, at rest q)"
    by (rule run_opt [OF select(14) follows_mono [OF f8]]) (use n in \<open>auto simp: closers_def\<close>)
  note r8 = run_bind [where m = "optional_expression _ _", OF this]
  show ?thesis unfolding select(1,2) parse_select_def parse_from_clause_def case_prod_beta
    using select(3,6)
    by (simp add: forward run_flag [OF select(4) columns_head [OF select(5)]] r0 r1 r2 r3 r4 r5 r6 r7 r8) (simp add: ok_def)
qed

lemma run_column_defs:
  assumes "spells_column_defs u seen cs ts" and "follows (- {T_COMMA}) rest" and "length (ts @ rest) \<le> n"
  shows "parse_column_defs n u seen (at (ts @ rest) p) = Some (Inr cs, at rest p)"
  using assms(1,3)
proof (induction arbitrary: n)
  case (column_last t seen k ty)
  then obtain n' where "n = Suc n'" by (cases n) auto
  then show ?case using column_last assms(2) by (cases rest) (simp_all add: forward, simp add: ok_def)
next
  case (column_more t seen k ty c cs ts)
  then obtain n' where n: "n = Suc n'" by (cases n) auto
  have "parse_column_defs n' u (casefold u (tok_lexeme t) # seen) (at (ts @ rest) p) = Some (Inr cs, at rest p)"
    by (rule column_more.IH) (use column_more.prems n in simp)
  note run = run_bind [where m = "parse_column_defs _ _ _", OF this]
  show ?case using column_more by (simp add: n forward run) (simp add: ok_def)
qed

lemma run_names:
  assumes "items spells_name p ws ts q" and "tok_type b = T_RIGHT_PAREN" and "4 * length (ts @ b # rest) + 5 \<le> n"
  shows "comma_list n (\<lambda>_. expect_name) (at (ts @ b # rest) p) = Some (Inr ws, at (b # rest) q)"
  by (rule run_items [OF assms(1), where S = UNIV]) (use assms(2,3) in \<open>auto simp: spells_name_def run_name\<close>)

text \<open>A statement, whatever its kind, up to the end.\<close>

lemma run_create_table:
  assumes "tok_type a = T_CREATE" and "tok_type b = T_TABLE" and "tok_type t = T_IDENTIFIER" and "tok_type c = T_LEFT_PAREN"
    and "spells_column_defs u [] cs ts" and "tok_type d = T_RIGHT_PAREN" and "4 * length ((a # b # t # c # ts @ [d]) @ rest) + 5 \<le> n"
  shows "parse_create n u (at ((a # b # t # c # ts @ [d]) @ rest) p) = Some (Inr (CreateTable (tok_lexeme t) cs), at rest p)"
proof -
  have "parse_column_defs n u [] (at (ts @ d # rest) p) = Some (Inr cs, at (d # rest) p)"
    by (rule run_column_defs [OF assms(5)]) (use assms(6,7) in auto)
  note run = run_bind [where m = "parse_column_defs _ _ _", OF this]
  show ?thesis using assms(1-4,6)
    by (simp add: parse_create_def parse_create_table_def bind_if_next forward run) (simp add: ok_def)
qed

lemma run_create_index:
  assumes "tok_type a = T_CREATE" and "flag T_UNIQUE unique us" and "tok_type b = T_INDEX" and "tok_type i = T_IDENTIFIER"
    and "tok_type k = T_ON" and "tok_type t = T_IDENTIFIER" and "tok_type c = T_LEFT_PAREN" and "items spells_name p ws ts q"
    and "tok_type d = T_RIGHT_PAREN" and "4 * length ((a # us @ b # i # k # t # c # ts @ [d]) @ rest) + 5 \<le> n"
  shows "parse_create n u (at ((a # us @ b # i # k # t # c # ts @ [d]) @ rest) p)
    = Some (Inr (CreateIndex (tok_lexeme i) (tok_lexeme t) ws unique), at rest q)"
proof -
  have "comma_list n (\<lambda>_. expect_name) (at (ts @ d # rest) p) = Some (Inr ws, at (d # rest) q)"
    by (rule run_names [OF assms(8,9)]) (use assms(10) in simp)
  note run = run_bind [where m = "comma_list _ _", OF this]
  have "follows (- {T_UNIQUE}) (b # i # k # t # c # ts @ d # rest)" using assms(3) by simp
  note run_unique = run_flag [OF assms(2) this]
  show ?thesis using assms(1,3-7,9)
    by (simp add: parse_create_def forward run_unique) (simp add: parse_create_index_def forward run, simp add: ok_def)
qed

lemma run_insert:
  assumes "tok_type a = T_INSERT" and "tok_type b = T_INTO" and "tok_type t = T_IDENTIFIER" and "tok_type v = T_VALUES"
    and "tok_type c = T_LEFT_PAREN" and "spells_list p es ts q" and "tok_type d = T_RIGHT_PAREN"
    and "4 * length ((a # b # t # v # c # ts @ [d]) @ rest) + 5 \<le> n"
  shows "parse_insert n (at ((a # b # t # v # c # ts @ [d]) @ rest) p) = Some (Inr (Insert (tok_lexeme t) es), at rest q)"
proof -
  have "expression_list n (at (ts @ d # rest) p) = Some (Inr es, at (d # rest) q)"
    by (rule run_list [OF assms(6)]) (use assms(7,8) in \<open>auto simp: closers_def\<close>)
  note run = run_bind [where m = "expression_list _", OF this]
  show ?thesis using assms(1-5,7) by (simp add: parse_insert_def forward run) (simp add: ok_def)
qed

lemma run_delete:
  assumes "tok_type a = T_DELETE" and "tok_type b = T_FROM" and "tok_type t = T_IDENTIFIER" and "spells_opt T_WHERE p wh ts q"
    and "follows statement_end rest" and "4 * length ((a # b # t # ts) @ rest) + 5 \<le> n"
  shows "parse_delete n (at ((a # b # t # ts) @ rest) p) = Some (Inr (Delete (tok_lexeme t) wh), at rest q)"
proof -
  have "optional_expression n T_WHERE (at (ts @ rest) p) = Some (Inr wh, at rest q)"
    by (rule run_opt [OF assms(4) follows_mono [OF assms(5)]]) (use assms(6) in \<open>auto simp: closers_def\<close>)
  note run = run_bind [where m = "optional_expression _ _", OF this]
  show ?thesis using assms(1-3) by (simp add: parse_delete_def forward run) (simp add: ok_def)
qed

lemma run_update:
  assumes "tok_type a = T_UPDATE" and "tok_type t = T_IDENTIFIER" and "tok_type b = T_SET" and "items spells_assignment p asgs ts1 q"
    and "spells_opt T_WHERE q wh ts2 r" and "follows statement_end rest" and "4 * length ((a # t # b # ts1 @ ts2) @ rest) + 5 \<le> n"
  shows "parse_update n (at ((a # t # b # ts1 @ ts2) @ rest) p) = Some (Inr (Update (tok_lexeme t) asgs wh), at rest r)"
proof -
  have "optional_expression n T_WHERE (at (ts2 @ rest) q) = Some (Inr wh, at rest r)"
    by (rule run_opt [OF assms(5) follows_mono [OF assms(6)]]) (use assms(7) in \<open>auto simp: closers_def\<close>)
  note run2 = run_bind [where m = "optional_expression _ _", OF this]
  have "comma_list n parse_assignment (at (ts1 @ ts2 @ rest) p) = Some (Inr asgs, at (ts2 @ rest) q)"
    by (rule run_items [OF assms(4) run_assignment, where S = closers])
      (use assms(7) follows_mono [OF opt_follows [OF assms(5,6)]] in \<open>auto simp: closers_def\<close>)
  note run1 = run_bind [where m = "comma_list _ _", OF this]
  show ?thesis using assms(1-3) by (simp add: parse_update_def forward run1 run2) (simp add: ok_def)
qed

lemma select_head: "spells_select p s ts q \<Longrightarrow> follows {T_SELECT} (ts @ rest)"
  by (erule spells_select.cases) simp

lemma run_explain:
  assumes "tok_type a = T_EXPLAIN" and "flag T_ANALYZE analyze bs" and "spells_select p s ts q"
    and "follows statement_end rest" and "4 * length ((a # bs @ ts) @ rest) + 5 \<le> n"
  shows "parse_explain n (at ((a # bs @ ts) @ rest) p) = Some (Inr (Explain s analyze), at rest q)"
proof -
  have "parse_select n (at (ts @ rest) p) = Some (Inr s, at rest q)" by (rule run_select [OF assms(3,4)]) (use assms(5) in simp)
  note run = run_bind [where m = "parse_select _", OF this]
  have "follows (- {T_ANALYZE}) (ts @ rest)" by (rule follows_mono [OF select_head [OF assms(3)]]) simp
  note run_analyze = run_flag [OF assms(2) this]
  show ?thesis using assms(1) by (simp add: parse_explain_def forward run_analyze run) (simp add: ok_def)
qed

lemma run_short:
  assumes "follows statement_end rest"
  shows "tok_type a = T_ANALYZE \<Longrightarrow> parse_analyze (at (a # rest) p) = Some (Inr (Analyze None), at rest p)"
    and "tok_type a = T_ANALYZE \<Longrightarrow> tok_type t = T_IDENTIFIER
      \<Longrightarrow> parse_analyze (at (a # t # rest) p) = Some (Inr (Analyze (Some (tok_lexeme t))), at rest p)"
    and "tok_type a = T_BEGIN \<Longrightarrow> parse_begin u (at (a # rest) p) = Some (Inr (Begin False), at rest p)"
    and "tok_type a = T_BEGIN \<Longrightarrow> tok_type t = T_IDENTIFIER \<Longrightarrow> casefold u (tok_lexeme t) = ustr_of ''immediate''
      \<Longrightarrow> parse_begin u (at (a # t # rest) p) = Some (Inr (Begin True), at rest p)"
  using assms by (cases rest; auto simp: parse_analyze_def parse_begin_def forward ok_def)+

lemma run_statement:
  assumes "spells_statement u st ts" and "follows statement_end rest" and "4 * length (ts @ rest) + 5 \<le> n"
  shows "\<exists>q. statement_body n u (tok_type (hd ts)) (at (ts @ rest) 0) = Some (Inr st, at rest q)"
  using assms(1)
proof cases
  case (create_table a b t c cs ts' d)
  then show ?thesis using run_create_table [of a b t c u cs ts' d rest n 0] assms(3) by (auto simp: statement_body_def)
next
  case (create_index a unique us b i k t c ws ts' d)
  then show ?thesis using run_create_index [of a unique us b i k t c 0 ws ts' 0 d rest n u] assms(3) by (auto simp: statement_body_def)
next
  case (insert a b t v c es ts' q d)
  then show ?thesis using run_insert [of a b t v c 0 es ts' q d rest n] assms(3) by (auto simp: statement_body_def)
next
  case (select_statement s q)
  have "parse_select n (at (ts @ rest) 0) = Some (Inr s, at rest q)" by (rule run_select [OF select_statement(2) assms(2,3)])
  note run = run_bind [where m = "parse_select _", OF this]
  have "tok_type (hd ts) = T_SELECT" using select_head [OF select_statement(2), of "[]"] by (simp add: follows_def)
  then show ?thesis using select_statement(1) by (simp add: statement_body_def run) (simp add: ok_def)
next
  case (delete a b t wh ts' q)
  then show ?thesis using run_delete [of a b t 0 wh ts' q rest n] assms by (auto simp: statement_body_def)
next
  case (update a t b asgs ts1 q wh ts2 r)
  then show ?thesis using run_update [of a t b 0 asgs ts1 q wh ts2 r rest n] assms by (auto simp: statement_body_def)
next
  case (explain a analyze bs s ts' q)
  then show ?thesis using run_explain [of a analyze bs 0 s ts' q rest n] assms by (auto simp: statement_body_def)
next
  case (commit a)
  then show ?thesis by (simp add: statement_body_def parse_commit_def forward) (simp add: ok_def)
next
  case (rollback a)
  then show ?thesis by (simp add: statement_body_def parse_rollback_def forward) (simp add: ok_def)
qed (use run_short [OF assms(2)] in \<open>auto simp: statement_body_def\<close>)

section \<open>Properties\<close>

text \<open>The end of a statement's tokens: the end token, or a semicolon and the end token.\<close>

definition ending :: "token list \<Rightarrow> bool" where
  "ending ts \<longleftrightarrow> (\<exists>us e. flag T_SEMICOLON (us \<noteq> []) us \<and> tok_type e = T_EOF \<and> ts = us @ [e])"

lemma endingI: "tok_type e = T_EOF \<Longrightarrow> ending [e]" "tok_type s = T_SEMICOLON \<Longrightarrow> tok_type e = T_EOF \<Longrightarrow> ending [s, e]"
  by (auto simp: ending_def flag_def)

lemma spelled_statement_parses:
  assumes "spells_statement u st ts" and "ending tail"
  shows "parse_tokens u (ts @ tail) = Some (Inr st)"
proof -
  obtain us e where tail: "tail = us @ [e]" "flag T_SEMICOLON (us \<noteq> []) us" "tok_type e = T_EOF"
    using assms(2) by (auto simp: ending_def)
  define n where "n = 4 * length (ts @ tail) + 8"
  have f: "follows statement_end tail" using tail by (auto simp: flag_def split: if_splits)
  obtain q where q: "statement_body n u (tok_type (hd ts)) (at (ts @ tail) 0) = Some (Inr st, at tail q)"
    using run_statement [OF assms(1) f, of n] by (auto simp: n_def)
  note run = run_bind [where m = "statement_body _ _ _", OF q]
  have "ts \<noteq> []" using assms(1) by (cases; auto elim: spells_select.cases)
  then obtain t ts' where ts: "ts = t # ts'" by (cases ts) auto
  have "bind_pop (if_next T_SEMICOLON (ok ()) (ok ())) (\<lambda>_. bind_pop (expect T_EOF) (\<lambda>_. ok st)) (at tail q) = Some (Inr st, at [] q)"
    using tail by (auto simp: flag_def bind_if_next forward ok_def split: if_splits)
  then have "parse_statement n u (at (ts @ tail) 0) = Some (Inr st, at [] q)"
    by (simp add: parse_statement_def ts forward run [unfolded ts list.sel append_Cons])
  then show ?thesis by (simp add: parse_tokens_def n_def)
qed

text \<open>
  C27. The parser accepts the whole grammar with the trees it defines: a text whose tokens spell a statement, then an
  optional semicolon and the end, is parsed to that statement. So no text has two of the grammar's trees.
\<close>

theorem parse_complete:
  assumes "tokenize u sql = Inr (ts @ tail)" and "spells_statement u st ts" and "ending tail"
  shows "parse u sql = Some (Inr st)"
  using spelled_statement_parses [OF assms(2,3)] assms(1) by (simp add: parse_def)

lemma example_tokens:
  "tokenize ascii_tables (ustr_of ''DELETE FROM t;'') = Inr ([mk_token T_DELETE (ustr_of ''DELETE'') VNull 0,
     mk_token T_FROM (ustr_of ''FROM'') VNull 7, mk_token T_IDENTIFIER (ustr_of ''t'') VNull 12]
     @ [mk_token T_SEMICOLON (ustr_of '';'') VNull 13, mk_token T_EOF [] VNull 14])"
  by code_simp

lemma example_spelled:
  "spells_statement ascii_tables (Delete (tok_lexeme (mk_token T_IDENTIFIER (ustr_of ''t'') VNull 12)) None)
     [mk_token T_DELETE (ustr_of ''DELETE'') VNull 0, mk_token T_FROM (ustr_of ''FROM'') VNull 7,
      mk_token T_IDENTIFIER (ustr_of ''t'') VNull 12]"
  by (rule delete [OF _ _ _ opt_none]) simp_all

theorem parse_complete_witness: "parse ascii_tables (ustr_of ''DELETE FROM t;'') = Some (Inr (Delete (ustr_of ''t'') None))"
  using parse_complete [OF example_tokens example_spelled endingI(2)] by simp

lemma chain_alone:
  "parse ascii_tables (ustr_of ''DELETE FROM t WHERE b < c < d'') = Some (Inl SQLSyntaxError)"
  by code_simp

lemma chain_after_and:
  "parse ascii_tables (ustr_of ''DELETE FROM t WHERE a AND b < c < d'') = Some (Inr (Delete (ustr_of ''t'') (Some
       (BinaryOp (BinaryOp (Column (ustr_of ''a'') None) ''AND''
           (BinaryOp (Column (ustr_of ''b'') None) ''<'' (Column (ustr_of ''c'') None)))
         ''<'' (Column (ustr_of ''d'') None)))))"
  by code_simp

lemma chain_after_not:
  "parse ascii_tables (ustr_of ''DELETE FROM t WHERE NOT b < c < d'') = Some (Inr (Delete (ustr_of ''t'') (Some
       (BinaryOp (UnaryOp ''NOT'' (BinaryOp (Column (ustr_of ''b'') None) ''<'' (Column (ustr_of ''c'') None)))
         ''<'' (Column (ustr_of ''d'') None)))))"
  by code_simp

text \<open>
  Comparisons are meant not to chain, and \<^verbatim>\<open>b < c < d\<close> alone is refused; after \<^verbatim>\<open>AND\<close>, \<^verbatim>\<open>OR\<close> or \<^verbatim>\<open>NOT\<close> it is
  accepted, and the second comparison takes the whole condition before it as its left operand.
\<close>

theorem chained_comparison_accepted:
  "parse ascii_tables (ustr_of ''DELETE FROM t WHERE b < c < d'') = Some (Inl SQLSyntaxError)
   \<and> parse ascii_tables (ustr_of ''DELETE FROM t WHERE a AND b < c < d'') = Some (Inr (Delete (ustr_of ''t'') (Some
       (BinaryOp (BinaryOp (Column (ustr_of ''a'') None) ''AND''
           (BinaryOp (Column (ustr_of ''b'') None) ''<'' (Column (ustr_of ''c'') None)))
         ''<'' (Column (ustr_of ''d'') None)))))
   \<and> parse ascii_tables (ustr_of ''DELETE FROM t WHERE NOT b < c < d'') = Some (Inr (Delete (ustr_of ''t'') (Some
       (BinaryOp (UnaryOp ''NOT'' (BinaryOp (Column (ustr_of ''b'') None) ''<'' (Column (ustr_of ''c'') None)))
         ''<'' (Column (ustr_of ''d'') None)))))"
  by (intro conjI chain_alone chain_after_and chain_after_not)

end
