(* ===== verification/Expressions.thy ===== *)
theory Expressions
  imports Ast
begin

text \<open>
  Expression evaluation, \<^verbatim>\<open>src/src/quilldb/exec/expressions.py\<close>: SQL's three-valued logic, comparison
  across storage classes, 64-bit arithmetic that falls back to REAL, and \<^verbatim>\<open>LIKE\<close>. Operators are the
  strings the binder passes on; messages of exceptions are left out.
\<close>

section \<open>Definitions\<close>

text \<open>The bound expressions of \<^verbatim>\<open>src/src/quilldb/sql/binder.py\<close>.\<close>

datatype bound_expression =
    BoundLiteral pyval
  | BoundColumn nat ustr data_type nat
  | BoundUnaryOp string bound_expression
  | BoundBinaryOp bound_expression string bound_expression
  | BoundIsNull bound_expression bool

definition MIN_INT64 :: int where "MIN_INT64 = - (2 ^ 63)"

definition MAX_INT64 :: int where "MAX_INT64 = 2 ^ 63 - 1"

text \<open>\<^verbatim>\<open>_fit_int64\<close> on an integer; a float passes through it unchanged.\<close>

definition fit_int64 :: "int \<Rightarrow> pyval res" where
  "fit_int64 value =
     (if \<not> (MIN_INT64 \<le> value \<and> value \<le> MAX_INT64) then map_sum id VReal (float_of_int value) else Inr (VInt value))"

definition of_bool_int :: "bool \<Rightarrow> pyval" where
  "of_bool_int b = VInt (if b then 1 else 0)"

definition num_nonzero :: "pyval \<Rightarrow> bool" where
  "num_nonzero v \<longleftrightarrow> \<not> num_eq v (VInt 0)"

definition where_passes :: "pyval \<Rightarrow> bool" where
  "where_passes value \<longleftrightarrow> is_number value \<and> num_nonzero value"

definition truth :: "pyval \<Rightarrow> bool option" where
  "truth value = (if value = VNull then None else if is_number value then Some (num_nonzero value) else Some False)"

text \<open>\<^verbatim>\<open>_like_chars_equal\<close> on code points: \<^verbatim>\<open>isascii\<close> and the ASCII part of \<^verbatim>\<open>lower\<close>.\<close>

definition ascii_lower :: "nat \<Rightarrow> nat" where
  "ascii_lower c = (if 65 \<le> c \<and> c \<le> 90 then c + 32 else c)"

definition like_chars_equal :: "nat \<Rightarrow> nat \<Rightarrow> bool" where
  "like_chars_equal a b \<longleftrightarrow> a = b \<or> (a < 128 \<and> b < 128 \<and> ascii_lower a = ascii_lower b)"

text \<open>
  \<^verbatim>\<open>sql_like\<close>: one row of the table after another. A row's entries are filled from left to right, each
  from its left neighbour \<open>l\<close>, the entry above it and the one above left.
\<close>

fun like_first_row :: "ustr \<Rightarrow> bool \<Rightarrow> bool list" where
  "like_first_row [] l = []"
| "like_first_row (p # ps) l = (let e = (l \<and> p = 37) in e # like_first_row ps e)"

fun like_next_row :: "ustr \<Rightarrow> nat \<Rightarrow> bool list \<Rightarrow> bool \<Rightarrow> bool list" where
  "like_next_row (p # ps) c (diag # up # row) l =
     (let e = (if p = 37 then l \<or> up else if p = 95 then diag else diag \<and> like_chars_equal p c) in
      e # like_next_row ps c (up # row) e)"
| "like_next_row ps c row l = []"

definition sql_like :: "ustr \<Rightarrow> ustr \<Rightarrow> bool" where
  "sql_like value pattern =
     last (foldl (\<lambda>matched c. False # like_next_row pattern c matched False) (True # like_first_row pattern True) value)"

definition require_number :: "pyval \<Rightarrow> pyval res" where
  "require_number v = (if is_number v then Inr v else Inl TypeMismatchError)"

fun storage_rank :: "pyval \<Rightarrow> nat" where
  "storage_rank (VInt n) = 1"
| "storage_rank (VReal w) = 1"
| "storage_rank (VText s) = 2"
| "storage_rank v = 3"

text \<open>\<^verbatim>\<open>_apply_ordering\<close> for values with the given equality and order.\<close>

definition apply_ordering :: "string \<Rightarrow> bool \<Rightarrow> bool \<Rightarrow> bool \<Rightarrow> bool res" where
  "apply_ordering operator eq lt gt =
     (if operator = ''='' then Inr eq
      else if operator = ''!='' then Inr (\<not> eq)
      else if operator = ''<'' then Inr lt
      else if operator = ''<='' then Inr (lt \<or> eq)
      else if operator = ''>'' then Inr gt
      else if operator = ''>='' then Inr (gt \<or> eq)
      else Inl UnsupportedFeatureError)"

definition compare_op :: "string \<Rightarrow> pyval \<Rightarrow> pyval \<Rightarrow> bool res" where
  "compare_op operator left right =
     (let left_rank = storage_rank left; right_rank = storage_rank right in
      if left_rank \<noteq> right_rank
      then apply_ordering operator False (left_rank < right_rank) (right_rank < left_rank)
      else case (left, right) of
        (VText a, VText b) \<Rightarrow> apply_ordering operator (a = b) (a < b) (b < a)
      | (VBlob a, VBlob b) \<Rightarrow> apply_ordering operator (a = b) (a < b) (b < a)
      | _ \<Rightarrow> if is_number left \<and> is_number right
             then apply_ordering operator (num_eq left right) (num_less left right) (num_less right left)
             else Inl TypeMismatchError)"

text \<open>\<^verbatim>\<open>a + b\<close> and its like on two numbers: integers exactly, and as soon as one is a float, as floats.\<close>

fun as_float :: "pyval \<Rightarrow> (64 word) res" where
  "as_float (VInt n) = float_of_int n"
| "as_float (VReal w) = Inr w"
| "as_float v = Inl TypeError"

definition num_binop :: "(int \<Rightarrow> int \<Rightarrow> int) \<Rightarrow> (64 word \<Rightarrow> 64 word \<Rightarrow> 64 word) \<Rightarrow> pyval \<Rightarrow> pyval \<Rightarrow> pyval res" where
  "num_binop f g a b =
     (case (a, b) of
        (VInt m, VInt n) \<Rightarrow> fit_int64 (f m n)
      | _ \<Rightarrow> bind_res (as_float a) (\<lambda>x. bind_res (as_float b) (\<lambda>y. Inr (VReal (g x y)))))"

definition divide_op :: "pyval \<Rightarrow> pyval \<Rightarrow> pyval res" where
  "divide_op a b =
     (if num_eq b (VInt 0) then Inr VNull
      else case (a, b) of
        (VInt m, VInt n) \<Rightarrow> let magnitude = \<bar>m\<bar> div \<bar>n\<bar> in fit_int64 (if (m < 0) \<noteq> (n < 0) then - magnitude else magnitude)
      | _ \<Rightarrow> bind_res (as_float a) (\<lambda>x. bind_res (as_float b) (\<lambda>y. Inr (VReal (fp_div x y)))))"

fun as_int :: "pyval \<Rightarrow> int res" where
  "as_int (VInt n) = Inr n"
| "as_int (VReal w) = int_of_float w"
| "as_int v = Inl TypeError"

definition modulo_op :: "pyval \<Rightarrow> pyval \<Rightarrow> pyval res" where
  "modulo_op a b =
     bind_res (as_int a) (\<lambda>int_a. bind_res (as_int b) (\<lambda>int_b.
       if int_b = 0 then Inr VNull
       else let remainder = \<bar>int_a\<bar> mod \<bar>int_b\<bar>; remainder = (if int_a < 0 then - remainder else remainder) in
            case (a, b) of
              (VInt _, VInt _) \<Rightarrow> Inr (VInt remainder)
            | _ \<Rightarrow> map_sum id VReal (float_of_int remainder)))"

definition arithmetic :: "string \<Rightarrow> pyval \<Rightarrow> pyval \<Rightarrow> pyval res" where
  "arithmetic operator left right =
     bind_res (require_number left) (\<lambda>a. bind_res (require_number right) (\<lambda>b.
       if operator = ''+'' then num_binop (+) fp_add a b
       else if operator = ''-'' then num_binop (-) fp_sub a b
       else if operator = ''*'' then num_binop (*) fp_mul a b
       else if operator = ''/'' then divide_op a b
       else modulo_op a b))"

definition unary_op :: "string \<Rightarrow> pyval \<Rightarrow> pyval res" where
  "unary_op operator operand =
     (if operator = ''NOT''
      then Inr (case truth operand of None \<Rightarrow> VNull | Some t \<Rightarrow> of_bool_int (\<not> t))
      else if operator = ''+'' \<or> operator = ''-''
      then if operand = VNull then Inr VNull
           else bind_res (require_number operand) (\<lambda>number.
             if operator = ''+'' then Inr number
             else case number of VInt n \<Rightarrow> fit_int64 (- n) | VReal w \<Rightarrow> Inr (VReal (fp_neg w)) | v \<Rightarrow> Inl TypeError)
      else Inl UnsupportedFeatureError)"

definition COMPARISONS :: "string list" where "COMPARISONS = [''='', ''!='', ''<'', ''<='', ''>'', ''>='']"

definition ARITHMETIC :: "string list" where "ARITHMETIC = [''+'', ''-'', ''*'', ''/'', ''%'']"

text \<open>The operators that need both operands, after their evaluation.\<close>

definition strict_op :: "string \<Rightarrow> pyval \<Rightarrow> pyval \<Rightarrow> pyval res" where
  "strict_op operator left_value right_value =
     (if left_value = VNull \<or> right_value = VNull then Inr VNull
      else if operator = ''LIKE''
      then (case (left_value, right_value) of
              (VText v, VText p) \<Rightarrow> Inr (of_bool_int (sql_like v p))
            | _ \<Rightarrow> Inl TypeMismatchError)
      else if operator \<in> set COMPARISONS then map_sum id of_bool_int (compare_op operator left_value right_value)
      else if operator \<in> set ARITHMETIC then arithmetic operator left_value right_value
      else Inl UnsupportedFeatureError)"

text \<open>\<^verbatim>\<open>AND\<close> and \<^verbatim>\<open>OR\<close>, of which \<open>decisive\<close> is the truth value that settles the answer.\<close>

definition logic_result :: "bool \<Rightarrow> bool option \<Rightarrow> bool option \<Rightarrow> pyval" where
  "logic_result decisive left right =
     (if right = Some decisive then of_bool_int decisive
      else if left = None \<or> right = None then VNull else of_bool_int (\<not> decisive))"

fun evaluate :: "bound_expression \<Rightarrow> pyval list \<Rightarrow> pyval res" where
  "evaluate (BoundLiteral value) row = Inr value"
| "evaluate (BoundColumn index name data_type table_ordinal) row = (if length row \<le> index then Inl ColumnNotFoundError else Inr (row ! index))"
| "evaluate (BoundIsNull operand negated) row =
     bind_res (evaluate operand row) (\<lambda>v. Inr (of_bool_int ((v = VNull) \<noteq> negated)))"
| "evaluate (BoundUnaryOp operator operand) row = bind_res (evaluate operand row) (unary_op operator)"
| "evaluate (BoundBinaryOp left operator right) row =
     (if operator = ''AND'' \<or> operator = ''OR''
      then bind_res (evaluate left row) (\<lambda>l.
             let decisive = (operator = ''OR'') in
             if truth l = Some decisive then Inr (of_bool_int decisive)
             else bind_res (evaluate right row) (\<lambda>r. Inr (logic_result decisive (truth l) (truth r))))
      else bind_res (evaluate left row) (\<lambda>l. bind_res (evaluate right row) (\<lambda>r. strict_op operator l r)))"

section \<open>LIKE\<close>

text \<open>What a pattern means: \<^verbatim>\<open>%\<close> stands for any text, \<^verbatim>\<open>_\<close> for one character, any other character for itself up to ASCII case.\<close>

inductive like_matches :: "ustr \<Rightarrow> ustr \<Rightarrow> bool" where
  empty: "like_matches [] []"
| many: "like_matches v ps \<Longrightarrow> like_matches (u @ v) (37 # ps)"
| single: "like_matches v ps \<Longrightarrow> like_matches (c # v) (95 # ps)"
| exact: "like_matches v ps \<Longrightarrow> p \<noteq> 37 \<Longrightarrow> p \<noteq> 95 \<Longrightarrow> like_chars_equal p c \<Longrightarrow> like_matches (c # v) (p # ps)"

inductive_simps like_matches_Nil: "like_matches v []"
inductive_simps like_matches_many: "like_matches v (37 # ps)"
inductive_simps like_matches_single: "like_matches v (95 # ps)"
inductive_simps like_matches_Cons: "like_matches v (p # ps)"

lemma like_matches_append: "like_matches v (ps @ qs) \<longleftrightarrow> (\<exists>u w. v = u @ w \<and> like_matches u ps \<and> like_matches w qs)"
proof (induction ps arbitrary: v)
  case Nil
  then show ?case by (simp add: like_matches_Nil)
next
  case (Cons p ps)
  show ?case
  proof
    assume "like_matches v ((p # ps) @ qs)"
    then show "\<exists>u w. v = u @ w \<and> like_matches u (p # ps) \<and> like_matches w qs"
      by (auto simp: like_matches_Cons [of v] Cons intro: like_matches.intros; metis append.assoc append_Cons like_matches.intros(2-4))
  next
    assume "\<exists>u w. v = u @ w \<and> like_matches u (p # ps) \<and> like_matches w qs"
    then obtain u w where v: "v = u @ w" "like_matches u (p # ps)" "like_matches w qs" by blast
    from v(2) show "like_matches v ((p # ps) @ qs)"
      by (cases rule: like_matches.cases) (use v(1,3) Cons in \<open>auto intro!: like_matches.intros\<close>)
  qed
qed

lemma like_snoc_many: "like_matches v (ps @ [37]) \<longleftrightarrow> (\<exists>u w. v = u @ w \<and> like_matches u ps)"
  by (auto simp: like_matches_append like_matches_many like_matches_Nil)

lemma like_snoc:
  "like_matches (v @ [c]) (ps @ [p]) \<longleftrightarrow> (if p = 37 then like_matches (v @ [c]) ps \<or> like_matches v (ps @ [37])
     else if p = 95 then like_matches v ps else like_matches v ps \<and> like_chars_equal p c)"
  "like_matches [] (ps @ [p]) \<longleftrightarrow> p = 37 \<and> like_matches [] ps"
proof -
  have many: "(\<exists>u w. v @ [c] = u @ w \<and> like_matches u ps) \<longleftrightarrow> like_matches (v @ [c]) ps \<or> (\<exists>u w. v = u @ w \<and> like_matches u ps)"
  proof
    assume "\<exists>u w. v @ [c] = u @ w \<and> like_matches u ps"
    then obtain u w where "v @ [c] = u @ w" "like_matches u ps" by blast
    then show "like_matches (v @ [c]) ps \<or> (\<exists>u w. v = u @ w \<and> like_matches u ps)" by (cases w rule: rev_cases) auto
  next
    assume "like_matches (v @ [c]) ps \<or> (\<exists>u w. v = u @ w \<and> like_matches u ps)"
    then show "\<exists>u w. v @ [c] = u @ w \<and> like_matches u ps" by (metis append.assoc append_Nil2)
  qed
  show "like_matches (v @ [c]) (ps @ [p]) \<longleftrightarrow> (if p = 37 then like_matches (v @ [c]) ps \<or> like_matches v (ps @ [37])
     else if p = 95 then like_matches v ps else like_matches v ps \<and> like_chars_equal p c)"
  proof (cases "p = 37")
    case True
    then show ?thesis using many by (simp add: like_snoc_many)
  next
    case False
    have "like_matches w [p] \<longleftrightarrow> (\<exists>d. w = [d] \<and> (p = 95 \<or> like_chars_equal p d))" for w
      using False by (auto simp: like_matches_Cons [of w] like_matches_Nil)
    then show ?thesis using False unfolding like_matches_append by auto
  qed
  show "like_matches [] (ps @ [p]) \<longleftrightarrow> p = 37 \<and> like_matches [] ps"
    by (auto simp: like_matches_append like_matches_Cons like_matches_Nil)
qed

text \<open>A row of the table: which prefixes of the pattern the text read so far matches.\<close>

fun like_row :: "ustr \<Rightarrow> ustr \<Rightarrow> ustr \<Rightarrow> bool list" where
  "like_row u seen [] = [like_matches u seen]"
| "like_row u seen (p # ps) = like_matches u seen # like_row u (seen @ [p]) ps"

lemma like_row_simps: "hd (like_row u seen ps) = like_matches u seen" "last (like_row u seen ps) = like_matches u (seen @ ps)" "like_row u seen ps \<noteq> []"
  by (induction ps arbitrary: seen) auto

lemma like_row_Cons: "like_row u seen ps = like_matches u seen # tl (like_row u seen ps)"
  by (cases ps) simp_all

lemma like_first_row: "like_first_row ps (like_matches [] seen) = tl (like_row [] seen ps)"
proof (induction ps arbitrary: seen)
  case (Cons p ps)
  show ?case using Cons [of "seen @ [p]"] like_row_Cons [of "[]" "seen @ [p]" ps] by (simp add: Let_def like_snoc(2) conj_commute)
qed simp

lemma like_next_row: "like_next_row ps c (like_row u seen ps) (like_matches (u @ [c]) seen) = tl (like_row (u @ [c]) seen ps)"
proof (induction ps arbitrary: seen)
  case (Cons p ps)
  obtain r where row: "like_row u (seen @ [p]) ps = like_matches u (seen @ [p]) # r" using like_row_Cons [of u "seen @ [p]" ps] by blast
  have "like_next_row (p # ps) c (like_row u seen (p # ps)) (like_matches (u @ [c]) seen)
    = like_matches (u @ [c]) (seen @ [p]) # like_next_row ps c (like_row u (seen @ [p]) ps) (like_matches (u @ [c]) (seen @ [p]))"
    unfolding like_row.simps row by (auto simp: Let_def like_snoc(1))
  also have "\<dots> = like_row (u @ [c]) (seen @ [p]) ps" using Cons [of "seen @ [p]"] like_row_Cons [of "u @ [c]" "seen @ [p]" ps] by simp
  finally show ?case by simp
qed simp

lemma like_fold:
  "foldl (\<lambda>matched c. False # like_next_row pattern c matched False) (like_row u [] pattern) v = like_row (u @ v) [] pattern"
proof (induction v arbitrary: u)
  case (Cons c v)
  have "\<not> like_matches (u @ [c]) []" by (simp add: like_matches_Nil)
  then have "False # like_next_row pattern c (like_row u [] pattern) False = like_row (u @ [c]) [] pattern"
    using like_next_row [of pattern c u "[]"] like_row_Cons [of "u @ [c]" "[]" pattern] by simp
  then show ?case using Cons [of "u @ [c]"] by simp
qed simp

lemma sql_like_matches: "sql_like v p \<longleftrightarrow> like_matches v p"
proof -
  have "like_matches [] []" by (rule like_matches.empty)
  then have "True # like_first_row p True = like_row [] [] p" using like_first_row [of p "[]"] like_row_Cons [of "[]" "[]" p] by simp
  then show ?thesis using like_fold [of p "[]" v] by (simp add: sql_like_def like_row_simps)
qed

section \<open>Storable values\<close>

text \<open>The values a record can hold: integers of 64 bits, and anything else.\<close>

fun storable :: "pyval \<Rightarrow> bool" where
  "storable (VInt n) \<longleftrightarrow> MIN_INT64 \<le> n \<and> n \<le> MAX_INT64"
| "storable v \<longleftrightarrow> True"

fun storable_literals :: "bound_expression \<Rightarrow> bool" where
  "storable_literals (BoundLiteral v) \<longleftrightarrow> storable v"
| "storable_literals (BoundColumn i name ty ordinal) \<longleftrightarrow> True"
| "storable_literals (BoundUnaryOp op e) \<longleftrightarrow> storable_literals e"
| "storable_literals (BoundBinaryOp l op r) \<longleftrightarrow> storable_literals l \<and> storable_literals r"
| "storable_literals (BoundIsNull e n) \<longleftrightarrow> storable_literals e"

lemma map_sum_Inr: "map_sum f g r = Inr v \<longleftrightarrow> (\<exists>x. r = Inr x \<and> v = g x)"
  by (cases r) auto

lemma storable_fit: "fit_int64 n = Inr v \<Longrightarrow> storable v"
  by (auto simp: fit_int64_def map_sum_Inr split: if_splits)

lemma storable_bool [simp]: "storable (of_bool_int b)"
  by (simp add: of_bool_int_def MIN_INT64_def MAX_INT64_def)

lemma storable_logic [simp]: "storable (logic_result d l r)"
  by (simp add: logic_result_def)

lemma storable_binop: "num_binop f g a b = Inr v \<Longrightarrow> storable v"
  by (auto simp: num_binop_def bind_res_eq_Inr dest: storable_fit split: pyval.splits)

lemma storable_divide: "divide_op a b = Inr v \<Longrightarrow> storable v"
  by (auto simp: divide_op_def bind_res_eq_Inr Let_def dest: storable_fit split: pyval.splits if_splits)

lemma remainder_range:
  assumes "MIN_INT64 \<le> a" and "a \<le> MAX_INT64" and "b \<noteq> (0 :: int)"
  shows "\<bar>a\<bar> mod \<bar>b\<bar> \<le> \<bar>a\<bar>" and "0 \<le> \<bar>a\<bar> mod \<bar>b\<bar>"
  using assms by (auto intro: zmod_le_nonneg_dividend)

lemma storable_modulo:
  assumes "modulo_op a b = Inr v" and "storable a"
  shows "storable v"
proof (cases "\<exists>m n. a = VInt m \<and> b = VInt n")
  case True
  then obtain m n where ab: "a = VInt m" "b = VInt n" by blast
  show ?thesis
  proof (cases "n = 0")
    case False
    obtain r where r: "r = \<bar>m\<bar> mod \<bar>n\<bar>" "0 \<le> r" "r \<le> \<bar>m\<bar>" using assms(2) remainder_range [of m n] False by (auto simp: ab)
    then have "v = VInt (if m < 0 then - r else r)" using assms(1) False by (cases "m < 0") (simp_all add: ab modulo_op_def Let_def)
    then show ?thesis using r(2,3) assms(2) by (auto simp: ab MIN_INT64_def MAX_INT64_def)
  qed (use assms in \<open>simp add: ab modulo_op_def\<close>)
next
  case False
  then show ?thesis
    using assms(1) by (auto simp: modulo_op_def bind_res_eq_Inr Let_def map_sum_Inr split: if_splits pyval.splits)
qed

lemma storable_arithmetic: "arithmetic op a b = Inr v \<Longrightarrow> storable a \<Longrightarrow> storable v"
  by (auto simp: arithmetic_def bind_res_eq_Inr require_number_def dest: storable_binop storable_divide storable_modulo split: if_splits)

lemma storable_strict: "strict_op op a b = Inr v \<Longrightarrow> storable a \<Longrightarrow> storable v"
  by (auto simp: strict_op_def map_sum_Inr dest: storable_arithmetic split: if_splits pyval.splits)

lemma storable_unary: "unary_op op a = Inr v \<Longrightarrow> storable a \<Longrightarrow> storable v"
  by (auto simp: unary_op_def bind_res_eq_Inr require_number_def dest: storable_fit split: if_splits option.splits pyval.splits)

lemma evaluate_storable:
  "evaluate e row = Inr v \<Longrightarrow> storable_literals e \<Longrightarrow> \<forall>x \<in> set row. storable x \<Longrightarrow> storable v"
proof (induction e arbitrary: v)
  case (BoundUnaryOp op e)
  then show ?case by (auto simp: bind_res_eq_Inr dest: storable_unary)
next
  case (BoundBinaryOp l op r)
  then show ?case by (auto simp: bind_res_eq_Inr Let_def dest: storable_strict split: if_splits)
qed (auto simp: bind_res_eq_Inr split: if_splits)

section \<open>Three-valued logic\<close>

definition of_truth :: "bool option \<Rightarrow> pyval" where
  "of_truth t = (case t of None \<Rightarrow> VNull | Some b \<Rightarrow> of_bool_int b)"

text \<open>Kleene's tables, false before unknown before true.\<close>

fun kleene_and :: "bool option \<Rightarrow> bool option \<Rightarrow> bool option" where
  "kleene_and (Some False) y = Some False"
| "kleene_and x (Some False) = Some False"
| "kleene_and (Some True) (Some True) = Some True"
| "kleene_and x y = None"

fun kleene_or :: "bool option \<Rightarrow> bool option \<Rightarrow> bool option" where
  "kleene_or (Some True) y = Some True"
| "kleene_or x (Some True) = Some True"
| "kleene_or (Some False) (Some False) = Some False"
| "kleene_or x y = None"

lemma truth_simps [simp]: "truth (of_bool_int b) = Some b" "truth VNull = None" "truth (of_truth t) = t" "of_bool_int b \<noteq> VNull"
  by (auto simp: truth_def of_bool_int_def num_nonzero_def num_eq_def of_truth_def split: option.splits)

lemma evaluate_not: "evaluate a row = Inr x \<Longrightarrow> evaluate (BoundUnaryOp ''NOT'' a) row = Inr (of_truth (map_option Not (truth x)))"
  by (simp add: unary_op_def of_truth_def split: option.split)

lemma evaluate_logic:
  assumes "evaluate a row = Inr x" and "evaluate b row = Inr y"
  shows "evaluate (BoundBinaryOp a ''AND'' b) row = Inr (of_truth (kleene_and (truth x) (truth y)))"
    and "evaluate (BoundBinaryOp a ''OR'' b) row = Inr (of_truth (kleene_or (truth x) (truth y)))"
proof -
  have "x = None \<or> x = Some True \<or> x = Some False" for x by auto
  from this [of "truth x"] this [of "truth y"]
  show "evaluate (BoundBinaryOp a ''AND'' b) row = Inr (of_truth (kleene_and (truth x) (truth y)))"
    "evaluate (BoundBinaryOp a ''OR'' b) row = Inr (of_truth (kleene_or (truth x) (truth y)))"
    using assms by (elim disjE; simp add: logic_result_def of_truth_def)+
qed

lemma where_truth: "where_passes v \<longleftrightarrow> truth v = Some True"
  by (cases v) (auto simp: where_passes_def truth_def)

section \<open>Properties\<close>

text \<open>
  C18. \<^verbatim>\<open>LIKE\<close>, computed row by row of a table, is exactly pattern matching: \<^verbatim>\<open>%\<close> any text, \<^verbatim>\<open>_\<close> any one
  character, anything else itself up to ASCII case.
\<close>

theorem like_correct: "sql_like value pattern \<longleftrightarrow> like_matches value pattern"
  by (rule sql_like_matches)

text \<open>
  C16. The values of expressions stay storable: evaluated over a row and literals that a record can hold,
  an expression gives a value that a record can hold, integer overflow included.
\<close>

theorem evaluate_type_safe:
  assumes "storable_literals e" and "\<forall>x \<in> set row. storable x" and "evaluate e row = Inr v"
  shows "storable v"
  using evaluate_storable [OF assms(3,1,2)] .


theorem evaluate_type_safe_witness:
  "\<exists>v. evaluate (BoundBinaryOp (BoundColumn 0 [97] INTEGER_T 0) ''*'' (BoundLiteral (VInt 3))) [VInt 7] = Inr v \<and> storable v"
proof -
  have "evaluate (BoundBinaryOp (BoundColumn 0 [97] INTEGER_T 0) ''*'' (BoundLiteral (VInt 3))) [VInt 7] = Inr (VInt 21)" by code_simp
  then show ?thesis
    using evaluate_type_safe [of "BoundBinaryOp (BoundColumn 0 [97] INTEGER_T 0) ''*'' (BoundLiteral (VInt 3))" "[VInt 7]" "VInt 21"]
    by (simp add: MIN_INT64_def MAX_INT64_def)
qed

text \<open>
  C17. Three-valued logic: on operands that evaluate, \<^verbatim>\<open>AND\<close>, \<^verbatim>\<open>OR\<close> and \<^verbatim>\<open>NOT\<close> follow Kleene's tables; a decisive
  left operand settles the answer even when the right one would raise; and a row passes exactly one of
  the filters \<open>p\<close>, \<^verbatim>\<open>NOT p\<close> and \<^verbatim>\<open>p IS NULL\<close>.
\<close>

theorem three_valued_logic:
  assumes "evaluate a row = Inr x" and "evaluate b row = Inr y"
  shows "evaluate (BoundBinaryOp a ''AND'' b) row = Inr (of_truth (kleene_and (truth x) (truth y)))
    \<and> evaluate (BoundBinaryOp a ''OR'' b) row = Inr (of_truth (kleene_or (truth x) (truth y)))
    \<and> evaluate (BoundUnaryOp ''NOT'' a) row = Inr (of_truth (map_option Not (truth x)))
    \<and> (truth x = Some False \<longrightarrow> (\<forall>c. evaluate (BoundBinaryOp a ''AND'' c) row = Inr (VInt 0)))
    \<and> (truth x = Some True \<longrightarrow> (\<forall>c. evaluate (BoundBinaryOp a ''OR'' c) row = Inr (VInt 1)))
    \<and> length (filter (\<lambda>e. \<exists>v. evaluate e row = Inr v \<and> where_passes v) [a, BoundUnaryOp ''NOT'' a, BoundIsNull a False]) = 1"
proof -
  have "x = VNull \<longleftrightarrow> truth x = None" by (auto simp: truth_def)
  then have "length (filter (\<lambda>e. \<exists>v. evaluate e row = Inr v \<and> where_passes v) [a, BoundUnaryOp ''NOT'' a, BoundIsNull a False]) = 1"
    using evaluate_not [OF assms(1)] assms(1) by (auto simp: where_truth)
  then show ?thesis using evaluate_logic [OF assms] evaluate_not [OF assms(1)] assms(1) by (simp add: of_bool_int_def)
qed


theorem three_valued_logic_witness:
  "evaluate (BoundBinaryOp (BoundLiteral VNull) ''AND'' (BoundLiteral (VInt 0))) [] = Inr (VInt 0)"
  using three_valued_logic [of "BoundLiteral VNull" "[]" VNull "BoundLiteral (VInt 0)" "VInt 0"]
  by (simp add: truth_def num_nonzero_def num_eq_def of_truth_def of_bool_int_def)

end
