(* ===== verification/Sorting.thy ===== *)
theory Sorting
  imports Expressions "HOL-Library.Product_Lexorder" "HOL-Library.Multiset"
begin

text \<open>
  The total order of values, \<^verbatim>\<open>compare_keys\<close> of \<^verbatim>\<open>src/src/quilldb/btree/index.py\<close>, and \<^verbatim>\<open>ORDER BY\<close>,
  \<^verbatim>\<open>src/src/quilldb/exec/sort.py\<close>. A child operator is what its \<^verbatim>\<open>next\<close> gives: rows, and then either
  the end or an exception. \<^verbatim>\<open>list.sort\<close> is a stable sort that only asks whether one row is less than
  another; it is modelled by insertion.
\<close>

section \<open>Definitions\<close>

fun key_rank :: "pyval \<Rightarrow> nat" where
  "key_rank VNull = 0"
| "key_rank (VInt n) = 1"
| "key_rank (VReal w) = 1"
| "key_rank (VText s) = 2"
| "key_rank (VBlob b) = 3"

fun compare_keys :: "pyval list \<Rightarrow> pyval list \<Rightarrow> int res" where
  "compare_keys (item_a # a) (item_b # b) =
     (if py_eq item_a item_b then compare_keys a b
      else if key_rank item_a \<noteq> key_rank item_b then Inr (if key_rank item_a < key_rank item_b then -1 else 1)
      else bind_res (py_less item_a item_b) (\<lambda>l. Inr (if l then -1 else 1)))"
| "compare_keys a b = Inr 0"

record bound_order_key =
  key_index :: nat
  descending :: bool

fun row_compare :: "bound_order_key list \<Rightarrow> pyval list \<Rightarrow> pyval list \<Rightarrow> int res" where
  "row_compare [] a b = Inr 0"
| "row_compare (key # keys) a b =
     bind_res (py_get a (key_index key)) (\<lambda>x. bind_res (py_get b (key_index key)) (\<lambda>y.
     bind_res (compare_keys [x] [y]) (\<lambda>c.
       let result = (if descending key then - c else c) in
       if result \<noteq> 0 then Inr result else row_compare keys a b)))"

text \<open>A child: the rows its \<^verbatim>\<open>next\<close> returns, and the exception it raises after them, if any.\<close>

record row_source =
  src_rows :: "pyval list list"
  src_error :: "err option"

definition MAX_SORT_ROWS :: nat where "MAX_SORT_ROWS = 1000000"

text \<open>The loop that reads the child.\<close>

definition drain_source :: "row_source \<Rightarrow> pyval list list res" where
  "drain_source child =
     (if MAX_SORT_ROWS < length (src_rows child) then Inl SortLimitExceededError
      else case src_error child of Some e \<Rightarrow> Inl e | None \<Rightarrow> Inr (src_rows child))"

fun insert_row :: "('a \<Rightarrow> 'a \<Rightarrow> int res) \<Rightarrow> 'a \<Rightarrow> 'a list \<Rightarrow> 'a list res" where
  "insert_row cmp x [] = Inr [x]"
| "insert_row cmp x (y # ys) =
     bind_res (cmp y x) (\<lambda>c. if c < 0 then bind_res (insert_row cmp x ys) (\<lambda>zs. Inr (y # zs)) else Inr (x # y # ys))"

fun sort_rows :: "('a \<Rightarrow> 'a \<Rightarrow> int res) \<Rightarrow> 'a list \<Rightarrow> 'a list res" where
  "sort_rows cmp [] = Inr []"
| "sort_rows cmp (x # xs) = bind_res (sort_rows cmp xs) (insert_row cmp x)"

record sort_state =
  results :: "pyval list list"
  position :: nat

definition sort_open :: "bound_order_key list \<Rightarrow> row_source \<Rightarrow> sort_state res" where
  "sort_open keys child =
     bind_res (drain_source child) (\<lambda>rows.
     bind_res (sort_rows (row_compare keys) rows) (\<lambda>sorted_rows. Inr \<lparr>results = sorted_rows, position = 0\<rparr>))"

definition sort_next :: "sort_state \<Rightarrow> pyval list option \<times> sort_state" where
  "sort_next s =
     (if length (results s) \<le> position s then (None, s)
      else (Some (results s ! position s), s\<lparr>position := position s + 1\<rparr>))"

definition sort_close :: "sort_state \<Rightarrow> sort_state" where
  "sort_close s = s\<lparr>results := [], position := 0\<rparr>"

section \<open>The order of values\<close>

fun no_nan :: "pyval \<Rightarrow> bool" where
  "no_nan (VReal w) \<longleftrightarrow> \<not> fp_is_nan w"
| "no_nan v \<longleftrightarrow> True"

text \<open>Where a value stands among all values.\<close>

fun key_place :: "pyval \<Rightarrow> nat \<times> extended \<times> ustr \<times> bytes" where
  "key_place VNull = (0, MinusInfinity, [], [])"
| "key_place (VText s) = (2, MinusInfinity, s, [])"
| "key_place (VBlob b) = (3, MinusInfinity, [], b)"
| "key_place v = (1, (case num_place v of Some x \<Rightarrow> x | None \<Rightarrow> MinusInfinity), [], [])"

definition place_cmp :: "'a :: linorder \<Rightarrow> 'a \<Rightarrow> int" where
  "place_cmp x y = (if x < y then -1 else if x = y then 0 else 1)"

lemma place_cmp_commute: "place_cmp y x = - place_cmp x y"
  by (auto simp: place_cmp_def)

lemma place_cmp_trans: "place_cmp x y \<le> 0 \<Longrightarrow> place_cmp y z \<le> 0 \<Longrightarrow> place_cmp x z \<le> 0"
  by (auto simp: place_cmp_def split: if_splits)

lemma no_nan_place: "no_nan v \<Longrightarrow> is_number v \<Longrightarrow> num_place v \<noteq> None"
  by (cases v) auto

lemma py_eq_place: "no_nan a \<Longrightarrow> no_nan b \<Longrightarrow> py_eq a b \<longleftrightarrow> key_place a = key_place b"
  by (cases a; cases b) (auto simp: num_eq_def)

lemma py_less_place: "no_nan a \<Longrightarrow> no_nan b \<Longrightarrow> key_rank a = key_rank b \<Longrightarrow> a \<noteq> VNull \<Longrightarrow> py_less a b = Inr (key_place a < key_place b)"
  by (cases a; cases b) (auto simp: num_less_def)

lemma key_rank_place: "key_rank a < key_rank b \<Longrightarrow> key_place a < key_place b"
  by (cases a; cases b) auto

lemma compare_one:
  assumes "no_nan a" and "no_nan b"
  shows "compare_keys [a] [b] = Inr (place_cmp (key_place a) (key_place b))"
proof (cases "py_eq a b")
  case True
  then show ?thesis using py_eq_place [OF assms] by (simp add: place_cmp_def)
next
  case False
  then have ne: "key_place a \<noteq> key_place b" using py_eq_place [OF assms] by simp
  consider "key_rank a < key_rank b" | "key_rank b < key_rank a" | "key_rank a = key_rank b" by linarith
  then show ?thesis
  proof cases
    case 3
    have "a \<noteq> VNull" using False 3 by (cases b) auto
    then show ?thesis using False 3 ne py_less_place [OF assms 3] by (simp add: place_cmp_def)
  qed (use False ne key_rank_place in \<open>force simp: place_cmp_def\<close>)+
qed

section \<open>Sorting by a comparison\<close>

text \<open>What \<^verbatim>\<open>list.sort\<close> needs of a comparison on the rows it is given.\<close>

locale comparison =
  fixes dom :: "'a set" and cmp :: "'a \<Rightarrow> 'a \<Rightarrow> int res" and ord :: "'a \<Rightarrow> 'a \<Rightarrow> int"
  assumes total: "a \<in> dom \<Longrightarrow> b \<in> dom \<Longrightarrow> cmp a b = Inr (ord a b)"
    and commute: "a \<in> dom \<Longrightarrow> b \<in> dom \<Longrightarrow> ord b a = - ord a b"
    and trans: "a \<in> dom \<Longrightarrow> b \<in> dom \<Longrightarrow> c \<in> dom \<Longrightarrow> ord a b \<le> 0 \<Longrightarrow> ord b c \<le> 0 \<Longrightarrow> ord a c \<le> 0"
begin

lemma insert_row_sorted:
  assumes "x \<in> dom" and "set ys \<subseteq> dom" and "sorted_wrt (\<lambda>a b. ord a b \<le> 0) ys"
  shows "\<exists>zs. insert_row cmp x ys = Inr zs \<and> mset zs = add_mset x (mset ys) \<and> sorted_wrt (\<lambda>a b. ord a b \<le> 0) zs
    \<and> (\<forall>a \<in> dom. filter (\<lambda>y. ord a y = 0) zs = filter (\<lambda>y. ord a y = 0) (x # ys))"
  using assms(2,3)
proof (induction ys)
  case (Cons y ys)
  then have y: "y \<in> dom" "set ys \<subseteq> dom" "\<forall>b \<in> set ys. ord y b \<le> 0" "sorted_wrt (\<lambda>a b. ord a b \<le> 0) ys" by auto
  note c = total [OF y(1) assms(1)]
  show ?case
  proof (cases "ord y x < 0")
    case True
    from Cons.IH [OF y(2,4)] obtain zs where zs: "insert_row cmp x ys = Inr zs" "mset zs = add_mset x (mset ys)"
      "sorted_wrt (\<lambda>a b. ord a b \<le> 0) zs" "\<forall>a \<in> dom. filter (\<lambda>y. ord a y = 0) zs = filter (\<lambda>y. ord a y = 0) (x # ys)" by blast
    have "set zs = insert x (set ys)" using arg_cong [OF zs(2), of set_mset] by simp
    then have "sorted_wrt (\<lambda>a b. ord a b \<le> 0) (y # zs)" using zs(3) y(3) True by auto
    moreover have "\<not> (ord a y = 0 \<and> ord a x = 0)" if "a \<in> dom" for a
      using trans [OF assms(1) that y(1)] commute [OF assms(1) that] commute [OF y(1) assms(1)] True by auto
    ultimately show ?thesis using zs c True by (intro exI [of _ "y # zs"]) auto
  next
    case False
    then have xy: "ord x y \<le> 0" using commute [OF y(1) assms(1)] by simp
    have "ord x b \<le> 0" if "b \<in> set ys" for b using trans [OF assms(1) y(1) _ xy] y(2,3) that by blast
    then show ?thesis using c False xy y by (intro exI [of _ "x # y # ys"]) auto
  qed
qed simp

lemma sort_rows_sorted:
  "set xs \<subseteq> dom \<Longrightarrow> \<exists>zs. sort_rows cmp xs = Inr zs \<and> mset zs = mset xs \<and> sorted_wrt (\<lambda>a b. ord a b \<le> 0) zs
    \<and> (\<forall>a \<in> dom. filter (\<lambda>y. ord a y = 0) zs = filter (\<lambda>y. ord a y = 0) xs)"
proof (induction xs)
  case (Cons x xs)
  then obtain ys where ys: "sort_rows cmp xs = Inr ys" "mset ys = mset xs" "sorted_wrt (\<lambda>a b. ord a b \<le> 0) ys"
    "\<forall>a \<in> dom. filter (\<lambda>y. ord a y = 0) ys = filter (\<lambda>y. ord a y = 0) xs" by auto
  have "set ys \<subseteq> dom" using mset_eq_setD [OF ys(2)] Cons.prems by simp
  from insert_row_sorted [OF _ this ys(3), of x] Cons.prems obtain zs where
    "insert_row cmp x ys = Inr zs" "mset zs = add_mset x (mset ys)" "sorted_wrt (\<lambda>a b. ord a b \<le> 0) zs"
    "\<forall>a \<in> dom. filter (\<lambda>y. ord a y = 0) zs = filter (\<lambda>y. ord a y = 0) (x # ys)" by auto
  with ys show ?case by (intro exI [of _ zs]) auto
qed simp

end

section \<open>ORDER BY\<close>

text \<open>The rows a list of keys can order, and how it orders them.\<close>

definition sortable :: "bound_order_key list \<Rightarrow> pyval list set" where
  "sortable keys = {row. \<forall>k \<in> set keys. key_index k < length row \<and> no_nan (row ! key_index k)}"

fun row_order :: "bound_order_key list \<Rightarrow> pyval list \<Rightarrow> pyval list \<Rightarrow> int" where
  "row_order [] a b = 0"
| "row_order (k # ks) a b =
     (let c = place_cmp (key_place (a ! key_index k)) (key_place (b ! key_index k)); c = (if descending k then - c else c) in
      if c \<noteq> 0 then c else row_order ks a b)"

lemma row_compare_order: "a \<in> sortable keys \<Longrightarrow> b \<in> sortable keys \<Longrightarrow> row_compare keys a b = Inr (row_order keys a b)"
  by (induction keys) (auto simp: sortable_def py_get_def compare_one Let_def simp del: compare_keys.simps)

lemma row_order_commute: "row_order keys b a = - row_order keys a b"
proof (induction keys)
  case (Cons k ks)
  then show ?case using place_cmp_commute [of "key_place (a ! key_index k)" "key_place (b ! key_index k)"] by (auto simp: Let_def)
qed simp

lemma place_cmp_cases: "place_cmp x y = 0 \<longleftrightarrow> x = y" "place_cmp x y < 0 \<longleftrightarrow> x < y" "place_cmp x y \<le> 0 \<longleftrightarrow> x \<le> y"
  by (auto simp: place_cmp_def)

lemma row_order_trans: "row_order keys a b \<le> 0 \<Longrightarrow> row_order keys b c \<le> 0 \<Longrightarrow> row_order keys a c \<le> 0"
proof (induction keys)
  case (Cons k ks)
  define x y z where xyz: "x = key_place (a ! key_index k)" "y = key_place (b ! key_index k)" "z = key_place (c ! key_index k)"
  have ro: "row_order (k # ks) u v = (let d = place_cmp (key_place (u ! key_index k)) (key_place (v ! key_index k)); d = (if descending k then - d else d) in
      if d \<noteq> 0 then d else row_order ks u v)" for u v by simp
  show ?case
    using Cons.IH Cons.prems unfolding ro xyz [symmetric] Let_def
    by (cases x y rule: linorder_cases; cases y z rule: linorder_cases; cases x z rule: linorder_cases) (auto simp: place_cmp_def split: if_splits)
qed simp

interpretation order_by: comparison "sortable keys" "row_compare keys" "row_order keys" for keys
  by unfold_locales (rule row_compare_order row_order_commute row_order_trans; assumption)+

text \<open>Reading the result.\<close>

fun read_sorted :: "nat \<Rightarrow> sort_state \<Rightarrow> pyval list option list \<times> sort_state" where
  "read_sorted 0 s = ([], s)"
| "read_sorted (Suc n) s = (let (r, s1) = sort_next s; (rs, s2) = read_sorted n s1 in (r # rs, s2))"

lemma read_sorted_rows:
  "position s \<le> length (results s) \<Longrightarrow> fst (read_sorted (Suc (length (results s) - position s)) s) = map Some (drop (position s) (results s)) @ [None]"
proof (induction "length (results s) - position s" arbitrary: s)
  case 0
  then show ?case by (simp add: sort_next_def)
next
  case (Suc n)
  then have lt: "position s < length (results s)" by simp
  let ?s = "s\<lparr>position := position s + 1\<rparr>"
  have "n = length (results ?s) - position ?s" "position ?s \<le> length (results ?s)" using Suc(2) lt by simp_all
  from Suc(1) [OF this] \<open>n = _\<close> have IH: "fst (read_sorted (Suc n) ?s) = map Some (drop (position ?s) (results ?s)) @ [None]" by simp
  have "sort_next s = (Some (results s ! position s), ?s)" using lt by (simp add: sort_next_def)
  then have "fst (read_sorted (Suc (Suc n)) s) = Some (results s ! position s) # fst (read_sorted (Suc n) ?s)"
    unfolding read_sorted.simps(2) [of "Suc n"] by (simp add: split_beta del: read_sorted.simps)
  then show ?case using IH Suc(2) lt by (simp add: Cons_nth_drop_Suc [symmetric] del: read_sorted.simps)
qed

section \<open>Properties\<close>

text \<open>
  C32. \<^verbatim>\<open>compare_keys\<close> is a total order of values without NaN: NULL before numbers before text before blobs,
  numbers by their exact value whether integer or float, text and blobs lexicographically; it never
  raises, and the SQL comparison operators agree with it on values that are not NULL.
\<close>

theorem compare_keys_total:
  assumes "no_nan a" and "no_nan b" and "no_nan c"
  shows "compare_keys [a] [b] = Inr (place_cmp (key_place a) (key_place b))
    \<and> compare_keys [b] [a] = Inr (- place_cmp (key_place a) (key_place b))
    \<and> (place_cmp (key_place a) (key_place b) \<le> 0 \<longrightarrow> place_cmp (key_place b) (key_place c) \<le> 0 \<longrightarrow> place_cmp (key_place a) (key_place c) \<le> 0)
    \<and> (a \<noteq> VNull \<longrightarrow> b \<noteq> VNull \<longrightarrow> compare_op ''<'' a b = Inr (place_cmp (key_place a) (key_place b) < 0)
        \<and> compare_op ''='' a b = Inr (place_cmp (key_place a) (key_place b) = 0))"
proof -
  have "compare_op ''<'' a b = Inr (key_place a < key_place b) \<and> compare_op ''='' a b = Inr (key_place a = key_place b)"
    if "a \<noteq> VNull" "b \<noteq> VNull"
    using that assms(1,2) by (cases a; cases b) (auto simp: compare_op_def apply_ordering_def num_eq_def num_less_def)
  then show ?thesis
    using compare_one [OF assms(1,2)] compare_one [OF assms(2,1)] place_cmp_commute [of "key_place b" "key_place a"]
      place_cmp_trans [of "key_place a" "key_place b" "key_place c"] by (simp add: place_cmp_cases)
qed


theorem compare_keys_total_witness: "compare_keys [VInt 3] [VText [97]] = Inr (-1) \<and> compare_keys [VText [97]] [VInt 3] = Inr 1"
  using compare_keys_total [of "VInt 3" "VText [97]" VNull] by (simp add: place_cmp_def)

text \<open>
  C33. \<^verbatim>\<open>ORDER BY\<close> sorts, stably: over a child that ends normally within the row limit and has no NaN in the
  key columns, opening succeeds, reading gives the child's rows once each and then the end, every row
  stands after those that come before it in the order of the keys (later keys breaking ties, each
  ascending or descending), and rows that tie stay in the child's order.
\<close>

theorem order_by_sorts:
  assumes "src_error child = None" and "length (src_rows child) \<le> MAX_SORT_ROWS" and "set (src_rows child) \<subseteq> sortable keys"
  shows "\<exists>s. sort_open keys child = Inr s \<and> fst (read_sorted (Suc (length (src_rows child))) s) = map Some (results s) @ [None]
    \<and> mset (results s) = mset (src_rows child) \<and> sorted_wrt (\<lambda>a b. row_order keys a b \<le> 0) (results s)
    \<and> (\<forall>a \<in> sortable keys. filter (\<lambda>b. row_order keys a b = 0) (results s) = filter (\<lambda>b. row_order keys a b = 0) (src_rows child))"
proof -
  from order_by.sort_rows_sorted [OF assms(3)] obtain zs where
    z: "sort_rows (row_compare keys) (src_rows child) = Inr zs" "mset zs = mset (src_rows child)"
      "sorted_wrt (\<lambda>a b. row_order keys a b \<le> 0) zs"
      "\<forall>a \<in> sortable keys. filter (\<lambda>b. row_order keys a b = 0) zs = filter (\<lambda>b. row_order keys a b = 0) (src_rows child)" by blast
  have "fst (read_sorted (Suc (length (src_rows child))) \<lparr>results = zs, position = 0\<rparr>) = map Some zs @ [None]"
    using read_sorted_rows [of "\<lparr>results = zs, position = 0\<rparr>"] mset_eq_length [OF z(2)] by simp
  then show ?thesis using z assms(1,2)
    by (intro exI [of _ "\<lparr>results = zs, position = 0\<rparr>"]) (simp add: sort_open_def drain_source_def)
qed


theorem order_by_sorts_witness:
  "\<exists>s. sort_open [\<lparr>key_index = 0, descending = True\<rparr>] \<lparr>src_rows = [[VInt 1], [VText [97]], [VInt 2]], src_error = None\<rparr> = Inr s
     \<and> mset (results s) = {#[VInt 1], [VText [97]], [VInt 2]#}"
  using order_by_sorts [of "\<lparr>src_rows = [[VInt 1], [VText [97]], [VInt 2]], src_error = None\<rparr>" "[\<lparr>key_index = 0, descending = True\<rparr>]"]
  by (auto simp: MAX_SORT_ROWS_def sortable_def)

end
