(* ===== verification/Aggregate.thy ===== *)
theory Aggregate
  imports Sorting
begin

text \<open>
  Aggregate functions and grouping, \<^verbatim>\<open>src/src/quilldb/exec/aggregate.py\<close>. A running state is an integer,
  a value, or the total and count of \<^verbatim>\<open>AVG\<close>; groups are the association list of a dictionary whose
  keys compare by Python equality.
\<close>

section \<open>Definitions\<close>

datatype agg_state = CountState int | ValueState pyval | AvgState pyval int

definition count_step :: "int \<Rightarrow> pyval \<Rightarrow> int" where
  "count_step state value = (if value = VNull then state else state + 1)"

text \<open>\<^verbatim>\<open>+\<close> on two numbers, without a bound on integers.\<close>

definition num_add :: "pyval \<Rightarrow> pyval \<Rightarrow> pyval res" where
  "num_add a b =
     (case (a, b) of
        (VInt m, VInt n) \<Rightarrow> Inr (VInt (m + n))
      | _ \<Rightarrow> bind_res (as_float a) (\<lambda>x. bind_res (as_float b) (\<lambda>y. Inr (VReal (fp_add x y)))))"

definition sum_step :: "pyval \<Rightarrow> pyval \<Rightarrow> pyval res" where
  "sum_step state value =
     (if value = VNull then Inr state
      else bind_res (require_number value) (\<lambda>value.
        if state = VNull then Inr value
        else if \<not> is_number state then Inl AssertionError
        else case (state, value) of
          (VInt m, VInt n) \<Rightarrow>
            if m + n < MIN_INT64 \<or> MAX_INT64 < m + n then Inl IntegerOverflowError else Inr (VInt (m + n))
        | _ \<Rightarrow> num_add state value))"

definition avg_step :: "pyval \<times> int \<Rightarrow> pyval \<Rightarrow> (pyval \<times> int) res" where
  "avg_step state value =
     (let (total, n) = state in
      if value = VNull then Inr state
      else bind_res (require_number value) (\<lambda>number.
        if total = VNull then Inr (number, n + 1)
        else bind_res (num_add total number) (\<lambda>t. Inr (t, n + 1))))"

text \<open>\<^verbatim>\<open>/\<close> by a count: the quotient of two integers is rounded once.\<close>

definition avg_final :: "pyval \<times> int \<Rightarrow> pyval res" where
  "avg_final state =
     (case state of
        (VNull, n) \<Rightarrow> Inr VNull
      | (VInt t, n) \<Rightarrow>
          if n = 0 then Inl ZeroDivisionError
          else let w = fp_of_ratio (t < 0) (t * 2 ^ 1074) n in if fp_is_inf w then Inl OverflowError else Inr (VReal w)
      | (VReal w, n) \<Rightarrow>
          if n = 0 then Inl ZeroDivisionError else map_sum id (\<lambda>c. VReal (fp_div w c)) (float_of_int n)
      | _ \<Rightarrow> Inl TypeError)"

definition min_step :: "pyval \<Rightarrow> pyval \<Rightarrow> pyval res" where
  "min_step state value =
     (if value = VNull then Inr state else if state = VNull then Inr value
      else bind_res (compare_keys [value] [state]) (\<lambda>c. Inr (if c < 0 then value else state)))"

definition max_step :: "pyval \<Rightarrow> pyval \<Rightarrow> pyval res" where
  "max_step state value =
     (if value = VNull then Inr state else if state = VNull then Inr value
      else bind_res (compare_keys [value] [state]) (\<lambda>c. Inr (if c > 0 then value else state)))"

text \<open>The table \<^verbatim>\<open>AGGREGATES\<close>: \<^verbatim>\<open>init\<close>, \<^verbatim>\<open>step\<close> and \<^verbatim>\<open>final\<close> by function name.\<close>

definition agg_init :: "string \<Rightarrow> agg_state res" where
  "agg_init func =
     (if func = ''count_star'' \<or> func = ''count'' then Inr (CountState 0)
      else if func = ''sum'' \<or> func = ''min'' \<or> func = ''max'' then Inr (ValueState VNull)
      else if func = ''avg'' then Inr (AvgState VNull 0)
      else Inl KeyError)"

fun agg_step :: "string \<Rightarrow> agg_state \<Rightarrow> pyval \<Rightarrow> agg_state res" where
  "agg_step func (CountState n) value =
     (if func = ''count_star'' then Inr (CountState (n + 1))
      else if func = ''count'' then Inr (CountState (count_step n value)) else Inl KeyError)"
| "agg_step func (ValueState s) value =
     (if func = ''sum'' then map_sum id ValueState (sum_step s value)
      else if func = ''min'' then map_sum id ValueState (min_step s value)
      else if func = ''max'' then map_sum id ValueState (max_step s value) else Inl KeyError)"
| "agg_step func (AvgState t n) value =
     (if func = ''avg'' then map_sum id (\<lambda>(t, n). AvgState t n) (avg_step (t, n) value) else Inl KeyError)"

fun agg_final :: "agg_state \<Rightarrow> pyval res" where
  "agg_final (CountState n) = Inr (VInt n)"
| "agg_final (ValueState v) = Inr v"
| "agg_final (AvgState t n) = avg_final (t, n)"

record bound_aggregate =
  agg_func :: string
  agg_arg :: "bound_expression option"

definition init_states :: "bound_aggregate list \<Rightarrow> agg_state list res" where
  "init_states aggregates = map_res (\<lambda>agg. agg_init (agg_func agg)) aggregates"

fun step_states :: "bound_aggregate list \<Rightarrow> pyval list \<Rightarrow> agg_state list \<Rightarrow> agg_state list res" where
  "step_states (agg # aggs) row (state # states) =
     bind_res (case agg_arg agg of None \<Rightarrow> Inr VNull | Some e \<Rightarrow> evaluate e row) (\<lambda>value.
     bind_res (agg_step (agg_func agg) state value) (\<lambda>state'.
     bind_res (step_states aggs row states) (\<lambda>states'. Inr (state' # states'))))"
| "step_states aggs row states = Inr states"

type_synonym groups = "(pyval list \<times> agg_state list) list"

definition same_key :: "pyval list \<Rightarrow> pyval list \<Rightarrow> bool" where
  "same_key = list_all2 py_eq"

fun group_get :: "pyval list \<Rightarrow> groups \<Rightarrow> agg_state list option" where
  "group_get key [] = None"
| "group_get key ((k, states) # gs) = (if same_key k key then Some states else group_get key gs)"

fun group_put :: "pyval list \<Rightarrow> agg_state list \<Rightarrow> groups \<Rightarrow> groups" where
  "group_put key states [] = [(key, states)]"
| "group_put key states ((k, old) # gs) = (if same_key k key then (k, states) # gs else (k, old) # group_put key states gs)"

definition group_key :: "bound_expression list \<Rightarrow> pyval list \<Rightarrow> pyval list res" where
  "group_key group_by row = map_res (\<lambda>expr. evaluate expr row) group_by"

fun aggregate_rows :: "bound_expression list \<Rightarrow> bound_aggregate list \<Rightarrow> pyval list list \<Rightarrow> groups \<Rightarrow> groups res" where
  "aggregate_rows group_by aggregates [] groups = Inr groups"
| "aggregate_rows group_by aggregates (row # rows) groups =
     bind_res (group_key group_by row) (\<lambda>key.
     bind_res (case group_get key groups of None \<Rightarrow> init_states aggregates | Some states \<Rightarrow> Inr states) (\<lambda>states.
     bind_res (step_states aggregates row states) (\<lambda>states'.
       aggregate_rows group_by aggregates rows (group_put key states' groups))))"

definition hash_aggregate_open ::
  "bound_expression list \<Rightarrow> bound_aggregate list \<Rightarrow> row_source \<Rightarrow> sort_state res" where
  "hash_aggregate_open group_by aggregates child =
     bind_res (if group_by = [] then bind_res (init_states aggregates) (\<lambda>states. Inr [([], states)]) else Inr []) (\<lambda>groups.
     bind_res (aggregate_rows group_by aggregates (src_rows child) groups) (\<lambda>groups.
     case src_error child of
       Some e \<Rightarrow> Inl e
     | None \<Rightarrow>
         bind_res (map_res (\<lambda>(key, states). bind_res (map_res agg_final states) (\<lambda>vs. Inr (key @ vs))) groups)
           (\<lambda>rows. Inr \<lparr>results = rows, position = 0\<rparr>)))"


definition hash_aggregate_next :: "sort_state \<Rightarrow> pyval list option \<times> sort_state" where
  "hash_aggregate_next s =
     (if length (results s) \<le> position s then (None, s)
      else (Some (results s ! position s), s\<lparr>position := position s + 1\<rparr>))"

definition hash_aggregate_close :: "sort_state \<Rightarrow> sort_state" where
  "hash_aggregate_close s = s\<lparr>results := [], position := 0\<rparr>"

section \<open>Folding one aggregate\<close>

fun agg_fold :: "string \<Rightarrow> agg_state \<Rightarrow> pyval list \<Rightarrow> agg_state res" where
  "agg_fold func state [] = Inr state"
| "agg_fold func state (v # vs) = bind_res (agg_step func state v) (\<lambda>s. agg_fold func s vs)"

definition agg_result :: "string \<Rightarrow> pyval list \<Rightarrow> pyval res" where
  "agg_result func vs = bind_res (agg_init func) (\<lambda>s. bind_res (agg_fold func s vs) agg_final)"

definition present :: "pyval list \<Rightarrow> pyval list" where
  "present vs = filter (\<lambda>v. v \<noteq> VNull) vs"

lemma present_simps [simp]: "present [] = []" "present (VNull # vs) = present vs" "v \<noteq> VNull \<Longrightarrow> present (v # vs) = v # present vs"
  by (simp_all add: present_def)

lemma agg_fold_append: "agg_fold func s (us @ vs) = bind_res (agg_fold func s us) (\<lambda>s. agg_fold func s vs)"
  by (induction us arbitrary: s) (auto simp: bind_res_def split: sum.splits)

lemma count_fold:
  "agg_fold ''count'' (CountState n) vs = Inr (CountState (n + int (length (present vs))))"
  "agg_fold ''count_star'' (CountState n) vs = Inr (CountState (n + int (length vs)))"
  by (induction vs arbitrary: n) (auto simp: count_step_def present_def)

text \<open>\<^verbatim>\<open>SUM\<close> over integers: the running sums must stay within 64 bits.\<close>

fun is_int :: "pyval \<Rightarrow> bool" where
  "is_int (VInt n) \<longleftrightarrow> True"
| "is_int v \<longleftrightarrow> False"

fun int_sum :: "pyval list \<Rightarrow> int" where
  "int_sum [] = 0"
| "int_sum (VInt n # vs) = n + int_sum vs"
| "int_sum (v # vs) = int_sum vs"

definition fits64 :: "int \<Rightarrow> bool" where
  "fits64 n \<longleftrightarrow> MIN_INT64 \<le> n \<and> n \<le> MAX_INT64"

lemma sum_step_int:
  "sum_step (VInt m) (VInt n) = (if fits64 (m + n) then Inr (VInt (m + n)) else Inl IntegerOverflowError)"
  "sum_step s VNull = Inr s" "sum_step VNull (VInt n) = Inr (VInt n)"
  by (auto simp: sum_step_def require_number_def fits64_def)

lemma all_le_Suc: "(\<forall>k \<le> Suc n. P k) \<longleftrightarrow> P 0 \<and> (\<forall>k \<le> n. P (Suc k))"
  by (metis Suc_le_mono le0 not0_implies_Suc)

lemma sum_fold:
  "\<forall>v \<in> set vs. v = VNull \<or> is_int v \<Longrightarrow> fits64 m \<Longrightarrow>
   agg_fold ''sum'' (ValueState (VInt m)) vs =
     (if \<forall>k \<le> length vs. fits64 (m + int_sum (take k vs)) then Inr (ValueState (VInt (m + int_sum vs))) else Inl IntegerOverflowError)"
proof (induction vs arbitrary: m)
  case (Cons v vs)
  then consider "v = VNull" | n where "v = VInt n" by (cases v) auto
  then show ?case
  proof cases
    case 1
    then show ?thesis using Cons by (auto simp: sum_step_int all_le_Suc simp del: All_less_Suc)
  next
    case 2
    show ?thesis
    proof (cases "fits64 (m + n)")
      case True
      then show ?thesis using 2 Cons.IH [OF _ True] Cons.prems by (auto simp: sum_step_int all_le_Suc add.assoc)
    next
      case False
      then have "\<not> (\<forall>k \<le> length (v # vs). fits64 (m + int_sum (take k (v # vs))))"
        using 2 by (auto simp: all_le_Suc intro!: exI [of _ 0])
      then show ?thesis using 2 False by (simp add: sum_step_int)
    qed
  qed
qed simp

lemma sum_fold_start:
  "\<forall>v \<in> set vs. v = VNull \<or> is_int v \<and> storable v \<Longrightarrow>
   agg_fold ''sum'' (ValueState VNull) vs =
     (if present vs = [] then Inr (ValueState VNull)
      else if \<forall>k \<le> length vs. fits64 (int_sum (take k vs)) then Inr (ValueState (VInt (int_sum vs))) else Inl IntegerOverflowError)"
proof (induction vs)
  case (Cons v vs)
  then consider "v = VNull" | n where "v = VInt n" by (cases v) auto
  then show ?case
  proof cases
    case 1
    have "fits64 0" by (simp add: fits64_def MIN_INT64_def MAX_INT64_def)
    then show ?thesis using 1 Cons by (auto simp: sum_step_int all_le_Suc)
  next
    case 2
    have fits: "fits64 n" "fits64 0" using 2 Cons.prems by (simp_all add: fits64_def MIN_INT64_def MAX_INT64_def)
    have ints: "\<forall>v \<in> set vs. v = VNull \<or> is_int v" using Cons.prems by auto
    show ?thesis using 2 fits by (auto simp: sum_fold [OF ints fits(1)] sum_step_int all_le_Suc)
  qed
qed simp

text \<open>\<^verbatim>\<open>MIN\<close> and \<^verbatim>\<open>MAX\<close> keep the first of the values that come first, or last, in the order of values.\<close>

fun pick :: "(nat \<times> extended \<times> ustr \<times> bytes \<Rightarrow> nat \<times> extended \<times> ustr \<times> bytes \<Rightarrow> bool) \<Rightarrow> pyval \<Rightarrow> pyval list \<Rightarrow> pyval" where
  "pick better s [] = s"
| "pick better s (v # vs) = pick better (if better (key_place v) (key_place s) then v else s) vs"

lemma pick_fold:
  assumes "\<forall>v \<in> set vs. no_nan v" and "no_nan s" and "s \<noteq> VNull"
  shows "agg_fold ''min'' (ValueState s) vs = Inr (ValueState (pick (<) s (present vs)))"
    and "agg_fold ''max'' (ValueState s) vs = Inr (ValueState (pick (>) s (present vs)))"
  using assms
proof (induction vs arbitrary: s)
  case (Cons v vs)
  { case 1 then show ?case using Cons.IH(1) by (cases "v = VNull") (auto simp: min_step_def compare_one place_cmp_cases simp del: compare_keys.simps)
  next
    case 2
    have "place_cmp x y > 0 \<longleftrightarrow> x > y" for x y :: "nat \<times> extended \<times> ustr \<times> bytes" by (auto simp: place_cmp_def)
    with 2 show ?case using Cons.IH(2) by (cases "v = VNull") (auto simp: max_step_def compare_one simp del: compare_keys.simps) }
qed simp_all

lemma pick_best:
  "pick (<) s vs \<in> insert s (set vs) \<and> (\<forall>v \<in> insert s (set vs). key_place (pick (<) s vs) \<le> key_place v)"
  "pick (>) s vs \<in> insert s (set vs) \<and> (\<forall>v \<in> insert s (set vs). key_place v \<le> key_place (pick (>) s vs))"
proof (induction vs arbitrary: s)
  case (Cons v vs)
  { case 1 show ?case using Cons.IH(1) [of v] Cons.IH(1) [of s] by (cases "key_place v < key_place s") (auto intro: order.trans)
  next
    case 2 show ?case using Cons.IH(2) [of v] Cons.IH(2) [of s] by (cases "key_place v > key_place s") (auto intro: order.trans) }
qed simp_all

lemma pick_result:
  assumes "\<forall>v \<in> set vs. no_nan v"
  shows "agg_result ''min'' vs = Inr (case present vs of [] \<Rightarrow> VNull | v # us \<Rightarrow> pick (<) v us)"
    and "agg_result ''max'' vs = Inr (case present vs of [] \<Rightarrow> VNull | v # us \<Rightarrow> pick (>) v us)"
proof -
  have "agg_fold ''min'' (ValueState VNull) vs = Inr (ValueState (case present vs of [] \<Rightarrow> VNull | v # us \<Rightarrow> pick (<) v us))
    \<and> agg_fold ''max'' (ValueState VNull) vs = Inr (ValueState (case present vs of [] \<Rightarrow> VNull | v # us \<Rightarrow> pick (>) v us))"
    using assms
  proof (induction vs)
    case (Cons v vs)
    then show ?case using pick_fold [of vs v] by (cases "v = VNull") (simp_all add: min_step_def max_step_def)
  qed simp
  then show "agg_result ''min'' vs = Inr (case present vs of [] \<Rightarrow> VNull | v # us \<Rightarrow> pick (<) v us)"
    "agg_result ''max'' vs = Inr (case present vs of [] \<Rightarrow> VNull | v # us \<Rightarrow> pick (>) v us)"
    by (simp_all add: agg_result_def agg_init_def)
qed

section \<open>Groups\<close>

text \<open>The keys in the order in which they first appear; no \<^verbatim>\<open>GROUP BY\<close> is one group, rows or not.\<close>

definition add_key :: "pyval list list \<Rightarrow> pyval list \<Rightarrow> pyval list list" where
  "add_key seen k = (if \<exists>s \<in> set seen. same_key s k then seen else seen @ [k])"

definition group_keys :: "bound_expression list \<Rightarrow> pyval list list \<Rightarrow> pyval list list" where
  "group_keys group_by ks = foldl add_key (if group_by = [] then [[]] else []) ks"

text \<open>One group on its own: its rows folded, then finished.\<close>

fun fold_rows :: "bound_aggregate list \<Rightarrow> pyval list list \<Rightarrow> agg_state list \<Rightarrow> agg_state list res" where
  "fold_rows aggs [] states = Inr states"
| "fold_rows aggs (row # rows) states = bind_res (step_states aggs row states) (fold_rows aggs rows)"

definition group_states :: "bound_aggregate list \<Rightarrow> pyval list list \<Rightarrow> agg_state list res" where
  "group_states aggs rows = bind_res (init_states aggs) (fold_rows aggs rows)"

definition group_row :: "bound_aggregate list \<Rightarrow> pyval list list \<Rightarrow> pyval list \<Rightarrow> pyval list res" where
  "group_row aggs rows key =
     bind_res (group_states aggs rows) (\<lambda>states. bind_res (map_res agg_final states) (\<lambda>vs. Inr (key @ vs)))"

definition key_of :: "bound_expression list \<Rightarrow> pyval list \<Rightarrow> pyval list" where
  "key_of group_by row = (case group_key group_by row of Inr k \<Rightarrow> k | Inl e \<Rightarrow> [])"

definition rows_of :: "bound_expression list \<Rightarrow> pyval list list \<Rightarrow> pyval list \<Rightarrow> pyval list list" where
  "rows_of group_by rows k = filter (\<lambda>row. same_key k (key_of group_by row)) rows"

definition groupable :: "bound_expression list \<Rightarrow> pyval list \<Rightarrow> bool" where
  "groupable group_by row \<longleftrightarrow> (case group_key group_by row of Inr k \<Rightarrow> list_all no_nan k | Inl e \<Rightarrow> False)"

text \<open>Keys as places, on which \<^verbatim>\<open>same_key\<close> is equality.\<close>

lemma same_key_place:
  "list_all no_nan j \<Longrightarrow> list_all no_nan k \<Longrightarrow> same_key j k \<longleftrightarrow> map key_place j = map key_place k"
  unfolding same_key_def
proof (induction j arbitrary: k)
  case (Cons a j)
  then show ?case by (cases k) (auto simp: py_eq_place)
qed (simp add: list_all2_Nil)

lemma fold_rows_append: "fold_rows aggs (us @ vs) s = bind_res (fold_rows aggs us s) (fold_rows aggs vs)"
  by (induction us arbitrary: s) (auto simp: bind_res_def split: sum.splits)

lemma aggregate_rows_append:
  "aggregate_rows g aggs (us @ vs) gs = bind_res (aggregate_rows g aggs us gs) (aggregate_rows g aggs vs)"
proof (induction us arbitrary: gs)
  case (Cons u us)
  show ?case by (simp add: Cons bind_res_def split: sum.splits)
qed simp

lemma group_get_None: "group_get k gs = None \<longleftrightarrow> (\<forall>s \<in> fst ` set gs. \<not> same_key s k)"
  by (induction k gs rule: group_get.induct) auto

lemma group_put_keys: "map fst (group_put k st gs) = add_key (map fst gs) k"
  by (induction k st gs rule: group_put.induct) (auto simp: add_key_def)

lemma group_keys_snoc: "group_keys g (ks @ [k]) = add_key (group_keys g ks) k"
  by (simp add: group_keys_def)

text \<open>The association list holds, for every key so far, the states of its rows.\<close>

definition grouped :: "bound_expression list \<Rightarrow> bound_aggregate list \<Rightarrow> pyval list list \<Rightarrow> groups \<Rightarrow> bool" where
  "grouped g aggs rows gs \<longleftrightarrow>
     map fst gs = group_keys g (map (key_of g) rows) \<and>
     distinct (map (map key_place \<circ> fst) gs) \<and>
     (\<forall>(k, st) \<in> set gs. list_all no_nan k \<and> group_states aggs (rows_of g rows k) = Inr st)"

lemma group_get_put:
  shows "group_get key gs = Some st \<Longrightarrow>
     \<exists>k us vs. gs = us @ (k, st) # vs \<and> same_key k key \<and> (\<forall>st'. group_put key st' gs = us @ (k, st') # vs)"
    and "group_get key gs = None \<Longrightarrow> group_put key st' gs = gs @ [(key, st')]"
proof -
  show "group_get key gs = Some st \<Longrightarrow> \<exists>k us vs. gs = us @ (k, st) # vs \<and> same_key k key \<and> (\<forall>st'. group_put key st' gs = us @ (k, st') # vs)"
  proof (induction gs)
    case (Cons g gs)
    obtain k old where g: "g = (k, old)" by fastforce
    show ?case
    proof (cases "same_key k key")
      case True
      then show ?thesis using Cons.prems g by (intro exI [of _ k] exI [of _ "[]"] exI [of _ gs]) simp
    next
      case False
      then obtain k2 us vs where "gs = us @ (k2, st) # vs" "same_key k2 key" "\<forall>st'. group_put key st' gs = us @ (k2, st') # vs"
        using Cons g by auto
      then show ?thesis using False g by (intro exI [of _ k2] exI [of _ "g # us"] exI [of _ vs]) simp
    qed
  qed simp
  show "group_get key gs = None \<Longrightarrow> group_put key st' gs = gs @ [(key, st')]"
    by (induction gs) (auto split: if_splits)
qed

lemma add_key_mono: "s \<in> set seen \<Longrightarrow> s \<in> set (add_key seen k)"
  by (simp add: add_key_def)

lemma group_keys_cover:
  assumes "k \<in> set ks" and "list_all no_nan k"
  shows "\<exists>s \<in> set (group_keys g ks). same_key s k"
  using assms(1)
proof (induction ks rule: rev_induct)
  case (snoc x ks)
  have "same_key k k" using same_key_place [OF assms(2) assms(2)] by simp
  then show ?case using snoc add_key_mono by (cases "x = k") (auto simp: group_keys_snoc add_key_def)
qed simp

lemma groupableD: "groupable g row \<Longrightarrow> group_key g row = Inr (key_of g row) \<and> list_all no_nan (key_of g row)"
  by (auto simp: groupable_def key_of_def split: sum.splits)

lemma rows_of_snoc: "rows_of g (rows @ [row]) k = rows_of g rows k @ (if same_key k (key_of g row) then [row] else [])"
  by (simp add: rows_of_def)

lemma group_states_snoc: "group_states aggs (rows @ [row]) = bind_res (group_states aggs rows) (step_states aggs row)"
  by (simp add: group_states_def fold_rows_append bind_res_def split: sum.splits)

lemma rows_of_cong:
  assumes "same_key k key" and "list_all no_nan k" and "list_all no_nan key" and "\<forall>row \<in> set rows. groupable g row"
  shows "rows_of g rows k = rows_of g rows key"
  unfolding rows_of_def using assms same_key_place groupableD by (intro filter_cong) auto

text \<open>One row more.\<close>

lemma grouped_new:
  assumes gs: "grouped g aggs rows gs" and row: "groupable g row" and rows: "\<forall>r \<in> set rows. groupable g r"
    and None: "group_get (key_of g row) gs = None"
  shows "case aggregate_rows g aggs [row] gs of
      Inr gs' \<Rightarrow> grouped g aggs (rows @ [row]) gs'
    | Inl e \<Rightarrow> \<exists>k \<in> set (group_keys g (map (key_of g) (rows @ [row]))). group_states aggs (rows_of g (rows @ [row]) k) = Inl e"
proof -
  let ?key = "key_of g row"
  note key = groupableD [OF row]
  note G = gs [unfolded grouped_def]
  have new: "\<forall>s \<in> set (map fst gs). \<not> same_key s ?key" using None by (simp add: group_get_None)
  then have keys: "group_keys g (map (key_of g) (rows @ [row])) = map fst gs @ [?key]" using G by (simp add: group_keys_snoc add_key_def)
  have "\<not> same_key ?key (key_of g r)" if "r \<in> set rows" for r
  proof
    assume same: "same_key ?key (key_of g r)"
    have r: "list_all no_nan (key_of g r)" using rows groupableD that by blast
    have "key_of g r \<in> set (map (key_of g) rows)" using that by simp
    from group_keys_cover [OF this r, of g] obtain s where s: "s \<in> set (map fst gs)" "same_key s (key_of g r)"
      unfolding conjunct1 [OF G] by blast
    have "\<forall>k \<in> set (map fst gs). list_all no_nan k" using conjunct2 [OF G] by auto
    then have "list_all no_nan s" using s(1) by blast
    then show False using new s same same_key_place r key by metis
  qed
  then have "rows_of g rows ?key = []" by (simp add: rows_of_def)
  then have one: "rows_of g (rows @ [row]) ?key = [row]" using key same_key_place by (simp add: rows_of_snoc)
  have "map key_place j \<noteq> map key_place ?key" if "(j, s) \<in> set gs" for j s
  proof -
    have "list_all no_nan j" "\<not> same_key j ?key" using conjunct2 [OF G] new that by auto
    then show ?thesis using same_key_place key by blast
  qed
  then have fresh: "map key_place ?key \<notin> set (map (map key_place \<circ> fst) gs)" by fastforce
  have states: "group_states aggs [row] = bind_res (init_states aggs) (step_states aggs row)"
    by (simp add: group_states_def bind_res_def split: sum.splits)
  show ?thesis
  proof (cases "group_states aggs [row]")
    case (Inl e)
    then have "aggregate_rows g aggs [row] gs = Inl e" using None key states by (auto simp: bind_res_def split: sum.splits)
    then show ?thesis using keys one Inl by auto
  next
    case (Inr st)
    then have "aggregate_rows g aggs [row] gs = Inr (gs @ [(?key, st)])"
      using None key states group_get_put(2) [OF None] by (auto simp: bind_res_def split: sum.splits)
    moreover have "distinct (map (map key_place \<circ> fst) (gs @ [(?key, st)]))" using G fresh by simp
    moreover have "rows_of g (rows @ [row]) k = rows_of g rows k" if "(k, s) \<in> set gs" for k s
      using new that by (force simp: rows_of_snoc)
    ultimately show ?thesis using keys one Inr key G by (auto simp: grouped_def)
  qed
qed

lemma grouped_old:
  assumes gs: "grouped g aggs rows gs" and row: "groupable g row" and rows: "\<forall>r \<in> set rows. groupable g r"
    and Some: "group_get (key_of g row) gs = Some old"
  shows "case aggregate_rows g aggs [row] gs of
      Inr gs' \<Rightarrow> grouped g aggs (rows @ [row]) gs'
    | Inl e \<Rightarrow> \<exists>k \<in> set (group_keys g (map (key_of g) (rows @ [row]))). group_states aggs (rows_of g (rows @ [row]) k) = Inl e"
proof -
  let ?key = "key_of g row"
  note key = groupableD [OF row]
  note G = gs [unfolded grouped_def]
  obtain k us vs where k: "gs = us @ (k, old) # vs" "same_key k ?key" "\<forall>st'. group_put ?key st' gs = us @ (k, st') # vs"
    using group_get_put(1) [OF Some] by blast
  have nk: "list_all no_nan k" "group_states aggs (rows_of g rows k) = Inr old" using G k(1) by auto
  have "?key \<in> set (map (key_of g) (rows @ [row]))" by simp
  have "\<exists>s \<in> set (map fst gs). same_key s ?key" using k(1,2) by auto
  then have keys: "group_keys g (map (key_of g) (rows @ [row])) = map fst gs"
    unfolding conjunct1 [OF G] by (simp add: group_keys_snoc add_key_def)
  have rows_k: "rows_of g (rows @ [row]) k = rows_of g rows k @ [row]" using k(2) by (simp add: rows_of_snoc)
  then have states: "group_states aggs (rows_of g (rows @ [row]) k) = step_states aggs row old" using nk(2) by (simp add: group_states_snoc)
  have run: "aggregate_rows g aggs [row] gs = bind_res (step_states aggs row old) (\<lambda>st'. Inr (us @ (k, st') # vs))"
    using Some key k(3) by simp
  show ?thesis
  proof (cases "step_states aggs row old")
    case (Inl e)
    then show ?thesis using run keys k(1) states by auto
  next
    case (Inr st)
    have other: "rows_of g (rows @ [row]) j = rows_of g rows j" if "(j, s) \<in> set us \<union> set vs" for j s
    proof -
      have "(j, s) \<in> set gs" using that k(1) by auto
      then have j: "list_all no_nan j" using conjunct2 [OF G] by auto
      have "distinct (map (map key_place \<circ> fst) (us @ (k, old) # vs))" using conjunct2 [OF G] unfolding k(1) by (rule conjunct1)
      then have "map key_place j \<noteq> map key_place k" using that by (force simp: image_iff)
      then have "\<not> same_key j ?key" using k(2) nk(1) key same_key_place [OF j] same_key_place [OF nk(1)] by metis
      then show ?thesis by (simp add: rows_of_snoc)
    qed
    have "list_all no_nan j \<and> group_states aggs (rows_of g (rows @ [row]) j) = Inr s" if "(j, s) \<in> set us \<union> set vs" for j s
    proof -
      have "(j, s) \<in> set gs" using that k(1) by auto
      then show ?thesis using other [OF that] conjunct2 [OF conjunct2 [OF G]] by auto
    qed
    moreover have "distinct (map (map key_place \<circ> fst) (us @ (k, st) # vs))" using conjunct2 [OF G] unfolding k(1) by simp
    ultimately have "grouped g aggs (rows @ [row]) (us @ (k, st) # vs)"
      using keys nk(1) states Inr unfolding grouped_def k(1) by auto
    then show ?thesis using run Inr by simp
  qed
qed

lemma grouped_step:
  assumes gs: "grouped g aggs rows gs" and row: "groupable g row" and rows: "\<forall>r \<in> set rows. groupable g r"
  shows "case aggregate_rows g aggs [row] gs of
      Inr gs' \<Rightarrow> grouped g aggs (rows @ [row]) gs'
    | Inl e \<Rightarrow> \<exists>k \<in> set (group_keys g (map (key_of g) (rows @ [row]))). group_states aggs (rows_of g (rows @ [row]) k) = Inl e"
  by (cases "group_get (key_of g row) gs") (use grouped_new [OF assms] grouped_old [OF assms] in blast)+

text \<open>All rows.\<close>

lemma grouped_all:
  assumes "\<forall>r \<in> set rows. groupable g r" and "init_states aggs = Inr i"
  shows "case aggregate_rows g aggs rows (if g = [] then [([], i)] else []) of
      Inr gs \<Rightarrow> grouped g aggs rows gs
    | Inl e \<Rightarrow> \<exists>k \<in> set (group_keys g (map (key_of g) rows)). group_states aggs (rows_of g rows k) = Inl e"
  using assms(1)
proof (induction rows rule: rev_induct)
  case Nil
  show ?case using assms(2) by (simp add: grouped_def group_keys_def rows_of_def group_states_def)
next
  case (snoc r rows)
  let ?run = "aggregate_rows g aggs rows (if g = [] then [([], i)] else [])"
  show ?case
  proof (cases ?run)
    case (Inl e)
    then obtain k where k: "k \<in> set (group_keys g (map (key_of g) rows))" "group_states aggs (rows_of g rows k) = Inl e"
      using snoc by auto
    have "group_states aggs (rows_of g (rows @ [r]) k) = Inl e"
      using k(2) by (simp add: rows_of_snoc group_states_snoc)
    then show ?thesis using Inl k(1) by (auto simp: aggregate_rows_append group_keys_snoc intro: add_key_mono)
  next
    case (Inr gs)
    then have "grouped g aggs rows gs" using snoc by simp
    from grouped_step [OF this] show ?thesis using Inr snoc.prems unfolding aggregate_rows_append by simp
  qed
qed

lemma map_res_Inl: "map_res f xs = Inl e \<Longrightarrow> \<exists>x \<in> set xs. f x = Inl e"
  by (induction xs) (auto simp: bind_res_eq_Inl)

lemma map_res_map: "map_res f (map h xs) = map_res (\<lambda>x. f (h x)) xs"
  by (induction xs) simp_all

lemma map_res_cong: "(\<And>x. x \<in> set xs \<Longrightarrow> f x = h x) \<Longrightarrow> map_res f xs = map_res h xs"
  by (induction xs) simp_all

section \<open>Properties\<close>

text \<open>
  C34. The aggregate functions: \<^verbatim>\<open>COUNT\<close> counts the values that are not NULL and \<^verbatim>\<open>COUNT( * )\<close> all rows;
  \<^verbatim>\<open>SUM\<close> of integers is their exact sum, or raises exactly when a running sum leaves 64 bits; \<^verbatim>\<open>MIN\<close> and
  \<^verbatim>\<open>MAX\<close> give one of the values, least or greatest in the order of values; all but the counts give NULL when there is no value.
\<close>

theorem aggregates_correct:
  assumes "\<forall>v \<in> set vs. no_nan v"
  shows "agg_result ''count'' vs = Inr (VInt (int (length (present vs))))
    \<and> agg_result ''count_star'' vs = Inr (VInt (int (length vs)))
    \<and> ((\<forall>v \<in> set vs. v = VNull \<or> is_int v \<and> storable v) \<longrightarrow> agg_result ''sum'' vs =
        (if present vs = [] then Inr VNull
         else if \<forall>k \<le> length vs. MIN_INT64 \<le> int_sum (take k vs) \<and> int_sum (take k vs) \<le> MAX_INT64 then Inr (VInt (int_sum vs))
         else Inl IntegerOverflowError))
    \<and> (present vs = [] \<longrightarrow> agg_result ''min'' vs = Inr VNull \<and> agg_result ''max'' vs = Inr VNull)
    \<and> (present vs \<noteq> [] \<longrightarrow> (\<exists>m \<in> set (present vs). agg_result ''min'' vs = Inr m \<and> (\<forall>v \<in> set (present vs). key_place m \<le> key_place v)))
    \<and> (present vs \<noteq> [] \<longrightarrow> (\<exists>m \<in> set (present vs). agg_result ''max'' vs = Inr m \<and> (\<forall>v \<in> set (present vs). key_place v \<le> key_place m)))"
proof -
  have sum: "agg_result ''sum'' vs =
        (if present vs = [] then Inr VNull
         else if \<forall>k \<le> length vs. fits64 (int_sum (take k vs)) then Inr (VInt (int_sum vs)) else Inl IntegerOverflowError)"
    if "\<forall>v \<in> set vs. v = VNull \<or> is_int v \<and> storable v"
    using sum_fold_start [OF that] by (auto simp: agg_result_def agg_init_def)
  have "\<exists>m \<in> set (present vs). agg_result ''min'' vs = Inr m \<and> (\<forall>v \<in> set (present vs). key_place m \<le> key_place v)"
    "\<exists>m \<in> set (present vs). agg_result ''max'' vs = Inr m \<and> (\<forall>v \<in> set (present vs). key_place v \<le> key_place m)"
    if "present vs \<noteq> []"
  proof -
    from that obtain v us where p: "present vs = v # us" by (cases "present vs") auto
    show "\<exists>m \<in> set (present vs). agg_result ''min'' vs = Inr m \<and> (\<forall>v \<in> set (present vs). key_place m \<le> key_place v)"
      using pick_best(1) [of v us] by (intro bexI [of _ "pick (<) v us"]) (simp_all add: p pick_result [OF assms])
    show "\<exists>m \<in> set (present vs). agg_result ''max'' vs = Inr m \<and> (\<forall>v \<in> set (present vs). key_place v \<le> key_place m)"
      using pick_best(2) [of v us] by (intro bexI [of _ "pick (>) v us"]) (simp_all add: p pick_result [OF assms])
  qed
  then show ?thesis using sum [unfolded fits64_def] pick_result [OF assms]
    by (simp add: agg_result_def agg_init_def count_fold)
qed

theorem aggregates_correct_witness:
  "agg_result ''sum'' [VInt MAX_INT64, VNull, VInt 1] = Inl IntegerOverflowError"
proof -
  have "\<not> (\<forall>k \<le> 3. MIN_INT64 \<le> int_sum (take k [VInt MAX_INT64, VNull, VInt 1]) \<and> int_sum (take k [VInt MAX_INT64, VNull, VInt 1]) \<le> MAX_INT64)"
    by (auto intro!: exI [of _ 3])
  then show ?thesis
    using aggregates_correct [of "[VInt MAX_INT64, VNull, VInt 1]"] by (simp add: numeral_3_eq_3 MIN_INT64_def MAX_INT64_def)
qed

text \<open>
  C35. \<^verbatim>\<open>GROUP BY\<close> partitions the rows: one output row for each key, in the order in which the keys first
  appear, made of the key and the aggregates over exactly the rows with that key; one row, rows or not,
  without a \<^verbatim>\<open>GROUP BY\<close>; and an error only if one of the groups on its own has it.
\<close>

theorem group_by_partitions:
  assumes "\<forall>row \<in> set (src_rows child). groupable g row" and "src_error child = None" and "init_states aggs = Inr i"
  shows "case hash_aggregate_open g aggs child of
      Inr s \<Rightarrow> position s = 0 \<and>
        map_res (\<lambda>k. group_row aggs (rows_of g (src_rows child) k) k) (group_keys g (map (key_of g) (src_rows child))) = Inr (results s)
    | Inl e \<Rightarrow> \<exists>k \<in> set (group_keys g (map (key_of g) (src_rows child))). group_row aggs (rows_of g (src_rows child) k) k = Inl e"
proof -
  let ?rows = "src_rows child" and ?keys = "group_keys g (map (key_of g) (src_rows child))"
  let ?finish = "\<lambda>(key, states). bind_res (map_res agg_final states) (\<lambda>vs. Inr (key @ vs))"
  have run: "hash_aggregate_open g aggs child =
    bind_res (aggregate_rows g aggs ?rows (if g = [] then [([], i)] else [])) (\<lambda>groups.
    bind_res (map_res ?finish groups) (\<lambda>rows. Inr \<lparr>results = rows, position = 0\<rparr>))"
    using assms(2,3) by (simp add: hash_aggregate_open_def)
  show ?thesis
  proof (cases "aggregate_rows g aggs ?rows (if g = [] then [([], i)] else [])")
    case (Inl e)
    then obtain k where "k \<in> set ?keys" "group_states aggs (rows_of g ?rows k) = Inl e" using grouped_all [OF assms(1,3)] by auto
    then show ?thesis using run Inl by (auto simp: group_row_def intro!: bexI [of _ k])
  next
    case (Inr gs)
    then have G: "grouped g aggs ?rows gs" using grouped_all [OF assms(1,3)] by simp
    then have keys: "?keys = map fst gs" by (simp add: grouped_def)
    have "map_res (\<lambda>k. group_row aggs (rows_of g ?rows k) k) ?keys = map_res ?finish gs"
      unfolding keys map_res_map using G by (intro map_res_cong) (auto simp: grouped_def group_row_def)
    then show ?thesis using run Inr by (cases "map_res ?finish gs") (auto dest: map_res_Inl)
  qed
qed


theorem group_by_partitions_witness:
  "\<exists>s. hash_aggregate_open [BoundColumn 0 [97] INTEGER_T 0] [\<lparr>agg_func = ''count'', agg_arg = Some (BoundColumn 1 [98] INTEGER_T 0)\<rparr>]
      \<lparr>src_rows = [[VInt 1, VNull], [VNull, VInt 5], [VInt 1, VInt 7]], src_error = None\<rparr> = Inr s
    \<and> results s = [[VInt 1, VInt 1], [VNull, VInt 1]]"
proof -
  let ?g = "[BoundColumn 0 [97] INTEGER_T 0]" and ?aggs = "[\<lparr>agg_func = ''count'', agg_arg = Some (BoundColumn 1 [98] INTEGER_T 0)\<rparr>]"
    and ?child = "\<lparr>src_rows = [[VInt 1, VNull], [VNull, VInt 5], [VInt 1, VInt 7]], src_error = None\<rparr>"
  have rows: "\<forall>row \<in> set (src_rows ?child). groupable ?g row"
    by (simp add: groupable_def group_key_def py_get_def)
  have i: "init_states ?aggs = Inr [CountState 0]" by (simp add: init_states_def agg_init_def)
  have key: "key_of ?g (v # w) = [v]" for v w by (simp add: key_of_def group_key_def py_get_def)
  have eq: "same_key [VInt m] [VInt n] \<longleftrightarrow> m = n" "\<not> same_key [VInt m] [VNull]" "\<not> same_key [VNull] [VInt m]" "same_key [VNull] [VNull]" for m n
    by (simp_all add: same_key_def num_eq_def)
  have keys: "group_keys ?g (map (key_of ?g) (src_rows ?child)) = [[VInt 1], [VNull]]"
    by (simp add: key group_keys_def add_key_def eq)
  have "map_res (\<lambda>k. group_row ?aggs (rows_of ?g (src_rows ?child) k) k) (group_keys ?g (map (key_of ?g) (src_rows ?child)))
      = Inr [[VInt 1, VInt 1], [VNull, VInt 1]]"
    unfolding keys by (simp add: group_row_def rows_of_def key eq group_states_def i [simplified] py_get_def count_step_def)
  moreover have "group_row ?aggs (rows_of ?g (src_rows ?child) k) k \<noteq> Inl e" if "k \<in> set [[VInt 1], [VNull]]" for k e
    using that by (auto simp: group_row_def rows_of_def key eq group_states_def i [simplified] py_get_def count_step_def)
  ultimately show ?thesis
    using group_by_partitions [of ?child ?g ?aggs "[CountState 0]"] rows i unfolding keys
    by (cases "hash_aggregate_open ?g ?aggs ?child") auto
qed

end
