(* ===== verification/Schema.thy ===== *)
theory Schema
  imports Aggregate
begin

text \<open>
  Schema objects, \<^verbatim>\<open>src/src/quilldb/catalog/schema.py\<close>, and the lookup of a column by name. Case folding is
  Python's, an argument as in Tokenizer.
\<close>

record column_schema =
  cs_name :: ustr
  cs_data_type :: data_type

record table_schema =
  ts_name :: ustr
  ts_columns :: "column_schema list"
  ts_root_page :: nat
  ts_sql :: ustr

record index_schema =
  is_name :: ustr
  is_table :: ustr
  is_columns :: "ustr list"
  is_unique :: bool
  is_root_page :: nat
  is_sql :: ustr

fun column_from :: "char_tables \<Rightarrow> ustr \<Rightarrow> nat \<Rightarrow> column_schema list \<Rightarrow> nat res" where
  "column_from u folded index [] = Inl ColumnNotFoundError"
| "column_from u folded index (c # cs) = (if casefold u (cs_name c) = folded then Inr index else column_from u folded (index + 1) cs)"

definition column_index :: "char_tables \<Rightarrow> table_schema \<Rightarrow> ustr \<Rightarrow> nat res" where
  "column_index u table name = column_from u (casefold u name) 0 (ts_columns table)"

lemma column_from_spec:
  "column_from u folded k cs = Inr i \<longleftrightarrow>
     k \<le> i \<and> i < k + length cs \<and> casefold u (cs_name (cs ! (i - k))) = folded \<and> (\<forall>j < i - k. casefold u (cs_name (cs ! j)) \<noteq> folded)"
proof (induction cs arbitrary: k)
  case (Cons c cs)
  show ?case
  proof (cases "casefold u (cs_name c) = folded")
    case True
    have "\<not> (\<forall>j < i - k. casefold u (cs_name ((c # cs) ! j)) \<noteq> folded)" if "k < i" using True that by (auto intro: exI [of _ 0])
    then show ?thesis using True by (cases "i = k"; cases "k < i") auto
  next
    case False
    have "column_from u folded k (c # cs) = Inr i \<longleftrightarrow> column_from u folded (Suc k) cs = Inr i" using False by simp
    also have "\<dots> \<longleftrightarrow> k \<le> i \<and> i < k + length (c # cs) \<and> casefold u (cs_name ((c # cs) ! (i - k))) = folded
      \<and> (\<forall>j < i - k. casefold u (cs_name ((c # cs) ! j)) \<noteq> folded)"
    proof (cases "Suc k \<le> i")
      case True
      then have "i - k = Suc (i - Suc k)" by simp
      then show ?thesis using Cons [of "Suc k"] True False by (auto simp: less_Suc_eq_0_disj)
    next
      case f: False
      then show ?thesis using Cons [of "Suc k"] False by (cases "i = k") auto
    qed
    finally show ?thesis .
  qed
qed simp

lemma column_from_error: "column_from u folded k cs = Inl e \<Longrightarrow> e = ColumnNotFoundError \<and> (\<forall>c \<in> set cs. casefold u (cs_name c) \<noteq> folded)"
  by (induction cs arbitrary: k) (auto split: if_splits)

text \<open>The index found is a column of the table with the name asked for, the first of them.\<close>

lemma column_index_Inr:
  "column_index u table name = Inr i \<Longrightarrow> i < length (ts_columns table) \<and> casefold u (cs_name (ts_columns table ! i)) = casefold u name"
  by (simp add: column_index_def column_from_spec)

lemma column_index_Inl:
  "column_index u table name = Inl e \<Longrightarrow> e = ColumnNotFoundError \<and> (\<forall>c \<in> set (ts_columns table). casefold u (cs_name c) \<noteq> casefold u name)"
  unfolding column_index_def by (rule column_from_error)

end
