(* ===== verification/Binder.thy ===== *)
theory Binder
  imports Schema Effects
begin

text \<open>
  The binder, \<^verbatim>\<open>src/src/quilldb/sql/binder.py\<close>: names become column indexes and parameters values. The state is what
  the methods of \<^verbatim>\<open>_Binder\<close> change: the parameters consumed, and the lists of aggregates and of hidden sort columns
  that are appended to while a SELECT is bound. The catalog is the function \<open>get_table\<close>.
\<close>

section \<open>Definitions\<close>

record table_scope =
  sc_ordinal :: nat
  sc_alias :: ustr
  sc_table :: table_schema

record bound_join =
  bj_join_type :: string
  bj_table_ordinal :: nat
  bj_on :: "bound_expression option"

record join_order_key =
  jk_expression :: bound_expression
  jk_descending :: bool

record bound_select =
  bs_table :: table_schema
  bs_expressions :: "bound_expression list"
  bs_where :: "bound_expression option"
  bs_distinct :: bool
  bs_order_by :: "bound_order_key list"
  bs_hidden_order_by :: "bound_expression list"
  bs_limit :: "int option"
  bs_offset :: int

record bound_join_select =
  bq_scopes :: "table_scope list"
  bq_joins :: "bound_join list"
  bq_expressions :: "bound_expression list"
  bq_where :: "bound_expression option"
  bq_order_by :: "join_order_key list"
  bq_limit :: "int option"
  bq_offset :: int

record bound_aggregate_select =
  ba_table :: table_schema
  ba_group_by :: "bound_expression list"
  ba_aggregates :: "bound_aggregate list"
  ba_select_items :: "bound_expression list"
  ba_having :: "bound_expression option"
  ba_where :: "bound_expression option"
  ba_labels :: "ustr list"
  ba_order_by :: "bound_order_key list"
  ba_hidden_order_by :: "bound_expression list"
  ba_limit :: "int option"
  ba_offset :: int

record bound_assignment =
  bg_column_index :: nat
  bg_value :: bound_expression

datatype bound_statement =
    BoundCreateTable statement
  | BoundCreateIndex statement
  | BoundInsert table_schema "pyval list"
  | BoundSelect bound_select
  | BoundJoinSelect bound_join_select
  | BoundAggregateSelect bound_aggregate_select
  | BoundDelete table_schema "bound_expression option"
  | BoundUpdate table_schema "bound_assignment list" "bound_expression option"
  | BoundAnalyze statement
  | BoundExplain "bound_select + bound_join_select" bool
  | BoundBegin statement
  | BoundCommit statement
  | BoundRollback statement

text \<open>What the caller passes for a \<^verbatim>\<open>?\<close>: a storable value, or some other object, a \<^verbatim>\<open>bool\<close> for one.\<close>

datatype argument = Storable pyval | NotStorable

fun require_bindable :: "argument list \<Rightarrow> pyval list res" where
  "require_bindable [] = Inr []"
| "require_bindable (Storable v # args) = bind_res (require_bindable args) (\<lambda>vs. Inr (v # vs))"
| "require_bindable (NotStorable # args) = Inl TypeMismatchError"

record bind_state =
  consumed :: "nat set"
  aggregates :: "bound_aggregate list"
  hidden :: "bound_expression list"

definition parameter_value :: "pyval list \<Rightarrow> nat \<Rightarrow> (bind_state, pyval) op" where
  "parameter_value params index s =
     (if length params \<le> index then (Inl ParameterCountError, s)
      else (Inr (params ! index), s\<lparr>consumed := insert index (consumed s)\<rparr>))"

text \<open>\<^verbatim>\<open>_expression\<close> and \<^verbatim>\<open>_join_expression\<close>, which differ in how they resolve a column.\<close>

fun bind_tree :: "(ustr \<Rightarrow> ustr option \<Rightarrow> bound_expression res) \<Rightarrow> pyval list \<Rightarrow> expression \<Rightarrow> (bind_state, bound_expression) op" where
  "bind_tree resolve params (Literal v) = ret (BoundLiteral v)"
| "bind_tree resolve params (Parameter index) = bind_op (parameter_value params index) (\<lambda>v. ret (BoundLiteral v))"
| "bind_tree resolve params (Column name table) = lift_res (resolve name table)"
| "bind_tree resolve params (UnaryOp oper e) = bind_op (bind_tree resolve params e) (\<lambda>b. ret (BoundUnaryOp oper b))"
| "bind_tree resolve params (BinaryOp l oper r) =
     bind_op (bind_tree resolve params l) (\<lambda>bl. bind_op (bind_tree resolve params r) (\<lambda>br. ret (BoundBinaryOp bl oper br)))"
| "bind_tree resolve params (IsNull e negated) = bind_op (bind_tree resolve params e) (\<lambda>b. ret (BoundIsNull b negated))"
| "bind_tree resolve params (FunctionCall name args star) = fail UnsupportedFeatureError"

definition column_of :: "table_schema \<Rightarrow> nat \<Rightarrow> nat \<Rightarrow> bound_expression" where
  "column_of table index ordinal = BoundColumn index (cs_name (ts_columns table ! index)) (cs_data_type (ts_columns table ! index)) ordinal"

definition table_column :: "char_tables \<Rightarrow> table_schema \<Rightarrow> ustr \<Rightarrow> ustr option \<Rightarrow> bound_expression res" where
  "table_column u table name qualifier = bind_res (column_index u table name) (\<lambda>index. Inr (column_of table index 0))"

definition bind_expression :: "char_tables \<Rightarrow> table_schema \<Rightarrow> pyval list \<Rightarrow> expression \<Rightarrow> (bind_state, bound_expression) op" where
  "bind_expression u table = bind_tree (table_column u table)"

definition scope_matches :: "char_tables \<Rightarrow> ustr \<Rightarrow> table_scope list \<Rightarrow> (table_scope \<times> nat) list" where
  "scope_matches u name scopes =
     concat (map (\<lambda>scope. case column_index u (sc_table scope) name of Inr index \<Rightarrow> [(scope, index)] | Inl e \<Rightarrow> []) scopes)"

definition resolve_column :: "char_tables \<Rightarrow> table_scope list \<Rightarrow> ustr \<Rightarrow> ustr option \<Rightarrow> bound_expression res" where
  "resolve_column u scopes name qualifier =
     (case qualifier of
        Some q \<Rightarrow>
          (case find (\<lambda>scope. casefold u (sc_alias scope) = casefold u q) scopes of
             None \<Rightarrow> Inl ColumnNotFoundError
           | Some scope \<Rightarrow>
               bind_res (column_index u (sc_table scope) name) (\<lambda>index. Inr (column_of (sc_table scope) index (sc_ordinal scope))))
      | None \<Rightarrow>
          (case scope_matches u name scopes of
             [] \<Rightarrow> Inl ColumnNotFoundError
           | [(scope, index)] \<Rightarrow> Inr (column_of (sc_table scope) index (sc_ordinal scope))
           | _ \<Rightarrow> Inl AmbiguousColumnError))"

definition join_expression :: "char_tables \<Rightarrow> table_scope list \<Rightarrow> pyval list \<Rightarrow> expression \<Rightarrow> (bind_state, bound_expression) op" where
  "join_expression u scopes = bind_tree (resolve_column u scopes)"

fun constant_value :: "pyval list \<Rightarrow> expression \<Rightarrow> (bind_state, pyval) op" where
  "constant_value params (Literal v) = ret v"
| "constant_value params (Parameter index) = parameter_value params index"
| "constant_value params (UnaryOp oper e) =
     (if oper = ''+'' \<or> oper = ''-''
      then bind_op (constant_value params e) (\<lambda>inner. case inner of
             VNull \<Rightarrow> ret VNull
           | VInt n \<Rightarrow> ret (VInt (if oper = ''+'' then n else - n))
           | VReal w \<Rightarrow> ret (VReal (if oper = ''+'' then w else fp_neg w))
           | _ \<Rightarrow> fail TypeMismatchError)
      else fail UnsupportedFeatureError)"
| "constant_value params e = fail UnsupportedFeatureError"

definition coerce_to_declared_type :: "pyval \<Rightarrow> data_type \<Rightarrow> pyval res" where
  "coerce_to_declared_type v ty =
     (if v = VNull then Inr VNull
      else case ty of
        INTEGER_T \<Rightarrow> (case v of VInt n \<Rightarrow> Inr v | _ \<Rightarrow> Inl TypeMismatchError)
      | REAL_T \<Rightarrow> (case v of VInt n \<Rightarrow> map_sum id VReal (float_of_int n) | VReal w \<Rightarrow> Inr v | _ \<Rightarrow> Inl TypeMismatchError)
      | TEXT_T \<Rightarrow> (case v of VText t \<Rightarrow> Inr v | _ \<Rightarrow> Inl TypeMismatchError)
      | BLOB_T \<Rightarrow> (case v of VBlob b \<Rightarrow> Inr v | _ \<Rightarrow> Inl TypeMismatchError))"

definition optional_op :: "('a \<Rightarrow> ('s, 'b) op) \<Rightarrow> 'a option \<Rightarrow> ('s, 'b option) op" where
  "optional_op f x = (case x of None \<Rightarrow> ret None | Some y \<Rightarrow> bind_op (f y) (\<lambda>z. ret (Some z)))"

definition bind_insert :: "(ustr \<Rightarrow> table_schema res) \<Rightarrow> pyval list \<Rightarrow> ustr \<Rightarrow> expression list \<Rightarrow> (bind_state, bound_statement) op" where
  "bind_insert get_table params name values =
     bind_op (lift_res (get_table name)) (\<lambda>table.
     if length values \<noteq> length (ts_columns table) then fail ColumnCountError
     else bind_op (map_op (\<lambda>(value, column). bind_op (constant_value params value) (\<lambda>v.
            lift_res (coerce_to_declared_type v (cs_data_type column)))) (zip values (ts_columns table))) (\<lambda>vs.
          ret (BoundInsert table vs)))"

text \<open>\<^verbatim>\<open>_bind_limit\<close>, and \<^verbatim>\<open>_bind_offset\<close> with its default.\<close>

definition count_constant :: "pyval list \<Rightarrow> expression \<Rightarrow> (bind_state, int) op" where
  "count_constant params e =
     bind_op (constant_value params e) (\<lambda>v. case v of VInt n \<Rightarrow> if n < 0 then fail TypeMismatchError else ret n | _ \<Rightarrow> fail TypeMismatchError)"

definition bind_limit :: "pyval list \<Rightarrow> expression option \<Rightarrow> (bind_state, int option) op" where
  "bind_limit params = optional_op (count_constant params)"

definition bind_offset :: "pyval list \<Rightarrow> expression option \<Rightarrow> (bind_state, int) op" where
  "bind_offset params e = (case e of None \<Rightarrow> ret 0 | Some x \<Rightarrow> count_constant params x)"

text \<open>Equality of bound expressions, which compares literals by Python's \<^verbatim>\<open>==\<close>.\<close>

fun bound_eq :: "bound_expression \<Rightarrow> bound_expression \<Rightarrow> bool" where
  "bound_eq (BoundLiteral v) (BoundLiteral w) \<longleftrightarrow> py_eq v w"
| "bound_eq (BoundColumn i n ty k) (BoundColumn i' n' ty' k') \<longleftrightarrow> i = i' \<and> n = n' \<and> ty = ty' \<and> k = k'"
| "bound_eq (BoundUnaryOp oper e) (BoundUnaryOp oper' e') \<longleftrightarrow> oper = oper' \<and> bound_eq e e'"
| "bound_eq (BoundBinaryOp l oper r) (BoundBinaryOp l' oper' r') \<longleftrightarrow> bound_eq l l' \<and> oper = oper' \<and> bound_eq r r'"
| "bound_eq (BoundIsNull e n) (BoundIsNull e' n') \<longleftrightarrow> bound_eq e e' \<and> n = n'"
| "bound_eq _ _ \<longleftrightarrow> False"

fun produced_position :: "nat \<Rightarrow> bound_expression list \<Rightarrow> bound_expression \<Rightarrow> nat option" where
  "produced_position i [] e = None"
| "produced_position i (x # xs) e = (if bound_eq x e then Some i else produced_position (i + 1) xs e)"

definition ordinal_of :: "expression \<Rightarrow> int option" where
  "ordinal_of e = (case e of Literal (VInt n) \<Rightarrow> Some n | _ \<Rightarrow> None)"

definition resolve_order_by_key ::
  "bound_expression list \<Rightarrow> (expression \<Rightarrow> (bind_state, bound_expression) op) \<Rightarrow> order_key \<Rightarrow> (bind_state, bound_order_key) op" where
  "resolve_order_by_key produced bind_it item =
     (case ordinal_of (ok_expression item) of
        Some ordinal \<Rightarrow>
          if ordinal < 1 \<or> int (length produced) < ordinal then fail ColumnNotFoundError
          else ret \<lparr>key_index = nat (ordinal - 1), descending = ok_descending item\<rparr>
      | None \<Rightarrow>
          bind_op (bind_it (ok_expression item)) (\<lambda>bound_expr.
            case produced_position 0 produced bound_expr of
              Some i \<Rightarrow> ret \<lparr>key_index = i, descending = ok_descending item\<rparr>
            | None \<Rightarrow>
                bind_op (modify (\<lambda>s. s\<lparr>hidden := hidden s @ [bound_expr]\<rparr>)) (\<lambda>_. bind_op get_st (\<lambda>s.
                ret \<lparr>key_index = length produced + length (hidden s) - 1, descending = ok_descending item\<rparr>))))"

definition bind_order_by ::
  "order_key list \<Rightarrow> bound_expression list \<Rightarrow> (expression \<Rightarrow> (bind_state, bound_expression) op)
   \<Rightarrow> (bind_state, bound_order_key list \<times> bound_expression list) op" where
  "bind_order_by items produced bind_it =
     bind_op (modify (\<lambda>s. s\<lparr>hidden := []\<rparr>)) (\<lambda>_.
     bind_op (map_op (resolve_order_by_key produced bind_it) items) (\<lambda>keys. bind_op get_st (\<lambda>s. ret (keys, hidden s))))"

definition all_columns :: "table_schema \<Rightarrow> nat \<Rightarrow> bound_expression list" where
  "all_columns table ordinal = map (\<lambda>index. column_of table index ordinal) [0..<length (ts_columns table)]"

definition bind_select :: "char_tables \<Rightarrow> (ustr \<Rightarrow> table_schema res) \<Rightarrow> pyval list \<Rightarrow> select_stmt \<Rightarrow> (bind_state, bound_select) op" where
  "bind_select u get_table params st =
     bind_op (lift_res (get_table (tr_name (se_table st)))) (\<lambda>table.
     bind_op (case se_expressions st of
         None \<Rightarrow> ret (all_columns table 0)
       | Some es \<Rightarrow> map_op (bind_expression u table params) es) (\<lambda>expressions.
     bind_op (optional_op (bind_expression u table params) (se_where st)) (\<lambda>where_clause.
     bind_op (bind_order_by (se_order_by st) expressions (bind_expression u table params)) (\<lambda>(order_by, hidden_order_by).
     bind_op (raise_if (se_distinct st \<and> hidden_order_by \<noteq> []) UnsupportedFeatureError) (\<lambda>_.
     bind_op (bind_limit params (se_limit st)) (\<lambda>limit.
     bind_op (bind_offset params (se_offset st)) (\<lambda>offset.
       ret \<lparr>bs_table = table, bs_expressions = expressions, bs_where = where_clause, bs_distinct = se_distinct st,
            bs_order_by = order_by, bs_hidden_order_by = hidden_order_by, bs_limit = limit, bs_offset = offset\<rparr>)))))))"

fun build_scopes :: "(ustr \<Rightarrow> table_schema res) \<Rightarrow> nat \<Rightarrow> table_ref list \<Rightarrow> table_scope list res" where
  "build_scopes get_table ordinal [] = Inr []"
| "build_scopes get_table ordinal (ref # refs) =
     bind_res (get_table (tr_name ref)) (\<lambda>table.
     bind_res (build_scopes get_table (ordinal + 1) refs) (\<lambda>scopes.
       Inr (\<lparr>sc_ordinal = ordinal, sc_alias = (case tr_alias ref of None \<Rightarrow> tr_name ref | Some a \<Rightarrow> if a = [] then tr_name ref else a),
             sc_table = table\<rparr> # scopes)))"

definition bind_join :: "char_tables \<Rightarrow> table_scope list \<Rightarrow> pyval list \<Rightarrow> join_clause \<times> table_scope \<Rightarrow> (bind_state, bound_join) op" where
  "bind_join u scopes params = (\<lambda>(join, scope).
     bind_op (optional_op (join_expression u (take (sc_ordinal scope + 1) scopes) params) (jc_on join)) (\<lambda>cond.
       ret \<lparr>bj_join_type = jc_join_type join, bj_table_ordinal = sc_ordinal scope, bj_on = cond\<rparr>))"

definition bind_join_order_key ::
  "char_tables \<Rightarrow> table_scope list \<Rightarrow> pyval list \<Rightarrow> bound_expression list \<Rightarrow> order_key \<Rightarrow> (bind_state, join_order_key) op" where
  "bind_join_order_key u scopes params expressions item =
     (case ordinal_of (ok_expression item) of
        Some ordinal \<Rightarrow>
          if ordinal < 1 \<or> int (length expressions) < ordinal then fail ColumnNotFoundError
          else ret \<lparr>jk_expression = expressions ! nat (ordinal - 1), jk_descending = ok_descending item\<rparr>
      | None \<Rightarrow>
          bind_op (join_expression u scopes params (ok_expression item)) (\<lambda>e.
            ret \<lparr>jk_expression = e, jk_descending = ok_descending item\<rparr>))"

definition bind_join_select ::
  "char_tables \<Rightarrow> (ustr \<Rightarrow> table_schema res) \<Rightarrow> pyval list \<Rightarrow> select_stmt \<Rightarrow> (bind_state, bound_join_select) op" where
  "bind_join_select u get_table params st =
     bind_op (raise_if (se_distinct st) UnsupportedFeatureError) (\<lambda>_.
     bind_op (raise_if (se_group_by st \<noteq> []) UnsupportedFeatureError) (\<lambda>_.
     bind_op (raise_if (se_having st \<noteq> None) UnsupportedFeatureError) (\<lambda>_.
     bind_op (lift_res (build_scopes get_table 0 (se_table st # map jc_table (se_joins st)))) (\<lambda>scopes.
     bind_op (map_op (bind_join u scopes params) (zip (se_joins st) (tl scopes))) (\<lambda>joins.
     bind_op (case se_expressions st of
         None \<Rightarrow> ret (concat (map (\<lambda>scope. all_columns (sc_table scope) (sc_ordinal scope)) scopes))
       | Some es \<Rightarrow> map_op (join_expression u scopes params) es) (\<lambda>expressions.
     bind_op (optional_op (join_expression u scopes params) (se_where st)) (\<lambda>where_clause.
     bind_op (map_op (bind_join_order_key u scopes params expressions) (se_order_by st)) (\<lambda>order_by.
     bind_op (bind_limit params (se_limit st)) (\<lambda>limit.
     bind_op (bind_offset params (se_offset st)) (\<lambda>offset.
       ret \<lparr>bq_scopes = scopes, bq_joins = joins, bq_expressions = expressions, bq_where = where_clause,
            bq_order_by = order_by, bq_limit = limit, bq_offset = offset\<rparr>))))))))))"

text \<open>Grouping. \<open>aggregate_function\<close> is the membership test in \<^verbatim>\<open>_AGGREGATE_FUNCTIONS\<close> and the name it finds.\<close>

definition aggregate_function :: "char_tables \<Rightarrow> ustr \<Rightarrow> string option" where
  "aggregate_function u name =
     map_of (map (\<lambda>f. (ustr_of f, f)) [''count'', ''sum'', ''avg'', ''min'', ''max'']) (casefold u name)"

text \<open>Python's \<^verbatim>\<open>str.upper\<close> and \<^verbatim>\<open>repr\<close>, for labels.\<close>

record py_text =
  upper :: "ustr \<Rightarrow> ustr"
  repr_value :: "pyval \<Rightarrow> ustr"

fun join_comma :: "ustr list \<Rightarrow> ustr" where
  "join_comma [] = []"
| "join_comma (x # xs) = (if xs = [] then x else x @ ustr_of '', '' @ join_comma xs)"

fun select_item_label :: "py_text \<Rightarrow> expression \<Rightarrow> ustr" where
  "select_item_label p (FunctionCall name args star) =
     (if star then upper p name @ ustr_of ''(*)''
      else upper p name @ ustr_of ''('' @ join_comma (map (select_item_label p) args) @ ustr_of '')'')"
| "select_item_label p (Column name table) = name"
| "select_item_label p (Literal v) = repr_value p v"
| "select_item_label p (UnaryOp oper e) = ustr_of oper @ select_item_label p e"
| "select_item_label p (BinaryOp l oper r) =
     select_item_label p l @ ustr_of '' '' @ ustr_of oper @ ustr_of '' '' @ select_item_label p r"
| "select_item_label p (IsNull e negated) =
     select_item_label p e @ ustr_of '' '' @ ustr_of (if negated then ''IS NOT NULL'' else ''IS NULL'')"
| "select_item_label p (Parameter index) = ustr_of ''Parameter''"

definition bind_aggregate_call ::
  "char_tables \<Rightarrow> table_schema \<Rightarrow> pyval list \<Rightarrow> string \<Rightarrow> expression list \<Rightarrow> bool \<Rightarrow> (bind_state, bound_aggregate) op" where
  "bind_aggregate_call u table params func args star =
     (if star
      then if func \<noteq> ''count'' then fail AggregateError else ret \<lparr>agg_func = ''count_star'', agg_arg = None\<rparr>
      else if length args \<noteq> 1 then fail AggregateError
      else bind_op (bind_expression u table params (hd args)) (\<lambda>e. ret \<lparr>agg_func = func, agg_arg = Some e\<rparr>))"

fun group_key_position :: "nat \<Rightarrow> bound_expression list \<Rightarrow> nat \<Rightarrow> nat option" where
  "group_key_position i [] index = None"
| "group_key_position i (key # keys) index =
     (case key of BoundColumn j n ty k \<Rightarrow> if j = index then Some i else group_key_position (i + 1) keys index
      | _ \<Rightarrow> group_key_position (i + 1) keys index)"

fun bind_group_output ::
  "char_tables \<Rightarrow> py_text \<Rightarrow> table_schema \<Rightarrow> pyval list \<Rightarrow> bound_expression list \<Rightarrow> expression \<Rightarrow> (bind_state, bound_expression) op" where
  "bind_group_output u p table params group_by (FunctionCall name args star) =
     (case aggregate_function u name of
        None \<Rightarrow> fail UnsupportedFeatureError
      | Some func \<Rightarrow>
          bind_op (bind_aggregate_call u table params func args star) (\<lambda>call.
          bind_op (modify (\<lambda>s. s\<lparr>aggregates := aggregates s @ [call]\<rparr>)) (\<lambda>_. bind_op get_st (\<lambda>s.
          ret (BoundColumn (length group_by + length (aggregates s) - 1) (select_item_label p (FunctionCall name args star)) INTEGER_T 0)))))"
| "bind_group_output u p table params group_by (Literal v) = ret (BoundLiteral v)"
| "bind_group_output u p table params group_by (Parameter index) = bind_op (parameter_value params index) (\<lambda>v. ret (BoundLiteral v))"
| "bind_group_output u p table params group_by (Column name qualifier) =
     (if group_by = [] then fail AggregateError
      else bind_op (lift_res (column_index u table name)) (\<lambda>index.
        case group_key_position 0 group_by index of
          None \<Rightarrow> fail AggregateError
        | Some i \<Rightarrow> ret (BoundColumn i (cs_name (ts_columns table ! index)) (cs_data_type (ts_columns table ! index)) 0)))"
| "bind_group_output u p table params group_by (UnaryOp oper e) =
     bind_op (bind_group_output u p table params group_by e) (\<lambda>b. ret (BoundUnaryOp oper b))"
| "bind_group_output u p table params group_by (BinaryOp l oper r) =
     bind_op (bind_group_output u p table params group_by l) (\<lambda>bl.
     bind_op (bind_group_output u p table params group_by r) (\<lambda>br. ret (BoundBinaryOp bl oper br)))"
| "bind_group_output u p table params group_by (IsNull e negated) =
     bind_op (bind_group_output u p table params group_by e) (\<lambda>b. ret (BoundIsNull b negated))"

definition bind_aggregate_select ::
  "char_tables \<Rightarrow> py_text \<Rightarrow> (ustr \<Rightarrow> table_schema res) \<Rightarrow> pyval list \<Rightarrow> select_stmt \<Rightarrow> (bind_state, bound_aggregate_select) op" where
  "bind_aggregate_select u p get_table params st =
     (case se_expressions st of
        None \<Rightarrow> fail AggregateError
      | Some es \<Rightarrow>
          bind_op (raise_if (se_distinct st) UnsupportedFeatureError) (\<lambda>_.
          bind_op (lift_res (get_table (tr_name (se_table st)))) (\<lambda>table.
          bind_op (optional_op (bind_expression u table params) (se_where st)) (\<lambda>where_clause.
          bind_op (map_op (bind_expression u table params) (se_group_by st)) (\<lambda>group_by.
          bind_op (modify (\<lambda>s. s\<lparr>aggregates := []\<rparr>)) (\<lambda>_.
          bind_op (map_op (bind_group_output u p table params group_by) es) (\<lambda>select_items.
          bind_op (optional_op (bind_group_output u p table params group_by) (se_having st)) (\<lambda>having.
          bind_op (bind_order_by (se_order_by st) select_items (bind_group_output u p table params group_by)) (\<lambda>(order_by, hidden_order_by).
          bind_op (bind_limit params (se_limit st)) (\<lambda>limit.
          bind_op (bind_offset params (se_offset st)) (\<lambda>offset.
          bind_op get_st (\<lambda>s.
            ret \<lparr>ba_table = table, ba_group_by = group_by, ba_aggregates = aggregates s, ba_select_items = select_items,
                 ba_having = having, ba_where = where_clause, ba_labels = map (select_item_label p) es,
                 ba_order_by = order_by, ba_hidden_order_by = hidden_order_by, ba_limit = limit, ba_offset = offset\<rparr>))))))))))))"

definition select_needs_aggregation :: "char_tables \<Rightarrow> select_stmt \<Rightarrow> bool" where
  "select_needs_aggregation u st \<longleftrightarrow>
     se_group_by st \<noteq> []
   \<or> (case se_expressions st of None \<Rightarrow> False
      | Some es \<Rightarrow> list_ex (\<lambda>e. case e of FunctionCall name args star \<Rightarrow> aggregate_function u name \<noteq> None | _ \<Rightarrow> False) es)"

definition bind_delete ::
  "char_tables \<Rightarrow> (ustr \<Rightarrow> table_schema res) \<Rightarrow> pyval list \<Rightarrow> ustr \<Rightarrow> expression option \<Rightarrow> (bind_state, bound_statement) op" where
  "bind_delete u get_table params name where_clause =
     bind_op (lift_res (get_table name)) (\<lambda>table.
     bind_op (optional_op (bind_expression u table params) where_clause) (\<lambda>w. ret (BoundDelete table w)))"

definition bind_assignment :: "char_tables \<Rightarrow> table_schema \<Rightarrow> pyval list \<Rightarrow> assignment \<Rightarrow> (bind_state, bound_assignment) op" where
  "bind_assignment u table params a =
     bind_op (lift_res (column_index u table (as_column a))) (\<lambda>index.
     bind_op (bind_expression u table params (as_value a)) (\<lambda>v. ret \<lparr>bg_column_index = index, bg_value = v\<rparr>))"

definition bind_update ::
  "char_tables \<Rightarrow> (ustr \<Rightarrow> table_schema res) \<Rightarrow> pyval list \<Rightarrow> ustr \<Rightarrow> assignment list \<Rightarrow> expression option \<Rightarrow> (bind_state, bound_statement) op" where
  "bind_update u get_table params name asgs where_clause =
     bind_op (lift_res (get_table name)) (\<lambda>table.
     bind_op (map_op (bind_assignment u table params) asgs) (\<lambda>assignments.
     bind_op (optional_op (bind_expression u table params) where_clause) (\<lambda>w. ret (BoundUpdate table assignments w))))"

definition bind_body ::
  "char_tables \<Rightarrow> py_text \<Rightarrow> (ustr \<Rightarrow> table_schema res) \<Rightarrow> pyval list \<Rightarrow> statement \<Rightarrow> (bind_state, bound_statement) op" where
  "bind_body u p get_table params statement =
     (case statement of
        CreateTable name columns \<Rightarrow> ret (BoundCreateTable statement)
      | CreateIndex name table columns unique \<Rightarrow> ret (BoundCreateIndex statement)
      | Insert name values \<Rightarrow> bind_insert get_table params name values
      | Select st \<Rightarrow>
          if se_joins st \<noteq> [] then bind_op (bind_join_select u get_table params st) (\<lambda>b. ret (BoundJoinSelect b))
          else if select_needs_aggregation u st
          then bind_op (bind_aggregate_select u p get_table params st) (\<lambda>b. ret (BoundAggregateSelect b))
          else bind_op (bind_select u get_table params st) (\<lambda>b. ret (BoundSelect b))
      | Delete name where_clause \<Rightarrow> bind_delete u get_table params name where_clause
      | Update name asgs where_clause \<Rightarrow> bind_update u get_table params name asgs where_clause
      | Analyze target \<Rightarrow> ret (BoundAnalyze statement)
      | Explain st analyze \<Rightarrow>
          bind_op (if se_joins st \<noteq> [] then bind_op (bind_join_select u get_table params st) (\<lambda>b. ret (Inr b))
                   else bind_op (bind_select u get_table params st) (\<lambda>b. ret (Inl b))) (\<lambda>b. ret (BoundExplain b analyze))
      | Begin immediate \<Rightarrow> ret (BoundBegin statement)
      | Commit \<Rightarrow> ret (BoundCommit statement)
      | Rollback \<Rightarrow> ret (BoundRollback statement))"

definition require_all_parameters_consumed :: "pyval list \<Rightarrow> (bind_state, unit) op" where
  "require_all_parameters_consumed params = bind_op get_st (\<lambda>s. raise_if (card (consumed s) \<noteq> length params) ParameterCountError)"

definition new_bind_state :: bind_state where
  "new_bind_state = \<lparr>consumed = {}, aggregates = [], hidden = []\<rparr>"

definition bind_statement ::
  "char_tables \<Rightarrow> py_text \<Rightarrow> (ustr \<Rightarrow> table_schema res) \<Rightarrow> statement \<Rightarrow> argument list \<Rightarrow> bound_statement res" where
  "bind_statement u p get_table statement args =
     bind_res (require_bindable args) (\<lambda>params.
       fst (bind_op (bind_body u p get_table params statement) (\<lambda>bound.
            bind_op (require_all_parameters_consumed params) (\<lambda>_. ret bound)) new_bind_state))"

text \<open>\<^verbatim>\<open>resolve_layout\<close>; \<open>offsets\<close> has an entry for each table that is joined.\<close>

fun resolve_layout :: "bound_expression \<Rightarrow> (nat \<Rightarrow> nat option) \<Rightarrow> bound_expression res" where
  "resolve_layout (BoundColumn index name ty ordinal) offsets =
     (case offsets ordinal of None \<Rightarrow> Inl KeyError | Some start \<Rightarrow> Inr (BoundColumn (start + index) name ty 0))"
| "resolve_layout (BoundUnaryOp oper e) offsets = bind_res (resolve_layout e offsets) (\<lambda>b. Inr (BoundUnaryOp oper b))"
| "resolve_layout (BoundBinaryOp l oper r) offsets =
     bind_res (resolve_layout l offsets) (\<lambda>bl. bind_res (resolve_layout r offsets) (\<lambda>br. Inr (BoundBinaryOp bl oper br)))"
| "resolve_layout (BoundIsNull e negated) offsets = bind_res (resolve_layout e offsets) (\<lambda>b. Inr (BoundIsNull b negated))"
| "resolve_layout (BoundLiteral v) offsets = Inr (BoundLiteral v)"

end
