(* ===== verification/BinderSafety.thy ===== *)
theory BinderSafety
  imports Binder
begin

text \<open>
  What binding promises: every column index of a bound statement is inside the row it will be read from, every
  argument given is one the statement uses, inserted values have their columns' types.
\<close>

section \<open>Column references in range\<close>

fun columns_ok :: "(nat \<Rightarrow> nat \<Rightarrow> bool) \<Rightarrow> bound_expression \<Rightarrow> bool" where
  "columns_ok P (BoundLiteral v) \<longleftrightarrow> True"
| "columns_ok P (BoundColumn index name ty ordinal) \<longleftrightarrow> P ordinal index"
| "columns_ok P (BoundUnaryOp oper e) \<longleftrightarrow> columns_ok P e"
| "columns_ok P (BoundBinaryOp l oper r) \<longleftrightarrow> columns_ok P l \<and> columns_ok P r"
| "columns_ok P (BoundIsNull e negated) \<longleftrightarrow> columns_ok P e"

lemma columns_ok_mono: "columns_ok P e \<Longrightarrow> (\<And>k i. P k i \<Longrightarrow> Q k i) \<Longrightarrow> columns_ok Q e"
  by (induction e) auto

abbreviation within :: "nat \<Rightarrow> bound_expression \<Rightarrow> bool" where
  "within n \<equiv> columns_ok (\<lambda>ordinal index. index < n)"

lemma within_mono: "within a e \<Longrightarrow> a \<le> b \<Longrightarrow> within b e"
  by (induction e) auto

section \<open>Operations of the binder\<close>

text \<open>
  The state stays sound: parameters consumed are among \<open>A\<close>, those of the statement, and among the \<open>k\<close> given;
  collected aggregates read a row of \<open>n\<close> columns.
\<close>

definition sound :: "nat set \<Rightarrow> nat \<Rightarrow> nat \<Rightarrow> bind_state \<Rightarrow> bool" where
  "sound A k n s \<longleftrightarrow> consumed s \<subseteq> A \<inter> {..<k} \<and> list_all (\<lambda>a. pred_option (within n) (agg_arg a)) (aggregates s)"

definition binds :: "nat set \<Rightarrow> nat \<Rightarrow> nat \<Rightarrow> nat \<Rightarrow> (nat \<Rightarrow> 'a \<Rightarrow> bool) \<Rightarrow> (bind_state, 'a) op \<Rightarrow> bool" where
  "binds A k n g P m \<longleftrightarrow> (\<forall>s x s'. sound A k n s \<longrightarrow> g \<le> length (aggregates s) \<longrightarrow> m s = (Inr x, s') \<longrightarrow>
     sound A k n s' \<and> length (aggregates s) \<le> length (aggregates s') \<and> P (length (aggregates s')) x)"

text \<open>
  \<open>binds A k n g P m\<close>: run when at least \<open>g\<close> aggregates have been collected, \<open>m\<close> gives an \<open>x\<close> with \<open>P g' x\<close>, \<open>g'\<close> the
  number collected then.
\<close>

lemma bindsD:
  assumes "binds A k n g P m" and "m s = (Inr x, s')" and "sound A k n s" and "g \<le> length (aggregates s)"
  shows "sound A k n s'" and "length (aggregates s) \<le> length (aggregates s')" and "P (length (aggregates s')) x"
  using assms unfolding binds_def by blast+

lemma bindsI:
  assumes "\<And>s x s'. sound A k n s \<Longrightarrow> g \<le> length (aggregates s) \<Longrightarrow> m s = (Inr x, s')
    \<Longrightarrow> sound A k n s' \<and> length (aggregates s) \<le> length (aggregates s') \<and> P (length (aggregates s')) x"
  shows "binds A k n g P m"
  using assms unfolding binds_def by blast

named_theorems binds_intros \<open>the operations binding is made of\<close>

lemma binds_simple [binds_intros]:
  "(\<And>g'. g \<le> g' \<Longrightarrow> P g' x) \<Longrightarrow> binds A k n g P (ret x)"
  "binds A k n g P (fail e)"
  "(\<And>x g'. r = Inr x \<Longrightarrow> g \<le> g' \<Longrightarrow> P g' x) \<Longrightarrow> binds A k n g P (lift_res r)"
  "(\<And>g'. \<not> c \<Longrightarrow> g \<le> g' \<Longrightarrow> R g' ()) \<Longrightarrow> binds A k n g R (raise_if c e)"
  by (auto simp: binds_def ret_def fail_def lift_res_def raise_if_def skip_def split: if_splits)

lemmas binds_ret = binds_simple(1)

lemma binds_weaken: "binds A k n g P m \<Longrightarrow> g \<le> g0 \<Longrightarrow> (\<And>x g'. g0 \<le> g' \<Longrightarrow> P g' x \<Longrightarrow> Q g' x) \<Longrightarrow> binds A k n g0 Q m"
  unfolding binds_def by (meson le_trans)

lemma binds_bind [binds_intros]:
  assumes "binds A k n g P m" and "\<And>x g'. g \<le> g' \<Longrightarrow> P g' x \<Longrightarrow> binds A k n g' Q (f x)"
  shows "binds A k n g Q (bind_op m f)"
proof (rule bindsI)
  fix s x s' assume s: "sound A k n s" "g \<le> length (aggregates s)" and run: "bind_op m f s = (Inr x, s')"
  from run obtain y s1 where m: "m s = (Inr y, s1)" and f: "f y s1 = (Inr x, s')" by (auto simp: bind_op_eq_Inr)
  note one = bindsD [OF assms(1) m s]
  have g: "g \<le> length (aggregates s1)" using one(2) s(2) by simp
  note two = bindsD [OF assms(2) [OF g one(3)] f one(1) le_refl]
  show "sound A k n s' \<and> length (aggregates s) \<le> length (aggregates s') \<and> Q (length (aggregates s')) x" using one two by auto
qed

lemma binds_map_op [binds_intros]:
  assumes "\<And>x g'. x \<in> set xs \<Longrightarrow> g \<le> g' \<Longrightarrow> binds A k n g' P (f x)" and "\<And>x g1 g2. P g1 x \<Longrightarrow> g1 \<le> g2 \<Longrightarrow> P g2 x"
  shows "binds A k n g (\<lambda>g ys. length ys = length xs \<and> list_all (P g) ys) (map_op f xs)"
  using assms(1)
proof (induction xs arbitrary: g)
  case Nil
  show ?case unfolding map_op.simps by (rule binds_ret) simp
next
  case (Cons x xs)
  have "binds A k n g' (\<lambda>g ys. length ys = length (x # xs) \<and> list_all (P g) ys) (bind_op (map_op f xs) (\<lambda>ys. ret (y # ys)))"
    if g': "g \<le> g'" and y: "P g' y" for g' y
  proof (rule binds_bind [OF Cons.IH])
    fix x' g'' assume "x' \<in> set xs" and "g' \<le> g''"
    then show "binds A k n g'' P (f x')" using Cons.prems g' by simp
  next
    fix ys g'' assume "g' \<le> g''" and "length ys = length xs \<and> list_all (P g'') ys"
    then show "binds A k n g'' (\<lambda>g ys. length ys = length (x # xs) \<and> list_all (P g) ys) (ret (y # ys))"
      by (intro binds_ret) (use y in \<open>auto simp: list_all_iff intro: assms(2)\<close>)
  qed
  then show ?case unfolding map_op.simps by (intro binds_bind [OF Cons.prems]) auto
qed

lemma binds_optional [binds_intros]:
  assumes "\<And>y. x = Some y \<Longrightarrow> binds A k n g P (f y)" and "\<And>x g1 g2. P g1 x \<Longrightarrow> g1 \<le> g2 \<Longrightarrow> P g2 x"
  shows "binds A k n g (\<lambda>g. pred_option (P g)) (optional_op f x)"
proof (cases x)
  case (Some y)
  have "binds A k n g' (\<lambda>g. pred_option (P g)) (ret (Some z))" if "P g' z" for g' z
    by (rule binds_ret) (use that in \<open>auto intro: assms(2)\<close>)
  then show ?thesis using assms(1) [OF Some] by (auto simp: optional_op_def Some intro: binds_bind)
qed (auto simp: optional_op_def intro: binds_ret)

lemma binds_parameter [binds_intros]: "index \<in> A \<Longrightarrow> length params = k \<Longrightarrow> binds A k n g (\<lambda>g v. True) (parameter_value params index)"
  by (auto simp: binds_def parameter_value_def sound_def split: if_splits)

lemma binds_get [binds_intros]: "binds A k n g (\<lambda>g s. sound A k n s \<and> length (aggregates s) = g) get_st"
  by (auto simp: binds_def get_st_def)

lemma binds_tree:
  assumes "\<And>name q b. resolve name q = Inr b \<Longrightarrow> columns_ok P b" and "length params = k" and "set (parameters e) \<subseteq> A"
  shows "binds A k n g (\<lambda>g. columns_ok P) (bind_tree resolve params e)"
  using assms(3)
proof (induction e arbitrary: g)
  case (Parameter index)
  then show ?case using assms(2) by (auto intro!: binds_bind [OF binds_parameter] binds_ret)
next
  case (BinaryOp l oper r)
  then show ?case by (auto intro!: binds_bind [OF BinaryOp.IH(1)] binds_bind [OF BinaryOp.IH(2)] binds_ret)
next
  case (UnaryOp oper e)
  then show ?case by (auto intro!: binds_bind [OF UnaryOp.IH] binds_ret)
next
  case (IsNull e negated)
  then show ?case by (auto intro!: binds_bind [OF IsNull.IH] binds_simple)
qed (auto intro!: binds_simple intro: assms(1))

lemma table_column_within: "table_column u table name q = Inr b \<Longrightarrow> within (length (ts_columns table)) b"
  by (auto simp: table_column_def bind_res_eq_Inr column_of_def dest: column_index_Inr)

lemma binds_expression [binds_intros]:
  "length params = k \<Longrightarrow> set (parameters e) \<subseteq> A
   \<Longrightarrow> binds A k n g (\<lambda>g. within (length (ts_columns table))) (bind_expression u table params e)"
  unfolding bind_expression_def by (rule binds_tree [OF table_column_within])

text \<open>Scopes: the tables of a join, each at its position.\<close>

definition scopes_ok :: "table_scope list \<Rightarrow> bool" where
  "scopes_ok scopes \<longleftrightarrow> (\<forall>i < length scopes. sc_ordinal (scopes ! i) = i)"

definition in_scopes :: "table_scope list \<Rightarrow> nat \<Rightarrow> nat \<Rightarrow> bool" where
  "in_scopes scopes ordinal index \<longleftrightarrow> ordinal < length scopes \<and> index < length (ts_columns (sc_table (scopes ! ordinal)))"

lemma scope_member: "scopes_ok scopes \<Longrightarrow> scope \<in> set scopes \<Longrightarrow> sc_ordinal scope < length scopes \<and> scopes ! sc_ordinal scope = scope"
  by (auto simp: scopes_ok_def in_set_conv_nth)

lemma scopes_ok_take: "scopes_ok scopes \<Longrightarrow> scopes_ok (take i scopes)"
  by (simp add: scopes_ok_def)

lemma build_scopes_nth:
  "build_scopes get_table ordinal refs = Inr scopes \<Longrightarrow> length scopes = length refs \<and> (\<forall>i < length scopes. sc_ordinal (scopes ! i) = ordinal + i)"
proof (induction refs arbitrary: ordinal scopes)
  case (Cons ref refs)
  from Cons.prems obtain table rest where r: "build_scopes get_table (ordinal + 1) refs = Inr rest" and
    "scopes = \<lparr>sc_ordinal = ordinal, sc_alias = (case tr_alias ref of None \<Rightarrow> tr_name ref | Some a \<Rightarrow> if a = [] then tr_name ref else a),
      sc_table = table\<rparr> # rest" by (auto simp: bind_res_eq_Inr)
  then show ?case using Cons.IH [OF r] by (auto simp: nth_Cons split: nat.split)
qed simp

lemma scope_matches_member: "(scope, index) \<in> set (scope_matches u name scopes) \<Longrightarrow> scope \<in> set scopes \<and> column_index u (sc_table scope) name = Inr index"
  by (auto simp: scope_matches_def split: sum.splits)

lemma resolve_column_ok:
  assumes "resolve_column u scopes name qualifier = Inr b" and "scopes_ok scopes"
  shows "columns_ok (in_scopes scopes) b"
proof -
  obtain scope index where s: "scope \<in> set scopes" "column_index u (sc_table scope) name = Inr index"
    "b = column_of (sc_table scope) index (sc_ordinal scope)"
  proof (cases qualifier)
    case None
    then obtain scope index where m: "scope_matches u name scopes = [(scope, index)]"
      "b = column_of (sc_table scope) index (sc_ordinal scope)"
      using assms(1) by (auto simp: resolve_column_def split: list.splits)
    then have "(scope, index) \<in> set (scope_matches u name scopes)" by simp
    from scope_matches_member [OF this] show thesis using that m(2) by blast
  next
    case (Some q)
    then obtain scope where f: "find (\<lambda>scope. casefold u (sc_alias scope) = casefold u q) scopes = Some scope"
      using assms(1) by (auto simp: resolve_column_def split: option.splits)
    then have "scope \<in> set scopes" by (auto simp: find_Some_iff)
    then show thesis using that assms(1) Some f by (auto simp: resolve_column_def bind_res_eq_Inr)
  qed
  then show ?thesis using scope_member [OF assms(2) s(1)] column_index_Inr [OF s(2)] by (simp add: column_of_def in_scopes_def)
qed

lemma binds_join_expression [binds_intros]:
  "scopes_ok scopes \<Longrightarrow> length params = k \<Longrightarrow> set (parameters e) \<subseteq> A
   \<Longrightarrow> binds A k n g (\<lambda>g. columns_ok (in_scopes scopes)) (join_expression u scopes params e)"
  unfolding join_expression_def by (rule binds_tree [OF resolve_column_ok])

lemma binds_constant [binds_intros]:
  "length params = k \<Longrightarrow> set (parameters e) \<subseteq> A \<Longrightarrow> binds A k n g (\<lambda>g v. True) (constant_value params e)"
proof (induction e arbitrary: g)
  case (UnaryOp oper e)
  then have "binds A k n g (\<lambda>g v. True) (constant_value params e)" by simp
  then show ?case by (auto intro!: binds_bind binds_simple split: pyval.split)
qed (auto intro!: binds_simple binds_parameter)

lemma binds_count [binds_intros]:
  assumes "length params = k" and "set (parameters e) \<subseteq> A"
  shows "binds A k n g (\<lambda>g v. 0 \<le> v) (count_constant params e)"
  unfolding count_constant_def
  by (rule binds_bind [OF binds_constant [OF assms]]) (auto intro!: binds_simple split: pyval.split)

definition opt_parameters :: "expression option \<Rightarrow> nat set" where
  "opt_parameters e = (case e of None \<Rightarrow> {} | Some x \<Rightarrow> set (parameters x))"

lemma opt_parameters_simps [simp]: "opt_parameters None = {}" "opt_parameters (Some e) = set (parameters e)"
  by (simp_all add: opt_parameters_def)

lemma binds_limit [binds_intros]:
  "length params = k \<Longrightarrow> opt_parameters e \<subseteq> A \<Longrightarrow> binds A k n g (\<lambda>g. pred_option (\<lambda>v. 0 \<le> v)) (bind_limit params e)"
  unfolding bind_limit_def by (rule binds_optional [where P = "\<lambda>g v. 0 \<le> v"]) (auto intro: binds_count)

lemma binds_offset [binds_intros]:
  "length params = k \<Longrightarrow> opt_parameters e \<subseteq> A \<Longrightarrow> binds A k n g (\<lambda>g v. 0 \<le> v) (bind_offset params e)"
  by (cases e) (auto simp: bind_offset_def intro: binds_ret binds_count)

text \<open>Sort keys and the hidden columns they add.\<close>

definition keeps_hidden :: "(bind_state, 'a) op \<Rightarrow> bool" where
  "keeps_hidden m \<longleftrightarrow> (\<forall>s. hidden (snd (m s)) = hidden s)"

lemma keeps_hidden_basic [simp]:
  "keeps_hidden (ret x)" "keeps_hidden (fail e)" "keeps_hidden (lift_res r)" "keeps_hidden (parameter_value params index)"
  "keeps_hidden get_st" "keeps_hidden (modify (\<lambda>s. s\<lparr>aggregates := f s\<rparr>))"
  by (auto simp: keeps_hidden_def ret_def fail_def lift_res_def parameter_value_def get_st_def modify_def)

lemma keeps_hidden_bind: "keeps_hidden m \<Longrightarrow> (\<And>x. keeps_hidden (f x)) \<Longrightarrow> keeps_hidden (bind_op m f)"
  by (simp add: keeps_hidden_def bind_op_def split: prod.splits sum.splits) (metis snd_conv)

lemma keeps_hidden_tree: "keeps_hidden (bind_tree resolve params e)"
  by (induction e) (auto intro!: keeps_hidden_bind)

lemma keeps_hidden_expression: "keeps_hidden (bind_expression u table params e)"
  unfolding bind_expression_def by (rule keeps_hidden_tree)

lemma keeps_hidden_group: "keeps_hidden (bind_group_output u p table params group_by e)"
  by (induction e) (auto intro!: keeps_hidden_bind simp: bind_aggregate_call_def keeps_hidden_expression split: option.split)

lemma produced_position_less: "produced_position i xs e = Some j \<Longrightarrow> j < i + length xs"
proof (induction xs arbitrary: i)
  case (Cons x xs)
  then show ?case using Cons.IH [of "Suc i"] by (auto split: if_splits)
qed simp

abbreviation key_ok :: "nat \<Rightarrow> bound_order_key \<Rightarrow> bool" where
  "key_ok w key \<equiv> key_index key < w"

lemma order_key_step:
  assumes run: "resolve_order_by_key produced bind_it item s = (Inr key, s')"
    and it: "\<And>e. e = ok_expression item \<Longrightarrow> binds A k n g P (bind_it e)" "keeps_hidden (bind_it (ok_expression item))"
    and mono: "\<And>x g1 g2. P g1 x \<Longrightarrow> g1 \<le> g2 \<Longrightarrow> P g2 x"
    and s: "sound A k n s" "g \<le> length (aggregates s)" "list_all (P (length (aggregates s))) (hidden s)"
  shows "sound A k n s' \<and> length (aggregates s) \<le> length (aggregates s') \<and> list_all (P (length (aggregates s'))) (hidden s')
    \<and> length (hidden s) \<le> length (hidden s') \<and> key_ok (length produced + length (hidden s')) key"
proof (cases "ordinal_of (ok_expression item)")
  case (Some ordinal)
  then show ?thesis using run s by (auto simp: resolve_order_by_key_def ret_def fail_def split: if_splits)
next
  case None
  with run obtain e s1 where e: "bind_it (ok_expression item) s = (Inr e, s1)" and
    rest: "(case produced_position 0 produced e of
              Some i \<Rightarrow> ret \<lparr>key_index = i, descending = ok_descending item\<rparr>
            | None \<Rightarrow>
                bind_op (modify (\<lambda>s. s\<lparr>hidden := hidden s @ [e]\<rparr>)) (\<lambda>_. bind_op get_st (\<lambda>s.
                ret \<lparr>key_index = length produced + length (hidden s) - 1, descending = ok_descending item\<rparr>))) s1 = (Inr key, s')"
    by (auto simp: resolve_order_by_key_def bind_op_eq_Inr)
  note one = bindsD [OF it(1) [OF refl] e s(1,2)]
  have h: "hidden s1 = hidden s" using it(2) e unfolding keeps_hidden_def by (metis snd_conv)
  have old: "list_all (P (length (aggregates s1))) (hidden s)" using s(3) mono one(2) by (auto simp: list_all_iff)
  show ?thesis
  proof (cases "produced_position 0 produced e")
    case None
    then show ?thesis using rest one h old by (auto simp: ret_def sound_def)
  next
    case (Some i)
    then show ?thesis using rest one h old produced_position_less [OF Some] by (auto simp: ret_def)
  qed
qed

lemma order_keys_loop:
  assumes "map_op (resolve_order_by_key produced bind_it) items s = (Inr keys, s')"
    and it: "\<And>item. item \<in> set items \<Longrightarrow> binds A k n g P (bind_it (ok_expression item))" "\<And>e. keeps_hidden (bind_it e)"
    and mono: "\<And>x g1 g2. P g1 x \<Longrightarrow> g1 \<le> g2 \<Longrightarrow> P g2 x"
    and "sound A k n s" "g \<le> length (aggregates s)" "list_all (P (length (aggregates s))) (hidden s)"
  shows "sound A k n s' \<and> length (aggregates s) \<le> length (aggregates s') \<and> list_all (P (length (aggregates s'))) (hidden s')
    \<and> length (hidden s) \<le> length (hidden s') \<and> list_all (key_ok (length produced + length (hidden s'))) keys"
  using assms(1,2,5-7)
proof (induction items arbitrary: s keys)
  case Nil
  then show ?case by (simp add: ret_def)
next
  case (Cons item items)
  from Cons.prems(1) obtain key s1 keys' where one: "resolve_order_by_key produced bind_it item s = (Inr key, s1)"
    and two: "map_op (resolve_order_by_key produced bind_it) items s1 = (Inr keys', s')" and keys: "keys = key # keys'"
    by (auto simp: bind_op_eq_Inr ret_def)
  have A: "sound A k n s1 \<and> length (aggregates s) \<le> length (aggregates s1) \<and> list_all (P (length (aggregates s1))) (hidden s1)
    \<and> length (hidden s) \<le> length (hidden s1) \<and> key_ok (length produced + length (hidden s1)) key"
    by (rule order_key_step [OF one]) (use Cons.prems(2-5) it(2) mono in auto)
  have "sound A k n s' \<and> length (aggregates s1) \<le> length (aggregates s') \<and> list_all (P (length (aggregates s'))) (hidden s')
    \<and> length (hidden s1) \<le> length (hidden s') \<and> list_all (key_ok (length produced + length (hidden s'))) keys'"
    by (rule Cons.IH [OF two]) (use A Cons.prems(2,4) in auto)
  then show ?case using A keys by auto
qed

lemma binds_order_by [binds_intros]:
  assumes it: "\<And>item. item \<in> set items \<Longrightarrow> binds A k n g P (bind_it (ok_expression item))" "\<And>e. keeps_hidden (bind_it e)"
    and mono: "\<And>x g1 g2. P g1 x \<Longrightarrow> g1 \<le> g2 \<Longrightarrow> P g2 x"
  shows "binds A k n g (\<lambda>g x. list_all (P g) (snd x) \<and> list_all (key_ok (length produced + length (snd x))) (fst x))
    (bind_order_by items produced bind_it)"
proof (rule bindsI)
  fix s x s' assume s: "sound A k n s" "g \<le> length (aggregates s)" and run: "bind_order_by items produced bind_it s = (Inr x, s')"
  from run obtain keys where loop: "map_op (resolve_order_by_key produced bind_it) items (s\<lparr>hidden := []\<rparr>) = (Inr keys, s')"
    and x: "x = (keys, hidden s')" by (auto simp: bind_order_by_def bind_op_eq_Inr ret_def get_st_def modify_def)
  have "sound A k n (s\<lparr>hidden := []\<rparr>)" using s(1) by (simp add: sound_def)
  from order_keys_loop [OF loop it mono this] s(2) x show
    "sound A k n s' \<and> length (aggregates s) \<le> length (aggregates s')
     \<and> list_all (P (length (aggregates s'))) (snd x) \<and> list_all (key_ok (length produced + length (snd x))) (fst x)" by simp
qed

text \<open>Expressions over the row of a group: keys first, then aggregates.\<close>

lemma group_key_position_less: "group_key_position i keys index = Some j \<Longrightarrow> j < i + length keys"
proof (induction keys arbitrary: i)
  case (Cons key keys)
  then show ?case using Cons.IH [of "Suc i"] by (auto split: bound_expression.splits if_splits)
qed simp

lemma binds_call:
  assumes "length params = k" and "set (parameters (FunctionCall name args star)) \<subseteq> A" and "n = length (ts_columns table)"
  shows "binds A k n g (\<lambda>g a. pred_option (within n) (agg_arg a)) (bind_aggregate_call u table params func args star)"
proof -
  have "binds A k n g (\<lambda>g. within n) (bind_expression u table params (hd args))" if "length args = 1"
    using that assms by (cases args) (auto intro: binds_expression)
  then show ?thesis unfolding bind_aggregate_call_def by (auto intro!: binds_simple binds_bind)
qed

lemma binds_collect:
  "pred_option (within n) (agg_arg a) \<Longrightarrow> binds A k n g (\<lambda>g u. 0 < g) (modify (\<lambda>s. s\<lparr>aggregates := aggregates s @ [a]\<rparr>))"
  by (auto simp: binds_def modify_def sound_def)

lemma binds_group_output [binds_intros]:
  assumes "length params = k" and "n = length (ts_columns table)" and "set (parameters e) \<subseteq> A"
  shows "binds A k n g (\<lambda>g. within (length group_by + g)) (bind_group_output u p table params group_by e)"
  using assms(3)
proof (induction e arbitrary: g)
  case (Parameter index)
  then show ?case using assms(1) by (auto intro!: binds_bind [OF binds_parameter] binds_ret)
next
  case (Column name qualifier)
  show ?case unfolding bind_group_output.simps
    by (auto intro!: binds_simple binds_bind [where P = "\<lambda>g v. True"] dest!: group_key_position_less split: option.split)
next
  case (UnaryOp oper e)
  then show ?case by (auto intro!: binds_bind [OF UnaryOp.IH] binds_ret elim!: within_mono)
next
  case (BinaryOp l oper r)
  then show ?case by (auto intro!: binds_bind [OF BinaryOp.IH(1)] binds_bind [OF BinaryOp.IH(2)] binds_ret elim!: within_mono)
next
  case (IsNull e negated)
  then show ?case by (auto intro!: binds_bind [OF IsNull.IH] binds_ret elim!: within_mono)
next
  case (FunctionCall name args star)
  show ?case
  proof (cases "aggregate_function u name")
    case (Some func)
    have "binds A k n g' (\<lambda>g. within (length group_by + g)) (bind_op get_st (\<lambda>s.
          ret (BoundColumn (length group_by + length (aggregates s) - 1) (select_item_label p (FunctionCall name args star)) INTEGER_T 0)))"
      if "0 < g'" for g'
      using that by (auto intro!: binds_bind [OF binds_get] binds_ret)
    then show ?thesis unfolding bind_group_output.simps Some option.case
      by (intro binds_bind [OF binds_call [OF assms(1) FunctionCall.prems assms(2)]] binds_bind [OF binds_collect]) auto
  qed (auto intro: binds_simple)
qed (auto intro!: binds_simple)

section \<open>Bound statements\<close>

definition list_parameters :: "expression list \<Rightarrow> nat set" where
  "list_parameters es = (\<Union>e \<in> set es. set (parameters e))"

definition select_parameters :: "select_stmt \<Rightarrow> nat set" where
  "select_parameters st =
     (case se_expressions st of None \<Rightarrow> {} | Some es \<Rightarrow> list_parameters es)
   \<union> (\<Union>j \<in> set (se_joins st). opt_parameters (jc_on j)) \<union> opt_parameters (se_where st) \<union> list_parameters (se_group_by st)
   \<union> opt_parameters (se_having st) \<union> (\<Union>k \<in> set (se_order_by st). set (parameters (ok_expression k)))
   \<union> opt_parameters (se_limit st) \<union> opt_parameters (se_offset st)"

fun statement_parameters :: "statement \<Rightarrow> nat set" where
  "statement_parameters (Insert name values) = list_parameters values"
| "statement_parameters (Select st) = select_parameters st"
| "statement_parameters (Explain st analyze) = select_parameters st"
| "statement_parameters (Delete name w) = opt_parameters w"
| "statement_parameters (Update name asgs w) = (\<Union>a \<in> set asgs. set (parameters (as_value a))) \<union> opt_parameters w"
| "statement_parameters st = {}"

fun value_of_type :: "data_type \<Rightarrow> pyval \<Rightarrow> bool" where
  "value_of_type ty VNull \<longleftrightarrow> True"
| "value_of_type ty (VInt n) \<longleftrightarrow> ty = INTEGER_T"
| "value_of_type ty (VReal w) \<longleftrightarrow> ty = REAL_T"
| "value_of_type ty (VText t) \<longleftrightarrow> ty = TEXT_T"
| "value_of_type ty (VBlob b) \<longleftrightarrow> ty = BLOB_T"

definition table_width :: "table_schema \<Rightarrow> nat" where
  "table_width table = length (ts_columns table)"

definition select_ok :: "bound_select \<Rightarrow> bool" where
  "select_ok b \<longleftrightarrow>
     (let w = table_width (bs_table b) in
        list_all (within w) (bs_expressions b) \<and> pred_option (within w) (bs_where b) \<and> list_all (within w) (bs_hidden_order_by b)
      \<and> list_all (key_ok (length (bs_expressions b) + length (bs_hidden_order_by b))) (bs_order_by b)
      \<and> pred_option (\<lambda>l. 0 \<le> l) (bs_limit b) \<and> 0 \<le> bs_offset b \<and> (bs_distinct b \<longrightarrow> bs_hidden_order_by b = []))"

definition aggregate_select_ok :: "bound_aggregate_select \<Rightarrow> bool" where
  "aggregate_select_ok b \<longleftrightarrow>
     (let w = table_width (ba_table b); v = length (ba_group_by b) + length (ba_aggregates b) in
        pred_option (within w) (ba_where b) \<and> list_all (within w) (ba_group_by b)
      \<and> list_all (\<lambda>a. pred_option (within w) (agg_arg a)) (ba_aggregates b)
      \<and> list_all (within v) (ba_select_items b) \<and> pred_option (within v) (ba_having b) \<and> list_all (within v) (ba_hidden_order_by b)
      \<and> list_all (key_ok (length (ba_select_items b) + length (ba_hidden_order_by b))) (ba_order_by b)
      \<and> length (ba_labels b) = length (ba_select_items b) \<and> pred_option (\<lambda>l. 0 \<le> l) (ba_limit b) \<and> 0 \<le> ba_offset b)"

text \<open>A join's condition reads the tables up to its own only.\<close>

definition join_select_ok :: "bound_join_select \<Rightarrow> bool" where
  "join_select_ok b \<longleftrightarrow>
     scopes_ok (bq_scopes b) \<and> length (bq_scopes b) = length (bq_joins b) + 1
   \<and> list_all (\<lambda>j. 0 < bj_table_ordinal j \<and> bj_table_ordinal j < length (bq_scopes b)
        \<and> pred_option (columns_ok (in_scopes (take (bj_table_ordinal j + 1) (bq_scopes b)))) (bj_on j)) (bq_joins b)
   \<and> list_all (columns_ok (in_scopes (bq_scopes b))) (bq_expressions b) \<and> pred_option (columns_ok (in_scopes (bq_scopes b))) (bq_where b)
   \<and> list_all (\<lambda>key. columns_ok (in_scopes (bq_scopes b)) (jk_expression key)) (bq_order_by b)
   \<and> pred_option (\<lambda>l. 0 \<le> l) (bq_limit b) \<and> 0 \<le> bq_offset b"

fun bound_ok :: "bound_statement \<Rightarrow> bool" where
  "bound_ok (BoundInsert table vs) \<longleftrightarrow>
     length vs = table_width table \<and> list_all2 (\<lambda>column v. value_of_type (cs_data_type column) v) (ts_columns table) vs"
| "bound_ok (BoundSelect b) \<longleftrightarrow> select_ok b"
| "bound_ok (BoundJoinSelect b) \<longleftrightarrow> join_select_ok b"
| "bound_ok (BoundAggregateSelect b) \<longleftrightarrow> aggregate_select_ok b"
| "bound_ok (BoundDelete table w) \<longleftrightarrow> pred_option (within (table_width table)) w"
| "bound_ok (BoundUpdate table asgs w) \<longleftrightarrow>
     list_all (\<lambda>a. bg_column_index a < table_width table \<and> within (table_width table) (bg_value a)) asgs
   \<and> pred_option (within (table_width table)) w"
| "bound_ok (BoundExplain (Inl b) analyze) \<longleftrightarrow> select_ok b"
| "bound_ok (BoundExplain (Inr b) analyze) \<longleftrightarrow> join_select_ok b"
| "bound_ok b \<longleftrightarrow> True"

lemma coerced: "coerce_to_declared_type v ty = Inr w \<Longrightarrow> value_of_type ty w"
  by (cases ty; cases v) (auto simp: coerce_to_declared_type_def map_sum_Inr)

text \<open>Rules that keep a list or an option with a property that does not depend on the aggregates.\<close>

lemma binds_map_plain:
  assumes "\<And>x g'. x \<in> set xs \<Longrightarrow> binds A k n g' (\<lambda>g. P) (f x)"
  shows "binds A k n g (\<lambda>g ys. length ys = length xs \<and> list_all P ys) (map_op f xs)"
  by (rule binds_map_op [where P = "\<lambda>g. P"]) (use assms in auto)

lemma binds_map_each:
  assumes "\<And>x g'. x \<in> set xs \<Longrightarrow> binds A k n g' (\<lambda>g. P x) (f x)"
  shows "binds A k n g (\<lambda>g ys. list_all2 P xs ys) (map_op f xs)"
  using assms
proof (induction xs arbitrary: g)
  case Nil
  show ?case unfolding map_op.simps by (rule binds_ret) simp
next
  case (Cons x xs)
  show ?case unfolding map_op.simps
    by (rule binds_bind [OF Cons.prems], simp, rule binds_bind [OF Cons.IH [OF Cons.prems]]) (auto intro: binds_ret)
qed

lemma binds_optional_plain:
  assumes "\<And>y g'. x = Some y \<Longrightarrow> binds A k n g' (\<lambda>g. P) (f y)"
  shows "binds A k n g (\<lambda>g. pred_option P) (optional_op f x)"
  by (rule binds_optional [where P = "\<lambda>g. P"]) (use assms in auto)

lemma binds_opt_expression:
  "length params = k \<Longrightarrow> opt_parameters e \<subseteq> A
   \<Longrightarrow> binds A k n g (\<lambda>g. pred_option (within (table_width table))) (optional_op (bind_expression u table params) e)"
  unfolding table_width_def by (rule binds_optional_plain) (auto intro: binds_expression)

lemma binds_expressions:
  "length params = k \<Longrightarrow> list_parameters es \<subseteq> A
   \<Longrightarrow> binds A k n g (\<lambda>g ys. length ys = length es \<and> list_all (within (table_width table)) ys) (map_op (bind_expression u table params) es)"
  unfolding table_width_def list_parameters_def by (rule binds_map_plain) (auto intro!: binds_expression)

lemma all_columns_ok: "(\<And>i. i < length (ts_columns table) \<Longrightarrow> P ordinal i) \<Longrightarrow> list_all (columns_ok P) (all_columns table ordinal)"
  by (auto simp: all_columns_def column_of_def list_all_iff)

lemma binds_insert:
  assumes "length params = k" and "list_parameters values \<subseteq> A"
  shows "binds A k n g (\<lambda>g. bound_ok) (bind_insert get_table params name values)"
proof -
  have element: "binds A k n g' (\<lambda>g. value_of_type (cs_data_type column)) (bind_op (constant_value params e) (\<lambda>v.
            lift_res (coerce_to_declared_type v (cs_data_type column))))" if "e \<in> set values" for e column g'
    by (rule binds_bind [OF binds_constant [OF assms(1)]]) (use that assms(2) in \<open>auto simp: list_parameters_def intro: binds_simple coerced\<close>)
  have "binds A k n g' (\<lambda>g. list_all2 (\<lambda>x. value_of_type (cs_data_type (snd x))) (zip values (ts_columns table)))
     (map_op (\<lambda>(value, column). bind_op (constant_value params value) (\<lambda>v.
            lift_res (coerce_to_declared_type v (cs_data_type column)))) (zip values (ts_columns table)))" for g' table
    by (rule binds_map_each, clarsimp, rule element, erule set_zip_leftD)
  then have row: "binds A k n g' (\<lambda>g. bound_ok)
     (bind_op (map_op (\<lambda>(value, column). bind_op (constant_value params value) (\<lambda>v.
            lift_res (coerce_to_declared_type v (cs_data_type column)))) (zip values (ts_columns table))) (\<lambda>vs. ret (BoundInsert table vs)))"
    if "length values = length (ts_columns table)" for g' table
    by (rule binds_bind) (use that in \<open>auto intro!: binds_ret simp: table_width_def list_all2_conv_all_nth\<close>)
  show ?thesis unfolding bind_insert_def
    by (rule binds_bind [where P = "\<lambda>g t. True"]) (auto intro!: binds_simple row)
qed

lemma binds_select:
  assumes "length params = k" and "select_parameters st \<subseteq> A"
  shows "binds A k n g (\<lambda>g. select_ok) (bind_select u get_table params st)"
proof -
  note sp = assms(2) [unfolded select_parameters_def]
  have columns: "binds A k n g' (\<lambda>g. list_all (within (table_width table)))
     (case se_expressions st of None \<Rightarrow> ret (all_columns table 0) | Some es \<Rightarrow> map_op (bind_expression u table params) es)" for g' table
  proof (cases "se_expressions st")
    case None
    then show ?thesis by (auto intro!: binds_ret all_columns_ok simp: table_width_def)
  next
    case (Some es)
    then have "list_parameters es \<subseteq> A" using sp by simp
    from binds_weaken [OF binds_expressions [OF assms(1) this] le_refl] show ?thesis by (simp add: Some)
  qed
  have sort: "binds A k n g' (\<lambda>g x. list_all (within (table_width table)) (snd x) \<and> list_all (key_ok (length produced + length (snd x))) (fst x))
     (bind_order_by (se_order_by st) produced (bind_expression u table params))" for g' table produced
    by (rule binds_order_by [where P = "\<lambda>g. within (table_width table)"])
      (use sp in \<open>auto simp: table_width_def intro!: binds_expression assms(1) keeps_hidden_expression\<close>)
  have conds: "binds A k n g' (\<lambda>g. pred_option (within (table_width table))) (optional_op (bind_expression u table params) (se_where st))" for g' table
    by (rule binds_opt_expression [OF assms(1)]) (use sp in auto)
  have limits: "binds A k n g' (\<lambda>g. pred_option (\<lambda>l. 0 \<le> l)) (bind_limit params (se_limit st))"
    "binds A k n g' (\<lambda>g l. 0 \<le> l) (bind_offset params (se_offset st))" for g'
    by (rule binds_limit binds_offset; use assms(1) sp in auto)+
  show ?thesis unfolding bind_select_def case_prod_beta
    by (rule binds_bind [where P = "\<lambda>g t. True"], (rule binds_simple, simp), rule binds_bind [OF columns], rule binds_bind [OF conds],
        rule binds_bind [OF sort], rule binds_bind [where P = "\<lambda>g (x :: unit). \<not> (se_distinct st \<and> _)"], (rule binds_simple, assumption),
        rule binds_bind [OF limits(1)], rule binds_bind [OF limits(2)], rule binds_ret)
      (auto simp: select_ok_def Let_def)
qed

lemma binds_aggregate_body:
  assumes k: "length params = k" and sp: "select_parameters st \<subseteq> A" and n: "n = table_width table" and es: "se_expressions st = Some es"
    and w: "pred_option (within n) where_clause" and gb: "list_all (within n) group_by"
  shows "binds A k n 0 (\<lambda>g. aggregate_select_ok)
     (bind_op (map_op (bind_group_output u p table params group_by) es) (\<lambda>select_items.
      bind_op (optional_op (bind_group_output u p table params group_by) (se_having st)) (\<lambda>having.
      bind_op (bind_order_by (se_order_by st) select_items (bind_group_output u p table params group_by)) (\<lambda>(order_by, hidden_order_by).
      bind_op (bind_limit params (se_limit st)) (\<lambda>limit.
      bind_op (bind_offset params (se_offset st)) (\<lambda>offset.
      bind_op get_st (\<lambda>s.
        ret \<lparr>ba_table = table, ba_group_by = group_by, ba_aggregates = aggregates s, ba_select_items = select_items,
             ba_having = having, ba_where = where_clause, ba_labels = map (select_item_label p) es,
             ba_order_by = order_by, ba_hidden_order_by = hidden_order_by, ba_limit = limit, ba_offset = offset\<rparr>)))))))"
proof -
  note sp = sp [unfolded select_parameters_def es option.case]
  let ?P = "\<lambda>g. within (length group_by + g)"
  have mono: "?P g2 x" if "?P g1 x" "g1 \<le> g2" for x g1 g2 using that by (elim within_mono) simp
  have out: "binds A k n g (\<lambda>g. ?P g) (bind_group_output u p table params group_by e)" if "set (parameters e) \<subseteq> A" for e g
    by (rule binds_group_output) (use that k n in \<open>simp_all add: table_width_def\<close>)
  have items: "binds A k n g (\<lambda>g ys. length ys = length es \<and> list_all (?P g) ys) (map_op (bind_group_output u p table params group_by) es)" for g
    by (rule binds_map_op [OF out mono]) (use sp in \<open>auto simp: list_parameters_def\<close>)
  have having: "binds A k n g (\<lambda>g. pred_option (?P g)) (optional_op (bind_group_output u p table params group_by) (se_having st))" for g
    by (rule binds_optional [OF out mono]) (use sp in auto)
  have order: "binds A k n g (\<lambda>g x. list_all (?P g) (snd x) \<and> list_all (key_ok (length produced + length (snd x))) (fst x))
      (bind_order_by (se_order_by st) produced (bind_group_output u p table params group_by))" for produced g
    by (rule binds_order_by [OF out keeps_hidden_group mono]) (use sp in auto)
  have limits: "binds A k n g' (\<lambda>g. pred_option (\<lambda>l. 0 \<le> l)) (bind_limit params (se_limit st))"
    "binds A k n g' (\<lambda>g l. 0 \<le> l) (bind_offset params (se_offset st))" for g'
    by (rule binds_limit binds_offset; use k sp in auto)+
  have all_mono: "list_all (?P g2) xs" if "list_all (?P g1) xs" "g1 \<le> g2" for xs g1 g2
    using that mono by (auto simp: list_all_iff)
  have opt_mono: "pred_option (?P g2) x" if "pred_option (?P g1) x" "g1 \<le> g2" for x g1 g2
    using that mono by (cases x) auto
  show ?thesis unfolding case_prod_beta
    by (rule binds_bind [OF items], rule binds_bind [OF having], rule binds_bind [OF order], rule binds_bind [OF limits(1)],
        rule binds_bind [OF limits(2)], rule binds_bind [OF binds_get], rule binds_ret)
      (use w gb n in \<open>auto simp: aggregate_select_ok_def Let_def sound_def intro: all_mono opt_mono\<close>)
qed

lemma binds_aggregate_select:
  assumes k: "length params = k" and sp: "select_parameters st \<subseteq> A" and s: "consumed s \<subseteq> A \<inter> {..<k}" "aggregates s = []"
    and run: "bind_aggregate_select u p get_table params st s = (Inr b, s')"
  shows "aggregate_select_ok b \<and> consumed s' \<subseteq> A \<inter> {..<k}"
proof -
  from run obtain es table w s1 keys s2 where es: "se_expressions st = Some es"
    and w: "optional_op (bind_expression u table params) (se_where st) s = (Inr w, s1)"
    and g: "map_op (bind_expression u table params) (se_group_by st) s1 = (Inr keys, s2)"
    and rest: "bind_op (map_op (bind_group_output u p table params keys) es) (\<lambda>select_items.
      bind_op (optional_op (bind_group_output u p table params keys) (se_having st)) (\<lambda>having.
      bind_op (bind_order_by (se_order_by st) select_items (bind_group_output u p table params keys)) (\<lambda>(order_by, hidden_order_by).
      bind_op (bind_limit params (se_limit st)) (\<lambda>limit.
      bind_op (bind_offset params (se_offset st)) (\<lambda>offset.
      bind_op get_st (\<lambda>s.
        ret \<lparr>ba_table = table, ba_group_by = keys, ba_aggregates = aggregates s, ba_select_items = select_items,
             ba_having = having, ba_where = w, ba_labels = map (select_item_label p) es,
             ba_order_by = order_by, ba_hidden_order_by = hidden_order_by, ba_limit = limit, ba_offset = offset\<rparr>))))))
      (s2\<lparr>aggregates := []\<rparr>) = (Inr b, s')"
    by (auto simp: bind_aggregate_select_def bind_op_eq_Inr [where m = "raise_if c e" for c e] bind_op_eq_Inr [where m = "lift_res r" for r]
        bind_op_eq_Inr [where m = "optional_op f x" for f x] bind_op_eq_Inr [where m = "modify f" for f] modify_def lift_res_def
        bind_op_eq_Inr [where m = "map_op (bind_expression u t ps) x" for t ps x]
        raise_if_def skip_def ret_def fail_def split: option.splits if_splits)
  let ?n = "table_width table"
  note sp' = sp [unfolded select_parameters_def]
  have "sound A k ?n s" using s by (simp add: sound_def)
  note one = bindsD [OF binds_opt_expression [OF k, of "se_where st" A ?n 0 table u] w this]
  note two = bindsD [OF binds_expressions [OF k, of "se_group_by st" A ?n 0 table u] g]
  have "sound A k ?n s1" "pred_option (within ?n) w" using one sp' by auto
  moreover from two [OF _ this(1)] have "sound A k ?n s2" "list_all (within ?n) keys" using sp' by auto
  moreover then have "sound A k ?n (s2\<lparr>aggregates := []\<rparr>)" by (simp add: sound_def)
  ultimately have "sound A k ?n s'" "aggregate_select_ok b"
    using bindsD [OF binds_aggregate_body [OF k sp refl es] rest] by auto
  then show ?thesis by (simp add: sound_def)
qed

lemma binds_join:
  assumes "length params = k" and "scopes_ok scopes" and "join \<in> set joins" and "opt_parameters (jc_on join) \<subseteq> A"
    and "scope \<in> set scopes" and "0 < sc_ordinal scope"
  shows "binds A k n g (\<lambda>g j. 0 < bj_table_ordinal j \<and> bj_table_ordinal j < length scopes
      \<and> pred_option (columns_ok (in_scopes (take (bj_table_ordinal j + 1) scopes))) (bj_on j)) (bind_join u scopes params (join, scope))"
proof -
  note m = scope_member [OF assms(2,5)]
  have "binds A k n g (\<lambda>g. pred_option (columns_ok (in_scopes (take (sc_ordinal scope + 1) scopes))))
    (optional_op (join_expression u (take (sc_ordinal scope + 1) scopes) params) (jc_on join))"
    by (rule binds_optional_plain) (use assms(1,4) in \<open>auto intro!: binds_join_expression scopes_ok_take assms(2)\<close>)
  then show ?thesis unfolding bind_join_def prod.case
    by (rule binds_bind) (use m assms(6) in \<open>auto intro!: binds_ret\<close>)
qed

lemma binds_join_order_key:
  assumes "length params = k" and "scopes_ok scopes" and "set (parameters (ok_expression item)) \<subseteq> A"
    and "list_all (columns_ok (in_scopes scopes)) expressions"
  shows "binds A k n g (\<lambda>g key. columns_ok (in_scopes scopes) (jk_expression key)) (bind_join_order_key u scopes params expressions item)"
proof -
  have "binds A k n g (\<lambda>g key. columns_ok (in_scopes scopes) (jk_expression key))
    (bind_op (join_expression u scopes params (ok_expression item)) (\<lambda>e. ret \<lparr>jk_expression = e, jk_descending = ok_descending item\<rparr>))"
    by (rule binds_bind [OF binds_join_expression [OF assms(2,1,3)]]) (auto intro: binds_ret)
  moreover have "columns_ok (in_scopes scopes) (expressions ! nat (ordinal - 1))" if "1 \<le> ordinal" "ordinal \<le> int (length expressions)" for ordinal
    using assms(4) that by (auto simp: list_all_iff)
  ultimately show ?thesis unfolding bind_join_order_key_def by (auto intro!: binds_simple split: option.split)
qed

lemma binds_join_select:
  assumes "length params = k" and "select_parameters st \<subseteq> A"
  shows "binds A k n g (\<lambda>g. join_select_ok) (bind_join_select u get_table params st)"
proof -
  note sp = assms(2) [unfolded select_parameters_def]
  have scopes: "binds A k n g' (\<lambda>g scopes. scopes_ok scopes \<and> length scopes = length (se_joins st) + 1)
    (lift_res (build_scopes get_table 0 (se_table st # map jc_table (se_joins st))))" for g'
    by (rule binds_simple(3), drule build_scopes_nth) (simp add: scopes_ok_def)
  have joins: "binds A k n g' (\<lambda>g js. length js = length (se_joins st) \<and> list_all (\<lambda>j. 0 < bj_table_ordinal j \<and> bj_table_ordinal j < length scopes
      \<and> pred_option (columns_ok (in_scopes (take (bj_table_ordinal j + 1) scopes))) (bj_on j)) js)
    (map_op (bind_join u scopes params) (zip (se_joins st) (tl scopes)))"
    if sc: "scopes_ok scopes \<and> length scopes = length (se_joins st) + 1" for scopes g'
  proof -
    have "binds A k n g' (\<lambda>g j. 0 < bj_table_ordinal j \<and> bj_table_ordinal j < length scopes
      \<and> pred_option (columns_ok (in_scopes (take (bj_table_ordinal j + 1) scopes))) (bj_on j)) (bind_join u scopes params (join, scope))"
      if js: "(join, scope) \<in> set (zip (se_joins st) (tl scopes))" for join scope g'
    proof (rule binds_join [OF assms(1)])
      obtain i where i: "i < length (se_joins st)" "i < length scopes - 1" "scope = scopes ! Suc i"
        using js by (auto simp: in_set_zip nth_tl)
      then show "scope \<in> set scopes" "0 < sc_ordinal scope" using sc by (auto simp: scopes_ok_def)
      show "join \<in> set (se_joins st)" using js by (rule set_zip_leftD)
      then show "opt_parameters (jc_on join) \<subseteq> A" using sp by auto
    qed (use sc in simp)
    then have "binds A k n g' (\<lambda>g js. length js = length (zip (se_joins st) (tl scopes)) \<and> list_all (\<lambda>j. 0 < bj_table_ordinal j \<and> bj_table_ordinal j < length scopes
      \<and> pred_option (columns_ok (in_scopes (take (bj_table_ordinal j + 1) scopes))) (bj_on j)) js)
      (map_op (bind_join u scopes params) (zip (se_joins st) (tl scopes)))"
      by (intro binds_map_plain) auto
    then show ?thesis using sc by simp
  qed
  have columns: "binds A k n g' (\<lambda>g. list_all (columns_ok (in_scopes scopes)))
     (case se_expressions st of None \<Rightarrow> ret (concat (map (\<lambda>scope. all_columns (sc_table scope) (sc_ordinal scope)) scopes))
      | Some es \<Rightarrow> map_op (join_expression u scopes params) es)" if "scopes_ok scopes" for scopes g'
  proof (cases "se_expressions st")
    case None
    have "list_all (columns_ok (in_scopes scopes)) (all_columns (sc_table scope) (sc_ordinal scope))" if "scope \<in> set scopes" for scope
      using scope_member [OF \<open>scopes_ok scopes\<close> that] by (intro all_columns_ok) (simp add: in_scopes_def)
    then show ?thesis by (auto intro!: binds_ret simp: None list_all_iff)
  next
    case (Some es)
    have "binds A k n g' (\<lambda>g ys. length ys = length es \<and> list_all (columns_ok (in_scopes scopes)) ys) (map_op (join_expression u scopes params) es)"
      by (rule binds_map_plain, rule binds_join_expression [OF that assms(1)]) (use sp Some in \<open>auto simp: list_parameters_def\<close>)
    from binds_weaken [OF this le_refl] show ?thesis by (simp add: Some)
  qed
  have conds: "binds A k n g' (\<lambda>g. pred_option (columns_ok (in_scopes scopes))) (optional_op (join_expression u scopes params) (se_where st))"
    if "scopes_ok scopes" for scopes g'
    by (rule binds_optional_plain, rule binds_join_expression [OF that assms(1)]) (use sp in auto)
  have keys: "binds A k n g' (\<lambda>g ys. length ys = length (se_order_by st) \<and> list_all (\<lambda>key. columns_ok (in_scopes scopes) (jk_expression key)) ys)
    (map_op (bind_join_order_key u scopes params expressions) (se_order_by st))"
    if "scopes_ok scopes" "list_all (columns_ok (in_scopes scopes)) expressions" for scopes expressions g'
    by (rule binds_map_plain, rule binds_join_order_key [OF assms(1) that(1) _ that(2)]) (use sp in auto)
  have limits: "binds A k n g' (\<lambda>g. pred_option (\<lambda>l. 0 \<le> l)) (bind_limit params (se_limit st))"
    "binds A k n g' (\<lambda>g l. 0 \<le> l) (bind_offset params (se_offset st))" for g'
    by (rule binds_limit binds_offset; use assms(1) sp in auto)+
  have tail: "binds A k n g' (\<lambda>g. join_select_ok)
     (bind_op (map_op (bind_join u scopes params) (zip (se_joins st) (tl scopes))) (\<lambda>joins.
     bind_op (case se_expressions st of
         None \<Rightarrow> ret (concat (map (\<lambda>scope. all_columns (sc_table scope) (sc_ordinal scope)) scopes))
       | Some es \<Rightarrow> map_op (join_expression u scopes params) es) (\<lambda>expressions.
     bind_op (optional_op (join_expression u scopes params) (se_where st)) (\<lambda>where_clause.
     bind_op (map_op (bind_join_order_key u scopes params expressions) (se_order_by st)) (\<lambda>order_by.
     bind_op (bind_limit params (se_limit st)) (\<lambda>limit.
     bind_op (bind_offset params (se_offset st)) (\<lambda>offset.
       ret \<lparr>bq_scopes = scopes, bq_joins = joins, bq_expressions = expressions, bq_where = where_clause,
            bq_order_by = order_by, bq_limit = limit, bq_offset = offset\<rparr>)))))))"
    if sc: "scopes_ok scopes \<and> length scopes = length (se_joins st) + 1" for scopes g'
    by (rule binds_bind [OF joins [OF sc]], rule binds_bind [OF columns [OF conjunct1 [OF sc]]], rule binds_bind [OF conds [OF conjunct1 [OF sc]]],
        rule binds_bind [OF keys [OF conjunct1 [OF sc]]], assumption, rule binds_bind [OF limits(1)], rule binds_bind [OF limits(2)], rule binds_ret)
      (use sc in \<open>simp add: join_select_ok_def\<close>)
  show ?thesis unfolding bind_join_select_def
    by (rule binds_bind [where P = "\<lambda>g (x :: unit). True"], (rule binds_simple, simp))+ (rule binds_bind [OF scopes], rule tail)
qed

lemma binds_update:
  assumes "length params = k" and "(\<Union>a \<in> set asgs. set (parameters (as_value a))) \<union> opt_parameters w \<subseteq> A"
  shows "binds A k n g (\<lambda>g. bound_ok) (bind_update u get_table params name asgs w)"
proof -
  have one: "binds A k n g' (\<lambda>g b. bg_column_index b < table_width table \<and> within (table_width table) (bg_value b)) (bind_assignment u table params a)"
    if "a \<in> set asgs" for a table g'
    unfolding bind_assignment_def
    by (rule binds_bind [where P = "\<lambda>g i. i < table_width table"], rule binds_simple, simp add: table_width_def column_index_Inr,
        rule binds_bind [OF binds_expression [OF assms(1)]]) (use that assms(2) in \<open>auto intro!: binds_ret simp: table_width_def\<close>)
  have all: "binds A k n g' (\<lambda>g ys. length ys = length asgs
      \<and> list_all (\<lambda>b. bg_column_index b < table_width table \<and> within (table_width table) (bg_value b)) ys)
    (map_op (bind_assignment u table params) asgs)" for table g'
    by (rule binds_map_plain) (rule one)
  have cond: "binds A k n g' (\<lambda>g. pred_option (within (table_width table))) (optional_op (bind_expression u table params) w)" for table g'
    by (rule binds_opt_expression [OF assms(1)]) (use assms(2) in auto)
  show ?thesis unfolding bind_update_def
    by (rule binds_bind [where P = "\<lambda>g t. True"], rule binds_simple, simp, rule binds_bind [OF all], rule binds_bind [OF cond], rule binds_ret) simp
qed

lemma binds_delete:
  assumes "length params = k" and "opt_parameters w \<subseteq> A"
  shows "binds A k n g (\<lambda>g. bound_ok) (bind_delete u get_table params name w)"
  unfolding bind_delete_def
  by (rule binds_bind [where P = "\<lambda>g t. True"], rule binds_simple, simp, rule binds_bind [OF binds_opt_expression [OF assms]], rule binds_ret) simp

lemma bind_body_ok:
  assumes run: "bind_body u p get_table params st new_bind_state = (Inr b, s')"
  shows "bound_ok b \<and> consumed s' \<subseteq> statement_parameters st \<inter> {..<length params}"
proof -
  let ?A = "statement_parameters st" and ?k = "length params"
  have start: "sound ?A ?k n new_bind_state" "aggregates new_bind_state = []" "consumed new_bind_state = {}" for n
    by (simp_all add: sound_def new_bind_state_def)
  have finish: "bound_ok b \<and> consumed s' \<subseteq> ?A \<inter> {..<?k}" if "binds ?A ?k 0 0 (\<lambda>g. bound_ok) (bind_body u p get_table params st)"
    using bindsD [OF that run start(1)] by (simp add: sound_def)
  have select: "binds ?A ?k 0 0 (\<lambda>g b. bound_ok (f b)) (bind_select u get_table params q)"
    if "select_parameters q \<subseteq> ?A" "\<And>b. bound_ok (f b) = select_ok b" for q f
    using binds_select [OF refl that(1)] that(2) by simp
  have join: "binds ?A ?k 0 0 (\<lambda>g b. bound_ok (f b)) (bind_join_select u get_table params q)"
    if "select_parameters q \<subseteq> ?A" "\<And>b. bound_ok (f b) = join_select_ok b" for q f
    using binds_join_select [OF refl that(1)] that(2) by simp
  show ?thesis
  proof (cases st)
    case (Insert name vs)
    then show ?thesis by (intro finish) (auto simp: bind_body_def intro: binds_insert)
  next
    case (Delete name w)
    then show ?thesis by (intro finish) (auto simp: bind_body_def intro: binds_delete)
  next
    case (Update name asgs w)
    then show ?thesis by (intro finish) (auto simp: bind_body_def intro: binds_update)
  next
    case (Explain q analyze)
    let ?P = "\<lambda>(g :: nat) b. bound_ok (BoundExplain b analyze)"
    have "binds ?A ?k 0 0 ?P (bind_op (bind_join_select u get_table params q) (\<lambda>b. ret (Inr b)))"
      by (rule binds_bind [OF join [where f = "\<lambda>b. BoundExplain (Inr b) analyze"]]) (auto simp: Explain intro: binds_ret)
    moreover have "binds ?A ?k 0 0 ?P (bind_op (bind_select u get_table params q) (\<lambda>b. ret (Inl b)))"
      by (rule binds_bind [OF select [where f = "\<lambda>b. BoundExplain (Inl b) analyze"]]) (auto simp: Explain intro: binds_ret)
    ultimately have "binds ?A ?k 0 0 ?P
       (if se_joins q \<noteq> [] then bind_op (bind_join_select u get_table params q) (\<lambda>b. ret (Inr b))
        else bind_op (bind_select u get_table params q) (\<lambda>b. ret (Inl b)))" by simp
    then have "binds ?A ?k 0 0 (\<lambda>g. bound_ok) (bind_body u p get_table params st)"
      unfolding bind_body_def Explain statement.case by (rule binds_bind) (auto intro: binds_ret)
    then show ?thesis by (rule finish)
  next
    case (Select q)
    consider "se_joins q \<noteq> []" | "se_joins q = []" "select_needs_aggregation u q" | "se_joins q = []" "\<not> select_needs_aggregation u q" by blast
    then show ?thesis
    proof cases
      case 1
      have "binds ?A ?k 0 0 (\<lambda>g. bound_ok) (bind_op (bind_join_select u get_table params q) (\<lambda>b. ret (BoundJoinSelect b)))"
        by (rule binds_bind [OF join [where f = BoundJoinSelect]]) (auto simp: Select intro: binds_ret)
      then show ?thesis using 1 Select by (intro finish) (simp add: bind_body_def)
    next
      case 2
      then obtain b0 where "bind_aggregate_select u p get_table params q new_bind_state = (Inr b0, s')" "b = BoundAggregateSelect b0"
        using run by (auto simp: bind_body_def Select bind_op_eq_Inr ret_def)
      from binds_aggregate_select [OF refl _ _ start(2) this(1), of ?A] this(2) start(3) show ?thesis by (simp add: Select)
    next
      case 3
      have "binds ?A ?k 0 0 (\<lambda>g. bound_ok) (bind_op (bind_select u get_table params q) (\<lambda>b. ret (BoundSelect b)))"
        by (rule binds_bind [OF select [where f = BoundSelect]]) (auto simp: Select intro: binds_ret)
      then show ?thesis using 3 Select by (intro finish) (simp add: bind_body_def)
    qed
  qed (use run start(3) in \<open>auto simp: bind_body_def ret_def\<close>)
qed

lemma require_bindable_Inr: "require_bindable args = Inr vs \<Longrightarrow> args = map Storable vs"
proof (induction args arbitrary: vs)
  case (Cons a args)
  then show ?case by (cases a) (auto simp: bind_res_eq_Inr)
qed simp

lemma fst_eq_iff: "fst p = x \<longleftrightarrow> (\<exists>y. p = (x, y))"
  by (cases p) auto


definition example_table :: table_schema where
  "example_table = \<lparr>ts_name = [116], ts_columns = [\<lparr>cs_name = [97], cs_data_type = INTEGER_T\<rparr>, \<lparr>cs_name = [98], cs_data_type = TEXT_T\<rparr>],
     ts_root_page = 2, ts_sql = []\<rparr>"

definition plain_text :: py_text where
  "plain_text = \<lparr>upper = (\<lambda>s. s), repr_value = (\<lambda>v. [])\<rparr>"

text \<open>\<^verbatim>\<open>SELECT b FROM t WHERE A = ? ORDER BY a LIMIT 3\<close>\<close>

definition example_select :: select_stmt where
  "example_select = \<lparr>se_expressions = Some [Column [98] None], se_table = \<lparr>tr_name = [116], tr_alias = None\<rparr>, se_joins = [],
     se_where = Some (BinaryOp (Column [65] None) ''='' (Parameter 0)), se_group_by = [], se_having = None, se_distinct = False,
     se_order_by = [\<lparr>ok_expression = Column [97] None, ok_descending = False\<rparr>], se_limit = Some (Literal (VInt 3)), se_offset = None\<rparr>"

definition example_bound :: bound_select where
  "example_bound = \<lparr>bs_table = example_table, bs_expressions = [BoundColumn 1 [98] TEXT_T 0],
     bs_where = Some (BoundBinaryOp (BoundColumn 0 [97] INTEGER_T 0) ''='' (BoundLiteral (VInt 7))), bs_distinct = False,
     bs_order_by = [\<lparr>key_index = 1, descending = False\<rparr>], bs_hidden_order_by = [BoundColumn 0 [97] INTEGER_T 0], bs_limit = Some 3, bs_offset = 0\<rparr>"

lemma example_binds:
  "bind_statement ascii_tables plain_text (\<lambda>name. Inr example_table) (Select example_select) [Storable (VInt 7)] = Inr (BoundSelect example_bound)"
  by code_simp


end
