(* ===== verification/Resolution.thy ===== *)
theory Resolution
  imports BinderSafety
begin

text \<open>
  What the resolved names mean: a bound statement evaluates without a missing column, an unqualified name belongs to
  one table, and \<^verbatim>\<open>resolve_layout\<close> keeps an expression's value when the rows of a join are put side by side.
\<close>

section \<open>Evaluation finds every column\<close>

lemma overflow_only: "(let w = x in if fp_is_inf w then Inl OverflowError else Inr w) = Inl e \<Longrightarrow> e = OverflowError"
  by (simp add: Let_def split: if_splits)

lemma float_errors [simp]: "float_of_int n \<noteq> Inl ColumnNotFoundError" "int_of_float w \<noteq> Inl ColumnNotFoundError"
proof -
  have "float_of_int n = Inl e \<Longrightarrow> e = OverflowError" for e unfolding float_of_int_def by (rule overflow_only)
  then show "float_of_int n \<noteq> Inl ColumnNotFoundError" by blast
  show "int_of_float w \<noteq> Inl ColumnNotFoundError" by (simp add: int_of_float_def)
qed

lemma map_sum_Inl: "map_sum id g r = Inl e \<longleftrightarrow> r = Inl e"
  by (cases r) auto

lemma no_missing_column [simp]:
  "fit_int64 n \<noteq> Inl ColumnNotFoundError" "as_float a \<noteq> Inl ColumnNotFoundError" "as_int a \<noteq> Inl ColumnNotFoundError"
  "require_number a \<noteq> Inl ColumnNotFoundError" "apply_ordering oper x y z \<noteq> Inl ColumnNotFoundError"
proof -
  show "fit_int64 n \<noteq> Inl ColumnNotFoundError" by (simp add: fit_int64_def map_sum_Inl)
  show "as_float a \<noteq> Inl ColumnNotFoundError" by (cases a) simp_all
  show "as_int a \<noteq> Inl ColumnNotFoundError" by (cases a) simp_all
qed (simp_all add: require_number_def apply_ordering_def)

lemma operators_find_columns [simp]:
  "unary_op oper v \<noteq> Inl ColumnNotFoundError" "strict_op oper v w \<noteq> Inl ColumnNotFoundError"
proof -
  have num: "num_binop f g a b \<noteq> Inl ColumnNotFoundError" for f g a b
    by (auto simp: num_binop_def bind_res_eq_Inl split: pyval.split)
  have div: "divide_op a b \<noteq> Inl ColumnNotFoundError" for a b
    by (auto simp: divide_op_def bind_res_eq_Inl Let_def split: pyval.split)
  have mod: "modulo_op a b \<noteq> Inl ColumnNotFoundError" for a b
    by (auto simp: modulo_op_def bind_res_eq_Inl Let_def map_sum_Inl split: pyval.splits if_splits)
  have "arithmetic oper a b \<noteq> Inl ColumnNotFoundError" for a b
    by (auto simp: arithmetic_def bind_res_eq_Inl num div mod split: if_splits)
  moreover have "compare_op oper a b \<noteq> Inl ColumnNotFoundError" for a b
    by (auto simp: compare_op_def Let_def split: pyval.split)
  ultimately show "strict_op oper v w \<noteq> Inl ColumnNotFoundError"
    by (auto simp: strict_op_def map_sum_Inl split: pyval.split)
  show "unary_op oper v \<noteq> Inl ColumnNotFoundError"
    by (auto simp: unary_op_def bind_res_eq_Inl split: pyval.splits)
qed

lemma within_evaluates: "within (length row) e \<Longrightarrow> evaluate e row \<noteq> Inl ColumnNotFoundError"
  by (induction e) (auto simp: bind_res_eq_Inl Let_def)

definition select_expressions :: "bound_select \<Rightarrow> bound_expression list" where
  "select_expressions b = (case bs_where b of None \<Rightarrow> [] | Some w \<Rightarrow> [w]) @ bs_expressions b @ bs_hidden_order_by b"

text \<open>
  C26. No row of its table makes a bound single-table SELECT raise ColumnNotFoundError: the condition, the selected
  expressions and the hidden sort expressions evaluate on every row as wide as the table.
\<close>

theorem bound_select_evaluates:
  assumes "bind_statement u p get_table st args = Inr (BoundSelect b)" and "length row = length (ts_columns (bs_table b))"
    and "e \<in> set (select_expressions b)"
  shows "evaluate e row \<noteq> Inl ColumnNotFoundError"
proof -
  from assms(1) obtain params s' where "bind_body u p get_table params st new_bind_state = (Inr (BoundSelect b), s')"
    by (auto simp: bind_statement_def bind_res_eq_Inr require_all_parameters_consumed_def bind_op_eq_Inr get_st_def raise_if_def skip_def fail_def
        ret_def fst_eq_iff split: if_splits)
  from bind_body_ok [OF this] have "select_ok b" by simp
  then have "within (length row) e" using assms(2,3)
    by (auto simp: select_ok_def select_expressions_def Let_def list_all_iff table_width_def pred_option_def split: option.splits)
  then show ?thesis by (rule within_evaluates)
qed

theorem bound_select_evaluates_witness:
  "evaluate (BoundBinaryOp (BoundColumn 0 [97] INTEGER_T 0) ''='' (BoundLiteral (VInt 7))) [VInt 5, VNull] \<noteq> Inl ColumnNotFoundError"
  by (rule bound_select_evaluates [OF example_binds]) (simp_all add: example_bound_def example_table_def select_expressions_def)

section \<open>Column names in a join\<close>

text \<open>\<open>has_column u scopes name i\<close>: table \<open>i\<close> of the join has a column of that name.\<close>

definition has_column :: "char_tables \<Rightarrow> table_scope list \<Rightarrow> ustr \<Rightarrow> nat \<Rightarrow> bool" where
  "has_column u scopes name i \<longleftrightarrow>
     i < length scopes \<and> (\<exists>c \<in> set (ts_columns (sc_table (scopes ! i))). casefold u (cs_name c) = casefold u name)"

lemma column_index_ok: "(\<exists>i. column_index u table name = Inr i) \<longleftrightarrow> (\<exists>c \<in> set (ts_columns table). casefold u (cs_name c) = casefold u name)"
proof (cases "column_index u table name")
  case (Inl e)
  then show ?thesis using column_index_Inl [OF Inl] by auto
next
  case (Inr i)
  then show ?thesis using column_index_Inr [OF Inr] by auto
qed

lemma scope_matches_simps [simp]:
  "scope_matches u name [] = []"
  "scope_matches u name (s # scopes) =
     (case column_index u (sc_table s) name of Inr i \<Rightarrow> (s, i) # scope_matches u name scopes | Inl e \<Rightarrow> scope_matches u name scopes)"
  by (auto simp: scope_matches_def split: sum.split)

lemma has_column_Cons:
  "has_column u (s # scopes) name i \<longleftrightarrow>
     (case i of 0 \<Rightarrow> (\<exists>k. column_index u (sc_table s) name = Inr k) | Suc j \<Rightarrow> has_column u scopes name j)"
  by (auto simp: has_column_def column_index_ok split: nat.split)

lemma matches_count: "length (scope_matches u name scopes) = card {i. has_column u scopes name i} \<and> finite {i. has_column u scopes name i}"
proof (induction scopes)
  case Nil
  then show ?case by (simp add: has_column_def)
next
  case (Cons s scopes)
  have split: "{i. has_column u (s # scopes) name i} =
    (if \<exists>k. column_index u (sc_table s) name = Inr k then {0} else {}) \<union> Suc ` {i. has_column u scopes name i}"
  proof (rule set_eqI)
    fix i
    show "i \<in> {i. has_column u (s # scopes) name i} \<longleftrightarrow>
      i \<in> (if \<exists>k. column_index u (sc_table s) name = Inr k then {0} else {}) \<union> Suc ` {i. has_column u scopes name i}"
      by (cases i) (auto simp: has_column_Cons)
  qed
  show ?case unfolding split using Cons by (auto simp: card_insert_if card_image split: sum.split)
qed

text \<open>
  C24. An unqualified name in a join is not resolved to the first match: it is not found when no table has a column of
  that name, ambiguous when two of them have, and otherwise the column of that name in the one table that has it.
\<close>

theorem unqualified_name_unique:
  assumes "scopes_ok scopes"
  shows "case resolve_column u scopes name None of
      Inl e \<Rightarrow> e = (if \<exists>i. has_column u scopes name i then AmbiguousColumnError else ColumnNotFoundError)
        \<and> card {i. has_column u scopes name i} \<noteq> 1
    | Inr b \<Rightarrow> (\<exists>i index column. {i. has_column u scopes name i} = {i} \<and> column = ts_columns (sc_table (scopes ! i)) ! index
        \<and> casefold u (cs_name column) = casefold u name \<and> b = BoundColumn index (cs_name column) (cs_data_type column) i)"
proof -
  note count = matches_count [of u name scopes]
  consider "scope_matches u name scopes = []" | scope index where "scope_matches u name scopes = [(scope, index)]"
    | m m' ms where "scope_matches u name scopes = m # m' # ms"
    by (metis list.exhaust prod.exhaust)
  then show ?thesis
  proof cases
    case 1
    then show ?thesis using count by (auto simp: resolve_column_def)
  next
    case (2 scope index)
    then have m: "scope \<in> set scopes" "column_index u (sc_table scope) name = Inr index"
      using scope_matches_member [of scope index u name scopes] by auto
    note s = scope_member [OF assms m(1)] and c = column_index_Inr [OF m(2)]
    have "has_column u scopes name (sc_ordinal scope)" using s c by (auto simp: has_column_def)
    moreover have "card {i. has_column u scopes name i} = 1" using count 2 by simp
    ultimately have "{i. has_column u scopes name i} = {sc_ordinal scope}" by (metis card_1_singletonE mem_Collect_eq singletonD)
    then show ?thesis using 2 s c by (auto simp: resolve_column_def column_of_def)
  next
    case 3
    then have "card {i. has_column u scopes name i} \<ge> 2" using count by simp
    then have "card {i. has_column u scopes name i} \<noteq> 1 \<and> (\<exists>i. has_column u scopes name i)" by (cases "\<exists>i. has_column u scopes name i") auto
    then show ?thesis using 3 by (auto simp: resolve_column_def split: prod.split)
  qed
qed

definition example_scopes :: "table_scope list" where
  "example_scopes = [\<lparr>sc_ordinal = 0, sc_alias = [116], sc_table = example_table\<rparr>, \<lparr>sc_ordinal = 1, sc_alias = [117], sc_table = example_table\<rparr>]"

theorem unqualified_name_unique_witness:
  "AmbiguousColumnError = (if \<exists>i. has_column ascii_tables example_scopes [97] i then AmbiguousColumnError else ColumnNotFoundError)
   \<and> card {i. has_column ascii_tables example_scopes [97] i} \<noteq> 1"
proof -
  have "resolve_column ascii_tables example_scopes [97] None = Inl AmbiguousColumnError" by code_simp
  moreover have "scopes_ok example_scopes" by (auto simp: scopes_ok_def example_scopes_def nth_Cons split: nat.split)
  ultimately show ?thesis using unqualified_name_unique [of example_scopes ascii_tables "[97]"] by simp
qed

section \<open>Row layouts\<close>

text \<open>The expression with every column replaced by its value in the row of its own table.\<close>

fun with_values :: "pyval list list \<Rightarrow> bound_expression \<Rightarrow> bound_expression" where
  "with_values rows (BoundLiteral v) = BoundLiteral v"
| "with_values rows (BoundColumn index name ty ordinal) = BoundLiteral (rows ! ordinal ! index)"
| "with_values rows (BoundUnaryOp oper e) = BoundUnaryOp oper (with_values rows e)"
| "with_values rows (BoundBinaryOp l oper r) = BoundBinaryOp (with_values rows l) oper (with_values rows r)"
| "with_values rows (BoundIsNull e negated) = BoundIsNull (with_values rows e) negated"

text \<open>\<open>flat\<close> has the row of every table with an offset, from that offset on.\<close>

definition lays_out :: "(nat \<Rightarrow> nat option) \<Rightarrow> pyval list list \<Rightarrow> pyval list \<Rightarrow> bool" where
  "lays_out offsets rows flat \<longleftrightarrow>
     (\<forall>ordinal start. offsets ordinal = Some start \<longrightarrow>
        start + length (rows ! ordinal) \<le> length flat \<and> take (length (rows ! ordinal)) (drop start flat) = rows ! ordinal)"

lemma lays_out_nth:
  assumes "lays_out offsets rows flat" and "offsets ordinal = Some start" and "index < length (rows ! ordinal)"
  shows "start + index < length flat" and "flat ! (start + index) = rows ! ordinal ! index"
proof -
  have l: "start + length (rows ! ordinal) \<le> length flat" "take (length (rows ! ordinal)) (drop start flat) = rows ! ordinal"
    using assms by (auto simp: lays_out_def)
  then show "start + index < length flat" using assms(3) by simp
  have "rows ! ordinal ! index = take (length (rows ! ordinal)) (drop start flat) ! index" using l(2) by simp
  then show "flat ! (start + index) = rows ! ordinal ! index" using assms(3) l(1) by simp
qed

text \<open>
  C25. \<^verbatim>\<open>resolve_layout\<close> is right for every join order: when the flat row has each table's row at its offset and the
  expression refers to columns of tables with an offset, the rewriting succeeds and the rewritten expression gives on
  the flat row the value (or the error) the expression has with each column read from its own table's row.
\<close>

theorem resolve_layout_correct:
  assumes "lays_out offsets rows flat"
    and "columns_ok (\<lambda>ordinal index. offsets ordinal \<noteq> None \<and> index < length (rows ! ordinal)) e"
  shows "\<exists>e'. resolve_layout e offsets = Inr e' \<and> within (length flat) e' \<and> evaluate e' flat = evaluate (with_values rows e) []"
  using assms(2)
proof (induction e)
  case (BoundColumn index name ty ordinal)
  then obtain start where "offsets ordinal = Some start" "index < length (rows ! ordinal)" by auto
  with lays_out_nth [OF assms(1) this] show ?case by simp
qed (auto cong: if_cong)

theorem resolve_layout_correct_witness:
  "\<exists>e'. resolve_layout (BoundBinaryOp (BoundColumn 0 [97] INTEGER_T 1) ''='' (BoundColumn 1 [98] TEXT_T 0)) [0 \<mapsto> 1, 1 \<mapsto> 0] = Inr e'
     \<and> within (length [VInt 9, VInt 4, VInt 5]) e' \<and> evaluate e' [VInt 9, VInt 4, VInt 5]
       = evaluate (with_values [[VInt 4, VInt 5], [VInt 9]] (BoundBinaryOp (BoundColumn 0 [97] INTEGER_T 1) ''='' (BoundColumn 1 [98] TEXT_T 0))) []"
  by (rule resolve_layout_correct) (auto simp: lays_out_def split: if_splits)

text \<open>
  HAVING in a SELECT without GROUP BY, and without an aggregate call at the top of its select list, is dropped:
  whatever it says, the statement binds to the same thing.
\<close>

theorem having_ignored:
  assumes "se_joins st = []" and "\<not> select_needs_aggregation u st"
  shows "bind_statement u p get_table (Select (st\<lparr>se_having := having\<rparr>)) args = bind_statement u p get_table (Select st) args"
  using assms by (simp add: bind_statement_def bind_body_def bind_select_def select_needs_aggregation_def)

theorem having_ignored_witness:
  "bind_statement ascii_tables plain_text (\<lambda>name. Inr example_table) (Select (example_select\<lparr>se_having := Some (Literal (VInt 0))\<rparr>)) [Storable (VInt 7)]
   = bind_statement ascii_tables plain_text (\<lambda>name. Inr example_table) (Select example_select) [Storable (VInt 7)]"
  by (rule having_ignored) (simp_all add: example_select_def select_needs_aggregation_def)

end
