(* ===== verification/Predicates.thy ===== *)
theory Predicates
  imports Resolution
begin

text \<open>
  Sargability, \<^verbatim>\<open>src/src/quilldb/plan/predicates.py\<close>: the conjuncts of a condition, and which of them compare a
  column with a value that needs no row.
\<close>

section \<open>Definitions\<close>

definition SARGABLE_COMPARISONS :: "string list" where
  "SARGABLE_COMPARISONS = [''='', ''<'', ''<='', ''>'', ''>='']"

definition flipped :: "string \<Rightarrow> string" where
  "flipped oper =
     (if oper = ''<'' then ''>'' else if oper = ''<='' then ''>='' else if oper = ''>'' then ''<'' else if oper = ''>='' then ''<='' else oper)"

record predicate =
  pr_column :: ustr
  pr_operator :: string
  pr_value :: bound_expression
  pr_source :: bound_expression
  pr_table_ordinal :: nat

fun conjuncts :: "bound_expression \<Rightarrow> bound_expression list" where
  "conjuncts (BoundBinaryOp l oper r) = (if oper = ''AND'' then conjuncts l @ conjuncts r else [BoundBinaryOp l oper r])"
| "conjuncts e = [e]"

definition extract_conjuncts :: "bound_expression option \<Rightarrow> bound_expression list" where
  "extract_conjuncts w = (case w of None \<Rightarrow> [] | Some e \<Rightarrow> conjuncts e)"

fun is_free_of :: "bound_expression \<Rightarrow> nat \<Rightarrow> bool" where
  "is_free_of (BoundColumn index name ty table_ordinal) k \<longleftrightarrow> table_ordinal \<noteq> k"
| "is_free_of (BoundLiteral v) k \<longleftrightarrow> True"
| "is_free_of (BoundUnaryOp oper e) k \<longleftrightarrow> is_free_of e k"
| "is_free_of (BoundBinaryOp l oper r) k \<longleftrightarrow> is_free_of l k \<and> is_free_of r k"
| "is_free_of (BoundIsNull e negated) k \<longleftrightarrow> is_free_of e k"

fun referenced_tables :: "bound_expression \<Rightarrow> nat set" where
  "referenced_tables (BoundColumn index name ty table_ordinal) = {table_ordinal}"
| "referenced_tables (BoundLiteral v) = {}"
| "referenced_tables (BoundUnaryOp oper e) = referenced_tables e"
| "referenced_tables (BoundBinaryOp l oper r) = referenced_tables l \<union> referenced_tables r"
| "referenced_tables (BoundIsNull e negated) = referenced_tables e"

text \<open>The name of a column of table \<open>k\<close> standing alone.\<close>

definition bare_column :: "bound_expression \<Rightarrow> nat \<Rightarrow> ustr option" where
  "bare_column e k = (case e of BoundColumn index name ty table_ordinal \<Rightarrow> if table_ordinal = k then Some name else None | _ \<Rightarrow> None)"

definition classify_comparison :: "bound_expression \<Rightarrow> string \<Rightarrow> bound_expression \<Rightarrow> nat \<Rightarrow> predicate option" where
  "classify_comparison l oper r k =
     (let source = BoundBinaryOp l oper r in
      case (bare_column l k, is_free_of r k) of
        (Some name, True) \<Rightarrow> Some \<lparr>pr_column = name, pr_operator = oper, pr_value = r, pr_source = source, pr_table_ordinal = k\<rparr>
      | _ \<Rightarrow>
          (case (bare_column r k, is_free_of l k) of
             (Some name, True) \<Rightarrow>
               Some \<lparr>pr_column = name, pr_operator = flipped oper, pr_value = l, pr_source = source, pr_table_ordinal = k\<rparr>
           | _ \<Rightarrow> None))"

definition classify_like :: "bound_expression \<Rightarrow> bound_expression \<Rightarrow> nat \<Rightarrow> predicate option" where
  "classify_like l r k =
     (case (bare_column l k, r) of
        (Some name, BoundLiteral (VText pattern)) \<Rightarrow>
          if pattern \<noteq> [] \<and> (hd pattern = 37 \<or> hd pattern = 95) then None
          else Some \<lparr>pr_column = name, pr_operator = ''LIKE'', pr_value = r, pr_source = BoundBinaryOp l ''LIKE'' r, pr_table_ordinal = k\<rparr>
      | _ \<Rightarrow> None)"

fun classify_predicate :: "bound_expression \<Rightarrow> nat \<Rightarrow> predicate option" where
  "classify_predicate (BoundIsNull operand negated) k =
     (case bare_column operand k of
        Some name \<Rightarrow>
          if negated then None
          else Some \<lparr>pr_column = name, pr_operator = ''IS'', pr_value = BoundLiteral VNull,
                     pr_source = BoundIsNull operand negated, pr_table_ordinal = k\<rparr>
      | None \<Rightarrow> None)"
| "classify_predicate (BoundBinaryOp l oper r) k =
     (if oper = ''LIKE'' then classify_like l r k
      else if oper \<notin> set SARGABLE_COMPARISONS then None
      else classify_comparison l oper r k)"
| "classify_predicate e k = None"

text \<open>\<^verbatim>\<open>_extract_predicates\<close> of \<^verbatim>\<open>exec/operators.py\<close>: the sargable conjuncts, and the others.\<close>

definition extract_predicates :: "bound_expression option \<Rightarrow> predicate list \<times> bound_expression list" where
  "extract_predicates w =
     (List.map_filter (\<lambda>c. classify_predicate c 0) (extract_conjuncts w), filter (\<lambda>c. classify_predicate c 0 = None) (extract_conjuncts w))"

text \<open>\<^verbatim>\<open>_and_all\<close>: left to right, nothing for none.\<close>

definition and_all :: "bound_expression list \<Rightarrow> bound_expression option" where
  "and_all es = (case es of [] \<Rightarrow> None | e # rest \<Rightarrow> Some (foldl (\<lambda>a b. BoundBinaryOp a ''AND'' b) e rest))"

definition residual_filter_expression :: "bound_expression list \<Rightarrow> predicate list \<Rightarrow> bound_expression option" where
  "residual_filter_expression non_sargable residual = and_all (non_sargable @ map pr_source residual)"

section \<open>Rows that pass\<close>

definition passes :: "pyval list \<Rightarrow> bound_expression \<Rightarrow> bool" where
  "passes row e \<longleftrightarrow> (case evaluate e row of Inr v \<Rightarrow> where_passes v | Inl x \<Rightarrow> False)"

definition evaluates :: "pyval list \<Rightarrow> bound_expression \<Rightarrow> bool" where
  "evaluates row e \<longleftrightarrow> (\<exists>v. evaluate e row = Inr v)"

lemma passes_iff: "passes row e \<longleftrightarrow> (\<exists>v. evaluate e row = Inr v \<and> truth v = Some True)"
  by (simp add: passes_def where_truth split: sum.split)

lemma passes_and:
  assumes "evaluates row l" and "evaluates row r"
  shows "evaluates row (BoundBinaryOp l ''AND'' r) \<and> (passes row (BoundBinaryOp l ''AND'' r) \<longleftrightarrow> passes row l \<and> passes row r)"
proof -
  obtain v w where e: "evaluate l row = Inr v" "evaluate r row = Inr w" using assms by (auto simp: evaluates_def)
  show ?thesis
    using e by (cases "truth v"; cases "truth w") (auto simp: evaluates_def passes_iff logic_result_def Let_def)
qed

lemma passes_conjuncts:
  assumes "\<forall>c \<in> set (conjuncts e). evaluates row c"
  shows "evaluates row e \<and> (passes row e \<longleftrightarrow> (\<forall>c \<in> set (conjuncts e). passes row c))"
  using assms
proof (induction e)
  case (BoundBinaryOp l oper r)
  show ?case
  proof (cases "oper = ''AND''")
    case True
    then have "evaluates row l \<and> (passes row l \<longleftrightarrow> (\<forall>c \<in> set (conjuncts l). passes row c))"
      "evaluates row r \<and> (passes row r \<longleftrightarrow> (\<forall>c \<in> set (conjuncts r). passes row c))"
      using BoundBinaryOp by auto
    then show ?thesis using passes_and [of row l r] True by auto
  next
    case False
    then show ?thesis using BoundBinaryOp.prems by simp
  qed
qed auto

definition passes_opt :: "pyval list \<Rightarrow> bound_expression option \<Rightarrow> bool" where
  "passes_opt row e \<longleftrightarrow> (case e of None \<Rightarrow> True | Some x \<Rightarrow> passes row x)"

lemma passes_where:
  "\<forall>c \<in> set (extract_conjuncts w). evaluates row c
   \<Longrightarrow> passes_opt row w \<longleftrightarrow> (\<forall>c \<in> set (extract_conjuncts w). passes row c)"
  by (cases w) (auto simp: passes_opt_def extract_conjuncts_def dest: passes_conjuncts)

lemma passes_fold:
  assumes "\<forall>c \<in> set (e # es). evaluates row c"
  shows "evaluates row (foldl (\<lambda>a b. BoundBinaryOp a ''AND'' b) e es)
    \<and> (passes row (foldl (\<lambda>a b. BoundBinaryOp a ''AND'' b) e es) \<longleftrightarrow> (\<forall>c \<in> set (e # es). passes row c))"
  using assms
proof (induction es arbitrary: e)
  case (Cons x es)
  have "evaluates row e" "evaluates row x" using Cons.prems by simp_all
  note a = passes_and [OF this]
  then have "\<forall>c \<in> set (BoundBinaryOp e ''AND'' x # es). evaluates row c" using Cons.prems by simp
  from Cons.IH [OF this] a show ?case by simp
qed auto

lemma passes_and_all: "\<forall>c \<in> set es. evaluates row c \<Longrightarrow> passes_opt row (and_all es) \<longleftrightarrow> (\<forall>c \<in> set es. passes row c)"
  by (cases es) (use passes_fold [of "hd es" "tl es" row] in \<open>simp_all add: and_all_def passes_opt_def\<close>)

section \<open>What a sargable predicate says\<close>

text \<open>Expressions over the columns of one table, under the names the table gives them.\<close>

fun of_table :: "table_schema \<Rightarrow> bound_expression \<Rightarrow> bool" where
  "of_table table (BoundColumn index name ty ordinal) \<longleftrightarrow>
     ordinal = 0 \<and> index < length (ts_columns table) \<and> name = cs_name (ts_columns table ! index)"
| "of_table table (BoundLiteral v) \<longleftrightarrow> True"
| "of_table table (BoundUnaryOp oper e) \<longleftrightarrow> of_table table e"
| "of_table table (BoundBinaryOp l oper r) \<longleftrightarrow> of_table table l \<and> of_table table r"
| "of_table table (BoundIsNull e negated) \<longleftrightarrow> of_table table e"

lemma of_table_conjuncts: "of_table table e \<Longrightarrow> c \<in> set (conjuncts e) \<Longrightarrow> of_table table c"
  by (induction e) (auto split: if_splits)

lemma free_value: "of_table table e \<Longrightarrow> is_free_of e 0 \<Longrightarrow> evaluate e row = evaluate e row'"
  by (induction e) (simp_all cong: if_cong)

text \<open>The comparison of a column's value with another, by the order of values; never true of a NULL but for \<^verbatim>\<open>IS\<close>.\<close>

definition term_holds :: "string \<Rightarrow> pyval \<Rightarrow> pyval \<Rightarrow> bool" where
  "term_holds oper x v \<longleftrightarrow>
     (if oper = ''IS'' then x = VNull
      else x \<noteq> VNull \<and> v \<noteq> VNull \<and>
       (if oper = ''='' then key_place x = key_place v else if oper = ''<'' then key_place x < key_place v
        else if oper = ''<='' then key_place x \<le> key_place v else if oper = ''>'' then key_place v < key_place x
        else key_place v \<le> key_place x))"

lemma compare_op_place:
  assumes "no_nan a" and "no_nan b" and "a \<noteq> VNull" and "b \<noteq> VNull"
  shows "compare_op oper a b = apply_ordering oper (key_place a = key_place b) (key_place a < key_place b) (key_place b < key_place a)"
  using assms by (cases a; cases b) (auto simp: compare_op_def num_eq_def num_less_def)

lemma strict_comparison:
  assumes "oper \<in> set SARGABLE_COMPARISONS" and "no_nan a" and "no_nan b"
  shows "(\<exists>v. strict_op oper a b = Inr v \<and> where_passes v) \<longleftrightarrow> term_holds oper a b"
proof (cases "a = VNull \<or> b = VNull")
  case True
  have "oper \<noteq> ''IS''" using assms(1) by (auto simp: SARGABLE_COMPARISONS_def)
  then show ?thesis using True by (auto simp: strict_op_def term_holds_def where_truth)
next
  case False
  then have "oper \<in> set COMPARISONS" "oper \<noteq> ''LIKE''" "oper \<noteq> ''IS''" using assms(1) by (auto simp: SARGABLE_COMPARISONS_def COMPARISONS_def)
  then have "strict_op oper a b = map_sum id of_bool_int (compare_op oper a b)" using False by (simp add: strict_op_def)
  then show ?thesis using False assms compare_op_place [OF assms(2,3), of oper]
    by (auto simp: SARGABLE_COMPARISONS_def apply_ordering_def term_holds_def where_truth)
qed

lemma term_holds_flipped: "oper \<in> set SARGABLE_COMPARISONS \<Longrightarrow> term_holds (flipped oper) b a \<longleftrightarrow> term_holds oper a b"
  by (auto simp: SARGABLE_COMPARISONS_def flipped_def term_holds_def)

lemma bare_column_Some: "bare_column e k = Some name \<longleftrightarrow> (\<exists>index ty. e = BoundColumn index name ty k)"
  by (auto simp: bare_column_def split: bound_expression.splits if_splits)

lemma classify_shape:
  assumes "classify_predicate e k = Some p"
  obtains (null) index ty where "e = BoundIsNull (BoundColumn index (pr_column p) ty k) False" "pr_operator p = ''IS''" "pr_value p = BoundLiteral VNull"
  | (like) index ty where "e = BoundBinaryOp (BoundColumn index (pr_column p) ty k) ''LIKE'' (pr_value p)" "pr_operator p = ''LIKE''"
  | (left) index ty where "e = BoundBinaryOp (BoundColumn index (pr_column p) ty k) (pr_operator p) (pr_value p)"
      "pr_operator p \<in> set SARGABLE_COMPARISONS" "is_free_of (pr_value p) k"
  | (right) index ty oper where "e = BoundBinaryOp (pr_value p) oper (BoundColumn index (pr_column p) ty k)" "pr_operator p = flipped oper"
      "oper \<in> set SARGABLE_COMPARISONS" "is_free_of (pr_value p) k"
proof (cases e)
  case (BoundBinaryOp l oper r)
  show thesis
  proof (cases "oper = ''LIKE''")
    case True
    then show thesis using assms BoundBinaryOp
      by (auto simp: classify_like_def bare_column_Some split: option.splits bound_expression.splits pyval.splits if_splits intro!: like)
  next
    case False
    then have "oper \<in> set SARGABLE_COMPARISONS" "classify_comparison l oper r k = Some p" using assms BoundBinaryOp by (auto split: if_splits)
    then show thesis using BoundBinaryOp
      by (auto simp: classify_comparison_def Let_def bare_column_Some split: option.splits bool.splits intro: left right)
  qed
qed (use assms in \<open>auto simp: bare_column_Some split: option.splits if_splits intro!: null\<close>)

lemma classify_source: "classify_predicate e k = Some p \<Longrightarrow> pr_source p = e \<and> pr_table_ordinal p = k"
  by (cases e) (auto simp: classify_like_def classify_comparison_def Let_def split: option.splits bound_expression.splits pyval.splits if_splits bool.splits)

lemma sargable_row:
  assumes "classify_predicate e 0 = Some p" and "of_table table e" and "pr_operator p \<noteq> ''LIKE''"
    and "evaluate (pr_value p) [] = Inr v" and "no_nan v"
    and "length row = length (ts_columns table)" and "\<forall>x \<in> set row. no_nan x"
  shows "\<exists>index < length (ts_columns table). pr_column p = cs_name (ts_columns table ! index)
    \<and> evaluate (pr_value p) row = Inr v \<and> (passes row e \<longleftrightarrow> term_holds (pr_operator p) (row ! index) v)"
proof -
  have nn: "no_nan (row ! index)" if "index < length (ts_columns table)" for index using assms(6,7) that by simp
  note ops = strict_comparison [unfolded where_truth]
  have binary: "passes row (BoundBinaryOp l oper r) \<longleftrightarrow> term_holds oper a b"
    if "evaluate l row = Inr a" "evaluate r row = Inr b" "oper \<in> set SARGABLE_COMPARISONS" "no_nan a" "no_nan b" for l oper r a b
    using that ops [OF that(3-5)] by (auto simp: passes_iff SARGABLE_COMPARISONS_def)
  from assms(1) show ?thesis
  proof (cases rule: classify_shape)
    case (null index ty)
    then show ?thesis using assms(2,4,6) by (intro exI [of _ index]) (auto simp: passes_iff term_holds_def)
  next
    case (left index ty)
    then have "evaluate (pr_value p) row = Inr v" using assms(2,4) free_value [of table "pr_value p" row "[]"] by simp
    then show ?thesis using left assms(2,5,6) nn by (intro exI [of _ index]) (auto simp: binary)
  next
    case (right index ty oper)
    then have v: "evaluate (pr_value p) row = Inr v" using assms(2,4) free_value [of table "pr_value p" row "[]"] by simp
    have "passes row e \<longleftrightarrow> term_holds oper v (row ! index)"
      unfolding right(1) by (rule binary) (use right v assms(2,5,6) nn in auto)
    then show ?thesis using right v assms(2) term_holds_flipped [OF right(3)] by (intro exI [of _ index]) auto
  qed (use assms(3) in simp)
qed

text \<open>
  C1. A predicate found sargable, unless it is a LIKE, holds of a row exactly when the row's column stands to the value as the
  normalized operator says, by the order the index keys have: written on either side, \<^verbatim>\<open>=\<close>, \<^verbatim>\<open><\<close>, \<^verbatim>\<open><=\<close>, \<^verbatim>\<open>>\<close>, \<^verbatim>\<open>>=\<close>
  never hold when one of the two is NULL, \<^verbatim>\<open>IS NULL\<close> holds of NULL alone; and the value needs no row.
\<close>

theorem classify_predicate_correct:
  assumes "classify_predicate e 0 = Some p" and "of_table table e" and "pr_operator p \<noteq> ''LIKE''"
    and "evaluate (pr_value p) [] = Inr v" and "no_nan v"
    and "length row = length (ts_columns table)" and "\<forall>x \<in> set row. no_nan x"
  shows "\<exists>index < length (ts_columns table). pr_column p = cs_name (ts_columns table ! index)
    \<and> evaluate (pr_value p) row = Inr v \<and> (passes row e \<longleftrightarrow> term_holds (pr_operator p) (row ! index) v)"
  by (rule sargable_row [OF assms])

lemma example_classified:
  "classify_predicate (BoundBinaryOp (BoundLiteral (VInt 7)) ''<'' (BoundColumn 0 [97] INTEGER_T 0)) 0 =
     Some \<lparr>pr_column = [97], pr_operator = ''>'', pr_value = BoundLiteral (VInt 7),
       pr_source = BoundBinaryOp (BoundLiteral (VInt 7)) ''<'' (BoundColumn 0 [97] INTEGER_T 0), pr_table_ordinal = 0\<rparr>"
  by (simp add: classify_comparison_def bare_column_def SARGABLE_COMPARISONS_def flipped_def)

theorem classify_predicate_correct_witness:
  "\<exists>index < length (ts_columns example_table). [97] = cs_name (ts_columns example_table ! index)
    \<and> evaluate (BoundLiteral (VInt 7)) [VInt 9, VNull] = Inr (VInt 7)
    \<and> (passes [VInt 9, VNull] (BoundBinaryOp (BoundLiteral (VInt 7)) ''<'' (BoundColumn 0 [97] INTEGER_T 0)) \<longleftrightarrow> term_holds ''>'' ([VInt 9, VNull] ! index) (VInt 7))"
  using classify_predicate_correct [OF example_classified, of example_table "VInt 7" "[VInt 9, VNull]"] by (simp add: example_table_def)

end
