(* ===== verification/AccessPath.thy ===== *)
theory AccessPath
  imports Predicates
begin

text \<open>
  Access paths, \<^verbatim>\<open>src/src/quilldb/plan/planner.py\<close>, and what an index scan asks its index for, \<^verbatim>\<open>IndexScan\<close> of
  \<^verbatim>\<open>src/src/quilldb/exec/operators.py\<close>. A path's estimates and cost are left out: whatever they are, the path chosen is
  one of those listed here. Predicates are told apart by their place in the list, as the code tells them by identity.
\<close>

section \<open>Definitions\<close>

record sort_key =
  sk_expression :: bound_expression
  sk_descending :: bool

text \<open>An index scan has an index, a sequential scan none.\<close>

record access_path =
  ap_index :: "index_schema option"
  ap_seek_terms :: "predicate list"
  ap_residual :: "predicate list"
  ap_output_order :: "sort_key list"
  ap_reverse :: bool

definition seq_scan_path :: "predicate list \<Rightarrow> access_path" where
  "seq_scan_path predicates =
     \<lparr>ap_index = None, ap_seek_terms = [], ap_residual = predicates, ap_output_order = [], ap_reverse = False\<rparr>"

definition is_equality :: "predicate \<Rightarrow> bool" where
  "is_equality p \<longleftrightarrow> pr_operator p = ''='' \<or> pr_operator p = ''IS''"

fun seek_prefix :: "ustr list \<Rightarrow> (nat \<times> predicate) list \<Rightarrow> (nat \<times> predicate) list" where
  "seek_prefix [] ps = []"
| "seek_prefix (column # columns) ps =
     (let column_predicates = filter (\<lambda>p. pr_column (snd p) = column) ps;
          equalities = filter (\<lambda>p. is_equality (snd p)) column_predicates;
          inequalities = filter (\<lambda>p. \<not> is_equality (snd p)) column_predicates in
      if column_predicates = [] then []
      else equalities @ (if inequalities = [] then seek_prefix columns ps else take 2 inequalities))"

definition match_index_prefix :: "index_schema \<Rightarrow> predicate list \<Rightarrow> access_path option" where
  "match_index_prefix index predicates =
     (let numbered = zip [0..<length predicates] predicates;
          seek_terms = seek_prefix (is_columns index) numbered in
      if seek_terms = [] then None
      else Some \<lparr>ap_index = Some index, ap_seek_terms = map snd seek_terms,
                 ap_residual = map snd (filter (\<lambda>p. fst p \<notin> set (map fst seek_terms)) numbered), ap_output_order = [], ap_reverse = False\<rparr>)"

definition index_order_path :: "char_tables \<Rightarrow> index_schema \<Rightarrow> predicate list \<Rightarrow> table_schema \<Rightarrow> nat \<Rightarrow> bool \<Rightarrow> access_path res" where
  "index_order_path u index predicates table table_ordinal reverse =
     bind_res (map_res (\<lambda>name. bind_res (column_index u table name) (\<lambda>i.
         Inr \<lparr>sk_expression = BoundColumn i name (cs_data_type (ts_columns table ! i)) table_ordinal, sk_descending = reverse\<rparr>)) (is_columns index))
       (\<lambda>output_order. Inr \<lparr>ap_index = Some index, ap_seek_terms = [], ap_residual = predicates, ap_output_order = output_order,
                           ap_reverse = reverse\<rparr>)"

definition index_paths :: "char_tables \<Rightarrow> table_schema \<Rightarrow> predicate list \<Rightarrow> nat \<Rightarrow> index_schema \<Rightarrow> access_path list res" where
  "index_paths u table predicates table_ordinal index =
     (case match_index_prefix index predicates of
        Some path \<Rightarrow> Inr [path]
      | None \<Rightarrow>
          bind_res (index_order_path u index predicates table table_ordinal False) (\<lambda>forward.
          bind_res (index_order_path u index predicates table table_ordinal True) (\<lambda>backward. Inr [forward, backward])))"

definition enumerate_access_paths :: "char_tables \<Rightarrow> table_schema \<Rightarrow> index_schema list \<Rightarrow> predicate list \<Rightarrow> nat \<Rightarrow> access_path list res" where
  "enumerate_access_paths u table indexes predicates table_ordinal =
     bind_res (map_res (index_paths u table predicates table_ordinal) indexes) (\<lambda>paths. Inr (seq_scan_path predicates # concat paths))"

text \<open>The plan cache's view of a path; rebuilding one whose index is gone raises \<^verbatim>\<open>StopIteration\<close>, here \<open>None\<close>.\<close>

record plan_shape =
  ps_index_name :: "ustr option"
  ps_reverse :: bool

definition access_path_shape :: "access_path \<Rightarrow> plan_shape" where
  "access_path_shape path = \<lparr>ps_index_name = map_option is_name (ap_index path), ps_reverse = ap_reverse path\<rparr>"

definition rebuild_access_path ::
  "char_tables \<Rightarrow> plan_shape \<Rightarrow> table_schema \<Rightarrow> index_schema list \<Rightarrow> predicate list \<Rightarrow> nat \<Rightarrow> access_path res option" where
  "rebuild_access_path u shape table indexes predicates table_ordinal =
     (case ps_index_name shape of
        None \<Rightarrow> Some (Inr (seq_scan_path predicates))
      | Some name \<Rightarrow>
          map_option (\<lambda>index. case match_index_prefix index predicates of
                  Some path \<Rightarrow> Inr path
                | None \<Rightarrow> index_order_path u index predicates table table_ordinal (ps_reverse shape))
            (find (\<lambda>i. is_name i = name) indexes))"

text \<open>\<^verbatim>\<open>PlanCache\<close>: shapes by SQL text, each with the schema cookie it was planned under.\<close>

type_synonym plan_cache = "ustr \<rightharpoonup> nat \<times> plan_shape"

definition cache_get :: "plan_cache \<Rightarrow> ustr \<Rightarrow> nat \<Rightarrow> plan_shape option" where
  "cache_get cache sql schema_cookie =
     (case cache sql of None \<Rightarrow> None | Some (cookie, shape) \<Rightarrow> if cookie \<noteq> schema_cookie then None else Some shape)"

definition cache_put :: "plan_cache \<Rightarrow> ustr \<Rightarrow> nat \<Rightarrow> plan_shape \<Rightarrow> plan_cache" where
  "cache_put cache sql schema_cookie shape = cache(sql \<mapsto> (schema_cookie, shape))"

text \<open>What \<^verbatim>\<open>IndexScan.open\<close> asks of the index.\<close>

datatype seek_request =
    NoRows
  | ScanReverse
  | SeekEq "pyval list"
  | SeekRange "pyval list option" "pyval list option" bool bool

definition seek_value :: "predicate \<Rightarrow> pyval list \<Rightarrow> pyval res" where
  "seek_value p outer_row = evaluate (pr_value p) outer_row"

fun null_seek :: "predicate list \<Rightarrow> pyval list \<Rightarrow> bool res" where
  "null_seek [] outer_row = Inr False"
| "null_seek (p # ps) outer_row =
     bind_res (seek_value p outer_row) (\<lambda>v. if v = VNull \<and> pr_operator p \<noteq> ''IS'' then Inr True else null_seek ps outer_row)"

record seek_bounds =
  sb_low :: "pyval list"
  sb_high :: "pyval list"
  sb_low_inclusive :: bool
  sb_high_inclusive :: bool

definition tighten :: "pyval list \<Rightarrow> predicate \<Rightarrow> seek_bounds \<Rightarrow> seek_bounds res" where
  "tighten outer_row p b =
     bind_res (seek_value p outer_row) (\<lambda>v.
       if pr_operator p = ''<'' \<or> pr_operator p = ''<=''
       then if sb_high b = [] then Inr (b\<lparr>sb_high := [v], sb_high_inclusive := (pr_operator p = ''<='')\<rparr>)
            else bind_res (compare_keys [v] (sb_high b)) (\<lambda>c.
              if c < 0 then Inr (b\<lparr>sb_high := [v], sb_high_inclusive := (pr_operator p = ''<='')\<rparr>)
              else if c = 0 \<and> pr_operator p = ''<'' then Inr (b\<lparr>sb_high_inclusive := False\<rparr>) else Inr b)
       else if pr_operator p = ''>'' \<or> pr_operator p = ''>=''
       then if sb_low b = [] then Inr (b\<lparr>sb_low := [v], sb_low_inclusive := (pr_operator p = ''>='')\<rparr>)
            else bind_res (compare_keys [v] (sb_low b)) (\<lambda>c.
              if 0 < c then Inr (b\<lparr>sb_low := [v], sb_low_inclusive := (pr_operator p = ''>='')\<rparr>)
              else if c = 0 \<and> pr_operator p = ''>'' then Inr (b\<lparr>sb_low_inclusive := False\<rparr>) else Inr b)
       else Inr b)"

fun tighten_all :: "pyval list \<Rightarrow> predicate list \<Rightarrow> seek_bounds \<Rightarrow> seek_bounds res" where
  "tighten_all outer_row [] b = Inr b"
| "tighten_all outer_row (p # ps) b = bind_res (tighten outer_row p b) (tighten_all outer_row ps)"

definition seek_range_request :: "predicate list \<Rightarrow> pyval list \<Rightarrow> seek_request res" where
  "seek_range_request terms outer_row =
     bind_res (map_res (\<lambda>p. seek_value p outer_row) (filter is_equality terms)) (\<lambda>equality_prefix.
     bind_res (tighten_all outer_row terms \<lparr>sb_low = [], sb_high = [], sb_low_inclusive = True, sb_high_inclusive = True\<rparr>) (\<lambda>b.
       Inr (SeekRange (if equality_prefix @ sb_low b = [] then None else Some (equality_prefix @ sb_low b))
              (if equality_prefix @ sb_high b = [] then None else Some (equality_prefix @ sb_high b)) (sb_low_inclusive b) (sb_high_inclusive b))))"

definition index_scan_request :: "access_path \<Rightarrow> pyval list \<Rightarrow> seek_request res" where
  "index_scan_request path outer_row =
     (let terms = ap_seek_terms path in
      bind_res (null_seek terms outer_row) (\<lambda>no_rows.
        if no_rows then Inr NoRows
        else if list_all is_equality terms
        then if terms = [] \<and> ap_reverse path then Inr ScanReverse
             else bind_res (map_res (\<lambda>p. seek_value p outer_row) terms) (\<lambda>vs. Inr (SeekEq vs))
        else seek_range_request terms outer_row))"

text \<open>
  The generators of \<^verbatim>\<open>IndexBTree\<close>, over the entries they walk: \<open>from probe\<close> are those the walk from the probe's place
  gives, \<open>forward\<close> and \<open>backward\<close> the whole index.
\<close>

record index_reader =
  ir_from :: "pyval list \<Rightarrow> pyval list list"
  ir_forward :: "pyval list list"
  ir_backward :: "pyval list list"

definition rowid_of :: "pyval list \<Rightarrow> pyval" where
  "rowid_of key = last key"

fun seek_eq_walk :: "pyval list \<Rightarrow> pyval list list \<Rightarrow> pyval list res" where
  "seek_eq_walk probe [] = Inr []"
| "seek_eq_walk probe (stored # rest) =
     bind_res (compare_keys probe stored) (\<lambda>c. if c \<noteq> 0 then Inr [] else bind_res (seek_eq_walk probe rest) (\<lambda>ids. Inr (rowid_of stored # ids)))"

definition seek_eq :: "index_reader \<Rightarrow> pyval list \<Rightarrow> pyval list res" where
  "seek_eq ir probe = seek_eq_walk probe (ir_from ir probe)"

fun seek_range_walk :: "pyval list option \<Rightarrow> pyval list option \<Rightarrow> bool \<Rightarrow> bool \<Rightarrow> pyval list list \<Rightarrow> pyval list res" where
  "seek_range_walk low high li hi [] = Inr []"
| "seek_range_walk low high li hi (stored # rest) =
     bind_res (case low of None \<Rightarrow> Inr False | Some l \<Rightarrow> if li then Inr False else bind_res (compare_keys l stored) (\<lambda>c. Inr (c = 0))) (\<lambda>below.
       if below then seek_range_walk low high li hi rest
       else bind_res (case high of None \<Rightarrow> Inr False | Some h \<Rightarrow> bind_res (compare_keys h stored) (\<lambda>c. Inr (c < 0 \<or> c = 0 \<and> \<not> hi))) (\<lambda>above.
         if above then Inr []
         else bind_res (seek_range_walk low high li hi rest) (\<lambda>ids. Inr (rowid_of stored # ids))))"

definition seek_range :: "index_reader \<Rightarrow> pyval list option \<Rightarrow> pyval list option \<Rightarrow> bool \<Rightarrow> bool \<Rightarrow> pyval list res" where
  "seek_range ir low high li hi =
     seek_range_walk low high li hi (case low of None \<Rightarrow> ir_forward ir | Some l \<Rightarrow> ir_from ir l)"

definition find_conflict :: "index_reader \<Rightarrow> pyval list \<Rightarrow> pyval option res" where
  "find_conflict ir vs =
     (if VNull \<in> set vs then Inr None
      else case ir_from ir vs of
        [] \<Rightarrow> Inr None
      | stored # rest \<Rightarrow> bind_res (compare_keys vs stored) (\<lambda>c. Inr (if c \<noteq> 0 then None else Some (rowid_of stored))))"

fun run_request :: "index_reader \<Rightarrow> seek_request \<Rightarrow> pyval list res" where
  "run_request ir NoRows = Inr []"
| "run_request ir ScanReverse = Inr (map rowid_of (ir_backward ir))"
| "run_request ir (SeekEq vs) = seek_eq ir vs"
| "run_request ir (SeekRange low high li hi) = seek_range ir low high li hi"

text \<open>
  The rows an index scan gives: each rowid is looked up in the table, one that is not there is passed over.
\<close>

definition index_scan_rows :: "index_reader \<Rightarrow> (pyval \<Rightarrow> pyval list option) \<Rightarrow> access_path \<Rightarrow> pyval list \<Rightarrow> pyval list list res" where
  "index_scan_rows ir lookup path outer_row =
     bind_res (index_scan_request path outer_row) (\<lambda>request.
     bind_res (run_request ir request) (\<lambda>ids. Inr (List.map_filter lookup ids)))"

end
