(* ===== verification/SeekSafety.thy ===== *)
theory SeekSafety
  imports AccessPath
begin

text \<open>
  When an index scan gives the rows a sequential scan gives: the order of index keys, what the generators yield on a
  sorted index, and what the bounds of a seek say.
\<close>

section \<open>The order of keys\<close>

definition places :: "pyval list \<Rightarrow> (nat \<times> extended \<times> ustr \<times> bytes) list" where
  "places = map key_place"

lemma places_simps [simp]: "places [] = []" "places (v # vs) = key_place v # places vs" "length (places vs) = length vs"
  "places (a @ b) = places a @ places b" "take n (places vs) = places (take n vs)"
  by (simp_all add: places_def take_map)

definition clean :: "pyval list \<Rightarrow> bool" where
  "clean vs \<longleftrightarrow> (\<forall>v \<in> set vs. no_nan v)"

lemma clean_simps [simp]: "clean []" "clean (v # vs) \<longleftrightarrow> no_nan v \<and> clean vs" "clean (a @ b) \<longleftrightarrow> clean a \<and> clean b"
  by (auto simp: clean_def)

lemma compare_keys_places:
  "clean probe \<Longrightarrow> clean key \<Longrightarrow> length probe \<le> length key
   \<Longrightarrow> compare_keys probe key = Inr (place_cmp (places probe) (places (take (length probe) key)))"
proof (induction probe key rule: compare_keys.induct)
  case (1 a as b bs)
  have ab: "no_nan a" "no_nan b" using "1.prems" by simp_all
  show ?case
  proof (cases "py_eq a b")
    case True
    then have "key_place a = key_place b" using py_eq_place [OF ab] by simp
    then show ?thesis using True "1.IH" "1.prems" by (simp add: place_cmp_def)
  next
    case False
    then have "key_place a \<noteq> key_place b" using py_eq_place [OF ab] by simp
    moreover have "compare_keys (a # as) (b # bs) = compare_keys [a] [b]" using False by simp
    ultimately show ?thesis using compare_one [OF ab] by (simp add: place_cmp_def del: compare_keys.simps)
  qed
qed (auto simp: place_cmp_def)

lemma take_lex_mono: "(xs :: 'a :: linorder list) \<le> ys \<Longrightarrow> take n xs \<le> take n ys"
proof (induction n arbitrary: xs ys)
  case (Suc n)
  then show ?case by (cases xs; cases ys) auto
qed simp

lemma snoc_lex:
  assumes "length e = length p"
  shows "e @ [v] \<le> p @ [x :: 'a :: linorder] \<longleftrightarrow> e < p \<or> e = p \<and> v \<le> x" and "e @ [v] < p @ [x] \<longleftrightarrow> e < p \<or> e = p \<and> v < x"
  using assms by (induction e p rule: list_induct2) auto

lemma snoc_lex_if:
  assumes "length e = length p"
  shows "(if i then e @ [v] \<le> p @ [x :: 'a :: linorder] else e @ [v] < p @ [x]) \<longleftrightarrow> e < p \<or> e = p \<and> (if i then v \<le> x else v < x)"
  using snoc_lex [OF assms] by simp

section \<open>Walks over a sorted index\<close>

text \<open>A reader of the index whose keys, in order, are \<open>entries\<close>, each of \<open>width\<close> columns and a rowid.\<close>

definition reads_index :: "index_reader \<Rightarrow> pyval list list \<Rightarrow> nat \<Rightarrow> bool" where
  "reads_index ir entries width \<longleftrightarrow>
     sorted (map places entries) \<and> (\<forall>key \<in> set entries. clean key \<and> length key = width + 1)
   \<and> ir_forward ir = entries \<and> ir_backward ir = rev entries
   \<and> (\<forall>probe. clean probe \<longrightarrow> length probe \<le> width + 1
        \<longrightarrow> ir_from ir probe = dropWhile (\<lambda>key. places (take (length probe) key) < places probe) entries)"

lemma sorted_drop:
  fixes x :: "'b :: linorder"
  shows "sorted (map f xs) \<Longrightarrow> dropWhile (\<lambda>k. f k < x) xs = filter (\<lambda>k. x \<le> f k) xs"
proof (induction xs)
  case (Cons y ys)
  show ?case
  proof (cases "f y < x")
    case False
    then have "filter (\<lambda>k. x \<le> f k) ys = ys" using Cons.prems by (auto simp: filter_id_conv intro: order_trans)
    then show ?thesis using False by simp
  qed (use Cons in simp)
qed simp

lemma sorted_cut:
  fixes x :: "'b :: linorder"
  assumes "sorted (map f xs)"
  shows "takeWhile (\<lambda>k. f k \<le> x) xs = filter (\<lambda>k. f k \<le> x) xs"
  using assms
proof (induction xs)
  case (Cons y ys)
  show ?case
  proof (cases "f y \<le> x")
    case False
    then have "filter (\<lambda>k. f k \<le> x) ys = []" using Cons.prems by (force simp: filter_empty_conv)
    then show ?thesis using False by simp
  qed (use Cons in simp)
qed simp

lemma places_take_mono: "places j \<le> places k \<Longrightarrow> places (take n j) \<le> places (take n k)"
  using take_lex_mono [of "places j" "places k" n] by simp

lemma sorted_prefixes: "sorted (map places entries) \<Longrightarrow> sorted (map (\<lambda>k. places (take n k)) entries)"
proof (induction entries)
  case (Cons k ks)
  then show ?case using places_take_mono by auto
qed simp

lemma sorted_map_filter: "sorted (map f xs) \<Longrightarrow> sorted (map f (filter P xs))"
  by (induction xs) auto

lemma seek_eq_walk:
  "\<forall>k \<in> set ks. clean k \<and> length probe \<le> length k \<Longrightarrow> clean probe
   \<Longrightarrow> seek_eq_walk probe ks = Inr (map rowid_of (takeWhile (\<lambda>k. places (take (length probe) k) = places probe) ks))"
  by (induction ks) (auto simp: compare_keys_places place_cmp_cases)

lemma seek_eq_filter:
  assumes "reads_index ir entries width" and "clean probe" and "length probe \<le> width + 1"
  shows "seek_eq ir probe = Inr (map rowid_of (filter (\<lambda>k. places (take (length probe) k) = places probe) entries))"
proof -
  let ?f = "\<lambda>k. places (take (length probe) k)"
  have R: "sorted (map ?f entries)" "ir_from ir probe = dropWhile (\<lambda>k. ?f k < places probe) entries"
    "\<forall>k \<in> set entries. clean k \<and> length probe \<le> length k"
    using assms by (auto simp: reads_index_def intro: sorted_prefixes)
  have d: "ir_from ir probe = filter (\<lambda>k. places probe \<le> ?f k) entries" unfolding R(2) by (rule sorted_drop [OF R(1)])
  have eq: "takeWhile (\<lambda>k. ?f k = places probe) ks = takeWhile (\<lambda>k. ?f k \<le> places probe) ks" if "\<forall>k \<in> set ks. places probe \<le> ?f k" for ks
    using that by (induction ks) auto
  have "takeWhile (\<lambda>k. ?f k = places probe) (ir_from ir probe) = filter (\<lambda>k. ?f k \<le> places probe) (ir_from ir probe)"
    by (rule trans [OF eq sorted_cut]) (simp_all add: d sorted_map_filter R(1))
  also have "\<dots> = filter (\<lambda>k. ?f k = places probe) entries" unfolding d filter_filter by (rule filter_cong) auto
  finally show ?thesis using seek_eq_walk [of "ir_from ir probe" probe] R(3) assms(2) by (simp add: seek_eq_def d)
qed

text \<open>The keys between two bounds.\<close>

definition low_ok :: "pyval list option \<Rightarrow> bool \<Rightarrow> pyval list \<Rightarrow> bool" where
  "low_ok low li k \<longleftrightarrow> (case low of None \<Rightarrow> True | Some l \<Rightarrow>
     if li then places l \<le> places (take (length l) k) else places l < places (take (length l) k))"

definition high_ok :: "pyval list option \<Rightarrow> bool \<Rightarrow> pyval list \<Rightarrow> bool" where
  "high_ok high hi k \<longleftrightarrow> (case high of None \<Rightarrow> True | Some h \<Rightarrow>
     if hi then places (take (length h) k) \<le> places h else places (take (length h) k) < places h)"

lemma high_ok_down:
  assumes "high_ok high hi k" and "places j \<le> places k"
  shows "high_ok high hi j"
  using assms(1) places_take_mono [OF assms(2)] by (auto simp: high_ok_def split: option.splits if_splits intro: order_trans le_less_trans)

lemma seek_range_walk:
  assumes "sorted (map places ks)" and "\<forall>k \<in> set ks. clean k \<and> pred_option (\<lambda>l. length l \<le> length k) low \<and> pred_option (\<lambda>h. length h \<le> length k) high"
    and "pred_option clean low" and "pred_option clean high"
    and "\<forall>k \<in> set ks. low_ok low True k"
  shows "seek_range_walk low high li hi ks = Inr (map rowid_of (filter (\<lambda>k. low_ok low li k \<and> high_ok high hi k) ks))"
  using assms(1,2,5)
proof (induction ks)
  case (Cons k ks)
  then have k: "clean k" "pred_option (\<lambda>l. length l \<le> length k) low" "pred_option (\<lambda>h. length h \<le> length k) high" "low_ok low True k" by simp_all
  have low: "(case low of None \<Rightarrow> Inr False | Some l \<Rightarrow> if li then Inr False else bind_res (compare_keys l k) (\<lambda>c. Inr (c = 0))) = Inr (\<not> low_ok low li k)"
    using k assms(3) by (auto simp: low_ok_def compare_keys_places place_cmp_cases split: option.split)
  have high: "(case high of None \<Rightarrow> Inr False | Some h \<Rightarrow> bind_res (compare_keys h k) (\<lambda>c. Inr (c < 0 \<or> c = 0 \<and> \<not> hi))) = Inr (\<not> high_ok high hi k)"
    using k assms(4) by (auto simp: high_ok_def compare_keys_places place_cmp_cases split: option.split)
  have IH: "seek_range_walk low high li hi ks = Inr (map rowid_of (filter (\<lambda>k. low_ok low li k \<and> high_ok high hi k) ks))"
    using Cons by simp
  have none: "filter (\<lambda>k. low_ok low li k \<and> high_ok high hi k) ks = []" if "\<not> high_ok high hi k"
    using that Cons.prems(1) high_ok_down [of high hi _ k] by (auto simp: filter_empty_conv)
  show ?case unfolding seek_range_walk.simps low high by (simp add: IH none)
qed simp

lemma seek_range_filter:
  assumes "reads_index ir entries width" and "pred_option (\<lambda>l. clean l \<and> length l \<le> width + 1) low"
    and "pred_option (\<lambda>h. clean h \<and> length h \<le> width + 1) high"
  shows "seek_range ir low high li hi = Inr (map rowid_of (filter (\<lambda>k. low_ok low li k \<and> high_ok high hi k) entries))"
proof -
  let ?start = "case low of None \<Rightarrow> ir_forward ir | Some l \<Rightarrow> ir_from ir l"
  have R: "sorted (map places entries)" "\<forall>k \<in> set entries. clean k \<and> length k = width + 1" using assms(1) by (auto simp: reads_index_def)
  have start: "?start = filter (low_ok low True) entries"
  proof (cases low)
    case (Some l)
    have "ir_from ir l = dropWhile (\<lambda>k. places (take (length l) k) < places l) entries" using assms(1,2) Some by (simp add: reads_index_def)
    also have "\<dots> = filter (\<lambda>k. places l \<le> places (take (length l) k)) entries" by (rule sorted_drop [OF sorted_prefixes [OF R(1)]])
    finally show ?thesis by (simp add: Some low_ok_def [abs_def])
  qed (use assms(1) in \<open>simp add: reads_index_def low_ok_def\<close>)
  have "seek_range_walk low high li hi ?start = Inr (map rowid_of (filter (\<lambda>k. low_ok low li k \<and> high_ok high hi k) ?start))"
    by (rule seek_range_walk) (use R assms(2,3) in \<open>auto simp: start sorted_map_filter pred_option_def\<close>)
  moreover have "low_ok low li k \<Longrightarrow> low_ok low True k" for k by (auto simp: low_ok_def split: option.splits if_splits)
  ultimately show ?thesis unfolding seek_range_def start filter_filter by (simp cong: filter_cong) (metis (mono_tags, lifting))
qed

end
