(* ===== verification/PlanSafety.thy ===== *)
theory PlanSafety
  imports SeekSafety
begin

text \<open>
  An access path changes no answer: the terms an index seek consumes hold of exactly the entries it yields, the others stay
  in the filter; and the seeks for which this fails.
\<close>

section \<open>Bounds\<close>

text \<open>What the bounds collected so far ask of a column value.\<close>

fun low_side :: "pyval list \<Rightarrow> bool \<Rightarrow> pyval \<Rightarrow> bool" where
  "low_side [] inclusive x \<longleftrightarrow> True"
| "low_side (v # vs) inclusive x \<longleftrightarrow> (if inclusive then key_place v \<le> key_place x else key_place v < key_place x)"

fun high_side :: "pyval list \<Rightarrow> bool \<Rightarrow> pyval \<Rightarrow> bool" where
  "high_side [] inclusive x \<longleftrightarrow> True"
| "high_side (v # vs) inclusive x \<longleftrightarrow> (if inclusive then key_place x \<le> key_place v else key_place x < key_place v)"

abbreviation above_low :: "seek_bounds \<Rightarrow> pyval \<Rightarrow> bool" where
  "above_low b \<equiv> low_side (sb_low b) (sb_low_inclusive b)"

abbreviation below_high :: "seek_bounds \<Rightarrow> pyval \<Rightarrow> bool" where
  "below_high b \<equiv> high_side (sb_high b) (sb_high_inclusive b)"

definition bounds_ok :: "seek_bounds \<Rightarrow> bool" where
  "bounds_ok b \<longleftrightarrow> length (sb_low b) \<le> 1 \<and> length (sb_high b) \<le> 1 \<and> clean (sb_low b) \<and> clean (sb_high b) \<and> VNull \<notin> set (sb_low b)
     \<and> (sb_low b = [] \<longrightarrow> sb_low_inclusive b) \<and> (sb_high b = [] \<longrightarrow> sb_high_inclusive b)"

definition lower_op :: "predicate \<Rightarrow> bool" where
  "lower_op p \<longleftrightarrow> pr_operator p = ''>'' \<or> pr_operator p = ''>=''"

definition upper_op :: "predicate \<Rightarrow> bool" where
  "upper_op p \<longleftrightarrow> pr_operator p = ''<'' \<or> pr_operator p = ''<=''"

lemma length_one: "length xs \<le> 1 \<Longrightarrow> xs \<noteq> [] \<Longrightarrow> \<exists>x. xs = [x]"
  by (cases xs) auto

lemma tighten_step:
  assumes "seek_value p [] = Inr v" and "no_nan v" and "v \<noteq> VNull" and "bounds_ok b"
  shows "\<exists>b'. tighten [] p b = Inr b' \<and> bounds_ok b' \<and> (sb_low b' = [] \<longleftrightarrow> sb_low b = [] \<and> \<not> lower_op p)
    \<and> (\<forall>x. above_low b' x \<longleftrightarrow> above_low b x \<and> (lower_op p \<longrightarrow> (if pr_operator p = ''>'' then key_place v < key_place x else key_place v \<le> key_place x)))
    \<and> (\<forall>x. below_high b' x \<longleftrightarrow> below_high b x \<and> (upper_op p \<longrightarrow> (if pr_operator p = ''<'' then key_place x < key_place v else key_place x \<le> key_place v)))"
proof -
  consider (up) "upper_op p" | (low) "lower_op p" "\<not> upper_op p" | (none) "\<not> upper_op p" "\<not> lower_op p" by blast
  then show ?thesis
  proof cases
    case up
    then have l: "\<not> lower_op p" by (auto simp: upper_op_def lower_op_def)
    show ?thesis
    proof (cases "sb_high b = []")
      case True
      then show ?thesis using assms up l by (auto simp: tighten_def upper_op_def bounds_ok_def)
    next
      case False
      then obtain w where w: "sb_high b = [w]" "no_nan w" using assms(4) length_one by (fastforce simp: bounds_ok_def)
      note c = compare_one [OF assms(2) w(2)]
      show ?thesis using assms up l w c
        by (cases "key_place v" "key_place w" rule: linorder_cases)
          (auto simp: tighten_def upper_op_def bounds_ok_def place_cmp_def simp del: compare_keys.simps)
    qed
  next
    case low
    show ?thesis
    proof (cases "sb_low b = []")
      case True
      then show ?thesis using assms low by (auto simp: tighten_def upper_op_def lower_op_def bounds_ok_def)
    next
      case False
      then obtain w where w: "sb_low b = [w]" "no_nan w" "w \<noteq> VNull" using assms(4) length_one by (fastforce simp: bounds_ok_def)
      note c = compare_one [OF assms(2) w(2)]
      show ?thesis using assms low w c
        by (cases "key_place v" "key_place w" rule: linorder_cases)
          (auto simp: tighten_def upper_op_def lower_op_def bounds_ok_def place_cmp_def simp del: compare_keys.simps)
    qed
  next
    case none
    then show ?thesis using assms by (auto simp: tighten_def upper_op_def lower_op_def)
  qed
qed

text \<open>The value of a seek term.\<close>

definition term_value :: "predicate \<Rightarrow> pyval" where
  "term_value p = (case seek_value p [] of Inr v \<Rightarrow> v | Inl e \<Rightarrow> VNull)"

definition has_value :: "predicate \<Rightarrow> bool" where
  "has_value p \<longleftrightarrow> (\<exists>v. evaluate (pr_value p) [] = Inr v \<and> no_nan v)"

lemma has_valueD: "has_value p \<Longrightarrow> seek_value p [] = Inr (term_value p) \<and> no_nan (term_value p)"
  by (auto simp: has_value_def term_value_def seek_value_def)

lemma tighten_all_terms:
  assumes "\<forall>p \<in> set ps. has_value p \<and> term_value p \<noteq> VNull \<and> (lower_op p \<or> upper_op p \<or> is_equality p)" and "bounds_ok b"
  shows "\<exists>b'. tighten_all [] ps b = Inr b' \<and> bounds_ok b' \<and> (sb_low b' = [] \<longleftrightarrow> sb_low b = [] \<and> (\<forall>p \<in> set ps. \<not> lower_op p))
    \<and> (\<forall>x. x \<noteq> VNull \<longrightarrow> (above_low b' x \<and> below_high b' x \<longleftrightarrow> above_low b x \<and> below_high b x
        \<and> (\<forall>p \<in> set ps. \<not> is_equality p \<longrightarrow> term_holds (pr_operator p) x (term_value p))))"
  using assms
proof (induction ps arbitrary: b)
  case (Cons p ps)
  note v = has_valueD [of p] and n = Cons.prems(1)
  have "seek_value p [] = Inr (term_value p)" "no_nan (term_value p)" "term_value p \<noteq> VNull" using v n by simp_all
  from tighten_step [OF this Cons.prems(2)] obtain b1 where
    b1: "tighten [] p b = Inr b1" "bounds_ok b1" "sb_low b1 = [] \<longleftrightarrow> sb_low b = [] \<and> \<not> lower_op p"
    and low: "\<And>x. above_low b1 x \<longleftrightarrow> above_low b x \<and> (lower_op p \<longrightarrow> (if pr_operator p = ''>'' then key_place (term_value p) < key_place x else key_place (term_value p) \<le> key_place x))"
    and high: "\<And>x. below_high b1 x \<longleftrightarrow> below_high b x \<and> (upper_op p \<longrightarrow> (if pr_operator p = ''<'' then key_place x < key_place (term_value p) else key_place x \<le> key_place (term_value p)))"
    by blast
  have one: "above_low b1 x \<and> below_high b1 x \<longleftrightarrow> above_low b x \<and> below_high b x \<and> (\<not> is_equality p \<longrightarrow> term_holds (pr_operator p) x (term_value p))"
    if "x \<noteq> VNull" for x
    using that n unfolding low high by (auto simp: lower_op_def upper_op_def is_equality_def term_holds_def)
  have "\<forall>p \<in> set ps. has_value p \<and> term_value p \<noteq> VNull \<and> (lower_op p \<or> upper_op p \<or> is_equality p)" using n by simp
  from Cons.IH [OF this b1(2)] obtain b' where
    "tighten_all [] ps b1 = Inr b'" "bounds_ok b'" "sb_low b' = [] \<longleftrightarrow> sb_low b1 = [] \<and> (\<forall>p \<in> set ps. \<not> lower_op p)"
    "\<forall>x. x \<noteq> VNull \<longrightarrow> (above_low b' x \<and> below_high b' x \<longleftrightarrow> above_low b1 x \<and> below_high b1 x
        \<and> (\<forall>p \<in> set ps. \<not> is_equality p \<longrightarrow> term_holds (pr_operator p) x (term_value p)))" by blast
  then show ?case using b1 one by auto
qed auto

section \<open>Seek terms\<close>

text \<open>At most one equality on a column, and none beside an inequality: the seeks for which the index is asked the right question.\<close>

definition single_terms :: "ustr list \<Rightarrow> predicate list \<Rightarrow> bool" where
  "single_terms columns ps \<longleftrightarrow>
     list_all (\<lambda>c. let cp = filter (\<lambda>p. pr_column p = c) ps in
        length (filter is_equality cp) \<le> 1 \<and> (filter is_equality cp = [] \<or> filter (\<lambda>p. \<not> is_equality p) cp = [])) columns"

text \<open>Equalities on the first columns, in order, and then inequalities on the next.\<close>

definition seek_shape :: "ustr list \<Rightarrow> predicate list \<Rightarrow> predicate list \<Rightarrow> bool" where
  "seek_shape columns eqs ineqs \<longleftrightarrow>
     length eqs \<le> length columns \<and> (\<forall>i < length eqs. pr_column (eqs ! i) = columns ! i \<and> is_equality (eqs ! i))
   \<and> (ineqs \<noteq> [] \<longrightarrow> length eqs < length columns) \<and> (\<forall>p \<in> set ineqs. pr_column p = columns ! length eqs \<and> \<not> is_equality p)"

lemma map_snd_filter: "map snd (filter (\<lambda>p. P (snd p)) ps) = filter P (map snd ps)"
  by (induction ps) auto

lemma seek_prefix_shape:
  "single_terms columns (map snd ps) \<Longrightarrow> \<exists>eqs ineqs. map snd (seek_prefix columns ps) = eqs @ ineqs \<and> seek_shape columns eqs ineqs"
proof (induction columns)
  case Nil
  then show ?case by (intro exI [of _ "[]"]) (simp add: seek_shape_def)
next
  case (Cons c cs)
  let ?cp = "filter (\<lambda>p. pr_column (snd p) = c) ps"
  let ?eq = "filter (\<lambda>p. is_equality (snd p)) ?cp" and ?in = "filter (\<lambda>p. \<not> is_equality (snd p)) ?cp"
  have m: "map snd ?eq = filter is_equality (filter (\<lambda>p. pr_column p = c) (map snd ps))"
    "map snd ?in = filter (\<lambda>p. \<not> is_equality p) (filter (\<lambda>p. pr_column p = c) (map snd ps))"
    unfolding map_snd_filter [symmetric] by (simp_all add: map_snd_filter [of _ "filter _ _", symmetric])
  have len: "length ?eq \<le> 1" and one: "?eq = [] \<or> ?in = []"
    using Cons.prems arg_cong [OF m(1), of length] arg_cong [OF m(1), of "\<lambda>x. x = []"] arg_cong [OF m(2), of "\<lambda>x. x = []"]
    by (auto simp: single_terms_def Let_def)
  consider "?cp = []" | "?cp \<noteq> []" "?in = []" | "?cp \<noteq> []" "?in \<noteq> []" by blast
  then show ?case
  proof cases
    case 1
    then show ?thesis by (intro exI [of _ "[]"]) (simp add: seek_shape_def)
  next
    case 2
    have "?eq \<noteq> []"
    proof
      assume "?eq = []"
      with 2(2) have "?cp = []" by (auto simp: filter_empty_conv)
      with 2(1) show False by simp
    qed
    then obtain e where e: "?eq = [e]" using length_one [OF len] by blast
    then have "e \<in> set ?eq" by simp
    then have e2: "pr_column (snd e) = c" "is_equality (snd e)" by auto
    have "single_terms cs (map snd ps)" using Cons.prems by (simp add: single_terms_def)
    from Cons.IH [OF this] obtain eqs ineqs where IH: "map snd (seek_prefix cs ps) = eqs @ ineqs" "seek_shape cs eqs ineqs" by blast
    have "map snd (seek_prefix (c # cs) ps) = (snd e # eqs) @ ineqs" using 2 e IH(1) by (simp add: Let_def)
    moreover have "seek_shape (c # cs) (snd e # eqs) ineqs" using IH(2) e2 by (auto simp: seek_shape_def nth_Cons split: nat.split)
    ultimately show ?thesis by blast
  next
    case 3
    then have eq: "?eq = []" using one by blast
    have "map snd (seek_prefix (c # cs) ps) = [] @ map snd (take 2 ?in)" using 3 eq by (simp add: Let_def)
    moreover have "seek_shape (c # cs) [] (map snd (take 2 ?in))" by (auto simp: seek_shape_def dest!: in_set_takeD)
    ultimately show ?thesis by blast
  qed
qed

section \<open>Entries on which the terms hold\<close>

lemma equal_places:
  assumes "\<forall>p \<in> set eqs. is_equality p \<and> (term_value p = VNull \<longleftrightarrow> pr_operator p = ''IS'')" and "length eqs \<le> length key"
  shows "places (take (length eqs) key) = places (map term_value eqs) \<longleftrightarrow> (\<forall>i < length eqs. term_holds (pr_operator (eqs ! i)) (key ! i) (term_value (eqs ! i)))"
proof -
  have place_null: "key_place x = key_place VNull \<longleftrightarrow> x = VNull" for x by (cases x) auto
  have "places (take (length eqs) key) = places (map term_value eqs) \<longleftrightarrow> (\<forall>i < length eqs. key_place (key ! i) = key_place (term_value (eqs ! i)))"
    using assms(2) by (simp add: places_def list_eq_iff_nth_eq)
  also have "\<dots> \<longleftrightarrow> (\<forall>i < length eqs. term_holds (pr_operator (eqs ! i)) (key ! i) (term_value (eqs ! i)))"
  proof (intro all_cong)
    fix i assume i: "i < length eqs"
    then have p: "is_equality (eqs ! i)" "term_value (eqs ! i) = VNull \<longleftrightarrow> pr_operator (eqs ! i) = ''IS''" using assms(1) by simp_all
    show "key_place (key ! i) = key_place (term_value (eqs ! i)) \<longleftrightarrow> term_holds (pr_operator (eqs ! i)) (key ! i) (term_value (eqs ! i))"
      using p place_null [of "key ! i"] place_null [of "term_value (eqs ! i)"] by (auto simp: term_holds_def is_equality_def)
  qed
  finally show ?thesis .
qed

lemma range_ok:
  assumes "bounds_ok b" and "length eqs = n" and "n < length key"
  shows "low_ok (if eqs @ sb_low b = [] then None else Some (eqs @ sb_low b)) (sb_low_inclusive b) key
      \<and> high_ok (if eqs @ sb_high b = [] then None else Some (eqs @ sb_high b)) (sb_high_inclusive b) key
    \<longleftrightarrow> places (take n key) = places eqs \<and> above_low b (key ! n) \<and> below_high b (key ! n)"
proof -
  let ?P = "places (take n key)" and ?E = "places eqs" and ?x = "key_place (key ! n)"
  have t: "places (take (Suc n) key) = ?P @ [?x]" using assms(3) by (simp add: take_Suc_conv_app_nth)
  have len: "length ?E = length ?P" using assms(2,3) by simp
  note lex = snoc_lex_if [OF len] snoc_lex_if [OF len [symmetric]]
  have low: "low_ok (if eqs @ sb_low b = [] then None else Some (eqs @ sb_low b)) (sb_low_inclusive b) key \<longleftrightarrow> ?E < ?P \<or> ?E = ?P \<and> above_low b (key ! n)"
  proof (cases "sb_low b")
    case Nil
    then have "sb_low_inclusive b" using assms(1) by (simp add: bounds_ok_def)
    then show ?thesis using Nil assms(2) by (cases "eqs = []") (simp_all add: low_ok_def le_less)
  next
    case (Cons v vs)
    then have v: "sb_low b = [v]" using assms(1) by (simp add: bounds_ok_def)
    then have "low_ok (if eqs @ sb_low b = [] then None else Some (eqs @ sb_low b)) (sb_low_inclusive b) key
      \<longleftrightarrow> (if sb_low_inclusive b then ?E @ [key_place v] \<le> ?P @ [?x] else ?E @ [key_place v] < ?P @ [?x])"
      using assms(2) by (simp add: low_ok_def t)
    then show ?thesis unfolding lex by (simp add: v)
  qed
  have high: "high_ok (if eqs @ sb_high b = [] then None else Some (eqs @ sb_high b)) (sb_high_inclusive b) key \<longleftrightarrow> ?P < ?E \<or> ?P = ?E \<and> below_high b (key ! n)"
  proof (cases "sb_high b")
    case Nil
    then have "sb_high_inclusive b" using assms(1) by (simp add: bounds_ok_def)
    then show ?thesis using Nil assms(2) by (cases "eqs = []") (simp_all add: high_ok_def le_less)
  next
    case (Cons v vs)
    then have v: "sb_high b = [v]" using assms(1) by (simp add: bounds_ok_def)
    then have "high_ok (if eqs @ sb_high b = [] then None else Some (eqs @ sb_high b)) (sb_high_inclusive b) key
      \<longleftrightarrow> (if sb_high_inclusive b then ?P @ [?x] \<le> ?E @ [key_place v] else ?P @ [?x] < ?E @ [key_place v])"
      using assms(2) by (simp add: high_ok_def t)
    then show ?thesis unfolding lex by (simp add: v)
  qed
  have "\<not> (?E < ?P \<and> ?P < ?E)" by (blast dest: less_asym)
  then show ?thesis unfolding low high by (metis order_less_irrefl)
qed

definition known_op :: "predicate \<Rightarrow> bool" where
  "known_op p \<longleftrightarrow> is_equality p \<or> lower_op p \<or> upper_op p"

definition term_ok :: "predicate \<Rightarrow> bool" where
  "term_ok p \<longleftrightarrow> has_value p \<and> known_op p \<and> (pr_operator p = ''IS'' \<longrightarrow> term_value p = VNull)"

definition entry_holds :: "predicate list \<Rightarrow> predicate list \<Rightarrow> pyval list \<Rightarrow> bool" where
  "entry_holds eqs ineqs key \<longleftrightarrow>
     (\<forall>i < length eqs. term_holds (pr_operator (eqs ! i)) (key ! i) (term_value (eqs ! i)))
   \<and> (\<forall>p \<in> set ineqs. term_holds (pr_operator p) (key ! length eqs) (term_value p))"

lemma null_seek_spec:
  "\<forall>p \<in> set ps. has_value p \<Longrightarrow> null_seek ps [] = Inr (\<exists>p \<in> set ps. term_value p = VNull \<and> pr_operator p \<noteq> ''IS'')"
proof (induction ps)
  case (Cons p ps)
  then show ?case using has_valueD [of p] by auto
qed simp

lemma map_seek_values: "\<forall>p \<in> set ps. has_value p \<Longrightarrow> map_res (\<lambda>p. seek_value p []) ps = Inr (map term_value ps)"
proof (induction ps)
  case (Cons p ps)
  then show ?case using has_valueD [of p] by auto
qed simp

lemma clean_values: "\<forall>p \<in> set ps. has_value p \<Longrightarrow> clean (map term_value ps)"
  using has_valueD by (auto simp: clean_def)

lemma null_term_fails: "term_value p = VNull \<Longrightarrow> pr_operator p \<noteq> ''IS'' \<Longrightarrow> \<not> term_holds (pr_operator p) x (term_value p)"
  by (simp add: term_holds_def)

text \<open>A seek yields exactly the entries on which its terms hold.\<close>

lemma seek_yields:
  assumes R: "reads_index ir entries width" and sh: "seek_shape columns eqs ineqs" and w: "length columns = width"
    and path: "ap_seek_terms path = eqs @ ineqs" and ok: "\<forall>p \<in> set (eqs @ ineqs). term_ok p"
    and nulls: "ineqs \<noteq> [] \<Longrightarrow> (\<exists>p \<in> set ineqs. lower_op p) \<or> (\<forall>k \<in> set entries. k ! length eqs \<noteq> VNull)"
  shows "\<exists>ids. bind_res (index_scan_request path []) (run_request ir) = Inr ids \<and> mset ids = mset (map rowid_of (filter (entry_holds eqs ineqs) entries))"
proof -
  have hv: "\<forall>p \<in> set (eqs @ ineqs). has_value p" using ok by (simp add: term_ok_def)
  note ns = null_seek_spec [OF hv]
  have E: "\<forall>k \<in> set entries. clean k \<and> length k = width + 1" using R by (simp add: reads_index_def)
  have n: "length eqs \<le> width" using sh w by (simp add: seek_shape_def)
  have eqs: "\<forall>p \<in> set eqs. is_equality p" using sh unfolding seek_shape_def by (metis in_set_conv_nth)
  have ineqs: "\<forall>p \<in> set ineqs. \<not> is_equality p" using sh by (simp add: seek_shape_def)
  show ?thesis
  proof (cases "\<exists>p \<in> set (eqs @ ineqs). term_value p = VNull \<and> pr_operator p \<noteq> ''IS''")
    case True
    have none: "\<not> entry_holds eqs ineqs k" for k
    proof -
      from True consider i where "i < length eqs" "term_value (eqs ! i) = VNull" "pr_operator (eqs ! i) \<noteq> ''IS''"
        | p where "p \<in> set ineqs" "term_value p = VNull" "pr_operator p \<noteq> ''IS''" by (auto simp: in_set_conv_nth)
      then show ?thesis
      proof cases
        case (1 i)
        then show ?thesis using null_term_fails [OF 1(2,3)] unfolding entry_holds_def by blast
      next
        case (2 p)
        then show ?thesis using null_term_fails [OF 2(2,3)] unfolding entry_holds_def by blast
      qed
    qed
    have "null_seek (eqs @ ineqs) [] = Inr True" unfolding ns using True by simp
    then have "index_scan_request path [] = Inr NoRows" by (simp add: index_scan_request_def Let_def path)
    then show ?thesis using none by simp
  next
    case False
    then have ns: "null_seek (eqs @ ineqs) [] = Inr False" unfolding ns by auto
    have is_null: "\<forall>p \<in> set eqs. is_equality p \<and> (term_value p = VNull \<longleftrightarrow> pr_operator p = ''IS'')" using False ok eqs by (auto simp: term_ok_def)
    have places_eqs: "places (take (length eqs) k) = places (map term_value eqs)
        \<longleftrightarrow> (\<forall>i < length eqs. term_holds (pr_operator (eqs ! i)) (k ! i) (term_value (eqs ! i)))" if "k \<in> set entries" for k
      by (rule equal_places [OF is_null]) (use E n that in simp)
    show ?thesis
    proof (cases "ineqs = []")
      case True
      show ?thesis
      proof (cases "eqs = [] \<and> ap_reverse path")
        case rev: True
        then have "index_scan_request path [] = Inr ScanReverse" using True ns by (simp add: index_scan_request_def Let_def path)
        moreover have "ir_backward ir = rev entries" using R by (simp add: reads_index_def)
        ultimately show ?thesis using rev True by (auto simp: entry_holds_def rev_map [symmetric])
      next
        case fwd: False
        have "list_all is_equality eqs" using eqs by (simp add: list_all_iff)
        then have "index_scan_request path [] = Inr (SeekEq (map term_value eqs))"
          using True ns fwd map_seek_values [of eqs] hv by (auto simp: index_scan_request_def Let_def path)
        moreover have "seek_eq ir (map term_value eqs) = Inr (map rowid_of (filter (\<lambda>k. places (take (length eqs) k) = places (map term_value eqs)) entries))"
          using seek_eq_filter [OF R, of "map term_value eqs"] clean_values [of eqs] hv n by simp
        moreover have "filter (\<lambda>k. places (take (length eqs) k) = places (map term_value eqs)) entries = filter (entry_holds eqs ineqs) entries"
          by (rule filter_cong) (use places_eqs True in \<open>auto simp: entry_holds_def\<close>)
        ultimately show ?thesis by simp
      qed
    next
      case range: False
      let ?b0 = "\<lparr>sb_low = [], sb_high = [], sb_low_inclusive = True, sb_high_inclusive = True\<rparr>"
      have notnull: "\<forall>p \<in> set ineqs. term_value p \<noteq> VNull" using False ineqs by (auto simp: is_equality_def)
      have lt: "length eqs < width" using sh range w by (simp add: seek_shape_def)
      have fe: "filter is_equality (eqs @ ineqs) = eqs" using eqs ineqs by (simp add: filter_id_conv filter_empty_conv)
      have te: "tighten_all [] (eqs @ ineqs) b = tighten_all [] ineqs b" for b
        using eqs hv
      proof (induction eqs)
        case (Cons p ps)
        have "tighten [] p b = Inr b" using Cons.prems has_valueD [of p] by (auto simp: tighten_def is_equality_def)
        then show ?case using Cons by simp
      qed simp
      have "\<forall>p \<in> set ineqs. has_value p \<and> term_value p \<noteq> VNull \<and> (lower_op p \<or> upper_op p \<or> is_equality p)" "bounds_ok ?b0"
        using ok notnull by (auto simp: term_ok_def known_op_def bounds_ok_def)
      from tighten_all_terms [OF this] obtain b where b: "tighten_all [] ineqs ?b0 = Inr b" "bounds_ok b"
        "sb_low b = [] \<longleftrightarrow> (\<forall>p \<in> set ineqs. \<not> lower_op p)"
        and terms: "\<And>x. x \<noteq> VNull \<Longrightarrow> above_low b x \<and> below_high b x \<longleftrightarrow> (\<forall>p \<in> set ineqs. \<not> is_equality p \<longrightarrow> term_holds (pr_operator p) x (term_value p))"
        by auto
      have null: "\<not> (above_low b VNull)" if "\<exists>p \<in> set ineqs. lower_op p"
      proof -
        from that b(3) obtain v vs where v: "sb_low b = v # vs" by (cases "sb_low b") auto
        then have "v \<noteq> VNull" using b(2) by (auto simp: bounds_ok_def)
        then have "key_place VNull < key_place v" by (cases v) simp_all
        then show ?thesis using v by (auto simp: not_le)
      qed
      let ?vals = "map term_value eqs"
      let ?low = "if ?vals @ sb_low b = [] then None else Some (?vals @ sb_low b)"
      let ?high = "if ?vals @ sb_high b = [] then None else Some (?vals @ sb_high b)"
      have nl: "\<not> list_all is_equality (eqs @ ineqs)" using range ineqs by (cases ineqs) auto
      have "seek_range_request (eqs @ ineqs) [] = Inr (SeekRange ?low ?high (sb_low_inclusive b) (sb_high_inclusive b))"
      proof -
        have m: "map_res (\<lambda>p. seek_value p []) eqs = Inr ?vals" by (rule map_seek_values) (use hv in simp)
        show ?thesis unfolding seek_range_request_def fe te b(1) m bind_res_simps ..
      qed
      then have req: "index_scan_request path [] = Inr (SeekRange ?low ?high (sb_low_inclusive b) (sb_high_inclusive b))"
        unfolding index_scan_request_def Let_def path ns bind_res_simps if_not_P [OF nl] by simp
      have bl: "length (sb_low b) \<le> 1" "length (sb_high b) \<le> 1" "clean (sb_low b)" "clean (sb_high b)" using b(2) by (simp_all add: bounds_ok_def)
      have "seek_range ir ?low ?high (sb_low_inclusive b) (sb_high_inclusive b)
        = Inr (map rowid_of (filter (\<lambda>k. low_ok ?low (sb_low_inclusive b) k \<and> high_ok ?high (sb_high_inclusive b) k) entries))"
        by (rule seek_range_filter [OF R]) (use clean_values [of eqs] hv lt bl in auto)
      moreover have "filter (\<lambda>k. low_ok ?low (sb_low_inclusive b) k \<and> high_ok ?high (sb_high_inclusive b) k) entries = filter (entry_holds eqs ineqs) entries"
      proof (rule filter_cong [OF refl])
        fix k assume k: "k \<in> set entries"
        have "low_ok ?low (sb_low_inclusive b) k \<and> high_ok ?high (sb_high_inclusive b) k
          \<longleftrightarrow> places (take (length eqs) k) = places ?vals \<and> above_low b (k ! length eqs) \<and> below_high b (k ! length eqs)"
          by (rule range_ok [OF b(2)]) (use E k lt in simp_all)
        moreover have "above_low b (k ! length eqs) \<and> below_high b (k ! length eqs) \<longleftrightarrow> (\<forall>p \<in> set ineqs. term_holds (pr_operator p) (k ! length eqs) (term_value p))"
        proof (cases "k ! length eqs = VNull")
          case True
          then have "\<exists>p \<in> set ineqs. lower_op p" using nulls [OF range] k by blast
          moreover have "\<not> term_holds (pr_operator p) VNull (term_value p)" if "p \<in> set ineqs" for p
            using that ineqs by (auto simp: term_holds_def is_equality_def)
          ultimately show ?thesis using null True by auto
        next
          case False
          show ?thesis unfolding terms [OF False] using ineqs by blast
        qed
        ultimately show "(low_ok ?low (sb_low_inclusive b) k \<and> high_ok ?high (sb_high_inclusive b) k) = entry_holds eqs ineqs k"
          unfolding places_eqs [OF k] entry_holds_def by blast
      qed
      ultimately show ?thesis by (simp add: req)
    qed
  qed
qed

end
