(* ===== verification/PlanCorrect.thy ===== *)
theory PlanCorrect
  imports PlanSafety
begin

text \<open>
  A query returns the same rows whichever legal access path is chosen, as long as every seek asks the index what the
  condition says; where it does not, two legal paths give different answers.
\<close>

section \<open>Tables and their indexes\<close>

definition well_named :: "char_tables \<Rightarrow> table_schema \<Rightarrow> bool" where
  "well_named u table \<longleftrightarrow> distinct (map (\<lambda>c. casefold u (cs_name c)) (ts_columns table))"

text \<open>A table as its rowids and rows.\<close>

definition rows_ok :: "table_schema \<Rightarrow> (int \<times> pyval list) list \<Rightarrow> bool" where
  "rows_ok table rows \<longleftrightarrow> distinct (map fst rows) \<and> (\<forall>r \<in> set rows. length (snd r) = length (ts_columns table) \<and> clean (snd r))"

definition row_lookup :: "(int \<times> pyval list) list \<Rightarrow> pyval \<Rightarrow> pyval list option" where
  "row_lookup rows v = (case v of VInt n \<Rightarrow> map_of rows n | _ \<Rightarrow> None)"

definition index_entry :: "nat list \<Rightarrow> int \<times> pyval list \<Rightarrow> pyval list" where
  "index_entry cidx r = map ((!) (snd r)) cidx @ [VInt (fst r)]"

text \<open>The index has one entry for each row.\<close>

definition index_of_rows :: "char_tables \<Rightarrow> table_schema \<Rightarrow> index_schema \<Rightarrow> (int \<times> pyval list) list \<Rightarrow> pyval list list \<Rightarrow> bool" where
  "index_of_rows u table index rows entries \<longleftrightarrow>
     (\<exists>cidx. map_res (column_index u table) (is_columns index) = Inr cidx \<and> mset entries = image_mset (index_entry cidx) (mset rows))"

text \<open>The rows a path gives, before the filter.\<close>

definition path_rows :: "index_reader \<Rightarrow> (int \<times> pyval list) list \<Rightarrow> access_path \<Rightarrow> pyval list list res" where
  "path_rows ir rows path =
     (case ap_index path of None \<Rightarrow> Inr (map snd rows) | Some index \<Rightarrow> index_scan_rows ir (row_lookup rows) path [])"

text \<open>The single-table pipeline of \<^verbatim>\<open>_build_single_table_source\<close>: the path's rows through what is left of the condition.\<close>

definition pipeline_rows :: "index_reader \<Rightarrow> (int \<times> pyval list) list \<Rightarrow> bound_expression option \<Rightarrow> access_path \<Rightarrow> pyval list list res" where
  "pipeline_rows ir rows w path =
     bind_res (path_rows ir rows path) (\<lambda>rs.
       Inr (filter (\<lambda>row. passes_opt row (residual_filter_expression (snd (extract_predicates w)) (ap_residual path))) rs))"

text \<open>The seeks whose terms the index can be trusted with.\<close>

definition seek_safe :: "table_schema \<Rightarrow> (int \<times> pyval list) list \<Rightarrow> predicate list \<Rightarrow> access_path \<Rightarrow> bool" where
  "seek_safe table rows predicates path \<longleftrightarrow>
     (case ap_index path of None \<Rightarrow> True
      | Some index \<Rightarrow>
          single_terms (is_columns index) predicates
        \<and> list_all (\<lambda>p. pr_operator p \<noteq> ''LIKE'') (ap_seek_terms path)
        \<and> (list_ex upper_op (ap_seek_terms path) \<longrightarrow> list_ex lower_op (ap_seek_terms path)
           \<or> list_all (\<lambda>p. upper_op p \<longrightarrow> list_all (\<lambda>r. \<forall>i < length (ts_columns table). cs_name (ts_columns table ! i) = pr_column p \<longrightarrow> snd r ! i \<noteq> VNull) rows)
                (ap_seek_terms path)))"

section \<open>Predicates and rows\<close>

lemma extract_predicates_mem:
  "p \<in> set (fst (extract_predicates w)) \<longleftrightarrow> (\<exists>c \<in> set (extract_conjuncts w). classify_predicate c 0 = Some p)"
  "c \<in> set (snd (extract_predicates w)) \<longleftrightarrow> c \<in> set (extract_conjuncts w) \<and> classify_predicate c 0 = None"
  by (auto simp: extract_predicates_def List.map_filter_def intro: rev_image_eqI)

lemma sources_conjuncts:
  "pr_source ` set (fst (extract_predicates w)) \<union> set (snd (extract_predicates w)) = set (extract_conjuncts w)"
proof -
  have "c \<in> pr_source ` set (fst (extract_predicates w)) \<union> set (snd (extract_predicates w))" if c: "c \<in> set (extract_conjuncts w)" for c
  proof (cases "classify_predicate c 0")
    case None
    then show ?thesis using c by (simp add: extract_predicates_mem)
  next
    case (Some p)
    then have "p \<in> set (fst (extract_predicates w))" "pr_source p = c" using c classify_source [OF Some] by (auto simp: extract_predicates_mem)
    then show ?thesis by blast
  qed
  moreover have "pr_source p \<in> set (extract_conjuncts w)" if "p \<in> set (fst (extract_predicates w))" for p
    using that classify_source by (auto simp: extract_predicates_mem)
  moreover have "c \<in> set (extract_conjuncts w)" if "c \<in> set (snd (extract_predicates w))" for c
    using that by (simp add: extract_predicates_mem)
  ultimately show ?thesis by blast
qed

lemma set_seek_prefix: "set (seek_prefix columns ps) \<subseteq> set ps"
proof (induction columns)
  case (Cons c cs)
  then show ?case by (auto simp: Let_def dest!: in_set_takeD)
qed simp

lemma match_index_prefix_terms:
  assumes "match_index_prefix index predicates = Some path"
  shows "ap_index path = Some index \<and> ap_seek_terms path = map snd (seek_prefix (is_columns index) (zip [0..<length predicates] predicates))
    \<and> set (ap_seek_terms path) \<union> set (ap_residual path) = set predicates"
proof -
  let ?n = "zip [0..<length predicates] predicates"
  let ?t = "seek_prefix (is_columns index) ?n"
  have path: "ap_index path = Some index" "ap_seek_terms path = map snd ?t" "ap_residual path = map snd (filter (\<lambda>p. fst p \<notin> set (map fst ?t)) ?n)"
    using assms by (auto simp: match_index_prefix_def Let_def split: if_splits)
  have sub: "set ?t \<subseteq> set ?n" by (rule set_seek_prefix)
  have all: "snd ` set ?n = set predicates" by (metis list.set_map map_snd_zip length_upt minus_nat.diff_0)
  have "set (ap_seek_terms path) \<union> set (ap_residual path) = set predicates"
  proof (intro equalityI subsetI)
    fix p assume "p \<in> set (ap_seek_terms path) \<union> set (ap_residual path)"
    then show "p \<in> set predicates" using sub all unfolding path by auto
  next
    fix p assume "p \<in> set predicates"
    then obtain i where i: "(i, p) \<in> set ?n" using all by force
    show "p \<in> set (ap_seek_terms path) \<union> set (ap_residual path)"
    proof (cases "i \<in> set (map fst ?t)")
      case True
      then obtain q where q: "(i, q) \<in> set ?t" by auto
      then have "(i, q) \<in> set ?n" using sub by blast
      then have "q = p" using i by (auto simp: in_set_zip)
      then show ?thesis using q unfolding path by force
    next
      case False
      then show ?thesis using i unfolding path by force
    qed
  qed
  then show ?thesis using path by blast
qed

text \<open>The paths enumerated.\<close>

lemma enumerated_cases:
  assumes "enumerate_access_paths u table indexes predicates k = Inr paths" and "path \<in> set paths"
  obtains (seq) "path = seq_scan_path predicates"
  | (seek) index where "index \<in> set indexes" "match_index_prefix index predicates = Some path"
  | (order) index reverse where "index \<in> set indexes" "match_index_prefix index predicates = None"
      "index_order_path u index predicates table k reverse = Inr path"
proof -
  obtain pss where pss: "map_res (index_paths u table predicates k) indexes = Inr pss" "paths = seq_scan_path predicates # concat pss"
    using assms(1) by (auto simp: enumerate_access_paths_def bind_res_eq_Inr)
  show thesis
  proof (cases "path = seq_scan_path predicates")
    case False
    then obtain ps where ps: "ps \<in> set pss" "path \<in> set ps" using assms(2) pss(2) by auto
    then obtain i where i: "i < length indexes" "index_paths u table predicates k (indexes ! i) = Inr ps"
      using map_res_eq_Inr_nth [OF pss(1)] map_res_eq_Inr_length [OF pss(1)] by (metis in_set_conv_nth)
    show thesis
    proof (cases "match_index_prefix (indexes ! i) predicates")
      case (Some p)
      then show thesis using i ps(2) by (intro seek [of "indexes ! i"]) (auto simp: index_paths_def)
    next
      case None
      then obtain reverse where "index_order_path u (indexes ! i) predicates table k reverse = Inr path"
        using i(2) ps(2) by (auto simp: index_paths_def bind_res_eq_Inr)
      then show thesis using i(1) None by (intro order [of "indexes ! i"]) simp_all
    qed
  qed (rule seq)
qed

lemma order_path_fields:
  "index_order_path u index predicates table k reverse = Inr path
   \<Longrightarrow> ap_index path = Some index \<and> ap_seek_terms path = [] \<and> ap_residual path = predicates \<and> ap_reverse path = reverse"
  by (auto simp: index_order_path_def bind_res_eq_Inr)

lemma column_index_name:
  assumes "well_named u table" and "i < length (ts_columns table)" and "name = cs_name (ts_columns table ! i)"
  shows "column_index u table name = Inr i"
proof -
  have "casefold u (cs_name (ts_columns table ! j)) \<noteq> casefold u name" if "j < i" for j
    using assms that nth_eq_iff_index_eq [OF assms(1) [unfolded well_named_def], of i j] by auto
  then show ?thesis using assms(2,3) unfolding column_index_def column_from_spec by auto
qed

lemma lookup_entry:
  assumes "rows_ok table rows" and "r \<in> set rows"
  shows "row_lookup rows (rowid_of (index_entry cidx r)) = Some (snd r)"
  using assms map_of_is_SomeI [of rows "fst r" "snd r"] by (simp add: rows_ok_def row_lookup_def index_entry_def rowid_of_def)

text \<open>A seek term of a predicate of the condition, on an entry and on its row.\<close>

lemma term_on_row:
  assumes p: "p \<in> set (fst (extract_predicates w))" and w: "pred_option (of_table table) w" and "pr_operator p \<noteq> ''LIKE''"
    and "has_value p" and r: "rows_ok table rows" "r \<in> set rows" and named: "well_named u table"
    and c: "map_res (column_index u table) (is_columns index) = Inr cidx" and i: "i < length (is_columns index)" "is_columns index ! i = pr_column p"
  shows "term_holds (pr_operator p) (index_entry cidx r ! i) (term_value p) \<longleftrightarrow> passes (snd r) (pr_source p)"
proof -
  from p obtain e where e: "e \<in> set (extract_conjuncts w)" "classify_predicate e 0 = Some p" by (auto simp: extract_predicates_mem)
  have ot: "of_table table e" using e(1) w of_table_conjuncts by (auto simp: extract_conjuncts_def split: option.splits)
  have v: "evaluate (pr_value p) [] = Inr (term_value p)" "no_nan (term_value p)" using has_valueD [OF assms(4)] by (auto simp: seek_value_def)
  have row: "length (snd r) = length (ts_columns table)" "\<forall>x \<in> set (snd r). no_nan x" using r by (auto simp: rows_ok_def clean_def)
  from sargable_row [OF e(2) ot assms(3) v row] obtain j where
    j: "j < length (ts_columns table)" "pr_column p = cs_name (ts_columns table ! j)" "passes (snd r) e \<longleftrightarrow> term_holds (pr_operator p) (snd r ! j) (term_value p)"
    by blast
  have "column_index u table (is_columns index ! i) = Inr (cidx ! i)" using map_res_eq_Inr_nth [OF c] i(1) by simp
  moreover have "column_index u table (is_columns index ! i) = Inr j" using column_index_name [OF named j(1) refl] i(2) j(2) by simp
  ultimately have "cidx ! i = j" by simp
  moreover have "length cidx = length (is_columns index)" using map_res_eq_Inr_length [OF c] by simp
  ultimately have "index_entry cidx r ! i = snd r ! j" using i(1) by (simp add: index_entry_def nth_append)
  then show ?thesis using j(3) classify_source [OF e(2)] by simp
qed

lemma map_filter_lookup:
  "(\<And>x. x \<in> set xs \<Longrightarrow> f (g x) = Some (h x)) \<Longrightarrow> List.map_filter f (map g xs) = map h xs"
  by (induction xs) (auto simp: List.map_filter_simps)

lemma map_filter_perm: "mset xs = mset ys \<Longrightarrow> mset (List.map_filter f xs) = mset (List.map_filter f ys)"
  by (simp add: List.map_filter_def mset_filter)

text \<open>The rows a seek gives are those whose terms hold.\<close>

lemma seek_rows:
  assumes R: "reads_index ir entries (length (is_columns index))" and I: "index_of_rows u table index rows entries"
    and rows: "rows_ok table rows" and named: "well_named u table" and w: "pred_option (of_table table) w"
    and path: "ap_index path = Some index" "ap_seek_terms path = eqs @ ineqs" "seek_shape (is_columns index) eqs ineqs"
    and terms: "set (eqs @ ineqs) \<subseteq> set (fst (extract_predicates w))" "\<forall>p \<in> set (eqs @ ineqs). has_value p"
    and safe: "seek_safe table rows predicates path"
  shows "\<exists>rs. path_rows ir rows path = Inr rs
    \<and> mset rs = image_mset snd (filter_mset (\<lambda>r. \<forall>p \<in> set (ap_seek_terms path). passes (snd r) (pr_source p)) (mset rows))"
proof -
  let ?cols = "is_columns index"
  from I obtain cidx where c: "map_res (column_index u table) ?cols = Inr cidx" and entries: "mset entries = image_mset (index_entry cidx) (mset rows)"
    by (auto simp: index_of_rows_def)
  have like: "\<forall>p \<in> set (eqs @ ineqs). pr_operator p \<noteq> ''LIKE''" using safe path(1,2) by (auto simp: seek_safe_def list_all_iff)
  have ok: "\<forall>p \<in> set (eqs @ ineqs). term_ok p"
  proof
    fix p assume p: "p \<in> set (eqs @ ineqs)"
    then have "p \<in> set (fst (extract_predicates w))" using terms(1) by blast
    then obtain e where "classify_predicate e 0 = Some p" by (auto simp: extract_predicates_mem)
    then have "known_op p \<and> (pr_operator p = ''IS'' \<longrightarrow> pr_value p = BoundLiteral VNull)"
      using like p by (cases rule: classify_shape) (auto simp: known_op_def is_equality_def lower_op_def upper_op_def SARGABLE_COMPARISONS_def flipped_def)
    then show "term_ok p" using terms(2) p by (auto simp: term_ok_def term_value_def seek_value_def)
  qed
  have eqcol: "\<forall>i < length eqs. i < length ?cols \<and> pr_column (eqs ! i) = ?cols ! i" using path(3) by (auto simp: seek_shape_def)
  have incol: "\<forall>p \<in> set ineqs. length eqs < length ?cols \<and> pr_column p = ?cols ! length eqs" using path(3) by (cases ineqs) (auto simp: seek_shape_def)
  have one: "term_holds (pr_operator p) (index_entry cidx r ! i) (term_value p) \<longleftrightarrow> passes (snd r) (pr_source p)"
    if "p \<in> set (eqs @ ineqs)" "i < length ?cols" "?cols ! i = pr_column p" "r \<in> set rows" for p i r
    by (rule term_on_row [OF _ w _ _ rows that(4) named c that(2,3)]) (use that(1) terms like in auto)
  have holds: "entry_holds eqs ineqs (index_entry cidx r) \<longleftrightarrow> (\<forall>p \<in> set (ap_seek_terms path). passes (snd r) (pr_source p))" if r: "r \<in> set rows" for r
  proof -
    have "(\<forall>i < length eqs. term_holds (pr_operator (eqs ! i)) (index_entry cidx r ! i) (term_value (eqs ! i))) \<longleftrightarrow> (\<forall>i < length eqs. passes (snd r) (pr_source (eqs ! i)))"
      using one [of "eqs ! i" i r for i] eqcol r by auto
    moreover have "(\<forall>p \<in> set ineqs. term_holds (pr_operator p) (index_entry cidx r ! length eqs) (term_value p)) \<longleftrightarrow> (\<forall>p \<in> set ineqs. passes (snd r) (pr_source p))"
      using one [of p "length eqs" r for p] incol r by auto
    moreover have "(\<forall>p \<in> set eqs. passes (snd r) (pr_source p)) \<longleftrightarrow> (\<forall>i < length eqs. passes (snd r) (pr_source (eqs ! i)))"
      by (rule all_set_conv_all_nth)
    ultimately show ?thesis unfolding entry_holds_def path(2) set_append ball_Un by simp
  qed
  have nulls: "(\<exists>p \<in> set ineqs. lower_op p) \<or> (\<forall>k \<in> set entries. k ! length eqs \<noteq> VNull)" if "ineqs \<noteq> []"
  proof (cases "list_ex lower_op (ap_seek_terms path)")
    case True
    then obtain p where p: "p \<in> set (eqs @ ineqs)" "lower_op p" by (auto simp: path(2) list_ex_iff)
    have "p \<notin> set eqs"
    proof
      assume "p \<in> set eqs"
      then have "is_equality p" using path(3) unfolding seek_shape_def by (metis in_set_conv_nth)
      then show False using p(2) by (auto simp: is_equality_def lower_op_def)
    qed
    then show ?thesis using p by auto
  next
    case False
    obtain p where p: "p \<in> set ineqs" using \<open>ineqs \<noteq> []\<close> by (cases ineqs) auto
    then have "\<not> is_equality p" using path(3) by (simp add: seek_shape_def)
    then have up: "upper_op p" using ok p False by (auto simp: term_ok_def known_op_def path(2) list_ex_iff)
    then have nn: "\<forall>r \<in> set rows. \<forall>i < length (ts_columns table). cs_name (ts_columns table ! i) = pr_column p \<longrightarrow> snd r ! i \<noteq> VNull"
    proof -
      have "list_ex upper_op (ap_seek_terms path)" using p up by (auto simp: path(2) list_ex_iff)
      then have "list_all (\<lambda>p. upper_op p \<longrightarrow> list_all (\<lambda>r. \<forall>i < length (ts_columns table). cs_name (ts_columns table ! i) = pr_column p \<longrightarrow> snd r ! i \<noteq> VNull) rows)
          (ap_seek_terms path)" using safe path(1) False by (simp add: seek_safe_def)
      then show ?thesis using p up unfolding list_all_iff path(2) set_append by blast
    qed
    have n: "length eqs < length ?cols" "pr_column p = ?cols ! length eqs" using incol p by simp_all
    have "p \<in> set (fst (extract_predicates w))" using terms(1) p by auto
    then obtain e where e: "e \<in> set (extract_conjuncts w)" "classify_predicate e 0 = Some p" by (auto simp: extract_predicates_mem)
    have ot: "of_table table e" using e(1) w of_table_conjuncts by (auto simp: extract_conjuncts_def split: option.splits)
    obtain j where j: "j < length (ts_columns table)" "pr_column p = cs_name (ts_columns table ! j)"
      using e(2) ot by (cases rule: classify_shape) auto
    have "column_index u table (?cols ! length eqs) = Inr (cidx ! length eqs)" using map_res_eq_Inr_nth [OF c] n(1) by simp
    then have cj: "cidx ! length eqs = j" using column_index_name [OF named j(1) refl] n(2) j(2) by simp
    have "length cidx = length ?cols" using map_res_eq_Inr_length [OF c] by simp
    then have "index_entry cidx r ! length eqs = snd r ! j" for r using n(1) cj by (simp add: index_entry_def nth_append)
    moreover have "set entries = index_entry cidx ` set rows" using arg_cong [OF entries, of set_mset] by simp
    ultimately show ?thesis using nn j by auto
  qed
  from seek_yields [OF R path(3) refl path(2) ok nulls] obtain ids where
    ids: "bind_res (index_scan_request path []) (run_request ir) = Inr ids" "mset ids = mset (map rowid_of (filter (entry_holds eqs ineqs) entries))" by blast
  have pr: "path_rows ir rows path = Inr (List.map_filter (row_lookup rows) ids)"
    using ids(1) path(1) by (auto simp: path_rows_def index_scan_rows_def bind_res_eq_Inr)
  let ?F = "filter_mset (entry_holds eqs ineqs) (mset entries)"
  have F: "?F = image_mset (index_entry cidx) (filter_mset (\<lambda>r. \<forall>p \<in> set (ap_seek_terms path). passes (snd r) (pr_source p)) (mset rows))"
    unfolding entries filter_mset_image_mset by (rule arg_cong [where f = "image_mset _"], rule filter_mset_cong [OF refl]) (use holds in simp)
  have "mset (List.map_filter (row_lookup rows) ids) = mset (List.map_filter (row_lookup rows) (map rowid_of (filter (entry_holds eqs ineqs) entries)))"
    by (rule map_filter_perm [OF ids(2)])
  also have "List.map_filter (row_lookup rows) (map rowid_of (filter (entry_holds eqs ineqs) entries))
      = map (the \<circ> row_lookup rows \<circ> rowid_of) (filter (entry_holds eqs ineqs) entries)"
  proof (rule map_filter_lookup)
    fix k assume "k \<in> set (filter (entry_holds eqs ineqs) entries)"
    then have "k \<in> index_entry cidx ` set rows" using arg_cong [OF entries, of set_mset] by simp
    then show "row_lookup rows (rowid_of k) = Some ((the \<circ> row_lookup rows \<circ> rowid_of) k)" using lookup_entry [OF rows] by auto
  qed
  also have "mset \<dots> = image_mset (the \<circ> row_lookup rows \<circ> rowid_of) ?F" by (simp add: mset_filter)
  also have "\<dots> = image_mset snd (filter_mset (\<lambda>r. \<forall>p \<in> set (ap_seek_terms path). passes (snd r) (pr_source p)) (mset rows))"
    unfolding F multiset.map_comp by (rule image_mset_cong) (use lookup_entry [OF rows] in auto)
  finally show ?thesis using pr by blast
qed

text \<open>
  C19. The planner never changes results: whatever legal access path of a single-table query is chosen, the rows it
  gives, through the filter of what it leaves unchecked, are exactly the table's rows that satisfy the condition, each as often. This is
  for a consistent index, a condition that evaluates on every row, values without NaN, and seeks that are safe: no
  LIKE among the terms, on each column one equality or inequalities but not both, and with an upper bound a lower one or no
  NULL in the column. The seeks left out do change results, see \<open>unsafe_seeks_change_results\<close>.
\<close>

theorem access_paths_agree:
  assumes paths: "enumerate_access_paths u table indexes (fst (extract_predicates w)) 0 = Inr paths" and path: "path \<in> set paths"
    and w: "pred_option (of_table table) w" "\<forall>r \<in> set rows. \<forall>c \<in> set (extract_conjuncts w). evaluates (snd r) c"
      "\<forall>p \<in> set (fst (extract_predicates w)). has_value p"
    and rows: "rows_ok table rows" and named: "well_named u table"
    and index: "\<And>index. ap_index path = Some index \<Longrightarrow> reads_index ir entries (length (is_columns index)) \<and> index_of_rows u table index rows entries"
    and safe: "seek_safe table rows (fst (extract_predicates w)) path"
  shows "\<exists>rs. pipeline_rows ir rows w path = Inr rs \<and> mset rs = mset (filter (\<lambda>row. passes_opt row w) (map snd rows))"
proof -
  let ?ps = "fst (extract_predicates w)" and ?others = "snd (extract_predicates w)"
  let ?holds = "\<lambda>r. \<forall>p \<in> set (ap_seek_terms path). passes (snd r) (pr_source p)"
  have terms: "set (ap_seek_terms path) \<union> set (ap_residual path) = set ?ps"
    using paths path by (cases rule: enumerated_cases)
      (auto simp: seq_scan_path_def dest: match_index_prefix_terms order_path_fields)
  have given: "\<exists>rs. path_rows ir rows path = Inr rs \<and> mset rs = image_mset snd (filter_mset ?holds (mset rows))"
    using paths path
  proof (cases rule: enumerated_cases)
    case seq
    then show ?thesis by (simp add: seq_scan_path_def path_rows_def)
  next
    case (seek index)
    note M = match_index_prefix_terms [OF seek(2)]
    have "single_terms (is_columns index) (map snd (zip [0..<length ?ps] ?ps))" using safe M by (simp add: seek_safe_def)
    from seek_prefix_shape [OF this] obtain eqs ineqs where s: "ap_seek_terms path = eqs @ ineqs" "seek_shape (is_columns index) eqs ineqs"
      using M by auto
    have "set (eqs @ ineqs) \<subseteq> set ?ps" "\<forall>p \<in> set (eqs @ ineqs). has_value p" using terms w(3) unfolding s(1) [symmetric] by auto
    from seek_rows [OF conjunct1 [OF index] conjunct2 [OF index] rows named w(1) _ s this safe] M show ?thesis by simp
  next
    case (order index reverse)
    note O = order_path_fields [OF order(3)]
    have s: "ap_seek_terms path = [] @ []" "seek_shape (is_columns index) [] []" using O by (simp_all add: seek_shape_def)
    have "set ([] @ []) \<subseteq> set ?ps" "\<forall>p \<in> set ([] @ []). has_value p" by simp_all
    from seek_rows [OF conjunct1 [OF index] conjunct2 [OF index] rows named w(1) _ s this safe] O show ?thesis by simp
  qed
  have pass: "?holds r \<and> passes_opt (snd r) (residual_filter_expression ?others (ap_residual path)) \<longleftrightarrow> passes_opt (snd r) w" if r: "r \<in> set rows" for r
  proof -
    have ev: "\<forall>c \<in> set (extract_conjuncts w). evaluates (snd r) c" using w(2) r by blast
    have src: "pr_source ` set ?ps \<union> set ?others = set (extract_conjuncts w)" by (rule sources_conjuncts)
    then have "\<forall>c \<in> set (?others @ map pr_source (ap_residual path)). evaluates (snd r) c" using ev terms by auto
    from passes_and_all [OF this] have "passes_opt (snd r) (residual_filter_expression ?others (ap_residual path))
      \<longleftrightarrow> (\<forall>c \<in> set ?others. passes (snd r) c) \<and> (\<forall>p \<in> set (ap_residual path). passes (snd r) (pr_source p))"
      by (auto simp: residual_filter_expression_def)
    moreover have "passes_opt (snd r) w \<longleftrightarrow> (\<forall>p \<in> set ?ps. passes (snd r) (pr_source p)) \<and> (\<forall>c \<in> set ?others. passes (snd r) c)"
      unfolding passes_where [OF ev] src [symmetric] by blast
    ultimately show ?thesis unfolding terms [symmetric] by blast
  qed
  from given obtain rs where rs: "path_rows ir rows path = Inr rs" "mset rs = image_mset snd (filter_mset ?holds (mset rows))" by blast
  let ?f = "\<lambda>row. passes_opt row (residual_filter_expression ?others (ap_residual path))"
  have "mset (filter ?f rs) = image_mset snd (filter_mset (\<lambda>r. ?holds r \<and> ?f (snd r)) (mset rows))"
    by (simp add: mset_filter rs(2) filter_mset_image_mset filter_filter_mset conj_commute)
  also have "\<dots> = image_mset snd (filter_mset (\<lambda>r. passes_opt (snd r) w) (mset rows))"
    by (rule arg_cong [where f = "image_mset _"], rule filter_mset_cong [OF refl]) (use pass in simp)
  also have "\<dots> = mset (filter (\<lambda>row. passes_opt row w) (map snd rows))" by (simp add: mset_filter filter_mset_image_mset)
  finally show ?thesis using rs(1) by (simp add: pipeline_rows_def)
qed

section \<open>Examples\<close>

text \<open>The reader of an index kept as a list.\<close>

definition list_reader :: "pyval list list \<Rightarrow> index_reader" where
  "list_reader entries =
     \<lparr>ir_from = (\<lambda>probe. dropWhile (\<lambda>key. compare_keys probe key = Inr 1) entries), ir_forward = entries, ir_backward = rev entries\<rparr>"

lemma list_reader_reads:
  assumes "sorted (map places entries)" and "\<forall>key \<in> set entries. clean key \<and> length key = width + 1"
  shows "reads_index (list_reader entries) entries width"
proof -
  have "dropWhile (\<lambda>key. compare_keys probe key = Inr 1) ks = dropWhile (\<lambda>key. places (take (length probe) key) < places probe) ks"
    if "clean probe" "length probe \<le> width + 1" "set ks \<subseteq> set entries" for probe ks
    using that assms(2) by (induction ks) (auto simp: compare_keys_places place_cmp_def)
  then show ?thesis using assms by (simp add: reads_index_def list_reader_def)
qed

text \<open>A table \<^verbatim>\<open>t(a INTEGER, b TEXT)\<close> of three rows, and an index on one of its columns.\<close>

definition example_rows :: "(int \<times> pyval list) list" where
  "example_rows = [(1, [VInt 1, VText [120]]), (2, [VInt 1, VText [121]]), (3, [VNull, VText [122]])]"

definition column_a :: bound_expression where "column_a = BoundColumn 0 [97] INTEGER_T 0"
definition column_b :: bound_expression where "column_b = BoundColumn 1 [98] TEXT_T 0"

definition example_index :: "ustr \<Rightarrow> index_schema" where
  "example_index column = \<lparr>is_name = [105], is_table = [116], is_columns = [column], is_unique = False, is_root_page = 3, is_sql = []\<rparr>"

definition entries_a :: "pyval list list" where "entries_a = [[VNull, VInt 3], [VInt 1, VInt 1], [VInt 1, VInt 2]]"
definition entries_b :: "pyval list list" where "entries_b = [[VText [120], VInt 1], [VText [121], VInt 2], [VText [122], VInt 3]]"

text \<open>What a condition selects through the index, and without one.\<close>

definition index_answer :: "index_schema \<Rightarrow> pyval list list \<Rightarrow> bound_expression \<Rightarrow> pyval list list res option" where
  "index_answer index entries w =
     map_option (pipeline_rows (list_reader entries) example_rows (Some w)) (match_index_prefix index (fst (extract_predicates (Some w))))"

definition scan_answer :: "bound_expression \<Rightarrow> pyval list list" where
  "scan_answer w = filter (\<lambda>row. passes row w) (map snd example_rows)"

definition both :: "bound_expression \<Rightarrow> bound_expression \<Rightarrow> bound_expression" where
  "both l r = BoundBinaryOp l ''AND'' r"

definition compare_a :: "string \<Rightarrow> int \<Rightarrow> bound_expression" where
  "compare_a oper n = BoundBinaryOp column_a oper (BoundLiteral (VInt n))"

lemma unsafe_twice: "index_answer (example_index [97]) entries_a (both (compare_a ''='' 1) (compare_a ''='' 1)) = Some (Inr [[VInt 1, VText [120]]])"
  by code_simp

lemma unsafe_beside: "index_answer (example_index [97]) entries_a (both (compare_a ''='' 1) (compare_a ''>'' 1)) = Some (Inr [[VInt 1, VText [121]]])"
  by code_simp

lemma unsafe_null: "index_answer (example_index [97]) entries_a (compare_a ''<'' 1) = Some (Inr [[VNull, VText [122]]])"
  by code_simp

lemma unsafe_like: "index_answer (example_index [98]) entries_b (BoundBinaryOp column_b ''LIKE'' (BoundLiteral (VText [120, 37])))
   = Some (Inr [[VInt 1, VText [120]], [VInt 1, VText [121]], [VNull, VText [122]]])"
  by code_simp


text \<open>\<^verbatim>\<open>SELECT * FROM t WHERE a = 1 AND b = 'y'\<close> through the index on \<^verbatim>\<open>a\<close>.\<close>

definition safe_where :: bound_expression where
  "safe_where = both (compare_a ''='' 1) (BoundBinaryOp column_b ''='' (BoundLiteral (VText [121])))"

definition safe_path :: access_path where
  "safe_path = the (match_index_prefix (example_index [97]) (fst (extract_predicates (Some safe_where))))"

theorem access_paths_agree_witness:
  "\<exists>rs. pipeline_rows (list_reader entries_a) example_rows (Some safe_where) safe_path = Inr rs
     \<and> mset rs = mset (filter (\<lambda>row. passes_opt row (Some safe_where)) (map snd example_rows))"
proof (rule access_paths_agree)
  show "enumerate_access_paths ascii_tables example_table [example_index [97]] (fst (extract_predicates (Some safe_where))) 0
      = Inr [seq_scan_path (fst (extract_predicates (Some safe_where))), safe_path]" by code_simp
  show "safe_path \<in> set [seq_scan_path (fst (extract_predicates (Some safe_where))), safe_path]" by simp
  show "pred_option (of_table example_table) (Some safe_where)"
    by (simp add: safe_where_def both_def compare_a_def column_a_def column_b_def example_table_def)
  have "\<forall>r \<in> set example_rows. \<forall>c \<in> set (extract_conjuncts (Some safe_where)). evaluate c (snd r) \<noteq> Inl (case evaluate c (snd r) of Inl e \<Rightarrow> e | Inr v \<Rightarrow> ValueError)"
    by code_simp
  then show "\<forall>r \<in> set example_rows. \<forall>c \<in> set (extract_conjuncts (Some safe_where)). evaluates (snd r) c"
    by (fastforce simp: evaluates_def split: sum.splits)
  show "\<forall>p \<in> set (fst (extract_predicates (Some safe_where))). has_value p"
    by (simp add: safe_where_def both_def compare_a_def column_a_def column_b_def extract_predicates_def extract_conjuncts_def List.map_filter_simps
        classify_comparison_def bare_column_def SARGABLE_COMPARISONS_def has_value_def)
  show "rows_ok example_table example_rows" by (simp add: rows_ok_def example_rows_def example_table_def)
  show "well_named ascii_tables example_table" by (simp add: well_named_def example_table_def ascii_tables_def)
  show "seek_safe example_table example_rows (fst (extract_predicates (Some safe_where))) safe_path" by code_simp
  fix index assume "ap_index safe_path = Some index"
  moreover have "ap_index safe_path = Some (example_index [97])" by code_simp
  ultimately have i: "index = example_index [97]" by simp
  have "sorted (map places entries_a)" by code_simp
  then have "reads_index (list_reader entries_a) entries_a 1" by (rule list_reader_reads) (simp add: entries_a_def)
  moreover have "map_res (column_index ascii_tables example_table) [[97]] = Inr [0]" by code_simp
  ultimately show "reads_index (list_reader entries_a) entries_a (length (is_columns index)) \<and> index_of_rows ascii_tables example_table index example_rows entries_a"
    by (simp add: i example_index_def index_of_rows_def entries_a_def example_rows_def index_entry_def)
qed

end
