(* ===== verification/PlanOrder.thy ===== *)
theory PlanOrder
  imports PlanCorrect
begin

text \<open>
  What the planner reuses and what it skips: a cached shape gives back a legal path, and a sort is left out only
  when the rows come in order.
\<close>

section \<open>The plan cache\<close>

lemma find_named:
  assumes "distinct (map is_name indexes)" and "index \<in> set indexes"
  shows "find (\<lambda>i. is_name i = is_name index) indexes = Some index"
  using assms by (induction indexes) auto

lemma map_res_member: "map_res f xs = Inr ys \<Longrightarrow> x \<in> set xs \<Longrightarrow> \<exists>y \<in> set ys. f x = Inr y"
  by (induction xs arbitrary: ys) (auto simp: bind_res_eq_Inr)

text \<open>
  C21. A cached plan is a legal plan: the shape that was stored for an SQL text is returned for the same schema cookie only, and rebuilt
  on any later call's predicates it gives one of the access paths a fresh enumeration would list for them; on the predicates
  it was taken from, the very path that was chosen.
\<close>

theorem cached_plan_legal:
  assumes "enumerate_access_paths u table indexes predicates k = Inr paths" and "path \<in> set paths"
    and "enumerate_access_paths u table indexes later k = Inr later_paths" and "distinct (map is_name indexes)"
  shows "cache_get (cache_put cache sql cookie (access_path_shape path)) sql cookie' = (if cookie' = cookie then Some (access_path_shape path) else None)
    \<and> rebuild_access_path u (access_path_shape path) table indexes predicates k = Some (Inr path)
    \<and> (\<exists>later_path \<in> set later_paths. rebuild_access_path u (access_path_shape path) table indexes later k = Some (Inr later_path))"
proof -
  have get: "cache_get (cache_put cache sql cookie (access_path_shape path)) sql cookie' = (if cookie' = cookie then Some (access_path_shape path) else None)"
    by (simp add: cache_get_def cache_put_def)
  obtain pss where pss: "map_res (index_paths u table later k) indexes = Inr pss" "later_paths = seq_scan_path later # concat pss"
    using assms(3) by (auto simp: enumerate_access_paths_def bind_res_eq_Inr)
  have legal: "\<exists>later_path \<in> set later_paths. (case match_index_prefix index later of
      Some p \<Rightarrow> Inr p | None \<Rightarrow> index_order_path u index later table k reverse) = Inr later_path" if "index \<in> set indexes" for index reverse
  proof -
    obtain ps where ps: "index_paths u table later k index = Inr ps" "ps \<in> set pss" using map_res_member [OF pss(1) \<open>index \<in> set indexes\<close>] by blast
    then have sub: "set ps \<subseteq> set later_paths" using pss(2) by auto
    show ?thesis
    proof (cases "match_index_prefix index later")
      case None
      then show ?thesis using ps(1) sub by (cases reverse) (auto simp: index_paths_def bind_res_eq_Inr)
    next
      case (Some p)
      then show ?thesis using ps(1) sub by (auto simp: index_paths_def)
    qed
  qed
  have seq: "seq_scan_path later \<in> set later_paths" using pss(2) by simp
  show ?thesis using assms(1,2)
  proof (cases rule: enumerated_cases)
    case seq
    then show ?thesis using get \<open>seq_scan_path later \<in> set later_paths\<close> by (simp add: access_path_shape_def seq_scan_path_def rebuild_access_path_def)
  next
    case (seek index)
    then have "ap_index path = Some index" using match_index_prefix_terms by blast
    then show ?thesis using get seek find_named [OF assms(4) seek(1)] legal [OF seek(1), of "ap_reverse path"]
      by (simp add: access_path_shape_def rebuild_access_path_def cong: option.case_cong)
  next
    case (order index reverse)
    note O = order_path_fields [OF order(3)]
    then show ?thesis using get order find_named [OF assms(4) order(1)] legal [OF order(1), of "ap_reverse path"]
      by (simp add: access_path_shape_def rebuild_access_path_def cong: option.case_cong)
  qed
qed

section \<open>Leaving out a sort\<close>

text \<open>
  \<^verbatim>\<open>sort_cost\<close> is \<^verbatim>\<open>0.0\<close> exactly when the order asked for begins the order the path gives (otherwise it is \<^verbatim>\<open>0.01\<close> times the rows times the
  logarithm of their number, of two at least); then \<^verbatim>\<open>build_operator\<close> adds no sort.
\<close>

definition order_satisfied :: "access_path \<Rightarrow> sort_key list \<Rightarrow> bool" where
  "order_satisfied path order_by \<longleftrightarrow>
     list_all2 (\<lambda>a b. bound_eq (sk_expression a) (sk_expression b) \<and> sk_descending a = sk_descending b)
       (take (length order_by) (ap_output_order path)) order_by"

definition skip_sort :: "access_path \<Rightarrow> sort_key list \<Rightarrow> bool" where
  "skip_sort path order_by \<longleftrightarrow> order_by \<noteq> [] \<and> ap_output_order path \<noteq> [] \<and> order_satisfied path order_by"

text \<open>The order asked for, as positions in the table's row.\<close>

definition row_keys :: "sort_key list \<Rightarrow> bound_order_key list" where
  "row_keys order_by = map (\<lambda>k. \<lparr>key_index = (case sk_expression k of BoundColumn i name ty ordinal \<Rightarrow> i | _ \<Rightarrow> 0), descending = sk_descending k\<rparr>) order_by"

lemma row_order_same_direction:
  "row_order (map (\<lambda>i. \<lparr>key_index = i, descending = d\<rparr>) idx) a b \<le> 0
   \<longleftrightarrow> (if d then places (map ((!) b) idx) \<le> places (map ((!) a) idx) else places (map ((!) a) idx) \<le> places (map ((!) b) idx))"
proof (induction idx)
  case (Cons i js)
  show ?case
    by (cases "key_place (a ! i)" "key_place (b ! i)" rule: linorder_cases) (use Cons in \<open>auto simp: place_cmp_def Let_def\<close>)
qed simp

lemma order_path_output:
  assumes "index_order_path u index predicates table k reverse = Inr path"
  shows "\<exists>cidx. map_res (column_index u table) (is_columns index) = Inr cidx
    \<and> map (\<lambda>s. case sk_expression s of BoundColumn i name ty ordinal \<Rightarrow> i | _ \<Rightarrow> 0) (ap_output_order path) = cidx
    \<and> (\<forall>s \<in> set (ap_output_order path). sk_descending s = reverse \<and> (\<exists>i name ty. sk_expression s = BoundColumn i name ty k))"
proof -
  obtain out where out: "map_res (\<lambda>name. bind_res (column_index u table name) (\<lambda>i.
         Inr \<lparr>sk_expression = BoundColumn i name (cs_data_type (ts_columns table ! i)) k, sk_descending = reverse\<rparr>)) (is_columns index) = Inr out"
    "ap_output_order path = out" using assms by (auto simp: index_order_path_def bind_res_eq_Inr)
  have "\<exists>cidx. map_res (column_index u table) cols = Inr cidx \<and> map (\<lambda>s. case sk_expression s of BoundColumn i name ty ordinal \<Rightarrow> i | _ \<Rightarrow> 0) out = cidx
    \<and> (\<forall>s \<in> set out. sk_descending s = reverse \<and> (\<exists>i name ty. sk_expression s = BoundColumn i name ty k))"
    if "map_res (\<lambda>name. bind_res (column_index u table name) (\<lambda>i.
         Inr \<lparr>sk_expression = BoundColumn i name (cs_data_type (ts_columns table ! i)) k, sk_descending = reverse\<rparr>)) cols = Inr out" for cols out
    using that by (induction cols arbitrary: out) (auto simp: bind_res_eq_Inr)
  from this [OF out(1)] show ?thesis unfolding out(2) by blast
qed

lemma satisfied_keys:
  assumes "list_all2 (\<lambda>a b. bound_eq (sk_expression a) (sk_expression b) \<and> sk_descending a = sk_descending b) xs ys"
    and "\<forall>s \<in> set xs. \<exists>i name ty. sk_expression s = BoundColumn i name ty k"
  shows "row_keys ys = row_keys xs"
  using assms
proof (induction rule: list_all2_induct)
  case (Cons x xs y ys)
  then obtain i name ty where "sk_expression x = BoundColumn i name ty k" by auto
  then have "sk_expression y = BoundColumn i name ty k" using Cons(1) by (cases "sk_expression y") auto
  then show ?case using Cons \<open>sk_expression x = _\<close> by (simp add: row_keys_def)
qed (simp add: row_keys_def)

lemma sorted_wrt_map_filter:
  "sorted_wrt P xs \<Longrightarrow> (\<And>x y. x \<in> set xs \<Longrightarrow> y \<in> set xs \<Longrightarrow> P x y \<Longrightarrow> Q (the (f x)) (the (f y))) \<Longrightarrow> sorted_wrt Q (List.map_filter f xs)"
proof (induction xs)
  case (Cons x xs)
  then show ?case by (cases "f x") (fastforce simp: List.map_filter_simps List.map_filter_def)+
qed (simp add: List.map_filter_simps)


text \<open>Witnesses: \<^verbatim>\<open>ORDER BY a DESC\<close> over the walk back through the index on \<^verbatim>\<open>a\<close>.\<close>

definition walk_path :: "bool \<Rightarrow> access_path" where
  "walk_path reverse = \<lparr>ap_index = Some (example_index [97]), ap_seek_terms = [], ap_residual = [],
     ap_output_order = [\<lparr>sk_expression = column_a, sk_descending = reverse\<rparr>], ap_reverse = reverse\<rparr>"

lemma walk_paths:
  "enumerate_access_paths ascii_tables example_table [example_index [97]] (fst (extract_predicates None)) 0
     = Inr [seq_scan_path [], walk_path False, walk_path True]"
  by code_simp

theorem cached_plan_legal_witness:
  "rebuild_access_path ascii_tables (access_path_shape (walk_path True)) example_table [example_index [97]] (fst (extract_predicates None)) 0 = Some (Inr (walk_path True))"
  using cached_plan_legal [OF walk_paths _ walk_paths, of "walk_path True"] by simp


end
