(* ===== verification/Spec2Isabelle.thy ===== *)
theory Spec2Isabelle
  imports RecordCodec Page Header Cells Search Split Pager Journal Recovery BufferPool PoolStore Overflow Transaction TableMap LockSafety TableCursor StatementGrammar PlanOrder
begin

text \<open>
  quilldb is a relational database engine in pure Python that keeps its data in SQLite's file format.
  This development models the engine's own logic, from the bytes of a page up, and proves what makes it
  correct. Paths below are under \<^verbatim>\<open>src/src/quilldb/\<close>.

  \<^bold>\<open>The program.\<close> Bottom up: \<^verbatim>\<open>codec/\<close> turns integers and rows into bytes; \<^verbatim>\<open>storage/\<close> lays cells out on
  pages, keeps the file header, reads and writes pages (\<^verbatim>\<open>pager\<close>), caches them under pins (\<^verbatim>\<open>bufferpool\<close>)
  and spills long payloads (\<^verbatim>\<open>overflow\<close>); \<^verbatim>\<open>txn/\<close> makes a group of page changes atomic with a rollback
  journal (\<^verbatim>\<open>journal\<close>, \<^verbatim>\<open>recovery\<close>, \<^verbatim>\<open>transaction\<close>) and serializes transactions (\<^verbatim>\<open>locks\<close>); \<^verbatim>\<open>btree/\<close>
  builds tables on pages and moves cursors over them; \<^verbatim>\<open>sql/\<close> scans and parses statements; \<^verbatim>\<open>plan/\<close>
  chooses access paths; \<^verbatim>\<open>exec/\<close> evaluates expressions, sorts, groups and runs the operators; \<^verbatim>\<open>catalog/\<close> and
  \<^verbatim>\<open>api/\<close> tie them together. The interactions modelled are those by which these layers rely on each other:
  the b-tree on the pool's pages and pins, the pool on the pager and on the journal (a page is journalled
  before its first change), commit and recovery on the order of their file operations, the cursor on the
  tree the b-tree keeps, sorting and aggregation on the order of values the index keys share.

  \<^bold>\<open>How code becomes definitions.\<close> A dataclass is a record, an enumeration a datatype, a pure function a
  HOL function. A fallible function returns \<open>err + 'a\<close>, with one constructor per exception class (\<open>err\<close>, theory
  Prelude); messages are not modelled. A method that changes state is an operation \<open>('s, 'a) op\<close> (theory
  Effects): it returns its result and the state it left, also when it raises. A loop that follows page
  numbers from disk may not end: it is a partial function into \<open>option\<close> (\<open>loop_op\<close>, \<open>read_chain\<close>,
  \<open>free_chain\<close>) and that it ends is a theorem. A file is its bytes, Python's \<open>int\<close> is \<open>int\<close> or \<open>nat\<close>, a
  double its 64 bits, text its code points.

  \<^bold>\<open>The theories, and what their lemmas show.\<close>
  \<^item> Prelude, Effects, Constants: errors, results, byte strings, operations; \<^verbatim>\<open>errors.py\<close>, \<^verbatim>\<open>constants.py\<close>.
  \<^item> Varint, Utf8, RecordCodec (\<^verbatim>\<open>codec/\<close>): encoders and decoders are inverse, the size loops end, one
    column decodes as the whole row would.
  \<^item> Page, Header, Cells, Search, Split (\<^verbatim>\<open>storage/page\<close>, \<^verbatim>\<open>storage/header\<close>, \<^verbatim>\<open>btree/cells\<close>,
    \<^verbatim>\<open>btree/search\<close>, \<^verbatim>\<open>btree/split\<close>): pages, headers and cells round-trip; the binary searches agree with a
    linear scan; splits keep every cell and its order.
  \<^item> Pager, Journal, Recovery, BufferPool, Transaction (\<^verbatim>\<open>storage/pager\<close>, \<^verbatim>\<open>storage/bufferpool\<close>, \<^verbatim>\<open>txn/\<close>):
    the pool shows the pages that were last written (\<open>view\<close>) whatever it caches or evicts; rollback,
    commit and recovery after a crash at any point give the old or the new database, never a mixture.
  \<^item> PageStore, Pinned, PoolStore: the contract \<open>page_store\<close> that page clients rely on, proved of the pool
    while some pages are pinned (\<open>held\<close>: who holds which pins; \<open>live_pages\<close>: the pages not on the freelist).
  \<^item> Overflow (\<^verbatim>\<open>storage/overflow\<close>): chains round-trip and reading ends on any file.
  \<^item> BTree (\<^verbatim>\<open>btree/btree\<close>) and TableTree, TreeSearch, TreeWrite, Promote, LeafSplit, TreeInsert, TreeDelete,
    Table, TableMap: the pages of a table hold a tree (\<open>stored\<close>, \<open>table_tree\<close>: keys in order, one depth, no
    empty leaf but a root, no page used twice); a descent is a tree with a hole (\<open>plug\<close>, \<open>tframe\<close>); search,
    insertion with all its splits and deletion with the freeing of emptied pages keep it, and together
    refine a finite map (locale \<open>rowid_table\<close>).
  \<^item> TableCursor (\<^verbatim>\<open>btree/cursor\<close>): a cursor refines an index into the rows in key order.
  \<^item> Locks, LockSafety (\<^verbatim>\<open>txn/locks\<close>): holders are compatible, requests are served in order, the queue
    drains, the deadlock detector is sound and complete for its graph, and what its graph misses.
  \<^item> Values, Expressions (\<^verbatim>\<open>exec/expressions\<close>): three-valued logic, \<^verbatim>\<open>LIKE\<close>, 64-bit arithmetic.
  \<^item> Sorting, Aggregate (\<^verbatim>\<open>exec/sort\<close>, \<^verbatim>\<open>exec/aggregate\<close>, \<^verbatim>\<open>compare_keys\<close> of \<^verbatim>\<open>btree/index\<close>): the order of
    values is total, \<^verbatim>\<open>ORDER BY\<close> sorts stably (locale \<open>comparison\<close>), \<^verbatim>\<open>GROUP BY\<close> partitions.

  \<^bold>\<open>Bounds.\<close> Page numbers are below \<open>2 ^ 32\<close> and payloads below \<open>2 ^ 64\<close>, as the format has them. The
  b-tree theorems ask for a pool of a few pages more than are pinned (the three that insertion holds at
  once, a path for a cursor) and for spare pages: two per level and the overflow chain for one insertion;
  \<open>table_holds root n\<close> reserves enough for \<open>n\<close> further calls, since each may raise the tree by one level. Rows
  of at most 2020 bytes keep \<^verbatim>\<open>PageFullError\<close> out of the map refinement; \<open>insert_correct\<close> has no such bound.

  \<^bold>\<open>Not modelled.\<close> Threads inside one call: latches and conditions only make a stretch of code one step. The
  operating system's buffering and \<^verbatim>\<open>fsync\<close>: a write is in the file at once, and a crash is a cut of the
  sequence of file operations. Index b-trees (\<^verbatim>\<open>btree/index\<close>, except \<^verbatim>\<open>compare_keys\<close>), the invariant
  checker (\<^verbatim>\<open>btree/validate\<close>), name resolution (\<^verbatim>\<open>sql/binder\<close>), the planner (\<^verbatim>\<open>plan/\<close>), the remaining operators
  and joins (\<^verbatim>\<open>exec/operators\<close>, \<^verbatim>\<open>exec/join\<close>), the catalog and the connection (\<^verbatim>\<open>catalog/\<close>, \<^verbatim>\<open>api/\<close>, but for the
  unwiring of a finished transaction) and the shell (\<^verbatim>\<open>cli\<close>, input and output only): their code is
  translated in none of the theories. Messages of exceptions and \<^verbatim>\<open>EXPLAIN\<close>'s text are left out.
\<close>

end
